(* ===== verification/Prelude.thy ===== *)
theory Prelude
  imports Main "HOL-Library.Word" "HOL-Library.Char_ord" "HOL-Library.List_Lexorder"
begin

text \<open>
  Shared vocabulary of the development: the machine types of the C++ sources, the ways in
  which a C++ operation can fail to return (dereferencing a null or deleted pointer, a failed
  \<^verbatim>\<open>assert\<close>, an exception nobody catches, reading an indeterminate value), the result type
  that carries them, and \<^verbatim>\<open>std::map\<close> as an association list sorted by key.  The generic lemmas
  the components share are collected in \<open>res_simps\<close> and \<open>smap_simps\<close>.
\<close>

section \<open>Machine types\<close>

type_synonym u8 = "8 word"
type_synonym u32 = "32 word"
type_synonym u64 = "64 word"

text \<open>A C string ends at its first NUL byte: what \<^verbatim>\<open>c_str()\<close> shows to a \<^verbatim>\<open>const char*\<close> reader.\<close>

definition c_str :: "string \<Rightarrow> string" where
  "c_str s = takeWhile (\<lambda>c. c \<noteq> CHR 0x00) s"

definition no_nul :: "string \<Rightarrow> bool" where
  "no_nul s \<longleftrightarrow> list_all (\<lambda>c. c \<noteq> CHR 0x00) s"

lemma c_str_no_nul [simp]: "no_nul s \<Longrightarrow> c_str s = s"
  by (simp add: c_str_def no_nul_def list_all_iff takeWhile_eq_all_conv)

lemma no_nul_c_str [simp]: "no_nul (c_str s)"
  by (auto simp: c_str_def no_nul_def list_all_iff dest: set_takeWhileD)

lemma no_nul_append [simp]: "no_nul (s @ t) \<longleftrightarrow> no_nul s \<and> no_nul t"
  by (simp add: no_nul_def)

lemma no_nul_Nil [simp]: "no_nul []"
  by (simp add: no_nul_def)

section \<open>Results: a value, or the way the program fails\<close>

datatype fault =
    NullDeref          \<comment> \<open>a null pointer or an empty optional is dereferenced\<close>
  | DeadDeref          \<comment> \<open>a deleted or never initialised object is used\<close>
  | AssertFailed       \<comment> \<open>\<^verbatim>\<open>assert\<close> fails\<close>
  | OutOfRange         \<comment> \<open>a vector is indexed past its end\<close>
  | Indeterminate      \<comment> \<open>a variable that was never written is read\<close>
  | Uncaught           \<comment> \<open>an exception leaves the function\<close>
  | SignedOverflow     \<comment> \<open>signed arithmetic leaves the range of its type\<close>
  | Hangs              \<comment> \<open>a loop never ends\<close>

type_synonym 'a res = "fault + 'a"

named_theorems res_simps

definition res_bind :: "'a res \<Rightarrow> ('a \<Rightarrow> 'b res) \<Rightarrow> 'b res" where
  "res_bind r f = (case r of Inl e \<Rightarrow> Inl e | Inr x \<Rightarrow> f x)"

lemma res_bind_simps [simp, res_simps]:
  "res_bind (Inl e) f = Inl e"
  "res_bind (Inr x) f = f x"
  by (simp_all add: res_bind_def)

lemma res_bind_Inr_iff [res_simps]:
  "res_bind r f = Inr y \<longleftrightarrow> (\<exists>x. r = Inr x \<and> f x = Inr y)"
  by (cases r) auto

lemma res_bind_InrE [elim]:
  assumes "res_bind r f = Inr y"
  obtains x where "r = Inr x" "f x = Inr y"
  using assms by (auto simp: res_bind_Inr_iff)

text \<open>An optional pointer or \<^verbatim>\<open>boost::optional\<close> that the code dereferences without looking.\<close>

definition deref :: "'a option \<Rightarrow> 'a res" where
  "deref p = (case p of None \<Rightarrow> Inl NullDeref | Some x \<Rightarrow> Inr x)"

lemma deref_simps [simp, res_simps]:
  "deref None = Inl NullDeref"
  "deref (Some x) = Inr x"
  by (simp_all add: deref_def)

lemma deref_Inr_iff [res_simps]: "deref p = Inr x \<longleftrightarrow> p = Some x"
  by (cases p) auto

text \<open>Calls that may throw: \<open>None\<close> is the exception.\<close>

definition nothrow :: "'a option \<Rightarrow> 'a res" where
  "nothrow p = (case p of None \<Rightarrow> Inl Uncaught | Some x \<Rightarrow> Inr x)"

lemma nothrow_simps [simp, res_simps]:
  "nothrow None = Inl Uncaught"
  "nothrow (Some x) = Inr x"
  by (simp_all add: nothrow_def)

lemma nothrow_Inr_iff [res_simps]: "nothrow p = Inr x \<longleftrightarrow> p = Some x"
  by (cases p) auto

text \<open>\<^verbatim>\<open>std::vector::operator[]\<close>.\<close>

definition vec_at :: "'a list \<Rightarrow> nat \<Rightarrow> 'a res" where
  "vec_at xs i = (if i < length xs then Inr (xs ! i) else Inl OutOfRange)"

lemma vec_at_Inr_iff [res_simps]: "vec_at xs i = Inr x \<longleftrightarrow> i < length xs \<and> xs ! i = x"
  by (auto simp: vec_at_def)

lemma vec_at_Cons [simp]:
  "vec_at (x # xs) 0 = Inr x"
  "vec_at (x # xs) (Suc i) = vec_at xs i"
  by (auto simp: vec_at_def)

section \<open>\<^verbatim>\<open>std::map\<close>: an association list sorted by key\<close>

type_synonym ('k, 'v) smap = "('k \<times> 'v) list"

fun smap_find :: "('k, 'v) smap \<Rightarrow> 'k \<Rightarrow> 'v option" where
  "smap_find [] k = None"
| "smap_find ((k', v) # m) k = (if k = k' then Some v else smap_find m k)"

text \<open>\<open>m[k] = v\<close>: overwrite the entry, or insert it where the key order puts it.\<close>

fun smap_put :: "('k :: linorder, 'v) smap \<Rightarrow> 'k \<Rightarrow> 'v \<Rightarrow> ('k, 'v) smap" where
  "smap_put [] k v = [(k, v)]"
| "smap_put ((k', v') # m) k v =
     (if k < k' then (k, v) # (k', v') # m
      else if k = k' then (k, v) # m
      else (k', v') # smap_put m k v)"

definition smap_ok :: "('k :: linorder, 'v) smap \<Rightarrow> bool" where
  "smap_ok m \<longleftrightarrow> sorted_wrt (<) (map fst m)"

named_theorems smap_simps

lemma smap_find_map_of [smap_simps]: "smap_find m k = map_of m k"
  by (induction m k rule: smap_find.induct) auto

lemma set_smap_put: "set (map fst (smap_put m k v)) = insert k (set (map fst m))"
  by (induction m k v rule: smap_put.induct) auto

lemma smap_ok_put [simp]: "smap_ok m \<Longrightarrow> smap_ok (smap_put m k v)"
proof (induction m k v rule: smap_put.induct)
  case (1 k v)
  then show ?case by (simp add: smap_ok_def)
next
  case (2 k' v' m k v)
  then show ?case
    using set_smap_put [of m k v] by (fastforce simp: smap_ok_def)
qed

lemma smap_find_put [simp]:
  "smap_find (smap_put m k v) j = (if j = k then Some v else smap_find m j)"
  by (induction m k v rule: smap_put.induct) auto

text \<open>\<open>m.erase(k)\<close>.\<close>

definition smap_del :: "('k, 'v) smap \<Rightarrow> 'k \<Rightarrow> ('k, 'v) smap" where
  "smap_del m k = filter (\<lambda>(k', _). k' \<noteq> k) m"

lemma smap_find_del [simp]: "smap_find (smap_del m k) j = (if j = k then None else smap_find m j)"
  by (induction m) (auto simp: smap_del_def)

lemma set_smap_del [simp]: "fst ` set (smap_del m k) = fst ` set m - {k}"
  by (force simp: smap_del_def)

lemma smap_ok_del [simp]: "smap_ok m \<Longrightarrow> smap_ok (smap_del m k)"
  by (auto simp: smap_ok_def smap_del_def sorted_wrt_map sorted_wrt_filter)

lemma smap_ok_Nil [simp]: "smap_ok []"
  by (simp add: smap_ok_def)

lemma smap_ok_distinct: "smap_ok m \<Longrightarrow> distinct (map fst m)"
  by (simp add: smap_ok_def strict_sorted_iff)

section \<open>Lists and words\<close>

text \<open>Separator-joined text: how the SQL value lists and the JSON arrays are built up.\<close>

fun join :: "string \<Rightarrow> string list \<Rightarrow> string" where
  "join sep [] = []"
| "join sep [x] = x"
| "join sep (x # y # xs) = x @ sep @ join sep (y # xs)"

lemma join_snoc [simp]:
  "xs \<noteq> [] \<Longrightarrow> join sep (xs @ [x]) = join sep xs @ sep @ x"
  by (induction sep xs rule: join.induct) auto

lemma join_Cons: "xs \<noteq> [] \<Longrightarrow> join sep (x # xs) = x @ sep @ join sep xs"
  by (cases xs) auto

text \<open>Successive machine integers: \<open>start, start + 1, \<dots>\<close>.\<close>

definition nums_from :: "u64 \<Rightarrow> nat \<Rightarrow> u64 list" where
  "nums_from start n = map (\<lambda>i. start + of_nat i) [0..<n]"

lemma length_nums_from [simp]: "length (nums_from start n) = n"
  by (simp add: nums_from_def)

lemma nums_from_0 [simp]: "nums_from start 0 = []"
  by (simp add: nums_from_def)

lemma nums_from_Suc_snoc: "nums_from start (Suc n) = nums_from start n @ [start + of_nat n]"
  by (simp add: nums_from_def)

lemma nums_from_add:
  "nums_from start (m + n) = nums_from start m @ nums_from (start + of_nat m) n"
  by (induction n) (simp_all add: nums_from_Suc_snoc add_ac)

lemma nums_from_Suc: "nums_from start (Suc n) = start # nums_from (start + 1) n"
  using nums_from_add [of start 1 n] by (simp add: nums_from_Suc_snoc)

lemma unat_of_nat_add:
  assumes "unat (a :: u64) + n < 2 ^ 64"
  shows "unat (a + of_nat n) = unat a + n"
proof -
  have "unat (of_nat n :: u64) = n"
    using assms by (simp add: unat_of_nat take_bit_nat_eq_self)
  then show ?thesis
    using assms by (simp add: unat_word_ariths)
qed

lemma distinct_nums_from:
  assumes "unat start + n \<le> 2 ^ 64"
  shows "distinct (nums_from start n)"
  unfolding nums_from_def distinct_map
proof (intro conjI inj_onI)
  fix i j
  assume ij: "i \<in> set [0..<n]" "j \<in> set [0..<n]" and eq: "start + of_nat i = start + of_nat j"
  have "unat start + i < 2 ^ 64" and "unat start + j < 2 ^ 64"
    using ij assms by auto
  then have "unat start + i = unat start + j"
    using arg_cong [OF eq, of unat] by (simp only: unat_of_nat_add)
  then show "i = j" by (simp only: add_left_cancel)
qed simp

section \<open>Counters and masks\<close>

unbundle bit_operations_syntax

lemma unat_succ:
  assumes "i < (s :: u64)"
  shows "unat (i + 1) = unat i + 1"
proof -
  have "unat i + 1 < 2 ^ 64" using assms unsigned_less [of s, where ?'a = nat] by (simp add: word_less_nat_alt)
  moreover have "i + 1 = of_nat (unat i + 1)" by simp
  ultimately show ?thesis by (simp only: unat_of_nat) simp
qed

text \<open>Masking with a power of two less one.\<close>

lemma unat_and_pow2:
  "unat (w AND (2 ^ k - 1) :: u64) = unat w mod 2 ^ k"
proof -
  have "w AND (2 ^ k - 1) = take_bit k w" by (simp add: take_bit_eq_mask mask_eq_exp_minus_1)
  then have "unat (w AND (2 ^ k - 1)) = take_bit k (unat w)" by (simp only: unsigned_take_bit_eq)
  then show ?thesis by (simp only: take_bit_eq_mod)
qed

lemma unat_drop_bit: "unat (drop_bit m w :: u64) = unat w div 2 ^ m"
  by (simp only: unsigned_drop_bit_eq) (simp add: drop_bit_eq_div take_bit_word_eq_self flip: unsigned_take_bit_eq)

end
