(* ===== verification/CFormat.thy ===== *)
theory CFormat
  imports Prelude
begin

text \<open>
  The part of the C library the sources format and parse numbers with: decimal conversion
  (\<^verbatim>\<open>%lu\<close>, \<^verbatim>\<open>%zu\<close>, \<^verbatim>\<open>%d\<close>), \<^verbatim>\<open>snprintf\<close> truncation, \<^verbatim>\<open>atoi\<close> and \<^verbatim>\<open>sscanf("%lu")\<close>.  On
  out-of-range input \<open>atoi\<close> is \<^verbatim>\<open>(int) strtol(s, NULL, 10)\<close>, which saturates at the bounds of
  \<^verbatim>\<open>long\<close> before it truncates, and \<^verbatim>\<open>%lu\<close> reads like \<^verbatim>\<open>strtoul\<close>.
\<close>

section \<open>Printing\<close>

definition digit_char :: "nat \<Rightarrow> char" where
  "digit_char d = char_of (48 + d)"

fun dec :: "nat \<Rightarrow> string" where
  "dec n = (if n < 10 then [digit_char n] else dec (n div 10) @ [digit_char (n mod 10)])"

declare dec.simps [simp del]

definition fmt_lu :: "u64 \<Rightarrow> string" where
  "fmt_lu w = dec (unat w)"

definition fmt_int :: "int \<Rightarrow> string" where
  "fmt_int i = (if i < 0 then ''-'' @ dec (nat (- i)) else dec (nat i))"

text \<open>\<^verbatim>\<open>%d\<close> reads its 32-bit argument as signed, whatever the declared type of the variable.\<close>

definition fmt_d :: "u32 \<Rightarrow> string" where
  "fmt_d w = fmt_int (sint w)"

definition snprintf :: "nat \<Rightarrow> string \<Rightarrow> string" where
  "snprintf cap s = take (cap - 1) s"

section \<open>Parsing\<close>

definition is_digit :: "char \<Rightarrow> bool" where
  "is_digit c \<longleftrightarrow> 48 \<le> (of_char c :: nat) \<and> (of_char c :: nat) \<le> 57"

definition is_space :: "char \<Rightarrow> bool" where
  "is_space c \<longleftrightarrow> c = CHR '' '' \<or> (9 \<le> (of_char c :: nat) \<and> (of_char c :: nat) \<le> 13)"

definition digit_val :: "char \<Rightarrow> nat" where
  "digit_val c = of_char c - 48"

definition dec_val :: "string \<Rightarrow> nat" where
  "dec_val s = foldl (\<lambda>n c. n * 10 + digit_val c) 0 (takeWhile is_digit s)"

fun split_sign :: "string \<Rightarrow> bool \<times> string" where
  "split_sign [] = (False, [])"
| "split_sign (c # s) =
     (if c = CHR ''-'' then (True, s) else if c = CHR ''+'' then (False, s) else (False, c # s))"

definition strtol :: "string \<Rightarrow> int" where
  "strtol s =
     (let (neg, ds) = split_sign (dropWhile is_space s); v = int (dec_val ds)
      in if neg then max (- (2 ^ 63)) (- v) else min (2 ^ 63 - 1) v)"

definition atoi :: "string \<Rightarrow> u32" where
  "atoi s = word_of_int (strtol s)"

text \<open>Assigning an \<^verbatim>\<open>int\<close> to a \<^verbatim>\<open>size_t\<close> or \<^verbatim>\<open>uint64_t\<close>: sign extension.\<close>

definition int_to_u64 :: "u32 \<Rightarrow> u64" where
  "int_to_u64 w = scast w"

definition scan_lu :: "string \<Rightarrow> u64 option" where
  "scan_lu s =
     (let (neg, ds) = split_sign (dropWhile is_space s)
      in if takeWhile is_digit ds = [] then None
         else Some (let v = dec_val ds
                    in if 2 ^ 64 \<le> v then - 1
                       else if neg then - of_nat v else of_nat v))"

section \<open>Round trips\<close>

lemma of_char_digit_char: "d < 10 \<Longrightarrow> (of_char (digit_char d) :: nat) = 48 + d"
  by (simp add: digit_char_def)

lemma is_digit_digit_char [simp]: "d < 10 \<Longrightarrow> is_digit (digit_char d)"
  by (simp add: is_digit_def of_char_digit_char)

lemma digit_val_digit_char [simp]: "d < 10 \<Longrightarrow> digit_val (digit_char d) = d"
  by (simp add: digit_val_def of_char_digit_char)

lemma dec_digits: "list_all is_digit (dec n)"
proof (induction n rule: dec.induct)
  case (1 n)
  then show ?case by (cases "n < 10") (simp_all add: dec.simps [of n])
qed

lemma dec_nonempty [simp]: "dec n \<noteq> []"
  by (subst dec.simps) simp

lemma takeWhile_dec [simp]: "takeWhile is_digit (dec n) = dec n"
  using dec_digits [of n] by (simp add: list_all_iff takeWhile_eq_all_conv)

lemma dec_val_all:
  "list_all is_digit s \<Longrightarrow> dec_val s = foldl (\<lambda>n c. n * 10 + digit_val c) 0 s"
  by (simp add: dec_val_def list_all_iff takeWhile_eq_all_conv [THEN iffD2])

lemma dec_val_dec [simp]: "dec_val (dec n) = n"
proof (induction n rule: dec.induct)
  case (1 n)
  show ?case
  proof (cases "n < 10")
    case True
    then show ?thesis by (simp add: dec.simps [of n] dec_val_def)
  next
    case False
    let ?f = "\<lambda>n c. n * 10 + digit_val c"
    from False "1.IH" have "foldl ?f 0 (dec (n div 10)) = n div 10"
      by (simp add: dec_val_all [OF dec_digits])
    then have "foldl ?f 0 (dec n) = n div 10 * 10 + n mod 10"
      using False by (simp add: dec.simps [of n])
    then show ?thesis by (simp add: dec_val_all [OF dec_digits])
  qed
qed

lemma digit_not_special:
  "is_digit c \<Longrightarrow> \<not> is_space c \<and> c \<noteq> CHR ''-'' \<and> c \<noteq> CHR ''+'' \<and> c \<noteq> CHR 0x00 \<and> c \<noteq> CHR '','' \<and> c \<noteq> CHR 0x27"
  by (auto simp: is_digit_def is_space_def)

lemma dec_hd: "\<exists>c s. dec n = c # s \<and> is_digit c"
  using dec_digits [of n] by (cases "dec n") auto

lemma split_sign_dec [simp]: "split_sign (dropWhile is_space (dec n)) = (False, dec n)"
  using dec_hd [of n] by (auto dest: digit_not_special)

lemma no_nul_dec [simp]: "no_nul (dec n)"
  using dec_digits [of n] by (auto simp: no_nul_def list_all_iff dest: digit_not_special)

lemma no_nul_fmt_lu [simp]: "no_nul (fmt_lu w)"
  by (simp add: fmt_lu_def)

lemma scan_lu_fmt_lu [simp]: "scan_lu (fmt_lu w) = Some w"
proof -
  have "unat w < 2 ^ 64" by (rule order_less_le_trans [OF unsigned_less]) simp
  then show ?thesis by (simp add: scan_lu_def fmt_lu_def)
qed

lemma dec_length_le: "n < 10 ^ k \<Longrightarrow> 0 < k \<Longrightarrow> length (dec n) \<le> k"
proof (induction n arbitrary: k rule: dec.induct)
  case (1 n)
  show ?case
  proof (cases "n < 10")
    case True
    with 1 show ?thesis by (simp add: dec.simps [of n])
  next
    case False
    with "1.prems" obtain j where k: "k = Suc j" "0 < j"
      by (cases k; cases "k - 1") auto
    with "1.prems" have "n div 10 < 10 ^ j" by auto
    with "1.IH" False k show ?thesis by (simp add: dec.simps [of n])
  qed
qed

lemma dec_length_ge: "10 ^ k \<le> n \<Longrightarrow> k < length (dec n)"
proof (induction n arbitrary: k rule: dec.induct)
  case (1 n)
  show ?case
  proof (cases "n < 10")
    case True
    with "1.prems" have "(10 :: nat) ^ k < 10 ^ 1" by simp
    then have "k = 0" using power_less_imp_less_exp [of "10 :: nat" k 1] by simp
    then show ?thesis by simp
  next
    case False
    show ?thesis
    proof (cases k)
      case 0
      then show ?thesis by simp
    next
      case (Suc j)
      with "1.prems" have "10 ^ j \<le> n div 10" by auto
      with "1.IH" False Suc show ?thesis by (simp add: dec.simps [of n])
    qed
  qed
qed

lemma fmt_lu_inj: "fmt_lu a = fmt_lu b \<Longrightarrow> a = b"
  by (metis scan_lu_fmt_lu option.inject)

end
