(* ===== verification/LevelDb.thy ===== *)
theory LevelDb
  imports CFormat
begin

text \<open>
  LevelDB is a library the sources link against, so its operations are parameters of the model:
  the record \<open>leveldb_ops\<close> holds them, over an opaque type of databases.  The locale
  \<open>leveldb\<close> states what its documentation promises and the program relies on: a write that
  reports success is what later reads see, and no write touches another key.  Nothing is
  promised about the written key when a write reports failure.
\<close>

record 'db leveldb_ops =
  ldb_open :: "string \<Rightarrow> 'db option"
  ldb_get :: "'db \<Rightarrow> string \<Rightarrow> string option"
  ldb_put :: "'db \<Rightarrow> string \<Rightarrow> string \<Rightarrow> bool \<times> 'db"
  ldb_write :: "'db \<Rightarrow> (string \<times> string) list \<Rightarrow> bool \<times> 'db"

text \<open>
  A \<^verbatim>\<open>leveldb::DB*\<close> member: before \<^verbatim>\<open>open\<close> it is not initialised, \<^verbatim>\<open>close\<close> deletes the
  object it points to and leaves the pointer as it is.
\<close>

datatype 'db db_ptr = DbUninit | DbLive 'db | DbDeleted

definition db_deref :: "'db db_ptr \<Rightarrow> 'db res" where
  "db_deref p = (case p of DbLive d \<Rightarrow> Inr d | _ \<Rightarrow> Inl DeadDeref)"

lemma db_deref_simps [simp, res_simps]:
  "db_deref DbUninit = Inl DeadDeref"
  "db_deref (DbLive d) = Inr d"
  "db_deref DbDeleted = Inl DeadDeref"
  by (simp_all add: db_deref_def)

lemma db_deref_Inr_iff [res_simps]: "db_deref p = Inr d \<longleftrightarrow> p = DbLive d"
  by (cases p) auto

locale leveldb =
  fixes L :: "'db leveldb_ops"
  assumes get_put: "ldb_put L d k v = (True, d') \<Longrightarrow> ldb_get L d' j = (if j = k then Some v else ldb_get L d j)"
    and put_other: "ldb_put L d k v = (ok, d') \<Longrightarrow> j \<noteq> k \<Longrightarrow> ldb_get L d' j = ldb_get L d j"
    and get_write: "ldb_write L d kvs = (True, d') \<Longrightarrow>
          ldb_get L d' j = (case map_of (rev kvs) j of Some v \<Rightarrow> Some v | None \<Rightarrow> ldb_get L d j)"
    and write_other: "ldb_write L d kvs = (ok, d') \<Longrightarrow> j \<notin> fst ` set kvs \<Longrightarrow>
          ldb_get L d' j = ldb_get L d j"
begin

lemma get_write_single:
  "ldb_write L d [(k, v)] = (True, d') \<Longrightarrow> ldb_get L d' j = (if j = k then Some v else ldb_get L d j)"
  by (auto dest: get_write [of d "[(k, v)]" d' j])

end

text \<open>
  A reference database that satisfies the contract: an association list, newest entry first,
  whose writes fail once \<open>cap\<close> entries have been written.  Witnesses run on it.
\<close>

definition mem_leveldb :: "nat \<Rightarrow> (string \<times> string) list leveldb_ops" where
  "mem_leveldb cap =
     \<lparr>ldb_open = (\<lambda>path. Some []),
      ldb_get = map_of,
      ldb_put = (\<lambda>d k v. if length d < cap then (True, (k, v) # d) else (False, d)),
      ldb_write = (\<lambda>d kvs. if length d < cap then (True, rev kvs @ d) else (False, d))\<rparr>"

lemma map_of_rev_None: "j \<notin> fst ` set kvs \<Longrightarrow> map_of (rev kvs) j = None"
  by (simp add: map_of_eq_None_iff)

interpretation mem: leveldb "mem_leveldb cap" for cap
  by unfold_locales
    (auto simp: mem_leveldb_def map_add_def map_of_rev_None split: if_split_asm option.splits)

text \<open>A database whose writes never fail, and one such database.\<close>

locale reliable_leveldb = leveldb +
  assumes put_succeeds: "\<exists>d'. ldb_put L d k v = (True, d')"

definition map_leveldb :: "(string \<Rightarrow> string option) leveldb_ops" where
  "map_leveldb =
     \<lparr>ldb_open = (\<lambda>path. Some (\<lambda>_. None)),
      ldb_get = (\<lambda>d k. d k),
      ldb_put = (\<lambda>d k v. (True, d(k := Some v))),
      ldb_write = (\<lambda>d kvs. (True, d ++ map_of (rev kvs)))\<rparr>"

interpretation mapdb: reliable_leveldb map_leveldb
  by unfold_locales (auto simp: map_leveldb_def map_add_def map_of_rev_None split: option.splits)

end
