(* ===== verification/Chain.thy ===== *)
theory Chain
  imports CFormat
begin

text \<open>
  The blocks the server receives.  Their C++ types (\<^verbatim>\<open>signed_block\<close>, \<^verbatim>\<open>processed_transaction\<close>
  and the operations of the chain) come from the chain's own headers, which are not part of the
  repository; the records below have the fields the sources read.  Amounts have the chain's
  \<^verbatim>\<open>share_type\<close>, which stays a type parameter \<open>'sh\<close> whose operations are the record
  \<open>share_ops\<close>: \<open>None\<close> is an exception thrown by a conversion or the division, \<open>sh_to_string\<close> is
  the call \<^verbatim>\<open>to_string\<close> and \<open>sh_as_string\<close> what assigning an amount to a \<^verbatim>\<open>std::string\<close> stores.
\<close>

record 'sh share_ops =
  sh_of_string :: "string \<Rightarrow> 'sh option"
  sh_of_u64 :: "u64 \<Rightarrow> 'sh"
  sh_to_string :: "'sh \<Rightarrow> string"
  sh_as_string :: "'sh \<Rightarrow> string"
  sh_to_u64 :: "'sh \<Rightarrow> u64 option"
  sh_add :: "'sh \<Rightarrow> 'sh \<Rightarrow> 'sh"
  sh_sub :: "'sh \<Rightarrow> 'sh \<Rightarrow> 'sh"
  sh_mul :: "'sh \<Rightarrow> 'sh \<Rightarrow> 'sh"
  sh_div :: "'sh \<Rightarrow> 'sh \<Rightarrow> 'sh option"

record 'sh settlement_operation =
  so_account :: "string list"
  so_amount :: "'sh list"
  so_business_type :: "nat list"

record 'sh torrent_create_operation =
  tc_id :: string
  tc_creator :: string
  tc_asset_type :: u32
  tc_amount :: 'sh
  tc_percent :: u32

record 'sh torrent_update_operation =
  tu_id :: string
  tu_amount :: 'sh
  tu_percent :: u32

record 'sh torrent_payment_operation =
  tpo_torrent_id :: string
  tpo_creator :: string
  tpo_asset_type :: u32
  tpo_amount :: 'sh
  tpo_pieces :: u32
  tpo_sizes :: u64
  tpo_payed_pieces :: u32
  tpo_one_piece_amount :: 'sh
  tpo_sign_address :: string

record 'sh torrent_payment_increase_operation =
  ti_payment_id :: string
  ti_pieces :: u32
  ti_amount :: 'sh

text \<open>The tag of the chain's \<^verbatim>\<open>static_variant\<close> (its \<^verbatim>\<open>which()\<close>) and the payload.\<close>

datatype 'sh operation =
    OI_SETTLEMENT "'sh settlement_operation"
  | OI_TORRENT_CREATE "'sh torrent_create_operation"
  | OI_TORRENT_UPDATE "'sh torrent_update_operation"
  | OI_TORRENT_PAYMENT "'sh torrent_payment_operation"
  | OI_TORRENT_PAYMENT_SELTTMENT string
  | OI_TORRENT_RECEIPT string
  | OI_TORRENT_PAYMENT_REFUND string
  | OI_TORRENT_PAYMENT_INCREASE "'sh torrent_payment_increase_operation"
  | OI_OTHER nat

record 'sh processed_transaction =
  trx_id :: string
  operations :: "'sh operation list"
  validate_type :: nat
  proposal_transaction_id :: "string option"
  operation_results :: "nat list"

record 'sh signed_block =
  block_num :: u64
  block_type :: nat
  transactions :: "'sh processed_transaction list"

section \<open>Amounts\<close>

text \<open>
  What the arithmetic of \<open>share_type\<close> means: amounts are naturals below a bound, operations whose
  result stays below it are exact, division rounds down and refuses a zero divisor, and printing
  and reading an amount gives it back.
\<close>

locale share_arith =
  fixes S :: "'sh share_ops"
    and val :: "'sh \<Rightarrow> nat"
    and B :: nat
  assumes val_bound: "val a < B"
    and val_inj: "val a = val b \<Longrightarrow> a = b"
    and val_add: "val a + val b < B \<Longrightarrow> val (sh_add S a b) = val a + val b"
    and val_sub: "val b \<le> val a \<Longrightarrow> val (sh_sub S a b) = val a - val b"
    and val_mul: "val a * val b < B \<Longrightarrow> val (sh_mul S a b) = val a * val b"
    and val_div: "val b \<noteq> 0 \<Longrightarrow> \<exists>q. sh_div S a b = Some q \<and> val q = val a div val b"
    and div_zero: "val b = 0 \<Longrightarrow> sh_div S a b = None"
    and val_of_u64: "val (sh_of_u64 S w) = unat w"
    and to_u64: "val a < 2 ^ 64 \<Longrightarrow> sh_to_u64 S a = Some (of_nat (val a))"
    and of_to_string: "sh_of_string S (sh_to_string S a) = Some a"
    and no_nul_to_string: "no_nul (sh_to_string S a)"
begin

lemma val_divD: "sh_div S a b = Some q \<Longrightarrow> val b \<noteq> 0 \<and> val q = val a div val b"
  using val_div [of b a] div_zero [of b a] by (cases "val b = 0") auto

text \<open>\<open>n\<close> times an amount is that amount exactly when \<open>n\<close> is its quotient and nothing is left.\<close>

lemma mul_of_u64_eq:
  assumes "unat n * val a < B"
  shows "sh_mul S (sh_of_u64 S n) a = t \<longleftrightarrow> val t = unat n * val a"
  using val_mul [of "sh_of_u64 S n" a] assms val_inj by (auto simp: val_of_u64)

end

text \<open>128-bit unsigned amounts have this arithmetic.\<close>

definition w128_share :: "128 word share_ops" where
  "w128_share =
     \<lparr>sh_of_string = (\<lambda>s. if s \<noteq> [] \<and> list_all is_digit s then Some (of_nat (dec_val s)) else None),
      sh_of_u64 = ucast, sh_to_string = (\<lambda>a. dec (unat a)), sh_as_string = (\<lambda>a. dec (unat a)),
      sh_to_u64 = (\<lambda>a. if unat a < 2 ^ 64 then Some (ucast a) else None),
      sh_add = (+), sh_sub = (-), sh_mul = (*), sh_div = (\<lambda>a b. if b = 0 then None else Some (a div b))\<rparr>"

lemma w128_simps:
  "sh_of_string w128_share s = (if s \<noteq> [] \<and> list_all is_digit s then Some (of_nat (dec_val s)) else None)"
  "sh_of_u64 w128_share w = ucast w" "sh_to_u64 w128_share a = (if unat a < 2 ^ 64 then Some (ucast a) else None)"
  "sh_add w128_share a b = a + b" "sh_mul w128_share a b = a * b"
  "sh_div w128_share a b = (if b = 0 then None else Some (a div b))"
  by (simp_all add: w128_share_def)

interpretation w128: share_arith w128_share unat "2 ^ 128"
proof unfold_locales
  fix a b :: "128 word" and w :: u64
  show "unat a < 2 ^ 128" using unsigned_less [of a] by simp
  show "unat a = unat b \<Longrightarrow> a = b" by (rule unsigned_word_eqI)
  show "unat a + unat b < 2 ^ 128 \<Longrightarrow> unat (sh_add w128_share a b) = unat a + unat b"
    by (simp add: w128_share_def unat_word_ariths)
  show "unat b \<le> unat a \<Longrightarrow> unat (sh_sub w128_share a b) = unat a - unat b"
    by (simp add: w128_share_def unat_sub word_le_nat_alt)
  show "unat a * unat b < 2 ^ 128 \<Longrightarrow> unat (sh_mul w128_share a b) = unat a * unat b"
    by (simp add: w128_share_def unat_word_ariths)
  show "unat b \<noteq> 0 \<Longrightarrow> \<exists>q. sh_div w128_share a b = Some q \<and> unat q = unat a div unat b"
    by (auto simp: w128_share_def unat_div)
  show "unat b = 0 \<Longrightarrow> sh_div w128_share a b = None"
    by (simp add: w128_share_def word_unat_eq_iff)
  show "unat (sh_of_u64 w128_share w) = unat w"
    by (simp add: w128_share_def unsigned_ucast_eq take_bit_nat_eq_self order_less_le_trans [OF unsigned_less])
  show "unat a < 2 ^ 64 \<Longrightarrow> sh_to_u64 w128_share a = Some (of_nat (unat a))"
    by (simp add: w128_share_def)
  show "sh_of_string w128_share (sh_to_string w128_share a) = Some a"
    using dec_digits [of "unat a"] by (simp add: w128_share_def)
  show "no_nul (sh_to_string w128_share a)"
    by (simp add: w128_share_def)
qed

end
