(* ===== verification/BlockLevelDb.thy ===== *)
theory BlockLevelDb
  imports LevelDb Chain
begin

text \<open>
  \<^verbatim>\<open>lib/block_leveldb.cpp\<close>: the number of the next block to fetch, kept in LevelDB under the
  key \<^verbatim>\<open>totalblock\<close> and cached in \<open>totalnum\<close>.  \<^verbatim>\<open>block_num_type\<close> is printed with \<^verbatim>\<open>%lu\<close>
  and compared with \<^verbatim>\<open>uint64_t\<close>, so it is a 64-bit word here; \<^verbatim>\<open>boost::lexical_cast\<close> is the
  parameter \<open>lexc\<close>, with \<open>None\<close> for \<^verbatim>\<open>bad_lexical_cast\<close>.  Every function returns the new
  object, or the fault that the use of a pointer no live database hangs on is.
\<close>

section \<open>The object and its operations\<close>

record 'db block_leveldb =
  bl_is_open :: bool
  bl_db :: "'db db_ptr"
  totalnum :: u64
  bl_sync :: bool

definition total_key :: string where
  "total_key = ''totalblock''"

text \<open>The \<^verbatim>\<open>-__LINE__\<close> error codes are the line of the \<^verbatim>\<open>return\<close> statement, negated.\<close>

definition bl_open :: "'db leveldb_ops \<Rightarrow> string \<Rightarrow> 'db block_leveldb \<Rightarrow> int \<times> 'db block_leveldb" where
  "bl_open L dbdir s =
     (let s = s\<lparr>totalnum := 0\<rparr>
      in case ldb_open L dbdir of
           None \<Rightarrow> (- 17, s)
         | Some d \<Rightarrow> (0, s\<lparr>bl_db := DbLive d, bl_sync := True, bl_is_open := True\<rparr>))"

definition bl_is_open_q :: "'db block_leveldb \<Rightarrow> bool" where
  "bl_is_open_q s = bl_is_open s"

definition bl_close :: "'db block_leveldb \<Rightarrow> 'db block_leveldb res" where
  "bl_close s = res_bind (db_deref (bl_db s)) (\<lambda>_. Inr (s\<lparr>bl_db := DbDeleted\<rparr>))"

definition getTotalBlockNum ::
  "'db leveldb_ops \<Rightarrow> (string \<Rightarrow> u64 option) \<Rightarrow> 'db block_leveldb \<Rightarrow> (u64 \<times> 'db block_leveldb) res" where
  "getTotalBlockNum L lexc s =
     (if 0 < totalnum s then Inr (totalnum s, s)
      else res_bind (db_deref (bl_db s)) (\<lambda>d.
        case ldb_get L d total_key of
          Some value \<Rightarrow> res_bind (nothrow (lexc (c_str value))) (\<lambda>n. Inr (n, s\<lparr>totalnum := n\<rparr>))
        | None \<Rightarrow> Inr (0, s\<lparr>totalnum := 0\<rparr>)))"

text \<open>The 20-byte buffer the new number is printed into: at most 19 characters and the NUL.\<close>

definition totalvalue :: "u64 \<Rightarrow> string" where
  "totalvalue num = snprintf 20 (fmt_lu num)"

definition store_totalnum ::
  "'db leveldb_ops \<Rightarrow> 'sh signed_block \<Rightarrow> 'db block_leveldb \<Rightarrow> (int \<times> 'db block_leveldb) res" where
  "store_totalnum L b s =
     (let num = block_num b + 1
      in res_bind (db_deref (bl_db s)) (\<lambda>d.
           case ldb_write L d [(total_key, totalvalue num)] of
             (True, d') \<Rightarrow> Inr (0, s\<lparr>bl_db := DbLive d', totalnum := num\<rparr>)
           | (False, d') \<Rightarrow> Inr (1, s\<lparr>bl_db := DbLive d'\<rparr>)))"

text \<open>\<^verbatim>\<open>store\<close> once wrote the block as well; what is left of it is the same code.\<close>

definition bl_store ::
  "'db leveldb_ops \<Rightarrow> 'sh signed_block \<Rightarrow> 'db block_leveldb \<Rightarrow> (int \<times> 'db block_leveldb) res" where
  "bl_store L b s =
     (let num = block_num b + 1
      in res_bind (db_deref (bl_db s)) (\<lambda>d.
           let (ok, d') = ldb_write L d [(total_key, totalvalue num)]
           in if ok then Inr (0, s\<lparr>bl_db := DbLive d', totalnum := num\<rparr>)
              else Inr (1, s\<lparr>bl_db := DbLive d'\<rparr>)))"

section \<open>What the buffer keeps of the number\<close>

lemma totalvalue_exact: "unat n < 10 ^ 19 \<Longrightarrow> totalvalue n = fmt_lu n"
  using dec_length_le [of "unat n" 19] by (simp add: totalvalue_def snprintf_def fmt_lu_def)

lemma unat_u64_bound: "unat (n :: u64) < 2 ^ 64"
  by (rule order_less_le_trans [OF unsigned_less]) simp

lemma dec_snoc: "10 \<le> n \<Longrightarrow> dec n = dec (n div 10) @ [digit_char (n mod 10)]"
  by (subst dec.simps) simp

lemma totalvalue_truncates:
  assumes "10 ^ 19 \<le> unat n"
  shows "totalvalue n = dec (unat n div 10)"
proof -
  have "unat n div 10 < 10 ^ 19" using unat_u64_bound [of n] by simp
  then have "length (dec (unat n div 10)) \<le> 19" by (rule dec_length_le) simp
  moreover have "18 < length (dec (unat n div 10))"
    using assms by (intro dec_length_ge) simp
  ultimately have "length (dec (unat n div 10)) = 19" by simp
  moreover have "dec (unat n) = dec (unat n div 10) @ [digit_char (unat n mod 10)]"
    using assms by (intro dec_snoc) simp
  ultimately show ?thesis by (simp add: totalvalue_def snprintf_def fmt_lu_def)
qed

lemma no_nul_totalvalue [simp]: "no_nul (totalvalue n)"
  by (cases "unat n < 10 ^ 19") (simp_all add: totalvalue_exact totalvalue_truncates)

section \<open>Branch lemmas\<close>

named_theorems bl_simps

lemma getTotalBlockNum_cached [bl_simps]: "0 < totalnum s \<Longrightarrow> getTotalBlockNum L lexc s = Inr (totalnum s, s)"
  by (simp add: getTotalBlockNum_def)

lemma getTotalBlockNum_fresh:
  "totalnum s = 0 \<Longrightarrow> bl_db s = DbLive d \<Longrightarrow> ldb_get L d total_key = Some v \<Longrightarrow> lexc (c_str v) = Some n \<Longrightarrow>
   getTotalBlockNum L lexc s = Inr (n, s\<lparr>totalnum := n\<rparr>)"
  by (simp add: getTotalBlockNum_def)

lemma getTotalBlockNum_missing:
  "totalnum s = 0 \<Longrightarrow> bl_db s = DbLive d \<Longrightarrow> ldb_get L d total_key = None \<Longrightarrow>
   getTotalBlockNum L lexc s = Inr (0, s)"
  by (simp add: getTotalBlockNum_def)

lemma getTotalBlockNum_result:
  "getTotalBlockNum L lexc s = Inr (n, s') \<Longrightarrow> s' = s\<lparr>totalnum := n\<rparr>"
  by (auto simp: getTotalBlockNum_def res_simps split: if_splits option.splits)

lemma getTotalBlockNum_again:
  assumes "getTotalBlockNum L lexc s = Inr (n, s')"
  shows "getTotalBlockNum L lexc s' = Inr (n, s')"
proof (cases "0 < totalnum s")
  case True
  with assms show ?thesis by (auto simp: getTotalBlockNum_def)
next
  case False
  with assms obtain d where "bl_db s = DbLive d"
    by (auto simp: getTotalBlockNum_def res_simps)
  with assms False show ?thesis
    by (cases "ldb_get L d total_key") (auto simp: getTotalBlockNum_def nothrow_Inr_iff)
qed

lemma store_totalnum_cases:
  assumes "store_totalnum L b s = Inr (ret, s')"
  obtains (ok) d d' where "bl_db s = DbLive d" "ldb_write L d [(total_key, totalvalue (block_num b + 1))] = (True, d')"
      "ret = 0" "s' = s\<lparr>bl_db := DbLive d', totalnum := block_num b + 1\<rparr>"
    | (failed) d d' where "bl_db s = DbLive d" "ldb_write L d [(total_key, totalvalue (block_num b + 1))] = (False, d')"
      "ret = 1" "s' = s\<lparr>bl_db := DbLive d'\<rparr>"
proof -
  from assms obtain d where d: "bl_db s = DbLive d"
    by (auto simp: store_totalnum_def Let_def res_simps)
  obtain ok d' where w: "ldb_write L d [(total_key, totalvalue (block_num b + 1))] = (ok, d')"
    by fastforce
  show thesis
    using assms d w by (cases ok) (auto simp: store_totalnum_def intro: that)
qed

lemma store_eq_store_totalnum: "bl_store L b s = store_totalnum L b s"
  unfolding bl_store_def store_totalnum_def Let_def
  by (rule arg_cong [where f = "res_bind _"]) (auto intro!: ext split: prod.splits bool.splits)

text \<open>What \<^verbatim>\<open>boost::lexical_cast\<close> documents for a decimal numeral that fits the type.\<close>

definition lex_decimal :: "(string \<Rightarrow> u64 option) \<Rightarrow> bool" where
  "lex_decimal lexc \<longleftrightarrow> (\<forall>n :: nat. n < 2 ^ 64 \<longrightarrow> lexc (dec n) = Some (of_nat n))"

lemma lex_decimal_fmt: "lex_decimal lexc \<Longrightarrow> lexc (fmt_lu n) = Some n"
  using unat_u64_bound [of n] by (simp add: lex_decimal_def fmt_lu_def)

lemma lex_decimal_scan_lu: "lex_decimal scan_lu"
proof -
  have "scan_lu (dec n) = Some (of_nat n)" if "n < 2 ^ 64" for n
    using that by (simp add: scan_lu_def)
  then show ?thesis by (simp add: lex_decimal_def)
qed

section \<open>Properties\<close>

text \<open>C28: What a restarted server reads back: once \<open>store_totalnum\<close> reported success for a block, a
  reader that finds nothing cached reads the successor of the block's number from LevelDB, as long
  as that number has at most 19 digits.  A 20-digit number loses its last digit in the 20-byte
  buffer, so the reader then finds a tenth of it.\<close>

theorem stored_number_read_back:
  assumes "leveldb L" "lex_decimal lexc" "store_totalnum L b s = Inr (0, s')"
  defines "num \<equiv> block_num b + 1"
  shows "map_sum id fst (getTotalBlockNum L lexc (s'\<lparr>totalnum := 0\<rparr>)) =
           Inr (if unat num < 10 ^ 19 then num else of_nat (unat num div 10))"
  using assms(3)
proof (rule store_totalnum_cases)
  fix d d'
  assume w: "ldb_write L d [(total_key, totalvalue (block_num b + 1))] = (True, d')"
    and s': "s' = s\<lparr>bl_db := DbLive d', totalnum := block_num b + 1\<rparr>"
  have "ldb_get L d' total_key = Some (totalvalue num)"
    using leveldb.get_write_single [OF assms(1) w] by (simp add: num_def)
  moreover have "lexc (totalvalue num) = Some (if unat num < 10 ^ 19 then num else of_nat (unat num div 10))"
  proof (cases "unat num < 10 ^ 19")
    case True
    then show ?thesis using assms(2) by (simp add: totalvalue_exact lex_decimal_fmt)
  next
    case False
    have "unat num div 10 < 2 ^ 64" using unat_u64_bound [of num] by simp
    with False show ?thesis using assms(2) by (simp add: totalvalue_truncates lex_decimal_def)
  qed
  ultimately show ?thesis by (simp add: getTotalBlockNum_def s')
qed simp

theorem stored_number_read_back_witness:
  "\<exists>s'. store_totalnum (mem_leveldb 3) \<lparr>block_num = 9999999999999999999, block_type = 3, transactions = [] :: nat processed_transaction list\<rparr>
      \<lparr>bl_is_open = True, bl_db = DbLive [], totalnum = 0, bl_sync = True\<rparr> = Inr (0, s') \<and>
    map_sum id fst (getTotalBlockNum (mem_leveldb 3) scan_lu (s'\<lparr>totalnum := 0\<rparr>)) = Inr 1000000000000000000"
proof -
  let ?b = "\<lparr>block_num = 9999999999999999999, block_type = 3, transactions = [] :: nat processed_transaction list\<rparr>"
  obtain s' where s': "store_totalnum (mem_leveldb 3) ?b
      \<lparr>bl_is_open = True, bl_db = DbLive [], totalnum = 0, bl_sync = True\<rparr> = Inr (0, s')"
    by (simp add: store_totalnum_def mem_leveldb_def Let_def)
  from stored_number_read_back [OF mem.leveldb_axioms lex_decimal_scan_lu s'] s' show ?thesis by auto
qed

end
