(* ===== verification/VRef.thy ===== *)
theory VRef
  imports Prelude
begin

text \<open>
  The 64-bit words that brpc packs from two 32-bit halves: socket ids (version and slot),
  versioned references (version and reference count), execution queue ids.  \<open>hi32\<close>, \<open>lo32\<close> and
  \<open>pack32\<close> are the shifts and masks the headers write out; the lemmas say that the two halves
  are independent and what \<^verbatim>\<open>fetch_add(1)\<close> and \<^verbatim>\<open>fetch_sub(1)\<close> do to them, carries included.
\<close>

unbundle bit_operations_syntax

definition hi32 :: "u64 \<Rightarrow> u32" where
  "hi32 w = ucast (drop_bit 32 w)"

definition lo32 :: "u64 \<Rightarrow> u32" where
  "lo32 w = ucast (w AND 0xFFFFFFFF)"

definition pack32 :: "u32 \<Rightarrow> u32 \<Rightarrow> u64" where
  "pack32 h l = push_bit 32 (ucast h) OR ucast l"

lemma mask32: "(0xFFFFFFFF :: u64) = mask 32"
  by (simp add: mask_eq_exp_minus_1)

lemma lo32_pack [simp]: "lo32 (pack32 h l) = l"
  by (rule bit_eqI) (auto simp: lo32_def pack32_def bit_simps mask32 dest: bit_imp_le_length)

lemma hi32_pack [simp]: "hi32 (pack32 h l) = h"
  by (rule bit_eqI) (auto simp: hi32_def pack32_def bit_simps dest: bit_imp_le_length)

lemma pack_hi_lo [simp]: "pack32 (hi32 w) (lo32 w) = w"
  by (rule bit_eqI) (auto simp: hi32_def lo32_def pack32_def bit_simps mask32)

lemma pack32_inject [simp]: "pack32 h l = pack32 h' l' \<longleftrightarrow> h = h' \<and> l = l'"
  by (metis lo32_pack hi32_pack)

lemma unat_u32_bound: "unat (x :: u32) < 2 ^ 32"
  by (rule order_less_le_trans [OF unsigned_less]) simp

lemma unat_lo32: "unat (lo32 w) = unat w mod 2 ^ 32"
  by (simp add: lo32_def mask32 unsigned_ucast_eq take_bit_eq_mod unat_mod flip: take_bit_eq_mask)

lemma unat_hi32: "unat (hi32 w) = unat w div 2 ^ 32"
proof -
  have "unat w < 2 ^ 64" by (rule order_less_le_trans [OF unsigned_less]) simp
  then have "unat w div 2 ^ 32 < 2 ^ 32" by simp
  moreover have "unat (drop_bit 32 w) = unat w div 2 ^ 32"
    by (simp only: unsigned_drop_bit_eq drop_bit_eq_div) (simp add: unat_div)
  ultimately show ?thesis
    by (simp only: hi32_def unsigned_ucast_eq) (simp add: take_bit_nat_eq_self)
qed

lemma unat_pack32: "unat (pack32 h l) = unat h * 2 ^ 32 + unat l"
  using unat_lo32 [of "pack32 h l"] unat_hi32 [of "pack32 h l"]
  by (metis div_mult_mod_eq hi32_pack lo32_pack)

lemma unat_inc32: "l \<noteq> - 1 \<Longrightarrow> unat (l + 1 :: u32) = unat l + 1"
  using unatSuc [of l] by (simp add: add.commute add_eq_0_iff equation_minus_iff)

lemma pack32_inc:
  assumes "l \<noteq> - 1"
  shows "pack32 h l + 1 = pack32 h (l + 1)"
proof -
  have "unat h * 2 ^ 32 + unat l + 1 < 2 ^ 64"
    using unat_u32_bound [of h] unat_u32_bound [of "l + 1"] unat_inc32 [OF assms] by simp
  then have "unat (pack32 h l + 1) = unat h * 2 ^ 32 + unat l + 1"
    by (simp add: unat_pack32 unat_word_ariths(1))
  also have "\<dots> = unat (pack32 h (l + 1))"
    by (simp only: unat_pack32 unat_inc32 [OF assms] add.assoc)
  finally have "unat (pack32 h l + 1) = unat (pack32 h (l + 1))" .
  then show ?thesis by (simp only: word_unat_eq_iff)
qed

lemma pack32_dec:
  assumes "l \<noteq> 0"
  shows "pack32 h l - 1 = pack32 h (l - 1)"
proof -
  have "pack32 h (l - 1) + 1 = pack32 h l"
    using assms pack32_inc [of "l - 1" h] by (simp add: diff_eq_eq)
  then show ?thesis by (simp add: eq_diff_eq [symmetric] flip: eq_diff_eq)
qed

text \<open>Under-counting borrows from the version: what the code calls over-dereferencing.\<close>

lemma pack32_borrow: "pack32 h 0 - 1 = pack32 (h - 1) (- 1)"
proof -
  have m1: "unat (- 1 :: u32) = 2 ^ 32 - 1" by (simp add: unsigned_minus_1_eq_mask mask_eq_exp_minus_1)
  have "unat (pack32 (h - 1) (- 1) + 1) = unat (pack32 h 0)"
  proof (cases "h = 0")
    case True
    then show ?thesis by (simp add: unat_pack32 unat_word_ariths(1) m1)
  next
    case False
    then have h1: "unat (h - 1) = unat h - 1" and "0 < unat h"
      by (simp_all add: unat_minus_one unat_gt_0)
    then have "unat (h - 1) * 2 ^ 32 + (2 ^ 32 - 1) + 1 = unat h * 2 ^ 32"
      by (cases "unat h") simp_all
    moreover have "unat h * 2 ^ 32 < 2 ^ 64" using unat_u32_bound [of h] by simp
    ultimately show ?thesis
      by (simp only: unat_word_ariths(1) unat_pack32 m1) simp
  qed
  then have "pack32 (h - 1) (- 1) + 1 = pack32 h 0" by (simp only: word_unat_eq_iff)
  then show ?thesis by (simp add: eq_diff_eq [symmetric] flip: eq_diff_eq)
qed

end
