(* ===== verification/ExecutionQueue.thy ===== *)
theory ExecutionQueue
  imports VRef
begin

text \<open>
  \<^verbatim>\<open>brpc/include/bthread/execution_queue.h\<close> and \<^verbatim>\<open>execution_queue_inl.h\<close>: the queue that
  serialises block handling and SQL execution.  Modelled are the life of a \<open>TaskNode\<close>
  (cancelled, executed, returned to its pool), \<open>execute\<close> with its error returns, the list
  surgery of \<open>_more_tasks\<close> that turns the stack of newly pushed nodes into a FIFO list, and
  the versioned reference count.  \<^verbatim>\<open>allocate_node\<close>, \<^verbatim>\<open>start_execute\<close>, \<^verbatim>\<open>address\<close> and \<^verbatim>\<open>stop\<close>
  are in a source file the repository does not have: the allocation result is an argument, and
  a node handed to \<^verbatim>\<open>start_execute\<close> is appended to \<open>eq_started\<close>, the sequence of those calls.
\<close>

section \<open>Task nodes\<close>

datatype task_status = UNEXECUTED | EXECUTING | EXECUTED

datatype link = Null | Unconnected | Node nat

record 'a task_node =
  tn_version :: u64
  tn_status :: task_status
  tn_stop_task :: bool
  tn_iterated :: bool
  tn_high_priority :: bool
  tn_in_place :: bool
  tn_next :: link
  tn_has_q :: bool
  tn_task :: "'a option"

definition new_task_node :: "'a task_node" where
  "new_task_node =
     \<lparr>tn_version = 0, tn_status = UNEXECUTED, tn_stop_task = False, tn_iterated = False,
      tn_high_priority = False, tn_in_place = False, tn_next = Unconnected, tn_has_q = False,
      tn_task = None\<rparr>"

definition tn_cancel :: "u64 \<Rightarrow> 'a task_node \<Rightarrow> int \<times> 'a task_node" where
  "tn_cancel expected_version n =
     (if tn_version n \<noteq> expected_version then (- 1, n)
      else if tn_status n = UNEXECUTED then (0, n\<lparr>tn_status := EXECUTED\<rparr>)
      else (if tn_status n = EXECUTED then - 1 else 1, n))"

definition tn_set_executed :: "'a task_node \<Rightarrow> 'a task_node" where
  "tn_set_executed n = n\<lparr>tn_status := EXECUTED\<rparr>"

definition tn_peek_to_execute :: "'a task_node \<Rightarrow> bool \<times> 'a task_node" where
  "tn_peek_to_execute n =
     (if tn_status n = UNEXECUTED then (True, n\<lparr>tn_status := EXECUTING\<rparr>) else (False, n))"

text \<open>
  The failing \<^verbatim>\<open>CHECK\<close>s abort.  The first one stands after the task was destroyed, the second
  one after the version was increased and the status reset.
\<close>

definition tn_clear_before_return :: "'a task_node \<Rightarrow> 'a task_node res" where
  "tn_clear_before_return n =
     (let n1 = (if tn_stop_task n then n else n\<lparr>tn_task := None\<rparr>)
      in if \<not> tn_stop_task n \<and> \<not> tn_iterated n then Inl AssertFailed
         else let n2 = n1\<lparr>tn_has_q := False, tn_version := tn_version n1 + 1, tn_status := UNEXECUTED\<rparr>
              in if tn_status n = UNEXECUTED then Inl AssertFailed else Inr n2)"

text \<open>\<^verbatim>\<open>execution_queue_cancel\<close> through a handle, which is empty or names a node and a version.\<close>

definition execution_queue_cancel :: "u64 \<Rightarrow> 'a task_node option \<Rightarrow> int \<times> 'a task_node option" where
  "execution_queue_cancel hversion hnode =
     (case hnode of None \<Rightarrow> (- 1, None)
      | Some n \<Rightarrow> (let (r, n') = tn_cancel hversion n in (r, Some n')))"

section \<open>Submitting a task\<close>

record task_options =
  to_high_priority :: bool
  to_in_place_if_possible :: bool

definition default_task_options :: task_options where
  "default_task_options = \<lparr>to_high_priority = False, to_in_place_if_possible = False\<rparr>"

record 'a exec_queue =
  eq_live :: bool
  eq_stopped :: bool
  eq_started :: "'a task_node list"

definition EINVAL :: int where "EINVAL = 22"
definition ENOMEM :: int where "ENOMEM = 12"

text \<open>
  \<open>alloc\<close> is what \<^verbatim>\<open>allocate_node()\<close> returns and \<open>mem\<close> whether \<^verbatim>\<open>allocator::allocate\<close> found
  memory; the second result is the handle's version.
\<close>

definition eq_execute ::
  "'a task_node option \<Rightarrow> bool \<Rightarrow> task_options option \<Rightarrow> 'a \<Rightarrow> 'a exec_queue
     \<Rightarrow> int \<times> u64 option \<times> 'a exec_queue" where
  "eq_execute alloc mem options task q =
     (if eq_stopped q then (EINVAL, None, q)
      else case alloc of
        None \<Rightarrow> (ENOMEM, None, q)
      | Some node \<Rightarrow>
          if \<not> mem then (ENOMEM, None, q)
          else let opt = (case options of None \<Rightarrow> default_task_options | Some o' \<Rightarrow> o');
                   node' = node\<lparr>tn_task := Some task, tn_stop_task := False,
                                tn_high_priority := to_high_priority opt,
                                tn_in_place := to_in_place_if_possible opt\<rparr>
               in (0, Some (tn_version node'), q\<lparr>eq_started := eq_started q @ [node']\<rparr>))"

definition execution_queue_execute ::
  "'a task_node option \<Rightarrow> bool \<Rightarrow> task_options option \<Rightarrow> 'a \<Rightarrow> 'a exec_queue
     \<Rightarrow> int \<times> u64 option \<times> 'a exec_queue" where
  "execution_queue_execute alloc mem options task q =
     (if eq_live q then eq_execute alloc mem options task q else (EINVAL, None, q))"

text \<open>The tasks submitted so far, in order.\<close>

definition eq_tasks :: "'a exec_queue \<Rightarrow> 'a list" where
  "eq_tasks q = List.map_filter tn_task (eq_started q)"

text \<open>
  The overload without a handle, as its callers use it: \<open>alloc\<close> answers the two allocations of the
  submission from the state of the queue.
\<close>

definition execute_options ::
  "('a exec_queue \<Rightarrow> 'a task_node option \<times> bool) \<Rightarrow> task_options option \<Rightarrow> 'a \<Rightarrow> 'a exec_queue \<Rightarrow> int \<times> 'a exec_queue" where
  "execute_options alloc options task q =
     (let (node, mem) = alloc q; (ret, _, q') = execution_queue_execute node mem options task q in (ret, q'))"

text \<open>
  Starting and stopping; the member functions \<^verbatim>\<open>create\<close> and \<^verbatim>\<open>stop\<close> are in the missing source file and arguments
  here.  Stopping looks the queue up first.
\<close>

definition execution_queue_start :: "('a exec_queue \<Rightarrow> int \<times> 'a exec_queue) \<Rightarrow> 'a exec_queue \<Rightarrow> int \<times> 'a exec_queue" where
  "execution_queue_start create q = create q"

definition execution_queue_stop :: "('a exec_queue \<Rightarrow> int \<times> 'a exec_queue) \<Rightarrow> 'a exec_queue \<Rightarrow> int \<times> 'a exec_queue" where
  "execution_queue_stop stop q = (if eq_live q then stop q else (EINVAL, q))"

definition q_open :: "'a exec_queue \<Rightarrow> bool" where
  "q_open q \<longleftrightarrow> eq_live q \<and> \<not> eq_stopped q"

definition alloc_ok :: "('q \<Rightarrow> 'n option \<times> bool) \<Rightarrow> bool" where
  "alloc_ok alloc \<longleftrightarrow> (\<forall>q. fst (alloc q) \<noteq> None \<and> snd (alloc q))"

lemma execute_options_tasks:
  "eq_tasks (snd (execute_options alloc options t q)) =
     eq_tasks q @ (if q_open q \<and> fst (alloc q) \<noteq> None \<and> snd (alloc q) then [t] else [])"
  and execute_options_open: "q_open (snd (execute_options alloc options t q)) = q_open q"
  by (auto simp: execute_options_def execution_queue_execute_def eq_execute_def q_open_def Let_def
      eq_tasks_def map_filter_def split: prod.splits option.splits)

section \<open>What the producers rely on\<close>

text \<open>
  A sink for messages: as long as it accepts, a message put into it is the last one sent, and it
  goes on accepting.
\<close>

locale task_sink =
  fixes put :: "'m \<Rightarrow> 'q \<Rightarrow> 'q"
    and sent :: "'q \<Rightarrow> 'm list"
    and accepts :: "'q \<Rightarrow> bool"
  assumes put_sent: "accepts q \<Longrightarrow> sent (put m q) = sent q @ [m]"
    and put_accepts: "accepts q \<Longrightarrow> accepts (put m q)"
begin

lemma fold_put: "accepts q \<Longrightarrow> sent (fold put ms q) = sent q @ ms \<and> accepts (fold put ms q)"
  by (induction ms arbitrary: q) (simp_all add: put_sent put_accepts)

end

interpretation queue_sink: task_sink "\<lambda>t q. snd (execute_options alloc options t q)" eq_tasks
    "\<lambda>q. q_open q \<and> alloc_ok alloc" for alloc options
  by unfold_locales (auto simp: execute_options_tasks execute_options_open alloc_ok_def)

section \<open>The task iterator\<close>

record 'a task_iterator =
  it_cur :: "'a task_node option"
  it_is_stopped :: bool
  it_should_break :: bool

definition it_bool :: "'a task_iterator \<Rightarrow> bool" where
  "it_bool it \<longleftrightarrow> \<not> it_is_stopped it \<and> \<not> it_should_break it \<and>
     (case it_cur it of None \<Rightarrow> False | Some n \<Rightarrow> \<not> tn_stop_task n)"

section \<open>Linking newly pushed nodes\<close>

text \<open>
  Producers push a node by exchanging \<open>_head\<close> and then storing the old head in the node's
  \<open>next\<close>; until that store the field is \<open>Unconnected\<close>.  \<open>rev_until\<close> is the \<^verbatim>\<open>do\<close> loop,
  over the store \<open>nx\<close> of \<open>next\<close> fields: \<open>None\<close> where it would have to wait for a producer
  or where the \<^verbatim>\<open>CHECK\<close> on a null link fails, and, with too little fuel, where it has not
  finished; the fuel is the number of nodes it may visit.
\<close>

fun rev_until :: "nat \<Rightarrow> (nat \<Rightarrow> link) \<Rightarrow> link \<Rightarrow> nat \<Rightarrow> nat \<Rightarrow> ((nat \<Rightarrow> link) \<times> link) option" where
  "rev_until 0 nx tail p old_head = None"
| "rev_until (Suc fuel) nx tail p old_head =
     (case nx p of
        Unconnected \<Rightarrow> None
      | Null \<Rightarrow> None
      | Node saved_next \<Rightarrow>
          if saved_next = old_head then Some (nx(p := tail), Node p)
          else rev_until fuel (nx(p := tail)) (Node p) saved_next old_head)"

text \<open>
  \<open>_more_tasks\<close>: the result, the new \<open>_head\<close>, the links and \<open>*new_tail\<close> when it is set.
\<close>

definition more_tasks ::
  "nat \<Rightarrow> link \<Rightarrow> (nat \<Rightarrow> link) \<Rightarrow> nat \<Rightarrow> bool \<Rightarrow> (bool \<times> link \<times> (nat \<Rightarrow> link) \<times> link option) option" where
  "more_tasks fuel hd0 nx old_head has_uniterated =
     (if nx old_head \<noteq> Null then None
      else let desired = (if has_uniterated then Node old_head else Null)
      in if hd0 = Node old_head then Some (has_uniterated, desired, nx, None)
         else case hd0 of
           Node new_head \<Rightarrow>
             (case rev_until fuel nx Null new_head old_head of
                None \<Rightarrow> None
              | Some (nx', tail) \<Rightarrow> Some (True, hd0, nx'(old_head := tail), Some (Node new_head)))
         | _ \<Rightarrow> None)"

text \<open>The nodes reached by following \<open>next\<close> from a link up to (not including) \<open>stop\<close>.\<close>

fun link_path :: "(nat \<Rightarrow> link) \<Rightarrow> link \<Rightarrow> nat list \<Rightarrow> link \<Rightarrow> bool" where
  "link_path nx l [] stop \<longleftrightarrow> l = stop"
| "link_path nx l (n # ns) stop \<longleftrightarrow> l = Node n \<and> link_path nx (nx n) ns stop"

lemma link_path_upd: "p \<notin> set ns \<Longrightarrow> link_path (nx(p := x)) l ns stop = link_path nx l ns stop"
  by (induction ns arbitrary: l) auto

lemma link_path_append: "link_path nx l (ms @ ns) stop \<longleftrightarrow> (\<exists>m. link_path nx l ms m \<and> link_path nx m ns stop)"
  by (induction ms arbitrary: l) auto

lemma rev_until_correct:
  assumes "link_path nx (Node p) ns (Node old)" "distinct ns" "old \<notin> set ns" "ns \<noteq> []"
    and "link_path nx tail done0 Null" "set done0 \<inter> set ns = {}" "old \<notin> set done0"
    and "length ns \<le> fuel"
  shows "\<exists>nx' n. rev_until fuel nx tail p old = Some (nx', Node n) \<and>
           link_path nx' (Node n) (rev ns @ done0) Null \<and> (\<forall>q. q \<notin> set ns \<longrightarrow> nx' q = nx q)"
  using assms
proof (induction fuel arbitrary: nx tail p ns done0)
  case 0
  then show ?case by simp
next
  case (Suc fuel)
  then obtain ns' where ns: "ns = p # ns'" by (cases ns) auto
  let ?nx = "nx(p := tail)"
  show ?case
  proof (cases ns')
    case Nil
    with Suc.prems ns show ?thesis by (auto simp: link_path_upd)
  next
    case (Cons q qs)
    have nxp: "nx p = Node q" and tl_path: "link_path nx (Node q) ns' (Node old)"
      using Suc.prems(1) ns Cons by auto
    have "q \<noteq> old" using Suc.prems(3) ns Cons by auto
    have "\<exists>nx' n. rev_until fuel ?nx (Node p) q old = Some (nx', Node n) \<and>
        link_path nx' (Node n) (rev ns' @ p # done0) Null \<and> (\<forall>r. r \<notin> set ns' \<longrightarrow> nx' r = ?nx r)"
    proof (rule Suc.IH)
      show "link_path ?nx (Node q) ns' (Node old)"
        using tl_path Suc.prems(2) ns by (simp add: link_path_upd)
      show "link_path ?nx (Node p) (p # done0) Null"
        using Suc.prems(5,6) ns by (simp add: link_path_upd)
    qed (use Suc.prems ns Cons in auto)
    then show ?thesis using nxp \<open>q \<noteq> old\<close> ns by auto
  qed
qed

section \<open>Versioned references\<close>

definition version_of_id :: "u64 \<Rightarrow> u32" where
  "version_of_id i = hi32 i"

definition version_of_vref :: "u64 \<Rightarrow> u32" where
  "version_of_vref vref = hi32 vref"

definition ref_of_vref :: "u64 \<Rightarrow> u32" where
  "ref_of_vref vref = lo32 vref"

definition make_vref :: "u32 \<Rightarrow> u32 \<Rightarrow> u64" where
  "make_vref version ref = pack32 version ref"

text \<open>
  \<open>dereference\<close> makes two atomic accesses to \<open>_versioned_ref\<close>: the \<^verbatim>\<open>fetch_sub\<close>, which finds
  \<open>vref\<close>, and, when that was the last reference, the compare-and-swap, which finds \<open>now\<close>.
  Between the two other threads may run, so the two values are separate arguments.  The result
  is the return value, the value \<open>_versioned_ref\<close> is left with, and whether \<^verbatim>\<open>_on_recycle\<close> runs.
\<close>

definition eq_dereference :: "u64 \<Rightarrow> u64 \<Rightarrow> u64 \<Rightarrow> (int \<times> u64 \<times> bool) res" where
  "eq_dereference this_id vref now =
     (let nref = sint (ref_of_vref vref)
      in if nref > 1 then Inr (0, now, False)
         else if nref = 1 then
           (let ver = version_of_vref vref; id_ver = version_of_id this_id
            in if ver = id_ver \<or> ver = id_ver + 1 then
                 (if now = vref - 1 then Inr (1, make_vref (id_ver + 2) 0, True) else Inr (0, now, False))
               else Inl AssertFailed)
         else Inl AssertFailed)"

section \<open>Properties\<close>

text \<open>Calls on one node while it keeps its version, and how many of them win the task.\<close>

datatype node_call_kind = CallCancel u64 | CallPeek | CallSetExecuted

fun node_call :: "node_call_kind \<Rightarrow> 'a task_node \<Rightarrow> bool \<times> 'a task_node" where
  "node_call (CallCancel v) n = (let (r, n') = tn_cancel v n in (r = 0, n'))"
| "node_call CallPeek n = tn_peek_to_execute n"
| "node_call CallSetExecuted n = (False, tn_set_executed n)"

fun node_wins :: "node_call_kind list \<Rightarrow> 'a task_node \<Rightarrow> nat" where
  "node_wins [] n = 0"
| "node_wins (c # cs) n = (let (win, n') = node_call c n in (if win then 1 else 0) + node_wins cs n')"

lemma node_call_taken:
  "tn_status n \<noteq> UNEXECUTED \<Longrightarrow> node_call c n = (win, n') \<Longrightarrow> \<not> win \<and> tn_status n' \<noteq> UNEXECUTED"
  by (cases c) (auto simp: tn_cancel_def tn_peek_to_execute_def tn_set_executed_def split: if_splits)

lemma node_call_win:
  "node_call c n = (True, n') \<Longrightarrow> tn_status n' \<noteq> UNEXECUTED"
  by (cases c) (auto simp: tn_cancel_def tn_peek_to_execute_def split: if_splits)

lemma node_wins_taken: "tn_status n \<noteq> UNEXECUTED \<Longrightarrow> node_wins cs n = 0"
  by (induction cs arbitrary: n) (auto split: prod.splits dest: node_call_taken)



text \<open>C26: \<open>_more_tasks\<close> keeps the order of submission: once the producers have stored their links, the
  nodes pushed since the last round, which hang off \<open>_head\<close> newest first, are linked behind the
  last executed node oldest first, each exactly once, and no other link changes.\<close>

theorem more_tasks_fifo:
  assumes "link_path nx (Node new_head) ns (Node old)" "distinct ns" "old \<notin> set ns" "ns \<noteq> []" "nx old = Null"
    and "length ns \<le> fuel"
  shows "\<exists>nx'. more_tasks fuel (Node new_head) nx old uniter = Some (True, Node new_head, nx', Some (Node new_head))
           \<and> link_path nx' (Node old) (old # rev ns) Null \<and> (\<forall>q. q \<notin> insert old (set ns) \<longrightarrow> nx' q = nx q)"
proof -
  obtain nx' n where r: "rev_until fuel nx Null new_head old = Some (nx', Node n)"
      "link_path nx' (Node n) (rev ns) Null" "\<forall>q. q \<notin> set ns \<longrightarrow> nx' q = nx q"
    using rev_until_correct [of nx new_head ns old Null "[]" fuel] assms by auto
  moreover have "new_head \<noteq> old" using assms by (cases ns) auto
  ultimately show ?thesis
    using assms by (auto simp: more_tasks_def link_path_upd)
qed

theorem more_tasks_fifo_witness:
  "\<exists>nx'. more_tasks 2 (Node 3) ((\<lambda>_. Null)(3 := Node 2, 2 := Node 1)) 1 False
           = Some (True, Node 3, nx', Some (Node 3)) \<and> link_path nx' (Node 1) [1, 2, 3] Null"
  using more_tasks_fifo [of "(\<lambda>_. Null)(3 := Node 2, 2 := Node 1)" 3 "[3, 2]" 1 2 False] by auto

text \<open>\<open>execute\<close> either appends the task behind everything submitted before and returns 0, or
  leaves the queue alone and returns \<open>EINVAL\<close> (the queue is gone or stopped) or \<open>ENOMEM\<close>.\<close>

theorem execute_fifo:
  "execution_queue_execute alloc mem options task q = (ret, h, q') \<Longrightarrow>
   (if eq_live q \<and> \<not> eq_stopped q \<and> alloc \<noteq> None \<and> mem
    then ret = 0 \<and> eq_tasks q' = eq_tasks q @ [task] \<and> h = Some (tn_version (the alloc))
    else ret = (if eq_live q \<and> \<not> eq_stopped q then ENOMEM else EINVAL) \<and> q' = q \<and> h = None)"
  by (auto simp: execution_queue_execute_def eq_execute_def eq_tasks_def Let_def map_filter_def
      split: if_splits option.splits)

theorem execute_fifo_witness:
  "\<exists>ret h q'. execution_queue_execute (Some new_task_node) True None (7 :: nat)
      \<lparr>eq_live = True, eq_stopped = False, eq_started = []\<rparr> = (ret, h, q')
     \<and> ret = 0 \<and> eq_tasks q' = [7]"
proof -
  obtain ret h q' where r: "execution_queue_execute (Some new_task_node) True None (7 :: nat)
      \<lparr>eq_live = True, eq_stopped = False, eq_started = []\<rparr> = (ret, h, q')"
    using prod_cases3 by blast
  from execute_fifo [OF r] show ?thesis using r by (auto simp: eq_tasks_def map_filter_def)
qed

lemma ref_of_vref_1: "sint (ref_of_vref vref) = 1 \<Longrightarrow> vref = pack32 (version_of_vref vref) 1"
proof -
  assume "sint (ref_of_vref vref) = 1"
  then have "ref_of_vref vref = 1" by (simp add: signed_word_eqI)
  then show ?thesis using pack_hi_lo [of vref] by (simp add: ref_of_vref_def version_of_vref_def)
qed

lemma eq_dereference_recycles:
  assumes "eq_dereference this_id vref now = Inr (r, v, True)"
  shows "r = 1 \<and> v = make_vref (version_of_id this_id + 2) 0 \<and>
         (\<exists>ver \<in> {version_of_id this_id, version_of_id this_id + 1}. vref = make_vref ver 1 \<and> now = make_vref ver 0)"
proof -
  have one: "sint (ref_of_vref vref) = 1" and now: "now = vref - 1"
    and ver: "version_of_vref vref \<in> {version_of_id this_id, version_of_id this_id + 1}"
    and rv: "r = 1" "v = make_vref (version_of_id this_id + 2) 0"
    using assms by (auto simp: eq_dereference_def Let_def split: if_splits)
  have "vref = pack32 (version_of_vref vref) 1" using one by (rule ref_of_vref_1)
  moreover from this now have "now = pack32 (version_of_vref vref) 0"
    by (metis pack32_dec diff_self zero_neq_one)
  ultimately show ?thesis using rv ver by (auto simp: make_vref_def)
qed

lemma u32_add_2_distinct: "(x :: u32) \<noteq> x + 2" "(x :: u32) + 1 \<noteq> x + 2"
  by simp_all

text \<open>The queue is recycled at most once per id: \<open>dereference\<close> recycles only when it removed the last
  reference and the count was still untouched at its compare-and-swap, and what it then stores
  makes every later attempt for the same id fail, whatever count that attempt had seen.\<close>

theorem queue_recycled_once:
  assumes "eq_dereference this_id vref1 now1 = Inr (r1, v1, True)"
    and "eq_dereference this_id vref2 v1 = Inr (r2, v2, recycled2)"
  shows "r1 = 1 \<and> now1 = vref1 - 1 \<and> \<not> recycled2 \<and> v2 = v1 \<and> r2 = 0"
proof -
  have v1: "r1 = 1" "v1 = make_vref (version_of_id this_id + 2) 0"
    using eq_dereference_recycles [OF assms(1)] by simp_all
  have now1: "now1 = vref1 - 1"
    using assms(1) by (auto simp: eq_dereference_def Let_def split: if_splits)
  have "\<not> recycled2"
  proof
    assume "recycled2"
    with assms(2) have "\<exists>ver \<in> {version_of_id this_id, version_of_id this_id + 1}. v1 = make_vref ver 0"
      by (auto dest!: eq_dereference_recycles)
    then show False using v1 by (auto simp: make_vref_def)
  qed
  then show ?thesis
    using assms(2) v1 now1 by (auto simp: eq_dereference_def Let_def split: if_splits)
qed

theorem queue_recycled_once_witness:
  "eq_dereference 0 1 0 = Inr (1, 0x200000000, True) \<and>
   eq_dereference 0 1 0x200000000 = Inr (0, 0x200000000, False) \<and> \<not> False"
proof -
  have a: "eq_dereference 0 1 0 = Inr (1, 0x200000000, True)"
    by (simp add: eq_dereference_def ref_of_vref_def version_of_vref_def version_of_id_def
        make_vref_def lo32_def hi32_def pack32_def)
  have b: "eq_dereference 0 1 0x200000000 = Inr (0, 0x200000000, False)"
    by (simp add: eq_dereference_def ref_of_vref_def version_of_vref_def version_of_id_def
        make_vref_def lo32_def hi32_def pack32_def)
  from queue_recycled_once [OF a b] a b show ?thesis by simp
qed

end
