(* ===== verification/TimeUtil.thy ===== *)
theory TimeUtil
  imports Prelude
begin

text \<open>
  \<^verbatim>\<open>brpc/include/butil/time.h\<close>: the \<open>timespec\<close> arithmetic behind the deadlines of the periodic
  tasks.  \<^verbatim>\<open>int64_t\<close> is \<open>int\<close> with every result checked against its range: signed overflow is
  the fault \<open>SignedOverflow\<close>.  Division truncates towards zero (\<open>cdiv\<close>).  The clock is an
  argument.
\<close>

section \<open>Signed 64-bit arithmetic\<close>

definition i64 :: "int \<Rightarrow> int res" where
  "i64 x = (if - (2 ^ 63) \<le> x \<and> x < 2 ^ 63 then Inr x else Inl SignedOverflow)"

definition cdiv :: "int \<Rightarrow> int \<Rightarrow> int" where
  "cdiv a b = (if 0 \<le> a then a div b else - ((- a) div b))"

lemma i64_Inr_iff [res_simps]: "i64 x = Inr y \<longleftrightarrow> y = x \<and> - (2 ^ 63) \<le> x \<and> x < 2 ^ 63"
  by (auto simp: i64_def)

lemma i64_ok [simp]: "- (2 ^ 63) \<le> x \<Longrightarrow> x < 2 ^ 63 \<Longrightarrow> i64 x = Inr x"
  by (simp add: i64_def)

lemma cdiv_pos: "0 \<le> a \<Longrightarrow> cdiv a b = a div b"
  by (simp add: cdiv_def)

text \<open>The rounding trick of \<open>timespec_normalize\<close>: truncation of a shifted negative is the floor.\<close>

lemma cdiv_floor:
  assumes "a < 0" "0 < b"
  shows "cdiv (a - (b - 1)) b = a div b"
proof -
  have "(- a + (b - 1)) div b = - (a div b)"
  proof (rule int_div_pos_eq)
    show "- a + (b - 1) = b * - (a div b) + (b - 1 - a mod b)"
      by (simp add: minus_mod_eq_mult_div [symmetric])
  qed (use assms pos_mod_bound [of b a] pos_mod_sign [of b a] in linarith)+
  then show ?thesis using assms by (simp add: cdiv_def algebra_simps)
qed

section \<open>\<open>timespec\<close>\<close>

record timespec =
  tv_sec :: int
  tv_nsec :: int

definition timespec_normalize :: "timespec \<Rightarrow> timespec res" where
  "timespec_normalize tm =
     (if 1000000000 \<le> tv_nsec tm then
        (let added_sec = cdiv (tv_nsec tm) 1000000000
         in res_bind (i64 (tv_sec tm + added_sec)) (\<lambda>s.
            res_bind (i64 (tv_nsec tm - added_sec * 1000000000)) (\<lambda>n.
            Inr (tm\<lparr>tv_sec := s, tv_nsec := n\<rparr>))))
      else if tv_nsec tm < 0 then
        res_bind (i64 (tv_nsec tm - 999999999)) (\<lambda>m.
          let sub_sec = cdiv m 1000000000
          in res_bind (i64 (tv_sec tm + sub_sec)) (\<lambda>s.
             res_bind (i64 (sub_sec * 1000000000)) (\<lambda>p.
             res_bind (i64 (tv_nsec tm - p)) (\<lambda>n.
             Inr (tm\<lparr>tv_sec := s, tv_nsec := n\<rparr>)))))
      else Inr tm)"

definition timespec_add :: "timespec \<Rightarrow> timespec \<Rightarrow> timespec res" where
  "timespec_add tm span =
     res_bind (i64 (tv_sec tm + tv_sec span)) (\<lambda>s.
     res_bind (i64 (tv_nsec tm + tv_nsec span)) (\<lambda>n.
     timespec_normalize (tm\<lparr>tv_sec := s, tv_nsec := n\<rparr>)))"

definition timespec_minus :: "timespec \<Rightarrow> timespec \<Rightarrow> timespec res" where
  "timespec_minus tm span =
     res_bind (i64 (tv_sec tm - tv_sec span)) (\<lambda>s.
     res_bind (i64 (tv_nsec tm - tv_nsec span)) (\<lambda>n.
     timespec_normalize (tm\<lparr>tv_sec := s, tv_nsec := n\<rparr>)))"

definition nanoseconds_from :: "timespec \<Rightarrow> int \<Rightarrow> timespec res" where
  "nanoseconds_from start_time nanoseconds =
     res_bind (i64 (tv_nsec start_time + nanoseconds)) (\<lambda>n.
     timespec_normalize (start_time\<lparr>tv_nsec := n\<rparr>))"

definition microseconds_from :: "timespec \<Rightarrow> int \<Rightarrow> timespec res" where
  "microseconds_from start_time us = res_bind (i64 (us * 1000)) (nanoseconds_from start_time)"

definition milliseconds_from :: "timespec \<Rightarrow> int \<Rightarrow> timespec res" where
  "milliseconds_from start_time ms = res_bind (i64 (ms * 1000000)) (nanoseconds_from start_time)"

definition seconds_from :: "timespec \<Rightarrow> int \<Rightarrow> timespec res" where
  "seconds_from start_time s = res_bind (i64 (s * 1000000000)) (nanoseconds_from start_time)"

text \<open>The \<^verbatim>\<open>_from_now\<close> functions: \<open>now\<close> is what \<^verbatim>\<open>clock_gettime(CLOCK_REALTIME)\<close> returns.\<close>

definition nanoseconds_from_now :: "timespec \<Rightarrow> int \<Rightarrow> timespec res" where
  "nanoseconds_from_now now ns = nanoseconds_from now ns"

definition microseconds_from_now :: "timespec \<Rightarrow> int \<Rightarrow> timespec res" where
  "microseconds_from_now now us = res_bind (i64 (us * 1000)) (nanoseconds_from_now now)"

definition milliseconds_from_now :: "timespec \<Rightarrow> int \<Rightarrow> timespec res" where
  "milliseconds_from_now now ms = res_bind (i64 (ms * 1000000)) (nanoseconds_from_now now)"

definition seconds_from_now :: "timespec \<Rightarrow> int \<Rightarrow> timespec res" where
  "seconds_from_now now s = res_bind (i64 (s * 1000000000)) (nanoseconds_from_now now)"

definition timespec_from_now :: "timespec \<Rightarrow> timespec \<Rightarrow> timespec res" where
  "timespec_from_now now span = timespec_add now span"

section \<open>Conversions\<close>

definition timespec_to_nanoseconds :: "timespec \<Rightarrow> int res" where
  "timespec_to_nanoseconds ts =
     res_bind (i64 (tv_sec ts * 1000000000)) (\<lambda>s. i64 (s + tv_nsec ts))"

definition timespec_to_microseconds :: "timespec \<Rightarrow> int res" where
  "timespec_to_microseconds ts = res_bind (timespec_to_nanoseconds ts) (\<lambda>n. Inr (cdiv n 1000))"

definition timespec_to_milliseconds :: "timespec \<Rightarrow> int res" where
  "timespec_to_milliseconds ts = res_bind (timespec_to_nanoseconds ts) (\<lambda>n. Inr (cdiv n 1000000))"

definition timespec_to_seconds :: "timespec \<Rightarrow> int res" where
  "timespec_to_seconds ts = res_bind (timespec_to_nanoseconds ts) (\<lambda>n. Inr (cdiv n 1000000000))"

definition nanoseconds_to_timespec :: "int \<Rightarrow> timespec res" where
  "nanoseconds_to_timespec ns =
     (let s = cdiv ns 1000000000
      in res_bind (i64 (s * 1000000000)) (\<lambda>p. res_bind (i64 (ns - p)) (\<lambda>n.
         Inr \<lparr>tv_sec = s, tv_nsec = n\<rparr>)))"

definition microseconds_to_timespec :: "int \<Rightarrow> timespec res" where
  "microseconds_to_timespec us = res_bind (i64 (us * 1000)) nanoseconds_to_timespec"

definition milliseconds_to_timespec :: "int \<Rightarrow> timespec res" where
  "milliseconds_to_timespec ms = res_bind (i64 (ms * 1000000)) nanoseconds_to_timespec"

definition seconds_to_timespec :: "int \<Rightarrow> timespec res" where
  "seconds_to_timespec s = res_bind (i64 (s * 1000000000)) nanoseconds_to_timespec"

record timeval =
  tval_sec :: int
  tval_usec :: int

definition timeval_to_microseconds :: "timeval \<Rightarrow> int res" where
  "timeval_to_microseconds tv =
     res_bind (i64 (tval_sec tv * 1000000)) (\<lambda>s. i64 (s + tval_usec tv))"

definition timeval_to_milliseconds :: "timeval \<Rightarrow> int res" where
  "timeval_to_milliseconds tv = res_bind (timeval_to_microseconds tv) (\<lambda>u. Inr (cdiv u 1000))"

definition timeval_to_seconds :: "timeval \<Rightarrow> int res" where
  "timeval_to_seconds tv = res_bind (timeval_to_microseconds tv) (\<lambda>u. Inr (cdiv u 1000000))"

definition microseconds_to_timeval :: "int \<Rightarrow> timeval res" where
  "microseconds_to_timeval us =
     (let s = cdiv us 1000000
      in res_bind (i64 (s * 1000000)) (\<lambda>p. res_bind (i64 (us - p)) (\<lambda>u.
         Inr \<lparr>tval_sec = s, tval_usec = u\<rparr>)))"

definition milliseconds_to_timeval :: "int \<Rightarrow> timeval res" where
  "milliseconds_to_timeval ms = res_bind (i64 (ms * 1000)) microseconds_to_timeval"

definition seconds_to_timeval :: "int \<Rightarrow> timeval res" where
  "seconds_to_timeval s = res_bind (i64 (s * 1000000)) microseconds_to_timeval"

section \<open>Rate limiting and timers\<close>

record every_many_us =
  last_time_us :: int
  interval_us :: int

definition new_every_many_us :: "int \<Rightarrow> int \<Rightarrow> every_many_us" where
  "new_every_many_us now_us interval = \<lparr>last_time_us = now_us, interval_us = interval\<rparr>"

definition every_bool :: "int \<Rightarrow> every_many_us \<Rightarrow> (bool \<times> every_many_us) res" where
  "every_bool now_us e =
     res_bind (i64 (last_time_us e + interval_us e)) (\<lambda>due.
       if now_us < due then Inr (False, e) else Inr (True, e\<lparr>last_time_us := now_us\<rparr>))"

record timer =
  tm_stop :: int
  tm_start :: int

definition timer_start :: "int \<Rightarrow> timer \<Rightarrow> timer" where
  "timer_start now_ns t = t\<lparr>tm_start := now_ns, tm_stop := now_ns\<rparr>"

definition timer_stop :: "int \<Rightarrow> timer \<Rightarrow> timer" where
  "timer_stop now_ns t = t\<lparr>tm_stop := now_ns\<rparr>"

definition n_elapsed :: "timer \<Rightarrow> int res" where
  "n_elapsed t = i64 (tm_stop t - tm_start t)"

definition u_elapsed :: "timer \<Rightarrow> int res" where
  "u_elapsed t = res_bind (n_elapsed t) (\<lambda>n. Inr (cdiv n 1000))"

definition m_elapsed :: "timer \<Rightarrow> int res" where
  "m_elapsed t = res_bind (u_elapsed t) (\<lambda>n. Inr (cdiv n 1000))"

definition s_elapsed :: "timer \<Rightarrow> int res" where
  "s_elapsed t = res_bind (m_elapsed t) (\<lambda>n. Inr (cdiv n 1000))"

section \<open>Exact time\<close>

text \<open>The instant a \<open>timespec\<close> denotes, in nanoseconds, with no width.\<close>

definition ts_ns :: "timespec \<Rightarrow> int" where
  "ts_ns ts = tv_sec ts * 1000000000 + tv_nsec ts"

definition ts_normal :: "timespec \<Rightarrow> bool" where
  "ts_normal ts \<longleftrightarrow> 0 \<le> tv_nsec ts \<and> tv_nsec ts < 1000000000"

definition ts_i64 :: "timespec \<Rightarrow> bool" where
  "ts_i64 ts \<longleftrightarrow> - (2 ^ 63) \<le> tv_nsec ts \<and> tv_nsec ts < 2 ^ 63"

lemma ts_normal_unique:
  assumes "ts_normal a" "ts_normal b" "ts_ns a = ts_ns b"
  shows "a = b"
proof -
  have "tv_sec a = tv_sec b" using assms by (simp add: ts_normal_def ts_ns_def)
  then show ?thesis using assms by (simp add: ts_ns_def)
qed

lemma timespec_normalize_result:
  assumes "timespec_normalize tm = Inr tm'"
  shows "ts_normal tm' \<and> ts_ns tm' = ts_ns tm"
proof -
  consider (big) "1000000000 \<le> tv_nsec tm" | (neg) "tv_nsec tm < 0" | (ok) "0 \<le> tv_nsec tm" "tv_nsec tm < 1000000000"
    by linarith
  then show ?thesis
  proof cases
    case big
    with assms show ?thesis
      by (auto simp: timespec_normalize_def res_simps Let_def cdiv_pos ts_normal_def ts_ns_def
          minus_div_mult_eq_mod)
  next
    case neg
    have "cdiv (tv_nsec tm - 999999999) 1000000000 = tv_nsec tm div 1000000000"
      using cdiv_floor [OF neg, of 1000000000] by simp
    with assms neg show ?thesis
      by (auto simp: timespec_normalize_def res_simps Let_def ts_normal_def ts_ns_def
          minus_div_mult_eq_mod)
  next
    case ok
    with assms show ?thesis by (auto simp: timespec_normalize_def ts_normal_def)
  qed
qed

lemma timespec_normalize_returns:
  assumes "\<bar>tv_sec tm\<bar> \<le> 2 ^ 62" "- (2 ^ 63) + 1000000000 \<le> tv_nsec tm" "tv_nsec tm < 2 ^ 63"
  shows "\<exists>tm'. timespec_normalize tm = Inr tm'"
proof -
  let ?q = "tv_nsec tm div 1000000000"
  have q: "- (2 ^ 61) \<le> ?q" "?q \<le> 2 ^ 61" using assms(2,3) by simp_all
  have r: "tv_nsec tm - ?q * 1000000000 = tv_nsec tm mod 1000000000"
    by (simp add: minus_div_mult_eq_mod)
  have m: "- (2 ^ 63) \<le> ?q * 1000000000" "?q * 1000000000 < 2 ^ 63"
    using r assms(2,3) pos_mod_bound [of 1000000000 "tv_nsec tm"] pos_mod_sign [of 1000000000 "tv_nsec tm"]
    by simp_all
  have sec: "i64 (tv_sec tm + ?q) = Inr (tv_sec tm + ?q)"
    using assms(1) q by (intro i64_ok) simp_all
  have nsec: "i64 (tv_nsec tm - ?q * 1000000000) = Inr (tv_nsec tm - ?q * 1000000000)"
    unfolding r by (intro i64_ok) simp_all
  have p: "i64 (?q * 1000000000) = Inr (?q * 1000000000)"
    using m by (rule i64_ok)
  consider (big) "1000000000 \<le> tv_nsec tm" | (neg) "tv_nsec tm < 0" | (ok) "0 \<le> tv_nsec tm" "tv_nsec tm < 1000000000"
    by linarith
  then show ?thesis
  proof cases
    case big
    with sec nsec show ?thesis by (simp add: timespec_normalize_def cdiv_pos Let_def)
  next
    case neg
    have "cdiv (tv_nsec tm - 999999999) 1000000000 = ?q"
      using cdiv_floor [OF neg, of 1000000000] by simp
    with neg sec nsec p assms(2) show ?thesis
      by (simp add: timespec_normalize_def Let_def i64_def [of "tv_nsec tm - 999999999"])
  qed (simp add: timespec_normalize_def)
qed

lemma nanoseconds_from_result:
  "nanoseconds_from ts n = Inr ts' \<Longrightarrow> ts_normal ts' \<and> ts_ns ts' = ts_ns ts + n"
  by (auto simp: nanoseconds_from_def res_simps ts_ns_def dest!: timespec_normalize_result)

lemma nanoseconds_from_returns:
  assumes "\<bar>tv_sec ts\<bar> \<le> 2 ^ 62" "- (2 ^ 63) + 1000000000 \<le> tv_nsec ts + n" "tv_nsec ts + n < 2 ^ 63"
  shows "\<exists>ts'. nanoseconds_from ts n = Inr ts'"
  using assms timespec_normalize_returns [of "ts\<lparr>tv_nsec := tv_nsec ts + n\<rparr>"]
  by (simp add: nanoseconds_from_def)

lemma milliseconds_from_now_returns:
  assumes "ts_normal now" "\<bar>tv_sec now\<bar> \<le> 2 ^ 62" "- (2 ^ 31) \<le> ms" "ms < 2 ^ 31"
  shows "\<exists>ts. milliseconds_from_now now ms = Inr ts"
proof -
  have ms: "i64 (ms * 1000000) = Inr (ms * 1000000)"
    using assms(3,4) by (intro i64_ok) simp_all
  have "\<exists>ts. nanoseconds_from now (ms * 1000000) = Inr ts"
    using assms by (intro nanoseconds_from_returns) (simp_all add: ts_normal_def)
  with ms show ?thesis by (auto simp: milliseconds_from_now_def nanoseconds_from_now_def)
qed

section \<open>Properties\<close>

text \<open>The deadline a periodic task sets with \<open>milliseconds_from_now\<close> is exact and normalised: for
  every 32-bit interval, negative ones included, and every normalised clock reading whose seconds
  lie within \<open>2 ^ 62\<close>, no intermediate value overflows and the result is the clock's instant plus
  that many milliseconds, with the nanoseconds back in \<open>[0, 1000000000)\<close>.\<close>

theorem milliseconds_from_now_exact:
  assumes "ts_normal now" "\<bar>tv_sec now\<bar> \<le> 2 ^ 62" "- (2 ^ 31) \<le> ms" "ms < 2 ^ 31"
  shows "\<exists>ts. milliseconds_from_now now ms = Inr ts \<and> ts_normal ts \<and> ts_ns ts = ts_ns now + ms * 1000000"
proof -
  have ms: "i64 (ms * 1000000) = Inr (ms * 1000000)"
    using assms(3,4) by (intro i64_ok) simp_all
  have "\<exists>ts. nanoseconds_from now (ms * 1000000) = Inr ts"
    using assms by (intro nanoseconds_from_returns) (simp_all add: ts_normal_def)
  with ms show ?thesis
    using nanoseconds_from_result by (auto simp: milliseconds_from_now_def nanoseconds_from_now_def)
qed

theorem milliseconds_from_now_exact_witness:
  "\<exists>ts. milliseconds_from_now \<lparr>tv_sec = 5, tv_nsec = 999999999\<rparr> (- 50) = Inr ts \<and> ts_normal ts
     \<and> ts_ns ts = ts_ns \<lparr>tv_sec = 5, tv_nsec = 999999999\<rparr> + (- 50) * 1000000"
  by (rule milliseconds_from_now_exact) (simp_all add: ts_normal_def)

text \<open>Every \<^verbatim>\<open>int64_t\<close> count of nanoseconds survives the conversion to a \<open>timespec\<close> and back, the
  negative ones and the two ends of the range included; the nanosecond field has the sign of the
  count and stays below one second.\<close>

theorem timespec_nanoseconds_roundtrip:
  assumes "- (2 ^ 63) \<le> ns" "ns < 2 ^ 63"
  shows "\<exists>ts. nanoseconds_to_timespec ns = Inr ts \<and> timespec_to_nanoseconds ts = Inr ns
           \<and> \<bar>tv_nsec ts\<bar> < 1000000000 \<and> 0 \<le> tv_nsec ts * sgn ns"
proof -
  define s where "s = cdiv ns 1000000000"
  define r where "r = ns - s * 1000000000"
  have "0 \<le> r * sgn ns \<and> \<bar>r\<bar> < 1000000000 \<and> min 0 ns \<le> s * 1000000000 \<and> s * 1000000000 \<le> max 0 ns"
  proof (cases "0 \<le> ns")
    case True
    then have "r = ns mod 1000000000" by (simp add: r_def s_def cdiv_pos minus_div_mult_eq_mod)
    with True show ?thesis by (auto simp: r_def s_def cdiv_pos sgn_if)
  next
    case False
    then have "r = - ((- ns) mod 1000000000)"
      using minus_div_mult_eq_mod [of "- ns" 1000000000] by (simp add: r_def s_def cdiv_def)
    with False show ?thesis by (auto simp: r_def s_def cdiv_def sgn_if)
  qed
  moreover from this have "i64 (s * 1000000000) = Inr (s * 1000000000)" "i64 r = Inr r" "i64 ns = Inr ns"
    using assms by (auto intro!: i64_ok)
  ultimately show ?thesis
    by (simp add: nanoseconds_to_timespec_def timespec_to_nanoseconds_def s_def r_def Let_def)
qed

theorem timespec_nanoseconds_roundtrip_witness:
  "\<exists>ts. nanoseconds_to_timespec (- (2 ^ 63)) = Inr ts \<and> timespec_to_nanoseconds ts = Inr (- (2 ^ 63))
     \<and> \<bar>tv_nsec ts\<bar> < 1000000000 \<and> 0 \<le> tv_nsec ts * sgn (- (2 ^ 63))"
  by (rule timespec_nanoseconds_roundtrip) simp_all

text \<open>The instants at which a rate limiter polled at the times \<open>nows\<close> lets its caller through.\<close>

fun every_fires :: "every_many_us \<Rightarrow> int list \<Rightarrow> int list res" where
  "every_fires e [] = Inr []"
| "every_fires e (t # ts) =
     res_bind (every_bool t e) (\<lambda>(fire, e'). res_bind (every_fires e' ts) (\<lambda>fs.
       Inr (if fire then t # fs else fs)))"

text \<open>\<open>EveryManyUS\<close> lets its caller through at most once per interval: whatever the times at which
  it is polled, each instant it answers true at is at least the interval after the previous one,
  and the first at least the interval after its construction.\<close>

theorem every_many_us_spaced:
  assumes "every_fires (new_every_many_us t0 iv) nows = Inr fires"
  shows "successively (\<lambda>a b. a + iv \<le> b) (t0 # fires)"
proof -
  have "successively (\<lambda>a b. a + interval_us e \<le> b) (last_time_us e # fires)"
    if "every_fires e nows = Inr fires" for e
    using that
  proof (induction e nows arbitrary: fires rule: every_fires.induct)
    case (2 e t ts)
    then obtain fire e' fs where b: "every_bool t e = Inr (fire, e')" and fs: "every_fires e' ts = Inr fs"
      and fires: "fires = (if fire then t # fs else fs)"
      by (auto simp: res_simps)
    have "successively (\<lambda>a b. a + interval_us e' \<le> b) (last_time_us e' # fs)"
      using fs by (rule "2.IH")
    then show ?case using b fires by (auto simp: every_bool_def res_simps split: if_splits)
  qed simp
  from this [OF assms] show ?thesis by (simp add: new_every_many_us_def)
qed

theorem every_many_us_spaced_witness:
  "every_fires (new_every_many_us 0 10) [3, 10, 15, 25] = Inr [10, 25]
     \<and> successively (\<lambda>a b. a + 10 \<le> b) [0 :: int, 10, 25]"
proof -
  have r: "every_fires (new_every_many_us 0 10) [3, 10, 15, 25] = Inr [10, 25]"
    by (simp add: new_every_many_us_def every_bool_def)
  from r every_many_us_spaced [OF r] show ?thesis by (rule conjI)
qed

end
