(* ===== verification/Fullnode.thy ===== *)
theory Fullnode
  imports BlockLevelDb ExecutionQueue TimeUtil
begin

text \<open>
  \<^verbatim>\<open>lib/fullnode.cpp\<close> and \<^verbatim>\<open>lib/block_task.cpp\<close>: the periodic task that asks the full node for
  the blocks from the next number on, records each block's successor number in LevelDB and hands
  the block to the execution queue, and the consumer that calls the block callback.  The JSON
  library (jansson), the block parser (\<^verbatim>\<open>fc::json\<close>), the HTTP call, the clock and node allocation
  are arguments, collected in \<open>fullnode_env\<close>.  Log output is left out, but the calls its
  arguments make are kept.
\<close>

section \<open>Block tasks\<close>

record 'sh block_task =
  bt_message :: "'sh signed_block"

type_synonym 'sh block_queue = "'sh block_task exec_queue"

text \<open>
  The result of \<^verbatim>\<open>execution_queue_execute\<close> is dropped.  \<open>alloc\<close> answers the allocations of the
  submission from the state of the queue.
\<close>

definition put_block_exe_queue ::
  "('sh block_queue \<Rightarrow> 'sh block_task task_node option \<times> bool) \<Rightarrow> 'sh signed_block \<Rightarrow> 'sh block_queue \<Rightarrow> 'sh block_queue" where
  "put_block_exe_queue alloc message q =
     (let t = \<lparr>bt_message = message\<rparr> in snd (execute_options alloc None t q))"

text \<open>
  The consumer: \<open>iter\<close> is the sequence of tasks the iterator still has, \<open>cb\<close> the callback
  \<open>g_block_solved_callback\<close> on the server's state; its return value is dropped.
\<close>

fun block_queue_exe ::
  "(bool \<Rightarrow> 'sh signed_block \<Rightarrow> 's \<Rightarrow> (int \<times> 's) res) \<Rightarrow> 'sh block_task list \<Rightarrow> 's \<Rightarrow> (int \<times> 's) res" where
  "block_queue_exe cb [] s = Inr (0, s)"
| "block_queue_exe cb (t # iter) s =
     res_bind (cb True (bt_message t) s) (\<lambda>(_, s'). block_queue_exe cb iter s')"

text \<open>The results of starting and stopping the queue are dropped.\<close>

definition block_exe_queue_start :: "('sh block_queue \<Rightarrow> int \<times> 'sh block_queue) \<Rightarrow> 'sh block_queue \<Rightarrow> 'sh block_queue" where
  "block_exe_queue_start create q = snd (execution_queue_start create q)"

definition block_exe_queue_stop :: "('sh block_queue \<Rightarrow> int \<times> 'sh block_queue) \<Rightarrow> 'sh block_queue \<Rightarrow> 'sh block_queue" where
  "block_exe_queue_stop stop q = snd (execution_queue_stop stop q)"

section \<open>The periodic task\<close>

record 'j jansson_ops =
  json_loadb :: "string \<Rightarrow> 'j option"
  json_object_get :: "'j option \<Rightarrow> string \<Rightarrow> 'j option"
  json_is_null :: "'j option \<Rightarrow> bool"
  json_string_value :: "'j option \<Rightarrow> string option"
  json_array_size :: "'j option \<Rightarrow> nat"
  json_array_get :: "'j option \<Rightarrow> nat \<Rightarrow> 'j option"

record ('db, 'sh, 'j) fullnode_env =
  fe_ldb :: "'db leveldb_ops"
  fe_lex :: "string \<Rightarrow> u64 option"
  fe_json :: "'j jansson_ops"
  fe_parse :: "string \<Rightarrow> 'sh signed_block option"
  fe_alloc :: "'sh block_queue \<Rightarrow> 'sh block_task task_node option \<times> bool"

record fullnode_check_task =
  m_get_block_time :: int
  m_start_num :: u64
  m_chain_type :: u64
  m_full_node_url :: string

record ('db, 'sh) fullnode_state =
  fs_db :: "'db block_leveldb"
  fs_queue :: "'sh block_queue"
  g_block_num :: u64

definition FullnodeCheckTask :: "int \<Rightarrow> u64 \<Rightarrow> u64 \<Rightarrow> string \<Rightarrow> fullnode_check_task" where
  "FullnodeCheckTask get_block_time start_num chain_type full_node_url =
     \<lparr>m_get_block_time = get_block_time, m_start_num = start_num, m_chain_type = chain_type,
      m_full_node_url = full_node_url\<rparr>"

definition get_start_block_num ::
  "'db leveldb_ops \<Rightarrow> (string \<Rightarrow> u64 option) \<Rightarrow> u64 \<Rightarrow> 'db block_leveldb \<Rightarrow> (u64 \<times> 'db block_leveldb) res" where
  "get_start_block_num L lexc start_num bl =
     res_bind (getTotalBlockNum L lexc bl) (\<lambda>(start, bl').
       Inr (if start < start_num then start_num else start, bl'))"

definition init_fullnode_task :: "'db leveldb_ops \<Rightarrow> string \<Rightarrow> 'db block_leveldb \<Rightarrow> int \<times> 'db block_leveldb" where
  "init_fullnode_task L path bl =
     (let (ret, bl') = bl_open L path bl in if ret \<noteq> 0 then (- 36, bl') else (0, bl'))"

definition fini_fullnode_task :: "'db block_leveldb \<Rightarrow> (int \<times> 'db block_leveldb) res" where
  "fini_fullnode_task bl =
     (if bl_is_open_q bl then res_bind (bl_close bl) (\<lambda>bl'. Inr (0, bl')) else Inr (0, bl))"

text \<open>The request body, streamed piece by piece in the source.\<close>

definition query_body :: "u64 \<Rightarrow> u64 \<Rightarrow> string" where
  "query_body num time_id =
     ''{'' @ [CHR 0x22] @ ''method'' @ [CHR 0x22] @ '':'' @ [CHR 0x22] @ ''fullnode.query'' @ [CHR 0x22] @
     '','' @ [CHR 0x22] @ ''params'' @ [CHR 0x22] @ '':'' @ ''['' @ [CHR 0x22] @ fmt_lu num @ [CHR 0x22] @
     '','' @ dec 50 @ '']'' @ '','' @ [CHR 0x22] @ ''id'' @ [CHR 0x22] @ '':'' @ fmt_lu time_id @ ''}''"

text \<open>
  The loop over \<^verbatim>\<open>blocks\<close>.  An element is what \<^verbatim>\<open>json_string_value\<close> returned for it; a null
  one is made into a \<^verbatim>\<open>std::string\<close>, which throws an exception the loop does not catch.  A
  block that does not parse is skipped; a block that is not the next one, or whose number cannot
  be stored, ends the loop.
\<close>

fun block_loop ::
  "('db, 'sh, 'j) fullnode_env \<Rightarrow> u64 \<Rightarrow> string option list \<Rightarrow> ('db, 'sh) fullnode_state \<Rightarrow> ('db, 'sh) fullnode_state res" where
  "block_loop E start_num [] s = Inr s"
| "block_loop E start_num (str # rest) s =
     (case str of
        None \<Rightarrow> Inl Uncaught
      | Some block_str \<Rightarrow>
          (case fe_parse E block_str of
             None \<Rightarrow> block_loop E start_num rest s
           | Some block \<Rightarrow>
               res_bind (get_start_block_num (fe_ldb E) (fe_lex E) start_num (fs_db s)) (\<lambda>(start, db1).
                 if block_num block = start then
                   res_bind (store_totalnum (fe_ldb E) block db1) (\<lambda>(ret, db2).
                     if ret \<noteq> 0 then Inr (s\<lparr>fs_db := db2\<rparr>)
                     else block_loop E start_num rest
                            (s\<lparr>fs_db := db2, fs_queue := put_block_exe_queue (fe_alloc E) block (fs_queue s)\<rparr>))
                 else
                   res_bind (get_start_block_num (fe_ldb E) (fe_lex E) start_num db1) (\<lambda>(_, db2).
                     Inr (s\<lparr>fs_db := db2\<rparr>)))))"

text \<open>\<^verbatim>\<open>sscanf(s, "%lu", &x)\<close> followed by a read of \<open>x\<close>.\<close>

definition scanned :: "string option \<Rightarrow> u64 res" where
  "scanned s =
     res_bind (deref s) (\<lambda>s'. case scan_lu (c_str s') of None \<Rightarrow> Inl Indeterminate | Some v \<Rightarrow> Inr v)"

definition handle_response ::
  "('db, 'sh, 'j) fullnode_env \<Rightarrow> fullnode_check_task \<Rightarrow> string \<Rightarrow> ('db, 'sh) fullnode_state \<Rightarrow> ('db, 'sh) fullnode_state res" where
  "handle_response E task response s =
     (let J = fe_json E;
          body = json_loadb J response;
          error = json_object_get J body ''error''
      in if json_is_null J error = False then Inr s
         else
           (let result = json_object_get J body ''result'';
                chain_type_str = json_string_value J (json_object_get J result ''chain_type'');
                block_size_str = json_string_value J (json_object_get J result ''block_size'')
            in res_bind (scanned chain_type_str) (\<lambda>chain_type.
               if chain_type \<noteq> m_chain_type task then Inr s
               else res_bind (scanned block_size_str) (\<lambda>block_size.
                 let blocks = json_object_get J result ''blocks''
                 in block_loop E (m_start_num task)
                      (map (\<lambda>i. json_string_value J (json_array_get J blocks i)) [0..<json_array_size J blocks])
                      (s\<lparr>g_block_num := block_size\<rparr>)))))"

text \<open>
  \<open>call\<close> is the HTTP round trip: the response body, or \<open>None\<close> when the controller failed.
  Every path that returns sets \<^verbatim>\<open>*next_abstime\<close> and returns true.
\<close>

definition OnTriggeringTask ::
  "('db, 'sh, 'j) fullnode_env \<Rightarrow> (string \<Rightarrow> string \<Rightarrow> string option) \<Rightarrow> u64 \<Rightarrow> timespec \<Rightarrow> fullnode_check_task
     \<Rightarrow> ('db, 'sh) fullnode_state \<Rightarrow> (bool \<times> timespec \<times> ('db, 'sh) fullnode_state) res" where
  "OnTriggeringTask E call time_id now task s =
     res_bind (get_start_block_num (fe_ldb E) (fe_lex E) (m_start_num task) (fs_db s)) (\<lambda>(block_num, db).
       let s0 = s\<lparr>fs_db := db\<rparr>;
           body = query_body block_num time_id
       in res_bind (case call (m_full_node_url task) body of
                      None \<Rightarrow> Inr s0
                    | Some response \<Rightarrow> handle_response E task response s0) (\<lambda>s1.
          res_bind (milliseconds_from_now now (m_get_block_time task)) (\<lambda>next_abstime.
            Inr (True, next_abstime, s1))))"

section \<open>The next block number\<close>

definition starts_at :: "('db, 'sh, 'j) fullnode_env \<Rightarrow> u64 \<Rightarrow> 'db block_leveldb \<Rightarrow> u64 \<Rightarrow> bool" where
  "starts_at E start_num bl n \<longleftrightarrow> map_sum id fst (get_start_block_num (fe_ldb E) (fe_lex E) start_num bl) = Inr n"

lemma starts_at_iff:
  "starts_at E start_num bl n \<longleftrightarrow>
     (\<exists>bl'. get_start_block_num (fe_ldb E) (fe_lex E) start_num bl = Inr (n, bl'))"
  by (cases "get_start_block_num (fe_ldb E) (fe_lex E) start_num bl") (auto simp: starts_at_def)

lemma starts_at_fun: "starts_at E sn bl n \<Longrightarrow> starts_at E sn bl m \<Longrightarrow> n = m"
  by (auto simp: starts_at_iff)

lemma get_start_again:
  assumes "get_start_block_num L lexc sn bl = Inr (n, bl')"
  shows "get_start_block_num L lexc sn bl' = Inr (n, bl')" and "sn \<le> n"
    and "bl_db bl' = bl_db bl"
  using assms getTotalBlockNum_again getTotalBlockNum_result
  by (fastforce simp: get_start_block_num_def res_simps split: prod.splits if_splits)+

lemma starts_at_stored:
  assumes "get_start_block_num (fe_ldb E) (fe_lex E) sn bl = Inr (n, bl1)"
    and "block_num b = n" "store_totalnum (fe_ldb E) b bl1 = Inr (0, bl2)" "n + 1 \<noteq> 0"
  shows "starts_at E sn bl2 (n + 1)" and "totalnum bl2 = n + 1"
proof -
  have sn: "sn \<le> n" using get_start_again(2) [OF assms(1)] .
  show t: "totalnum bl2 = n + 1"
    using assms(3) by (rule store_totalnum_cases) (use assms(2) in auto)
  have "unat (n + 1) = unat n + 1"
    using unatSuc [of n] assms(4) by (simp add: add.commute)
  then have lt: "\<not> n + 1 < sn" using sn by (simp add: word_le_nat_alt word_less_nat_alt)
  show "starts_at E sn bl2 (n + 1)"
    using t lt assms(4) by (simp add: starts_at_iff get_start_block_num_def getTotalBlockNum_cached word_gt_0)
qed

lemma unat_n_wrap: "n + 1 = 0 \<Longrightarrow> unat (n :: u64) = 2 ^ 64 - 1"
proof -
  assume "n + 1 = 0"
  then have "n = - 1" by (simp add: eq_neg_iff_add_eq_0)
  then show ?thesis by (simp add: unsigned_minus_1_eq_mask mask_eq_exp_minus_1)
qed

section \<open>Submitting to the queue\<close>

definition blocks_of :: "'sh block_queue \<Rightarrow> 'sh signed_block list" where
  "blocks_of q = map bt_message (eq_tasks q)"

lemma put_block_tasks:
  "blocks_of (put_block_exe_queue alloc b q) =
     blocks_of q @ (if q_open q \<and> fst (alloc q) \<noteq> None \<and> snd (alloc q) then [b] else [])"
  and put_block_open: "q_open (put_block_exe_queue alloc b q) = q_open q"
  by (simp_all add: put_block_exe_queue_def blocks_of_def execute_options_tasks execute_options_open)

interpretation block_sink: task_sink "put_block_exe_queue alloc" blocks_of "\<lambda>q. q_open q \<and> alloc_ok alloc" for alloc
  by unfold_locales (auto simp: put_block_tasks put_block_open alloc_ok_def)

lemma put_block_accepted:
  "q_open q \<Longrightarrow> alloc_ok alloc \<Longrightarrow> blocks_of (put_block_exe_queue alloc b q) = blocks_of q @ [b]"
  using block_sink.put_sent by blast

section \<open>The loop\<close>

text \<open>
  What a stretch of the program's run does, from a state that expects block \<open>n\<close>: \<open>bs\<close> are the blocks it hands to the
  queue, numbered from \<open>n0\<close>.  A number that was read from the database or stored there is cached, so that the stretch starts
  at \<open>n\<close> and the next one where it ends.  Until then the number is read again each time; what LevelDB does
  to the key of a write that it reports as failed is not documented, so that \<open>n0\<close> can then differ from \<open>n\<close>.
\<close>

definition number_known :: "('db, 'sh, 'j) fullnode_env \<Rightarrow> 'db block_leveldb \<Rightarrow> bool" where
  "number_known E bl \<longleftrightarrow> (\<exists>k bl'. getTotalBlockNum (fe_ldb E) (fe_lex E) bl = Inr (k, bl') \<and> 0 < k)"

definition writes_succeed :: "'db leveldb_ops \<Rightarrow> bool" where
  "writes_succeed L \<longleftrightarrow> (\<forall>d kvs. fst (ldb_write L d kvs))"

definition number_stored :: "'db leveldb_ops \<Rightarrow> 'db block_leveldb \<Rightarrow> u64 \<Rightarrow> bool" where
  "number_stored L bl m \<longleftrightarrow> (\<exists>d. bl_db bl = DbLive d \<and> ldb_get L d total_key = Some (totalvalue m))"

definition handed :: "('db, 'sh, 'j) fullnode_env \<Rightarrow> 'sh signed_block list \<Rightarrow> ('db, 'sh) fullnode_state \<Rightarrow> ('db, 'sh) fullnode_state \<Rightarrow> bool" where
  "handed E bs s s' \<longleftrightarrow> fs_queue s' = fold (put_block_exe_queue (fe_alloc E)) bs (fs_queue s)"

definition stretch ::
  "('db, 'sh, 'j) fullnode_env \<Rightarrow> u64 \<Rightarrow> ('db, 'sh) fullnode_state \<Rightarrow> u64 \<Rightarrow> ('db, 'sh) fullnode_state \<Rightarrow> 'sh signed_block list \<Rightarrow> u64 \<Rightarrow> bool" where
  "stretch E sn s n s' bs n0 \<longleftrightarrow> handed E bs s s' \<and>
     (number_known E (fs_db s) \<or> writes_succeed (fe_ldb E) \<longrightarrow> n0 = n) \<and>
     (unat n0 + length bs < 2 ^ 64 \<longrightarrow>
        map block_num bs = nums_from n0 (length bs) \<and>
        (bs \<noteq> [] \<longrightarrow> starts_at E sn (fs_db s') (n0 + of_nat (length bs)) \<and> number_known E (fs_db s')) \<and>
        (number_known E (fs_db s) \<longrightarrow> number_known E (fs_db s')) \<and>
        (number_known E (fs_db s) \<or> writes_succeed (fe_ldb E) \<longrightarrow> starts_at E sn (fs_db s') (n0 + of_nat (length bs))) \<and>
        (writes_succeed (fe_ldb E) \<longrightarrow>
           (if bs = [] then bl_db (fs_db s') = bl_db (fs_db s) else number_stored (fe_ldb E) (fs_db s') (n0 + of_nat (length bs)))))"

lemma known_after_read:
  assumes "get_start_block_num (fe_ldb E) (fe_lex E) sn bl = Inr (n, bl1)"
  shows "number_known E bl1 \<longleftrightarrow> number_known E bl" and "number_known E bl \<Longrightarrow> 0 < totalnum bl1"
proof -
  obtain k where k: "getTotalBlockNum (fe_ldb E) (fe_lex E) bl = Inr (k, bl1)"
    using assms by (auto simp: get_start_block_num_def res_simps split: if_splits)
  then show "number_known E bl1 \<longleftrightarrow> number_known E bl" using getTotalBlockNum_again [OF k] by (simp add: number_known_def)
  show "number_known E bl \<Longrightarrow> 0 < totalnum bl1" using k getTotalBlockNum_result [OF k] by (auto simp: number_known_def)
qed

lemma stretch_read:
  assumes "get_start_block_num (fe_ldb E) (fe_lex E) sn (fs_db s) = Inr (n, fs_db s')" "fs_queue s' = fs_queue s"
  shows "stretch E sn s n s' [] n"
  using assms get_start_again [OF assms(1)] known_after_read(1) [OF assms(1)] by (simp add: stretch_def handed_def starts_at_iff)

lemma stretch_failed:
  assumes "get_start_block_num (fe_ldb E) (fe_lex E) sn (fs_db s) = Inr (n, bl1)"
    and "store_totalnum (fe_ldb E) b bl1 = Inr (ret, fs_db s')" "ret \<noteq> 0" "fs_queue s' = fs_queue s"
  shows "stretch E sn s n s' [] n"
proof -
  obtain d d' where d: "ldb_write (fe_ldb E) d [(total_key, totalvalue (block_num b + 1))] = (False, d')"
    "fs_db s' = bl1\<lparr>bl_db := DbLive d'\<rparr>" using assms(2) by (rule store_totalnum_cases) (use assms(3) in auto)
  then have r: "\<not> writes_succeed (fe_ldb E)" unfolding writes_succeed_def by (metis fst_conv)
  have "number_known E (fs_db s') \<and> starts_at E sn (fs_db s') n" if "number_known E (fs_db s)"
  proof -
    have t: "0 < totalnum bl1" using known_after_read(2) [OF assms(1) that] .
    have "get_start_block_num (fe_ldb E) (fe_lex E) sn bl1 = Inr (n, bl1)" by (rule get_start_again(1) [OF assms(1)])
    then show ?thesis using t d(2)
      by (simp add: number_known_def starts_at_iff get_start_block_num_def getTotalBlockNum_cached split: if_splits)
  qed
  then show ?thesis using r assms(4) by (simp add: stretch_def handed_def)
qed

lemma stretch_stored:
  assumes "leveldb (fe_ldb E)" "get_start_block_num (fe_ldb E) (fe_lex E) sn (fs_db s) = Inr (n, bl1)"
    and "block_num b = n" "store_totalnum (fe_ldb E) b bl1 = Inr (0, fs_db s')"
    and "fs_queue s' = put_block_exe_queue (fe_alloc E) b (fs_queue s)"
  shows "stretch E sn s n s' [b] n"
proof -
  have "number_stored (fe_ldb E) (fs_db s') (n + 1)"
    using assms(4)
  proof (rule store_totalnum_cases)
    fix d d'
    assume "ldb_write (fe_ldb E) d [(total_key, totalvalue (block_num b + 1))] = (True, d')"
      "fs_db s' = bl1\<lparr>bl_db := DbLive d', totalnum := block_num b + 1\<rparr>"
    then show ?thesis using leveldb.get_write_single [OF assms(1)] assms(3) by (simp add: number_stored_def)
  qed simp
  moreover have "starts_at E sn (fs_db s') (n + 1) \<and> number_known E (fs_db s')" if "unat n + 1 < 2 ^ 64"
  proof -
    have "n + 1 \<noteq> 0" using that unat_n_wrap [of n] by auto
    note st = starts_at_stored [OF assms(2-4) this]
    then have "0 < totalnum (fs_db s')" using \<open>n + 1 \<noteq> 0\<close> by (simp add: word_gt_0)
    then show ?thesis using st(1) by (auto simp: number_known_def getTotalBlockNum_cached)
  qed
  ultimately show ?thesis using assms(3,5) by (simp add: stretch_def handed_def nums_from_Suc)
qed

lemma stretch_trans:
  assumes 1: "stretch E sn s n s1 bs1 n0" and n1: "starts_at E sn (fs_db s1) n1" and 2: "stretch E sn s1 n1 s' bs2 n2"
  shows "\<exists>m. stretch E sn s n s' (bs1 @ bs2) m"
proof (cases "bs1 = []")
  case True
  have "unat n0 < 2 ^ 64" by (rule unat_u64_bound)
  then have k: "number_known E (fs_db s) \<longrightarrow> number_known E (fs_db s1)"
    "number_known E (fs_db s) \<or> writes_succeed (fe_ldb E) \<longrightarrow> n1 = n"
    "writes_succeed (fe_ldb E) \<longrightarrow> bl_db (fs_db s1) = bl_db (fs_db s)"
    using 1 True starts_at_fun [OF n1] by (auto simp: stretch_def)
  have h: "handed E bs2 s s'" using 1 2 True by (simp add: stretch_def handed_def)
  have "stretch E sn s n s' bs2 n2"
    using 2 h k
    by (cases "number_known E (fs_db s)"; cases "writes_succeed (fe_ldb E)"; cases "bs2 = []") (simp_all add: stretch_def)
  then show ?thesis using True by auto
next
  case False
  let ?k = "n0 + of_nat (length bs1)"
  have "stretch E sn s n s' (bs1 @ bs2) n0"
    unfolding stretch_def
  proof (intro conjI impI)
    show "handed E (bs1 @ bs2) s s'" using 1 2 by (simp add: stretch_def handed_def)
    show "n0 = n" if "number_known E (fs_db s) \<or> writes_succeed (fe_ldb E)" using 1 that by (simp add: stretch_def)
  next
    assume b: "unat n0 + length (bs1 @ bs2) < 2 ^ 64"
    then have s1: "map block_num bs1 = nums_from n0 (length bs1)" "n1 = ?k" "number_known E (fs_db s1)"
        "writes_succeed (fe_ldb E) \<longrightarrow> number_stored (fe_ldb E) (fs_db s1) ?k"
      using 1 False starts_at_fun [OF n1] by (auto simp: stretch_def)
    have u: "unat ?k = unat n0 + length bs1" using b by (intro unat_of_nat_add) simp
    have "n2 = ?k" using 2 s1(2,3) by (simp add: stretch_def)
    then have s2: "map block_num bs2 = nums_from ?k (length bs2)" "starts_at E sn (fs_db s') (?k + of_nat (length bs2))"
        "number_known E (fs_db s')"
        "writes_succeed (fe_ldb E) \<longrightarrow> (if bs2 = [] then bl_db (fs_db s') = bl_db (fs_db s1) else number_stored (fe_ldb E) (fs_db s') (?k + of_nat (length bs2)))"
      using 2 b u s1(3) by (auto simp: stretch_def)
    show "map block_num (bs1 @ bs2) = nums_from n0 (length (bs1 @ bs2))" using s1(1) s2(1) by (simp add: nums_from_add)
    show st: "starts_at E sn (fs_db s') (n0 + of_nat (length (bs1 @ bs2)))" using s2(2) by (simp add: add.assoc)
    show "starts_at E sn (fs_db s') (n0 + of_nat (length (bs1 @ bs2)))" by (rule st)
    show "number_known E (fs_db s')" "number_known E (fs_db s')" by (rule s2(3))+
    show "if bs1 @ bs2 = [] then bl_db (fs_db s') = bl_db (fs_db s) else number_stored (fe_ldb E) (fs_db s') (n0 + of_nat (length (bs1 @ bs2)))"
      if "writes_succeed (fe_ldb E)"
      using that s1(4) s2(4) False by (cases "bs2 = []") (simp_all add: number_stored_def add.assoc)
  qed
  then show ?thesis by blast
qed

lemma block_loop_handed: "block_loop E sn items s = Inr s' \<Longrightarrow> \<exists>bs. handed E bs s s'"
proof (induction E sn items s rule: block_loop.induct)
  case (1 E sn s)
  then show ?case by (auto simp: handed_def intro: exI [of _ "[]"])
next
  case (2 E sn str rest s)
  then show ?case
    unfolding handed_def
    by (fastforce simp: res_simps split: option.splits prod.splits if_splits intro: exI [of _ "[]"] exI [of _ "_ # _"])
qed

lemma block_loop_Cons_cases:
  fixes E :: "('db, 'sh, 'j) fullnode_env"
  assumes "block_loop E sn (str # rest) s = Inr s'" "starts_at E sn (fs_db s) n"
  obtains (skipped) "block_loop E sn rest s = Inr s'"
    | (other) "get_start_block_num (fe_ldb E) (fe_lex E) sn (fs_db s) = Inr (n, fs_db s')" "fs_queue s' = fs_queue s"
    | (failed) b :: "'sh signed_block" and db1 ret where "get_start_block_num (fe_ldb E) (fe_lex E) sn (fs_db s) = Inr (n, db1)"
        "store_totalnum (fe_ldb E) b db1 = Inr (ret, fs_db s')" "ret \<noteq> 0" "fs_queue s' = fs_queue s"
    | (stored) b db1 db2 where "get_start_block_num (fe_ldb E) (fe_lex E) sn (fs_db s) = Inr (n, db1)"
        "block_num b = n" "store_totalnum (fe_ldb E) b db1 = Inr (0, db2)"
        "block_loop E sn rest (s\<lparr>fs_db := db2, fs_queue := put_block_exe_queue (fe_alloc E) b (fs_queue s)\<rparr>) = Inr s'"
proof -
  obtain db1 where start: "get_start_block_num (fe_ldb E) (fe_lex E) sn (fs_db s) = Inr (n, db1)"
    using assms(2) by (auto simp: starts_at_iff)
  have again: "get_start_block_num (fe_ldb E) (fe_lex E) sn db1 = Inr (n, db1)"
    by (rule get_start_again(1) [OF start])
  show thesis
    using assms(1) start again failed [OF start]
    by (auto simp: res_simps split: option.splits if_splits intro: skipped stored [OF start] other)
qed

lemma block_loop_stretch:
  assumes "leveldb (fe_ldb E)" "block_loop E sn items s = Inr s'" "starts_at E sn (fs_db s) n"
  shows "\<exists>bs n0. stretch E sn s n s' bs n0"
  using assms(2,3)
proof (induction items arbitrary: s n)
  case Nil
  then show ?case by (intro exI [of _ "[]"] exI [of _ n]) (simp add: stretch_def handed_def)
next
  case (Cons str rest)
  from Cons.prems show ?case
  proof (cases rule: block_loop_Cons_cases)
    case skipped
    then show ?thesis using Cons by blast
  next
    case other
    then show ?thesis using stretch_read by blast
  next
    case (failed b db1 ret)
    then show ?thesis using stretch_failed by blast
  next
    case (stored b db1 db2)
    let ?s2 = "s\<lparr>fs_db := db2, fs_queue := put_block_exe_queue (fe_alloc E) b (fs_queue s)\<rparr>"
    have one: "stretch E sn s n ?s2 [b] n" using stored(1-3) by (intro stretch_stored [OF assms(1), where b = b]) simp_all
    show ?thesis
    proof (cases "n + 1 = 0")
      case True
      obtain bs where "handed E bs ?s2 s'" using block_loop_handed [OF stored(4)] by blast
      then have "stretch E sn s n s' (b # bs) n" using unat_n_wrap [OF True] by (simp add: stretch_def handed_def)
      then show ?thesis by blast
    next
      case False
      have n1: "starts_at E sn (fs_db ?s2) (n + 1)" using starts_at_stored(1) [OF stored(1-3) False] by simp
      from Cons.IH [OF stored(4) n1] show ?thesis using stretch_trans [OF one n1] by blast
    qed
  qed
qed

section \<open>Successive triggers\<close>

text \<open>What the environment answers to one trigger: the HTTP call, the time id and the clock.\<close>

record trigger =
  tr_call :: "string \<Rightarrow> string \<Rightarrow> string option"
  tr_time :: u64
  tr_now :: timespec

fun fullnode_run ::
  "('db, 'sh, 'j) fullnode_env \<Rightarrow> fullnode_check_task \<Rightarrow> trigger list \<Rightarrow> ('db, 'sh) fullnode_state \<Rightarrow> ('db, 'sh) fullnode_state res" where
  "fullnode_run E task [] s = Inr s"
| "fullnode_run E task (t # ts) s =
     res_bind (OnTriggeringTask E (tr_call t) (tr_time t) (tr_now t) task s) (\<lambda>(_, _, s').
       fullnode_run E task ts s')"

lemma handle_response_cases:
  assumes "handle_response E task resp s = Inr s'"
  shows "s' = s \<or> (\<exists>items bsz. block_loop E (m_start_num task) items (s\<lparr>g_block_num := bsz\<rparr>) = Inr s')"
  using assms unfolding handle_response_def Let_def
  by (simp only: res_simps split: if_split_asm) blast+

lemma trigger_cases:
  assumes "OnTriggeringTask E call time now task s = Inr (r, ts, s')"
  shows "\<exists>n db. get_start_block_num (fe_ldb E) (fe_lex E) (m_start_num task) (fs_db s) = Inr (n, db) \<and>
    (s' = s\<lparr>fs_db := db\<rparr> \<or>
     (\<exists>items bsz. block_loop E (m_start_num task) items (s\<lparr>fs_db := db, g_block_num := bsz\<rparr>) = Inr s'))"
proof -
  obtain n db where start: "get_start_block_num (fe_ldb E) (fe_lex E) (m_start_num task) (fs_db s) = Inr (n, db)"
    using assms by (auto simp: OnTriggeringTask_def res_simps)
  with assms have "s' = s\<lparr>fs_db := db\<rparr> \<or> (\<exists>resp. handle_response E task resp (s\<lparr>fs_db := db\<rparr>) = Inr s')"
    by (auto simp: OnTriggeringTask_def Let_def res_simps split: option.splits)
  then show ?thesis using start handle_response_cases by fastforce
qed

lemma trigger_stretch:
  assumes "leveldb (fe_ldb E)" "OnTriggeringTask E call time now task s = Inr (r, ts, s')" "starts_at E (m_start_num task) (fs_db s) n"
  shows "\<exists>bs n0. stretch E (m_start_num task) s n s' bs n0"
proof -
  obtain db where start: "get_start_block_num (fe_ldb E) (fe_lex E) (m_start_num task) (fs_db s) = Inr (n, db)"
    and step: "s' = s\<lparr>fs_db := db\<rparr> \<or>
      (\<exists>items bsz. block_loop E (m_start_num task) items (s\<lparr>fs_db := db, g_block_num := bsz\<rparr>) = Inr s')"
    using trigger_cases [OF assms(2)] assms(3) unfolding starts_at_iff
    by (metis (no_types, lifting) Inr_inject prod.inject)
  have read: "stretch E (m_start_num task) s n (s\<lparr>fs_db := db, g_block_num := bsz\<rparr>) [] n" for bsz
    by (rule stretch_read) (simp_all add: start)
  from step show ?thesis
  proof (elim disjE exE)
    assume "s' = s\<lparr>fs_db := db\<rparr>"
    then show ?thesis using stretch_read [of E "m_start_num task" s n s'] start by auto
  next
    fix items bsz
    assume loop: "block_loop E (m_start_num task) items (s\<lparr>fs_db := db, g_block_num := bsz\<rparr>) = Inr s'"
    have n: "starts_at E (m_start_num task) (fs_db (s\<lparr>fs_db := db, g_block_num := bsz\<rparr>)) n"
      using get_start_again(1) [OF start] by (auto simp: starts_at_iff)
    from block_loop_stretch [OF assms(1) loop n] stretch_trans [OF read n] show ?thesis by blast
  qed
qed

lemma run_stretch:
  assumes "leveldb (fe_ldb E)" "fullnode_run E task triggers s = Inr s'" "starts_at E (m_start_num task) (fs_db s) n"
  shows "\<exists>bs n0. stretch E (m_start_num task) s n s' bs n0"
  using assms(2,3)
proof (induction triggers arbitrary: s n)
  case Nil
  then show ?case by (intro exI [of _ "[]"] exI [of _ n]) (simp add: stretch_def handed_def)
next
  case (Cons t ts)
  then obtain r abst s1 where t: "OnTriggeringTask E (tr_call t) (tr_time t) (tr_now t) task s = Inr (r, abst, s1)"
    and ts: "fullnode_run E task ts s1 = Inr s'"
    by (auto simp: res_simps)
  obtain bs1 n0 where one: "stretch E (m_start_num task) s n s1 bs1 n0" using trigger_stretch [OF assms(1) t Cons.prems(2)] by blast
  show ?case
  proof (cases ts)
    case Nil
    then show ?thesis using ts one by auto
  next
    case (Cons t2 ts2)
    then obtain x where "OnTriggeringTask E (tr_call t2) (tr_time t2) (tr_now t2) task s1 = Inr x" using ts by (auto simp: res_simps)
    then obtain n1 where n1: "starts_at E (m_start_num task) (fs_db s1) n1"
      using trigger_cases by (cases x) (fastforce simp: starts_at_iff)
    from Cons.IH [OF ts n1] stretch_trans [OF one n1] show ?thesis by blast
  qed
qed

lemma handed_blocks:
  assumes "handed E bs s s'" "q_open (fs_queue s)" "alloc_ok (fe_alloc E)"
  shows "blocks_of (fs_queue s') = blocks_of (fs_queue s) @ bs"
  using block_sink.fold_put [of "fs_queue s" "fe_alloc E" bs] assms by (simp add: handed_def)

text \<open>C3: The server takes the blocks of the chain in order: over any number of triggers, whatever the full node answers (failed
  calls, errors, wrong chain type, unparsable, stale or future blocks) and whichever LevelDB writes fail, the blocks
  handed to the execution queue are numbered consecutively, without gaps, repetitions or reordering, and a run that
  handed blocks over expects next the number behind the last of them.  They start at the number on record, when that is
  known (it was in the database, or a block was stored before) or when no write fails; on a new database a failed write
  may have changed the record.  When no write fails, LevelDB holds, after a run that handed blocks over, the number behind
  the last one, as \<open>totalvalue\<close> prints it.  Handed over means that \<open>put_block_exe_queue\<close> is called: the queue then holds these blocks
  when it is open and memory lasts, otherwise they are lost, since the result is not looked at.\<close>

theorem blocks_submitted_consecutively:
  assumes "leveldb (fe_ldb E)" "fullnode_run E task triggers s = Inr s'" "starts_at E (m_start_num task) (fs_db s) n"
  shows "\<exists>bs n0. fs_queue s' = fold (put_block_exe_queue (fe_alloc E)) bs (fs_queue s) \<and>
     (q_open (fs_queue s) \<and> alloc_ok (fe_alloc E) \<longrightarrow> blocks_of (fs_queue s') = blocks_of (fs_queue s) @ bs) \<and>
     (number_known E (fs_db s) \<or> writes_succeed (fe_ldb E) \<longrightarrow> n0 = n) \<and>
     (unat n0 + length bs < 2 ^ 64 \<longrightarrow>
        map block_num bs = nums_from n0 (length bs) \<and> distinct (map block_num bs) \<and>
        (bs \<noteq> [] \<longrightarrow> starts_at E (m_start_num task) (fs_db s') (n0 + of_nat (length bs))) \<and>
        (number_known E (fs_db s) \<or> writes_succeed (fe_ldb E) \<longrightarrow> starts_at E (m_start_num task) (fs_db s') (n + of_nat (length bs))) \<and>
        (writes_succeed (fe_ldb E) \<and> bs \<noteq> [] \<longrightarrow> number_stored (fe_ldb E) (fs_db s') (n + of_nat (length bs))))"
proof -
  obtain bs n0 where st: "stretch E (m_start_num task) s n s' bs n0" using run_stretch [OF assms] by blast
  then have "handed E bs s s'" by (simp add: stretch_def)
  moreover have "distinct (map block_num bs)" if "unat n0 + length bs < 2 ^ 64"
    using st that distinct_nums_from [of n0 "length bs"] by (simp add: stretch_def)
  ultimately show ?thesis using st handed_blocks [of E bs s s']
    by (intro exI [of _ bs] exI [of _ n0]) (auto simp: stretch_def handed_def)
qed

section \<open>A concrete environment\<close>

text \<open>
  JSON values and the jansson operations on them, with the lookups on null or ill-typed values
  that jansson documents; one response and a parser for decimal block numbers.  Witnesses run in
  this environment.
\<close>

datatype jval = JNull | JStr string | JArr "jval list" | JObj "(string \<times> jval) list"

definition demo_response :: jval where
  "demo_response =
     JObj [(''error'', JNull),
           (''result'', JObj [(''chain_type'', JStr ''3''), (''block_size'', JStr ''9''),
                              (''blocks'', JArr [JStr ''1'', JStr ''x'', JStr ''2'', JStr ''7''])])]"

definition demo_jansson :: "jval jansson_ops" where
  "demo_jansson =
     \<lparr>json_loadb = (\<lambda>s. if s = ''ok'' then Some demo_response else None),
      json_object_get = (\<lambda>j k. case j of Some (JObj kvs) \<Rightarrow> map_of kvs k | _ \<Rightarrow> None),
      json_is_null = (\<lambda>j. j = Some JNull),
      json_string_value = (\<lambda>j. case j of Some (JStr s) \<Rightarrow> Some s | _ \<Rightarrow> None),
      json_array_size = (\<lambda>j. case j of Some (JArr xs) \<Rightarrow> length xs | _ \<Rightarrow> 0),
      json_array_get = (\<lambda>j i. case j of Some (JArr xs) \<Rightarrow> if i < length xs then Some (xs ! i) else None | _ \<Rightarrow> None)\<rparr>"

definition demo_env :: "(string \<Rightarrow> string option, nat, jval) fullnode_env" where
  "demo_env =
     \<lparr>fe_ldb = map_leveldb, fe_lex = scan_lu, fe_json = demo_jansson,
      fe_parse = (\<lambda>s. map_option (\<lambda>n. \<lparr>block_num = n, block_type = 3, transactions = []\<rparr>) (scan_lu s)),
      fe_alloc = (\<lambda>q. (Some new_task_node, True))\<rparr>"

definition demo_state :: "(string \<Rightarrow> string option, nat) fullnode_state" where
  "demo_state =
     \<lparr>fs_db = \<lparr>bl_is_open = True, bl_db = DbLive (\<lambda>_. None), totalnum = 0, bl_sync = True\<rparr>,
      fs_queue = \<lparr>eq_live = True, eq_stopped = False, eq_started = []\<rparr>, g_block_num = 0\<rparr>"

definition demo_trigger :: trigger where
  "demo_trigger = \<lparr>tr_call = (\<lambda>url body. Some ''ok''), tr_time = 0, tr_now = \<lparr>tv_sec = 0, tv_nsec = 0\<rparr>\<rparr>"

lemma demo_hyps:
  "writes_succeed (fe_ldb demo_env)" "alloc_ok (fe_alloc demo_env)" "q_open (fs_queue demo_state)"
  "starts_at demo_env 1 (fs_db demo_state) 1" "leveldb (fe_ldb demo_env)"
  using mapdb.leveldb_axioms
  by (auto simp: writes_succeed_def demo_env_def alloc_ok_def q_open_def demo_state_def map_leveldb_def
      starts_at_def get_start_block_num_def getTotalBlockNum_def split: if_splits)

lemmas demo_defs = demo_env_def demo_state_def demo_trigger_def demo_jansson_def demo_response_def map_leveldb_def

lemma scan_lu_digit:
  "scan_lu ''1'' = Some 1" "scan_lu ''2'' = Some 2" "scan_lu ''3'' = Some 3" "scan_lu ''7'' = Some 7"
  "scan_lu ''9'' = Some 9" "scan_lu ''x'' = None"
  by (simp_all add: scan_lu_def is_space_def is_digit_def dec_val_def digit_val_def)

lemma demo_sel:
  "fe_ldb demo_env = map_leveldb" "fe_lex demo_env = scan_lu" "fe_json demo_env = demo_jansson"
  "fe_alloc demo_env = (\<lambda>q. (Some new_task_node, True))"
  "fe_parse demo_env = (\<lambda>s. map_option (\<lambda>n. \<lparr>block_num = n, block_type = 3, transactions = []\<rparr>) (scan_lu s))"
  by (simp_all add: demo_env_def)

lemma demo_handle_response:
  "handle_response demo_env (FullnodeCheckTask t sn 3 u) ''ok'' s =
     block_loop demo_env sn [Some ''1'', Some ''x'', Some ''2'', Some ''7''] (s\<lparr>g_block_num := 9\<rparr>)"
proof -
  have up: "[0..<4] = [0, 1, 2, 3 :: nat]" by (simp add: upt_rec)
  have c: "c_str ''3'' = ''3''" "c_str ''9'' = ''9''" by (simp_all add: c_str_def)
  show ?thesis
    by (simp add: handle_response_def FullnodeCheckTask_def demo_sel demo_jansson_def demo_response_def
        scanned_def up c scan_lu_digit Let_def del: block_loop.simps)
qed

lemma demo_first: "get_start_block_num map_leveldb scan_lu 1 (fs_db demo_state) = Inr (1, fs_db demo_state)"
  by (simp add: get_start_block_num_def getTotalBlockNum_def demo_state_def map_leveldb_def)

lemma demo_store:
  "bl_db bl = DbLive d \<Longrightarrow>
   store_totalnum map_leveldb b bl =
     Inr (0, bl\<lparr>bl_db := DbLive (d(total_key := Some (totalvalue (block_num b + 1)))), totalnum := block_num b + 1\<rparr>)"
  by (simp add: store_totalnum_def map_leveldb_def Let_def fun_eq_iff)

lemma demo_loop:
  assumes "get_start_block_num map_leveldb scan_lu 1 (fs_db s) = Inr (1, fs_db s)"
    "bl_db (fs_db s) = DbLive (\<lambda>_. None)" "q_open (fs_queue s)"
  shows "\<exists>s'. block_loop demo_env 1 [Some ''1'', Some ''x'', Some ''2'', Some ''7''] s = Inr s' \<and>
           map block_num (blocks_of (fs_queue s')) = map block_num (blocks_of (fs_queue s)) @ [1, 2]"
  using assms
  by (simp add: demo_sel scan_lu_digit demo_store get_start_block_num_def getTotalBlockNum_cached
      put_block_tasks put_block_open)

lemma demo_run:
  "\<exists>s'. fullnode_run demo_env (FullnodeCheckTask 50 1 3 ''u'') [demo_trigger] demo_state = Inr s' \<and>
     map block_num (blocks_of (fs_queue s')) = [1, 2]"
proof -
  let ?s = "demo_state\<lparr>fs_db := fs_db demo_state, g_block_num := 9\<rparr>"
  obtain s' where "block_loop demo_env 1 [Some ''1'', Some ''x'', Some ''2'', Some ''7''] ?s = Inr s'"
    "map block_num (blocks_of (fs_queue s')) = map block_num (blocks_of (fs_queue ?s)) @ [1, 2]"
    using demo_loop [of ?s] demo_first demo_hyps(3) by (auto simp: demo_state_def)
  moreover have "blocks_of (fs_queue demo_state) = []"
    by (simp add: demo_state_def blocks_of_def eq_tasks_def map_filter_def)
  moreover have "m_start_num (FullnodeCheckTask 50 1 3 ''u'') = 1" "m_get_block_time (FullnodeCheckTask 50 1 3 ''u'') = 50"
    by (simp_all add: FullnodeCheckTask_def)
  ultimately show ?thesis
    by (simp add: OnTriggeringTask_def demo_sel demo_first demo_trigger_def demo_handle_response
        milliseconds_from_now_def nanoseconds_from_now_def nanoseconds_from_def timespec_normalize_def
        del: block_loop.simps)
qed

theorem blocks_submitted_consecutively_witness:
  "\<exists>s'. fullnode_run demo_env (FullnodeCheckTask 50 1 3 ''u'') [demo_trigger] demo_state = Inr s' \<and>
     map block_num (blocks_of (fs_queue s')) = nums_from 1 2 \<and> starts_at demo_env 1 (fs_db s') 3 \<and> number_stored map_leveldb (fs_db s') 3"
proof -
  obtain s' where run: "fullnode_run demo_env (FullnodeCheckTask 50 1 3 ''u'') [demo_trigger] demo_state = Inr s'"
    and nums: "map block_num (blocks_of (fs_queue s')) = [1, 2]"
    using demo_run by (elim exE conjE) (rule that)
  have m: "m_start_num (FullnodeCheckTask 50 1 3 ''u'') = 1" by (simp add: FullnodeCheckTask_def)
  have start: "starts_at demo_env (m_start_num (FullnodeCheckTask 50 1 3 ''u'')) (fs_db demo_state) 1"
    using demo_hyps(4) by (simp add: FullnodeCheckTask_def)
  have e: "blocks_of (fs_queue demo_state) = []"
    by (simp add: demo_state_def blocks_of_def eq_tasks_def map_filter_def)
  obtain bs n0 where
    bs: "q_open (fs_queue demo_state) \<and> alloc_ok (fe_alloc demo_env) \<longrightarrow> blocks_of (fs_queue s') = blocks_of (fs_queue demo_state) @ bs"
    and one: "number_known demo_env (fs_db demo_state) \<or> writes_succeed (fe_ldb demo_env) \<longrightarrow> n0 = 1"
    and n0: "unat n0 + length bs < 2 ^ 64 \<longrightarrow> map block_num bs = nums_from n0 (length bs) \<and> distinct (map block_num bs) \<and>
        (bs \<noteq> [] \<longrightarrow> starts_at demo_env 1 (fs_db s') (n0 + of_nat (length bs))) \<and>
        (number_known demo_env (fs_db demo_state) \<or> writes_succeed (fe_ldb demo_env) \<longrightarrow> starts_at demo_env 1 (fs_db s') (1 + of_nat (length bs))) \<and>
        (writes_succeed (fe_ldb demo_env) \<and> bs \<noteq> [] \<longrightarrow> number_stored (fe_ldb demo_env) (fs_db s') (1 + of_nat (length bs)))"
    using blocks_submitted_consecutively [OF demo_hyps(5) run start] unfolding m by (elim exE conjE) (rule that)
  have eq: "blocks_of (fs_queue s') = bs" using bs demo_hyps(2,3) e by simp
  with nums have l: "length bs = 2" by (metis length_map length_Cons list.size(3) numeral_2_eq_2)
  then have "bs \<noteq> []" by auto
  moreover have "n0 = 1" using one demo_hyps(1) by blast
  ultimately have "map block_num bs = nums_from 1 2" "starts_at demo_env 1 (fs_db s') 3" "number_stored (fe_ldb demo_env) (fs_db s') 3"
    using n0 demo_hyps(1) l by simp_all
  then show ?thesis using run eq by (auto simp: demo_sel)
qed

text \<open>The number on record moves on before the queue is asked: when the response's block is the next
  one and its number is written, the record stands behind it, and the block is submitted exactly
  if the queue takes it.  The result of \<^verbatim>\<open>execution_queue_execute\<close> is not looked at, so a block that
  a stopped queue or a failed allocation turns away is skipped for good.\<close>

theorem number_moves_on_even_if_rejected:
  assumes "fe_parse E str = Some b" "starts_at E sn (fs_db s) (block_num b)" "block_num b + 1 \<noteq> 0"
    and "bl_db (fs_db s) = DbLive d" "fst (ldb_write (fe_ldb E) d [(total_key, totalvalue (block_num b + 1))])"
  shows "\<exists>s'. block_loop E sn [Some str] s = Inr s' \<and> starts_at E sn (fs_db s') (block_num b + 1) \<and>
    blocks_of (fs_queue s') = blocks_of (fs_queue s) @
      (if q_open (fs_queue s) \<and> fst (fe_alloc E (fs_queue s)) \<noteq> None \<and> snd (fe_alloc E (fs_queue s)) then [b] else [])"
proof -
  obtain db1 where start: "get_start_block_num (fe_ldb E) (fe_lex E) sn (fs_db s) = Inr (block_num b, db1)"
    using assms(2) by (auto simp: starts_at_iff)
  have "bl_db db1 = DbLive d" using get_start_again(3) [OF start] assms(4) by simp
  then obtain db2 where store: "store_totalnum (fe_ldb E) b db1 = Inr (0, db2)"
    using assms(5) by (cases "ldb_write (fe_ldb E) d [(total_key, totalvalue (block_num b + 1))]")
      (simp add: store_totalnum_def)
  have "starts_at E sn db2 (block_num b + 1)"
    by (rule starts_at_stored(1) [OF start refl store assms(3)])
  with assms(1) start store show ?thesis by (simp add: put_block_tasks)
qed

theorem number_moves_on_even_if_rejected_witness:
  "\<exists>s'. block_loop demo_env 1 [Some ''1''] (demo_state\<lparr>fs_queue := (fs_queue demo_state)\<lparr>eq_stopped := True\<rparr>\<rparr>) = Inr s' \<and>
     starts_at demo_env 1 (fs_db s') 2 \<and> blocks_of (fs_queue s') = []"
proof -
  let ?s = "demo_state\<lparr>fs_queue := (fs_queue demo_state)\<lparr>eq_stopped := True\<rparr>\<rparr>"
  let ?b = "\<lparr>block_num = 1, block_type = 3, transactions = []\<rparr>"
  have "fe_parse demo_env ''1'' = Some ?b" by (simp add: demo_sel scan_lu_digit)
  moreover have "starts_at demo_env 1 (fs_db ?s) (block_num ?b)" using demo_hyps(4) by simp
  moreover have "bl_db (fs_db ?s) = DbLive (\<lambda>_. None)" by (simp add: demo_state_def)
  moreover have "fst (ldb_write (fe_ldb demo_env) (\<lambda>_. None) [(total_key, totalvalue (block_num ?b + 1))])"
    by (simp add: demo_env_def map_leveldb_def)
  ultimately show ?thesis
    using number_moves_on_even_if_rejected [of demo_env "''1''" ?b 1 ?s "\<lambda>_. None"]
    by (simp add: q_open_def demo_state_def blocks_of_def eq_tasks_def map_filter_def del: block_loop.simps)
qed

end
