(* ===== verification/TorrentDb.thy ===== *)
theory TorrentDb
  imports LevelDb "HOL-Library.Countable"
begin

text \<open>
  \<^verbatim>\<open>service/torrent_server/ts_database.cpp\<close>: torrents and payments, serialised by protobuf and
  kept in one LevelDB under their ids.  The two messages of \<^verbatim>\<open>service.proto\<close> are records; a
  protobuf map is an association list sorted by key, which stands for the finite map, and a
  \<^verbatim>\<open>double\<close> is its 64-bit pattern.  The generated serialisers are parameters (\<open>pb_codec\<close>).
  The \<^verbatim>\<open>lock_guard\<close> of each operation makes it atomic, so operations are functions on the state.
\<close>

section \<open>The messages\<close>

record torrent =
  t_id :: string
  t_transaction_id :: string
  t_time :: u64
  t_create_block :: u64
  t_last_modify :: u64
  t_user_id :: string
  t_asset :: u32
  t_balance :: string
  t_percent :: u32
  t_pay_times :: u32
  t_finish_times :: u32
  t_is_create :: bool

record torrent_payment =
  p_payment_id :: string
  p_torrent_id :: string
  p_time :: u64
  p_create_time :: u64
  p_selttement_time :: u64
  p_refund_time :: u64
  p_user_id :: string
  p_asset :: u32
  p_pieces :: u32
  p_payed_pieces :: u32
  p_sizes :: u64
  p_percent :: u32
  p_is_selttement :: bool
  p_is_refund :: bool
  p_sign_address :: string
  p_pay_pieces :: "(string, u32) smap"
  p_selttement_trx_id :: string
  p_refund_trx_id :: string
  p_receipt_trx_id :: string
  p_increase_trx :: "(string, string) smap"
  p_author_amount :: string
  p_payment_amount :: string
  p_transfer_one_piece_amount :: string
  p_author_one_piece_amount :: string
  p_receiver_author_one_piece_amount :: string

text \<open>Freshly constructed messages: every field has its proto3 default.\<close>

definition empty_torrent :: torrent where
  "empty_torrent =
     \<lparr>t_id = [], t_transaction_id = [], t_time = 0, t_create_block = 0, t_last_modify = 0, t_user_id = [],
      t_asset = 0, t_balance = [], t_percent = 0, t_pay_times = 0, t_finish_times = 0, t_is_create = False\<rparr>"

definition empty_payment :: torrent_payment where
  "empty_payment =
     \<lparr>p_payment_id = [], p_torrent_id = [], p_time = 0, p_create_time = 0, p_selttement_time = 0,
      p_refund_time = 0, p_user_id = [], p_asset = 0, p_pieces = 0, p_payed_pieces = 0, p_sizes = 0,
      p_percent = 0, p_is_selttement = False, p_is_refund = False, p_sign_address = [], p_pay_pieces = [],
      p_selttement_trx_id = [], p_refund_trx_id = [], p_receipt_trx_id = [], p_increase_trx = [],
      p_author_amount = [], p_payment_amount = [], p_transfer_one_piece_amount = [],
      p_author_one_piece_amount = [], p_receiver_author_one_piece_amount = []\<rparr>"

record pb_codec =
  enc_torrent :: "torrent \<Rightarrow> string"
  dec_torrent :: "string \<Rightarrow> torrent"
  enc_payment :: "torrent_payment \<Rightarrow> string"
  dec_payment :: "string \<Rightarrow> torrent_payment"

section \<open>The database\<close>

record 'db torrent_database =
  td_is_open :: bool
  td_db :: "'db db_ptr"
  td_sync :: bool

definition td_open :: "'db leveldb_ops \<Rightarrow> string \<Rightarrow> 'db torrent_database \<Rightarrow> int \<times> 'db torrent_database" where
  "td_open L dbdir s =
     (case ldb_open L dbdir of
        None \<Rightarrow> (- 14, s)
      | Some d \<Rightarrow> (0, s\<lparr>td_db := DbLive d, td_sync := True, td_is_open := True\<rparr>))"

definition td_is_open_q :: "'db torrent_database \<Rightarrow> bool" where
  "td_is_open_q s = td_is_open s"

definition td_close :: "'db torrent_database \<Rightarrow> 'db torrent_database res" where
  "td_close s = res_bind (db_deref (td_db s)) (\<lambda>_. Inr (s\<lparr>td_db := DbDeleted\<rparr>))"

definition save_or_update_torrent ::
  "'db leveldb_ops \<Rightarrow> pb_codec \<Rightarrow> torrent \<Rightarrow> 'db torrent_database \<Rightarrow> (int \<times> 'db torrent_database) res" where
  "save_or_update_torrent L C b s =
     res_bind (db_deref (td_db s)) (\<lambda>d.
       let (ok, d') = ldb_put L d (t_id b) (enc_torrent C b)
       in Inr (if ok then 0 else 1, s\<lparr>td_db := DbLive d'\<rparr>))"

definition get_torrent ::
  "'db leveldb_ops \<Rightarrow> pb_codec \<Rightarrow> string \<Rightarrow> 'db torrent_database \<Rightarrow> torrent option res" where
  "get_torrent L C torrent_id s =
     res_bind (db_deref (td_db s)) (\<lambda>d. Inr (map_option (dec_torrent C) (ldb_get L d torrent_id)))"

definition has_torrent :: "'db leveldb_ops \<Rightarrow> string \<Rightarrow> 'db torrent_database \<Rightarrow> bool res" where
  "has_torrent L torrent_id s =
     res_bind (db_deref (td_db s)) (\<lambda>d. Inr (case ldb_get L d torrent_id of None \<Rightarrow> False | Some _ \<Rightarrow> True))"

definition save_or_update_torrent_payment ::
  "'db leveldb_ops \<Rightarrow> pb_codec \<Rightarrow> torrent_payment \<Rightarrow> 'db torrent_database \<Rightarrow> (int \<times> 'db torrent_database) res" where
  "save_or_update_torrent_payment L C b s =
     res_bind (db_deref (td_db s)) (\<lambda>d.
       let (ok, d') = ldb_put L d (p_payment_id b) (enc_payment C b)
       in Inr (if ok then 0 else 1, s\<lparr>td_db := DbLive d'\<rparr>))"

definition get_torrent_payment ::
  "'db leveldb_ops \<Rightarrow> pb_codec \<Rightarrow> string \<Rightarrow> 'db torrent_database \<Rightarrow> torrent_payment option res" where
  "get_torrent_payment L C payment_id s =
     res_bind (db_deref (td_db s)) (\<lambda>d. Inr (map_option (dec_payment C) (ldb_get L d payment_id)))"

definition has_torrent_payment :: "'db leveldb_ops \<Rightarrow> string \<Rightarrow> 'db torrent_database \<Rightarrow> bool res" where
  "has_torrent_payment L payment_id s =
     res_bind (db_deref (td_db s)) (\<lambda>d. Inr (case ldb_get L d payment_id of None \<Rightarrow> False | Some _ \<Rightarrow> True))"

lemma save_torrent_cases:
  assumes "save_or_update_torrent L C t s = Inr (ret, s')"
  obtains d ok d' where "td_db s = DbLive d" "ldb_put L d (t_id t) (enc_torrent C t) = (ok, d')"
    "ret = (if ok then 0 else 1)" "s' = s\<lparr>td_db := DbLive d'\<rparr>"
  using assms by (auto simp: save_or_update_torrent_def db_deref_Inr_iff split: prod.split_asm elim!: res_bind_InrE)

lemma save_payment_cases:
  assumes "save_or_update_torrent_payment L C p s = Inr (ret, s')"
  obtains d ok d' where "td_db s = DbLive d" "ldb_put L d (p_payment_id p) (enc_payment C p) = (ok, d')"
    "ret = (if ok then 0 else 1)" "s' = s\<lparr>td_db := DbLive d'\<rparr>"
  using assms by (auto simp: save_or_update_torrent_payment_def db_deref_Inr_iff split: prod.split_asm elim!: res_bind_InrE)

section \<open>The contract its clients rely on\<close>

text \<open>
  A store of records addressed by their own key: a successful save is what the next lookup of that
  key returns, and lookups of other keys are not affected, whether the save succeeded or not.
\<close>

locale record_store =
  fixes save :: "'r \<Rightarrow> 's \<Rightarrow> (int \<times> 's) res"
    and find :: "string \<Rightarrow> 's \<Rightarrow> 'r option res"
    and key :: "'r \<Rightarrow> string"
  assumes save_find: "save r s = Inr (0, s') \<Longrightarrow> find (key r) s' = Inr (Some r)"
    and save_other: "save r s = Inr (ret, s') \<Longrightarrow> k \<noteq> key r \<Longrightarrow> find k s' = find k s"
begin

fun save_all :: "'r list \<Rightarrow> 's \<Rightarrow> 's res" where
  "save_all [] s = Inr s"
| "save_all (r # rs) s =
     res_bind (save r s) (\<lambda>(ret, s'). if ret = 0 then save_all rs s' else Inl Uncaught)"

text \<open>After a series of successful saves each lookup returns the last record saved under its key.\<close>

lemma save_all_find:
  "save_all rs s = Inr s' \<Longrightarrow>
   find k s' = (case map_of (rev (map (\<lambda>r. (key r, r)) rs)) k of Some r \<Rightarrow> Inr (Some r) | None \<Rightarrow> find k s)"
proof (induction rs arbitrary: s)
  case (Cons r rs)
  then obtain s1 where s1: "save r s = Inr (0, s1)" "save_all rs s1 = Inr s'"
    by (auto simp: res_simps split: if_splits)
  have "find k s1 = (if k = key r then Inr (Some r) else find k s)"
    using s1(1) save_find save_other by auto
  with Cons.IH [OF s1(2)] show ?case
    by (auto simp: map_add_def split: option.splits)
qed simp

end

text \<open>What protobuf documents: parsing what was serialised gives the message back.\<close>

locale codec =
  fixes C :: pb_codec
  assumes dec_enc_torrent: "dec_torrent C (enc_torrent C t) = t"
    and dec_enc_payment: "dec_payment C (enc_payment C p) = p"

locale torrent_store = leveldb L + codec C
  for L :: "'db leveldb_ops" and C :: pb_codec
sublocale torrent_store \<subseteq> torrents: record_store
  "save_or_update_torrent L C" "get_torrent L C" t_id
proof unfold_locales
  fix t s s'
  assume "save_or_update_torrent L C t s = Inr (0, s')"
  then show "get_torrent L C (t_id t) s' = Inr (Some t)"
    by (rule save_torrent_cases) (auto simp: get_torrent_def get_put dec_enc_torrent split: if_splits)
next
  fix t s ret s' k
  assume "save_or_update_torrent L C t s = Inr (ret, s')" "k \<noteq> t_id t"
  then show "get_torrent L C k s' = get_torrent L C k s"
    by (elim save_torrent_cases) (auto simp: get_torrent_def put_other)
qed

sublocale torrent_store \<subseteq> payments: record_store
  "save_or_update_torrent_payment L C" "get_torrent_payment L C" p_payment_id
proof unfold_locales
  fix p s s'
  assume "save_or_update_torrent_payment L C p s = Inr (0, s')"
  then show "get_torrent_payment L C (p_payment_id p) s' = Inr (Some p)"
    by (rule save_payment_cases) (auto simp: get_torrent_payment_def get_put dec_enc_payment split: if_splits)
next
  fix p s ret s' k
  assume "save_or_update_torrent_payment L C p s = Inr (ret, s')" "k \<noteq> p_payment_id p"
  then show "get_torrent_payment L C k s' = get_torrent_payment L C k s"
    by (elim save_payment_cases) (auto simp: get_torrent_payment_def put_other)
qed

context torrent_store
begin

lemma torrents_store: "record_store (save_or_update_torrent L C) (get_torrent L C) t_id"
  by unfold_locales

lemma payments_store:
  "record_store (save_or_update_torrent_payment L C) (get_torrent_payment L C) p_payment_id"
  by unfold_locales

end

section \<open>A concrete codec\<close>

text \<open>
  Messages are countable, so a codec that satisfies the contract exists: number the messages and
  write the number in decimal.
\<close>

instance word :: (len) countable
  by (rule countable_classI [of unat]) (simp add: unsigned_word_eqI)

instance torrent_ext :: (countable) countable
  by (rule countable_classI [of "\<lambda>r. to_nat (t_id r, t_transaction_id r, t_time r, t_create_block r, t_last_modify r,
        t_user_id r, t_asset r, t_balance r, t_percent r, t_pay_times r, t_finish_times r, t_is_create r, torrent.more r)"])
    simp

instance torrent_payment_ext :: (countable) countable
  by (rule countable_classI [of "\<lambda>r. to_nat ((p_payment_id r, p_torrent_id r, p_time r, p_create_time r, p_selttement_time r,
        p_refund_time r, p_user_id r, p_asset r, p_pieces r), (p_payed_pieces r, p_sizes r, p_percent r,
        p_is_selttement r, p_is_refund r, p_sign_address r, p_pay_pieces r, p_selttement_trx_id r, p_refund_trx_id r),
        (p_receipt_trx_id r, p_increase_trx r, p_author_amount r, p_payment_amount r, p_transfer_one_piece_amount r,
        p_author_one_piece_amount r, p_receiver_author_one_piece_amount r, torrent_payment.more r))"])
    simp

definition num_codec :: pb_codec where
  "num_codec =
     \<lparr>enc_torrent = (\<lambda>t. dec (to_nat t)), dec_torrent = (\<lambda>s. from_nat (dec_val s)),
      enc_payment = (\<lambda>p. dec (to_nat p)), dec_payment = (\<lambda>s. from_nat (dec_val s))\<rparr>"

interpretation nc: codec num_codec
  by unfold_locales (simp_all add: num_codec_def)

interpretation mem_store: torrent_store "mem_leveldb cap" num_codec for cap
  by unfold_locales

interpretation map_store: torrent_store map_leveldb num_codec
  by unfold_locales

section \<open>Properties\<close>

text \<open>What \<open>save_or_update_torrent_payment\<close> promises: after it returned 0 the payment is found under
  its id exactly as it was saved, and, whatever it returned, every lookup under another id, of a
  payment or of a torrent, gives what it gave before.\<close>

theorem payment_saved_is_found:
  assumes "torrent_store L C" "save_or_update_torrent_payment L C p s = Inr (ret, s')"
  shows "(ret = 0 \<longrightarrow> get_torrent_payment L C (p_payment_id p) s' = Inr (Some p) \<and>
                   has_torrent_payment L (p_payment_id p) s' = Inr True) \<and>
         (\<forall>k. k \<noteq> p_payment_id p \<longrightarrow> get_torrent_payment L C k s' = get_torrent_payment L C k s \<and>
                   get_torrent L C k s' = get_torrent L C k s)"
proof -
  have db: "leveldb L" using assms(1) by (simp add: torrent_store_def)
  note find = torrent_store.axioms [OF assms(1)]
  obtain d ok d' where d: "td_db s = DbLive d" "ldb_put L d (p_payment_id p) (enc_payment C p) = (ok, d')"
    "ret = (if ok then 0 else 1)" "s' = s\<lparr>td_db := DbLive d'\<rparr>"
    using assms(2) by (rule save_payment_cases)
  have other: "ldb_get L d' k = ldb_get L d k" if "k \<noteq> p_payment_id p" for k
    using leveldb.put_other [OF db d(2) that] .
  have "ldb_get L d' (p_payment_id p) = Some (enc_payment C p)" if "ret = 0"
    using leveldb.get_put [OF db, of d "p_payment_id p" "enc_payment C p" d'] d that by (auto split: if_splits)
  with other d find(2) show ?thesis
    by (auto simp: get_torrent_payment_def has_torrent_payment_def get_torrent_def codec.dec_enc_payment)
qed

theorem payment_saved_is_found_witness:
  "\<exists>s'. save_or_update_torrent_payment (mem_leveldb 3) num_codec (empty_payment\<lparr>p_payment_id := ''a''\<rparr>)
       \<lparr>td_is_open = True, td_db = DbLive [], td_sync = True\<rparr> = Inr (0, s') \<and>
     get_torrent_payment (mem_leveldb 3) num_codec ''a'' s' = Inr (Some (empty_payment\<lparr>p_payment_id := ''a''\<rparr>))"
proof -
  let ?p = "empty_payment\<lparr>p_payment_id := ''a''\<rparr>"
  obtain s' where s': "save_or_update_torrent_payment (mem_leveldb 3) num_codec ?p
      \<lparr>td_is_open = True, td_db = DbLive [], td_sync = True\<rparr> = Inr (0, s')"
    by (simp add: save_or_update_torrent_payment_def mem_leveldb_def Let_def)
  from payment_saved_is_found [OF mem_store.torrent_store_axioms s'] s' show ?thesis by simp
qed

text \<open>The last write wins: after any series of successful \<open>save_or_update_torrent\<close> calls a lookup
  returns the torrent saved last under that id, and, for an id none of them has, what was there
  before.\<close>

theorem last_torrent_save_wins:
  assumes "torrent_store L C" "record_store.save_all (save_or_update_torrent L C) ts s = Inr s'"
  shows "get_torrent L C k s' =
           (case map_of (rev (map (\<lambda>t. (t_id t, t)) ts)) k of Some t \<Rightarrow> Inr (Some t) | None \<Rightarrow> get_torrent L C k s)"
proof -
  from record_store.save_all_find [OF torrent_store.torrents_store [OF assms(1)] assms(2)] show ?thesis .
qed

theorem last_torrent_save_wins_witness:
  "\<exists>s'. get_torrent (mem_leveldb 3) num_codec ''a'' s' = Inr (Some (empty_torrent\<lparr>t_id := ''a'', t_percent := 2\<rparr>))"
proof -
  let ?ts = "[empty_torrent\<lparr>t_id := ''a'', t_percent := 1\<rparr>, empty_torrent\<lparr>t_id := ''a'', t_percent := 2\<rparr>]"
  let ?s = "\<lparr>td_is_open = True, td_db = DbLive [], td_sync = True\<rparr>"
  obtain s' where "record_store.save_all (save_or_update_torrent (mem_leveldb 3) num_codec) ?ts ?s = Inr s'"
    using mem_store.torrents.save_all.simps [of 3]
    by (simp add: save_or_update_torrent_def mem_leveldb_def Let_def)
  from last_torrent_save_wins [OF mem_store.torrent_store_axioms this, of "''a''"] show ?thesis by auto
qed

end
