(* ===== verification/CqSpec.thy ===== *)
theory CqSpec
  imports Prelude "HOL-Library.Multiset"
begin

text \<open>
  What the clients of \<^verbatim>\<open>moodycamel::ConcurrentQueue\<close> rely on: a bag.  Elements come out of it in
  some order, each of them as often as it went in; an enqueue may fail for want of memory and then
  changes nothing.  \<open>ok\<close> is the implementation's invariant; the operations may fail an \<^verbatim>\<open>assert\<close>
  outside it, never inside.
\<close>

record ('q, 'a) cq_ops =
  cq_enqueue :: "'a \<Rightarrow> 'q \<Rightarrow> (bool \<times> 'q) res"
  cq_try_dequeue :: "'q \<Rightarrow> ('a option \<times> 'q) res"

locale concurrent_bag =
  fixes Q :: "('q, 'a) cq_ops"
    and ok :: "'q \<Rightarrow> bool"
    and items :: "'q \<Rightarrow> 'a multiset"
  assumes enqueue: "ok q \<Longrightarrow> \<exists>b q'. cq_enqueue Q x q = Inr (b, q') \<and> ok q' \<and>
      items q' = (if b then add_mset x (items q) else items q)"
    and try_dequeue: "ok q \<Longrightarrow> \<exists>r q'. cq_try_dequeue Q q = Inr (r, q') \<and> ok q' \<and>
      (case r of None \<Rightarrow> items q = {#} \<and> items q' = {#} | Some x \<Rightarrow> items q = add_mset x (items q'))"
begin

lemma enqueueD:
  assumes "ok q" "cq_enqueue Q x q = Inr (b, q')"
  shows "ok q'" and "items q' = (if b then add_mset x (items q) else items q)"
  using enqueue [OF assms(1), of x] assms(2) by auto

lemma dequeue_SomeD:
  assumes "ok q" "cq_try_dequeue Q q = Inr (Some x, q')"
  shows "ok q'" and "items q = add_mset x (items q')"
  using try_dequeue [OF assms(1)] assms(2) by auto

lemma dequeue_NoneD:
  assumes "ok q" "cq_try_dequeue Q q = Inr (None, q')"
  shows "ok q'" and "items q = {#}" and "items q' = {#}"
  using try_dequeue [OF assms(1)] assms(2) by auto

text \<open>Taking elements out until \<open>n\<close> attempts are made empties the bag of \<open>n\<close> elements at most.\<close>

fun drain :: "nat \<Rightarrow> 'q \<Rightarrow> 'q res" where
  "drain 0 q = Inr q"
| "drain (Suc n) q = res_bind (cq_try_dequeue Q q) (\<lambda>(_, q'). drain n q')"

lemma drain_items:
  "ok q \<Longrightarrow> \<exists>q'. drain n q = Inr q' \<and> ok q' \<and> items q' \<subseteq># items q \<and> size (items q') = size (items q) - n"
proof (induction n arbitrary: q)
  case (Suc n)
  obtain r q1 where r: "cq_try_dequeue Q q = Inr (r, q1)" "ok q1"
    "case r of None \<Rightarrow> items q = {#} \<and> items q1 = {#} | Some x \<Rightarrow> items q = add_mset x (items q1)"
    using try_dequeue [OF Suc.prems] by auto
  obtain q' where q': "drain n q1 = Inr q'" "ok q'" "items q' \<subseteq># items q1" "size (items q') = size (items q1) - n"
    using Suc.IH [OF r(2)] by auto
  have "items q' \<subseteq># items q \<and> size (items q') = size (items q) - Suc n"
  proof (cases r)
    case None
    then show ?thesis using r(3) q'(3,4) by simp
  next
    case (Some x)
    then have "items q = add_mset x (items q1)" using r(3) by simp
    moreover have "items q1 \<subseteq># add_mset x (items q1)" by (simp add: subseteq_mset_def)
    ultimately show ?thesis using q'(4) subset_mset.order_trans [OF q'(3)] by simp
  qed
  then show ?case using r(1) q'(1,2) by auto
qed simp

end

section \<open>The simplest bag\<close>

text \<open>A list that never refuses an element satisfies the contract; \<open>cap\<close> bounds its length.\<close>

definition list_bag :: "nat \<Rightarrow> ('a list, 'a) cq_ops" where
  "list_bag cap =
     \<lparr>cq_enqueue = (\<lambda>x q. Inr (if length q < cap then (True, q @ [x]) else (False, q))),
      cq_try_dequeue = (\<lambda>q. case q of [] \<Rightarrow> Inr (None, []) | x # q' \<Rightarrow> Inr (Some x, q'))\<rparr>"

interpretation list_bag: concurrent_bag "list_bag cap" "\<lambda>_. True" mset for cap
  by unfold_locales (auto simp: list_bag_def split: list.splits)

end
