(* ===== verification/MysqlQueue.thy ===== *)
theory MysqlQueue
  imports CqSpec ExecutionQueue TimeUtil
begin

text \<open>
  \<^verbatim>\<open>lib/mysql_exe_queue.cpp\<close> and \<^verbatim>\<open>lib/mysql_task.cpp\<close>: the pool of MySQL connections, the two
  execution-queue consumers that send statements to the server, retrying until each is settled,
  and the periodic task that hands the collected batches to the queue.  The MySQL client library is
  the record \<open>mysql_ops\<close>, acting on a world \<open>'w\<close> that holds everything outside the process; the
  pool is whatever \<open>cq_ops\<close> provides.  A \<^verbatim>\<open>MYSQL*\<close> is an optional handle.
\<close>

section \<open>The MySQL client library\<close>

record conn_params =
  cp_host :: string
  cp_user :: string
  cp_pass :: string
  cp_name :: string
  cp_port :: int
  cp_charset :: string

record ('c, 'w) mysql_ops =
  my_init :: "'w \<Rightarrow> 'c option \<times> 'w"
  my_set_reconnect :: "'c \<Rightarrow> 'w \<Rightarrow> int \<times> 'w"
  my_set_charset :: "'c \<Rightarrow> string \<Rightarrow> 'w \<Rightarrow> int \<times> 'w"
  my_real_connect :: "'c \<Rightarrow> conn_params \<Rightarrow> 'w \<Rightarrow> bool \<times> 'w"
  my_close :: "'c \<Rightarrow> 'w \<Rightarrow> 'w"
  my_real_query :: "'c \<Rightarrow> string \<Rightarrow> 'w \<Rightarrow> int \<times> 'w"
  my_errno :: "'c \<Rightarrow> 'w \<Rightarrow> nat"
  my_usleep :: "nat \<Rightarrow> 'w \<Rightarrow> 'w"

record ('q, 'w) my_state =
  my_pool :: 'q
  my_world :: 'w

section \<open>Connections and their pool\<close>

definition mysql_bytetrade_init :: "('c, 'w) mysql_ops \<Rightarrow> conn_params \<Rightarrow> 'w \<Rightarrow> 'c option \<times> 'w" where
  "mysql_bytetrade_init M p w =
     (case my_init M w of
        (None, w1) \<Rightarrow> (None, w1)
      | (Some conn, w1) \<Rightarrow>
          (let (r2, w2) = my_set_reconnect M conn w1
           in if r2 \<noteq> 0 then (None, my_close M conn w2)
              else let (r3, w3) = my_set_charset M conn (cp_charset p) w2
                   in if r3 \<noteq> 0 then (None, my_close M conn w3)
                      else let (r4, w4) = my_real_connect M conn p w3
                           in if \<not> r4 then (None, my_close M conn w4) else (Some conn, w4)))"

fun pool_init_loop ::
  "('q, 'c option) cq_ops \<Rightarrow> ('c, 'w) mysql_ops \<Rightarrow> conn_params \<Rightarrow> nat \<Rightarrow> ('q, 'w) my_state \<Rightarrow> (int \<times> ('q, 'w) my_state) res" where
  "pool_init_loop Q M p 0 s = Inr (0, s)"
| "pool_init_loop Q M p (Suc n) s =
     (case mysql_bytetrade_init M p (my_world s) of
        (None, w) \<Rightarrow> Inr (48, s\<lparr>my_world := w\<rparr>)
      | (Some conn, w) \<Rightarrow>
          res_bind (cq_enqueue Q (Some conn) (my_pool s)) (\<lambda>(_, pool).
            pool_init_loop Q M p n (s\<lparr>my_pool := pool, my_world := w\<rparr>)))"

text \<open>\<open>nproc\<close> is what \<^verbatim>\<open>sysconf(_SC_NPROCESSORS_ONLN)\<close> returned, as a \<^verbatim>\<open>size_t\<close>.\<close>

definition mysql_conn_pool_init ::
  "('q, 'c option) cq_ops \<Rightarrow> ('c, 'w) mysql_ops \<Rightarrow> conn_params \<Rightarrow> u64 \<Rightarrow> ('q, 'w) my_state \<Rightarrow> (int \<times> ('q, 'w) my_state) res" where
  "mysql_conn_pool_init Q M p nproc s = pool_init_loop Q M p (unat (nproc * 2)) s"

definition g_max_conn_size :: nat where
  "g_max_conn_size = 64"

fun pool_fini_loop :: "('q, 'c option) cq_ops \<Rightarrow> nat \<Rightarrow> ('q, 'w) my_state \<Rightarrow> ('q, 'w) my_state res" where
  "pool_fini_loop Q 0 s = Inr s"
| "pool_fini_loop Q (Suc n) s =
     res_bind (cq_try_dequeue Q (my_pool s)) (\<lambda>(_, pool). pool_fini_loop Q n (s\<lparr>my_pool := pool\<rparr>))"

definition mysql_conn_pool_fini :: "('q, 'c option) cq_ops \<Rightarrow> ('q, 'w) my_state \<Rightarrow> (int \<times> ('q, 'w) my_state) res" where
  "mysql_conn_pool_fini Q s = res_bind (pool_fini_loop Q g_max_conn_size s) (\<lambda>s'. Inr (0, s'))"

definition get_mysql_conn ::
  "('q, 'c option) cq_ops \<Rightarrow> ('c, 'w) mysql_ops \<Rightarrow> int \<Rightarrow> conn_params \<Rightarrow> ('q, 'w) my_state
     \<Rightarrow> ('c option \<times> int \<times> ('q, 'w) my_state) res" where
  "get_mysql_conn Q M flag p s =
     res_bind (cq_try_dequeue Q (my_pool s)) (\<lambda>(r, pool).
       case r of
         Some (Some conn) \<Rightarrow> Inr (Some conn, flag, s\<lparr>my_pool := pool\<rparr>)
       | _ \<Rightarrow>
           (case mysql_bytetrade_init M p (my_world s) of
              (None, w) \<Rightarrow> Inr (None, flag, s\<lparr>my_pool := pool, my_world := w\<rparr>)
            | (Some conn, w) \<Rightarrow> Inr (Some conn, 1, s\<lparr>my_pool := pool, my_world := w\<rparr>)))"

text \<open>The result of the enqueue is dropped.\<close>

definition release_mysql_conn ::
  "('q, 'c option) cq_ops \<Rightarrow> ('c, 'w) mysql_ops \<Rightarrow> 'c option \<Rightarrow> int \<Rightarrow> ('q, 'w) my_state \<Rightarrow> ('q, 'w) my_state res" where
  "release_mysql_conn Q M conn flag s =
     (case conn of
        None \<Rightarrow> Inr s
      | Some c \<Rightarrow>
          if flag = 0 then res_bind (cq_enqueue Q (Some c) (my_pool s)) (\<lambda>(_, pool). Inr (s\<lparr>my_pool := pool\<rparr>))
          else if flag = 1 then Inr (s\<lparr>my_world := my_close M c (my_world s)\<rparr>)
          else Inr s)"

definition mysql_finish :: "('c, 'w) mysql_ops \<Rightarrow> 'c \<Rightarrow> 'w \<Rightarrow> 'w" where
  "mysql_finish M conn w = my_close M conn w"

definition append_key :: "string \<Rightarrow> string set \<Rightarrow> string set" where
  "append_key key g_key = (if key \<notin> g_key then insert key g_key else g_key)"

section \<open>The consumers\<close>

record mysql_task =
  mt_type :: string
  mt_value :: string
  mt_sql :: string
  mt_host :: string
  mt_port :: int
  mt_user :: string
  mt_password :: string
  mt_name :: string
  mt_charset :: string

definition task_params :: "mysql_task \<Rightarrow> conn_params" where
  "task_params t =
     \<lparr>cp_host = c_str (mt_host t), cp_user = c_str (mt_user t), cp_pass = c_str (mt_password t),
      cp_name = c_str (mt_name t), cp_port = mt_port t, cp_charset = c_str (mt_charset t)\<rparr>"

text \<open>
  \<^verbatim>\<open>while(1)\<close>: try again after a second until the statement succeeds or is refused as a duplicate
  (1062).  \<open>None\<close> is a loop that never ends.
\<close>

partial_function (option) exec_sql :: "('c, 'w) mysql_ops \<Rightarrow> 'c \<Rightarrow> string \<Rightarrow> 'w \<Rightarrow> 'w option" where
  "exec_sql M conn sql w =
     (let (ret, w1) = my_real_query M conn sql w
      in if ret \<noteq> 0 \<and> my_errno M conn w1 \<noteq> 1062 then exec_sql M conn sql (my_usleep M 1000000 w1)
         else Some w1)"

text \<open>\<open>stmt\<close> is the statement of a task; only the iterations of a non-empty \<open>iter\<close> use the connection.\<close>

fun exec_tasks :: "('c, 'w) mysql_ops \<Rightarrow> 'c \<Rightarrow> (mysql_task \<Rightarrow> string) \<Rightarrow> mysql_task list \<Rightarrow> 'w \<Rightarrow> 'w option" where
  "exec_tasks M conn stmt [] w = Some w"
| "exec_tasks M conn stmt (t # iter) w =
     (case exec_sql M conn (stmt t) w of None \<Rightarrow> None | Some w' \<Rightarrow> exec_tasks M conn stmt iter w')"

definition consume ::
  "('q, 'c option) cq_ops \<Rightarrow> ('c, 'w) mysql_ops \<Rightarrow> (mysql_task \<Rightarrow> string) \<Rightarrow> int \<Rightarrow> mysql_task list
     \<Rightarrow> ('q, 'w) my_state \<Rightarrow> (int \<times> ('q, 'w) my_state) res option" where
  "consume Q M stmt no_conn iter s =
     (case iter of
        [] \<Rightarrow> Some (res_bind (release_mysql_conn Q M None 0 s) (\<lambda>s'. Inr (0, s')))
      | t # _ \<Rightarrow>
          (case get_mysql_conn Q M 0 (task_params t) s of
             Inl e \<Rightarrow> Some (Inl e)
           | Inr (None, _, s1) \<Rightarrow> Some (Inr (no_conn, s1))
           | Inr (Some conn, flag, s1) \<Rightarrow>
               (case exec_tasks M conn stmt iter (my_world s1) of
                  None \<Rightarrow> None
                | Some w \<Rightarrow>
                    Some (res_bind (release_mysql_conn Q M (Some conn) flag (s1\<lparr>my_world := w\<rparr>)) (\<lambda>s2. Inr (0, s2))))))"

definition mysql_queue_exe_batch ::
  "('q, 'c option) cq_ops \<Rightarrow> ('c, 'w) mysql_ops \<Rightarrow> mysql_task list \<Rightarrow> ('q, 'w) my_state \<Rightarrow> (int \<times> ('q, 'w) my_state) res option" where
  "mysql_queue_exe_batch Q M iter s = consume Q M (\<lambda>t. mt_type t @ mt_value t) 264 iter s"

definition mysql_queue_exe ::
  "('q, 'c option) cq_ops \<Rightarrow> ('c, 'w) mysql_ops \<Rightarrow> mysql_task list \<Rightarrow> ('q, 'w) my_state \<Rightarrow> (int \<times> ('q, 'w) my_state) res option" where
  "mysql_queue_exe Q M iter s = consume Q M mt_sql 303 iter s"

section \<open>Submitting statements\<close>

type_synonym mysql_queue = "mysql_task exec_queue"

definition put_mysql_exe_queue_batch ::
  "(mysql_queue \<Rightarrow> mysql_task task_node option \<times> bool) \<Rightarrow> string \<Rightarrow> string \<Rightarrow> conn_params \<Rightarrow> mysql_queue \<Rightarrow> mysql_queue" where
  "put_mysql_exe_queue_batch alloc type val p q =
     (let t = \<lparr>mt_type = type, mt_value = val, mt_sql = [], mt_host = cp_host p, mt_port = cp_port p, mt_user = cp_user p,
               mt_password = cp_pass p, mt_name = cp_name p, mt_charset = cp_charset p\<rparr>
      in snd (execute_options alloc None t q))"

definition put_mysql_exe_queue ::
  "(mysql_queue \<Rightarrow> mysql_task task_node option \<times> bool) \<Rightarrow> string \<Rightarrow> conn_params \<Rightarrow> mysql_queue \<Rightarrow> mysql_queue" where
  "put_mysql_exe_queue alloc sql p q =
     (let t = \<lparr>mt_type = [], mt_value = [], mt_sql = sql, mt_host = cp_host p, mt_port = cp_port p, mt_user = cp_user p,
               mt_password = cp_pass p, mt_name = cp_name p, mt_charset = cp_charset p\<rparr>
      in snd (execute_options alloc None t q))"

text \<open>The results of starting and stopping the queue are dropped.\<close>

definition mysql_exe_queue_start_batch :: "(mysql_queue \<Rightarrow> int \<times> mysql_queue) \<Rightarrow> mysql_queue \<Rightarrow> mysql_queue" where
  "mysql_exe_queue_start_batch create q = snd (execution_queue_start create q)"

definition mysql_exe_queue_start :: "(mysql_queue \<Rightarrow> int \<times> mysql_queue) \<Rightarrow> mysql_queue \<Rightarrow> mysql_queue" where
  "mysql_exe_queue_start create q = snd (execution_queue_start create q)"

definition mysql_exe_queue_stop :: "(mysql_queue \<Rightarrow> int \<times> mysql_queue) \<Rightarrow> mysql_queue \<Rightarrow> mysql_queue" where
  "mysql_exe_queue_stop stop q = snd (execution_queue_stop stop q)"

definition mysql_exe_queue_stop_batch :: "(mysql_queue \<Rightarrow> int \<times> mysql_queue) \<Rightarrow> mysql_queue \<Rightarrow> mysql_queue" where
  "mysql_exe_queue_stop_batch stop q = snd (execution_queue_stop stop q)"

section \<open>The collected batches\<close>

type_synonym mysql_batches = "(string, string) smap"

record mysql_check_task =
  mc_host :: string
  mc_user :: string
  mc_password :: string
  mc_name :: string
  mc_port :: int
  mc_charset :: string
  mc_mysql_exe_time :: int

definition MysqlCheckTask ::
  "string \<Rightarrow> string \<Rightarrow> string \<Rightarrow> string \<Rightarrow> int \<Rightarrow> string \<Rightarrow> int \<Rightarrow> mysql_check_task" where
  "MysqlCheckTask host user password name port charset mysql_exe_time =
     \<lparr>mc_host = host, mc_user = user, mc_password = password, mc_name = name, mc_port = port, mc_charset = charset,
      mc_mysql_exe_time = mysql_exe_time\<rparr>"

definition check_params :: "mysql_check_task \<Rightarrow> conn_params" where
  "check_params task =
     \<lparr>cp_host = c_str (mc_host task), cp_user = c_str (mc_user task), cp_pass = c_str (mc_password task),
      cp_name = c_str (mc_name task), cp_port = mc_port task, cp_charset = c_str (mc_charset task)\<rparr>"

definition mysql_OnTriggeringTask ::
  "(mysql_queue \<Rightarrow> mysql_task task_node option \<times> bool) \<Rightarrow> timespec \<Rightarrow> mysql_check_task \<Rightarrow> mysql_batches \<Rightarrow> mysql_queue
     \<Rightarrow> (bool \<times> timespec \<times> mysql_batches \<times> mysql_queue) res" where
  "mysql_OnTriggeringTask alloc now task g_mysql_task q =
     (let q' = fold (\<lambda>(type, val). put_mysql_exe_queue_batch alloc type val (check_params task)) g_mysql_task q
      in res_bind (milliseconds_from_now now (mc_mysql_exe_time task)) (\<lambda>next_abstime.
           Inr (True, next_abstime, [], q')))"

text \<open>
  The block under \<open>g_mutex\<close> that ends \<^verbatim>\<open>append_torrent_create\<close> and \<^verbatim>\<open>append_torrent_payment\<close>: the
  value opens the batch of its type or is appended to it after a comma.
\<close>

definition mysql_task_add :: "string \<Rightarrow> string \<Rightarrow> mysql_batches \<Rightarrow> mysql_batches" where
  "mysql_task_add type val g_mysql_task =
     (case smap_find g_mysql_task type of
        None \<Rightarrow> smap_put g_mysql_task type val
      | Some v \<Rightarrow> smap_put g_mysql_task type (v @ '','' @ val))"

section \<open>The retry loop\<close>

text \<open>One failed round of the loop, and whether a round ends it.\<close>

definition attempt :: "('c, 'w) mysql_ops \<Rightarrow> 'c \<Rightarrow> string \<Rightarrow> 'w \<Rightarrow> 'w" where
  "attempt M conn sql w = my_usleep M 1000000 (snd (my_real_query M conn sql w))"

definition settled :: "('c, 'w) mysql_ops \<Rightarrow> 'c \<Rightarrow> string \<Rightarrow> 'w \<Rightarrow> bool" where
  "settled M conn sql w \<longleftrightarrow>
     (let (ret, w1) = my_real_query M conn sql w in ret = 0 \<or> my_errno M conn w1 = 1062)"

lemma exec_sql_unfold:
  "exec_sql M conn sql w =
     (if settled M conn sql w then Some (snd (my_real_query M conn sql w)) else exec_sql M conn sql (attempt M conn sql w))"
  by (subst exec_sql.simps) (auto simp: settled_def attempt_def split: prod.splits)

lemma exec_sql_after:
  "settled M conn sql ((attempt M conn sql ^^ k) w) \<Longrightarrow> \<exists>w'. exec_sql M conn sql w = Some w'"
proof (induction k arbitrary: w)
  case 0
  then show ?case by (subst exec_sql_unfold) simp
next
  case (Suc k)
  then have "\<exists>w'. exec_sql M conn sql (attempt M conn sql w) = Some w'"
    by (simp add: funpow_swap1)
  then show ?case by (subst exec_sql_unfold) simp
qed

text \<open>The statement is settled in round \<open>k\<close> and in no earlier one, and \<open>w'\<close> is the world after it.\<close>

definition settled_in_round :: "('c, 'w) mysql_ops \<Rightarrow> 'c \<Rightarrow> string \<Rightarrow> 'w \<Rightarrow> 'w \<Rightarrow> nat \<Rightarrow> bool" where
  "settled_in_round M conn sql w w' k \<longleftrightarrow>
     settled M conn sql ((attempt M conn sql ^^ k) w) \<and>
     (\<forall>i<k. \<not> settled M conn sql ((attempt M conn sql ^^ i) w)) \<and>
     w' = snd (my_real_query M conn sql ((attempt M conn sql ^^ k) w))"

lemma settled_in_round_Suc:
  assumes "settled_in_round M conn sql (attempt M conn sql w) w' k" "\<not> settled M conn sql w"
  shows "settled_in_round M conn sql w w' (Suc k)"
proof -
  have "\<not> settled M conn sql ((attempt M conn sql ^^ i) w)" if "i < Suc k" for i
    using that assms by (cases i) (simp_all add: settled_in_round_def funpow_swap1)
  then show ?thesis using assms(1) by (simp add: settled_in_round_def funpow_swap1)
qed

lemma exec_sql_rounds:
  fixes M :: "('c, 'w) mysql_ops"
  assumes "exec_sql M conn sql w = Some w'"
  shows "\<exists>k. settled_in_round M conn sql w w' k"
proof (rule exec_sql.raw_induct [where P = "\<lambda>M conn sql w w'. \<exists>k. settled_in_round M conn sql w w' k", OF _ assms])
  fix rc and M :: "('c, 'w) mysql_ops" and conn sql w w'
  assume IH: "\<And>M conn sql w w'. rc M conn sql w = Some w' \<Longrightarrow> \<exists>k. settled_in_round M conn sql w w' k"
    and eq: "(let (ret, w1) = my_real_query M conn sql w
      in if ret \<noteq> 0 \<and> my_errno M conn w1 \<noteq> 1062 then rc M conn sql (my_usleep M 1000000 w1) else Some w1) = Some w'"
  show "\<exists>k. settled_in_round M conn sql w w' k"
  proof (cases "settled M conn sql w")
    case True
    then show ?thesis using eq
      by (intro exI [of _ 0]) (auto simp: settled_in_round_def settled_def split: prod.splits if_splits)
  next
    case False
    then have "rc M conn sql (attempt M conn sql w) = Some w'"
      using eq by (auto simp: settled_def attempt_def split: prod.splits if_splits)
    from IH [OF this] settled_in_round_Suc [OF _ False] show ?thesis by blast
  qed
qed

section \<open>The calls of the client library\<close>

text \<open>
  What the program asks of the client library, in order: \<open>traced M\<close> is the library \<open>M\<close> with a list of the calls
  and their results beside its world.  Nothing is assumed of \<open>M\<close>: in particular a query that failed may
  or may not have been executed by the server.
\<close>

datatype 'c my_call =
    CInit "'c option"
  | CReconnect 'c int
  | CCharset 'c int
  | CConnect 'c bool
  | CClose 'c
  | CQuery 'c string int nat                     \<comment> \<open>the result, and \<open>mysql_errno\<close> after it\<close>
  | CSleep nat

definition traced :: "('c, 'w) mysql_ops \<Rightarrow> ('c, 'w \<times> 'c my_call list) mysql_ops" where
  "traced M =
     \<lparr>my_init = (\<lambda>(w, cs). case my_init M w of (r, w') \<Rightarrow> (r, w', cs @ [CInit r])),
      my_set_reconnect = (\<lambda>c (w, cs). case my_set_reconnect M c w of (r, w') \<Rightarrow> (r, w', cs @ [CReconnect c r])),
      my_set_charset = (\<lambda>c x (w, cs). case my_set_charset M c x w of (r, w') \<Rightarrow> (r, w', cs @ [CCharset c r])),
      my_real_connect = (\<lambda>c p (w, cs). case my_real_connect M c p w of (r, w') \<Rightarrow> (r, w', cs @ [CConnect c r])),
      my_close = (\<lambda>c (w, cs). (my_close M c w, cs @ [CClose c])),
      my_real_query = (\<lambda>c sql (w, cs). case my_real_query M c sql w of (r, w') \<Rightarrow> (r, w', cs @ [CQuery c sql r (my_errno M c w')])),
      my_errno = (\<lambda>c (w, cs). my_errno M c w),
      my_usleep = (\<lambda>n (w, cs). (my_usleep M n w, cs @ [CSleep n]))\<rparr>"

text \<open>Of a list of calls: the queries with their results, the connections that were created and those that were closed.\<close>

fun queries :: "'c my_call list \<Rightarrow> ('c \<times> string \<times> int \<times> nat) list" where
  "queries [] = []"
| "queries (CQuery c sql ret e # cs) = (c, sql, ret, e) # queries cs"
| "queries (_ # cs) = queries cs"

fun created :: "'c my_call list \<Rightarrow> 'c list" where
  "created [] = []"
| "created (CInit (Some c) # cs) = c # created cs"
| "created (_ # cs) = created cs"

fun closed :: "'c my_call list \<Rightarrow> 'c list" where
  "closed [] = []"
| "closed (CClose c # cs) = c # closed cs"
| "closed (_ # cs) = closed cs"

lemma calls_append [simp]:
  "queries (cs @ cs') = queries cs @ queries cs'"
  "created (cs @ cs') = created cs @ created cs'"
  "closed (cs @ cs') = closed cs @ closed cs'"
proof -
  show "queries (cs @ cs') = queries cs @ queries cs'" by (induction cs rule: queries.induct) simp_all
  show "created (cs @ cs') = created cs @ created cs'" by (induction cs rule: created.induct) simp_all
  show "closed (cs @ cs') = closed cs @ closed cs'" by (induction cs rule: closed.induct) simp_all
qed

text \<open>A reply that settles a statement, and the replies to a statement that is repeated until the first such one.\<close>

definition settles :: "int \<times> nat \<Rightarrow> bool" where
  "settles = (\<lambda>(ret, e). ret = 0 \<or> e = 1062)"

fun retried :: "(int \<times> nat) list \<Rightarrow> bool" where
  "retried [] = False"
| "retried [x] = settles x"
| "retried (x # xs) = (\<not> settles x \<and> retried xs)"

lemma retried_once: "retried rs \<Longrightarrow> \<exists>x. filter settles rs = [x]"
  by (induction rs rule: retried.induct) auto

text \<open>A library whose world knows its calls.\<close>

locale mysql_trace =
  fixes M :: "('c, 'w) mysql_ops"
    and calls :: "'w \<Rightarrow> 'c my_call list"
  assumes init_call: "my_init M w = (x, w') \<Longrightarrow> calls w' = calls w @ [CInit x]"
    and reconnect_call: "my_set_reconnect M c w = (r, w') \<Longrightarrow> calls w' = calls w @ [CReconnect c r]"
    and charset_call: "my_set_charset M c cs w = (r, w') \<Longrightarrow> calls w' = calls w @ [CCharset c r]"
    and connect_call: "my_real_connect M c p w = (b, w') \<Longrightarrow> calls w' = calls w @ [CConnect c b]"
    and close_call: "calls (my_close M c w) = calls w @ [CClose c]"
    and query_call: "my_real_query M c sql w = (r, w') \<Longrightarrow> calls w' = calls w @ [CQuery c sql r (my_errno M c w')]"
    and sleep_call: "calls (my_usleep M n w) = calls w @ [CSleep n]"
begin

text \<open>A connection that cannot be set up is closed again.\<close>

lemma bytetrade_init_calls:
  assumes "mysql_bytetrade_init M p w = (r, w')"
  shows "\<exists>cs. calls w' = calls w @ cs \<and> queries cs = [] \<and>
     (case r of None \<Rightarrow> closed cs = created cs | Some c \<Rightarrow> created cs = [c] \<and> closed cs = [])"
  using assms
  by (auto simp: mysql_bytetrade_init_def Let_def close_call split: prod.splits option.splits if_splits
      dest!: init_call reconnect_call charset_call connect_call)

definition only_queries :: "'w \<Rightarrow> 'w \<Rightarrow> ('c \<times> string \<times> int \<times> nat) list \<Rightarrow> bool" where
  "only_queries w w' qs \<longleftrightarrow> (\<exists>cs. calls w' = calls w @ cs \<and> queries cs = qs \<and> created cs = [] \<and> closed cs = [])"

lemma only_queries_trans: "only_queries w w1 qs \<Longrightarrow> only_queries w1 w2 qs' \<Longrightarrow> only_queries w w2 (qs @ qs')"
  unfolding only_queries_def by (elim exE conjE) (rule_tac x = "cs @ csa" in exI, simp)

lemma attempt_calls:
  "my_real_query M c sql w = (ret, w1) \<Longrightarrow> only_queries w w1 [(c, sql, ret, my_errno M c w1)]"
  "my_real_query M c sql w = (ret, w1) \<Longrightarrow> only_queries w (my_usleep M n w1) [(c, sql, ret, my_errno M c w1)]"
  by (auto simp: only_queries_def sleep_call dest!: query_call)

text \<open>The loop that executes a statement, started \<open>k\<close> rounds before it is settled.\<close>

lemma rounds_calls:
  "settled_in_round M c sql w w' k \<Longrightarrow> \<exists>rs. retried rs \<and> only_queries w w' (map (\<lambda>r. (c, sql, r)) rs)"
proof (induction k arbitrary: w)
  case 0
  obtain ret w1 where q: "my_real_query M c sql w = (ret, w1)" by fastforce
  then show ?case using 0 attempt_calls(1) [OF q]
    by (intro exI [of _ "[(ret, my_errno M c w1)]"]) (simp add: settled_in_round_def settled_def settles_def)
next
  case (Suc k)
  obtain ret w1 where q: "my_real_query M c sql w = (ret, w1)" by fastforce
  have n: "\<not> settled M c sql w" using Suc.prems by (auto simp: settled_in_round_def dest!: spec [of _ 0])
  have "\<forall>i<k. \<not> settled M c sql ((attempt M c sql ^^ i) (attempt M c sql w))"
    using Suc.prems unfolding settled_in_round_def by (auto simp: funpow_swap1 dest: spec [of _ "Suc _"])
  then have "settled_in_round M c sql (attempt M c sql w) w' k"
    using Suc.prems by (simp add: settled_in_round_def funpow_swap1)
  from Suc.IH [OF this] obtain rs where rs: "retried rs"
    "only_queries (attempt M c sql w) w' (map (\<lambda>r. (c, sql, r)) rs)" by blast
  have "only_queries w (attempt M c sql w) [(c, sql, ret, my_errno M c w1)]" using attempt_calls(2) [OF q] q by (simp add: attempt_def)
  note only_queries_trans [OF this rs(2)]
  moreover have "retried ((ret, my_errno M c w1) # rs)" using n q rs(1) by (cases rs) (simp_all add: settled_def settles_def)
  ultimately show ?case by (intro exI [of _ "(ret, my_errno M c w1) # rs"]) simp
qed

lemma exec_tasks_calls:
  "exec_tasks M c stmt ts w = Some w' \<Longrightarrow>
   \<exists>rss. length rss = length ts \<and> (\<forall>rs \<in> set rss. retried rs) \<and>
     only_queries w w' (concat (map2 (\<lambda>t rs. map (\<lambda>r. (c, stmt t, r)) rs) ts rss))"
proof (induction ts arbitrary: w)
  case Nil
  then show ?case by (auto simp: only_queries_def)
next
  case (Cons t ts)
  then obtain w1 where w1: "exec_sql M c (stmt t) w = Some w1" "exec_tasks M c stmt ts w1 = Some w'"
    by (auto split: option.splits)
  from exec_sql_rounds [OF w1(1)] rounds_calls obtain rs where
    rs: "retried rs" "only_queries w w1 (map (\<lambda>r. (c, stmt t, r)) rs)" by blast
  from Cons.IH [OF w1(2)] obtain rss where "length rss = length ts" "\<forall>rs \<in> set rss. retried rs"
    "only_queries w1 w' (concat (map2 (\<lambda>t rs. map (\<lambda>r. (c, stmt t, r)) rs) ts rss))" by blast
  with rs only_queries_trans [OF rs(2)] show ?case by (intro exI [of _ "rs # rss"]) simp
qed

lemma get_mysql_conn_calls:
  assumes "get_mysql_conn Q M flag p s = Inr (conn, flag', s1)"
  shows "\<exists>cs. calls (my_world s1) = calls (my_world s) @ cs \<and> queries cs = [] \<and>
     (case conn of None \<Rightarrow> flag' = flag \<and> closed cs = created cs | Some c \<Rightarrow> flag' = flag \<and> cs = [] \<or> flag' = 1 \<and> created cs = [c] \<and> closed cs = [])"
  using assms
  by (auto simp: get_mysql_conn_def split: option.splits prod.splits elim!: res_bind_InrE dest!: bytetrade_init_calls)

lemma release_mysql_conn_calls:
  assumes "release_mysql_conn Q M (Some c) flag s = Inr s'"
  shows "calls (my_world s') = calls (my_world s) @ (if flag = 1 then [CClose c] else [])"
  using assms by (auto simp: release_mysql_conn_def close_call split: if_splits elim!: res_bind_InrE)

text \<open>A whole run of a consumer.\<close>

lemma consume_calls:
  assumes "consume Q M stmt no_conn iter s = Some (Inr (ret, s'))" "no_conn \<noteq> 0"
  shows "\<exists>cs. calls (my_world s') = calls (my_world s) @ cs \<and> closed cs = created cs \<and>
     (if ret = 0 then \<exists>c rss. length rss = length iter \<and> (\<forall>rs \<in> set rss. retried rs) \<and>
         queries cs = concat (map2 (\<lambda>t rs. map (\<lambda>r. (c, stmt t, r)) rs) iter rss)
      else ret = no_conn \<and> iter \<noteq> [] \<and> queries cs = [])"
proof (cases iter)
  case Nil
  then show ?thesis using assms by (auto simp: consume_def release_mysql_conn_def)
next
  case (Cons t ts)
  obtain conn flag s1 where g: "get_mysql_conn Q M 0 (task_params t) s = Inr (conn, flag, s1)"
    using assms(1) Cons by (auto simp: consume_def split: sum.splits)
  from get_mysql_conn_calls [OF g] obtain cs1 where cs1: "calls (my_world s1) = calls (my_world s) @ cs1" "queries cs1 = []"
    "case conn of None \<Rightarrow> flag = 0 \<and> closed cs1 = created cs1 | Some c \<Rightarrow> flag = 0 \<and> cs1 = [] \<or> flag = 1 \<and> created cs1 = [c] \<and> closed cs1 = []"
    by blast
  show ?thesis
  proof (cases conn)
    case None
    then show ?thesis using assms Cons g cs1 by (auto simp: consume_def)
  next
    case (Some c)
    then obtain w where w: "exec_tasks M c stmt iter (my_world s1) = Some w" and ret: "ret = 0"
      and rel: "release_mysql_conn Q M (Some c) flag (s1\<lparr>my_world := w\<rparr>) = Inr s'"
      using assms(1) Cons g by (auto simp: consume_def res_simps split: option.splits sum.splits)
    from exec_tasks_calls [OF w] obtain rss cs2 where rss: "length rss = length iter" "\<forall>rs \<in> set rss. retried rs"
      and cs2: "calls w = calls (my_world s1) @ cs2" "created cs2 = []" "closed cs2 = []"
        "queries cs2 = concat (map2 (\<lambda>t rs. map (\<lambda>r. (c, stmt t, r)) rs) iter rss)"
      unfolding only_queries_def by blast
    let ?cs = "cs1 @ cs2 @ (if flag = 1 then [CClose c] else [])"
    have "calls (my_world s') = calls (my_world s) @ ?cs" using release_mysql_conn_calls [OF rel] cs1(1) cs2(1) by simp
    moreover have "closed ?cs = created ?cs" "queries ?cs = queries cs2" using cs1 cs2(2,3) Some by auto
    ultimately show ?thesis using rss ret cs2(4) by (intro exI [of _ ?cs]) auto
  qed
qed

end

interpretation traced: mysql_trace "traced M" snd for M :: "('c, 'w) mysql_ops"
  by unfold_locales (auto simp: traced_def split: prod.splits)

text \<open>The statements that were settled are those of the tasks, in their order.\<close>

lemma settled_statements:
  assumes "length rss = length ts" "\<forall>rs \<in> set rss. retried rs"
  shows "map (fst \<circ> snd) (filter (\<lambda>q. settles (snd (snd q))) (concat (map2 (\<lambda>t rs. map (\<lambda>r. (c, stmt t, r)) rs) ts rss))) = map stmt ts"
  using assms
proof (induction rss ts rule: list_induct2)
  case (Cons rs rss t ts)
  from Cons.prems retried_once obtain x where "filter settles rs = [x]" by fastforce
  then have "filter (\<lambda>q. settles (snd (snd q))) (map (\<lambda>r. (c, stmt t, r)) rs) = [(c, stmt t, x)]"
    by (simp add: filter_map comp_def split_beta)
  then show ?case using Cons by simp
qed simp

section \<open>The pool keeps its connections\<close>

locale conn_pool = concurrent_bag Q ok items
  for Q :: "('q, 'c option) cq_ops" and ok items +
  fixes M :: "('c, 'w) mysql_ops"
begin

definition pool_ok :: "('q, 'w) my_state \<Rightarrow> bool" where
  "pool_ok s \<longleftrightarrow> ok (my_pool s) \<and> None \<notin># items (my_pool s)"

text \<open>A connection comes from the pool with the flag as it was, or is new and flagged 1.\<close>

lemma get_mysql_conn_result:
  assumes "pool_ok s"
  shows "\<exists>conn flag' s'. get_mysql_conn Q M flag p s = Inr (conn, flag', s') \<and> pool_ok s' \<and>
     ((\<exists>c. conn = Some c \<and> flag' = flag \<and> items (my_pool s) = add_mset (Some c) (items (my_pool s')) \<and> my_world s' = my_world s) \<or>
      (items (my_pool s) = {#} \<and> items (my_pool s') = {#} \<and> (conn, my_world s') = mysql_bytetrade_init M p (my_world s) \<and>
       flag' = (if conn = None then flag else 1)))"
proof -
  obtain r q' where r: "cq_try_dequeue Q (my_pool s) = Inr (r, q')" "ok q'"
    "case r of None \<Rightarrow> items (my_pool s) = {#} \<and> items q' = {#} | Some x \<Rightarrow> items (my_pool s) = add_mset x (items q')"
    using try_dequeue [of "my_pool s"] assms by (auto simp: pool_ok_def)
  obtain conn w where w: "mysql_bytetrade_init M p (my_world s) = (conn, w)" by fastforce
  show ?thesis
  proof (cases r)
    case None
    with r w show ?thesis by (cases conn) (simp_all add: get_mysql_conn_def pool_ok_def)
  next
    case (Some x)
    with r assms obtain c where "x = Some c" by (cases x) (auto simp: pool_ok_def)
    with Some r assms show ?thesis by (auto simp: get_mysql_conn_def pool_ok_def)
  qed
qed

lemma release_mysql_conn_result:
  assumes "pool_ok s"
  shows "\<exists>s'. release_mysql_conn Q M conn flag s = Inr s' \<and> pool_ok s' \<and>
     (items (my_pool s') = items (my_pool s) \<or>
      (\<exists>c. conn = Some c \<and> flag = 0 \<and> items (my_pool s') = add_mset (Some c) (items (my_pool s))))"
proof (cases conn)
  case (Some c)
  obtain b q' where "cq_enqueue Q (Some c) (my_pool s) = Inr (b, q')" "ok q'"
    "items q' = (if b then add_mset (Some c) (items (my_pool s)) else items (my_pool s))"
    using enqueue [of "my_pool s" "Some c"] assms by (auto simp: pool_ok_def)
  with Some assms show ?thesis by (auto simp: release_mysql_conn_def pool_ok_def)
qed (use assms in \<open>simp add: release_mysql_conn_def\<close>)

lemma release_accepted:
  assumes "pool_ok s" "release_mysql_conn Q M (Some c) 0 s = Inr s'"
    and "\<forall>c q q' b. ok q \<longrightarrow> cq_enqueue Q (Some c) q = Inr (b, q') \<longrightarrow> b"
  shows "items (my_pool s') = add_mset (Some c) (items (my_pool s))"
proof -
  obtain b q' where e: "cq_enqueue Q (Some c) (my_pool s) = Inr (b, q')"
    "items q' = (if b then add_mset (Some c) (items (my_pool s)) else items (my_pool s))"
    using enqueue [of "my_pool s" "Some c"] assms(1) by (auto simp: pool_ok_def)
  have "ok (my_pool s)" using assms(1) by (simp add: pool_ok_def)
  with e(1) assms(3) have "b" by blast
  with e assms(2) show ?thesis by (auto simp: release_mysql_conn_def)
qed

text \<open>A connection that was taken and given back leaves the pool as it was, or, when the pool could
  not take it back, without it.\<close>

lemma consume_pool:
  assumes "pool_ok s" "consume Q M stmt no_conn iter s = Some r"
  shows "\<exists>ret s'. r = Inr (ret, s') \<and> pool_ok s' \<and> items (my_pool s') \<subseteq># items (my_pool s) \<and>
     ((\<forall>c q q' b. ok q \<longrightarrow> cq_enqueue Q (Some c) q = Inr (b, q') \<longrightarrow> b) \<longrightarrow> items (my_pool s') = items (my_pool s))"
proof (cases iter)
  case Nil
  then show ?thesis using assms by (auto simp: consume_def release_mysql_conn_def)
next
  case (Cons t ts)
  obtain conn flag s1 where g: "get_mysql_conn Q M 0 (task_params t) s = Inr (conn, flag, s1)" "pool_ok s1"
    "(\<exists>c. conn = Some c \<and> flag = 0 \<and> items (my_pool s) = add_mset (Some c) (items (my_pool s1))) \<or>
      (items (my_pool s) = {#} \<and> items (my_pool s1) = {#} \<and> flag = (if conn = None then 0 else 1))"
    using get_mysql_conn_result [OF assms(1), of 0 "task_params t"] by blast
  show ?thesis
  proof (cases conn)
    case None
    with g Cons assms(2) show ?thesis by (auto simp: consume_def)
  next
    case (Some c)
    with g(1) Cons assms(2) obtain w where w: "exec_tasks M c stmt iter (my_world s1) = Some w"
      and r: "r = res_bind (release_mysql_conn Q M (Some c) flag (s1\<lparr>my_world := w\<rparr>)) (\<lambda>s2. Inr (0, s2))"
      by (auto simp: consume_def split: option.splits)
    have ok1: "pool_ok (s1\<lparr>my_world := w\<rparr>)" using g(2) by (simp add: pool_ok_def)
    obtain s2 where s2: "release_mysql_conn Q M (Some c) flag (s1\<lparr>my_world := w\<rparr>) = Inr s2" "pool_ok s2"
      "items (my_pool s2) = items (my_pool s1) \<or> (flag = 0 \<and> items (my_pool s2) = add_mset (Some c) (items (my_pool s1)))"
      using release_mysql_conn_result [OF ok1, of "Some c" flag] by auto
    have "items (my_pool s2) = items (my_pool s)"
      if "\<forall>c q q' b. ok q \<longrightarrow> cq_enqueue Q (Some c) q = Inr (b, q') \<longrightarrow> b"
    proof (cases "flag = 0")
      case True
      then have "items (my_pool s2) = add_mset (Some c) (items (my_pool s1))"
        using release_accepted [OF ok1, of c s2] s2(1) that by simp
      with g(3) Some True show ?thesis by auto
    qed (use g(3) Some s2(3) in auto)
    moreover have "items (my_pool s2) \<subseteq># items (my_pool s)"
      using g(3) Some s2(3) by (auto simp: subseteq_mset_def)
    ultimately show ?thesis using r s2(1,2) by simp
  qed
qed

end

interpretation list_pool: conn_pool "list_bag cap" "\<lambda>_. True" mset M for cap and M :: "('c, 'w) mysql_ops"
  by unfold_locales

section \<open>The batches\<close>

text \<open>The rows added under a type, in order.\<close>

definition rows_of :: "string \<Rightarrow> (string \<times> string) list \<Rightarrow> string list" where
  "rows_of type adds = map snd (filter (\<lambda>(t, _). t = type) adds)"

lemma rows_of_simps [simp]:
  "rows_of type [] = []"
  "rows_of type (adds @ [(t, v)]) = rows_of type adds @ (if t = type then [v] else [])"
  by (simp_all add: rows_of_def)

lemma rows_of_empty_iff: "rows_of type adds = [] \<longleftrightarrow> type \<notin> fst ` set adds"
  by (force simp: rows_of_def filter_empty_conv)

lemma mysql_task_add_ok: "smap_ok m \<Longrightarrow> smap_ok (mysql_task_add t v m)"
  by (simp add: mysql_task_add_def split: option.split)

lemma adds_collected:
  defines "m \<equiv> \<lambda>adds. fold (\<lambda>(t, v). mysql_task_add t v) adds []"
  shows "smap_ok (m adds)"
    and "smap_find (m adds) type = (if rows_of type adds = [] then None else Some (join '','' (rows_of type adds)))"
proof (induction adds arbitrary: type rule: rev_induct)
  case Nil
  { case 1 then show ?case by (simp add: m_def) }
  { case 2 then show ?case by (simp add: m_def) }
next
  case (snoc tv adds)
  obtain t v where tv: "tv = (t, v)" by fastforce
  have step: "m (adds @ [tv]) = mysql_task_add t v (m adds)" by (simp add: m_def tv)
  { case 1 then show ?case using snoc.IH(1) by (simp add: step mysql_task_add_ok) }
  { case 2 show ?case using snoc.IH(2) [of t] snoc.IH(2) [of type]
      by (auto simp: step [unfolded tv] mysql_task_add_def tv split: option.splits) }
qed

text \<open>A sorted association list is determined by its lookups.\<close>

lemma smap_map: "smap_ok m \<Longrightarrow> m = map (\<lambda>k. (k, the (smap_find m k))) (sorted_list_of_set (fst ` set m))"
proof -
  assume ok: "smap_ok m"
  then have "sorted_list_of_set (fst ` set m) = map fst m"
    using sorted_list_of_set.idem_if_sorted_distinct [of "map fst m"] by (simp add: smap_ok_def strict_sorted_iff)
  then show ?thesis using smap_ok_distinct [OF ok]
    by (simp add: smap_find_map_of comp_def) (rule map_idI [symmetric], auto)
qed

lemma smap_statements:
  assumes "smap_ok m"
  shows "map (\<lambda>(t, v). t @ v) m = map (\<lambda>k. k @ the (smap_find m k)) (sorted_list_of_set (fst ` set m))"
proof -
  have "map (\<lambda>(t, v). t @ v) m = map (\<lambda>(t, v). t @ v) (map (\<lambda>k. (k, the (smap_find m k))) (sorted_list_of_set (fst ` set m)))"
    using smap_map [OF assms] by (rule arg_cong)
  then show ?thesis by (simp only: map_map comp_def split_beta fst_conv snd_conv)
qed

lemma keys_of_find: "fst ` set m = {k. smap_find m k \<noteq> None}"
  by (induction m) (auto split: if_splits)

lemma put_batch_tasks:
  "q_open q \<Longrightarrow> alloc_ok alloc \<Longrightarrow>
   map (\<lambda>t. mt_type t @ mt_value t) (eq_tasks (put_mysql_exe_queue_batch alloc t v p q)) =
   map (\<lambda>t. mt_type t @ mt_value t) (eq_tasks q) @ [t @ v]"
  "q_open (put_mysql_exe_queue_batch alloc t v p q) = q_open q"
  by (simp_all add: put_mysql_exe_queue_batch_def execute_options_tasks execute_options_open alloc_ok_def)

interpretation batch_sink: task_sink "\<lambda>(t, v). put_mysql_exe_queue_batch alloc t v p"
    "\<lambda>q. map (\<lambda>t. (mt_type t, mt_value t)) (eq_tasks q)" "\<lambda>q. q_open q \<and> alloc_ok alloc" for alloc p
  by unfold_locales
    (auto simp: put_mysql_exe_queue_batch_def execute_options_tasks execute_options_open alloc_ok_def split: prod.split)

section \<open>A server that drops the first queries\<close>

text \<open>A world for examples: the executed statements, how many queries still fail, and the last error.\<close>

type_synonym demo_world = "string list \<times> nat"

definition demo_mysql :: "(nat, demo_world) mysql_ops" where
  "demo_mysql =
     \<lparr>my_init = (\<lambda>w. (Some 1, w)), my_set_reconnect = (\<lambda>_ w. (0, w)), my_set_charset = (\<lambda>_ _ w. (0, w)),
      my_real_connect = (\<lambda>_ _ w. (True, w)), my_close = (\<lambda>_ w. w),
      my_real_query = (\<lambda>_ sql (log, fails). if fails = 0 then (0, (log @ [sql], 0)) else (1, (log, fails))),
      my_errno = (\<lambda>_ w. 2006), my_usleep = (\<lambda>_ (log, fails). (log, fails - 1))\<rparr>"

definition demo_task :: mysql_task where
  "demo_task = \<lparr>mt_type = ''INSERT INTO t VALUES '', mt_value = ''(1)'', mt_sql = [], mt_host = ''h'', mt_port = 3306,
     mt_user = [], mt_password = [], mt_name = [], mt_charset = []\<rparr>"

text \<open>The same server, with its calls recorded: a batch over a pooled connection, and one over a new connection.\<close>

lemma demo_traced_exec_sql:
  "exec_sql (traced demo_mysql) c sql ((log, 0), cs) = Some ((log @ [sql], 0), cs @ [CQuery c sql 0 2006])"
  "exec_sql (traced demo_mysql) c sql ((log, Suc n), cs) =
     exec_sql (traced demo_mysql) c sql ((log, n), cs @ [CQuery c sql 1 2006, CSleep 1000000])"
  by (subst exec_sql_unfold, simp add: settled_def attempt_def demo_mysql_def traced_def)+

lemma demo_traced_init:
  "mysql_bytetrade_init (traced demo_mysql) p (w, cs) = (Some 1, w, cs @ [CInit (Some 1), CReconnect 1 0, CCharset 1 0, CConnect 1 True])"
  "my_close (traced demo_mysql) c (w, cs) = (w, cs @ [CClose c])"
  by (simp_all add: mysql_bytetrade_init_def traced_def demo_mysql_def)

lemma demo_traced_batch:
  "mysql_queue_exe_batch (list_bag 4) (traced demo_mysql) [demo_task, demo_task\<lparr>mt_value := ''(2)''\<rparr>] \<lparr>my_pool = [Some 7], my_world = (([], 2), [])\<rparr> =
     Some (Inr (0, \<lparr>my_pool = [Some 7], my_world = (([''INSERT INTO t VALUES (1)'', ''INSERT INTO t VALUES (2)''], 0),
       [CQuery 7 ''INSERT INTO t VALUES (1)'' 1 2006, CSleep 1000000, CQuery 7 ''INSERT INTO t VALUES (1)'' 1 2006, CSleep 1000000,
        CQuery 7 ''INSERT INTO t VALUES (1)'' 0 2006, CQuery 7 ''INSERT INTO t VALUES (2)'' 0 2006])\<rparr>))"
  by (simp add: mysql_queue_exe_batch_def consume_def get_mysql_conn_def release_mysql_conn_def list_bag_def
      demo_traced_exec_sql numeral_2_eq_2 demo_task_def)

lemma demo_traced_open:
  "mysql_queue_exe_batch (list_bag 4) (traced demo_mysql) [demo_task] \<lparr>my_pool = [], my_world = (([], 0), [])\<rparr> =
     Some (Inr (0, \<lparr>my_pool = [], my_world = (([''INSERT INTO t VALUES (1)''], 0),
       [CInit (Some 1), CReconnect 1 0, CCharset 1 0, CConnect 1 True, CQuery 1 ''INSERT INTO t VALUES (1)'' 0 2006, CClose 1])\<rparr>))"
  by (simp add: mysql_queue_exe_batch_def consume_def get_mysql_conn_def demo_traced_init release_mysql_conn_def list_bag_def
      demo_traced_exec_sql demo_task_def)

section \<open>Properties\<close>

text \<open>C13: The consumer's \<^verbatim>\<open>while(1)\<close> loop ends exactly when the server settles the statement in some
  round: it accepts it, or refuses it as a duplicate.  As long as it does neither, the loop, and with
  it the execution queue, waits.\<close>

theorem retry_ends_iff:
  "(\<exists>w'. exec_sql M conn sql w = Some w') \<longleftrightarrow> (\<exists>k. settled M conn sql ((attempt M conn sql ^^ k) w))"
proof
  assume "\<exists>w'. exec_sql M conn sql w = Some w'"
  then show "\<exists>k. settled M conn sql ((attempt M conn sql ^^ k) w)"
    using exec_sql_rounds by (fastforce simp: settled_in_round_def)
qed (elim exE, rule exec_sql_after)

text \<open>C10: \<open>mysql_queue_exe_batch\<close> sends the statements of its tasks over one connection, in the order of the queue, each again
  and again until the server settles it (\<^verbatim>\<open>mysql_real_query\<close> returns 0 or the error is 1062, a duplicate), never
  again after that, and the next one not before: so the queries settled are exactly the statements of the
  tasks, each once and in order.  This is of every run that returns 0, whatever the client library
  answers; the only other result, 264, is of a run that got no connection and sent nothing.  Whether
  the server executed an attempt that failed is not known, so a statement may be executed more than once.\<close>

theorem batch_settled_once_in_order:
  assumes "mysql_queue_exe_batch Q (traced M) iter s = Some (Inr (ret, s'))"
  shows "\<exists>cs. snd (my_world s') = snd (my_world s) @ cs \<and>
     (if ret = 0 then
        (\<exists>c rss. length rss = length iter \<and> (\<forall>rs \<in> set rss. retried rs) \<and>
           queries cs = concat (map2 (\<lambda>t rs. map (\<lambda>r. (c, mt_type t @ mt_value t, r)) rs) iter rss)) \<and>
        map (fst \<circ> snd) (filter (\<lambda>q. settles (snd (snd q))) (queries cs)) = map (\<lambda>t. mt_type t @ mt_value t) iter
      else ret = 264 \<and> iter \<noteq> [] \<and> queries cs = [])"
proof -
  from traced.consume_calls [OF assms [unfolded mysql_queue_exe_batch_def]] obtain cs where
    "snd (my_world s') = snd (my_world s) @ cs"
    "if ret = 0 then \<exists>c rss. length rss = length iter \<and> (\<forall>rs \<in> set rss. retried rs) \<and>
         queries cs = concat (map2 (\<lambda>t rs. map (\<lambda>r. (c, mt_type t @ mt_value t, r)) rs) iter rss)
      else ret = 264 \<and> iter \<noteq> [] \<and> queries cs = []" by auto
  moreover from this(2) have "map (fst \<circ> snd) (filter (\<lambda>q. settles (snd (snd q))) (queries cs)) = map (\<lambda>t. mt_type t @ mt_value t) iter"
    if "ret = 0" using that settled_statements [where stmt = "\<lambda>t. mt_type t @ mt_value t"] by auto
  ultimately show ?thesis by (intro exI [of _ cs]) auto
qed

theorem batch_settled_once_in_order_witness:
  "\<exists>s'. mysql_queue_exe_batch (list_bag 4) (traced demo_mysql) [demo_task, demo_task\<lparr>mt_value := ''(2)''\<rparr>]
       \<lparr>my_pool = [Some 7], my_world = (([], 2), [])\<rparr> = Some (Inr (0, s')) \<and>
     length (queries (snd (my_world s'))) = 4 \<and>
     map (fst \<circ> snd) (filter (\<lambda>q. settles (snd (snd q))) (queries (snd (my_world s')))) =
       [''INSERT INTO t VALUES (1)'', ''INSERT INTO t VALUES (2)'']"
proof -
  obtain s' where s': "mysql_queue_exe_batch (list_bag 4) (traced demo_mysql) [demo_task, demo_task\<lparr>mt_value := ''(2)''\<rparr>]
      \<lparr>my_pool = [Some 7], my_world = (([], 2), [])\<rparr> = Some (Inr (0, s'))"
    and n: "length (queries (snd (my_world s'))) = 4"
    by (rule that [OF demo_traced_batch]) simp
  from batch_settled_once_in_order [OF s'] have
    "map (fst \<circ> snd) (filter (\<lambda>q. settles (snd (snd q))) (queries (snd (my_world s')))) = [''INSERT INTO t VALUES (1)'', ''INSERT INTO t VALUES (2)'']"
    by (simp add: demo_task_def)
  then show ?thesis by (intro exI [of _ s'] conjI s' n)
qed

text \<open>C11: A run of the consumer keeps the connections.  It returns no fault; the pool never holds a null connection, what
  it holds afterwards it held before, and it is exactly the same bag unless the queue had no memory
  to take a connection back.  The connections that the run closes are exactly those that it created: one
  that was opened because the pool was empty is closed in the end, one that could not be set up is closed
  at once, and none that came from the pool is closed.\<close>

theorem consumer_returns_connection:
  assumes "concurrent_bag Q ok items" "ok (my_pool s)" "None \<notin># items (my_pool s)"
    and "mysql_queue_exe_batch Q (traced M) iter s = Some r"
  shows "\<exists>ret s' cs. r = Inr (ret, s') \<and> ok (my_pool s') \<and> None \<notin># items (my_pool s') \<and>
     items (my_pool s') \<subseteq># items (my_pool s) \<and>
     ((\<forall>c q q' b. ok q \<longrightarrow> cq_enqueue Q (Some c) q = Inr (b, q') \<longrightarrow> b) \<longrightarrow> items (my_pool s') = items (my_pool s)) \<and>
     snd (my_world s') = snd (my_world s) @ cs \<and> closed cs = created cs"
proof -
  have pool: "conn_pool Q ok items" using assms(1) by (simp add: conn_pool_def)
  have "conn_pool.pool_ok ok items s" using assms(2,3) by (simp add: conn_pool.pool_ok_def [OF pool])
  from conn_pool.consume_pool [OF pool this assms(4) [unfolded mysql_queue_exe_batch_def]]
  obtain ret s' where r: "r = Inr (ret, s')" and p: "ok (my_pool s')" "None \<notin># items (my_pool s')" "items (my_pool s') \<subseteq># items (my_pool s)"
    "(\<forall>c q q' b. ok q \<longrightarrow> cq_enqueue Q (Some c) q = Inr (b, q') \<longrightarrow> b) \<longrightarrow> items (my_pool s') = items (my_pool s)"
    unfolding conn_pool.pool_ok_def [OF pool] by blast
  obtain cs where "snd (my_world s') = snd (my_world s) @ cs" "closed cs = created cs"
    using traced.consume_calls [OF assms(4) [unfolded mysql_queue_exe_batch_def r]] by auto
  with r p show ?thesis by blast
qed

theorem consumer_returns_connection_witness:
  "(\<exists>ret s'. mysql_queue_exe_batch (list_bag 4) (traced demo_mysql) [demo_task, demo_task\<lparr>mt_value := ''(2)''\<rparr>]
      \<lparr>my_pool = [Some 7], my_world = (([], 2), [])\<rparr> = Some (Inr (ret, s')) \<and> mset (my_pool s') \<subseteq># {#Some 7#} \<and> closed (snd (my_world s')) = []) \<and>
   (\<exists>ret s'. mysql_queue_exe_batch (list_bag 4) (traced demo_mysql) [demo_task] \<lparr>my_pool = [], my_world = (([], 0), [])\<rparr> = Some (Inr (ret, s')) \<and>
      my_pool s' = [] \<and> created (snd (my_world s')) = [1] \<and> closed (snd (my_world s')) = [1])"
proof
  show "\<exists>ret s'. mysql_queue_exe_batch (list_bag 4) (traced demo_mysql) [demo_task, demo_task\<lparr>mt_value := ''(2)''\<rparr>]
      \<lparr>my_pool = [Some 7], my_world = (([], 2), [])\<rparr> = Some (Inr (ret, s')) \<and> mset (my_pool s') \<subseteq># {#Some 7#} \<and> closed (snd (my_world s')) = []"
    using consumer_returns_connection [OF list_bag.concurrent_bag_axioms [of 4] TrueI _ demo_traced_batch] by (simp add: demo_traced_batch)
  show "\<exists>ret s'. mysql_queue_exe_batch (list_bag 4) (traced demo_mysql) [demo_task] \<lparr>my_pool = [], my_world = (([], 0), [])\<rparr> = Some (Inr (ret, s')) \<and>
      my_pool s' = [] \<and> created (snd (my_world s')) = [1] \<and> closed (snd (my_world s')) = [1]"
    using consumer_returns_connection [OF list_bag.concurrent_bag_axioms [of 4] TrueI _ demo_traced_open] by (simp add: demo_traced_open)
qed



end
