(* ===== verification/Torrent.thy ===== *)
theory Torrent
  imports TorrentDb MysqlQueue Chain
begin

text \<open>
  \<^verbatim>\<open>service/torrent_server/ts_config.cpp\<close> and \<^verbatim>\<open>torrent.cpp\<close>: the table of assets, the rows that
  mirror torrents and payments into MySQL, and opening and closing the databases.  Parameters: the
  JSON library jsonxx (\<open>jsonxx_ops\<close>; its \<^verbatim>\<open>get<T>\<close> asserts that the value is there, so \<open>None\<close> is a
  failed assertion), the decimal library (\<open>mpd_ops\<close>), \<open>share_type\<close> and the clock.  Numbers leave
  jsonxx as the integer type they are assigned to.
\<close>

section \<open>Assets\<close>

record ('o, 'a) jsonxx_ops =
  jx_parse :: "string \<Rightarrow> 'o"
  jx_get_array :: "'o \<Rightarrow> string \<Rightarrow> 'a option"
  jx_array_size :: "'a \<Rightarrow> nat"
  jx_get_object_at :: "'a \<Rightarrow> nat \<Rightarrow> 'o option"
  jx_get_string :: "'o \<Rightarrow> string \<Rightarrow> string option"
  jx_get_int :: "'o \<Rightarrow> string \<Rightarrow> int option"
  jx_get_u64 :: "'o \<Rightarrow> string \<Rightarrow> u64 option"

record simple_asset =
  as_id :: int
  as_symbol :: string
  as_chain_contract_address :: string
  as_chain_type :: int
  as_base_precision :: u64
  as_min_transfer_amount :: u64

type_synonym asset_map = "(int, simple_asset) smap"

definition get_asset_by_id :: "asset_map \<Rightarrow> int \<Rightarrow> simple_asset option" where
  "get_asset_by_id assets ident = smap_find assets ident"

definition asserted :: "'a option \<Rightarrow> 'a res" where
  "asserted x = (case x of None \<Rightarrow> Inl AssertFailed | Some v \<Rightarrow> Inr v)"

definition read_asset :: "('o, 'a) jsonxx_ops \<Rightarrow> 'o \<Rightarrow> simple_asset res" where
  "read_asset J coin =
     res_bind (asserted (jx_get_int J coin ''id'')) (\<lambda>ident.
     res_bind (asserted (jx_get_string J coin ''symbol'')) (\<lambda>symbol.
       let address = (case jx_get_string J coin ''chain_contract_address'' of Some a \<Rightarrow> a | None \<Rightarrow> []);
           chain_type = (case jx_get_int J coin ''chain_type'' of Some c \<Rightarrow> c | None \<Rightarrow> 0)
       in res_bind (asserted (jx_get_u64 J coin ''base_precision'')) (\<lambda>base_precision.
          res_bind (asserted (jx_get_u64 J coin ''min_trade_amount'')) (\<lambda>min_amount.
            Inr \<lparr>as_id = ident, as_symbol = symbol, as_chain_contract_address = address, as_chain_type = chain_type,
                 as_base_precision = base_precision, as_min_transfer_amount = min_amount\<rparr>))))"

fun asset_loop :: "('o, 'a) jsonxx_ops \<Rightarrow> 'o option list \<Rightarrow> asset_map \<Rightarrow> asset_map res" where
  "asset_loop J [] assets = Inr assets"
| "asset_loop J (elem # rest) assets =
     res_bind (asserted elem) (\<lambda>coin.
     res_bind (read_asset J coin) (\<lambda>a. asset_loop J rest (smap_put assets (as_id a) a)))"

text \<open>\<open>code\<close> and \<open>body\<close> are the response of \<^verbatim>\<open>get_asset_list()\<close>; a second call is only printed.\<close>

definition init_asset :: "('o, 'a) jsonxx_ops \<Rightarrow> int \<Rightarrow> string \<Rightarrow> asset_map \<Rightarrow> (int \<times> asset_map) res" where
  "init_asset J code body assets =
     (if code \<noteq> 200 then Inr (1, assets)
      else let o' = jx_parse J body
           in res_bind (asserted (jx_get_array J o' ''result'')) (\<lambda>result.
              res_bind (asset_loop J (map (jx_get_object_at J result) [0..<jx_array_size J result]) assets) (\<lambda>assets'.
                Inr (0, assets'))))"

section \<open>Rows for MySQL\<close>

record ('sh, 'm) mpd_ops =
  mp_decimal :: "string \<Rightarrow> nat \<Rightarrow> 'm"
  mp_devide :: "'sh \<Rightarrow> u64 \<Rightarrow> nat \<Rightarrow> 'm"
  mp_mul :: "'m \<Rightarrow> u64 \<Rightarrow> nat \<Rightarrow> 'sh"
  mp_div :: "'m \<Rightarrow> 'm \<Rightarrow> 'm"
  mp_to_sci :: "'m \<Rightarrow> string"

text \<open>
  \<open>te_now\<close> is \<^verbatim>\<open>current_timestamp()\<close> printed by \<^verbatim>\<open>%f\<close>, as a function of the batches at the time of
  the call; the two orders are those in which protobuf iterates over its maps.
\<close>

record ('sh, 'm) torrent_env =
  te_share :: "'sh share_ops"
  te_mpd :: "('sh, 'm) mpd_ops"
  te_assets :: asset_map
  te_now :: "mysql_batches \<Rightarrow> string"
  te_pieces_order :: "(string, u32) smap \<Rightarrow> (string \<times> u32) list"
  te_trx_order :: "(string, string) smap \<Rightarrow> (string \<times> string) list"

abbreviation quoted :: "string \<Rightarrow> string" where
  "quoted s \<equiv> [CHR 0x27] @ c_str s @ [CHR 0x27]"

definition sql_append_mpd :: "('sh, 'm) mpd_ops \<Rightarrow> string \<Rightarrow> 'm \<Rightarrow> bool \<Rightarrow> string" where
  "sql_append_mpd P sql val comma =
     (let str = mp_to_sci P val;
          sql' = sql @ quoted str
      in if comma then sql' @ '', '' else sql')"

definition itos :: "u32 \<Rightarrow> string" where
  "itos a = fmt_d a"

definition amount_mpd :: "('sh, 'm) torrent_env \<Rightarrow> simple_asset \<Rightarrow> string \<Rightarrow> 'm res" where
  "amount_mpd E as amount =
     res_bind (nothrow (sh_of_string (te_share E) amount)) (\<lambda>sh.
       Inr (mp_devide (te_mpd E) sh (as_base_precision as) 10))"

definition torrent_type :: string where
  "torrent_type = ''REPLACE INTO `torrent` (`id`, `transaction_id`, `time`,`create_block`,`last_modify`, `user_id`, `asset`, `percent`,`pay_times`,`finish_times`, `is_create`, `balance`) VALUES ''"

definition torrent_row :: "('sh, 'm) torrent_env \<Rightarrow> string \<Rightarrow> torrent \<Rightarrow> 'm \<Rightarrow> string" where
  "torrent_row E now b balance =
     (let val = ''('' @ quoted (t_id b) @ '', '' @ quoted (t_transaction_id b) @ '', '' @ now @ '','' @
                fmt_lu (t_create_block b) @ '','' @ fmt_lu (t_last_modify b) @ '', '' @ quoted (t_user_id b) @ '', '' @
                fmt_d (t_asset b) @ '', '' @ fmt_d (t_percent b) @ '', '' @ fmt_d (t_pay_times b) @ '','' @
                fmt_d (t_finish_times b) @ '','' @ fmt_d 1 @ '', ''
      in sql_append_mpd (te_mpd E) val balance False @ '')'')"

definition append_torrent_create ::
  "('sh, 'm) torrent_env \<Rightarrow> torrent \<Rightarrow> mysql_batches \<Rightarrow> (int \<times> mysql_batches) res" where
  "append_torrent_create E b g_mysql_task =
     (case get_asset_by_id (te_assets E) (sint (t_asset b)) of
        None \<Rightarrow> Inr (- 144, g_mysql_task)
      | Some as \<Rightarrow>
          res_bind (amount_mpd E as (t_balance b)) (\<lambda>balance.
            let val = torrent_row E (te_now E g_mysql_task) b balance
            in Inr (0, mysql_task_add torrent_type val g_mysql_task)))"

text \<open>The loops that print a protobuf map: \<open>cnt\<close> counts the entries printed so far.\<close>

fun pairs_loop :: "(string \<times> 'v) list \<Rightarrow> ('v \<Rightarrow> string) \<Rightarrow> nat \<Rightarrow> string \<Rightarrow> nat \<times> string" where
  "pairs_loop [] show_value cnt tmp = (cnt, tmp)"
| "pairs_loop ((k, v) # rest) show_value cnt tmp =
     (let tmp1 = (if cnt = 0 then ''['' else tmp @ '','')
      in pairs_loop rest show_value (cnt + 1) (tmp1 @ ''['' @ [CHR 0x22] @ k @ [CHR 0x22] @ '','' @ show_value v @ '']''))"

definition pairs_text :: "(string \<times> 'v) list \<Rightarrow> ('v \<Rightarrow> string) \<Rightarrow> string" where
  "pairs_text entries show_value =
     (let (cnt, tmp) = pairs_loop entries show_value 0 [] in if cnt \<noteq> 0 then tmp @ '']'' else ''[]'')"

definition payment_type :: string where
  "payment_type = ''REPLACE INTO `torrent_payment` (`payment_id`, `torrent_id`, `time`, `create_time`,`selttement_time`,`refund_time`,  `user_id`, `asset`, `pieces`, `payed_pieces`, `sizes`,`percent`,`is_selttement`, `is_refund`, `sign_address`,`pay_pieces`,`selttement_trx_id`,`refund_trx_id`,`receipt_trx_id`,`increase_trx`,`author_amount`,`payment_amount`, `transfer_one_piece_amount`,`author_one_piece_amount`,`receiver_author_one_piece_amount`) VALUES ''"

definition payment_row_head :: "('sh, 'm) torrent_env \<Rightarrow> string \<Rightarrow> torrent_payment \<Rightarrow> string" where
  "payment_row_head E now b =
     (let tmp_pay_pieces = pairs_text (te_pieces_order E (p_pay_pieces b)) itos;
          tmp_increase_trx = pairs_text (te_trx_order E (p_increase_trx b)) (\<lambda>v. v)
      in ''('' @ quoted (p_payment_id b) @ '', '' @ quoted (p_torrent_id b) @ '', '' @ now @ '', '' @
         fmt_lu (p_create_time b) @ '', '' @ fmt_lu (p_selttement_time b) @ '', '' @ fmt_lu (p_refund_time b) @ '', '' @
         quoted (p_user_id b) @ '', '' @ fmt_d (p_asset b) @ '', '' @ fmt_d (p_pieces b) @ '', '' @
         fmt_d (p_payed_pieces b) @ '' , '' @ fmt_lu (p_sizes b) @ '','' @ fmt_d (p_percent b) @ '' ,'' @
         (if p_is_selttement b then ''1'' else ''0'') @ '' , '' @ (if p_is_refund b then ''1'' else ''0'') @ '' ,  '' @
         quoted (p_sign_address b) @ '','' @ quoted tmp_pay_pieces @ '','' @ quoted (p_selttement_trx_id b) @ '','' @
         quoted (p_refund_trx_id b) @ '','' @ quoted (p_receipt_trx_id b) @ '','' @ quoted tmp_increase_trx @ '','')"

definition append_torrent_payment ::
  "('sh, 'm) torrent_env \<Rightarrow> torrent_payment \<Rightarrow> mysql_batches \<Rightarrow> (int \<times> mysql_batches) res" where
  "append_torrent_payment E b g_mysql_task =
     (case get_asset_by_id (te_assets E) (sint (p_asset b)) of
        None \<Rightarrow> Inr (- 185, g_mysql_task)
      | Some as \<Rightarrow>
          res_bind (amount_mpd E as (p_author_amount b)) (\<lambda>author_amount.
          res_bind (amount_mpd E as (p_payment_amount b)) (\<lambda>payment_amount.
          res_bind (amount_mpd E as (p_transfer_one_piece_amount b)) (\<lambda>transfer_one_piece_amount.
          res_bind (amount_mpd E as (p_author_one_piece_amount b)) (\<lambda>author_one_piece_amount.
          res_bind (amount_mpd E as (p_receiver_author_one_piece_amount b)) (\<lambda>receiver_author_one_piece_amount.
            let P = te_mpd E;
                v0 = payment_row_head E (te_now E g_mysql_task) b;
                v1 = sql_append_mpd P v0 author_amount True;
                v2 = sql_append_mpd P v1 payment_amount True;
                v3 = sql_append_mpd P v2 transfer_one_piece_amount True;
                v4 = sql_append_mpd P v3 author_one_piece_amount True;
                v5 = sql_append_mpd P v4 receiver_author_one_piece_amount False @ '')''
            in Inr (0, mysql_task_add payment_type v5 g_mysql_task)))))))"

section \<open>Opening and closing the databases\<close>

text \<open>
  \<open>has_dir\<close> is \<^verbatim>\<open>access(\<dots>, F_OK) != -1\<close> and \<open>made\<close> whether \<^verbatim>\<open>mkdir\<close> succeeded, for the torrents'
  and for the accounts' directory; the account database is a library class, of which only whether
  it is open matters: \<open>acc_open\<close> is what its \<^verbatim>\<open>open\<close> returns.
\<close>

definition init_torrent_level_db ::
  "'db leveldb_ops \<Rightarrow> bool \<Rightarrow> bool \<Rightarrow> bool \<Rightarrow> bool \<Rightarrow> int \<Rightarrow> 'db torrent_database \<Rightarrow> int \<times> 'db torrent_database" where
  "init_torrent_level_db L has_dir made has_acc_dir made_acc acc_open s =
     (if \<not> has_dir \<and> \<not> made then (- 28, s)
      else let (ret, s') = td_open L ''./database/torrents'' s
           in if ret \<noteq> 0 then (- 35, s')
              else if \<not> has_acc_dir \<and> \<not> made_acc then (- 41, s')
              else if acc_open \<noteq> 0 then (- 48, s')
              else (0, s'))"

text \<open>The account database, which is closed next if it is open, is a library class.\<close>

definition fini_torrent_level_db :: "'db torrent_database \<Rightarrow> (int \<times> 'db torrent_database) res" where
  "fini_torrent_level_db s =
     (if td_is_open_q s then res_bind (td_close s) (\<lambda>s'. Inr (0, s')) else Inr (0, s))"

section \<open>What the loops print and load\<close>

definition pair_text :: "('v \<Rightarrow> string) \<Rightarrow> string \<times> 'v \<Rightarrow> string" where
  "pair_text show_value kv = ''['' @ [CHR 0x22] @ fst kv @ [CHR 0x22] @ '','' @ show_value (snd kv) @ '']''"

lemma pairs_loop_result:
  "pairs_loop es sv cnt tmp =
     (cnt + length es,
      if es = [] then tmp else (if cnt = 0 then ''['' else tmp @ '','') @ join '','' (map (pair_text sv) es))"
  by (induction es sv cnt tmp rule: pairs_loop.induct) (auto simp: pair_text_def Let_def join_Cons)

lemma asset_loop_result:
  "asset_loop J es m = Inr m' \<Longrightarrow>
   \<exists>as. map (\<lambda>e. res_bind (asserted e) (read_asset J)) es = map Inr as \<and> m' = fold (\<lambda>a m. smap_put m (as_id a) a) as m"
proof (induction es arbitrary: m)
  case (Cons e es)
  then obtain coin a where c: "asserted e = Inr coin" "read_asset J coin = Inr a"
    "asset_loop J es (smap_put m (as_id a) a) = Inr m'"
    by (auto elim!: res_bind_InrE)
  from Cons.IH [OF c(3)] obtain as where
    "map (\<lambda>e. res_bind (asserted e) (read_asset J)) es = map Inr as"
    "m' = fold (\<lambda>a m. smap_put m (as_id a) a) as (smap_put m (as_id a) a)" by blast
  with c(1,2) show ?case by (intro exI [of _ "a # as"]) simp
qed simp

lemma fold_put_find:
  "smap_find (fold (\<lambda>a m. smap_put m (key a) a) as m) k =
     (case map_of (rev (map (\<lambda>a. (key a, a)) as)) k of Some a \<Rightarrow> Some a | None \<Rightarrow> smap_find m k)"
  by (induction as arbitrary: m) (auto simp: map_add_def split: option.splits)

section \<open>Properties\<close>

text \<open>The hand-written loops that print the maps of a payment print a JSON array: for every list of
  entries, the empty one included, the text is the bracketed, comma-separated list of the pairs.\<close>

lemma pairs_text_is_array:
  "pairs_text es show_value = ''['' @ join '','' (map (pair_text show_value) es) @ '']''"
  by (cases es) (simp_all add: pairs_text_def pairs_loop_result)

text \<open>Loading the assets: when \<open>init_asset\<close> returns 0, the answer had an array of results, every
  element of it was an object with the required fields, and a lookup by id finds the last of them
  that has the id, or what was there before when none has it.\<close>

theorem assets_loaded:
  assumes "init_asset J code body assets = Inr (0, assets')"
  shows "\<exists>result as. jx_get_array J (jx_parse J body) ''result'' = Some result \<and> code = 200 \<and>
     map (\<lambda>i. res_bind (asserted (jx_get_object_at J result i)) (read_asset J)) [0..<jx_array_size J result] = map Inr as \<and>
     (\<forall>ident. get_asset_by_id assets' ident =
        (case map_of (rev (map (\<lambda>a. (as_id a, a)) as)) ident of Some a \<Rightarrow> Some a | None \<Rightarrow> get_asset_by_id assets ident))"
proof -
  obtain result where r: "code = 200" "jx_get_array J (jx_parse J body) ''result'' = Some result"
    "asset_loop J (map (jx_get_object_at J result) [0..<jx_array_size J result]) assets = Inr assets'"
    using assms by (auto simp: init_asset_def asserted_def Let_def split: if_split_asm option.split_asm elim!: res_bind_InrE)
  from asset_loop_result [OF r(3)] obtain as where
    "map (\<lambda>e. res_bind (asserted e) (read_asset J)) (map (jx_get_object_at J result) [0..<jx_array_size J result]) = map Inr as"
    "assets' = fold (\<lambda>a m. smap_put m (as_id a) a) as assets" by blast
  with r(1,2) show ?thesis
    by (intro exI [of _ result] exI [of _ as]) (simp add: get_asset_by_id_def fold_put_find comp_def cong: option.case_cong)
qed

text \<open>A parser for examples: every object is a coin with id 4.\<close>

definition demo_jsonxx :: "(unit, nat) jsonxx_ops" where
  "demo_jsonxx =
     \<lparr>jx_parse = (\<lambda>_. ()), jx_get_array = (\<lambda>_ _. Some 2), jx_array_size = (\<lambda>n. n), jx_get_object_at = (\<lambda>_ _. Some ()),
      jx_get_string = (\<lambda>_ k. if k = ''symbol'' then Some ''BTT'' else None), jx_get_int = (\<lambda>_ k. if k = ''id'' then Some 4 else None),
      jx_get_u64 = (\<lambda>_ _. Some 100)\<rparr>"

theorem assets_loaded_witness:
  "\<exists>assets' a. init_asset demo_jsonxx 200 [] [] = Inr (0, assets') \<and> get_asset_by_id assets' 4 = Some a \<and> as_symbol a = ''BTT''"
proof -
  obtain assets' where r: "init_asset demo_jsonxx 200 [] [] = Inr (0, assets')"
    by (simp add: init_asset_def demo_jsonxx_def asserted_def read_asset_def upt_rec)
  from assets_loaded [OF r] r show ?thesis
    by (auto simp: demo_jsonxx_def asserted_def read_asset_def upt_rec numeral_2_eq_2 map_eq_Cons_conv)
qed

end
