(* ===== verification/HandleBlock.thy ===== *)
theory HandleBlock
  imports Torrent
begin

text \<open>
  \<^verbatim>\<open>service/torrent_server/handle_block.cpp\<close>: what a block of the chain does to the database of
  torrents and payments and to the rows that go to MySQL.  One definition per operation of the
  chain, composed by \<open>handle_trx\<close> and \<open>handle_block\<close> as the source nests them.  Constants of the
  chain (\<^verbatim>\<open>TORRENT_RECEIPT_TRANSFER\<close>, \<^verbatim>\<open>ORR_OK\<close>, \<^verbatim>\<open>TORRENT_AUTHOR_PERCENT\<close>), LevelDB, protobuf,
  \<open>share_type\<close> and the decimal library are arguments, collected in \<open>handle_env\<close>.
\<close>

record ('db, 'sh, 'm) handle_env =
  he_ldb :: "'db leveldb_ops"
  he_codec :: pb_codec
  he_torrent :: "('sh, 'm) torrent_env"
  TORRENT_RECEIPT_TRANSFER :: nat
  ORR_OK :: nat
  TORRENT_AUTHOR_PERCENT :: 'sh

abbreviation he_share :: "('db, 'sh, 'm) handle_env \<Rightarrow> 'sh share_ops" where
  "he_share E \<equiv> te_share (he_torrent E)"

abbreviation he_mpd :: "('db, 'sh, 'm) handle_env \<Rightarrow> ('sh, 'm) mpd_ops" where
  "he_mpd E \<equiv> te_mpd (he_torrent E)"

record 'db server_state =
  g_torrent_database :: "'db torrent_database"
  g_mysql_task :: mysql_batches

section \<open>Amounts and pieces\<close>

definition get_ratio_value :: "('sh, 'm) mpd_ops \<Rightarrow> 'm \<Rightarrow> 'sh \<Rightarrow> u64 \<Rightarrow> nat \<Rightarrow> 'sh" where
  "get_ratio_value P r1 amount base_precision save_precision =
     (let amount1 = mp_devide P amount base_precision save_precision;
          amount2 = mp_div P amount1 r1
      in mp_mul P amount2 base_precision save_precision)"

definition get_ratio :: "u32 \<Rightarrow> string" where
  "get_ratio pieces =
     (if pieces < 256 then ''0.995''
      else if pieces < 512 then ''0.99''
      else if pieces < 1024 then ''0.985''
      else if pieces < 2048 then ''0.98''
      else if pieces < 4096 then ''0.97''
      else ''0.96'')"

text \<open>What one received piece costs: the transfer amount plus the receiver's share of the author's.\<close>

definition piece_amount :: "'sh share_ops \<Rightarrow> torrent_payment \<Rightarrow> 'sh res" where
  "piece_amount S tp =
     res_bind (nothrow (sh_of_string S (p_transfer_one_piece_amount tp))) (\<lambda>transfer.
     res_bind (nothrow (sh_of_string S (p_receiver_author_one_piece_amount tp))) (\<lambda>receiver.
       Inr (sh_add S transfer receiver)))"

text \<open>
  \<open>(*tp->mutable_pay_pieces())[account] += piece\<close> on a map of \<^verbatim>\<open>uint32_t\<close>, with the entry of a new
  account first created under the C string of its name.
\<close>

definition add_pieces :: "string \<Rightarrow> u64 \<Rightarrow> (string, u32) smap \<Rightarrow> (string, u32) smap" where
  "add_pieces account piece pay_pieces =
     (let m = (if smap_find pay_pieces account = None then smap_put pay_pieces (c_str account) 0 else pay_pieces);
          old = (case smap_find m account of None \<Rightarrow> 0 | Some v \<Rightarrow> v)
      in smap_put m account (old + ucast piece))"

fun settle_loop ::
  "('db, 'sh, 'm) handle_env \<Rightarrow> 'm \<Rightarrow> 'sh settlement_operation \<Rightarrow> nat list \<Rightarrow> torrent_payment \<Rightarrow> torrent_payment res" where
  "settle_loop E ratio op [] tp = Inr tp"
| "settle_loop E ratio op (i # rest) tp =
     res_bind (vec_at (so_business_type op) i) (\<lambda>business.
       if business \<noteq> TORRENT_RECEIPT_TRANSFER E then settle_loop E ratio op rest tp
       else res_bind (vec_at (so_amount op) i) (\<lambda>amount.
         let t = get_ratio_value (he_mpd E) ratio amount 1000000000000000000 8
         in res_bind (piece_amount (he_share E) tp) (\<lambda>unit.
            res_bind (nothrow (sh_div (he_share E) t unit)) (\<lambda>quot.
            res_bind (nothrow (sh_to_u64 (he_share E) quot)) (\<lambda>piece.
              if sh_mul (he_share E) (sh_of_u64 (he_share E) piece) unit \<noteq> t then settle_loop E ratio op rest tp
              else res_bind (vec_at (so_account op) i) (\<lambda>account.
                settle_loop E ratio op rest (tp\<lparr>p_pay_pieces := add_pieces account piece (p_pay_pieces tp)\<rparr>)))))))"

section \<open>Saving and mirroring\<close>

definition save_payment ::
  "('db, 'sh, 'm) handle_env \<Rightarrow> torrent_payment \<Rightarrow> 'db server_state \<Rightarrow> (int \<times> 'db server_state) res" where
  "save_payment E tp s =
     res_bind (save_or_update_torrent_payment (he_ldb E) (he_codec E) tp (g_torrent_database s)) (\<lambda>(ret, db).
       Inr (ret, s\<lparr>g_torrent_database := db\<rparr>))"

definition save_torrent ::
  "('db, 'sh, 'm) handle_env \<Rightarrow> torrent \<Rightarrow> 'db server_state \<Rightarrow> (int \<times> 'db server_state) res" where
  "save_torrent E t s =
     res_bind (save_or_update_torrent (he_ldb E) (he_codec E) t (g_torrent_database s)) (\<lambda>(ret, db).
       Inr (ret, s\<lparr>g_torrent_database := db\<rparr>))"

text \<open>The results of the two \<^verbatim>\<open>append\<close> functions are dropped.\<close>

definition mirror_payment :: "('db, 'sh, 'm) handle_env \<Rightarrow> torrent_payment \<Rightarrow> 'db server_state \<Rightarrow> 'db server_state res" where
  "mirror_payment E tp s =
     res_bind (append_torrent_payment (he_torrent E) tp (g_mysql_task s)) (\<lambda>(_, m). Inr (s\<lparr>g_mysql_task := m\<rparr>))"

definition mirror_torrent :: "('db, 'sh, 'm) handle_env \<Rightarrow> torrent \<Rightarrow> 'db server_state \<Rightarrow> 'db server_state res" where
  "mirror_torrent E t s =
     res_bind (append_torrent_create (he_torrent E) t (g_mysql_task s)) (\<lambda>(_, m). Inr (s\<lparr>g_mysql_task := m\<rparr>))"

definition find_payment :: "('db, 'sh, 'm) handle_env \<Rightarrow> string \<Rightarrow> 'db server_state \<Rightarrow> torrent_payment option res" where
  "find_payment E k s = get_torrent_payment (he_ldb E) (he_codec E) k (g_torrent_database s)"

definition find_torrent :: "('db, 'sh, 'm) handle_env \<Rightarrow> string \<Rightarrow> 'db server_state \<Rightarrow> torrent option res" where
  "find_torrent E k s = get_torrent (he_ldb E) (he_codec E) k (g_torrent_database s)"

text \<open>Save, and mirror what was saved unless saving failed.\<close>

definition update_payment :: "('db, 'sh, 'm) handle_env \<Rightarrow> torrent_payment \<Rightarrow> 'db server_state \<Rightarrow> 'db server_state res" where
  "update_payment E tp s =
     res_bind (save_payment E tp s) (\<lambda>(ret, s1). if ret \<noteq> 0 then Inr s1 else mirror_payment E tp s1)"

definition update_torrent :: "('db, 'sh, 'm) handle_env \<Rightarrow> torrent \<Rightarrow> 'db server_state \<Rightarrow> 'db server_state res" where
  "update_torrent E t s =
     res_bind (save_torrent E t s) (\<lambda>(ret, s1). if ret \<noteq> 0 then Inr s1 else mirror_torrent E t s1)"

text \<open>A payment and its torrent: the result of saving the torrent is dropped.\<close>

definition update_both ::
  "('db, 'sh, 'm) handle_env \<Rightarrow> torrent_payment \<Rightarrow> torrent \<Rightarrow> 'db server_state \<Rightarrow> 'db server_state res" where
  "update_both E tp t s =
     res_bind (save_payment E tp s) (\<lambda>(ret, s1).
       if ret \<noteq> 0 then Inr s1
       else res_bind (save_torrent E t s1) (\<lambda>(_, s2).
            res_bind (mirror_payment E tp s2) (\<lambda>s3. mirror_torrent E t s3)))"

section \<open>The operations\<close>

definition settle_payment ::
  "('db, 'sh, 'm) handle_env \<Rightarrow> 'sh settlement_operation \<Rightarrow> torrent_payment \<Rightarrow> torrent_payment res" where
  "settle_payment E op tp =
     (let ratio = mp_decimal (he_mpd E) (get_ratio (p_pieces tp)) 18
      in settle_loop E ratio op [0..<length (so_account op)] tp)"

definition handle_settlement ::
  "('db, 'sh, 'm) handle_env \<Rightarrow> 'sh processed_transaction \<Rightarrow> 'sh settlement_operation \<Rightarrow> 'db server_state \<Rightarrow> 'db server_state res" where
  "handle_settlement E trx op s =
     res_bind (deref (proposal_transaction_id trx)) (\<lambda>pid.
     res_bind (find_payment E pid s) (\<lambda>found.
       case found of
         None \<Rightarrow> Inr s
       | Some tp \<Rightarrow> res_bind (settle_payment E op tp) (\<lambda>tp'. update_payment E tp' s)))"

definition new_torrent :: "'sh share_ops \<Rightarrow> u64 \<Rightarrow> string \<Rightarrow> 'sh torrent_create_operation \<Rightarrow> torrent" where
  "new_torrent S num tid op =
     empty_torrent\<lparr>t_id := c_str (tc_id op), t_transaction_id := c_str tid, t_user_id := c_str (tc_creator op),
       t_asset := tc_asset_type op, t_balance := c_str (sh_to_string S (tc_amount op)), t_last_modify := num,
       t_percent := tc_percent op, t_pay_times := 0, t_finish_times := 0, t_create_block := num\<rparr>"

definition handle_create ::
  "('db, 'sh, 'm) handle_env \<Rightarrow> u64 \<Rightarrow> string \<Rightarrow> 'sh torrent_create_operation \<Rightarrow> 'db server_state \<Rightarrow> 'db server_state res" where
  "handle_create E num tid op s = update_torrent E (new_torrent (he_share E) num tid op) s"

definition updated_torrent :: "'sh share_ops \<Rightarrow> u64 \<Rightarrow> 'sh torrent_update_operation \<Rightarrow> torrent \<Rightarrow> torrent" where
  "updated_torrent S num op t =
     t\<lparr>t_balance := c_str (sh_to_string S (tu_amount op)), t_last_modify := num, t_percent := tu_percent op\<rparr>"

definition handle_update ::
  "('db, 'sh, 'm) handle_env \<Rightarrow> u64 \<Rightarrow> 'sh torrent_update_operation \<Rightarrow> 'db server_state \<Rightarrow> 'db server_state res" where
  "handle_update E num op s =
     res_bind (find_torrent E (tu_id op) s) (\<lambda>found.
       case found of None \<Rightarrow> Inr s | Some t \<Rightarrow> update_torrent E (updated_torrent (he_share E) num op t) s)"

text \<open>
  The author's amount of one piece, and the part of it the receivers get: all but
  \<open>t_percent\<close>/\<open>TORRENT_AUTHOR_PERCENT\<close> of it, rounded by the integer division.
\<close>

definition author_split ::
  "('db, 'sh, 'm) handle_env \<Rightarrow> torrent \<Rightarrow> u32 \<Rightarrow> ('sh \<times> 'sh) res" where
  "author_split E t pieces =
     (let S = he_share E
      in res_bind (nothrow (sh_of_string S (t_balance t))) (\<lambda>balance.
         res_bind (nothrow (sh_div S balance (sh_of_u64 S (ucast pieces)))) (\<lambda>author_one_piece_amount.
         res_bind (nothrow (sh_div S author_one_piece_amount (TORRENT_AUTHOR_PERCENT E))) (\<lambda>part.
           let author_one_piece_amount_real = sh_mul S part (sh_of_u64 S (ucast (t_percent t)))
           in Inr (author_one_piece_amount, sh_sub S author_one_piece_amount author_one_piece_amount_real)))))"

definition new_payment ::
  "('db, 'sh, 'm) handle_env \<Rightarrow> u64 \<Rightarrow> string \<Rightarrow> 'sh torrent_payment_operation \<Rightarrow> torrent \<Rightarrow> torrent_payment res" where
  "new_payment E num tid op t =
     res_bind (author_split E t (tpo_pieces op)) (\<lambda>(author_one_piece_amount, receiver_author_one_piece_amount).
       let S = he_share E
       in Inr (empty_payment\<lparr>p_payment_id := c_str tid, p_torrent_id := c_str (tpo_torrent_id op),
            p_user_id := c_str (tpo_creator op), p_asset := tpo_asset_type op, p_author_amount := c_str (t_balance t),
            p_percent := t_percent t, p_payment_amount := c_str (sh_to_string S (tpo_amount op)),
            p_is_selttement := False, p_is_refund := False, p_pay_pieces := [], p_create_time := num,
            p_selttement_time := 0, p_refund_time := 0, p_pieces := tpo_pieces op, p_sizes := tpo_sizes op,
            p_payed_pieces := tpo_payed_pieces op,
            p_transfer_one_piece_amount := c_str (sh_to_string S (tpo_one_piece_amount op)),
            p_author_one_piece_amount := c_str (sh_to_string S author_one_piece_amount),
            p_receiver_author_one_piece_amount := c_str (sh_to_string S receiver_author_one_piece_amount),
            p_sign_address := c_str (tpo_sign_address op)\<rparr>))"

definition handle_payment ::
  "('db, 'sh, 'm) handle_env \<Rightarrow> u64 \<Rightarrow> string \<Rightarrow> 'sh torrent_payment_operation \<Rightarrow> 'db server_state \<Rightarrow> 'db server_state res" where
  "handle_payment E num tid op s =
     res_bind (find_torrent E (tpo_torrent_id op) s) (\<lambda>found.
       case found of
         None \<Rightarrow> Inr s
       | Some t \<Rightarrow>
           res_bind (new_payment E num tid op t) (\<lambda>tp.
             update_both E tp (t\<lparr>t_pay_times := t_pay_times t + 1\<rparr>) s))"

definition handle_selttement ::
  "('db, 'sh, 'm) handle_env \<Rightarrow> u64 \<Rightarrow> string \<Rightarrow> string \<Rightarrow> 'db server_state \<Rightarrow> 'db server_state res" where
  "handle_selttement E num tid payment_id s =
     res_bind (find_payment E payment_id s) (\<lambda>found.
       case found of
         None \<Rightarrow> Inr s
       | Some tp \<Rightarrow>
           res_bind (find_torrent E (p_torrent_id tp) s) (\<lambda>found'.
             case found' of
               None \<Rightarrow> Inr s
             | Some t \<Rightarrow>
                 update_both E
                   (tp\<lparr>p_is_selttement := True, p_selttement_time := num, p_selttement_trx_id := c_str tid\<rparr>)
                   (t\<lparr>t_finish_times := t_finish_times t + 1\<rparr>) s))"

definition handle_receipt ::
  "('db, 'sh, 'm) handle_env \<Rightarrow> string \<Rightarrow> string \<Rightarrow> 'db server_state \<Rightarrow> 'db server_state res" where
  "handle_receipt E tid payment_id s =
     res_bind (find_payment E payment_id s) (\<lambda>found.
       case found of None \<Rightarrow> Inr s | Some tp \<Rightarrow> update_payment E (tp\<lparr>p_receipt_trx_id := c_str tid\<rparr>) s)"

definition handle_refund ::
  "('db, 'sh, 'm) handle_env \<Rightarrow> u64 \<Rightarrow> string \<Rightarrow> string \<Rightarrow> 'db server_state \<Rightarrow> 'db server_state res" where
  "handle_refund E num tid payment_id s =
     res_bind (find_payment E payment_id s) (\<lambda>found.
       case found of
         None \<Rightarrow> Inr s
       | Some tp \<Rightarrow>
           update_payment E (tp\<lparr>p_is_refund := True, p_refund_trx_id := c_str tid, p_refund_time := num\<rparr>) s)"

definition increased_payment ::
  "'sh share_ops \<Rightarrow> string \<Rightarrow> 'sh torrent_payment_increase_operation \<Rightarrow> torrent_payment \<Rightarrow> torrent_payment res" where
  "increased_payment S tid op tp =
     res_bind (nothrow (sh_of_string S (p_payment_amount tp))) (\<lambda>amount.
       Inr (tp\<lparr>p_payed_pieces := p_payed_pieces tp + ti_pieces op,
               p_payment_amount := c_str (sh_to_string S (sh_add S amount (ti_amount op))),
               p_increase_trx := smap_put (p_increase_trx tp) tid (sh_as_string S (ti_amount op))\<rparr>))"

definition handle_increase ::
  "('db, 'sh, 'm) handle_env \<Rightarrow> string \<Rightarrow> 'sh torrent_payment_increase_operation \<Rightarrow> 'db server_state \<Rightarrow> 'db server_state res" where
  "handle_increase E tid op s =
     res_bind (find_payment E (ti_payment_id op) s) (\<lambda>found.
       case found of
         None \<Rightarrow> Inr s
       | Some tp \<Rightarrow> res_bind (increased_payment (he_share E) tid op tp) (\<lambda>tp'. update_payment E tp' s))"

section \<open>Transactions and blocks\<close>

definition handle_trx ::
  "('db, 'sh, 'm) handle_env \<Rightarrow> u64 \<Rightarrow> 'sh processed_transaction \<Rightarrow> 'db server_state \<Rightarrow> 'db server_state res" where
  "handle_trx E num trx s =
     (case operations trx of
        [op] \<Rightarrow>
          if validate_type trx = 1 then
            (case op of OI_SETTLEMENT o' \<Rightarrow> handle_settlement E trx o' s | _ \<Rightarrow> Inr s)
          else if operation_results trx \<noteq> [ORR_OK E] then Inr s
          else
            (case op of
               OI_TORRENT_CREATE o' \<Rightarrow> handle_create E num (trx_id trx) o' s
             | OI_TORRENT_UPDATE o' \<Rightarrow> handle_update E num o' s
             | OI_TORRENT_PAYMENT o' \<Rightarrow> handle_payment E num (trx_id trx) o' s
             | OI_TORRENT_PAYMENT_SELTTMENT pid \<Rightarrow> handle_selttement E num (trx_id trx) pid s
             | OI_TORRENT_RECEIPT pid \<Rightarrow> handle_receipt E (trx_id trx) pid s
             | OI_TORRENT_PAYMENT_REFUND pid \<Rightarrow> handle_refund E num (trx_id trx) pid s
             | OI_TORRENT_PAYMENT_INCREASE o' \<Rightarrow> handle_increase E (trx_id trx) o' s
             | _ \<Rightarrow> Inr s)
      | _ \<Rightarrow> Inr s)"

fun handle_trxs ::
  "('db, 'sh, 'm) handle_env \<Rightarrow> u64 \<Rightarrow> 'sh processed_transaction list \<Rightarrow> 'db server_state \<Rightarrow> 'db server_state res" where
  "handle_trxs E num [] s = Inr s"
| "handle_trxs E num (trx # rest) s = res_bind (handle_trx E num trx s) (handle_trxs E num rest)"

definition handle_block ::
  "('db, 'sh, 'm) handle_env \<Rightarrow> bool \<Rightarrow> 'sh signed_block \<Rightarrow> 'db server_state \<Rightarrow> (int \<times> 'db server_state) res" where
  "handle_block E isreal block s =
     (if \<not> isreal then Inr (0, s)
      else if block_type block \<noteq> 3 then Inl AssertFailed
      else res_bind (handle_trxs E (block_num block) (transactions block) s) (\<lambda>s'. Inr (0, s')))"

section \<open>The ledger a block acts on\<close>

text \<open>
  The abstract view: two maps, torrents and payments by id.  A transaction reads them and asks for
  a list of writes; nothing else of the database matters.
\<close>

record ledger =
  lg_torrents :: "string \<Rightarrow> torrent option"
  lg_payments :: "string \<Rightarrow> torrent_payment option"

datatype ledger_write = WriteTorrent torrent | WritePayment torrent_payment

fun apply_write :: "ledger_write \<Rightarrow> ledger \<Rightarrow> ledger" where
  "apply_write (WriteTorrent t) G = G\<lparr>lg_torrents := (lg_torrents G)(t_id t \<mapsto> t)\<rparr>"
| "apply_write (WritePayment p) G = G\<lparr>lg_payments := (lg_payments G)(p_payment_id p \<mapsto> p)\<rparr>"

text \<open>The writes each operation asks for.\<close>

fun op_writes ::
  "('db, 'sh, 'm) handle_env \<Rightarrow> u64 \<Rightarrow> string \<Rightarrow> 'sh operation \<Rightarrow> ledger \<Rightarrow> ledger_write list res" where
  "op_writes E num tid (OI_TORRENT_CREATE op) G = Inr [WriteTorrent (new_torrent (he_share E) num tid op)]"
| "op_writes E num tid (OI_TORRENT_UPDATE op) G =
     (case lg_torrents G (tu_id op) of
        None \<Rightarrow> Inr [] | Some t \<Rightarrow> Inr [WriteTorrent (updated_torrent (he_share E) num op t)])"
| "op_writes E num tid (OI_TORRENT_PAYMENT op) G =
     (case lg_torrents G (tpo_torrent_id op) of
        None \<Rightarrow> Inr []
      | Some t \<Rightarrow> res_bind (new_payment E num tid op t) (\<lambda>tp.
          Inr [WritePayment tp, WriteTorrent (t\<lparr>t_pay_times := t_pay_times t + 1\<rparr>)]))"
| "op_writes E num tid (OI_TORRENT_PAYMENT_SELTTMENT pid) G =
     (case lg_payments G pid of
        None \<Rightarrow> Inr []
      | Some tp \<Rightarrow>
          (case lg_torrents G (p_torrent_id tp) of
             None \<Rightarrow> Inr []
           | Some t \<Rightarrow>
               Inr [WritePayment (tp\<lparr>p_is_selttement := True, p_selttement_time := num, p_selttement_trx_id := c_str tid\<rparr>),
                    WriteTorrent (t\<lparr>t_finish_times := t_finish_times t + 1\<rparr>)]))"
| "op_writes E num tid (OI_TORRENT_RECEIPT pid) G =
     (case lg_payments G pid of
        None \<Rightarrow> Inr [] | Some tp \<Rightarrow> Inr [WritePayment (tp\<lparr>p_receipt_trx_id := c_str tid\<rparr>)])"
| "op_writes E num tid (OI_TORRENT_PAYMENT_REFUND pid) G =
     (case lg_payments G pid of
        None \<Rightarrow> Inr []
      | Some tp \<Rightarrow> Inr [WritePayment (tp\<lparr>p_is_refund := True, p_refund_trx_id := c_str tid, p_refund_time := num\<rparr>)])"
| "op_writes E num tid (OI_TORRENT_PAYMENT_INCREASE op) G =
     (case lg_payments G (ti_payment_id op) of
        None \<Rightarrow> Inr []
      | Some tp \<Rightarrow> res_bind (increased_payment (he_share E) tid op tp) (\<lambda>tp'. Inr [WritePayment tp']))"
| "op_writes E num tid (OI_SETTLEMENT op) G = Inr []"
| "op_writes E num tid (OI_OTHER n) G = Inr []"

fun trx_writes ::
  "('db, 'sh, 'm) handle_env \<Rightarrow> u64 \<Rightarrow> 'sh processed_transaction \<Rightarrow> ledger \<Rightarrow> ledger_write list res" where
  "trx_writes E num trx G =
     (case operations trx of
        [op] \<Rightarrow>
          if validate_type trx = 1 then
            (case op of
               OI_SETTLEMENT o' \<Rightarrow>
                 res_bind (deref (proposal_transaction_id trx)) (\<lambda>pid.
                   case lg_payments G pid of
                     None \<Rightarrow> Inr []
                   | Some tp \<Rightarrow> res_bind (settle_payment E o' tp) (\<lambda>tp'. Inr [WritePayment tp']))
             | _ \<Rightarrow> Inr [])
          else if operation_results trx \<noteq> [ORR_OK E] then Inr []
          else op_writes E num (trx_id trx) op G
      | _ \<Rightarrow> Inr [])"

text \<open>Every record written is also appended to the rows for MySQL, in the same order.\<close>

fun mirror_writes :: "('db, 'sh, 'm) handle_env \<Rightarrow> ledger_write list \<Rightarrow> mysql_batches \<Rightarrow> mysql_batches res" where
  "mirror_writes E [] m = Inr m"
| "mirror_writes E (WriteTorrent t # ws) m =
     res_bind (append_torrent_create (he_torrent E) t m) (\<lambda>(_, m'). mirror_writes E ws m')"
| "mirror_writes E (WritePayment p # ws) m =
     res_bind (append_torrent_payment (he_torrent E) p m) (\<lambda>(_, m'). mirror_writes E ws m')"

fun ledger_trxs ::
  "('db, 'sh, 'm) handle_env \<Rightarrow> u64 \<Rightarrow> 'sh processed_transaction list \<Rightarrow> ledger \<Rightarrow> mysql_batches \<Rightarrow> (ledger \<times> mysql_batches) res" where
  "ledger_trxs E num [] G m = Inr (G, m)"
| "ledger_trxs E num (trx # rest) G m =
     res_bind (trx_writes E num trx G) (\<lambda>ws.
     res_bind (mirror_writes E ws m) (\<lambda>m'. ledger_trxs E num rest (fold apply_write ws G) m'))"

text \<open>
  Torrents and payments share one key space, and nothing in a stored value says which of the two it
  is.  \<open>K\<close> tells the torrents' ids from the others; a block is well named if it uses ids accordingly.
\<close>

fun well_named_op :: "(string \<Rightarrow> bool) \<Rightarrow> string \<Rightarrow> 'sh operation \<Rightarrow> bool" where
  "well_named_op K tid (OI_TORRENT_CREATE op) \<longleftrightarrow> K (c_str (tc_id op))"
| "well_named_op K tid (OI_TORRENT_UPDATE op) \<longleftrightarrow> K (tu_id op)"
| "well_named_op K tid (OI_TORRENT_PAYMENT op) \<longleftrightarrow> K (tpo_torrent_id op) \<and> no_nul (tpo_torrent_id op) \<and> \<not> K (c_str tid)"
| "well_named_op K tid (OI_TORRENT_PAYMENT_SELTTMENT pid) \<longleftrightarrow> \<not> K pid"
| "well_named_op K tid (OI_TORRENT_RECEIPT pid) \<longleftrightarrow> \<not> K pid"
| "well_named_op K tid (OI_TORRENT_PAYMENT_REFUND pid) \<longleftrightarrow> \<not> K pid"
| "well_named_op K tid (OI_TORRENT_PAYMENT_INCREASE op) \<longleftrightarrow> \<not> K (ti_payment_id op)"
| "well_named_op K tid (OI_SETTLEMENT op) \<longleftrightarrow> True"
| "well_named_op K tid (OI_OTHER n) \<longleftrightarrow> True"

definition well_named :: "(string \<Rightarrow> bool) \<Rightarrow> 'sh processed_transaction \<Rightarrow> bool" where
  "well_named K trx \<longleftrightarrow>
     list_all (well_named_op K (trx_id trx)) (operations trx) \<and>
     (case proposal_transaction_id trx of None \<Rightarrow> True | Some pid \<Rightarrow> \<not> K pid)"

text \<open>The ledger's own invariant: records stand under their own id, and payments name a torrent id.\<close>

definition ledger_ok :: "(string \<Rightarrow> bool) \<Rightarrow> ledger \<Rightarrow> bool" where
  "ledger_ok K G \<longleftrightarrow>
     (\<forall>k t. lg_torrents G k = Some t \<longrightarrow> K k \<and> t_id t = k) \<and>
     (\<forall>k p. lg_payments G k = Some p \<longrightarrow> \<not> K k \<and> p_payment_id p = k \<and> K (p_torrent_id p))"

definition holds_ledger ::
  "('db, 'sh, 'm) handle_env \<Rightarrow> (string \<Rightarrow> bool) \<Rightarrow> 'db server_state \<Rightarrow> ledger \<Rightarrow> bool" where
  "holds_ledger E K s G \<longleftrightarrow>
     (\<exists>d. td_db (g_torrent_database s) = DbLive d \<and>
        (\<forall>k. ldb_get (he_ldb E) d k =
           (if K k then map_option (enc_torrent (he_codec E)) (lg_torrents G k)
            else map_option (enc_payment (he_codec E)) (lg_payments G k)))) \<and>
     ledger_ok K G"

fun write_named :: "(string \<Rightarrow> bool) \<Rightarrow> ledger_write \<Rightarrow> bool" where
  "write_named K (WriteTorrent t) \<longleftrightarrow> K (t_id t)"
| "write_named K (WritePayment p) \<longleftrightarrow> \<not> K (p_payment_id p) \<and> K (p_torrent_id p)"

lemma ledger_ok_write: "ledger_ok K G \<Longrightarrow> write_named K w \<Longrightarrow> ledger_ok K (apply_write w G)"
  by (cases w) (auto simp: ledger_ok_def)

text \<open>The loop changes nothing but the paid pieces.\<close>

lemma settle_loop_ids:
  "settle_loop E ratio op is tp = Inr tp' \<Longrightarrow> \<exists>m. tp' = tp\<lparr>p_pay_pieces := m\<rparr>"
proof (induction "is" arbitrary: tp)
  case Nil
  then show ?case by (intro exI [of _ "p_pay_pieces tp"]) simp
next
  case (Cons i rest)
  have step: "\<exists>m. tp' = tp\<lparr>p_pay_pieces := m\<rparr>" if "settle_loop E ratio op rest (tp\<lparr>p_pay_pieces := m0\<rparr>) = Inr tp'" for m0
    using Cons.IH [OF that] by auto
  from Cons.prems show ?case
    by (auto simp: Let_def split: if_split_asm elim!: res_bind_InrE) (erule Cons.IH | erule step)+
qed

lemma settle_payment_ids: "settle_payment E op tp = Inr tp' \<Longrightarrow> \<exists>m. tp' = tp\<lparr>p_pay_pieces := m\<rparr>"
  by (auto simp: settle_payment_def dest: settle_loop_ids)

text \<open>Every write a well-named transaction asks for keeps the key spaces apart.\<close>

lemma op_writes_named:
  assumes "ledger_ok K G" "well_named_op K tid op" "op_writes E num tid op G = Inr ws"
  shows "list_all (write_named K) ws"
  using assms
  by (cases op)
    (auto simp: ledger_ok_def new_torrent_def updated_torrent_def new_payment_def increased_payment_def Let_def
      split: option.split_asm prod.split_asm elim!: res_bind_InrE)

lemma trx_writes_named:
  assumes "ledger_ok K G" "well_named K trx" "trx_writes E num trx G = Inr ws"
  shows "list_all (write_named K) ws"
proof (cases "operations trx")
  case (Cons op rest)
  show ?thesis
  proof (cases "rest = [] \<and> validate_type trx = 1")
    case True
    with Cons assms show ?thesis
      by (auto simp: well_named_def ledger_ok_def split: operation.split_asm option.split_asm
          dest!: settle_payment_ids elim!: res_bind_InrE)
  next
    case False
    with Cons assms op_writes_named [OF assms(1), of "trx_id trx" op E num ws] show ?thesis
      by (auto simp: well_named_def split: list.split_asm if_split_asm)
  qed
qed (use assms in simp)

section \<open>The handler implements the ledger\<close>

locale ledger_store =
  fixes E :: "('db, 'sh, 'm) handle_env"
    and K :: "string \<Rightarrow> bool"
  assumes store: "torrent_store (he_ldb E) (he_codec E)"
    and reliable: "reliable_leveldb (he_ldb E)"
begin

lemma db: "leveldb (he_ldb E)" and enc: "codec (he_codec E)"
  using store by (simp_all add: torrent_store_def)

lemmas dec_enc [simp] = codec.dec_enc_torrent [OF enc] codec.dec_enc_payment [OF enc]

lemma find_torrent_holds: "holds_ledger E K s G \<Longrightarrow> K k \<Longrightarrow> find_torrent E k s = Inr (lg_torrents G k)"
  by (auto simp: holds_ledger_def find_torrent_def get_torrent_def option.map_comp comp_def option.map_ident)

lemma find_payment_holds: "holds_ledger E K s G \<Longrightarrow> \<not> K k \<Longrightarrow> find_payment E k s = Inr (lg_payments G k)"
  by (auto simp: holds_ledger_def find_payment_def get_torrent_payment_def option.map_comp comp_def option.map_ident)

lemma save_torrent_holds:
  assumes "holds_ledger E K s G" "K (t_id t)"
  shows "\<exists>s'. save_torrent E t s = Inr (0, s') \<and> holds_ledger E K s' (apply_write (WriteTorrent t) G) \<and> g_mysql_task s' = g_mysql_task s"
proof -
  from assms(1) obtain d where d: "td_db (g_torrent_database s) = DbLive d"
    "\<And>k. ldb_get (he_ldb E) d k = (if K k then map_option (enc_torrent (he_codec E)) (lg_torrents G k)
            else map_option (enc_payment (he_codec E)) (lg_payments G k))" and ok: "ledger_ok K G"
    by (auto simp: holds_ledger_def)
  obtain d' where d': "ldb_put (he_ldb E) d (t_id t) (enc_torrent (he_codec E) t) = (True, d')"
    using reliable_leveldb.put_succeeds [OF reliable] by blast
  from leveldb.get_put [OF db d'] d(2) assms(2)
  have "ldb_get (he_ldb E) d' k = (if K k then map_option (enc_torrent (he_codec E)) (((lg_torrents G)(t_id t \<mapsto> t)) k)
            else map_option (enc_payment (he_codec E)) (lg_payments G k))" for k by auto
  with d(1) d' ledger_ok_write [OF ok, of "WriteTorrent t"] assms(2) show ?thesis
    by (auto simp: save_torrent_def save_or_update_torrent_def holds_ledger_def)
qed

lemma save_payment_holds:
  assumes "holds_ledger E K s G" "write_named K (WritePayment p)"
  shows "\<exists>s'. save_payment E p s = Inr (0, s') \<and> holds_ledger E K s' (apply_write (WritePayment p) G) \<and> g_mysql_task s' = g_mysql_task s"
proof -
  from assms(1) obtain d where d: "td_db (g_torrent_database s) = DbLive d"
    "\<And>k. ldb_get (he_ldb E) d k = (if K k then map_option (enc_torrent (he_codec E)) (lg_torrents G k)
            else map_option (enc_payment (he_codec E)) (lg_payments G k))" and ok: "ledger_ok K G"
    by (auto simp: holds_ledger_def)
  obtain d' where d': "ldb_put (he_ldb E) d (p_payment_id p) (enc_payment (he_codec E) p) = (True, d')"
    using reliable_leveldb.put_succeeds [OF reliable] by blast
  from leveldb.get_put [OF db d'] d(2) assms(2)
  have "ldb_get (he_ldb E) d' k = (if K k then map_option (enc_torrent (he_codec E)) (lg_torrents G k)
            else map_option (enc_payment (he_codec E)) (((lg_payments G)(p_payment_id p \<mapsto> p)) k))" for k by auto
  with d(1) d' ledger_ok_write [OF ok assms(2)] show ?thesis
    by (auto simp: save_payment_def save_or_update_torrent_payment_def holds_ledger_def)
qed

lemma mirror_holds:
  "mirror_torrent E t s = Inr s' \<Longrightarrow> holds_ledger E K s' G = holds_ledger E K s G"
  "mirror_payment E p s = Inr s' \<Longrightarrow> holds_ledger E K s' G = holds_ledger E K s G"
  by (auto simp: mirror_torrent_def mirror_payment_def holds_ledger_def split: prod.split_asm elim!: res_bind_InrE)

lemma mirror_rows:
  "mirror_torrent E t s = Inr s' \<Longrightarrow> mirror_writes E (WriteTorrent t # ws) (g_mysql_task s) = mirror_writes E ws (g_mysql_task s')"
  "mirror_payment E p s = Inr s' \<Longrightarrow> mirror_writes E (WritePayment p # ws) (g_mysql_task s) = mirror_writes E ws (g_mysql_task s')"
  by (auto simp: mirror_torrent_def mirror_payment_def split: prod.split_asm elim!: res_bind_InrE)

text \<open>The state after the writes \<open>ws\<close>: the ledger has them and the rows mirror them.\<close>

definition after_writes :: "'db server_state \<Rightarrow> ledger_write list \<Rightarrow> ledger \<Rightarrow> 'db server_state \<Rightarrow> bool" where
  "after_writes s ws G s' \<longleftrightarrow>
     holds_ledger E K s' (fold apply_write ws G) \<and> mirror_writes E ws (g_mysql_task s) = Inr (g_mysql_task s')"

lemma after_no_writes [simp]: "holds_ledger E K s G \<Longrightarrow> after_writes s [] G s"
  by (simp add: after_writes_def)

lemma update_torrent_holds:
  assumes "holds_ledger E K s G" "K (t_id t)" "update_torrent E t s = Inr s'"
  shows "after_writes s [WriteTorrent t] G s'"
proof -
  obtain s1 where s1: "save_torrent E t s = Inr (0, s1)" "holds_ledger E K s1 (apply_write (WriteTorrent t) G)"
    "g_mysql_task s1 = g_mysql_task s"
    using save_torrent_holds [OF assms(1,2)] by blast
  then have "mirror_torrent E t s1 = Inr s'" using assms(3) by (simp add: update_torrent_def)
  with s1(2,3) mirror_rows(1) [OF this, of "[]"] show ?thesis by (simp add: after_writes_def mirror_holds)
qed

lemma update_payment_holds:
  assumes "holds_ledger E K s G" "write_named K (WritePayment p)" "update_payment E p s = Inr s'"
  shows "after_writes s [WritePayment p] G s'"
proof -
  obtain s1 where s1: "save_payment E p s = Inr (0, s1)" "holds_ledger E K s1 (apply_write (WritePayment p) G)"
    "g_mysql_task s1 = g_mysql_task s"
    using save_payment_holds [OF assms(1,2)] by blast
  then have "mirror_payment E p s1 = Inr s'" using assms(3) by (simp add: update_payment_def)
  with s1(2,3) mirror_rows(2) [OF this, of "[]"] show ?thesis by (simp add: after_writes_def mirror_holds)
qed

lemma update_both_holds:
  assumes "holds_ledger E K s G" "write_named K (WritePayment p)" "K (t_id t)" "update_both E p t s = Inr s'"
  shows "after_writes s [WritePayment p, WriteTorrent t] G s'"
proof -
  obtain s1 where s1: "save_payment E p s = Inr (0, s1)" "holds_ledger E K s1 (apply_write (WritePayment p) G)"
    "g_mysql_task s1 = g_mysql_task s"
    using save_payment_holds [OF assms(1,2)] by blast
  obtain s2 where s2: "save_torrent E t s1 = Inr (0, s2)"
    "holds_ledger E K s2 (apply_write (WriteTorrent t) (apply_write (WritePayment p) G))"
    "g_mysql_task s2 = g_mysql_task s1"
    using save_torrent_holds [OF s1(2) assms(3)] by blast
  obtain s3 where s3: "mirror_payment E p s2 = Inr s3" "mirror_torrent E t s3 = Inr s'"
    using assms(4) s1(1) s2(1) by (auto simp: update_both_def elim!: res_bind_InrE)
  have "mirror_writes E [WritePayment p, WriteTorrent t] (g_mysql_task s2) = Inr (g_mysql_task s')"
    using mirror_rows(2) [OF s3(1), of "[WriteTorrent t]"] mirror_rows(1) [OF s3(2), of "[]"] by simp
  with s2(2,3) s1(3) s3 show ?thesis by (simp add: after_writes_def mirror_holds del: mirror_writes.simps)
qed

text \<open>One operation: what the handler leaves behind is the ledger after the writes it asks for.\<close>

definition implements_op :: "u64 \<Rightarrow> string \<Rightarrow> 'sh operation \<Rightarrow> ledger \<Rightarrow> 'db server_state \<Rightarrow> 'db server_state \<Rightarrow> bool" where
  "implements_op num tid op G s s' \<longleftrightarrow> (\<exists>ws. op_writes E num tid op G = Inr ws \<and> after_writes s ws G s')"

lemma implements_opI:
  assumes "op_writes E num tid op G = Inr ws" "after_writes s ws G s'"
  shows "implements_op num tid op G s s'"
  using assms by (auto simp: implements_op_def)

lemma implements_op_skip:
  assumes "holds_ledger E K s G" "op_writes E num tid op G = Inr []"
  shows "implements_op num tid op G s s"
  using assms by (auto simp: after_writes_def intro: implements_opI)

lemma holds_ok: "holds_ledger E K s G \<Longrightarrow> ledger_ok K G"
  by (simp add: holds_ledger_def)

lemma handle_create_holds:
  assumes "holds_ledger E K s G" "well_named_op K tid (OI_TORRENT_CREATE op)" "handle_create E num tid op s = Inr s'"
  shows "implements_op num tid (OI_TORRENT_CREATE op) G s s'"
  using update_torrent_holds [OF assms(1) _ assms(3) [unfolded handle_create_def]] assms(2)
  by (intro implements_opI) (auto simp: new_torrent_def)

lemma handle_update_holds:
  assumes "holds_ledger E K s G" "well_named_op K tid (OI_TORRENT_UPDATE op)" "handle_update E num op s = Inr s'"
  shows "implements_op num tid (OI_TORRENT_UPDATE op) G s s'"
proof (cases "lg_torrents G (tu_id op)")
  case None
  then show ?thesis using assms by (auto simp: handle_update_def find_torrent_holds intro: implements_op_skip)
next
  case (Some t)
  have w: "op_writes E num tid (OI_TORRENT_UPDATE op) G = Inr [WriteTorrent (updated_torrent (he_share E) num op t)]"
    using Some by simp
  have "update_torrent E (updated_torrent (he_share E) num op t) s = Inr s'"
    using assms Some by (simp add: handle_update_def find_torrent_holds)
  from update_torrent_holds [OF assms(1) _ this] op_writes_named [OF holds_ok [OF assms(1)] assms(2) w] w
  show ?thesis by (auto intro: implements_opI)
qed

lemma handle_payment_holds:
  assumes "holds_ledger E K s G" "well_named_op K tid (OI_TORRENT_PAYMENT op)" "handle_payment E num tid op s = Inr s'"
  shows "implements_op num tid (OI_TORRENT_PAYMENT op) G s s'"
proof (cases "lg_torrents G (tpo_torrent_id op)")
  case None
  then show ?thesis using assms by (auto simp: handle_payment_def find_torrent_holds intro: implements_op_skip)
next
  case (Some t)
  obtain tp where tp: "new_payment E num tid op t = Inr tp"
    and u: "update_both E tp (t\<lparr>t_pay_times := t_pay_times t + 1\<rparr>) s = Inr s'"
    using assms Some by (auto simp: handle_payment_def find_torrent_holds elim!: res_bind_InrE)
  have w: "op_writes E num tid (OI_TORRENT_PAYMENT op) G =
      Inr [WritePayment tp, WriteTorrent (t\<lparr>t_pay_times := t_pay_times t + 1\<rparr>)]"
    using Some tp by simp
  from update_both_holds [OF assms(1) _ _ u] op_writes_named [OF holds_ok [OF assms(1)] assms(2) w] w
  show ?thesis by (auto intro: implements_opI)
qed

lemma handle_selttement_holds:
  assumes "holds_ledger E K s G" "well_named_op K tid (OI_TORRENT_PAYMENT_SELTTMENT pid :: 'sh operation)"
    and "handle_selttement E num tid pid s = Inr s'"
  shows "implements_op num tid (OI_TORRENT_PAYMENT_SELTTMENT pid) G s s'"
proof (cases "lg_payments G pid")
  case None
  then show ?thesis using assms by (auto simp: handle_selttement_def find_payment_holds intro: implements_op_skip)
next
  case (Some tp)
  then have k: "K (p_torrent_id tp)" using holds_ok [OF assms(1)] by (simp add: ledger_ok_def)
  show ?thesis
  proof (cases "lg_torrents G (p_torrent_id tp)")
    case None
    then show ?thesis using assms Some k
      by (auto simp: handle_selttement_def find_payment_holds find_torrent_holds intro: implements_op_skip)
  next
    case (Some t)
    let ?tp = "tp\<lparr>p_is_selttement := True, p_selttement_time := num, p_selttement_trx_id := c_str tid\<rparr>"
      and ?t = "t\<lparr>t_finish_times := t_finish_times t + 1\<rparr>"
    have w: "op_writes E num tid (OI_TORRENT_PAYMENT_SELTTMENT pid) G = Inr [WritePayment ?tp, WriteTorrent ?t]"
      using Some \<open>lg_payments G pid = Some tp\<close> by simp
    have "update_both E ?tp ?t s = Inr s'"
      using assms Some \<open>lg_payments G pid = Some tp\<close> k
      by (simp add: handle_selttement_def find_payment_holds find_torrent_holds)
    from update_both_holds [OF assms(1) _ _ this] op_writes_named [OF holds_ok [OF assms(1)] assms(2) w] w
    show ?thesis by (auto intro: implements_opI)
  qed
qed

lemma payment_change_holds:
  assumes "holds_ledger E K s G" "well_named_op K tid op"
    and "lg_payments G pid = Some tp" "op_writes E num tid op G = Inr [WritePayment tp']" "update_payment E tp' s = Inr s'"
  shows "implements_op num tid op G s s'"
  using update_payment_holds [OF assms(1) _ assms(5)] op_writes_named [OF holds_ok [OF assms(1)] assms(2,4)] assms(4)
  by (auto intro: implements_opI)

lemma handle_receipt_holds:
  assumes "holds_ledger E K s G" "well_named_op K tid (OI_TORRENT_RECEIPT pid :: 'sh operation)" "handle_receipt E tid pid s = Inr s'"
  shows "implements_op num tid (OI_TORRENT_RECEIPT pid) G s s'"
proof (cases "lg_payments G pid")
  case None
  then show ?thesis using assms by (auto simp: handle_receipt_def find_payment_holds intro: implements_op_skip)
next
  case (Some tp)
  then show ?thesis using assms
    by (intro payment_change_holds [OF assms(1,2) Some]) (simp_all add: handle_receipt_def find_payment_holds)
qed

lemma handle_refund_holds:
  assumes "holds_ledger E K s G" "well_named_op K tid (OI_TORRENT_PAYMENT_REFUND pid :: 'sh operation)"
    and "handle_refund E num tid pid s = Inr s'"
  shows "implements_op num tid (OI_TORRENT_PAYMENT_REFUND pid) G s s'"
proof (cases "lg_payments G pid")
  case None
  then show ?thesis using assms by (auto simp: handle_refund_def find_payment_holds intro: implements_op_skip)
next
  case (Some tp)
  then show ?thesis using assms
    by (intro payment_change_holds [OF assms(1,2) Some]) (simp_all add: handle_refund_def find_payment_holds)
qed

lemma handle_increase_holds:
  assumes "holds_ledger E K s G" "well_named_op K tid (OI_TORRENT_PAYMENT_INCREASE op)"
    and "handle_increase E tid op s = Inr s'"
  shows "implements_op num tid (OI_TORRENT_PAYMENT_INCREASE op) G s s'"
proof (cases "lg_payments G (ti_payment_id op)")
  case None
  then show ?thesis using assms by (auto simp: handle_increase_def find_payment_holds intro: implements_op_skip)
next
  case (Some tp)
  with assms obtain tp' where "increased_payment (he_share E) tid op tp = Inr tp'" "update_payment E tp' s = Inr s'"
    by (auto simp: handle_increase_def find_payment_holds elim!: res_bind_InrE)
  with Some show ?thesis by (intro payment_change_holds [OF assms(1,2) Some]) simp_all
qed

lemma no_write_holds:
  "holds_ledger E K s G \<Longrightarrow> implements_op num tid (OI_SETTLEMENT o') G s s"
  "holds_ledger E K s G \<Longrightarrow> implements_op num tid (OI_OTHER n) G s s"
  by (auto intro: implements_op_skip)

lemma handle_settlement_holds:
  assumes "holds_ledger E K s G" "well_named K trx" "operations trx = [OI_SETTLEMENT op]" "validate_type trx = 1"
    and "handle_settlement E trx op s = Inr s'"
  shows "\<exists>ws. trx_writes E num trx G = Inr ws \<and> after_writes s ws G s'"
proof -
  obtain pid where pid: "proposal_transaction_id trx = Some pid" "\<not> K pid"
    using assms(2,5) by (auto simp: handle_settlement_def well_named_def deref_Inr_iff elim!: res_bind_InrE)
  show ?thesis
  proof (cases "lg_payments G pid")
    case None
    then show ?thesis using assms pid by (auto simp: handle_settlement_def find_payment_holds)
  next
    case (Some tp)
    with assms(1,5) pid obtain tp' where tp': "settle_payment E op tp = Inr tp'" "update_payment E tp' s = Inr s'"
      by (auto simp: handle_settlement_def find_payment_holds elim!: res_bind_InrE)
    have w: "trx_writes E num trx G = Inr [WritePayment tp']"
      using assms(3,4) Some pid tp'(1) by simp
    from update_payment_holds [OF assms(1) _ tp'(2)] trx_writes_named [OF holds_ok [OF assms(1)] assms(2) w] w
    show ?thesis by auto
  qed
qed

lemma handle_trx_holds:
  assumes "holds_ledger E K s G" "well_named K trx" "handle_trx E num trx s = Inr s'"
  shows "\<exists>ws. trx_writes E num trx G = Inr ws \<and> after_writes s ws G s'"
proof (cases "\<exists>op. operations trx = [op] \<and> (validate_type trx = 1 \<or> operation_results trx = [ORR_OK E])")
  case False
  then show ?thesis using assms by (auto simp: handle_trx_def split: list.splits)
next
  case True
  then obtain op where op: "operations trx = [op]" by blast
  show ?thesis
  proof (cases "validate_type trx = 1")
    case v: True
    show ?thesis
    proof (cases "\<exists>o'. op = OI_SETTLEMENT o'")
      case True
      with handle_settlement_holds [OF assms(1,2)] v op assms(3) show ?thesis by (auto simp: handle_trx_def)
    qed (use v op assms in \<open>auto simp: handle_trx_def split: operation.splits\<close>)
  next
    case False
    have named: "well_named_op K (trx_id trx) op" using assms(2) op by (simp add: well_named_def)
    have "implements_op num (trx_id trx) op G s s'"
      using assms(1,3) named op True False
      by (cases op)
        (auto simp: handle_trx_def simp del: well_named_op.simps intro: handle_create_holds handle_update_holds
          handle_payment_holds handle_selttement_holds handle_receipt_holds handle_refund_holds handle_increase_holds
          no_write_holds)
    then show ?thesis using op True False by (auto simp: implements_op_def)
  qed
qed

lemma handle_trxs_holds:
  "holds_ledger E K s G \<Longrightarrow> list_all (well_named K) trxs \<Longrightarrow> handle_trxs E num trxs s = Inr s' \<Longrightarrow>
   \<exists>G'. ledger_trxs E num trxs G (g_mysql_task s) = Inr (G', g_mysql_task s') \<and> holds_ledger E K s' G'"
proof (induction trxs arbitrary: s G)
  case (Cons trx rest)
  then obtain s1 where s1: "handle_trx E num trx s = Inr s1" "handle_trxs E num rest s1 = Inr s'" by auto
  obtain ws where "trx_writes E num trx G = Inr ws" "after_writes s ws G s1"
    using handle_trx_holds [OF Cons.prems(1) _ s1(1)] Cons.prems(2) by auto
  with Cons.IH [OF _ _ s1(2)] Cons.prems(2) show ?case by (auto simp: after_writes_def simp del: trx_writes.simps)
qed simp

end

section \<open>What a settlement credits\<close>

definition pieces_of :: "(string, u32) smap \<Rightarrow> string \<Rightarrow> u32" where
  "pieces_of m a = (case smap_find m a of None \<Rightarrow> 0 | Some v \<Rightarrow> v)"

lemma pieces_of_add:
  "no_nul account \<Longrightarrow> pieces_of (add_pieces account piece m) a = pieces_of m a + (if a = account then ucast piece else 0)"
  by (auto simp: pieces_of_def add_pieces_def Let_def split: option.splits)

text \<open>
  The pieces an entry of a settlement is worth at the price \<open>unit\<close>: the entry is a receipt, and the
  amount it stands for, scaled by the ratio, is a whole number of pieces.
\<close>

definition entry_pieces :: "('db, 'sh, 'm) handle_env \<Rightarrow> 'm \<Rightarrow> 'sh settlement_operation \<Rightarrow> 'sh \<Rightarrow> nat \<Rightarrow> u64 option" where
  "entry_pieces E ratio op unit i =
     (if so_business_type op ! i \<noteq> TORRENT_RECEIPT_TRANSFER E then None
      else let t = get_ratio_value (he_mpd E) ratio (so_amount op ! i) 1000000000000000000 8
           in case sh_div (he_share E) t unit of
                None \<Rightarrow> None
              | Some quot \<Rightarrow>
                  (case sh_to_u64 (he_share E) quot of
                     None \<Rightarrow> None
                   | Some piece \<Rightarrow> if sh_mul (he_share E) (sh_of_u64 (he_share E) piece) unit = t then Some piece else None))"

definition credited :: "('db, 'sh, 'm) handle_env \<Rightarrow> 'm \<Rightarrow> 'sh settlement_operation \<Rightarrow> 'sh \<Rightarrow> string \<Rightarrow> nat \<Rightarrow> u32" where
  "credited E ratio op unit a i =
     (if so_account op ! i = a then (case entry_pieces E ratio op unit i of None \<Rightarrow> 0 | Some n \<Rightarrow> ucast n) else 0)"

lemma piece_amount_pay_pieces [simp]: "piece_amount S (tp\<lparr>p_pay_pieces := m\<rparr>) = piece_amount S tp"
  by (simp add: piece_amount_def)

text \<open>One round of the loop: it stops with a fault, skips the entry, or credits its account.\<close>

lemma settle_loop_step:
  assumes "settle_loop E ratio op (i # rest) tp = Inr tp'" "list_all no_nul (so_account op)" "i < length (so_account op)"
  shows "\<exists>m. settle_loop E ratio op rest (tp\<lparr>p_pay_pieces := m\<rparr>) = Inr tp' \<and>
     (\<forall>a. pieces_of m a = pieces_of (p_pay_pieces tp) a +
        (if so_business_type op ! i = TORRENT_RECEIPT_TRANSFER E
         then (case piece_amount (he_share E) tp of Inl _ \<Rightarrow> 0 | Inr unit \<Rightarrow> credited E ratio op unit a i) else 0))"
proof -
  have acc: "no_nul (so_account op ! i)" using assms(2,3) by (simp add: list_all_length)
  have keep: "tp\<lparr>p_pay_pieces := p_pay_pieces tp\<rparr> = tp" by simp
  have skip: ?thesis if "settle_loop E ratio op rest tp = Inr tp'"
    "so_business_type op ! i = TORRENT_RECEIPT_TRANSFER E \<Longrightarrow>
       \<exists>unit. piece_amount (he_share E) tp = Inr unit \<and> entry_pieces E ratio op unit i = None"
    using that by (intro exI [of _ "p_pay_pieces tp"]) (auto simp: credited_def)
  show ?thesis
  proof (cases "so_business_type op ! i = TORRENT_RECEIPT_TRANSFER E")
    case False
    then show ?thesis using assms(1) skip by (auto simp: vec_at_Inr_iff elim!: res_bind_InrE)
  next
    case True
    then obtain unit quot piece where u: "piece_amount (he_share E) tp = Inr unit"
      and q: "sh_div (he_share E) (get_ratio_value (he_mpd E) ratio (so_amount op ! i) 1000000000000000000 8) unit = Some quot"
      and p: "sh_to_u64 (he_share E) quot = Some piece"
      and r: "(if sh_mul (he_share E) (sh_of_u64 (he_share E) piece) unit \<noteq>
                 get_ratio_value (he_mpd E) ratio (so_amount op ! i) 1000000000000000000 8
               then settle_loop E ratio op rest tp
               else settle_loop E ratio op rest (tp\<lparr>p_pay_pieces := add_pieces (so_account op ! i) piece (p_pay_pieces tp)\<rparr>)) = Inr tp'"
      using assms(1,3) by (auto simp: vec_at_def nothrow_Inr_iff Let_def split: if_split_asm elim!: res_bind_InrE)
    show ?thesis
    proof (cases "sh_mul (he_share E) (sh_of_u64 (he_share E) piece) unit =
        get_ratio_value (he_mpd E) ratio (so_amount op ! i) 1000000000000000000 8")
      case eq: True
      then have "entry_pieces E ratio op unit i = Some piece"
        using True q p by (simp add: entry_pieces_def Let_def)
      with r eq True u pieces_of_add [OF acc] show ?thesis by (auto simp: credited_def)
    next
      case False
      then have "entry_pieces E ratio op unit i = None" using True q p by (simp add: entry_pieces_def Let_def)
      with skip r False u show ?thesis by auto
    qed
  qed
qed

lemma settle_loop_credits:
  assumes "piece_amount (he_share E) tp = Inr unit" "list_all no_nul (so_account op)"
  shows "settle_loop E ratio op is tp = Inr tp' \<Longrightarrow> \<forall>i\<in>set is. i < length (so_account op) \<Longrightarrow>
     pieces_of (p_pay_pieces tp') a = pieces_of (p_pay_pieces tp) a + (\<Sum>i\<leftarrow>is. credited E ratio op unit a i)"
  using assms(1)
proof (induction "is" arbitrary: tp)
  case (Cons i rest)
  have zero: "so_business_type op ! i \<noteq> TORRENT_RECEIPT_TRANSFER E \<Longrightarrow> credited E ratio op unit a i = 0"
    by (simp add: credited_def entry_pieces_def)
  obtain m where m: "settle_loop E ratio op rest (tp\<lparr>p_pay_pieces := m\<rparr>) = Inr tp'"
    "pieces_of m a = pieces_of (p_pay_pieces tp) a + credited E ratio op unit a i"
    using settle_loop_step [OF Cons.prems(1) assms(2)] Cons.prems(2,3) zero by fastforce
  with Cons.IH [OF m(1)] Cons.prems(2,3) show ?case by (simp add: add.assoc)
qed simp

lemma entry_pieces_exact:
  assumes "share_arith (he_share E) val B" "entry_pieces E ratio op unit i = Some n"
  shows "so_business_type op ! i = TORRENT_RECEIPT_TRANSFER E \<and>
     val (get_ratio_value (he_mpd E) ratio (so_amount op ! i) 1000000000000000000 8) = unat n * val unit"
proof -
  let ?t = "get_ratio_value (he_mpd E) ratio (so_amount op ! i) 1000000000000000000 8"
  obtain quot where q: "sh_div (he_share E) ?t unit = Some quot" "sh_to_u64 (he_share E) quot = Some n"
    "sh_mul (he_share E) (sh_of_u64 (he_share E) n) unit = ?t"
    and b: "so_business_type op ! i = TORRENT_RECEIPT_TRANSFER E"
    using assms(2) by (auto simp: entry_pieces_def Let_def split: if_split_asm option.split_asm)
  note v = share_arith.val_divD [OF assms(1) q(1)]
  have "unat n \<le> val quot"
  proof (cases "val quot < 2 ^ 64")
    case True
    then show ?thesis
      using share_arith.to_u64 [OF assms(1)] q(2) by (auto simp: unat_of_nat take_bit_nat_eq_self)
  next
    case False
    moreover have "unat n < 2 ^ 64" by (rule order_less_le_trans [OF unsigned_less]) simp
    ultimately show ?thesis by simp
  qed
  then have "unat n * val unit \<le> val quot * val unit" by (rule mult_le_mono1)
  also have "\<dots> = val ?t div val unit * val unit" using v by simp
  also have "\<dots> \<le> val ?t" by (rule div_times_less_eq_dividend)
  finally have "unat n * val unit \<le> val ?t" .
  then have "unat n * val unit < B" using share_arith.val_bound [OF assms(1), of ?t] by simp
  with share_arith.mul_of_u64_eq [OF assms(1)] q(3) b show ?thesis by blast
qed

section \<open>Payments and their torrents\<close>

definition refs_ok :: "ledger \<Rightarrow> bool" where
  "refs_ok G \<longleftrightarrow> (\<forall>k p. lg_payments G k = Some p \<longrightarrow> lg_torrents G (p_torrent_id p) \<noteq> None)"

lemma refs_ok_torrent: "refs_ok G \<Longrightarrow> refs_ok (apply_write (WriteTorrent t) G)"
  by (auto simp: refs_ok_def)

lemma refs_ok_payment:
  "refs_ok G \<Longrightarrow> lg_torrents G (p_torrent_id p) \<noteq> None \<Longrightarrow> refs_ok (apply_write (WritePayment p) G)"
  by (auto simp: refs_ok_def)

text \<open>Writes of which each payment names a torrent that is there.\<close>

definition refs_kept :: "ledger \<Rightarrow> ledger_write list \<Rightarrow> bool" where
  "refs_kept G ws \<longleftrightarrow>
     (\<forall>w \<in> set ws. case w of WriteTorrent _ \<Rightarrow> True | WritePayment p \<Rightarrow> lg_torrents G (p_torrent_id p) \<noteq> None)"

lemma refs_kept_fold: "refs_ok G \<Longrightarrow> refs_kept G ws \<Longrightarrow> refs_ok (fold apply_write ws G)"
proof (induction ws arbitrary: G)
  case (Cons w ws)
  have "refs_kept (apply_write w G) ws" "refs_ok (apply_write w G)"
    using Cons.prems refs_ok_torrent refs_ok_payment
    by (cases w; fastforce simp: refs_kept_def split: ledger_write.splits)+
  then show ?case using Cons.IH by simp
qed simp

lemma op_writes_refs:
  assumes "refs_ok G" "well_named_op K tid op" "op_writes E num tid op G = Inr ws"
  shows "refs_kept G ws"
  using assms
  by (cases op)
    (auto simp: refs_kept_def refs_ok_def new_payment_def increased_payment_def Let_def
      split: option.split_asm prod.split_asm elim!: res_bind_InrE)

lemma trx_writes_refs:
  assumes "refs_ok G" "well_named K trx" "trx_writes E num trx G = Inr ws"
  shows "refs_kept G ws"
proof (cases "operations trx")
  case (Cons op rest)
  show ?thesis
  proof (cases "rest = [] \<and> validate_type trx = 1")
    case True
    with Cons assms show ?thesis
      by (auto simp: refs_kept_def refs_ok_def split: operation.split_asm option.split_asm
          dest!: settle_payment_ids elim!: res_bind_InrE)
  next
    case False
    with Cons assms op_writes_refs [OF assms(1), of K "trx_id trx" op E num ws] show ?thesis
      by (auto simp: well_named_def refs_kept_def split: list.split_asm if_split_asm)
  qed
qed (use assms in \<open>simp add: refs_kept_def\<close>)

lemma ledger_trxs_refs:
  "ledger_trxs E num trxs G m = Inr (G', m') \<Longrightarrow> refs_ok G \<Longrightarrow> list_all (well_named K) trxs \<Longrightarrow> refs_ok G'"
proof (induction trxs arbitrary: G m)
  case (Cons trx trxs)
  then obtain ws m1 where ws: "trx_writes E num trx G = Inr ws"
    and rest: "ledger_trxs E num trxs (fold apply_write ws G) m1 = Inr (G', m')"
    by (auto simp del: trx_writes.simps elim!: res_bind_InrE)
  have "refs_kept G ws" using trx_writes_refs [OF Cons.prems(2) _ ws, of K] Cons.prems(3) by simp
  with Cons.IH [OF rest] refs_kept_fold Cons.prems(2,3) show ?case by simp
qed simp

section \<open>A concrete environment\<close>

text \<open>128-bit amounts, a database that is a map, and a decimal library that keeps amounts whole.\<close>

definition whole_mpd :: "(128 word, nat) mpd_ops" where
  "whole_mpd = \<lparr>mp_decimal = (\<lambda>_ _. 1), mp_devide = (\<lambda>a _ _. unat a), mp_mul = (\<lambda>m _ _. of_nat m),
     mp_div = (\<lambda>a b. a div b), mp_to_sci = dec\<rparr>"

definition demo_torrent_env :: "(128 word, nat) torrent_env" where
  "demo_torrent_env =
     \<lparr>te_share = w128_share, te_mpd = whole_mpd,
      te_assets = [(1, \<lparr>as_id = 1, as_symbol = ''BTT'', as_chain_contract_address = [], as_chain_type = 3,
                       as_base_precision = 100, as_min_transfer_amount = 1\<rparr>)],
      te_now = (\<lambda>_. ''1.500000''), te_pieces_order = (\<lambda>m. m), te_trx_order = (\<lambda>m. m)\<rparr>"

definition demo_handle_env :: "(string \<Rightarrow> string option, 128 word, nat) handle_env" where
  "demo_handle_env =
     \<lparr>he_ldb = map_leveldb, he_codec = num_codec, he_torrent = demo_torrent_env,
      TORRENT_RECEIPT_TRANSFER = 7, ORR_OK = 0, TORRENT_AUTHOR_PERCENT = 100\<rparr>"

lemma demo_handle_env_simps [simp]:
  "he_ldb demo_handle_env = map_leveldb" "he_codec demo_handle_env = num_codec"
  "he_torrent demo_handle_env = demo_torrent_env" "te_share demo_torrent_env = w128_share"
  "te_mpd demo_torrent_env = whole_mpd" "TORRENT_RECEIPT_TRANSFER demo_handle_env = 7"
  "ORR_OK demo_handle_env = 0" "TORRENT_AUTHOR_PERCENT demo_handle_env = 100"
  by (simp_all add: demo_handle_env_def demo_torrent_env_def)

interpretation demo_ledger: ledger_store demo_handle_env K for K
  by (rule ledger_store.intro) (simp_all add: map_store.torrent_store_axioms mapdb.reliable_leveldb_axioms)

definition demo_server :: "(string \<Rightarrow> string option) server_state" where
  "demo_server = \<lparr>g_torrent_database = \<lparr>td_is_open = True, td_db = DbLive (\<lambda>_. None), td_sync = True\<rparr>, g_mysql_task = []\<rparr>"

definition demo_create :: "128 word torrent_create_operation" where
  "demo_create = \<lparr>tc_id = ''t1'', tc_creator = ''ann'', tc_asset_type = 1, tc_amount = 500, tc_percent = 40\<rparr>"

definition demo_block :: "128 word signed_block" where
  "demo_block = \<lparr>block_num = 9, block_type = 3, transactions =
     [\<lparr>trx_id = ''x1'', operations = [OI_TORRENT_CREATE demo_create], validate_type = 0,
       proposal_transaction_id = None, operation_results = [0]\<rparr>]\<rparr>"

lemma demo_holds: "holds_ledger demo_handle_env K demo_server \<lparr>lg_torrents = \<lambda>_. None, lg_payments = \<lambda>_. None\<rparr>"
  by (simp add: holds_ledger_def demo_server_def ledger_ok_def map_leveldb_def)

lemma demo_block_returns: "\<exists>s'. handle_block demo_handle_env True demo_block demo_server = Inr (0, s')"
proof -
  have "\<exists>ret m. append_torrent_create demo_torrent_env (new_torrent w128_share 9 ''x1'' demo_create) [] = Inr (ret, m)"
    by (auto simp: append_torrent_create_def get_asset_by_id_def new_torrent_def demo_create_def amount_mpd_def
        demo_torrent_env_def Let_def w128.of_to_string w128.no_nul_to_string)
  then show ?thesis
    by (auto simp: handle_block_def demo_block_def handle_trx_def handle_create_def update_torrent_def save_torrent_def
        save_or_update_torrent_def demo_server_def map_leveldb_def mirror_torrent_def)
qed

definition demo_settlement :: "128 word settlement_operation" where
  "demo_settlement = \<lparr>so_account = [''bob''], so_amount = [30], so_business_type = [7]\<rparr>"

definition demo_payment :: torrent_payment where
  "demo_payment = empty_payment\<lparr>p_transfer_one_piece_amount := ''7'', p_receiver_author_one_piece_amount := ''3''\<rparr>"

lemma demo_piece: "piece_amount w128_share demo_payment = Inr 10"
  by (simp add: piece_amount_def demo_payment_def w128_share_def is_digit_def dec_val_def digit_val_def)

lemma demo_entry:
  "entry_pieces demo_handle_env 1 demo_settlement 10 0 = Some 3"
  by (simp add: entry_pieces_def demo_settlement_def get_ratio_value_def whole_mpd_def w128_simps)

lemma demo_settle: "\<exists>tp'. settle_payment demo_handle_env demo_settlement demo_payment = Inr tp'"
  by (simp add: settle_payment_def demo_settlement_def demo_piece get_ratio_value_def whole_mpd_def w128_simps)

section \<open>Properties\<close>



text \<open>C2: A settlement credits exactly the pieces it pays for.  Every account's count grows by the sum,
  modulo \<open>2 ^ 32\<close>, of the pieces of its entries; an entry counts only if it is a receipt and its amount,
  scaled by the ratio, is exactly that many pieces at the payment's price; nothing else of the
  payment changes.\<close>

theorem settlement_credits_whole_pieces:
  assumes "share_arith (he_share E) val B" "list_all no_nul (so_account op)"
    and "piece_amount (he_share E) tp = Inr unit" "settle_payment E op tp = Inr tp'"
  shows "pieces_of (p_pay_pieces tp') a = pieces_of (p_pay_pieces tp) a +
       (\<Sum>i\<leftarrow>[0..<length (so_account op)]. credited E (mp_decimal (he_mpd E) (get_ratio (p_pieces tp)) 18) op unit a i) \<and>
     (\<forall>i n. entry_pieces E (mp_decimal (he_mpd E) (get_ratio (p_pieces tp)) 18) op unit i = Some n \<longrightarrow>
        so_business_type op ! i = TORRENT_RECEIPT_TRANSFER E \<and>
        val (get_ratio_value (he_mpd E) (mp_decimal (he_mpd E) (get_ratio (p_pieces tp)) 18) (so_amount op ! i) 1000000000000000000 8) =
          unat n * val unit) \<and>
     tp' = tp\<lparr>p_pay_pieces := p_pay_pieces tp'\<rparr>"
  using settle_loop_credits [OF assms(3,2) assms(4) [unfolded settle_payment_def Let_def]]
    entry_pieces_exact [OF assms(1)] settle_payment_ids [OF assms(4)] by auto

theorem settlement_credits_whole_pieces_witness:
  "\<exists>tp'. settle_payment demo_handle_env demo_settlement demo_payment = Inr tp' \<and> pieces_of (p_pay_pieces tp') ''bob'' = 3"
proof -
  obtain tp' where tp': "settle_payment demo_handle_env demo_settlement demo_payment = Inr tp'"
    using demo_settle by blast
  have "pieces_of (p_pay_pieces tp') ''bob'' = pieces_of (p_pay_pieces demo_payment) ''bob'' +
      (\<Sum>i\<leftarrow>[0..<length (so_account demo_settlement)]. credited demo_handle_env
         (mp_decimal (he_mpd demo_handle_env) (get_ratio (p_pieces demo_payment)) 18) demo_settlement 10 ''bob'' i)"
    using settlement_credits_whole_pieces [of demo_handle_env unat "2 ^ 128" demo_settlement demo_payment 10 tp' "''bob''"]
      w128.share_arith_axioms demo_piece tp' by (simp add: demo_settlement_def no_nul_def)
  also have "\<dots> = 3" 
    using demo_entry by (simp add: credited_def whole_mpd_def pieces_of_def demo_payment_def empty_payment_def demo_settlement_def)
  finally show ?thesis using tp' by blast
qed



text \<open>C5: The split of the author's amount is exact and never overspends.  One piece is worth the
  balance divided by the number of pieces, so all pieces together cost at most the balance; the
  author keeps \<open>t_percent\<close> hundredths of it, rounded down per \<open>TORRENT_AUTHOR_PERCENT\<close>, and the receivers
  get exactly the rest, provided the percentage is not above the whole.  A payment for no pieces
  makes the division throw.\<close>

theorem author_split_exact:
  assumes "share_arith (he_share E) val B" "unat (t_percent t) \<le> val (TORRENT_AUTHOR_PERCENT E)"
  shows "(pieces = 0 \<longrightarrow> author_split E t pieces = Inl Uncaught) \<and>
     (\<forall>author receiver. author_split E t pieces = Inr (author, receiver) \<longrightarrow>
       (\<exists>balance. sh_of_string (he_share E) (t_balance t) = Some balance \<and>
          val author = val balance div unat pieces \<and> unat pieces * val author \<le> val balance \<and>
          val receiver + val author div val (TORRENT_AUTHOR_PERCENT E) * unat (t_percent t) = val author))"
proof (intro conjI allI impI)
  assume "pieces = 0"
  then show "author_split E t pieces = Inl Uncaught"
    using share_arith.div_zero [OF assms(1)] share_arith.val_of_u64 [OF assms(1)]
    by (auto simp: author_split_def Let_def nothrow_def split: option.split)
next
  fix author receiver
  assume "author_split E t pieces = Inr (author, receiver)"
  then obtain balance part where b: "sh_of_string (he_share E) (t_balance t) = Some balance"
    and a: "sh_div (he_share E) balance (sh_of_u64 (he_share E) (ucast pieces)) = Some author"
    and p: "sh_div (he_share E) author (TORRENT_AUTHOR_PERCENT E) = Some part"
    and r: "receiver = sh_sub (he_share E) author (sh_mul (he_share E) part (sh_of_u64 (he_share E) (ucast (t_percent t))))"
    by (auto simp: author_split_def Let_def nothrow_Inr_iff elim!: res_bind_InrE)
  have u: "val (sh_of_u64 (he_share E) (ucast w)) = unat w" for w :: u32
    using share_arith.val_of_u64 [OF assms(1)]
    by (simp add: unsigned_ucast_eq take_bit_nat_eq_self order_less_le_trans [OF unsigned_less])
  have va: "val author = val balance div unat pieces" and vp: "val part = val author div val (TORRENT_AUTHOR_PERCENT E)"
    using share_arith.val_divD [OF assms(1) a] share_arith.val_divD [OF assms(1) p] u by auto
  have le: "val part * unat (t_percent t) \<le> val author"
    using vp assms(2) le_trans [OF mult_le_mono2 [OF assms(2)] div_times_less_eq_dividend] by simp
  then have "val (sh_mul (he_share E) part (sh_of_u64 (he_share E) (ucast (t_percent t)))) = val part * unat (t_percent t)"
    using share_arith.val_mul [OF assms(1)] share_arith.val_bound [OF assms(1), of author] u by simp
  with r le share_arith.val_sub [OF assms(1)] have "val receiver = val author - val part * unat (t_percent t)" by simp
  with b va vp le show "\<exists>balance. sh_of_string (he_share E) (t_balance t) = Some balance \<and>
      val author = val balance div unat pieces \<and> unat pieces * val author \<le> val balance \<and>
      val receiver + val author div val (TORRENT_AUTHOR_PERCENT E) * unat (t_percent t) = val author" by auto
qed

theorem author_split_exact_witness:
  "\<exists>author receiver. author_split demo_handle_env (empty_torrent\<lparr>t_balance := ''1050'', t_percent := 40\<rparr>) 5 = Inr (author, receiver) \<and>
     unat author = 210 \<and> unat receiver = 130"
proof -
  let ?t = "empty_torrent\<lparr>t_balance := ''1050'', t_percent := 40\<rparr>"
  obtain author receiver where r: "author_split demo_handle_env ?t 5 = Inr (author, receiver)"
    by (simp add: author_split_def w128_simps is_digit_def)
  have b: "sh_of_string w128_share ''1050'' = Some 1050"
    by (simp add: w128_simps is_digit_def dec_val_def digit_val_def)
  have "unat (t_percent ?t) \<le> unat (TORRENT_AUTHOR_PERCENT demo_handle_env)" by simp
  then have "\<exists>balance. sh_of_string w128_share (t_balance ?t) = Some balance \<and>
      unat author = unat balance div unat (5 :: u32) \<and> unat (5 :: u32) * unat author \<le> unat balance \<and>
      unat receiver + unat author div unat (100 :: 128 word) * unat (t_percent ?t) = unat author"
    using author_split_exact [of demo_handle_env unat "2 ^ 128" ?t 5] w128.share_arith_axioms r by simp
  with b r show ?thesis by auto
qed

end
