(* ===== verification/Server.thy ===== *)
theory Server
  imports Fullnode HandleBlock
begin

text \<open>
  \<^verbatim>\<open>torrent_server.cpp\<close> with \<^verbatim>\<open>init_torrent\<close> and \<^verbatim>\<open>fini_torrent\<close> of \<^verbatim>\<open>torrent.cpp\<close> and the channel set-up of
  \<^verbatim>\<open>http_client.cpp\<close> and \<^verbatim>\<open>redis_client.cpp\<close>: how the server is put together from the components, in which order,
  and how it is taken apart.  Error codes are the negated line of the \<^verbatim>\<open>return\<close> statement.  Library calls are
  fields of \<open>server_env\<close>; \<open>se_run\<close> is what the worker threads do between start and quit.
\<close>

section \<open>Flags\<close>

record flags =
  FLAGS_fullnode_server :: string
  FLAGS_user_server :: string
  FLAGS_load_balancer :: string
  FLAGS_kafka_brokers :: string
  FLAGS_kafka_topic :: string
  FLAGS_redis_address :: string
  FLAGS_mysql_host :: string
  FLAGS_mysql_user :: string
  FLAGS_mysql_name :: string
  FLAGS_mysql_password :: string
  FLAGS_mysql_charset :: string
  FLAGS_full_node_path :: string
  FLAGS_full_node_url :: string
  FLAGS_user_node_url :: string
  FLAGS_http_url :: string
  FLAGS_mysql_port :: int
  FLAGS_mysql_exe_time :: int
  FLAGS_get_block_time :: int
  FLAGS_start_num :: u64
  FLAGS_chain_type :: u64
  FLAGS_port :: int

definition default_flags :: flags where
  "default_flags =
     \<lparr>FLAGS_fullnode_server = [], FLAGS_user_server = [], FLAGS_load_balancer = [], FLAGS_kafka_brokers = [],
      FLAGS_kafka_topic = [], FLAGS_redis_address = [], FLAGS_mysql_host = [], FLAGS_mysql_user = [],
      FLAGS_mysql_name = [], FLAGS_mysql_password = [], FLAGS_mysql_charset = [], FLAGS_full_node_path = [],
      FLAGS_full_node_url = [], FLAGS_user_node_url = [], FLAGS_http_url = [], FLAGS_mysql_port = - 1,
      FLAGS_mysql_exe_time = - 1, FLAGS_get_block_time = - 1, FLAGS_start_num = - 1, FLAGS_chain_type = - 1,
      FLAGS_port = 0\<rparr>"

section \<open>The process\<close>

datatype periodic_task = MysqlPeriodic mysql_check_task timespec | FullnodePeriodic fullnode_check_task timespec

record ('q, 'w, 'db, 'sh) server_state =
  sv_mysql :: "('q, 'w) my_state"
  sv_mysql_queue :: mysql_queue
  sv_mutex :: bool
  sv_tasks :: "periodic_task list"
  sv_torrents :: "'db torrent_database"
  sv_accounts_open :: bool
  sv_base_url :: string
  sv_assets :: asset_map
  sv_callback :: bool
  sv_blocks :: "'db block_leveldb"
  sv_block_queue :: "'sh block_queue"
  sv_user_channel :: bool
  sv_fullnode_channel :: bool
  sv_logging :: bool

record ('c, 'q, 'w, 'db, 'sh, 'o, 'a) server_env =
  se_pool :: "('q, 'c option) cq_ops"
  se_mysql :: "('c, 'w) mysql_ops"
  se_ldb :: "'db leveldb_ops"
  se_json :: "('o, 'a) jsonxx_ops"
  se_mutex_init :: int
  se_nproc :: u64
  se_now :: timespec
  se_init_mpd :: int
  se_has_dir :: "string \<Rightarrow> bool"
  se_mkdir :: "string \<Rightarrow> bool"
  se_accounts_open :: int
  se_asset_list :: "string \<Rightarrow> int \<times> string"
  se_channel_init :: "string \<Rightarrow> string \<Rightarrow> int"
  se_add_service :: "string \<Rightarrow> int"
  se_start :: "int \<Rightarrow> int"
  se_mysql_start :: "mysql_queue \<Rightarrow> int \<times> mysql_queue"
  se_mysql_stop :: "mysql_queue \<Rightarrow> int \<times> mysql_queue"
  se_block_start :: "'sh block_queue \<Rightarrow> int \<times> 'sh block_queue"
  se_block_stop :: "'sh block_queue \<Rightarrow> int \<times> 'sh block_queue"
  se_run :: "('q, 'w, 'db, 'sh) server_state \<Rightarrow> ('q, 'w, 'db, 'sh) server_state"

definition http_client_init :: "(string \<Rightarrow> string \<Rightarrow> int) \<Rightarrow> string \<Rightarrow> string \<Rightarrow> int" where
  "http_client_init chan server load_balancer = (if chan (c_str server) (c_str load_balancer) \<noteq> 0 then - 1 else 0)"

definition redis_client_init :: "(string \<Rightarrow> int) \<Rightarrow> string \<Rightarrow> int" where
  "redis_client_init chan address = (if chan (c_str address) \<noteq> 0 then - 1 else 0)"

definition mysql_params :: "flags \<Rightarrow> conn_params" where
  "mysql_params F =
     \<lparr>cp_host = c_str (FLAGS_mysql_host F), cp_user = c_str (FLAGS_mysql_user F), cp_pass = c_str (FLAGS_mysql_password F),
      cp_name = c_str (FLAGS_mysql_name F), cp_port = FLAGS_mysql_port F, cp_charset = c_str (FLAGS_mysql_charset F)\<rparr>"

section \<open>Start-up\<close>

text \<open>Only a negative result of \<open>mysql_conn_pool_init\<close> counts as a failure here.\<close>

definition task_init ::
  "('c, 'q, 'w, 'db, 'sh, 'o, 'a) server_env \<Rightarrow> flags \<Rightarrow> ('q, 'w, 'db, 'sh) server_state
     \<Rightarrow> (int \<times> ('q, 'w, 'db, 'sh) server_state) res" where
  "task_init E F s =
     (if se_mutex_init E \<noteq> 0 then Inr (- 32, s)
      else res_bind (milliseconds_from_now (se_now E) (FLAGS_mysql_exe_time F)) (\<lambda>at.
        let task = MysqlCheckTask (FLAGS_mysql_host F) (FLAGS_mysql_user F) (FLAGS_mysql_password F) (FLAGS_mysql_name F)
              (FLAGS_mysql_port F) (FLAGS_mysql_charset F) (FLAGS_mysql_exe_time F);
            s1 = s\<lparr>sv_mutex := True, sv_tasks := sv_tasks s @ [MysqlPeriodic task at]\<rparr>
        in res_bind (mysql_conn_pool_init (se_pool E) (se_mysql E) (mysql_params F) (se_nproc E) (sv_mysql s1)) (\<lambda>(ret, my).
           let s2 = s1\<lparr>sv_mysql := my\<rparr>
           in if ret < 0 then Inr (- 49, s2)
              else Inr (0, s2\<lparr>sv_mysql_queue := mysql_exe_queue_start_batch (se_mysql_start E) (sv_mysql_queue s2)\<rparr>))))"

definition init_torrent ::
  "('c, 'q, 'w, 'db, 'sh, 'o, 'a) server_env \<Rightarrow> flags \<Rightarrow> ('q, 'w, 'db, 'sh) server_state
     \<Rightarrow> (int \<times> ('q, 'w, 'db, 'sh) server_state) res" where
  "init_torrent E F s =
     (if se_init_mpd E < 0 then Inr (se_init_mpd E, s)
      else let (ret, torrents) = init_torrent_level_db (se_ldb E)
                 (se_has_dir E ''./database/torrents'') (se_mkdir E ''./database/torrents'')
                 (se_has_dir E ''./database/accounts'') (se_mkdir E ''./database/accounts'') (se_accounts_open E) (sv_torrents s);
               s1 = s\<lparr>sv_torrents := torrents\<rparr>
           in if ret < 0 then Inr (ret, s1)
              else let (code, body) = se_asset_list E (FLAGS_http_url F);
                       s2 = s1\<lparr>sv_accounts_open := True, sv_base_url := FLAGS_http_url F\<rparr>
                   in res_bind (init_asset (se_json E) code body (sv_assets s2)) (\<lambda>(ret, assets).
                      let s3 = s2\<lparr>sv_assets := assets\<rparr>
                      in if ret \<noteq> 0 then Inr (- 92, s3)
                         else if http_client_init (se_channel_init E) (FLAGS_user_server F) (FLAGS_load_balancer F) < 0
                         then Inr (- 98, s3)
                         else Inr (0, s3\<lparr>sv_user_channel := True\<rparr>)))"

definition init_fullnode ::
  "('c, 'q, 'w, 'db, 'sh, 'o, 'a) server_env \<Rightarrow> flags \<Rightarrow> ('q, 'w, 'db, 'sh) server_state
     \<Rightarrow> (int \<times> ('q, 'w, 'db, 'sh) server_state) res" where
  "init_fullnode E F s =
     (let s1 = s\<lparr>sv_callback := True\<rparr>;
          (ret, blocks) = init_fullnode_task (se_ldb E) (FLAGS_full_node_path F) (sv_blocks s1);
          s2 = s1\<lparr>sv_blocks := blocks\<rparr>
      in if ret \<noteq> 0 then Inr (- 11, s2)
         else if http_client_init (se_channel_init E) (FLAGS_fullnode_server F) (FLAGS_load_balancer F) < 0 then Inr (- 18, s2)
         else res_bind (milliseconds_from_now (se_now E) (FLAGS_get_block_time F)) (\<lambda>at.
           let task = FullnodeCheckTask (FLAGS_get_block_time F) (FLAGS_start_num F) (FLAGS_chain_type F) (FLAGS_full_node_url F);
               s3 = s2\<lparr>sv_fullnode_channel := True, sv_tasks := sv_tasks s2 @ [FullnodePeriodic task at]\<rparr>
           in Inr (0, s3\<lparr>sv_block_queue := block_exe_queue_start (se_block_start E) (sv_block_queue s3)\<rparr>)))"

section \<open>Shut-down\<close>

definition fini_full_node ::
  "('c, 'q, 'w, 'db, 'sh, 'o, 'a) server_env \<Rightarrow> ('q, 'w, 'db, 'sh) server_state \<Rightarrow> ('q, 'w, 'db, 'sh) server_state res" where
  "fini_full_node E s =
     res_bind (fini_fullnode_task (sv_blocks s)) (\<lambda>(_, blocks).
       Inr (s\<lparr>sv_block_queue := block_exe_queue_stop (se_block_stop E) (sv_block_queue s), sv_blocks := blocks\<rparr>))"

definition fini_torrent :: "('q, 'w, 'db, 'sh) server_state \<Rightarrow> (int \<times> ('q, 'w, 'db, 'sh) server_state) res" where
  "fini_torrent s =
     res_bind (fini_torrent_level_db (sv_torrents s)) (\<lambda>(_, torrents).
       Inr (0, s\<lparr>sv_torrents := torrents, sv_accounts_open := False\<rparr>))"

definition task_fini ::
  "('c, 'q, 'w, 'db, 'sh, 'o, 'a) server_env \<Rightarrow> ('q, 'w, 'db, 'sh) server_state \<Rightarrow> ('q, 'w, 'db, 'sh) server_state res" where
  "task_fini E s =
     (let s1 = s\<lparr>sv_mysql_queue := mysql_exe_queue_stop_batch (se_mysql_stop E) (sv_mysql_queue s)\<rparr>
      in res_bind (mysql_conn_pool_fini (se_pool E) (sv_mysql s1)) (\<lambda>(_, my).
           Inr (s1\<lparr>sv_mysql := my, sv_mutex := False, sv_logging := False\<rparr>)))"

section \<open>The main function\<close>

definition restful_mappings :: string where
  "restful_mappings =
     ''/create_torrent_history => get_create_history, '' @ ''/user => get_account, '' @ ''/torrent => get_torrent, '' @
     ''/payment_info => get_torrent_payment, '' @ ''/torrent_payment_history =>get_payment_history''"

definition server_main ::
  "('c, 'q, 'w, 'db, 'sh, 'o, 'a) server_env \<Rightarrow> flags \<Rightarrow> ('q, 'w, 'db, 'sh) server_state
     \<Rightarrow> (int \<times> ('q, 'w, 'db, 'sh) server_state) res" where
  "server_main E F s =
     res_bind (task_init E F (s\<lparr>sv_logging := True\<rparr>)) (\<lambda>(ret, s1).
       if ret < 0 then Inr (- 95, s1)
       else res_bind (init_torrent E F s1) (\<lambda>(ret, s2).
         if ret < 0 then Inr (- 102, s2)
         else res_bind (init_fullnode E F s2) (\<lambda>(ret, s3).
           if ret < 0 then Inr (- 109, s3)
           else if se_add_service E restful_mappings \<noteq> 0 then Inr (- 1, s3)
           else if se_start E (FLAGS_port F) \<noteq> 0 then Inr (- 1, s3)
           else res_bind (fini_full_node E (se_run E s3)) (\<lambda>s4.
                res_bind (fini_torrent s4) (\<lambda>(_, s5).
                res_bind (task_fini E s5) (\<lambda>s6. Inr (0, s6)))))))"

section \<open>What the stages need\<close>

text \<open>Both stores are open on a live database.\<close>

definition stores_live :: "('q, 'w, 'db, 'sh) server_state \<Rightarrow> bool" where
  "stores_live s \<longleftrightarrow> td_is_open (sv_torrents s) \<and> (\<exists>d. td_db (sv_torrents s) = DbLive d) \<and>
     bl_is_open (sv_blocks s) \<and> (\<exists>d. bl_db (sv_blocks s) = DbLive d)"

definition torrent_stage_ok :: "('c, 'q, 'w, 'db, 'sh, 'o, 'a) server_env \<Rightarrow> flags \<Rightarrow> bool" where
  "torrent_stage_ok E F \<longleftrightarrow>
     0 \<le> se_init_mpd E \<and>
     (\<forall>dir \<in> {''./database/torrents'', ''./database/accounts''}. se_has_dir E dir \<or> se_mkdir E dir) \<and>
     ldb_open (se_ldb E) ''./database/torrents'' \<noteq> None \<and> se_accounts_open E = 0 \<and>
     fst (se_asset_list E (FLAGS_http_url F)) = 200 \<and>
     se_channel_init E (c_str (FLAGS_user_server F)) (c_str (FLAGS_load_balancer F)) = 0"

definition fullnode_stage_ok :: "('c, 'q, 'w, 'db, 'sh, 'o, 'a) server_env \<Rightarrow> flags \<Rightarrow> bool" where
  "fullnode_stage_ok E F \<longleftrightarrow>
     ldb_open (se_ldb E) (FLAGS_full_node_path F) \<noteq> None \<and>
     se_channel_init E (c_str (FLAGS_fullnode_server F)) (c_str (FLAGS_load_balancer F)) = 0"

definition exit_code :: "('c, 'q, 'w, 'db, 'sh, 'o, 'a) server_env \<Rightarrow> flags \<Rightarrow> int" where
  "exit_code E F =
     (if se_mutex_init E \<noteq> 0 then - 95 else if \<not> torrent_stage_ok E F then - 102
      else if \<not> fullnode_stage_ok E F then - 109
      else if se_add_service E restful_mappings \<noteq> 0 \<or> se_start E (FLAGS_port F) \<noteq> 0 then - 1 else 0)"

text \<open>
  The surroundings of a start: a pool that is a bag, a sane clock, intervals of 32 bits, an asset list with the
  fields the reader asserts, and worker threads that leave the stores open and the pool in order.
\<close>

locale server_runtime = concurrent_bag "se_pool E" ok items
  for E :: "('c, 'q, 'w, 'db, 'sh, 'o, 'a) server_env" and ok items +
  fixes F :: flags
  assumes now: "ts_normal (se_now E)" "\<bar>tv_sec (se_now E)\<bar> \<le> 2 ^ 62"
    and intervals: "- (2 ^ 31) \<le> FLAGS_mysql_exe_time F" "FLAGS_mysql_exe_time F < 2 ^ 31"
      "- (2 ^ 31) \<le> FLAGS_get_block_time F" "FLAGS_get_block_time F < 2 ^ 31"
    and asset_list: "se_asset_list E (FLAGS_http_url F) = (200, body) \<Longrightarrow> \<exists>as. init_asset (se_json E) 200 body assets = Inr (0, as)"
    and run: "stores_live s \<Longrightarrow> ok (my_pool (sv_mysql s)) \<Longrightarrow>
      stores_live (se_run E s) \<and> ok (my_pool (sv_mysql (se_run E s)))"
begin

lemma pool_init_returns:
  "ok (my_pool s) \<Longrightarrow> \<exists>ret s'. pool_init_loop (se_pool E) M p n s = Inr (ret, s') \<and> (ret = 0 \<or> ret = 48) \<and> ok (my_pool s')"
proof (induction n arbitrary: s)
  case (Suc n)
  obtain conn w where c: "mysql_bytetrade_init M p (my_world s) = (conn, w)" by fastforce
  show ?case
  proof (cases conn)
    case (Some x)
    obtain b q where "cq_enqueue (se_pool E) (Some x) (my_pool s) = Inr (b, q)" "ok q" using enqueue Suc.prems by blast
    with Suc.IH [of "s\<lparr>my_pool := q, my_world := w\<rparr>"] Some c show ?thesis by simp
  qed (use c Suc.prems in simp)
qed simp

lemma pool_fini_drains: "pool_fini_loop (se_pool E) n s = map_sum id (\<lambda>q. s\<lparr>my_pool := q\<rparr>) (drain n (my_pool s))"
proof (induction n arbitrary: s)
  case (Suc n)
  show ?case
  proof (cases "cq_try_dequeue (se_pool E) (my_pool s)")
    case (Inr y)
    then show ?thesis by (cases y) (simp add: Suc.IH sum.map_comp comp_def)
  qed simp
qed simp

lemma pool_fini_returns:
  "ok (my_pool s) \<Longrightarrow> \<exists>q. mysql_conn_pool_fini (se_pool E) s = Inr (0, s\<lparr>my_pool := q\<rparr>) \<and> ok q \<and>
     items q \<subseteq># items (my_pool s) \<and> size (items q) = size (items (my_pool s)) - g_max_conn_size"
  using drain_items [of "my_pool s" g_max_conn_size] by (auto simp: mysql_conn_pool_fini_def pool_fini_drains)

lemma deadlines:
  "\<exists>at. milliseconds_from_now (se_now E) (FLAGS_mysql_exe_time F) = Inr at"
  "\<exists>at. milliseconds_from_now (se_now E) (FLAGS_get_block_time F) = Inr at"
  using now intervals by (auto intro!: milliseconds_from_now_returns)

lemma task_init_returns:
  assumes "ok (my_pool (sv_mysql s))"
  shows "\<exists>s'. task_init E F s = Inr (if se_mutex_init E \<noteq> 0 then - 32 else 0, s') \<and> ok (my_pool (sv_mysql s')) \<and>
     sv_torrents s' = sv_torrents s \<and> sv_blocks s' = sv_blocks s"
  using deadlines(1) pool_init_returns [OF assms, of "se_mysql E" "mysql_params F" "unat (se_nproc E * 2)"] assms
  by (fastforce simp: task_init_def Let_def mysql_conn_pool_init_def)

lemma init_torrent_returns:
  assumes "ok (my_pool (sv_mysql s))"
  shows "\<exists>ret s'. init_torrent E F s = Inr (ret, s') \<and> (0 \<le> ret \<longleftrightarrow> torrent_stage_ok E F) \<and> ok (my_pool (sv_mysql s')) \<and>
     (torrent_stage_ok E F \<longrightarrow> ret = 0 \<and> td_is_open (sv_torrents s') \<and> (\<exists>d. td_db (sv_torrents s') = DbLive d))"
proof -
  obtain code body where r: "se_asset_list E (FLAGS_http_url F) = (code, body)" by fastforce
  obtain ret t where t: "init_torrent_level_db (se_ldb E)
      (se_has_dir E ''./database/torrents'') (se_mkdir E ''./database/torrents'')
      (se_has_dir E ''./database/accounts'') (se_mkdir E ''./database/accounts'') (se_accounts_open E) (sv_torrents s) = (ret, t)"
    by fastforce
  have "0 \<le> ret \<longleftrightarrow> (\<forall>dir \<in> {''./database/torrents'', ''./database/accounts''}. se_has_dir E dir \<or> se_mkdir E dir) \<and>
      ldb_open (se_ldb E) ''./database/torrents'' \<noteq> None \<and> se_accounts_open E = 0"
    and "0 \<le> ret \<Longrightarrow> td_is_open t \<and> (\<exists>d. td_db t = DbLive d)"
    using t by (auto simp: init_torrent_level_db_def td_open_def split: option.splits if_splits)
  moreover obtain as where "init_asset (se_json E) code body (sv_assets s) = Inr (if code = 200 then 0 else 1, as)"
    using asset_list [of body "sv_assets s"] r by (cases "code = 200") (auto simp: init_asset_def)
  ultimately show ?thesis
    using assms r t by (auto simp: init_torrent_def torrent_stage_ok_def http_client_init_def not_le)
qed

lemma init_fullnode_returns:
  assumes "ok (my_pool (sv_mysql s))"
  shows "\<exists>ret s'. init_fullnode E F s = Inr (ret, s') \<and> (0 \<le> ret \<longleftrightarrow> fullnode_stage_ok E F) \<and>
     sv_torrents s' = sv_torrents s \<and> ok (my_pool (sv_mysql s')) \<and>
     (fullnode_stage_ok E F \<longrightarrow> bl_is_open (sv_blocks s') \<and> (\<exists>d. bl_db (sv_blocks s') = DbLive d) \<and>
        (\<exists>at. FullnodePeriodic (FullnodeCheckTask (FLAGS_get_block_time F) (FLAGS_start_num F) (FLAGS_chain_type F)
           (FLAGS_full_node_url F)) at \<in> set (sv_tasks s')))"
proof -
  obtain at where "milliseconds_from_now (se_now E) (FLAGS_get_block_time F) = Inr at" using deadlines(2) by blast
  then show ?thesis
    using assms by (cases "ldb_open (se_ldb E) (FLAGS_full_node_path F)")
      (auto simp: init_fullnode_def fullnode_stage_ok_def init_fullnode_task_def bl_open_def http_client_init_def Let_def)
qed

text \<open>Taking the server apart always succeeds, and this is what is left.\<close>

lemma shutdown_returns:
  assumes "stores_live s" "ok (my_pool (sv_mysql s))"
  shows "\<exists>s4 s5 s6. fini_full_node E s = Inr s4 \<and> fini_torrent s4 = Inr (0, s5) \<and> task_fini E s5 = Inr s6 \<and>
     sv_blocks s6 = (sv_blocks s)\<lparr>bl_db := DbDeleted\<rparr> \<and> sv_torrents s6 = (sv_torrents s)\<lparr>td_db := DbDeleted\<rparr> \<and>
     sv_tasks s6 = sv_tasks s \<and> my_world (sv_mysql s6) = my_world (sv_mysql s) \<and>
     size (items (my_pool (sv_mysql s6))) = size (items (my_pool (sv_mysql s))) - g_max_conn_size"
proof -
  obtain q where "mysql_conn_pool_fini (se_pool E) (sv_mysql s) = Inr (0, (sv_mysql s)\<lparr>my_pool := q\<rparr>)"
    "size (items q) = size (items (my_pool (sv_mysql s))) - g_max_conn_size"
    using pool_fini_returns [OF assms(2)] by blast
  then show ?thesis
    using assms(1) by (auto simp: stores_live_def fini_full_node_def fini_torrent_def task_fini_def fini_fullnode_task_def
      bl_is_open_q_def bl_close_def fini_torrent_level_db_def td_is_open_q_def td_close_def Let_def)
qed

lemma server_main_cases:
  assumes "ok (my_pool (sv_mysql s))"
  shows "\<exists>s'. server_main E F s = Inr (exit_code E F, s') \<and>
     (exit_code E F = 0 \<longrightarrow> (\<exists>s3. stores_live s3 \<and> ok (my_pool (sv_mysql s3)) \<and>
        (\<exists>s4 s5. fini_full_node E s3 = Inr s4 \<and> fini_torrent s4 = Inr (0, s5) \<and> task_fini E s5 = Inr s')))"
proof -
  obtain s1 where s1: "task_init E F (s\<lparr>sv_logging := True\<rparr>) = Inr (if se_mutex_init E \<noteq> 0 then - 32 else 0, s1)"
    "ok (my_pool (sv_mysql s1))"
    using task_init_returns [of "s\<lparr>sv_logging := True\<rparr>"] assms by auto
  obtain r2 s2 where s2: "init_torrent E F s1 = Inr (r2, s2)" "0 \<le> r2 \<longleftrightarrow> torrent_stage_ok E F" "ok (my_pool (sv_mysql s2))"
    "torrent_stage_ok E F \<longrightarrow> td_is_open (sv_torrents s2) \<and> (\<exists>d. td_db (sv_torrents s2) = DbLive d)"
    using init_torrent_returns [OF s1(2)] by auto
  obtain r3 s3 where s3: "init_fullnode E F s2 = Inr (r3, s3)" "0 \<le> r3 \<longleftrightarrow> fullnode_stage_ok E F" "ok (my_pool (sv_mysql s3))"
    "sv_torrents s3 = sv_torrents s2"
    "fullnode_stage_ok E F \<longrightarrow> bl_is_open (sv_blocks s3) \<and> (\<exists>d. bl_db (sv_blocks s3) = DbLive d)"
    using init_fullnode_returns [OF s2(3)] by auto
  show ?thesis
  proof (cases "torrent_stage_ok E F \<and> fullnode_stage_ok E F")
    case True
    then have live: "stores_live (se_run E s3)" "ok (my_pool (sv_mysql (se_run E s3)))"
      using run [of s3] s2(4) s3(3-5) by (auto simp: stores_live_def)
    obtain s4 s5 s6 where "fini_full_node E (se_run E s3) = Inr s4" "fini_torrent s4 = Inr (0, s5)" "task_fini E s5 = Inr s6"
      using shutdown_returns [OF live] by blast
    then show ?thesis
      using True live s1(1) s2(1,2) s3(1,2) by (fastforce simp: server_main_def exit_code_def)
  next
    case False
    then show ?thesis
      using s1(1) s2(1,2) s3(1,2) by (auto simp: server_main_def exit_code_def)
  qed
qed

end

section \<open>A server to start\<close>

definition demo_server :: "int \<Rightarrow> (nat, nat option list, demo_world, string \<Rightarrow> string option, nat, unit, nat) server_env" where
  "demo_server chan =
     \<lparr>se_pool = list_bag 64, se_mysql = demo_mysql, se_ldb = map_leveldb, se_json = demo_jsonxx, se_mutex_init = 0,
      se_nproc = 4, se_now = \<lparr>tv_sec = 1000, tv_nsec = 5\<rparr>, se_init_mpd = 0, se_has_dir = (\<lambda>_. False), se_mkdir = (\<lambda>_. True),
      se_accounts_open = 0, se_asset_list = (\<lambda>_. (200, [])), se_channel_init = (\<lambda>_ _. chan), se_add_service = (\<lambda>_. 0),
      se_start = (\<lambda>_. 0), se_mysql_start = (\<lambda>q. (0, q\<lparr>eq_live := True\<rparr>)), se_mysql_stop = (\<lambda>q. (0, q\<lparr>eq_stopped := True\<rparr>)),
      se_block_start = (\<lambda>q. (0, q\<lparr>eq_live := True\<rparr>)), se_block_stop = (\<lambda>q. (0, q\<lparr>eq_stopped := True\<rparr>)), se_run = (\<lambda>s. s)\<rparr>"

definition demo_server_state :: "(nat option list, demo_world, string \<Rightarrow> string option, nat) server_state" where
  "demo_server_state =
     \<lparr>sv_mysql = \<lparr>my_pool = [], my_world = ([], 0)\<rparr>, sv_mysql_queue = \<lparr>eq_live = False, eq_stopped = False, eq_started = []\<rparr>,
      sv_mutex = False, sv_tasks = [], sv_torrents = \<lparr>td_is_open = False, td_db = DbUninit, td_sync = False\<rparr>,
      sv_accounts_open = False, sv_base_url = [], sv_assets = [], sv_callback = False,
      sv_blocks = \<lparr>bl_is_open = False, bl_db = DbUninit, totalnum = 0, bl_sync = False\<rparr>,
      sv_block_queue = \<lparr>eq_live = False, eq_stopped = False, eq_started = []\<rparr>, sv_user_channel = False,
      sv_fullnode_channel = False, sv_logging = False\<rparr>"

interpretation demo_server: server_runtime "demo_server chan" "\<lambda>_. True" mset default_flags for chan
proof unfold_locales
  fix body and assets :: asset_map
  show "\<exists>as. init_asset (se_json (demo_server chan)) 200 body assets = Inr (0, as)"
    by (simp add: demo_server_def demo_jsonxx_def init_asset_def read_asset_def asserted_def upt_rec)
qed (auto simp: demo_server_def default_flags_def ts_normal_def list_bag_def split: list.splits)

section \<open>Properties\<close>

text \<open>
C36: The server exits with the code of the first stage that fails, in the order mutex, torrent stage, full-node
  stage, service, and with 0 when none does, which means that it served and that taking it apart succeeded too.
  Whether the connection pool could be filled plays no part in it, although \<open>task_init\<close> means to check it.
\<close>
theorem exit_code_is_first_failure:
  assumes "server_runtime E ok items F" "ok (my_pool (sv_mysql s))"
  shows "map_sum id fst (server_main E F s) = Inr (exit_code E F)"
  using server_runtime.server_main_cases [OF assms] by auto

theorem exit_code_is_first_failure_witness:
  "map_sum id fst (server_main (demo_server 1) default_flags demo_server_state) = Inr (exit_code (demo_server 1) default_flags)"
  by (rule exit_code_is_first_failure [OF demo_server.server_runtime_axioms]) simp

text \<open>
After a server that served has exited normally both stores are deleted but still say that they are open,
  so that storing a block or a torrent then uses a deleted database.
\<close>
theorem closed_stores_look_open:
  assumes "server_runtime E ok items F" "ok (my_pool (sv_mysql s))" "server_main E F s = Inr (0, s')"
  shows "bl_is_open_q (sv_blocks s') \<and> td_is_open_q (sv_torrents s') \<and>
    store_totalnum L b (sv_blocks s') = Inl DeadDeref \<and> save_or_update_torrent L C t (sv_torrents s') = Inl DeadDeref"
proof -
  obtain s3 s4 s5 where s3: "stores_live s3" "ok (my_pool (sv_mysql s3))"
    and d: "fini_full_node E s3 = Inr s4" "fini_torrent s4 = Inr (0, s5)" "task_fini E s5 = Inr s'"
    using server_runtime.server_main_cases [OF assms(1,2)] assms(3) by auto
  have "sv_blocks s' = (sv_blocks s3)\<lparr>bl_db := DbDeleted\<rparr> \<and> sv_torrents s' = (sv_torrents s3)\<lparr>td_db := DbDeleted\<rparr>"
    using server_runtime.shutdown_returns [OF assms(1) s3] d by auto
  then show ?thesis
    using s3(1) by (simp add: stores_live_def bl_is_open_q_def td_is_open_q_def store_totalnum_def save_or_update_torrent_def)
qed

theorem closed_stores_look_open_witness:
  "\<exists>s'. server_main (demo_server 0) default_flags demo_server_state = Inr (0, s') \<and>
     bl_is_open_q (sv_blocks s') \<and> td_is_open_q (sv_torrents s') \<and>
     (\<forall>t. save_or_update_torrent map_leveldb num_codec t (sv_torrents s') = Inl DeadDeref)"
proof -
  have "exit_code (demo_server 0) default_flags = 0"
    by (simp add: exit_code_def torrent_stage_ok_def fullnode_stage_ok_def demo_server_def map_leveldb_def)
  then obtain s' where "server_main (demo_server 0) default_flags demo_server_state = Inr (0, s')"
    using demo_server.server_main_cases [of 0 demo_server_state] by auto
  with closed_stores_look_open [OF demo_server.server_runtime_axioms TrueI this] show ?thesis by blast
qed

end
