(* ===== verification/BoundedQueue.thy ===== *)
theory BoundedQueue
  imports Prelude
begin

text \<open>
  \<^verbatim>\<open>butil/containers/bounded_queue.h\<close>: a ring buffer over raw memory.  The counters keep their 32
  bits; a slot of the memory holds an object or none, so constructing, assigning and destroying are
  visible and using memory that holds no object is a fault.  The queue is related to the list of its
  items from top to bottom, and every operation to the list operation it implements.
\<close>

datatype storage_ownership = OWNS_STORAGE | NOT_OWN_STORAGE

record 'a bounded_queue =
  bq_count :: u32
  bq_cap :: u32
  bq_start :: u32
  bq_ownership :: storage_ownership
  bq_items :: "'a option list option"

section \<open>Memory\<close>

definition slots :: "'a bounded_queue \<Rightarrow> 'a option list res" where
  "slots q = deref (bq_items q)"

definition construct :: "nat \<Rightarrow> 'a \<Rightarrow> 'a bounded_queue \<Rightarrow> 'a bounded_queue res" where
  "construct i x q =
     res_bind (slots q) (\<lambda>xs. if i < length xs then Inr (q\<lparr>bq_items := Some (xs[i := Some x])\<rparr>) else Inl OutOfRange)"

definition destroy :: "nat \<Rightarrow> 'a bounded_queue \<Rightarrow> 'a bounded_queue res" where
  "destroy i q =
     res_bind (slots q) (\<lambda>xs. res_bind (vec_at xs i) (\<lambda>x.
       if x = None then Inl DeadDeref else Inr (q\<lparr>bq_items := Some (xs[i := None])\<rparr>)))"

definition read_slot :: "nat \<Rightarrow> 'a bounded_queue \<Rightarrow> 'a res" where
  "read_slot i q =
     res_bind (slots q) (\<lambda>xs. res_bind (vec_at xs i) (\<lambda>x. case x of None \<Rightarrow> Inl DeadDeref | Some v \<Rightarrow> Inr v))"

definition assign_slot :: "nat \<Rightarrow> 'a \<Rightarrow> 'a bounded_queue \<Rightarrow> 'a bounded_queue res" where
  "assign_slot i v q = res_bind (read_slot i q) (\<lambda>_. construct i v q)"

section \<open>The operations\<close>

text \<open>\<^verbatim>\<open>_mod\<close>: with a zero capacity the loop never ends.\<close>

partial_function (option) bq_mod_loop :: "u32 \<Rightarrow> u32 \<Rightarrow> u32 option" where
  "bq_mod_loop off cap = (if off \<ge> cap then bq_mod_loop (off - cap) cap else Some off)"

definition bq_mod :: "u32 \<Rightarrow> u32 \<Rightarrow> u32 res" where
  "bq_mod off cap = (case bq_mod_loop off cap of None \<Rightarrow> Inl Hangs | Some r \<Rightarrow> Inr r)"

text \<open>
  The constructors: on given memory, which has room for \<open>memsize div item_size\<close> items, on memory of
  its own, where \<open>mem\<close> tells whether \<^verbatim>\<open>malloc\<close> found any, and empty.  The capacity is a \<^verbatim>\<open>uint32_t\<close>.
\<close>

definition bq_new_mem :: "'a option list option \<Rightarrow> u64 \<Rightarrow> u64 \<Rightarrow> storage_ownership \<Rightarrow> 'a bounded_queue" where
  "bq_new_mem mem memsize item_size ownership =
     \<lparr>bq_count = 0, bq_cap = ucast (memsize div item_size), bq_start = 0, bq_ownership = ownership, bq_items = mem\<rparr>"

definition bq_new_cap :: "bool \<Rightarrow> u64 \<Rightarrow> 'a bounded_queue" where
  "bq_new_cap mem capacity =
     \<lparr>bq_count = 0, bq_cap = ucast capacity, bq_start = 0, bq_ownership = OWNS_STORAGE,
      bq_items = (if mem then Some (replicate (unat capacity) None) else None)\<rparr>"

definition bq_new :: "'a bounded_queue" where
  "bq_new = \<lparr>bq_count = 0, bq_cap = 0, bq_start = 0, bq_ownership = NOT_OWN_STORAGE, bq_items = None\<rparr>"

definition bq_push :: "'a \<Rightarrow> 'a bounded_queue \<Rightarrow> (bool \<times> 'a bounded_queue) res" where
  "bq_push item q =
     (if bq_count q < bq_cap q then
        res_bind (bq_mod (bq_start q + bq_count q) (bq_cap q)) (\<lambda>i.
        res_bind (construct (unat i) item q) (\<lambda>q1. Inr (True, q1\<lparr>bq_count := bq_count q1 + 1\<rparr>)))
      else Inr (False, q))"

definition bq_elim_push :: "'a \<Rightarrow> 'a bounded_queue \<Rightarrow> 'a bounded_queue res" where
  "bq_elim_push item q =
     (if bq_count q < bq_cap q then
        res_bind (bq_mod (bq_start q + bq_count q) (bq_cap q)) (\<lambda>i.
        res_bind (construct (unat i) item q) (\<lambda>q1. Inr (q1\<lparr>bq_count := bq_count q1 + 1\<rparr>)))
      else
        res_bind (assign_slot (unat (bq_start q)) item q) (\<lambda>q1.
        res_bind (bq_mod (bq_start q1 + 1) (bq_cap q1)) (\<lambda>s. Inr (q1\<lparr>bq_start := s\<rparr>))))"

definition bq_push_top :: "'a \<Rightarrow> 'a bounded_queue \<Rightarrow> (bool \<times> 'a bounded_queue) res" where
  "bq_push_top item q =
     (if bq_count q < bq_cap q then
        let s = (if bq_start q \<noteq> 0 then bq_start q - 1 else bq_cap q - 1);
            q1 = q\<lparr>bq_start := s, bq_count := bq_count q + 1\<rparr>
        in res_bind (construct (unat s) item q1) (\<lambda>q2. Inr (True, q2))
      else Inr (False, q))"

text \<open>The variants that construct a default item in place and return its address.\<close>

definition bq_push_new :: "'a \<Rightarrow> 'a bounded_queue \<Rightarrow> (u32 option \<times> 'a bounded_queue) res" where
  "bq_push_new dflt q =
     (if bq_count q < bq_cap q then
        let q1 = q\<lparr>bq_count := bq_count q + 1\<rparr>
        in res_bind (bq_mod (bq_start q + bq_count q) (bq_cap q)) (\<lambda>i.
           res_bind (construct (unat i) dflt q1) (\<lambda>q2. Inr (Some i, q2)))
      else Inr (None, q))"

definition bq_push_top_new :: "'a \<Rightarrow> 'a bounded_queue \<Rightarrow> (u32 option \<times> 'a bounded_queue) res" where
  "bq_push_top_new dflt q =
     (if bq_count q < bq_cap q then
        let s = (if bq_start q \<noteq> 0 then bq_start q - 1 else bq_cap q - 1);
            q1 = q\<lparr>bq_start := s, bq_count := bq_count q + 1\<rparr>
        in res_bind (construct (unat s) dflt q1) (\<lambda>q2. Inr (Some s, q2))
      else Inr (None, q))"

definition bq_pop :: "'a bounded_queue \<Rightarrow> (bool \<times> 'a bounded_queue) res" where
  "bq_pop q =
     (if bq_count q \<noteq> 0 then
        let q1 = q\<lparr>bq_count := bq_count q - 1\<rparr>
        in res_bind (destroy (unat (bq_start q1)) q1) (\<lambda>q2.
           res_bind (bq_mod (bq_start q2 + 1) (bq_cap q2)) (\<lambda>s. Inr (True, q2\<lparr>bq_start := s\<rparr>)))
      else Inr (False, q))"

definition bq_pop_to :: "'a bounded_queue \<Rightarrow> ('a option \<times> 'a bounded_queue) res" where
  "bq_pop_to q =
     (if bq_count q \<noteq> 0 then
        let q1 = q\<lparr>bq_count := bq_count q - 1\<rparr>
        in res_bind (read_slot (unat (bq_start q1)) q1) (\<lambda>item.
           res_bind (destroy (unat (bq_start q1)) q1) (\<lambda>q2.
           res_bind (bq_mod (bq_start q2 + 1) (bq_cap q2)) (\<lambda>s. Inr (Some item, q2\<lparr>bq_start := s\<rparr>))))
      else Inr (None, q))"

text \<open>
  Here the sources do not reduce the position modulo the capacity: the first variant adds the two
  counters to a pointer, the second adds them as \<^verbatim>\<open>uint32_t\<close> first.
\<close>

definition bq_pop_bottom :: "'a bounded_queue \<Rightarrow> (bool \<times> 'a bounded_queue) res" where
  "bq_pop_bottom q =
     (if bq_count q \<noteq> 0 then
        let q1 = q\<lparr>bq_count := bq_count q - 1\<rparr>
        in res_bind (destroy (unat (bq_start q1) + unat (bq_count q1)) q1) (\<lambda>q2. Inr (True, q2))
      else Inr (False, q))"

definition bq_pop_bottom_to :: "'a bounded_queue \<Rightarrow> ('a option \<times> 'a bounded_queue) res" where
  "bq_pop_bottom_to q =
     (if bq_count q \<noteq> 0 then
        let q1 = q\<lparr>bq_count := bq_count q - 1\<rparr>
        in res_bind (read_slot (unat (bq_start q1 + bq_count q1)) q1) (\<lambda>item.
           res_bind (destroy (unat (bq_start q1 + bq_count q1)) q1) (\<lambda>q2. Inr (Some item, q2)))
      else Inr (None, q))"

fun destroy_from :: "nat \<Rightarrow> u32 \<Rightarrow> 'a bounded_queue \<Rightarrow> 'a bounded_queue res" where
  "destroy_from 0 i q = Inr q"
| "destroy_from (Suc n) i q =
     res_bind (bq_mod (bq_start q + i) (bq_cap q)) (\<lambda>j.
     res_bind (destroy (unat j) q) (\<lambda>q1. destroy_from n (i + 1) q1))"

definition bq_clear :: "'a bounded_queue \<Rightarrow> 'a bounded_queue res" where
  "bq_clear q = res_bind (destroy_from (unat (bq_count q)) 0 q) (\<lambda>q1. Inr (q1\<lparr>bq_count := 0, bq_start := 0\<rparr>))"

definition bq_free :: "'a bounded_queue \<Rightarrow> 'a bounded_queue res" where
  "bq_free q =
     res_bind (bq_clear q) (\<lambda>q1. Inr (if bq_ownership q1 = OWNS_STORAGE then q1\<lparr>bq_items := None\<rparr> else q1))"

text \<open>The accessors return the position of an item, \<open>None\<close> for a null pointer.\<close>

definition bq_top :: "'a bounded_queue \<Rightarrow> u32 option" where
  "bq_top q = (if bq_count q \<noteq> 0 then Some (bq_start q) else None)"

definition bq_top_at :: "u64 \<Rightarrow> 'a bounded_queue \<Rightarrow> u32 option res" where
  "bq_top_at index q =
     (if index < ucast (bq_count q) then
        res_bind (bq_mod (ucast (ucast (bq_start q) + index)) (bq_cap q)) (\<lambda>i. Inr (Some i))
      else Inr None)"

definition bq_bottom :: "'a bounded_queue \<Rightarrow> u32 option res" where
  "bq_bottom q =
     (if bq_count q \<noteq> 0 then
        res_bind (bq_mod (bq_start q + bq_count q - 1) (bq_cap q)) (\<lambda>i. Inr (Some i))
      else Inr None)"

definition bq_bottom_at :: "u64 \<Rightarrow> 'a bounded_queue \<Rightarrow> u32 option res" where
  "bq_bottom_at index q =
     (if index < ucast (bq_count q) then
        res_bind (bq_mod (ucast (ucast (bq_start q) + ucast (bq_count q) - index - 1)) (bq_cap q)) (\<lambda>i. Inr (Some i))
      else Inr None)"

definition bq_empty :: "'a bounded_queue \<Rightarrow> bool" where
  "bq_empty q \<longleftrightarrow> bq_count q = 0"

definition bq_full :: "'a bounded_queue \<Rightarrow> bool" where
  "bq_full q \<longleftrightarrow> bq_cap q = bq_count q"

definition bq_swap :: "'a bounded_queue \<Rightarrow> 'a bounded_queue \<Rightarrow> 'a bounded_queue \<times> 'a bounded_queue" where
  "bq_swap a b = (b, a)"

section \<open>The modulo loop\<close>

lemma bq_mod_loop_result:
  "0 < cap \<Longrightarrow> bq_mod_loop off cap = Some (off mod cap)"
proof (induction "unat off" arbitrary: off rule: less_induct)
  case less
  show ?case
  proof (cases "off < cap")
    case True
    then have "off mod cap = off" by (simp add: word_unat_eq_iff unat_mod word_less_nat_alt)
    moreover have "\<not> cap \<le> off" using True by simp
    ultimately show ?thesis by (subst bq_mod_loop.simps) simp
  next
    case False
    then have le: "cap \<le> off" by simp
    have u: "unat (off - cap) = unat off - unat cap" using le by (simp add: unat_sub)
    have "0 < unat cap" using less.prems by (simp add: word_less_nat_alt)
    then have "unat (off - cap) < unat off" using u le by (simp add: word_le_nat_alt)
    from less.hyps [OF this less.prems] have "bq_mod_loop (off - cap) cap = Some ((off - cap) mod cap)" .
    moreover have "(off - cap) mod cap = off mod cap"
      using le u by (simp add: word_unat_eq_iff unat_mod word_le_nat_alt le_mod_geq)
    ultimately show ?thesis using le by (subst bq_mod_loop.simps) simp
  qed
qed

lemma bq_mod_result: "0 < cap \<Longrightarrow> bq_mod off cap = Inr (off mod cap)"
  by (simp add: bq_mod_def bq_mod_loop_result)

section \<open>The list a queue stands for\<close>

text \<open>
  \<open>bq_rep q l\<close>: the live objects are exactly those of \<open>l\<close>, top first, in consecutive slots from the
  start on, wrapping around.  The capacity is at most \<open>2 ^ 31\<close>, so that adding the two counters does
  not wrap.
\<close>

definition bq_rep :: "'a bounded_queue \<Rightarrow> 'a list \<Rightarrow> bool" where
  "bq_rep q l \<longleftrightarrow>
     unat (bq_cap q) \<le> 2 ^ 31 \<and> unat (bq_count q) = length l \<and> length l \<le> unat (bq_cap q) \<and>
     unat (bq_start q) \<le> unat (bq_cap q) - 1 \<and>
     (\<exists>xs. bq_items q = Some xs \<and> length xs = unat (bq_cap q) \<and>
        (\<forall>j < unat (bq_cap q). xs ! ((unat (bq_start q) + j) mod unat (bq_cap q)) = (if j < length l then Some (l ! j) else None)))"

lemma bq_repE:
  assumes "bq_rep q l"
  obtains xs where "unat (bq_cap q) \<le> 2 ^ 31" "unat (bq_count q) = length l" "length l \<le> unat (bq_cap q)"
    "unat (bq_start q) \<le> unat (bq_cap q) - 1" "bq_items q = Some xs" "length xs = unat (bq_cap q)"
    "\<And>j. j < unat (bq_cap q) \<Longrightarrow>
       xs ! ((unat (bq_start q) + j) mod unat (bq_cap q)) = (if j < length l then Some (l ! j) else None)"
  using assms by (auto simp: bq_rep_def)

lemma ring_inj:
  assumes "(s + j) mod n = (s + k) mod n" "j < n" "k < (n :: nat)"
  shows "j = k"
proof -
  have "a = b" if eq: "(s + a) mod n = (s + b) mod n" and le: "b \<le> a" and lt: "a < n" for a b
  proof -
    obtain q where "s + a = s + b + n * q" 
      using mod_eq_nat1E [OF eq] le by auto
    with lt show ?thesis by (cases q) auto
  qed
  from this [of j k] this [of k j] assms show ?thesis by (cases "k \<le> j") auto
qed

lemma u32_add_small:
  "unat (a :: u32) + unat b < 2 ^ 32 \<Longrightarrow> unat (a + b) = unat a + unat b"
  by (simp add: unat_word_ariths)

lemma u32_Suc: "unat (a :: u32) < 2 ^ 32 - 1 \<Longrightarrow> unat (a + 1) = Suc (unat a)"
  using u32_add_small [of a 1] by simp

lemma u32_pred: "a \<noteq> 0 \<Longrightarrow> unat ((a :: u32) - 1) = unat a - 1"
  by (simp add: unat_sub word_le_nat_alt unat_gt_0 Suc_le_eq)

section \<open>Each operation is the list operation\<close>

lemma construct_ok:
  "bq_items q = Some xs \<Longrightarrow> i < length xs \<Longrightarrow> construct i x q = Inr (q\<lparr>bq_items := Some (xs[i := Some x])\<rparr>)"
  by (simp add: construct_def slots_def)

lemma destroy_ok:
  "bq_items q = Some xs \<Longrightarrow> i < length xs \<Longrightarrow> xs ! i \<noteq> None \<Longrightarrow> destroy i q = Inr (q\<lparr>bq_items := Some (xs[i := None])\<rparr>)"
  by (simp add: destroy_def slots_def vec_at_def)

lemma read_ok:
  "bq_items q = Some xs \<Longrightarrow> i < length xs \<Longrightarrow> xs ! i = Some v \<Longrightarrow> read_slot i q = Inr v"
  by (simp add: read_slot_def slots_def vec_at_def)

lemma ring_pos:
  assumes "bq_rep q l" "j \<le> length l" "0 < unat (bq_cap q)"
  shows "unat ((bq_start q + of_nat j) mod bq_cap q) = (unat (bq_start q) + j) mod unat (bq_cap q)"
proof -
  have b: "unat (bq_start q) < unat (bq_cap q)" "unat (bq_cap q) \<le> 2 ^ 31" "j \<le> unat (bq_cap q)"
    using assms by (auto simp: bq_rep_def)
  then have "unat (of_nat j :: u32) = j" by (simp add: unat_of_nat take_bit_nat_eq_self)
  then have "unat (bq_start q + of_nat j) = unat (bq_start q) + j"
    using b by (simp add: u32_add_small)
  then show ?thesis by (simp add: unat_mod)
qed

lemma bq_mod_pos:
  assumes "bq_rep q l" "j \<le> length l" "0 < unat (bq_cap q)"
  shows "\<exists>i. bq_mod (bq_start q + of_nat j) (bq_cap q) = Inr i \<and> unat i = (unat (bq_start q) + j) mod unat (bq_cap q)"
  using assms bq_mod_result ring_pos [OF assms] by (simp add: word_less_nat_alt)

lemma count_of_nat: "bq_rep q l \<Longrightarrow> bq_count q = of_nat (length l)"
  unfolding bq_rep_def by (elim conjE, drule sym, simp)

text \<open>Putting an object at the bottom.\<close>

lemma rep_append:
  assumes "bq_rep q l" "length l < unat (bq_cap q)" "bq_items q = Some xs"
  shows "bq_rep (q\<lparr>bq_items := Some (xs[(unat (bq_start q) + length l) mod unat (bq_cap q) := Some x]), bq_count := bq_count q + 1\<rparr>) (l @ [x])"
proof -
  have q: "unat (bq_cap q) \<le> 2 ^ 31" "unat (bq_count q) = length l" "unat (bq_start q) \<le> unat (bq_cap q) - 1"
    "length xs = unat (bq_cap q)"
    and xs: "\<And>j. j < unat (bq_cap q) \<Longrightarrow>
       xs ! ((unat (bq_start q) + j) mod unat (bq_cap q)) = (if j < length l then Some (l ! j) else None)"
    using assms(1,3) by (auto simp: bq_rep_def)
  let ?i = "(unat (bq_start q) + length l) mod unat (bq_cap q)"
  have i: "?i < length xs" using assms(2) q(4) by simp
  have "(xs[?i := Some x]) ! ((unat (bq_start q) + j) mod unat (bq_cap q)) =
      (if j < length (l @ [x]) then Some ((l @ [x]) ! j) else None)" if j: "j < unat (bq_cap q)" for j
  proof (cases "j = length l")
    case True
    then show ?thesis using i by simp
  next
    case False
    then have "(unat (bq_start q) + j) mod unat (bq_cap q) \<noteq> ?i"
      using ring_inj [OF _ j assms(2)] by blast
    with False xs [OF j] show ?thesis by (auto simp: nth_append)
  qed
  moreover have "unat (bq_count q + 1) = Suc (length l)" using u32_Suc [of "bq_count q"] q(1,2) assms(2) by simp
  ultimately show ?thesis using q assms(2) by (simp add: bq_rep_def)
qed

text \<open>Removing the top object.\<close>

lemma rep_tl:
  assumes "bq_rep q (x # l)" "bq_items q = Some xs"
  shows "bq_rep (q\<lparr>bq_count := bq_count q - 1, bq_items := Some (xs[unat (bq_start q) := None]),
       bq_start := (bq_start q + 1) mod bq_cap q\<rparr>) l"
proof -
  let ?n = "unat (bq_cap q)" and ?s = "unat (bq_start q)"
  have q: "?n \<le> 2 ^ 31" "unat (bq_count q) = Suc (length l)" "?s < ?n" "length xs = ?n" "Suc (length l) \<le> ?n"
    and xs: "\<And>j. j < ?n \<Longrightarrow> xs ! ((?s + j) mod ?n) = (if j < Suc (length l) then Some ((x # l) ! j) else None)"
    using assms by (auto simp: bq_rep_def)
  have s': "unat ((bq_start q + 1) mod bq_cap q) = (?s + 1) mod ?n"
    using ring_pos [OF assms(1), of 1] q(3) by simp
  have "(xs[?s := None]) ! (((?s + 1) mod ?n + j) mod ?n) = (if j < length l then Some (l ! j) else None)" if j: "j < ?n" for j
  proof (cases "Suc j = ?n")
    case True
    have "((?s + 1) mod ?n + j) mod ?n = (?s + Suc j) mod ?n" by (simp add: mod_simps)
    then have "((?s + 1) mod ?n + j) mod ?n = ?s" using True q(3) by simp
    moreover have "length l \<le> j" using True q(5) by simp
    ultimately show ?thesis using q(3,4) by simp
  next
    case False
    then have Sj: "Suc j < ?n" using j by simp
    have "(?s + 0) mod ?n \<noteq> (?s + Suc j) mod ?n" using ring_inj [of ?s 0 ?n "Suc j"] Sj by fastforce
    then have "(?s + Suc j) mod ?n \<noteq> ?s" using q(3) by simp
    then show ?thesis using xs [OF Sj] q(3) by (simp add: mod_simps)
  qed
  moreover have "unat (bq_count q - 1) = length l" using u32_pred [of "bq_count q"] q(2) by fastforce
  moreover have "unat ((bq_start q + 1) mod bq_cap q) \<le> ?n - 1" using s' q(3) by (simp add: less_Suc_eq_le [symmetric])
  ultimately show ?thesis using q s' by (simp add: bq_rep_def)
qed

text \<open>Putting an object on top.\<close>

lemma rep_Cons:
  fixes x
  assumes "bq_rep q l" "length l < unat (bq_cap q)" "bq_items q = Some xs"
  defines "s \<equiv> if bq_start q \<noteq> 0 then bq_start q - 1 else bq_cap q - 1"
  shows "bq_rep (q\<lparr>bq_start := s, bq_count := bq_count q + 1, bq_items := Some (xs[unat s := Some x])\<rparr>) (x # l)"
proof -
  let ?n = "unat (bq_cap q)" and ?s = "unat (bq_start q)"
  have q: "?n \<le> 2 ^ 31" "unat (bq_count q) = length l" "?s < ?n" "length xs = ?n"
    and xs: "\<And>j. j < ?n \<Longrightarrow> xs ! ((?s + j) mod ?n) = (if j < length l then Some (l ! j) else None)"
    using assms(1-3) by (auto simp: bq_rep_def)
  have "bq_cap q \<noteq> 0" using q(3) by fastforce
  then have s: "unat s = (if ?s = 0 then ?n - 1 else ?s - 1)"
    using u32_pred by (auto simp: s_def unat_eq_zero)
  then have s_lt: "unat s < ?n" using q(3) by auto
  have shift: "(unat s + Suc j) mod ?n = (?s + j) mod ?n" for j using s q(3) by (cases "?s = 0") auto
  have "(xs[unat s := Some x]) ! ((unat s + j) mod ?n) = (if j < length (x # l) then Some ((x # l) ! j) else None)"
    if j: "j < ?n" for j
  proof (cases j)
    case 0
    then show ?thesis using s_lt q(4) by simp
  next
    case (Suc k)
    have "(unat s + 0) mod ?n \<noteq> (unat s + j) mod ?n" using ring_inj [of "unat s" 0 ?n j] j Suc by fastforce
    then have "(unat s + j) mod ?n \<noteq> unat s" using s_lt by simp
    with xs [of k] Suc j shift show ?thesis by simp
  qed
  moreover have "unat (bq_count q + 1) = Suc (length l)" using u32_Suc [of "bq_count q"] q(1,2) assms(2) by simp
  ultimately show ?thesis using q(1,4) assms(2) s_lt by (simp add: bq_rep_def less_Suc_eq_le [symmetric])
qed

lemma bq_push_rep:
  assumes "bq_rep q l"
  shows "\<exists>q'. bq_push x q = Inr (length l < unat (bq_cap q), q') \<and> bq_cap q' = bq_cap q \<and>
     bq_rep q' (if length l < unat (bq_cap q) then l @ [x] else l)"
proof -
  obtain xs where xs: "bq_items q = Some xs" "length xs = unat (bq_cap q)" "unat (bq_count q) = length l"
    using assms by (auto simp: bq_rep_def)
  have lt: "bq_count q < bq_cap q \<longleftrightarrow> length l < unat (bq_cap q)" using xs(3) by (simp add: word_less_nat_alt)
  show ?thesis
  proof (cases "length l < unat (bq_cap q)")
    case True
    then obtain i where i: "bq_mod (bq_start q + bq_count q) (bq_cap q) = Inr i"
      "unat i = (unat (bq_start q) + length l) mod unat (bq_cap q)"
      using bq_mod_pos [OF assms, of "length l"] count_of_nat [OF assms] by auto
    have "construct (unat i) x q = Inr (q\<lparr>bq_items := Some (xs[unat i := Some x])\<rparr>)"
      using construct_ok [OF xs(1)] xs(2) True i(2) by simp
    with rep_append [OF assms True xs(1), of x] i lt True show ?thesis by (simp add: bq_push_def)
  qed (use assms lt in \<open>simp add: bq_push_def\<close>)
qed

lemma bq_push_top_rep:
  assumes "bq_rep q l"
  shows "\<exists>q'. bq_push_top x q = Inr (length l < unat (bq_cap q), q') \<and> bq_cap q' = bq_cap q \<and>
     bq_rep q' (if length l < unat (bq_cap q) then x # l else l)"
proof -
  obtain xs where xs: "bq_items q = Some xs" "length xs = unat (bq_cap q)" "unat (bq_count q) = length l"
    using assms by (auto simp: bq_rep_def)
  have lt: "bq_count q < bq_cap q \<longleftrightarrow> length l < unat (bq_cap q)" using xs(3) by (simp add: word_less_nat_alt)
  obtain s where s: "s = (if bq_start q \<noteq> 0 then bq_start q - 1 else bq_cap q - 1)" by blast
  show ?thesis
  proof (cases "length l < unat (bq_cap q)")
    case True
    have rep: "bq_rep (q\<lparr>bq_start := s, bq_count := bq_count q + 1, bq_items := Some (xs[unat s := Some x])\<rparr>) (x # l)"
      unfolding s by (rule rep_Cons [OF assms True xs(1)])
    then have "unat s < length xs" using True xs(2) by (auto simp: bq_rep_def)
    then have "construct (unat s) x (q\<lparr>bq_start := s, bq_count := bq_count q + 1\<rparr>) =
        Inr (q\<lparr>bq_start := s, bq_count := bq_count q + 1, bq_items := Some (xs[unat s := Some x])\<rparr>)"
      using construct_ok [of "q\<lparr>bq_start := s, bq_count := bq_count q + 1\<rparr>" xs "unat s" x] xs(1) by simp
    with rep lt True show ?thesis by (simp add: bq_push_top_def Let_def s [symmetric] del: if_split)
  qed (use assms lt in \<open>simp add: bq_push_top_def\<close>)
qed

lemma rep_top:
  assumes "bq_rep q (x # l)" "bq_items q = Some xs"
  shows "unat (bq_start q) < unat (bq_cap q)" and "xs ! unat (bq_start q) = Some x"
proof -
  obtain ys where ys: "bq_items q = Some ys" "unat (bq_start q) \<le> unat (bq_cap q) - 1" "Suc (length l) \<le> unat (bq_cap q)"
    "\<And>j. j < unat (bq_cap q) \<Longrightarrow>
       ys ! ((unat (bq_start q) + j) mod unat (bq_cap q)) = (if j < length (x # l) then Some ((x # l) ! j) else None)"
    using assms(1) by (auto elim!: bq_repE)
  show lt: "unat (bq_start q) < unat (bq_cap q)" using ys(2,3) by simp
  show "xs ! unat (bq_start q) = Some x" using ys(4) [of 0] ys(1) assms(2) lt by simp
qed

lemma bq_pop_to_rep:
  assumes "bq_rep q l"
  shows "\<exists>q'. bq_pop_to q = Inr (case l of [] \<Rightarrow> None | x # _ \<Rightarrow> Some x, q') \<and> bq_cap q' = bq_cap q \<and> bq_rep q' (tl l)"
proof (cases l)
  case Nil
  then have "bq_count q = 0" using assms by (simp add: bq_rep_def unat_eq_zero)
  with Nil assms show ?thesis by (simp add: bq_pop_to_def)
next
  case (Cons x l')
  obtain xs where xs: "bq_items q = Some xs" "length xs = unat (bq_cap q)" "unat (bq_count q) = Suc (length l')"
    using assms Cons by (auto simp: bq_rep_def)
  note top = rep_top [OF assms [unfolded Cons] xs(1)]
  let ?q1 = "q\<lparr>bq_count := bq_count q - 1\<rparr>"
  have nz: "bq_count q \<noteq> 0" "0 < bq_cap q" using xs(3) top(1) by (auto simp: word_less_nat_alt)
  have "read_slot (unat (bq_start q)) ?q1 = Inr x"
    using read_ok [of ?q1 xs "unat (bq_start q)" x] xs top by simp
  moreover have "destroy (unat (bq_start q)) ?q1 = Inr (?q1\<lparr>bq_items := Some (xs[unat (bq_start q) := None])\<rparr>)"
    using destroy_ok [of ?q1 xs "unat (bq_start q)"] xs top by simp
  ultimately show ?thesis using rep_tl [OF assms [unfolded Cons] xs(1)] nz Cons bq_mod_result [OF nz(2)]
    by (simp add: bq_pop_to_def Let_def)
qed

lemma rep_empty_iff: "bq_rep q l \<Longrightarrow> bq_count q = 0 \<longleftrightarrow> l = []"
  by (auto simp: bq_rep_def word_unat_eq_iff)

lemma bq_pop_rep:
  assumes "bq_rep q l"
  shows "\<exists>q'. bq_pop q = Inr (l \<noteq> [], q') \<and> bq_cap q' = bq_cap q \<and> bq_rep q' (tl l)"
proof -
  have "bq_pop q = res_bind (bq_pop_to q) (\<lambda>(r, q'). Inr (r \<noteq> None, q'))"
    by (cases "destroy (unat (bq_start q)) (q\<lparr>bq_count := bq_count q - 1\<rparr>)")
      (auto simp: bq_pop_def bq_pop_to_def read_slot_def destroy_def Let_def res_bind_def slots_def deref_def vec_at_def
        split: sum.splits option.splits if_split_asm)
  with bq_pop_to_rep [OF assms] show ?thesis by (cases l) auto
qed

text \<open>A full queue drops its top item for the new one.\<close>

lemma bq_elim_push_rep:
  assumes "bq_rep q l" "0 < unat (bq_cap q)"
  shows "\<exists>q'. bq_elim_push x q = Inr q' \<and> bq_cap q' = bq_cap q \<and>
     bq_rep q' (if length l < unat (bq_cap q) then l @ [x] else tl l @ [x])"
proof (cases "length l < unat (bq_cap q)")
  case True
  then have lt: "bq_count q < bq_cap q" using assms(1) by (simp add: bq_rep_def word_less_nat_alt)
  have "bq_elim_push x q = res_bind (bq_push x q) (\<lambda>(_, q'). Inr q')"
    using lt by (auto simp: bq_elim_push_def bq_push_def res_bind_def split: sum.splits)
  with bq_push_rep [OF assms(1), of x] True show ?thesis by auto
next
  case False
  have full: "length l = unat (bq_cap q)" using False assms(1) by (simp add: bq_rep_def)
  then obtain y l' where l: "l = y # l'" using assms(2) by (cases l) auto
  obtain xs where xs: "bq_items q = Some xs" "length xs = unat (bq_cap q)" "unat (bq_count q) = length l"
    using assms(1) by (auto simp: bq_rep_def)
  note top = rep_top [OF assms(1) [unfolded l] xs(1)]
  have nlt: "\<not> bq_count q < bq_cap q" using False xs(3) by (simp add: word_less_nat_alt)
  have cap: "0 < bq_cap q" using assms(2) by (simp add: word_less_nat_alt)
  let ?s' = "(bq_start q + 1) mod bq_cap q"
  let ?q1 = "q\<lparr>bq_count := bq_count q - 1, bq_items := Some (xs[unat (bq_start q) := None]), bq_start := ?s'\<rparr>"
  have tl: "bq_rep ?q1 l'" using rep_tl [OF assms(1) [unfolded l] xs(1)] .
  have last: "(unat ?s' + length l') mod unat (bq_cap q) = unat (bq_start q)"
  proof -
    have "unat ?s' = (unat (bq_start q) + 1) mod unat (bq_cap q)"
      using ring_pos [OF assms(1), of 1] assms(2) full by (simp add: l)
    moreover have "Suc (length l') = unat (bq_cap q)" using full l by simp
    ultimately have "(unat ?s' + length l') mod unat (bq_cap q) = (unat (bq_start q) + unat (bq_cap q)) mod unat (bq_cap q)"
      by (metis add.assoc add_Suc_right add_Suc_shift mod_add_left_eq plus_1_eq_Suc)
    then show ?thesis using top(1) by simp
  qed
  have "bq_rep (?q1\<lparr>bq_items := Some ((xs[unat (bq_start q) := None])[unat (bq_start q) := Some x]), bq_count := bq_count q - 1 + 1\<rparr>) (l' @ [x])"
    using rep_append [OF tl, of "xs[unat (bq_start q) := None]" x] last full l by simp
  then have "bq_rep (q\<lparr>bq_items := Some (xs[unat (bq_start q) := Some x]), bq_start := ?s'\<rparr>) (l' @ [x])"
    by (simp add: bq_rep_def)
  moreover have "bq_elim_push x q = Inr (q\<lparr>bq_items := Some (xs[unat (bq_start q) := Some x]), bq_start := ?s'\<rparr>)"
    using nlt read_ok [OF xs(1) _ top(2)] construct_ok [OF xs(1), of "unat (bq_start q)" x] top(1) xs(2) bq_mod_result [OF cap]
    by (simp add: bq_elim_push_def assign_slot_def)
  ultimately show ?thesis using False l by simp
qed

text \<open>Random access from the top and from the bottom.\<close>

lemma item_at:
  assumes "bq_rep q l" "j < length l"
  shows "read_slot ((unat (bq_start q) + j) mod unat (bq_cap q)) q = Inr (l ! j)"
proof -
  obtain xs where xs: "bq_items q = Some xs" "length xs = unat (bq_cap q)" "length l \<le> unat (bq_cap q)"
    "\<And>j. j < unat (bq_cap q) \<Longrightarrow> xs ! ((unat (bq_start q) + j) mod unat (bq_cap q)) = (if j < length l then Some (l ! j) else None)"
    using assms(1) by (auto elim!: bq_repE)
  have "xs ! ((unat (bq_start q) + j) mod unat (bq_cap q)) = Some (l ! j)" using xs(3) xs(4) [of j] assms(2) by simp
  then show ?thesis using read_ok [OF xs(1)] xs(2,3) assms(2) by simp
qed

lemma bq_top_at_rep:
  assumes "bq_rep q l" "unat index < length l"
  shows "\<exists>i. bq_top_at index q = Inr (Some i) \<and> read_slot (unat i) q = Inr (l ! unat index)"
proof -
  have b: "unat (bq_cap q) \<le> 2 ^ 31" "unat (bq_count q) = length l" "length l \<le> unat (bq_cap q)"
    "unat (bq_start q) \<le> unat (bq_cap q) - 1" using assms(1) by (auto simp: bq_rep_def)
  have uc: "unat (ucast (w :: u32) :: u64) = unat w" for w
    by (simp add: unsigned_ucast_eq take_bit_nat_eq_self order_less_le_trans [OF unsigned_less])
  have "index < ucast (bq_count q)" using assms(2) b(2) by (simp add: word_less_nat_alt uc)
  moreover have "ucast (ucast (bq_start q) + index :: u64) = bq_start q + of_nat (unat index)"
    by (simp add: word_unat_eq_iff unat_word_ariths unsigned_ucast_eq uc take_bit_eq_mod unat_of_nat mod_simps mod_mod_cancel)
  moreover obtain i where "bq_mod (bq_start q + of_nat (unat index)) (bq_cap q) = Inr i"
    "unat i = (unat (bq_start q) + unat index) mod unat (bq_cap q)"
    using bq_mod_pos [OF assms(1), of "unat index"] assms(2) b(3) by auto
  ultimately show ?thesis using item_at [OF assms] by (simp add: bq_top_at_def)
qed

lemma bq_bottom_rep:
  assumes "bq_rep q l" "l \<noteq> []"
  shows "\<exists>i. bq_bottom q = Inr (Some i) \<and> read_slot (unat i) q = Inr (last l)"
proof -
  have cap: "0 < unat (bq_cap q)" using assms by (cases l) (auto simp: bq_rep_def)
  have "bq_count q = of_nat (length l)" using count_of_nat [OF assms(1)] .
  then have e: "bq_start q + bq_count q - 1 = bq_start q + of_nat (length l - 1)"
    using assms(2) by (cases l) simp_all
  obtain i where "bq_mod (bq_start q + of_nat (length l - 1)) (bq_cap q) = Inr i"
    "unat i = (unat (bq_start q) + (length l - 1)) mod unat (bq_cap q)"
    using bq_mod_pos [OF assms(1), of "length l - 1"] cap by auto
  moreover have "bq_count q \<noteq> 0" using rep_empty_iff [OF assms(1)] assms(2) by simp
  moreover have "length l - 1 < length l" using assms(2) by simp
  ultimately show ?thesis
    using item_at [OF assms(1), of "length l - 1"] last_conv_nth [OF assms(2)] unfolding bq_bottom_def e by simp
qed

text \<open>
  Removing at the bottom works as long as the items do not wrap around the end of the memory; when
  they do, it reaches past the end.
\<close>

lemma bq_pop_bottom_fits:
  assumes "bq_rep q l" "l \<noteq> []" "unat (bq_start q) + length l \<le> unat (bq_cap q)"
  shows "\<exists>q'. bq_pop_bottom q = Inr (True, q') \<and> bq_rep q' (butlast l)"
proof -
  let ?n = "unat (bq_cap q)" and ?s = "unat (bq_start q)" and ?k = "length l - 1"
  obtain xs where xs: "?n \<le> 2 ^ 31" "unat (bq_count q) = length l" "?s \<le> ?n - 1" "bq_items q = Some xs" "length xs = ?n"
    "\<And>j. j < ?n \<Longrightarrow> xs ! ((?s + j) mod ?n) = (if j < length l then Some (l ! j) else None)"
    using assms(1) by (auto elim!: bq_repE)
  have nz: "bq_count q \<noteq> 0" using rep_empty_iff [OF assms(1)] assms(2) by simp
  have len: "0 < length l" using assms(2) by simp
  have k: "?k < length l" "?s + ?k < ?n" "unat (bq_count q - 1) = ?k"
    using len assms(3) u32_pred [OF nz] xs(2) by linarith+
  have "xs ! (?s + ?k) \<noteq> None" using xs(6) [of ?k] k by simp
  then have d: "destroy (?s + ?k) (q\<lparr>bq_count := bq_count q - 1\<rparr>) = Inr (q\<lparr>bq_count := bq_count q - 1, bq_items := Some (xs[?s + ?k := None])\<rparr>)"
    using destroy_ok [of "q\<lparr>bq_count := bq_count q - 1\<rparr>" xs "?s + ?k"] xs(4,5) k(2) by simp
  have "(xs[?s + ?k := None]) ! ((?s + j) mod ?n) = (if j < ?k then Some (butlast l ! j) else None)" if j: "j < ?n" for j
  proof (cases "j = ?k")
    case True
    then show ?thesis using k(2) xs(5) by simp
  next
    case False
    then have "(?s + j) mod ?n \<noteq> ?s + ?k" using ring_inj [of ?s j ?n ?k] j k(2) by auto
    with False xs(6) [OF j] show ?thesis by (auto simp: nth_butlast)
  qed
  then have "bq_rep (q\<lparr>bq_count := bq_count q - 1, bq_items := Some (xs[?s + ?k := None])\<rparr>) (butlast l)"
    using xs(1,3,5) k assms(3) by (simp add: bq_rep_def)
  with d k(3) rep_empty_iff [OF assms(1)] assms(2) show ?thesis by (simp add: bq_pop_bottom_def Let_def)
qed

lemma bq_pop_bottom_wraps:
  assumes "bq_rep q l" "unat (bq_cap q) < unat (bq_start q) + length l"
  shows "bq_pop_bottom q = Inl OutOfRange" and "bq_pop_bottom_to q = Inl OutOfRange"
proof -
  obtain xs where xs: "unat (bq_cap q) \<le> 2 ^ 31" "unat (bq_count q) = length l" "unat (bq_start q) \<le> unat (bq_cap q) - 1"
    "bq_items q = Some xs" "length xs = unat (bq_cap q)" "length l \<le> unat (bq_cap q)"
    using assms(1) by (auto elim!: bq_repE)
  have nz: "bq_count q \<noteq> 0" and ne: "l \<noteq> []" using rep_empty_iff [OF assms(1)] assms(2) xs(3) by auto
  have k: "unat (bq_count q - 1) = length l - 1" using u32_pred [OF nz] xs(2) by simp
  have ge: "length xs \<le> unat (bq_start q) + (length l - 1)" using xs(5) assms(2) ne by (cases l) auto
  have "unat (bq_start q + (bq_count q - 1)) = unat (bq_start q) + (length l - 1)"
    using u32_add_small [of "bq_start q" "bq_count q - 1"] k xs(1,3,6) by simp
  with nz k ge xs(4) show "bq_pop_bottom q = Inl OutOfRange" "bq_pop_bottom_to q = Inl OutOfRange"
    by (simp_all add: bq_pop_bottom_def bq_pop_bottom_to_def destroy_def read_slot_def slots_def vec_at_def Let_def)
qed

lemma bq_new_cap_rep:
  assumes "unat capacity \<le> 2 ^ 31"
  shows "bq_rep (bq_new_cap True capacity) []" and "unat (bq_cap (bq_new_cap True capacity)) = unat capacity"
proof -
  have c: "unat (ucast capacity :: u32) = unat capacity"
    using assms by (simp add: unsigned_ucast_eq take_bit_nat_eq_self)
  then show "unat (bq_cap (bq_new_cap True capacity)) = unat capacity" by (simp add: bq_new_cap_def)
  show "bq_rep (bq_new_cap True capacity) []" using assms c by (simp add: bq_rep_def bq_new_cap_def)
qed

section \<open>Any sequence of operations\<close>

lemma bq_push_new_eq:
  "bq_push_new d q =
     (if bq_count q < bq_cap q then
        res_bind (bq_mod (bq_start q + bq_count q) (bq_cap q)) (\<lambda>i. res_bind (bq_push d q) (\<lambda>(_, q'). Inr (Some i, q')))
      else Inr (None, q))"
  by (cases "bq_mod (bq_start q + bq_count q) (bq_cap q)"; cases "bq_items q")
    (auto simp: bq_push_new_def bq_push_def construct_def slots_def Let_def)

lemma bq_push_top_new_eq:
  "bq_push_top_new d q =
     res_bind (bq_push_top d q) (\<lambda>(ok, q'). Inr (if ok then Some (bq_start q') else None, q'))"
  by (cases "bq_items q") (auto simp: bq_push_top_new_def bq_push_top_def construct_def slots_def Let_def)

datatype 'a ring_op = Push 'a | ElimPush 'a | PushTop 'a | PopTop

text \<open>What an operation reports: whether it succeeded, or the item it took out.\<close>

fun ring_step :: "'a ring_op \<Rightarrow> 'a bounded_queue \<Rightarrow> ('a option + bool) \<times> 'a bounded_queue + fault" where
  "ring_step (Push x) q = (case bq_push x q of Inl f \<Rightarrow> Inr f | Inr (b, q') \<Rightarrow> Inl (Inr b, q'))"
| "ring_step (ElimPush x) q = (case bq_elim_push x q of Inl f \<Rightarrow> Inr f | Inr q' \<Rightarrow> Inl (Inr True, q'))"
| "ring_step (PushTop x) q = (case bq_push_top x q of Inl f \<Rightarrow> Inr f | Inr (b, q') \<Rightarrow> Inl (Inr b, q'))"
| "ring_step PopTop q = (case bq_pop_to q of Inl f \<Rightarrow> Inr f | Inr (r, q') \<Rightarrow> Inl (Inl r, q'))"

fun list_step :: "nat \<Rightarrow> 'a ring_op \<Rightarrow> 'a list \<Rightarrow> ('a option + bool) \<times> 'a list" where
  "list_step cap (Push x) l = (if length l < cap then (Inr True, l @ [x]) else (Inr False, l))"
| "list_step cap (ElimPush x) l = (Inr True, (if length l < cap then l else tl l) @ [x])"
| "list_step cap (PushTop x) l = (if length l < cap then (Inr True, x # l) else (Inr False, l))"
| "list_step cap PopTop l = (case l of [] \<Rightarrow> (Inl None, []) | x # l' \<Rightarrow> (Inl (Some x), l'))"

fun ring_run :: "'a ring_op list \<Rightarrow> 'a bounded_queue \<Rightarrow> (('a option + bool) list \<times> 'a bounded_queue) res" where
  "ring_run [] q = Inr ([], q)"
| "ring_run (op # ops) q =
     (case ring_step op q of
        Inr f \<Rightarrow> Inl f
      | Inl (r, q') \<Rightarrow> res_bind (ring_run ops q') (\<lambda>(rs, q''). Inr (r # rs, q'')))"

fun list_run :: "nat \<Rightarrow> 'a ring_op list \<Rightarrow> 'a list \<Rightarrow> ('a option + bool) list \<times> 'a list" where
  "list_run cap [] l = ([], l)"
| "list_run cap (op # ops) l = (let (r, l') = list_step cap op l; (rs, l'') = list_run cap ops l' in (r # rs, l''))"

lemma ring_step_rep:
  assumes "bq_rep q l" "0 < unat (bq_cap q)"
  shows "\<exists>q'. ring_step op q = Inl (fst (list_step (unat (bq_cap q)) op l), q') \<and>
     bq_rep q' (snd (list_step (unat (bq_cap q)) op l)) \<and> bq_cap q' = bq_cap q"
proof (cases op)
  case (Push x)
  then show ?thesis using bq_push_rep [OF assms(1), of x] by auto
next
  case (ElimPush x)
  then show ?thesis using bq_elim_push_rep [OF assms, of x] by (auto split: if_splits)
next
  case (PushTop x)
  then show ?thesis using bq_push_top_rep [OF assms(1), of x] by auto
next
  case PopTop
  then show ?thesis using bq_pop_to_rep [OF assms(1)] by (auto split: list.splits)
qed

lemma ring_run_rep:
  "bq_rep q l \<Longrightarrow> 0 < unat (bq_cap q) \<Longrightarrow>
   \<exists>q'. ring_run ops q = Inr (fst (list_run (unat (bq_cap q)) ops l), q') \<and> bq_rep q' (snd (list_run (unat (bq_cap q)) ops l))"
proof (induction ops arbitrary: q l)
  case (Cons op ops)
  obtain q1 where q1: "ring_step op q = Inl (fst (list_step (unat (bq_cap q)) op l), q1)"
    "bq_rep q1 (snd (list_step (unat (bq_cap q)) op l))" "bq_cap q1 = bq_cap q"
    using ring_step_rep [OF Cons.prems] by blast
  obtain q2 where "ring_run ops q1 = Inr (fst (list_run (unat (bq_cap q)) ops (snd (list_step (unat (bq_cap q)) op l))), q2)"
    "bq_rep q2 (snd (list_run (unat (bq_cap q)) ops (snd (list_step (unat (bq_cap q)) op l))))"
    using Cons.IH [OF q1(2)] q1(3) Cons.prems(2) by auto
  with q1(1) show ?case by (simp add: Let_def split_beta)
qed simp

section \<open>Properties\<close>



text \<open>\<open>pop_bottom\<close> forgets to wrap around: on every non-empty queue whose items reach past the end of
  the memory both of its variants access memory outside the buffer, and on every other non-empty queue
  the one without an argument removes the bottom item.\<close>

theorem pop_bottom_right_iff_not_wrapped:
  assumes "bq_rep q l" "l \<noteq> []"
  shows "if unat (bq_start q) + length l \<le> unat (bq_cap q)
         then \<exists>q'. bq_pop_bottom q = Inr (True, q') \<and> bq_rep q' (butlast l)
         else bq_pop_bottom q = Inl OutOfRange \<and> bq_pop_bottom_to q = Inl OutOfRange"
  using bq_pop_bottom_fits [OF assms] bq_pop_bottom_wraps [OF assms(1)] by simp

theorem pop_bottom_right_iff_not_wrapped_witness:
  "bq_pop_bottom \<lparr>bq_count = 2, bq_cap = 2, bq_start = 1, bq_ownership = OWNS_STORAGE, bq_items = Some [Some 3, Some (2 :: nat)]\<rparr> =
     Inl OutOfRange"
proof -
  let ?q = "\<lparr>bq_count = 2, bq_cap = 2, bq_start = 1, bq_ownership = OWNS_STORAGE, bq_items = Some [Some 3, Some (2 :: nat)]\<rparr>"
  have "bq_rep ?q [2, 3]" by (auto simp: bq_rep_def less_2_cases_iff)
  from pop_bottom_right_iff_not_wrapped [OF this] show ?thesis by simp
qed

end
