(* ===== verification/MruCache.thy ===== *)
theory MruCache
  imports Prelude
begin

text \<open>
  \<^verbatim>\<open>butil/containers/mru_cache.h\<close>: a cache that keeps its entries in order of use.  The recency list
  is a \<^verbatim>\<open>std::list\<close>, whose iterators stay valid while other entries come and go; a node of it is
  therefore named by an id, and the index maps a key to the id of its node, as the source maps it to
  an iterator.  \<open>mc_deleted\<close> records the calls of the deletor.
\<close>

record ('k, 'v) mru_cache =
  mc_ordering :: "(nat \<times> 'k \<times> 'v) list"
  mc_index :: "('k, nat) smap"
  mc_max_size :: nat
  mc_deleted :: "'v list"
  mc_fresh :: nat

definition NO_AUTO_EVICT :: nat where
  "NO_AUTO_EVICT = 0"

definition mru_new :: "nat \<Rightarrow> ('k, 'v) mru_cache" where
  "mru_new max_size = \<lparr>mc_ordering = [], mc_index = [], mc_max_size = max_size, mc_deleted = [], mc_fresh = 0\<rparr>"

text \<open>The entry at an iterator; an iterator that is not in the list is dangling.\<close>

definition node_at :: "nat \<Rightarrow> ('k, 'v) mru_cache \<Rightarrow> ('k \<times> 'v) res" where
  "node_at pos c = (case map_of (mc_ordering c) pos of None \<Rightarrow> Inl DeadDeref | Some kv \<Rightarrow> Inr kv)"

text \<open>\<^verbatim>\<open>std::list::erase\<close> returns the iterator that follows; \<open>None\<close> is \<^verbatim>\<open>end()\<close>.\<close>

fun after_node :: "nat \<Rightarrow> (nat \<times> 'a) list \<Rightarrow> nat option" where
  "after_node pos [] = None"
| "after_node pos ((i, x) # rest) =
     (if i = pos then (case rest of [] \<Rightarrow> None | (j, _) # _ \<Rightarrow> Some j) else after_node pos rest)"

definition mru_erase :: "nat \<Rightarrow> ('k :: linorder, 'v) mru_cache \<Rightarrow> (nat option \<times> ('k, 'v) mru_cache) res" where
  "mru_erase pos c =
     res_bind (node_at pos c) (\<lambda>(key, payload).
       Inr (after_node pos (mc_ordering c),
            c\<lparr>mc_deleted := mc_deleted c @ [payload], mc_index := smap_del (mc_index c) key,
              mc_ordering := filter (\<lambda>(i, _). i \<noteq> pos) (mc_ordering c)\<rparr>))"

text \<open>Erasing at \<^verbatim>\<open>rbegin()\<close>; on an empty list there is nothing the reverse iterator could name.\<close>

definition mru_erase_last :: "('k :: linorder, 'v) mru_cache \<Rightarrow> ('k, 'v) mru_cache res" where
  "mru_erase_last c =
     (if mc_ordering c = [] then Inl DeadDeref
      else res_bind (mru_erase (fst (last (mc_ordering c))) c) (\<lambda>(_, c'). Inr c'))"

definition mru_size :: "('k, 'v) mru_cache \<Rightarrow> nat" where
  "mru_size c = length (mc_index c)"

fun shrink_loop :: "nat \<Rightarrow> ('k :: linorder, 'v) mru_cache \<Rightarrow> ('k, 'v) mru_cache res" where
  "shrink_loop 0 c = Inr c"
| "shrink_loop (Suc n) c = res_bind (mru_erase_last c) (shrink_loop n)"

text \<open>\<open>for (i = size(); i > new_size; i--)\<close> runs \<open>size() - new_size\<close> times.\<close>

definition mru_ShrinkToSize :: "nat \<Rightarrow> ('k :: linorder, 'v) mru_cache \<Rightarrow> ('k, 'v) mru_cache res" where
  "mru_ShrinkToSize new_size c = shrink_loop (mru_size c - new_size) c"

definition mru_Put :: "'k :: linorder \<Rightarrow> 'v \<Rightarrow> ('k, 'v) mru_cache \<Rightarrow> (nat \<times> ('k, 'v) mru_cache) res" where
  "mru_Put key payload c =
     res_bind (case smap_find (mc_index c) key of
                 Some pos \<Rightarrow> res_bind (mru_erase pos c) (\<lambda>(_, c'). Inr c')
               | None \<Rightarrow> if mc_max_size c \<noteq> NO_AUTO_EVICT then mru_ShrinkToSize (mc_max_size c - 1) c else Inr c)
       (\<lambda>c1. let pos = mc_fresh c1;
                 index = (case smap_find (mc_index c1) key of None \<Rightarrow> smap_put (mc_index c1) key pos | Some _ \<Rightarrow> mc_index c1)
             in Inr (pos, c1\<lparr>mc_ordering := (pos, key, payload) # mc_ordering c1, mc_index := index, mc_fresh := pos + 1\<rparr>))"

text \<open>The result is \<^verbatim>\<open>ordering_.begin()\<close>, or \<open>None\<close> for \<^verbatim>\<open>end()\<close>.\<close>

definition mru_Get :: "'k \<Rightarrow> ('k, 'v) mru_cache \<Rightarrow> (nat option \<times> ('k, 'v) mru_cache) res" where
  "mru_Get key c =
     (case smap_find (mc_index c) key of
        None \<Rightarrow> Inr (None, c)
      | Some pos \<Rightarrow>
          res_bind (node_at pos c) (\<lambda>kv.
            Inr (Some pos, c\<lparr>mc_ordering := (pos, kv) # filter (\<lambda>(i, _). i \<noteq> pos) (mc_ordering c)\<rparr>)))"

definition mru_Peek :: "'k \<Rightarrow> ('k, 'v) mru_cache \<Rightarrow> nat option" where
  "mru_Peek key c = smap_find (mc_index c) key"

definition mru_Clear :: "('k, 'v) mru_cache \<Rightarrow> ('k, 'v) mru_cache" where
  "mru_Clear c =
     c\<lparr>mc_deleted := mc_deleted c @ map (snd \<circ> snd) (mc_ordering c), mc_index := [], mc_ordering := []\<rparr>"

definition mru_empty :: "('k, 'v) mru_cache \<Rightarrow> bool" where
  "mru_empty c \<longleftrightarrow> mc_ordering c = []"

section \<open>The list of entries\<close>

text \<open>The entries, most recently used first, and the invariant that ties the index to the list.\<close>

definition mru_list :: "('k, 'v) mru_cache \<Rightarrow> ('k \<times> 'v) list" where
  "mru_list c = map snd (mc_ordering c)"

definition mru_ok :: "('k :: linorder, 'v) mru_cache \<Rightarrow> bool" where
  "mru_ok c \<longleftrightarrow>
     smap_ok (mc_index c) \<and> distinct (map fst (mc_ordering c)) \<and> distinct (map fst (mru_list c)) \<and>
     (\<forall>k pos. smap_find (mc_index c) k = Some pos \<longleftrightarrow> (\<exists>v. (pos, k, v) \<in> set (mc_ordering c))) \<and>
     (\<forall>pos \<in> fst ` set (mc_ordering c). pos < mc_fresh c)"

lemma mru_ok_index_dom: "mru_ok c \<Longrightarrow> fst ` set (mc_index c) = fst ` set (mru_list c)"
proof -
  assume ok: "mru_ok c"
  have "fst ` set (mc_index c) = {k. smap_find (mc_index c) k \<noteq> None}"
    by (induction "mc_index c") (auto simp: smap_find_map_of dom_map_of_conv_image_fst [symmetric])
  also have "\<dots> = fst ` set (mru_list c)"
    using ok by (force simp: mru_ok_def mru_list_def)
  finally show ?thesis .
qed

lemma mru_ok_size: "mru_ok c \<Longrightarrow> mru_size c = length (mru_list c)"
proof -
  assume ok: "mru_ok c"
  have "length (mc_index c) = card (fst ` set (mc_index c))"
    using ok smap_ok_distinct [of "mc_index c"] distinct_card [of "map fst (mc_index c)"] by (simp add: mru_ok_def)
  also have "\<dots> = length (mru_list c)"
    using mru_ok_index_dom [OF ok] ok distinct_card [of "map fst (mru_list c)"] by (simp add: mru_ok_def)
  finally show ?thesis by (simp add: mru_size_def)
qed

text \<open>Removing a node removes its entry from the list.\<close>

lemma filter_node:
  assumes "distinct (map fst xs)" "distinct (map fst (map snd xs))" "(pos, k, v) \<in> set xs"
  shows "map snd (filter (\<lambda>(i, _). i \<noteq> pos) xs) = filter (\<lambda>(k', _). k' \<noteq> k) (map snd xs)"
  using assms
proof (induction xs)
  case (Cons x xs)
  obtain i k' v' where x: "x = (i, k', v')" by (cases x) auto
  show ?case
  proof (cases "i = pos")
    case True
    then have "k' = k" using Cons.prems x by force
    moreover have "filter (\<lambda>(i, _). i \<noteq> pos) xs = xs" "filter (\<lambda>(k', _). k' \<noteq> k) (map snd xs) = map snd xs"
      using Cons.prems True x \<open>k' = k\<close> by (auto simp: filter_id_conv image_iff)
    ultimately show ?thesis using x True by simp
  next
    case False
    then have "k' \<noteq> k" using Cons.prems x by force
    with False Cons x show ?thesis by auto
  qed
qed simp

lemma mru_erase_ok:
  assumes "mru_ok c" "(pos, k, v) \<in> set (mc_ordering c)"
  shows "\<exists>nxt c'. mru_erase pos c = Inr (nxt, c') \<and> mru_ok c' \<and> mru_list c' = filter (\<lambda>(k', _). k' \<noteq> k) (mru_list c) \<and>
     mc_deleted c' = mc_deleted c @ [v] \<and> mc_max_size c' = mc_max_size c \<and> mc_fresh c' = mc_fresh c"
proof -
  have d: "distinct (map fst (mc_ordering c))" "distinct (map fst (mru_list c))" using assms(1) by (auto simp: mru_ok_def)
  have kv: "map_of (mc_ordering c) pos = Some (k, v)" using d(1) assms(2) by simp
  let ?c' = "c\<lparr>mc_deleted := mc_deleted c @ [v], mc_index := smap_del (mc_index c) k,
              mc_ordering := filter (\<lambda>(i, _). i \<noteq> pos) (mc_ordering c)\<rparr>"
  have l: "mru_list ?c' = filter (\<lambda>(k', _). k' \<noteq> k) (mru_list c)"
    using filter_node [OF d(1) d(2) [unfolded mru_list_def] assms(2)] by (simp add: mru_list_def)
  have same: "pos' = pos \<longleftrightarrow> k' = k" if "(pos', k', v') \<in> set (mc_ordering c)" for pos' k' v'
  proof
    assume "pos' = pos"
    then show "k' = k" using that kv d(1) by simp
  next
    assume "k' = k"
    then have "(pos', k, v') \<in> set (mc_ordering c)" using that by simp
    then have "smap_find (mc_index c) k = Some pos'" "smap_find (mc_index c) k = Some pos"
      using assms unfolding mru_ok_def by blast+
    then show "pos' = pos" by simp
  qed
  have "mru_ok ?c'"
    using assms(1) d l same unfolding mru_ok_def
    by (auto simp: distinct_map_filter split: prod.splits)
  with kv l show ?thesis by (simp add: mru_erase_def node_at_def)
qed

lemma mru_erase_last_ok:
  assumes "mru_ok c" "mru_list c \<noteq> []"
  shows "\<exists>c'. mru_erase_last c = Inr c' \<and> mru_ok c' \<and> mru_list c' = butlast (mru_list c) \<and>
     mc_deleted c' = mc_deleted c @ [snd (last (mru_list c))] \<and> mc_max_size c' = mc_max_size c"
proof -
  have ne: "mc_ordering c \<noteq> []" using assms(2) by (simp add: mru_list_def)
  obtain pos k v where last: "last (mc_ordering c) = (pos, k, v)" by (cases "last (mc_ordering c)") auto
  then have mem: "(pos, k, v) \<in> set (mc_ordering c)" using last_in_set [OF ne] by simp
  have lk: "last (mru_list c) = (k, v)" using last ne by (simp add: mru_list_def last_map)
  have "mru_list c = butlast (mru_list c) @ [(k, v)]" using append_butlast_last_id [OF assms(2)] lk by simp
  then have split: "mru_list c = butlast (mru_list c) @ [(k, v)]" .
  have "distinct (map fst (mru_list c))" using assms(1) by (simp add: mru_ok_def)
  then have "k \<notin> fst ` set (butlast (mru_list c))" by (subst (asm) split) simp
  then have "filter (\<lambda>(k', _). k' \<noteq> k) (butlast (mru_list c)) = butlast (mru_list c)"
    by (force simp: filter_id_conv)
  then have "filter (\<lambda>(k', _). k' \<noteq> k) (mru_list c) = butlast (mru_list c)"
    by (subst split) simp
  with mru_erase_ok [OF assms(1) mem] last ne lk show ?thesis by (auto simp: mru_erase_last_def)
qed

lemma shrink_loop_ok:
  "mru_ok c \<Longrightarrow> n \<le> length (mru_list c) \<Longrightarrow>
   \<exists>c'. shrink_loop n c = Inr c' \<and> mru_ok c' \<and> mru_list c' = take (length (mru_list c) - n) (mru_list c) \<and>
     mc_deleted c' = mc_deleted c @ map snd (take n (rev (mru_list c))) \<and> mc_max_size c' = mc_max_size c"
proof (induction n arbitrary: c)
  case (Suc n)
  then have ne: "mru_list c \<noteq> []" by auto
  obtain c1 where c1: "mru_erase_last c = Inr c1" "mru_ok c1" "mru_list c1 = butlast (mru_list c)"
    "mc_deleted c1 = mc_deleted c @ [snd (last (mru_list c))]" "mc_max_size c1 = mc_max_size c"
    using mru_erase_last_ok [OF Suc.prems(1) ne] by blast
  obtain xs x where l: "mru_list c = xs @ [x]" using ne by (cases "mru_list c" rule: rev_cases) auto
  obtain c2 where "shrink_loop n c1 = Inr c2" "mru_ok c2" "mru_list c2 = take (length (mru_list c1) - n) (mru_list c1)"
    "mc_deleted c2 = mc_deleted c1 @ map snd (take n (rev (mru_list c1)))" "mc_max_size c2 = mc_max_size c1"
    using Suc.IH [OF c1(2)] c1(3) Suc.prems(2) l by auto
  with c1 l show ?case by simp
qed simp

lemma mru_ShrinkToSize_ok:
  assumes "mru_ok c"
  shows "\<exists>c'. mru_ShrinkToSize n c = Inr c' \<and> mru_ok c' \<and> mru_list c' = take n (mru_list c) \<and>
     mc_deleted c' = mc_deleted c @ map snd (rev (drop n (mru_list c))) \<and> mc_max_size c' = mc_max_size c"
proof -
  have "take (length (mru_list c) - n) (rev (mru_list c)) = rev (drop n (mru_list c))"
    by (simp add: rev_drop)
  moreover have "take (length (mru_list c) - (length (mru_list c) - n)) (mru_list c) = take n (mru_list c)"
    by (cases "n \<le> length (mru_list c)") auto
  ultimately show ?thesis
    using shrink_loop_ok [OF assms, of "length (mru_list c) - n"] mru_ok_size [OF assms]
    by (simp add: mru_ShrinkToSize_def)
qed

lemma mru_find_entry:
  assumes "mru_ok c" "smap_find (mc_index c) k = Some pos"
  shows "\<exists>v. (pos, k, v) \<in> set (mc_ordering c) \<and> map_of (mru_list c) k = Some v"
proof -
  obtain v where v: "(pos, k, v) \<in> set (mc_ordering c)" using assms by (auto simp: mru_ok_def)
  then have "(k, v) \<in> set (mru_list c)" by (force simp: mru_list_def)
  then show ?thesis using v assms(1) by (auto simp: mru_ok_def)
qed

lemma mru_find_None:
  assumes "mru_ok c" "smap_find (mc_index c) k = None"
  shows "k \<notin> fst ` set (mru_list c)"
  using assms mru_ok_index_dom [OF assms(1)] by (auto simp: smap_find_map_of map_of_eq_None_iff)

text \<open>The specification: a list of entries, most recent first.\<close>

definition mru_put_spec :: "nat \<Rightarrow> 'k \<Rightarrow> 'v \<Rightarrow> ('k \<times> 'v) list \<Rightarrow> ('k \<times> 'v) list" where
  "mru_put_spec limit k v l =
     (k, v) # (if k \<in> fst ` set l then filter (\<lambda>(k', _). k' \<noteq> k) l else if limit \<noteq> 0 then take (limit - 1) l else l)"

definition mru_get_spec :: "'k \<Rightarrow> ('k \<times> 'v) list \<Rightarrow> ('k \<times> 'v) list" where
  "mru_get_spec k l = (case map_of l k of None \<Rightarrow> l | Some v \<Rightarrow> (k, v) # filter (\<lambda>(k', _). k' \<noteq> k) l)"

lemma mru_add_front_ok:
  assumes "mru_ok c" "k \<notin> fst ` set (mru_list c)"
  shows "mru_ok (c\<lparr>mc_ordering := (mc_fresh c, k, v) # mc_ordering c, mc_index := smap_put (mc_index c) k (mc_fresh c),
      mc_fresh := mc_fresh c + 1\<rparr>)"
proof -
  have k: "(pos, k, v') \<notin> set (mc_ordering c)" for pos v' using assms(2) by (force simp: mru_list_def)
  have f: "mc_fresh c \<notin> fst ` set (mc_ordering c)" using assms(1) by (auto simp: mru_ok_def)
  show ?thesis using assms k f by (auto simp: mru_ok_def mru_list_def less_Suc_eq)
qed

lemma mru_Put_ok:
  assumes "mru_ok c"
  shows "\<exists>pos c'. mru_Put k v c = Inr (pos, c') \<and> mru_ok c' \<and> mru_list c' = mru_put_spec (mc_max_size c) k v (mru_list c) \<and>
     mc_max_size c' = mc_max_size c"
proof -
  let ?prep = "case smap_find (mc_index c) k of
                 Some pos \<Rightarrow> res_bind (mru_erase pos c) (\<lambda>(_, c'). Inr c')
               | None \<Rightarrow> if mc_max_size c \<noteq> NO_AUTO_EVICT then mru_ShrinkToSize (mc_max_size c - 1) c else Inr c"
  have "\<exists>c1. ?prep = Inr c1 \<and> mru_ok c1 \<and> mru_list c1 = tl (mru_put_spec (mc_max_size c) k v (mru_list c)) \<and>
      k \<notin> fst ` set (mru_list c1) \<and> mc_max_size c1 = mc_max_size c"
  proof (cases "smap_find (mc_index c) k")
    case None
    have k: "k \<notin> fst ` set (mru_list c)" using mru_find_None [OF assms None] .
    then have "k \<notin> fst ` set (take n (mru_list c))" for n using set_take_subset [of n "mru_list c"] by blast
    with None k assms mru_ShrinkToSize_ok [OF assms, of "mc_max_size c - 1"] show ?thesis
      by (auto simp: mru_put_spec_def NO_AUTO_EVICT_def)
  next
    case (Some pos)
    obtain v' where v': "(pos, k, v') \<in> set (mc_ordering c)" "map_of (mru_list c) k = Some v'"
      using mru_find_entry [OF assms Some] by blast
    then have "k \<in> fst ` set (mru_list c)" by (force dest: map_of_SomeD)
    with Some mru_erase_ok [OF assms v'(1)] show ?thesis by (auto simp: mru_put_spec_def)
  qed
  then obtain c1 where c1: "?prep = Inr c1" "mru_ok c1" "mru_list c1 = tl (mru_put_spec (mc_max_size c) k v (mru_list c))"
    "k \<notin> fst ` set (mru_list c1)" "mc_max_size c1 = mc_max_size c" by blast
  have "smap_find (mc_index c1) k = None"
    using c1(4) mru_ok_index_dom [OF c1(2)] by (simp add: smap_find_map_of map_of_eq_None_iff)
  moreover have "mru_put_spec (mc_max_size c) k v (mru_list c) = (k, v) # mru_list c1"
    using c1(3) by (simp add: mru_put_spec_def)
  ultimately show ?thesis using c1(1,5) mru_add_front_ok [OF c1(2,4), of v]
    by (simp add: mru_Put_def Let_def) (simp add: mru_list_def)
qed

lemma mru_ok_reorder:
  assumes "mru_ok c" "mc_index c' = mc_index c" "mc_fresh c' = mc_fresh c" "set (mc_ordering c') = set (mc_ordering c)"
    "distinct (map fst (mru_list c'))" "distinct (map fst (mc_ordering c'))"
  shows "mru_ok c'"
  using assms by (simp add: mru_ok_def)

lemma mru_Get_ok:
  assumes "mru_ok c"
  shows "\<exists>r c'. mru_Get k c = Inr (r, c') \<and> mru_ok c' \<and> mru_list c' = mru_get_spec k (mru_list c) \<and>
     mc_max_size c' = mc_max_size c \<and>
     (case r of None \<Rightarrow> map_of (mru_list c) k = None
      | Some pos \<Rightarrow> \<exists>v. node_at pos c' = Inr (k, v) \<and> map_of (mru_list c) k = Some v)"
proof (cases "smap_find (mc_index c) k")
  case None
  then have "map_of (mru_list c) k = None" using mru_find_None [OF assms None] by (simp add: map_of_eq_None_iff)
  with None assms show ?thesis by (simp add: mru_Get_def mru_get_spec_def)
next
  case (Some pos)
  obtain v where v: "(pos, k, v) \<in> set (mc_ordering c)" "map_of (mru_list c) k = Some v"
    using mru_find_entry [OF assms Some] by blast
  have d: "distinct (map fst (mc_ordering c))" "distinct (map fst (mru_list c))" using assms by (auto simp: mru_ok_def)
  have n: "map_of (mc_ordering c) pos = Some (k, v)" using d(1) v(1) by simp
  let ?c' = "c\<lparr>mc_ordering := (pos, k, v) # filter (\<lambda>(i, _). i \<noteq> pos) (mc_ordering c)\<rparr>"
  have l: "mru_list ?c' = mru_get_spec k (mru_list c)"
    using filter_node [OF d(1) d(2) [unfolded mru_list_def] v(1)] v(2) by (simp add: mru_list_def mru_get_spec_def)
  have mem: "x \<in> set (mc_ordering ?c') \<longleftrightarrow> x \<in> set (mc_ordering c)" for x
    using v(1) n map_of_is_SomeI [OF d(1)] by (cases x) fastforce
  have "distinct (map fst (mru_list ?c'))"
    using d(2) v(2) by (auto simp: l mru_get_spec_def distinct_map_filter)
  moreover have "distinct (map fst (mc_ordering ?c'))" using d(1) by (auto simp: distinct_map_filter)
  moreover have "set (mc_ordering ?c') = set (mc_ordering c)" using mem by blast
  ultimately have "mru_ok ?c'" using mru_ok_reorder [OF assms, of ?c'] by simp
  with Some n l v(2) show ?thesis by (simp add: mru_Get_def node_at_def)
qed

lemma mru_new_ok: "mru_ok (mru_new limit)" "mru_list (mru_new limit) = []" "mc_max_size (mru_new limit) = limit"
  by (simp_all add: mru_ok_def mru_new_def mru_list_def)

section \<open>Properties\<close>

datatype ('k, 'v) mru_op = MruPut 'k 'v | MruGet 'k

fun mru_run :: "('k :: linorder, 'v) mru_op list \<Rightarrow> ('k, 'v) mru_cache \<Rightarrow> ('k, 'v) mru_cache res" where
  "mru_run [] c = Inr c"
| "mru_run (MruPut k v # ops) c = res_bind (mru_Put k v c) (\<lambda>(_, c'). mru_run ops c')"
| "mru_run (MruGet k # ops) c = res_bind (mru_Get k c) (\<lambda>(_, c'). mru_run ops c')"

fun mru_spec :: "nat \<Rightarrow> ('k, 'v) mru_op \<Rightarrow> ('k \<times> 'v) list \<Rightarrow> ('k \<times> 'v) list" where
  "mru_spec limit (MruPut k v) l = mru_put_spec limit k v l"
| "mru_spec limit (MruGet k) l = mru_get_spec k l"

lemma mru_run_ok:
  "mru_ok c \<Longrightarrow>
   \<exists>c'. mru_run ops c = Inr c' \<and> mru_ok c' \<and> mru_list c' = fold (mru_spec (mc_max_size c)) ops (mru_list c) \<and>
     mc_max_size c' = mc_max_size c"
proof (induction ops arbitrary: c)
  case (Cons op ops)
  show ?case
  proof (cases op)
    case (MruPut k v)
    obtain pos c1 where c1: "mru_Put k v c = Inr (pos, c1)" "mru_ok c1" "mc_max_size c1 = mc_max_size c"
      "mru_list c1 = mru_put_spec (mc_max_size c) k v (mru_list c)" using mru_Put_ok [OF Cons.prems] by blast
    with Cons.IH [OF c1(2)] MruPut show ?thesis by simp
  next
    case (MruGet k)
    obtain r c1 where c1: "mru_Get k c = Inr (r, c1)" "mru_ok c1" "mc_max_size c1 = mc_max_size c"
      "mru_list c1 = mru_get_spec k (mru_list c)" using mru_Get_ok [OF Cons.prems, of k] by blast
    with Cons.IH [OF c1(2)] MruGet show ?thesis by simp
  qed
qed simp

lemma mru_spec_bound: "limit \<noteq> 0 \<Longrightarrow> length l \<le> limit \<Longrightarrow> length (mru_spec limit op l) \<le> limit"
proof (cases op)
  case (MruPut k v)
  assume l: "limit \<noteq> 0" "length l \<le> limit"
  have "length (filter (\<lambda>(k', _). k' \<noteq> k) l) < length l" if "k \<in> fst ` set l"
    using that by (force intro: length_filter_less)
  with l have "length (mru_put_spec limit k v l) \<le> limit"
    unfolding mru_put_spec_def by (cases "k \<in> fst ` set l") auto
  with MruPut show ?thesis by simp
next
  case (MruGet k)
  assume l: "length l \<le> limit"
  have "length (filter (\<lambda>(k', _). k' \<noteq> k) l) < length l" if "map_of l k = Some v" for v
    using map_of_SomeD [OF that] by (auto intro: length_filter_less)
  with l MruGet show ?thesis by (auto simp: mru_get_spec_def split: option.split intro: Suc_leI order_trans)
qed

lemma mru_fold_bound: "limit \<noteq> 0 \<Longrightarrow> length l \<le> limit \<Longrightarrow> length (fold (mru_spec limit) ops l) \<le> limit"
  by (induction ops arbitrary: l) (simp_all add: mru_spec_bound)

text \<open>C32: The cache implements a recency list: any sequence of \<open>Put\<close> and \<open>Get\<close> on a new cache runs without
  following a dangling iterator, leaves index and list consistent, and leaves exactly the entries of
  the specification in its order: the last used entry first, an entry put again replaced, and the
  least recently used entry evicted when a new key would exceed the limit, so that a limited cache
  never holds more entries than its limit.\<close>

theorem mru_cache_is_recency_list:
  "\<exists>c'. mru_run ops (mru_new limit) = Inr c' \<and> mru_ok c' \<and> mru_list c' = fold (mru_spec limit) ops [] \<and>
     (limit = 0 \<or> mru_size c' \<le> limit)"
proof -
  obtain c' where c': "mru_run ops (mru_new limit) = Inr c'" "mru_ok c'" "mru_list c' = fold (mru_spec limit) ops []"
    using mru_run_ok [OF mru_new_ok(1) [of limit], of ops] by (auto simp: mru_new_ok)
  with mru_ok_size [OF c'(2)] mru_fold_bound [of limit "[]" ops] show ?thesis by auto
qed

end
