(* ===== verification/BitArray.thy ===== *)
theory BitArray
  imports Prelude
begin

text \<open>
  \<^verbatim>\<open>butil/bit_array.h\<close> and the rounding to a power of two of \<^verbatim>\<open>butil/containers/flat_map_inl.h\<close>, on
  64-bit words.  A bit array is a list of words; accesses past its end are faults.
\<close>

unbundle bit_operations_syntax

section \<open>Rounding up to a power of two\<close>

definition smear :: "nat \<Rightarrow> u64 \<Rightarrow> u64" where
  "smear n b = b OR drop_bit n b"

definition find_power2 :: "u64 \<Rightarrow> u64" where
  "find_power2 b0 =
     (let b1 = b0 - 1; b2 = smear 1 b1; b3 = smear 2 b2; b4 = smear 4 b3; b5 = smear 8 b4; b6 = smear 16 b5;
          b7 = smear 32 b6
      in b7 + 1)"

definition find_next_prime :: "u32 \<Rightarrow> u32" where
  "find_next_prime nbucket =
     (case List.find (\<lambda>p. unat nbucket \<le> p)
        [29, 53, 97, 193, 389, 769, 1543, 3079, 6151, 12289, 24593, 49157, 98317, 196613, 393241, 786433,
         1572869, 3145739, 6291469, 12582917, 25165843, 50331653, 100663319, 201326611, 402653189, 805306457,
         1610612741, 3221225473, 4294967291] of
        Some p \<Rightarrow> of_nat p | None \<Rightarrow> nbucket)"

definition smeared :: "nat \<Rightarrow> u64 \<Rightarrow> u64 \<Rightarrow> bool" where
  "smeared n b x \<longleftrightarrow> (\<forall>i. bit x i \<longleftrightarrow> (\<exists>j. i \<le> j \<and> j < i + n \<and> bit b j))"

lemma smeared_1: "smeared 1 b b"
  by (auto simp: smeared_def) (metis le_antisym less_Suc_eq_le)

lemma smeared_double:
  assumes s: "smeared n b x" and m: "m = n + n"
  shows "smeared m b (smear n x)"
proof -
  have "(\<exists>j. i \<le> j \<and> j < i + m \<and> bit b j) \<longleftrightarrow>
      (\<exists>j. i \<le> j \<and> j < i + n \<and> bit b j) \<or> (\<exists>j. i + n \<le> j \<and> j < i + n + n \<and> bit b j)" (is "?L \<longleftrightarrow> ?R") for i
  proof
    assume ?L
    then obtain j where j: "i \<le> j" "j < i + m" "bit b j" by blast
    show ?R by (cases "j < i + n") (use j m in auto)
  next
    assume ?R
    then show ?L
    proof
      assume "\<exists>j. i \<le> j \<and> j < i + n \<and> bit b j"
      then obtain j where "i \<le> j" "j < i + n" "bit b j" by blast
      then have "i \<le> j \<and> j < i + m \<and> bit b j" using m by simp
      then show ?L ..
    next
      assume "\<exists>j. i + n \<le> j \<and> j < i + n + n \<and> bit b j"
      then obtain j where "i + n \<le> j" "j < i + n + n" "bit b j" by blast
      then have "i \<le> j \<and> j < i + m \<and> bit b j" using m by simp
      then show ?L ..
    qed
  qed
  then show ?thesis using s by (simp add: smear_def smeared_def bit_simps add.commute)
qed

lemma smear_all: "smeared 64 b (smear 32 (smear 16 (smear 8 (smear 4 (smear 2 (smear 1 b))))))"
proof -
  have "smeared 2 b (smear 1 b)" by (rule smeared_double [OF smeared_1]) simp
  then have "smeared 4 b (smear 2 (smear 1 b))" by (rule smeared_double) simp
  then have "smeared 8 b (smear 4 (smear 2 (smear 1 b)))" by (rule smeared_double) simp
  then have "smeared 16 b (smear 8 (smear 4 (smear 2 (smear 1 b))))" by (rule smeared_double) simp
  then have "smeared 32 b (smear 16 (smear 8 (smear 4 (smear 2 (smear 1 b)))))" by (rule smeared_double) simp
  then show ?thesis by (rule smeared_double) simp
qed

text \<open>A word whose highest bit is bit \<open>k\<close>.\<close>

lemma smeared_mask:
  assumes s: "smeared 64 c x" and u: "unat c < 2 ^ Suc k" "2 ^ k \<le> unat c" and k: "k < 63"
  shows "x = mask (Suc k)"
proof (rule bit_word_eqI)
  fix i assume i: "i < LENGTH(64)"
  have hi: "\<not> bit c j" if "k < j" for j
  proof -
    have "(2 :: nat) ^ Suc k \<le> 2 ^ j" using that by (simp add: power_increasing del: power_Suc)
    then have "unat c < 2 ^ j" using u(1) by simp
    then have "\<not> bit (unat c) j" by (simp add: bit_iff_odd)
    then show ?thesis by (simp add: bit_unsigned_iff)
  qed
  have "unat c div 2 ^ k = 1" using u by (simp add: div_nat_eqI)
  then have "bit (unat c) k" by (simp add: bit_iff_odd)
  then have lo: "bit c k" by (simp add: bit_unsigned_iff)
  have "bit x i \<longleftrightarrow> (\<exists>j. i \<le> j \<and> j < i + 64 \<and> bit c j)" using s by (simp add: smeared_def)
  also have "\<dots> \<longleftrightarrow> i \<le> k"
  proof
    assume "\<exists>j. i \<le> j \<and> j < i + 64 \<and> bit c j"
    then obtain j where "i \<le> j" "bit c j" by blast
    then show "i \<le> k" using hi [of j] by fastforce
  next
    assume "i \<le> k"
    then have "i \<le> k \<and> k < i + 64 \<and> bit c k" using lo k by simp
    then show "\<exists>j. i \<le> j \<and> j < i + 64 \<and> bit c j" ..
  qed
  finally show "bit x i \<longleftrightarrow> bit (mask (Suc k) :: u64) i"
    using i by (simp add: bit_mask_iff less_Suc_eq_le)
qed

lemma find_power2_round:
  assumes "2 ^ k < unat b" "unat b \<le> 2 ^ Suc k" "k < 63"
  shows "find_power2 b = 2 ^ Suc k"
proof -
  have "b \<noteq> 0" using assms(1) by auto
  then have u: "unat (b - 1) = unat b - 1" by (simp add: unat_minus_one)
  have "unat (b - 1) < 2 ^ Suc k" "2 ^ k \<le> unat (b - 1)"
    using assms(1, 2) by (simp_all add: u)
  from smeared_mask [OF smear_all this assms(3)] show ?thesis
    by (simp add: find_power2_def Let_def mask_eq_exp_minus_1)
qed

lemma find_power2_small [simp]: "find_power2 0 = 0" "find_power2 1 = 1" "find_power2 2 = 2"
  by (simp_all add: find_power2_def smear_def Let_def)

lemma unat_exp:
  assumes "k < 64"
  shows "unat (2 ^ k :: u64) = 2 ^ k"
proof -
  have "(2 :: nat) ^ k < 2 ^ 64" using assms by (intro power_strict_increasing) auto
  then have "unat (of_nat (2 ^ k) :: u64) = 2 ^ k" by (simp only: unat_of_nat) (simp add: take_bit_nat_eq_self)
  then show ?thesis by simp
qed

lemma find_power2_exp: "k < 64 \<Longrightarrow> find_power2 (2 ^ k) = 2 ^ k"
proof (cases k)
  case (Suc j)
  assume "k < 64"
  then have "unat (2 ^ k :: u64) = 2 ^ k" by (simp add: unat_exp)
  then show ?thesis
    using find_power2_round [of j "2 ^ k"] Suc \<open>k < 64\<close> by simp
qed simp

lemma find_power2_exp_plus1:
  assumes "k < 63"
  shows "find_power2 (2 ^ k + 1) = 2 ^ Suc k"
proof (rule find_power2_round)
  have l: "(2 :: nat) ^ k \<le> 2 ^ 62" using assms by (intro power_increasing) auto
  then have u: "unat (2 ^ k + 1 :: u64) = 2 ^ k + 1"
    using assms by (simp add: unat_word_ariths unat_exp)
  show "2 ^ k < unat (2 ^ k + 1 :: u64)" by (simp add: u)
  show "unat (2 ^ k + 1 :: u64) \<le> 2 ^ Suc k" using one_le_power [of "2 :: nat" k] by (simp add: u)
qed (rule assms)

section \<open>Bit arrays\<close>

text \<open>
  \<open>mem\<close> tells whether \<^verbatim>\<open>malloc\<close> finds that many bytes; fresh memory holds arbitrary words, given as
  \<open>junk\<close>.  Indices are natural numbers: no computation on them below can leave \<^verbatim>\<open>size_t\<close>, except the
  rounding in \<^verbatim>\<open>bit_array_malloc\<close>, which is done on words.
\<close>

definition ba_bytes :: "u64 \<Rightarrow> u64" where
  "ba_bytes nbit = (nbit + 63) div 64 * 8"

definition ba_malloc :: "(u64 \<Rightarrow> bool) \<Rightarrow> (nat \<Rightarrow> u64) \<Rightarrow> u64 \<Rightarrow> u64 list option" where
  "ba_malloc mem junk nbit =
     (if nbit = 0 then None
      else if mem (ba_bytes nbit) then Some (map junk [0..<unat (ba_bytes nbit) div 8]) else None)"

definition ba_update :: "u64 list \<Rightarrow> nat \<Rightarrow> (u64 \<Rightarrow> u64) \<Rightarrow> u64 list res" where
  "ba_update a off f = (if off < length a then Inr (a[off := f (a ! off)]) else Inl OutOfRange)"

definition ba_clear :: "u64 list \<Rightarrow> nat \<Rightarrow> u64 list res" where
  "ba_clear a nbit =
     (let off = nbit div 64; last = off * 64
      in if off > length a then Inl OutOfRange
         else let a1 = replicate off 0 @ drop off a
              in if last \<noteq> nbit then ba_update a1 off (\<lambda>w. w AND NOT (push_bit (nbit - last) 1 - 1)) else Inr a1)"

definition ba_set :: "u64 list \<Rightarrow> nat \<Rightarrow> u64 list res" where
  "ba_set a i = (let off = i div 64 in ba_update a off (\<lambda>w. w OR push_bit (i - off * 64) 1))"

definition ba_unset :: "u64 list \<Rightarrow> nat \<Rightarrow> u64 list res" where
  "ba_unset a i = (let off = i div 64 in ba_update a off (\<lambda>w. w AND NOT (push_bit (i - off * 64) 1)))"

definition ba_get :: "u64 list \<Rightarrow> nat \<Rightarrow> u64 res" where
  "ba_get a i = (let off = i div 64 in res_bind (vec_at a off) (\<lambda>w. Inr (w AND push_bit (i - off * 64) 1)))"

text \<open>\<^verbatim>\<open>__builtin_ctzl\<close>: the number of trailing zeros of a word that is not zero.\<close>

definition ctz :: "u64 \<Rightarrow> nat" where
  "ctz v = length (takeWhile (\<lambda>i. \<not> bit v i) [0..<64])"

fun ba_scan :: "u64 list \<Rightarrow> nat list \<Rightarrow> nat option res" where
  "ba_scan a [] = Inr None"
| "ba_scan a (i # is) =
     res_bind (vec_at a i) (\<lambda>w. if w \<noteq> 0 then Inr (Some (i * 64 + ctz w)) else ba_scan a is)"

definition ba_first1_from :: "u64 list \<Rightarrow> nat \<Rightarrow> nat \<Rightarrow> nat res" where
  "ba_first1_from a off1 en =
     (let off2 = en div 64; last = off2 * 64
      in res_bind (ba_scan a [off1..<off2]) (\<lambda>r. case r of
           Some i \<Rightarrow> Inr i
         | None \<Rightarrow>
             if last \<noteq> en then
               res_bind (vec_at a off2) (\<lambda>w. if w \<noteq> 0 then Inr (min (last + ctz w) en) else Inr en)
             else Inr en))"

definition ba_first1 :: "u64 list \<Rightarrow> nat \<Rightarrow> nat \<Rightarrow> nat res" where
  "ba_first1 a bg en =
     (let off1 = bg div 64; first = off1 * 64
      in if first \<noteq> bg then
           res_bind (vec_at a off1) (\<lambda>w.
             let v = w AND NOT (push_bit (bg - first) 1 - 1)
             in if v \<noteq> 0 then Inr (min (first + ctz v) en) else ba_first1_from a (off1 + 1) en)
         else ba_first1_from a off1 en)"

section \<open>What the operations do to the bits\<close>

definition bit_at :: "u64 list \<Rightarrow> nat \<Rightarrow> bool" where
  "bit_at a i \<longleftrightarrow> bit (a ! (i div 64)) (i mod 64)"

definition ba_room :: "u64 list \<Rightarrow> nat \<Rightarrow> bool" where
  "ba_room a n \<longleftrightarrow> n \<le> length a * 64"

lemma ba_room_div: "ba_room a n \<Longrightarrow> i < n \<Longrightarrow> i div 64 < length a"
  by (simp add: ba_room_def div_less_iff_less_mult)

lemma bit_one_shift: "bit (push_bit n 1 :: u64) m \<longleftrightarrow> m = n \<and> n < 64"
  by (auto simp: bit_simps)

lemma bit_low_mask: "n \<le> 64 \<Longrightarrow> bit (push_bit n 1 - 1 :: u64) m \<longleftrightarrow> m < n"
  by (auto simp: push_bit_eq_mult bit_mask_iff simp flip: mask_eq_exp_minus_1)

lemma word_has_bit:
  assumes "v \<noteq> 0"
  obtains i where "i < 64" "bit (v :: u64) i"
proof -
  have "\<exists>i < LENGTH(64). bit v i"
  proof (rule ccontr)
    assume "\<not> ?thesis"
    then have "v = 0" by (intro bit_word_eqI) simp
    then show False using assms by simp
  qed
  then show ?thesis using that by auto
qed

lemma takeWhile_upt_first:
  fixes P :: "nat \<Rightarrow> bool" and n :: nat
  defines "k \<equiv> length (takeWhile (\<lambda>i. \<not> P i) [0..<n])"
  assumes "j < n" "P j"
  shows "k < n" "P k" "\<And>i. i < k \<Longrightarrow> \<not> P i"
proof -
  have low: "\<not> P i" if "i < k" for i
  proof -
    have "i < n" using that length_takeWhile_le [of "\<lambda>i. \<not> P i" "[0..<n]"] by (simp add: k_def)
    moreover have "takeWhile (\<lambda>i. \<not> P i) [0..<n] ! i \<in> set (takeWhile (\<lambda>i. \<not> P i) [0..<n])"
      using that by (simp add: k_def)
    ultimately show ?thesis
      using takeWhile_nth [of i "\<lambda>i. \<not> P i" "[0..<n]"] that by (auto simp: k_def dest: set_takeWhileD)
  qed
  then show "\<And>i. i < k \<Longrightarrow> \<not> P i" .
  have "\<not> j < k" using low [of j] \<open>P j\<close> by blast
  then show kn: "k < n" using \<open>j < n\<close> by simp
  then show "P k" using nth_length_takeWhile [of "\<lambda>i. \<not> P i" "[0..<n]"] by (simp add: k_def)
qed

lemma ctz_first:
  assumes "v \<noteq> 0"
  shows "ctz v < 64" "bit v (ctz v)" "i < ctz v \<Longrightarrow> \<not> bit v i"
proof -
  obtain j where j: "j < 64" "bit v j" using word_has_bit [OF assms] by blast
  note first = takeWhile_upt_first [of j 64 "bit v", OF j, folded ctz_def]
  show "ctz v < 64" by (rule first(1))
  show "bit v (ctz v)" by (rule first(2))
  show "i < ctz v \<Longrightarrow> \<not> bit v i" by (rule first(3))
qed

text \<open>\<open>r\<close> is the first set bit of \<open>[b, e)\<close>, or \<open>e\<close>.\<close>

definition first_one :: "u64 list \<Rightarrow> nat \<Rightarrow> nat \<Rightarrow> nat \<Rightarrow> bool" where
  "first_one a b e r \<longleftrightarrow>
     b \<le> r \<and> r \<le> e \<and> (r < e \<longrightarrow> bit_at a r) \<and> (\<forall>i. b \<le> i \<longrightarrow> i < r \<longrightarrow> \<not> bit_at a i)"

text \<open>The set bits of the word at position \<open>off\<close>, seen through the whole array.\<close>

lemma bit_at_word: "i div 64 = off \<Longrightarrow> bit_at a i = bit (a ! off) (i mod 64)"
  by (simp add: bit_at_def)

lemma word_zero_bits: "a ! off = 0 \<Longrightarrow> i div 64 = off \<Longrightarrow> \<not> bit_at a i"
  by (simp add: bit_at_def)

lemma first_one_word:
  assumes v: "v \<noteq> 0" and le: "b \<le> e"
    and b: "off * 64 \<le> b" "b < off * 64 + 64"
    and bits: "\<And>i. i < 64 \<Longrightarrow> bit v i \<longleftrightarrow> b \<le> off * 64 + i \<and> bit_at a (off * 64 + i)"
  shows "first_one a b e (min (off * 64 + ctz v) e)"
proof -
  note c = ctz_first [OF v]
  have hit: "b \<le> off * 64 + ctz v" "bit_at a (off * 64 + ctz v)" using bits [OF c(1)] c(2) by auto
  have low: "\<not> bit_at a i" if "b \<le> i" "i < off * 64 + ctz v" for i
  proof -
    have "i - off * 64 < ctz v" "off * 64 + (i - off * 64) = i" using that b by auto
    then show ?thesis using c(3) [of "i - off * 64"] bits [of "i - off * 64"] c(1) that(1) by auto
  qed
  show ?thesis using hit low le by (auto simp: first_one_def min_def)
qed

lemma first_one_extend:
  assumes "first_one a m e r" "b \<le> m" "\<And>i. b \<le> i \<Longrightarrow> i < m \<Longrightarrow> \<not> bit_at a i"
  shows "first_one a b e r"
  unfolding first_one_def
proof (intro conjI allI impI)
  show "b \<le> r" "r \<le> e" using assms(1, 2) by (simp_all add: first_one_def)
  show "bit_at a r" if "r < e" using assms(1) that by (simp add: first_one_def)
  show "\<not> bit_at a i" if "b \<le> i" "i < r" for i
    using assms that by (cases "i < m") (simp_all add: first_one_def)
qed

lemma first_one_stop: "first_one a b m r \<Longrightarrow> r < m \<Longrightarrow> m \<le> e \<Longrightarrow> first_one a b e r"
  by (simp add: first_one_def)

lemma scan_first:
  assumes "m \<le> n" "n \<le> length a"
  obtains (none) "ba_scan a [m..<n] = Inr None" "\<And>i. m * 64 \<le> i \<Longrightarrow> i < n * 64 \<Longrightarrow> \<not> bit_at a i"
    | (found) r where "ba_scan a [m..<n] = Inr (Some r)" "first_one a (m * 64) (n * 64) r" "r < n * 64"
  using assms
proof (induction "n - m" arbitrary: m thesis)
  case 0
  then show ?case by simp
next
  case (Suc d)
  then have mn: "m < n" "m < length a" by auto
  then have upt: "[m..<n] = m # [Suc m..<n]" by (simp add: upt_conv_Cons)
  show ?case
  proof (cases "a ! m = 0")
    case True
    have z: "\<not> bit_at a i" if "m * 64 \<le> i" "i < Suc m * 64" for i
      using that by (intro word_zero_bits [OF True]) (simp add: div_nat_eqI)
    have step: "ba_scan a [m..<n] = ba_scan a [Suc m..<n]" using True mn by (simp add: upt vec_at_def)
    show ?thesis
    proof (rule Suc.hyps(1) [of "Suc m"])
      show "d = n - Suc m" "Suc m \<le> n" "n \<le> length a" using Suc.hyps(2) mn Suc.prems(4) by auto
    next
      assume "ba_scan a [Suc m..<n] = Inr None" "\<And>i. Suc m * 64 \<le> i \<Longrightarrow> i < n * 64 \<Longrightarrow> \<not> bit_at a i"
      then show ?thesis using z by (intro Suc.prems(1)) (auto simp: step not_less [symmetric])
    next
      fix r
      assume "ba_scan a [Suc m..<n] = Inr (Some r)" "first_one a (Suc m * 64) (n * 64) r" "r < n * 64"
      then show ?thesis using z by (intro Suc.prems(2)) (auto simp: step elim!: first_one_extend)
    qed
  next
    case False
    have le: "m * 64 + 64 \<le> n * 64" using mn(1) by simp
    have c: "m * 64 + ctz (a ! m) < n * 64" using ctz_first(1) [OF False] le by simp
    have "first_one a (m * 64) (n * 64) (min (m * 64 + ctz (a ! m)) (n * 64))"
      using le by (intro first_one_word [OF False]) (auto simp: bit_at_def)
    then show ?thesis using False mn c by (intro Suc.prems(2)) (auto simp: upt vec_at_def)
  qed
qed

text \<open>The part of the search that starts at a word boundary.\<close>

lemma ba_first1_from_aligned:
  assumes room: "ba_room a e" and le: "m * 64 \<le> e"
  shows "\<exists>r. ba_first1_from a m e = Inr r \<and> first_one a (m * 64) e r"
proof -
  define off2 where "off2 = e div 64"
  have off: "off2 * 64 \<le> e" "e < off2 * 64 + 64" by (simp_all add: off2_def)
  have m: "m \<le> off2" using le by (simp add: off2_def less_eq_div_iff_mult_less_eq)
  have n: "off2 \<le> length a" using off(1) room by (simp add: ba_room_def)
  from m n show ?thesis
  proof (cases rule: scan_first)
    case (found r)
    then have "first_one a (m * 64) e r" using off by (auto intro: first_one_stop)
    then show ?thesis using found(1) by (simp add: ba_first1_from_def off2_def [symmetric] Let_def)
  next
    case none
    note clear = none(2)
    show ?thesis
    proof (cases "off2 * 64 = e")
      case True
      then have "first_one a (m * 64) e e" using clear le by (auto simp: first_one_def)
      then show ?thesis using none(1) True by (simp add: ba_first1_from_def off2_def [symmetric] Let_def)
    next
      case False
      then have lt: "off2 < length a" using off room by (simp add: ba_room_def)
      show ?thesis
      proof (cases "a ! off2 = 0")
        case True
        have "\<not> bit_at a i" if "m * 64 \<le> i" "i < e" for i
        proof (cases "i < off2 * 64")
          case False
          then show ?thesis using that off by (intro word_zero_bits [OF True]) (simp add: div_nat_eqI)
        qed (use clear that in simp)
        then have "first_one a (m * 64) e e" using le by (simp add: first_one_def)
        then show ?thesis
          using none(1) False lt True by (auto simp: ba_first1_from_def off2_def [symmetric] Let_def vec_at_def)
      next
        case nz: False
        have "first_one a (off2 * 64) e (min (off2 * 64 + ctz (a ! off2)) e)"
          using off by (intro first_one_word [OF nz]) (auto simp: bit_at_def)
        then have "first_one a (m * 64) e (min (off2 * 64 + ctz (a ! off2)) e)"
          using m clear by (auto elim!: first_one_extend)
        then show ?thesis
          using none(1) False lt nz by (auto simp: ba_first1_from_def off2_def [symmetric] Let_def vec_at_def)
      qed
    qed
  qed
qed

text \<open>The situation the search gets wrong: it starts inside the word in which it also ends.\<close>

definition first1_trap :: "u64 list \<Rightarrow> nat \<Rightarrow> nat \<Rightarrow> bool" where
  "first1_trap a b e \<longleftrightarrow>
     b mod 64 \<noteq> 0 \<and> e div 64 = b div 64 \<and> list_all (\<lambda>i. \<not> bit_at a i) [b..<b div 64 * 64 + 64] \<and>
     list_ex (bit_at a) [b div 64 * 64..<b]"

lemma bit_above:
  assumes "b div 64 = off" "i < 64"
  shows "bit (w AND NOT (push_bit (b - off * 64) 1 - 1) :: u64) i \<longleftrightarrow> b \<le> off * 64 + i \<and> bit w i"
proof -
  have "b - off * 64 \<le> 64" using assms(1) by (auto simp flip: minus_div_mult_eq_mod minus_mod_eq_div_mult)
  from bit_low_mask [OF this, of i] show ?thesis using assms(2) by (auto simp: bit_simps)
qed

lemma ba_first1_trapped:
  assumes room: "ba_room a e" and le: "b \<le> e" and trap: "first1_trap a b e"
  obtains r where "ba_first1 a b e = Inr r" "r < b"
proof -
  define off where "off = b div 64"
  have b: "off * 64 < b" "b < off * 64 + 64" using trap unfolding first1_trap_def off_def
    by (metis div_mult_mod_eq less_add_same_cancel1 neq0_conv, simp)
  have e: "e div 64 = off" "off * 64 < e" using trap b le by (auto simp: first1_trap_def off_def)
  have lt: "off < length a" using room e(2) by (simp add: ba_room_def)
  obtain i where i: "off * 64 \<le> i" "i < b" "bit_at a i"
    using trap by (auto simp: first1_trap_def off_def list_ex_iff)
  have iw: "i div 64 = off" using i b by (simp add: div_nat_eqI)
  have set: "bit (a ! off) (i mod 64)" using i(3) iw by (simp add: bit_at_def)
  then have nz: "a ! off \<noteq> 0" by auto
  have im: "off * 64 + i mod 64 = i" using iw by (metis div_mult_mod_eq)
  have "\<not> i mod 64 < ctz (a ! off)" using ctz_first(3) [OF nz] set by blast
  then have c: "off * 64 + ctz (a ! off) < b" using im i(2) by linarith
  have v: "a ! off AND NOT (push_bit (b - off * 64) 1 - 1) = 0"
  proof (rule ccontr)
    assume "\<not> ?thesis"
    then obtain j where j: "j < 64" "bit (a ! off AND NOT (push_bit (b - off * 64) 1 - 1)) j"
      using word_has_bit by blast
    then have "b \<le> off * 64 + j" "bit (a ! off) j" using bit_above [of b off j] by (simp_all add: off_def)
    then have "bit_at a (off * 64 + j)" "off * 64 + j \<in> set [b..<off * 64 + 64]" using j(1) by (auto simp: bit_at_def)
    moreover have "list_all (\<lambda>i. \<not> bit_at a i) [b..<off * 64 + 64]" using trap by (simp add: first1_trap_def off_def)
    ultimately show False unfolding list_all_iff by blast
  qed
  have "ba_first1_from a (off + 1) e = Inr (min (off * 64 + ctz (a ! off)) e)"
    using e lt nz by (simp add: ba_first1_from_def Let_def vec_at_def)
  then have "ba_first1 a b e = Inr (min (off * 64 + ctz (a ! off)) e)"
    using b lt v by (simp add: ba_first1_def Let_def off_def [symmetric] vec_at_def)
  then show ?thesis using that c by (simp add: min_def)
qed

lemma ba_first1_right:
  assumes room: "ba_room a e" and le: "b \<le> e" and ok: "\<not> first1_trap a b e"
  obtains r where "ba_first1 a b e = Inr r" "first_one a b e r"
proof (cases "b mod 64 = 0")
  case True
  then have b: "b div 64 * 64 = b" by (simp add: minus_mod_eq_div_mult [symmetric])
  with ba_first1_from_aligned [OF room, of "b div 64"] le obtain r where
    "ba_first1_from a (b div 64) e = Inr r" "first_one a b e r" by auto
  then show ?thesis using that b by (simp add: ba_first1_def Let_def)
next
  case False
  define off where "off = b div 64"
  have b: "off * 64 < b" "b < off * 64 + 64" using False unfolding off_def
    by (metis div_mult_mod_eq less_add_same_cancel1 neq0_conv, simp)
  have lt: "off < length a" using room le b by (simp add: ba_room_def)
  define v where "v = a ! off AND NOT (push_bit (b - off * 64) 1 - 1)"
  have bits: "bit v i \<longleftrightarrow> b \<le> off * 64 + i \<and> bit_at a (off * 64 + i)" if "i < 64" for i
    using bit_above [of b off i] that by (simp add: v_def off_def bit_at_def)
  have step: "ba_first1 a b e = (if v \<noteq> 0 then Inr (min (off * 64 + ctz v) e) else ba_first1_from a (off + 1) e)"
    using b lt by (simp add: ba_first1_def Let_def off_def [symmetric] vec_at_def v_def)
  show ?thesis
  proof (cases "v = 0")
    case nz: False
    have "first_one a b e (min (off * 64 + ctz v) e)" using nz le b bits by (intro first_one_word) auto
    then show ?thesis using that step nz by simp
  next
    case True
    have clear: "\<not> bit_at a i" if "b \<le> i" "i < (off + 1) * 64" for i
      using bits [of "i - off * 64"] that b True by simp
    show ?thesis
    proof (cases "(off + 1) * 64 \<le> e")
      case far: True
      with ba_first1_from_aligned [OF room, of "off + 1"] obtain r where
        r: "ba_first1_from a (off + 1) e = Inr r" "first_one a ((off + 1) * 64) e r" by auto
      then have "first_one a b e r" using b clear by (auto elim!: first_one_extend)
      then show ?thesis using that step True r(1) by simp
    next
      case near: False
      then have e: "e div 64 = off" "off * 64 < e" using le b by (auto intro: div_nat_eqI)
      have "list_all (\<lambda>i. \<not> bit_at a i) [b..<b div 64 * 64 + 64]"
        using clear by (auto simp: list_all_iff off_def)
      then have none: "\<not> list_ex (bit_at a) [off * 64..<b]"
        using ok False e(1) by (auto simp: first1_trap_def off_def)
      have "a ! off = 0"
      proof (rule ccontr)
        assume "a ! off \<noteq> 0"
        then obtain j where j: "j < 64" "bit (a ! off) j" using word_has_bit by blast
        then have "bit_at a (off * 64 + j)" by (simp add: bit_at_def)
        then show False using none clear [of "off * 64 + j"] j(1) by (cases "off * 64 + j < b") (auto simp: list_ex_iff)
      qed
      then have "ba_first1_from a (off + 1) e = Inr e"
        using e lt by (simp add: ba_first1_from_def Let_def vec_at_def)
      moreover have "first_one a b e e" using clear near le by (auto simp: first_one_def)
      ultimately show ?thesis using that step True by simp
    qed
  qed
qed

lemma first1_total:
  assumes "ba_room a e" "b \<le> e"
  shows "\<exists>r. ba_first1 a b e = Inr r \<and> (first_one a b e r \<longleftrightarrow> \<not> first1_trap a b e) \<and> (first1_trap a b e \<longrightarrow> r < b)"
proof (cases "first1_trap a b e")
  case True
  then obtain r where "ba_first1 a b e = Inr r" "r < b" using ba_first1_trapped assms by blast
  then show ?thesis using True by (auto simp: first_one_def)
next
  case False
  then obtain r where "ba_first1 a b e = Inr r" "first_one a b e r" using ba_first1_right assms by blast
  then show ?thesis using False by auto
qed

lemma first_one_unique: "first_one a b e r \<Longrightarrow> first_one a b e s \<Longrightarrow> r = s"
  unfolding first_one_def by (metis le_less_trans linorder_neqE_nat order_less_le_trans)

text \<open>
\<^verbatim>\<open>bit_array_first1\<close> on an array with room for \<open>end\<close> bits always returns, and it returns the first
  set bit of \<open>[begin, end)\<close>, or \<open>end\<close> if there is none, exactly when it is not trapped: if \<open>begin\<close>
  lies inside the word that holds bit \<open>end\<close>, that word has no set bit from \<open>begin\<close> on and has one
  before it, then the result lies before \<open>begin\<close>.
\<close>
theorem first1_right_iff:
  assumes "ba_room a e" "b \<le> e"
  shows "\<exists>r. ba_first1 a b e = Inr r \<and> (first_one a b e r \<longleftrightarrow> \<not> first1_trap a b e) \<and> (first1_trap a b e \<longrightarrow> r < b)"
  using assms by (rule first1_total)

theorem first1_right_iff_witness:
  "ba_room [1] 16 \<and> first1_trap [1] 5 16 \<and> (\<exists>r. ba_first1 [1] 5 16 = Inr r \<and> \<not> first_one [1] 5 16 r \<and> r < 5)"
proof -
  have room: "ba_room [1] 16" by (simp add: ba_room_def)
  have trap: "first1_trap [1] 5 16" by code_simp
  from first1_right_iff [OF room, of 5] trap room show ?thesis by auto
qed

text \<open>An aligned end, as in a sparse map of at least 64 buckets, is never a trap.\<close>

lemma first1_no_trap: "e mod 64 = 0 \<Longrightarrow> b \<le> e \<Longrightarrow> \<not> first1_trap a b e"
  unfolding first1_trap_def by (metis div_mult_mod_eq le_antisym add_0_right le_add1)

section \<open>The bits after each operation\<close>

lemma div_mod_64_cong: "(i :: nat) div 64 = j div 64 \<Longrightarrow> i mod 64 = j mod 64 \<longleftrightarrow> i = j"
  by (metis div_mult_mod_eq)

lemma minus_div_64: "(i :: nat) - i div 64 * 64 = i mod 64"
  by (simp add: minus_div_mult_eq_mod)

lemma ba_set_bits:
  assumes "ba_room a n" "i < n"
  shows "\<exists>a'. ba_set a i = Inr a' \<and> length a' = length a \<and> (\<forall>j. bit_at a' j \<longleftrightarrow> j = i \<or> bit_at a j)"
  using ba_room_div [OF assms] bit_one_shift [of "i mod 64"] div_mod_64_cong [of _ i]
  by (auto simp: ba_set_def ba_update_def Let_def bit_at_def bit_or_iff minus_div_64 nth_list_update)

lemma ba_unset_bits:
  assumes "ba_room a n" "i < n"
  shows "\<exists>a'. ba_unset a i = Inr a' \<and> length a' = length a \<and> (\<forall>j. bit_at a' j \<longleftrightarrow> j \<noteq> i \<and> bit_at a j)"
  using ba_room_div [OF assms] bit_one_shift [of "i mod 64"] div_mod_64_cong [of _ i]
  by (auto simp: ba_unset_def ba_update_def Let_def bit_at_def bit_and_iff bit_not_iff minus_div_64 nth_list_update)

lemma ba_get_bit:
  assumes "ba_room a n" "i < n"
  shows "\<exists>w. ba_get a i = Inr w \<and> (w \<noteq> 0 \<longleftrightarrow> bit_at a i)"
proof -
  have "(a ! (i div 64) AND push_bit (i mod 64) 1 \<noteq> 0) \<longleftrightarrow> bit (a ! (i div 64)) (i mod 64)"
    by (simp add: and_exp_eq_0_iff_not_bit)
  then show ?thesis
    using ba_room_div [OF assms] by (simp add: ba_get_def Let_def vec_at_def bit_at_def minus_div_64)
qed

lemma ba_clear_bits:
  assumes "ba_room a n"
  shows "\<exists>a'. ba_clear a n = Inr a' \<and> length a' = length a \<and> (\<forall>j < n. \<not> bit_at a' j)"
proof -
  define off where "off = n div 64"
  have le: "off \<le> length a" using assms by (simp add: ba_room_def off_def)
  define a1 where "a1 = replicate off 0 @ drop off a"
  have len: "length a1 = length a" using le by (simp add: a1_def)
  have z: "\<not> bit_at a1 j" if "j div 64 < off" for j using that by (simp add: bit_at_def a1_def nth_append)
  show ?thesis
  proof (cases "off * 64 = n")
    case True
    then have "ba_clear a n = Inr a1" using le by (simp add: ba_clear_def Let_def off_def [symmetric] a1_def)
    moreover have "\<not> bit_at a1 j" if "j < n" for j using z [of j] that True by (simp add: div_less_iff_less_mult)
    ultimately show ?thesis using len by simp
  next
    case False
    have lt: "off < length a1"
      using assms False len div_mult_mod_eq [of n 64] unfolding ba_room_def off_def by linarith
    define a2 where "a2 = a1[off := a1 ! off AND NOT (push_bit (n mod 64) 1 - 1)]"
    have "ba_clear a n = Inr a2"
      using le lt False by (simp add: ba_clear_def Let_def off_def [symmetric] a1_def [symmetric] ba_update_def a2_def)
        (simp add: off_def minus_div_64)
    moreover have "\<not> bit_at a2 j" if "j < n" for j
    proof (cases "j div 64 = off")
      case True
      then have "j mod 64 < n mod 64" using that by (metis add_less_cancel_left div_mult_mod_eq off_def)
      then show ?thesis
        using True lt bit_low_mask [of "n mod 64" "j mod 64"] by (simp add: bit_at_def a2_def bit_and_iff bit_not_iff)
    next
      case ne: False
      have "j div 64 < off" using that ne div_le_mono [of j n 64] by (simp add: off_def)
      then show ?thesis using z [of j] by (simp add: bit_at_def a2_def)
    qed
    ultimately show ?thesis using len by (simp add: a2_def)
  qed
qed

lemma ba_malloc_room:
  assumes "ba_malloc mem junk n = Some a" "unat n + 63 < 2 ^ 64"
  shows "ba_room a (unat n)"
proof -
  have u: "unat (n + 63) = unat n + 63" using assms(2) by (simp add: unat_word_ariths)
  have "(unat n + 63) div 64 * 8 < 2 ^ 64" using assms(2) by linarith
  then have "unat (ba_bytes n) = (unat n + 63) div 64 * 8"
    using u by (simp add: ba_bytes_def unat_word_ariths unat_div)
  then have "length a = (unat n + 63) div 64" using assms(1) by (auto simp: ba_malloc_def split: if_splits)
  then show ?thesis by (simp add: ba_room_def)
qed

end
