(* ===== verification/NodePool.thy ===== *)
theory NodePool
  imports Prelude
begin

text \<open>
  \<^verbatim>\<open>butil/single_threaded_pool.h\<close>: the pool from which the hash map takes the nodes behind the first one
  of a chain.  A block counts the nodes it has given out; a node given back goes to the list of free
  nodes.  The addresses of the nodes are not kept, only how many there are.  Every node that is in use
  was allocated and not given back.
\<close>

record node_pool =
  np_free_nodes :: nat
  np_blocks :: "nat list"

text \<open>\<^verbatim>\<open>Block::NITEM\<close> and \<^verbatim>\<open>sizeof(Block)\<close>, with words of eight bytes; the block size is at least 16.\<close>

definition block_nitem :: "nat \<Rightarrow> nat \<Rightarrow> nat \<Rightarrow> nat" where
  "block_nitem item_size block_size min_nitem =
     (let inuse_size = block_size - 8 - 8 in if item_size \<le> inuse_size then inuse_size div item_size else min_nitem)"

definition sizeof_block :: "nat \<Rightarrow> nat \<Rightarrow> nat \<Rightarrow> nat" where
  "sizeof_block item_size block_size min_nitem = 8 + 8 + block_nitem item_size block_size min_nitem * item_size"

definition pool_new :: node_pool where
  "pool_new = \<lparr>np_free_nodes = 0, np_blocks = []\<rparr>"

text \<open>\<^verbatim>\<open>get\<close>: \<open>mem\<close> tells whether \<^verbatim>\<open>malloc\<close> finds a block; \<open>None\<close> is the null pointer.\<close>

definition pool_get :: "nat \<Rightarrow> bool \<Rightarrow> node_pool \<Rightarrow> node_pool option" where
  "pool_get nitem mem p =
     (if np_free_nodes p \<noteq> 0 then Some (p\<lparr>np_free_nodes := np_free_nodes p - 1\<rparr>)
      else case np_blocks p of
             [] \<Rightarrow> if mem then Some (p\<lparr>np_blocks := [1]\<rparr>) else None
           | n # ns \<Rightarrow>
               if n \<ge> nitem then if mem then Some (p\<lparr>np_blocks := 1 # n # ns\<rparr>) else None
               else Some (p\<lparr>np_blocks := Suc n # ns\<rparr>))"

definition pool_back :: "node_pool \<Rightarrow> node_pool" where
  "pool_back p = p\<lparr>np_free_nodes := Suc (np_free_nodes p)\<rparr>"

definition pool_reset :: "node_pool \<Rightarrow> node_pool" where
  "pool_reset p = \<lparr>np_free_nodes = 0, np_blocks = []\<rparr>"

definition count_allocated :: "node_pool \<Rightarrow> nat" where
  "count_allocated p = sum_list (np_blocks p)"

definition count_free :: "node_pool \<Rightarrow> nat" where
  "count_free p = np_free_nodes p"

definition count_active :: "node_pool \<Rightarrow> nat" where
  "count_active p = count_allocated p - count_free p"

text \<open>No more nodes are free than were allocated, and no block gave out more than it has.\<close>

definition pool_ok :: "nat \<Rightarrow> node_pool \<Rightarrow> bool" where
  "pool_ok nitem p \<longleftrightarrow> count_free p \<le> count_allocated p \<and> (\<forall>n \<in> set (np_blocks p). 0 < n \<and> n \<le> nitem)"

lemmas pool_defs = pool_ok_def count_active_def count_allocated_def count_free_def

lemma pool_new_ok: "pool_ok nitem pool_new" "count_active pool_new = 0"
  by (simp_all add: pool_defs pool_new_def)

lemma pool_reset_ok: "pool_ok nitem (pool_reset p)" "count_active (pool_reset p) = 0"
  by (simp_all add: pool_defs pool_reset_def)

lemma pool_get_ok:
  assumes "pool_ok nitem p" "0 < nitem" "pool_get nitem mem p = Some p'"
  shows "pool_ok nitem p'" "count_active p' = Suc (count_active p)"
  using assms by (auto simp: pool_defs pool_get_def split: if_splits list.splits)

lemma pool_back_ok:
  assumes "pool_ok nitem p" "0 < count_active p"
  shows "pool_ok nitem (pool_back p)" "Suc (count_active (pool_back p)) = count_active p"
  using assms by (auto simp: pool_defs pool_back_def)

lemma pool_get_None: "pool_get nitem mem p = None \<Longrightarrow> \<not> mem"
  by (auto simp: pool_get_def split: if_splits list.splits)

text \<open>Taking as many nodes as a list needs.\<close>

fun pool_take :: "nat \<Rightarrow> bool \<Rightarrow> nat \<Rightarrow> node_pool \<Rightarrow> node_pool res" where
  "pool_take nitem mem 0 p = Inr p"
| "pool_take nitem mem (Suc k) p = res_bind (deref (pool_get nitem mem p)) (pool_take nitem mem k)"

lemma pool_take_mem: "\<exists>p'. pool_take nitem True k p = Inr p'"
proof (induction k arbitrary: p)
  case (Suc k)
  obtain p1 where "pool_get nitem True p = Some p1" using pool_get_None [of nitem True p] by (cases "pool_get nitem True p") auto
  then show ?case using Suc by simp
qed simp

end
