(* ===== verification/FlatMap.thy ===== *)
theory FlatMap
  imports BitArray NodePool
begin

text \<open>
  \<^verbatim>\<open>butil/containers/flat_map.h\<close> and \<^verbatim>\<open>flat_map_inl.h\<close>: the hash map of brpc.  The bucket array is a list
  of chains; an invalid first node is the empty chain, and the extra node behind the last bucket, where
  iterators stop, is the position \<^verbatim>\<open>_nbucket\<close>.  The first node of a chain is part of the bucket array,
  the others come from the node pool.  A sparse map keeps a thumbnail, the bit array of
  its valid buckets, and its iterators ask the thumbnail for the next one.  Inserting may resize the map, which inserts every entry into a fresh map that may
  itself be resized: the recursion is bounded by fuel, and 64 is enough because each level at least
  doubles the number of buckets.
\<close>

unbundle bit_operations_syntax

section \<open>State\<close>

record ('k, 'v) flat_map =
  fm_size :: u64
  fm_nbucket :: u64
  fm_buckets :: "('k \<times> 'v) list list option"
  fm_thumbnail :: "u64 list option"
  fm_load_factor :: u32
  fm_pool :: node_pool

text \<open>
  The template arguments and the memory: the hash function, \<^verbatim>\<open>_T()\<close>, \<^verbatim>\<open>_S\<close>, \<^verbatim>\<open>sizeof(Bucket)\<close>, which
  requests \<^verbatim>\<open>malloc\<close> serves, and what fresh memory holds.  Keys are compared by equality.
\<close>

record ('k, 'v) fm_env =
  hashfn :: "'k \<Rightarrow> u64"
  default_value :: 'v
  is_sparse :: bool
  sizeof_bucket :: u64
  malloc_ok :: "u64 \<Rightarrow> bool"
  fresh :: "nat \<Rightarrow> u64"

text \<open>The pool is a \<^verbatim>\<open>SingleThreadedPool<sizeof(Bucket), 1024, 16>\<close>.\<close>

definition pool_nitem :: "('k, 'v) fm_env \<Rightarrow> nat" where
  "pool_nitem env = block_nitem (unat (sizeof_bucket env)) 1024 16"

definition node_mem :: "('k, 'v) fm_env \<Rightarrow> bool" where
  "node_mem env \<longleftrightarrow> malloc_ok env (of_nat (sizeof_block (unat (sizeof_bucket env)) 1024 16))"

definition flatmap_round :: "u64 \<Rightarrow> u64" where
  "flatmap_round nbucket = find_power2 nbucket"

definition flatmap_mod :: "u64 \<Rightarrow> u64 \<Rightarrow> u64" where
  "flatmap_mod hash_code nbucket = hash_code AND (nbucket - 1)"

definition string_hash :: "string \<Rightarrow> u64" where
  "string_hash s = foldl (\<lambda>result c. result * 101 + scast (of_nat (of_char c) :: u8)) 0 s"

section \<open>Operations\<close>

definition fm_new :: "('k, 'v) flat_map" where
  "fm_new = \<lparr>fm_size = 0, fm_nbucket = 0, fm_buckets = None, fm_thumbnail = None, fm_load_factor = 0, fm_pool = pool_new\<rparr>"

definition fm_initialized :: "('k, 'v) flat_map \<Rightarrow> bool" where
  "fm_initialized m \<longleftrightarrow> fm_buckets m \<noteq> None"

definition is_too_crowded :: "('k, 'v) flat_map \<Rightarrow> u64 \<Rightarrow> bool" where
  "is_too_crowded m n \<longleftrightarrow> n * 100 \<ge> fm_nbucket m * ucast (fm_load_factor m)"

text \<open>
  \<^verbatim>\<open>malloc(sizeof(Bucket) * (_nbucket + 1))\<close>: where the product wraps and the request is served, the
  array is too short for the writes that follow.
\<close>

definition fm_alloc :: "('k, 'v) fm_env \<Rightarrow> u64 \<Rightarrow> bool res" where
  "fm_alloc env nb =
     (if \<not> malloc_ok env (sizeof_bucket env * (nb + 1)) then Inr False
      else if unat (sizeof_bucket env) * (unat nb + 1) < 2 ^ 64 then Inr True
      else Inl OutOfRange)"

definition fm_init :: "('k, 'v) fm_env \<Rightarrow> u64 \<Rightarrow> u32 \<Rightarrow> ('k, 'v) flat_map \<Rightarrow> (int \<times> ('k, 'v) flat_map) res" where
  "fm_init env nbucket load_factor m =
     (if fm_initialized m then Inr (-1, m)
      else if load_factor < 10 \<or> load_factor > 100 then Inr (-1, m)
      else let m1 = m\<lparr>fm_size := 0, fm_nbucket := flatmap_round nbucket, fm_load_factor := load_factor\<rparr>
           in res_bind (fm_alloc env (fm_nbucket m1)) (\<lambda>ok.
              if \<not> ok then Inr (-1, m1)
              else let m2 = m1\<lparr>fm_buckets := Some (replicate (unat (fm_nbucket m1)) [])\<rparr>
                   in if is_sparse env then
                        (case ba_malloc (malloc_ok env) (fresh env) (fm_nbucket m2) of
                           None \<Rightarrow> Inr (-1, m2\<lparr>fm_thumbnail := None\<rparr>)
                         | Some a \<Rightarrow> res_bind (ba_clear a (unat (fm_nbucket m2))) (\<lambda>a1. Inr (0, m2\<lparr>fm_thumbnail := Some a1\<rparr>)))
                      else Inr (0, m2)))"

definition thumb_update ::
    "('k, 'v) fm_env \<Rightarrow> (u64 list \<Rightarrow> nat \<Rightarrow> u64 list res) \<Rightarrow> nat \<Rightarrow> ('k, 'v) flat_map \<Rightarrow> ('k, 'v) flat_map res" where
  "thumb_update env f i m =
     (if is_sparse env then
        res_bind (deref (fm_thumbnail m)) (\<lambda>a. res_bind (f a i) (\<lambda>a1. Inr (m\<lparr>fm_thumbnail := Some a1\<rparr>)))
      else Inr m)"

fun chain_find :: "'k \<Rightarrow> ('k \<times> 'v) list \<Rightarrow> nat option" where
  "chain_find key [] = None"
| "chain_find key ((k, v) # p) = (if k = key then Some 0 else map_option Suc (chain_find key p))"

definition fm_chain :: "('k, 'v) fm_env \<Rightarrow> ('k, 'v) flat_map \<Rightarrow> 'k \<Rightarrow> (nat \<times> ('k \<times> 'v) list) res" where
  "fm_chain env m key =
     res_bind (deref (fm_buckets m)) (\<lambda>bs.
       let index = unat (flatmap_mod (hashfn env key) (fm_nbucket m))
       in res_bind (vec_at bs index) (\<lambda>chain. Inr (index, chain)))"

definition set_chain :: "nat \<Rightarrow> ('k \<times> 'v) list \<Rightarrow> ('k, 'v) flat_map \<Rightarrow> ('k, 'v) flat_map" where
  "set_chain i chain m = m\<lparr>fm_buckets := map_option (\<lambda>bs. bs[i := chain]) (fm_buckets m)\<rparr>"

text \<open>A reference to a mapped value: its bucket and its place in the chain.\<close>

type_synonym fm_ref = "nat \<times> nat"

definition fm_write :: "fm_ref \<Rightarrow> 'v \<Rightarrow> ('k, 'v) flat_map \<Rightarrow> ('k, 'v) flat_map" where
  "fm_write r v m =
     m\<lparr>fm_buckets := map_option (\<lambda>bs. bs[fst r := (bs ! fst r)[snd r := (fst (bs ! fst r ! snd r), v)]]) (fm_buckets m)\<rparr>"

section \<open>Iterators\<close>

text \<open>An iterator is a bucket and a place in its chain; at the bucket behind the last one it is at the end.\<close>

record fm_iter =
  it_entry :: nat
  it_node :: nat

definition fm_valid_at :: "('k \<times> 'v) list list \<Rightarrow> nat \<Rightarrow> bool" where
  "fm_valid_at bs e \<longleftrightarrow> e = length bs \<or> bs ! e \<noteq> []"

text \<open>\<^verbatim>\<open>find_and_set_valid_node\<close> of the dense iterator, on the buckets from \<open>e\<close> on.\<close>

fun skip_invalid :: "('k \<times> 'v) list list \<Rightarrow> nat \<Rightarrow> nat" where
  "skip_invalid [] e = e"
| "skip_invalid (c # cs) e = (if c = [] then skip_invalid cs (Suc e) else e)"

definition find_valid :: "('k \<times> 'v) list list \<Rightarrow> nat \<Rightarrow> nat" where
  "find_valid bs e = skip_invalid (drop e bs) e"

definition it_at :: "('k \<times> 'v) list list \<Rightarrow> nat \<Rightarrow> fm_iter" where
  "it_at bs pos = \<lparr>it_entry = find_valid bs pos, it_node = 0\<rparr>"

text \<open>The sparse iterator asks the thumbnail instead.\<close>

definition sparse_find :: "u64 list option \<Rightarrow> ('k \<times> 'v) list list \<Rightarrow> nat \<Rightarrow> nat res" where
  "sparse_find th bs pos =
     (if fm_valid_at bs pos then Inr pos else res_bind (deref th) (\<lambda>a. ba_first1 a (pos + 1) (length bs)))"

text \<open>The iterator of a map is the sparse one when \<^verbatim>\<open>_S\<close> is set; \<open>bs\<close> are the buckets of the map.\<close>

definition iter_at :: "('k, 'v) fm_env \<Rightarrow> ('k, 'v) flat_map \<Rightarrow> ('k \<times> 'v) list list \<Rightarrow> nat \<Rightarrow> fm_iter res" where
  "iter_at env m bs pos =
     (if is_sparse env then res_bind (sparse_find (fm_thumbnail m) bs pos) (\<lambda>e. Inr \<lparr>it_entry = e, it_node = 0\<rparr>)
      else Inr (it_at bs pos))"

definition iter_next :: "('k, 'v) fm_env \<Rightarrow> ('k, 'v) flat_map \<Rightarrow> ('k \<times> 'v) list list \<Rightarrow> fm_iter \<Rightarrow> fm_iter res" where
  "iter_next env m bs it =
     (if Suc (it_node it) < length (bs ! it_entry it) then Inr (it\<lparr>it_node := Suc (it_node it)\<rparr>)
      else iter_at env m bs (Suc (it_entry it)))"

definition iter_deref :: "('k \<times> 'v) list list \<Rightarrow> fm_iter \<Rightarrow> ('k \<times> 'v) res" where
  "iter_deref bs it = res_bind (vec_at bs (it_entry it)) (\<lambda>chain. vec_at chain (it_node it))"

text \<open>
  \<^verbatim>\<open>for (it = begin(); it != end(); ++it)\<close> over a map that the body does not change.  The iterator takes no
  more values than the map has entries, so a loop that goes on for longer than that repeats one and
  never ends: as many steps as there are entries are enough fuel, and running out of it is \<open>Hangs\<close>.
\<close>

fun iter_loop ::
    "('k, 'v) fm_env \<Rightarrow> ('k, 'v) flat_map \<Rightarrow> ('k \<times> 'v) list list \<Rightarrow> ('k \<times> 'v \<Rightarrow> 's \<Rightarrow> 's res) \<Rightarrow> nat \<Rightarrow> fm_iter \<Rightarrow> 's \<Rightarrow> 's res"
where
  "iter_loop env m bs body fuel it s =
     res_bind (iter_at env m bs (length bs)) (\<lambda>en.
       if it = en then Inr s
       else case fuel of
              0 \<Rightarrow> Inl Hangs
            | Suc n \<Rightarrow>
                res_bind (iter_deref bs it) (\<lambda>kv.
                res_bind (body kv s) (\<lambda>s1.
                res_bind (iter_next env m bs it) (\<lambda>it1. iter_loop env m bs body n it1 s1))))"

declare iter_loop.simps [simp del]

definition fm_for :: "('k, 'v) fm_env \<Rightarrow> ('k, 'v) flat_map \<Rightarrow> ('k \<times> 'v \<Rightarrow> 's \<Rightarrow> 's res) \<Rightarrow> 's \<Rightarrow> 's res" where
  "fm_for env m body s =
     (case fm_buckets m of
        None \<Rightarrow> Inr s
      | Some bs \<Rightarrow> res_bind (iter_at env m bs 0) (\<lambda>it. iter_loop env m bs body (length (concat bs)) it s))"

section \<open>Growing, inserting and erasing\<close>

text \<open>The body of the copying loops: \<^verbatim>\<open>new_map[first] = second\<close>.\<close>

definition fm_put ::
    "(('k, 'v) flat_map \<Rightarrow> 'k \<Rightarrow> (fm_ref \<times> ('k, 'v) flat_map) res) \<Rightarrow> 'k \<times> 'v \<Rightarrow> ('k, 'v) flat_map \<Rightarrow> ('k, 'v) flat_map res"
where
  "fm_put subscript kv m = res_bind (subscript m (fst kv)) (\<lambda>(r, m1). Inr (fm_write r (snd kv) m1))"

definition fm_resize_by ::
    "(('k, 'v) flat_map \<Rightarrow> 'k \<Rightarrow> (fm_ref \<times> ('k, 'v) flat_map) res) \<Rightarrow> ('k, 'v) fm_env \<Rightarrow> u64 \<Rightarrow> ('k, 'v) flat_map \<Rightarrow>
     (bool \<times> ('k, 'v) flat_map) res"
where
  "fm_resize_by subscript env nbucket2 m =
     (let nb2 = flatmap_round nbucket2
      in if fm_nbucket m = nb2 then Inr (False, m)
         else res_bind (fm_init env nb2 (fm_load_factor m) fm_new) (\<lambda>(r, new_map).
              if r \<noteq> 0 then Inr (False, m)
              else res_bind (fm_for env m (fm_put subscript) new_map) (\<lambda>m1. Inr (True, m1))))"

text \<open>\<^verbatim>\<open>operator[]\<close>; a node is constructed in the memory \<^verbatim>\<open>_pool.get()\<close> returns, which may be null.\<close>

primrec fm_subscript ::
    "nat \<Rightarrow> ('k, 'v) fm_env \<Rightarrow> ('k, 'v) flat_map \<Rightarrow> 'k \<Rightarrow> (fm_ref \<times> ('k, 'v) flat_map) res" where
  "fm_subscript 0 env m key = Inl Hangs"
| "fm_subscript (Suc f) env m key =
     res_bind (fm_chain env m key) (\<lambda>(index, chain).
       if chain = [] then
         res_bind (thumb_update env ba_set index (m\<lparr>fm_size := fm_size m + 1\<rparr>)) (\<lambda>m1.
           Inr ((index, 0), set_chain index [(key, default_value env)] m1))
       else
         case chain_find key chain of
           Some j \<Rightarrow> Inr ((index, j), m)
         | None \<Rightarrow>
             res_bind (if is_too_crowded m (fm_size m) then fm_resize_by (fm_subscript f env) env (fm_nbucket m + 1) m
                       else Inr (False, m)) (\<lambda>(resized, m1).
               if resized then fm_subscript f env m1 key
               else res_bind (deref (pool_get (pool_nitem env) (node_mem env) (fm_pool m))) (\<lambda>p.
                    Inr ((index, length chain),
                         (set_chain index (chain @ [(key, default_value env)]) (m\<lparr>fm_size := fm_size m + 1\<rparr>))\<lparr>fm_pool := p\<rparr>))))"

definition fm_at :: "('k, 'v) fm_env \<Rightarrow> ('k, 'v) flat_map \<Rightarrow> 'k \<Rightarrow> (fm_ref \<times> ('k, 'v) flat_map) res" where
  "fm_at env = fm_subscript 64 env"

definition fm_resize :: "('k, 'v) fm_env \<Rightarrow> u64 \<Rightarrow> ('k, 'v) flat_map \<Rightarrow> (bool \<times> ('k, 'v) flat_map) res" where
  "fm_resize env = fm_resize_by (fm_at env) env"

definition fm_insert :: "('k, 'v) fm_env \<Rightarrow> 'k \<Rightarrow> 'v \<Rightarrow> ('k, 'v) flat_map \<Rightarrow> (fm_ref \<times> ('k, 'v) flat_map) res" where
  "fm_insert env key v m = res_bind (fm_at env m key) (\<lambda>(r, m1). Inr (r, fm_write r v m1))"

definition fm_seek :: "('k, 'v) fm_env \<Rightarrow> 'k \<Rightarrow> ('k, 'v) flat_map \<Rightarrow> 'v option res" where
  "fm_seek env key m =
     (if \<not> fm_initialized m then Inr None
      else res_bind (fm_chain env m key) (\<lambda>(index, chain).
             case chain_find key chain of None \<Rightarrow> Inr None | Some j \<Rightarrow> Inr (Some (snd (chain ! j)))))"

text \<open>\<^verbatim>\<open>erase\<close> returns the number of erased entries and the value it stores through \<^verbatim>\<open>old_value\<close>.\<close>

definition fm_erase :: "('k, 'v) fm_env \<Rightarrow> 'k \<Rightarrow> ('k, 'v) flat_map \<Rightarrow> ((nat \<times> 'v option) \<times> ('k, 'v) flat_map) res" where
  "fm_erase env key m =
     (if \<not> fm_initialized m then Inr ((0, None), m)
      else res_bind (fm_chain env m key) (\<lambda>(index, chain).
        case chain of
          [] \<Rightarrow> Inr ((0, None), m)
        | (k, v) # p \<Rightarrow>
            if k = key then
              res_bind (if p = [] then thumb_update env ba_unset index (set_chain index [] m)
                        else Inr ((set_chain index p m)\<lparr>fm_pool := pool_back (fm_pool m)\<rparr>)) (\<lambda>m1.
                Inr ((1, Some v), m1\<lparr>fm_size := fm_size m1 - 1\<rparr>))
            else case chain_find key p of
                   None \<Rightarrow> Inr ((0, None), m)
                 | Some j \<Rightarrow>
                     Inr ((1, Some (snd (p ! j))),
                          (set_chain index ((k, v) # take j p @ drop (Suc j) p) m)\<lparr>fm_size := fm_size m - 1, fm_pool := pool_back (fm_pool m)\<rparr>)))"

text \<open>The nodes behind the first ones, which go back to the pool.\<close>

definition pool_nodes :: "('k \<times> 'v) list list \<Rightarrow> nat" where
  "pool_nodes bs = sum_list (map (\<lambda>c. length c - 1) bs)"

definition fm_clear :: "('k, 'v) flat_map \<Rightarrow> ('k, 'v) flat_map res" where
  "fm_clear m =
     (if fm_size m = 0 then Inr m
      else let m1 = m\<lparr>fm_size := 0, fm_buckets := map_option (\<lambda>bs. replicate (length bs) []) (fm_buckets m),
                     fm_pool := (pool_back ^^ (case fm_buckets m of None \<Rightarrow> 0 | Some bs \<Rightarrow> pool_nodes bs)) (fm_pool m)\<rparr>
           in case fm_thumbnail m1 of
                None \<Rightarrow> Inr m1
              | Some a \<Rightarrow> res_bind (ba_clear a (unat (fm_nbucket m1))) (\<lambda>a1. Inr (m1\<lparr>fm_thumbnail := Some a1\<rparr>)))"

definition fm_clear_and_reset_pool :: "('k, 'v) flat_map \<Rightarrow> ('k, 'v) flat_map res" where
  "fm_clear_and_reset_pool m = res_bind (fm_clear m) (\<lambda>m1. Inr (m1\<lparr>fm_pool := pool_reset (fm_pool m1)\<rparr>))"

definition fm_destroy :: "('k, 'v) flat_map \<Rightarrow> ('k, 'v) flat_map res" where
  "fm_destroy m =
     res_bind (fm_clear m) (\<lambda>m1.
       Inr (m1\<lparr>fm_buckets := None, fm_thumbnail := None, fm_nbucket := 0, fm_load_factor := 0, fm_pool := pool_reset (fm_pool m1)\<rparr>))"

section \<open>Chains\<close>

text \<open>The entries of a map, bucket by bucket.\<close>

definition fm_entries :: "('k, 'v) flat_map \<Rightarrow> ('k \<times> 'v) list" where
  "fm_entries m = (case fm_buckets m of None \<Rightarrow> [] | Some bs \<Rightarrow> concat bs)"

text \<open>Every chain of the bucket array has distinct keys, all of which belong to its bucket.\<close>

definition chains_ok :: "('k \<Rightarrow> nat) \<Rightarrow> ('k \<times> 'v) list list \<Rightarrow> bool" where
  "chains_ok hx bs \<longleftrightarrow> (\<forall>i < length bs. distinct (map fst (bs ! i)) \<and> (\<forall>x \<in> set (bs ! i). hx (fst x) = i))"

lemma chain_find_None: "chain_find key c = None \<longleftrightarrow> key \<notin> fst ` set c"
  by (induction key c rule: chain_find.induct) auto

lemma chain_find_Some:
  "chain_find key c = Some j \<Longrightarrow> j < length c \<and> fst (c ! j) = key \<and> map_of c key = Some (snd (c ! j))"
  by (induction key c arbitrary: j rule: chain_find.induct) (auto split: if_splits)

lemma chains_ok_update:
  assumes "chains_ok hx bs" "distinct (map fst c)" "\<And>x. x \<in> set c \<Longrightarrow> hx (fst x) = i"
  shows "chains_ok hx (bs[i := c])"
  unfolding chains_ok_def
proof (intro allI impI)
  fix j assume "j < length (bs[i := c])"
  then show "distinct (map fst (bs[i := c] ! j)) \<and> (\<forall>x \<in> set (bs[i := c] ! j). hx (fst x) = j)"
    using assms by (cases "j = i") (simp_all add: chains_ok_def)
qed

lemma length_concat_update:
  "i < length bs \<Longrightarrow> length (concat (bs[i := c])) + length (bs ! i) = length (concat bs) + length c"
  by (induction bs arbitrary: i) (auto split: nat.split)

definition lookup_in :: "('k \<Rightarrow> nat) \<Rightarrow> ('k \<times> 'v) list list \<Rightarrow> 'k \<Rightarrow> 'v option" where
  "lookup_in hx bs k = map_of (bs ! hx k) k"

lemma lookup_in_update:
  assumes "chains_ok hx bs" "i < length bs" "\<And>k. hx k \<noteq> i \<Longrightarrow> map_of c k = None" "\<And>k. hx k < length bs"
  shows "lookup_in hx (bs[i := c]) k = (if hx k = i then map_of c k else lookup_in hx bs k)"
  using assms by (simp add: lookup_in_def)

lemma map_of_concat:
  assumes ok: "chains_ok hx bs" and range: "hx k < length bs"
  shows "map_of (concat bs) k = lookup_in hx bs k"
proof -
  have gen: "map_of (concat cs) k = map_of (cs ! i) k"
    if "i < length cs" "\<And>j. j < length cs \<Longrightarrow> j \<noteq> i \<Longrightarrow> k \<notin> fst ` set (cs ! j)" for cs :: "('a \<times> 'b) list list" and i
    using that
  proof (induction cs arbitrary: i)
    case (Cons c cs)
    show ?case
    proof (cases i)
      case 0
      have "k \<notin> fst ` set x" if "x \<in> set cs" for x
        using that Cons.prems(2) [of "Suc _"] 0 by (metis in_set_conv_nth length_Cons nat.simps(3) not_less_eq nth_Cons_Suc)
      then have "map_of (concat cs) k = None" by (auto simp: map_of_eq_None_iff)
      then show ?thesis using 0 by (simp add: map_add_def split: option.split)
    next
      case (Suc i')
      have "map_of c k = None" using Cons.prems(2) [of 0] Suc by (simp add: map_of_eq_None_iff)
      moreover have "map_of (concat cs) k = map_of (cs ! i') k"
        using Cons.prems(1) Cons.prems(2) [of "Suc _"] Suc by (intro Cons.IH) auto
      ultimately show ?thesis using Suc by (simp add: map_add_def split: option.split)
    qed
  qed simp
  have "k \<notin> fst ` set (bs ! j)" if "j < length bs" "j \<noteq> hx k" for j
    using ok that by (auto simp: chains_ok_def)
  from gen [OF range this] show ?thesis by (simp add: lookup_in_def)
qed

lemma distinct_concat_chains: "chains_ok hx bs \<Longrightarrow> distinct (map fst (concat bs))"
proof (induction bs rule: rev_induct)
  case (snoc c cs)
  have at: "distinct (map fst ((cs @ [c]) ! i)) \<and> (\<forall>x \<in> set ((cs @ [c]) ! i). hx (fst x) = i)" if "i < Suc (length cs)" for i
    using snoc.prems that by (simp add: chains_ok_def)
  have "chains_ok hx cs" unfolding chains_ok_def
  proof (intro allI impI)
    fix i assume "i < length cs"
    then show "distinct (map fst (cs ! i)) \<and> (\<forall>x \<in> set (cs ! i). hx (fst x) = i)"
      using at [of i] by (simp add: nth_append)
  qed
  moreover have "distinct (map fst c)" and "\<And>x. x \<in> set c \<Longrightarrow> hx (fst x) = length cs"
    using at [of "length cs"] by (simp_all add: nth_append)
  moreover have "hx (fst x) < length cs" if xin: "x \<in> set (concat cs)" for x
  proof -
    obtain d where d: "d \<in> set cs" "x \<in> set d" using xin by auto
    obtain j where "j < length cs" "cs ! j = d" using d(1) unfolding in_set_conv_nth by blast
    then show ?thesis using d(2) \<open>chains_ok hx cs\<close> by (simp add: chains_ok_def)
  qed
  ultimately show ?case using snoc.IH by fastforce
qed simp

section \<open>The invariant\<close>

definition fm_idx :: "('k, 'v) fm_env \<Rightarrow> u64 \<Rightarrow> 'k \<Rightarrow> nat" where
  "fm_idx env nb key = unat (flatmap_mod (hashfn env key) nb)"

lemma fm_idx_less: "n < 64 \<Longrightarrow> fm_idx env (2 ^ n) key < 2 ^ n"
proof -
  have "hashfn env key AND (2 ^ n - 1) = take_bit n (hashfn env key)"
    by (simp add: take_bit_eq_mask mask_eq_exp_minus_1)
  then have "fm_idx env (2 ^ n) key = take_bit n (unat (hashfn env key))"
    by (simp add: fm_idx_def flatmap_mod_def unsigned_take_bit_eq)
  then show ?thesis by (simp add: take_bit_eq_mod)
qed

definition thumb_ok :: "('k, 'v) fm_env \<Rightarrow> ('k \<times> 'v) list list \<Rightarrow> u64 list option \<Rightarrow> bool" where
  "thumb_ok env bs th \<longleftrightarrow>
     (if is_sparse env then
        case th of None \<Rightarrow> False
        | Some a \<Rightarrow> ba_room a (length bs) \<and> (\<forall>i < length bs. bit_at a i \<longleftrightarrow> bs ! i \<noteq> [])
      else th = None)"

text \<open>\<open>fm_ok env n m\<close>: an initialised map of \<open>2 ^ n\<close> buckets.\<close>

definition fm_ok :: "('k, 'v) fm_env \<Rightarrow> nat \<Rightarrow> ('k, 'v) flat_map \<Rightarrow> bool" where
  "fm_ok env n m \<longleftrightarrow>
     n \<le> 62 \<and> unat (sizeof_bucket env) * (2 ^ n + 1) < 2 ^ 63 \<and> fm_nbucket m = 2 ^ n \<and>
     10 \<le> fm_load_factor m \<and> fm_load_factor m \<le> 100 \<and>
     (case fm_buckets m of None \<Rightarrow> False
      | Some bs \<Rightarrow> length bs = 2 ^ n \<and> chains_ok (fm_idx env (2 ^ n)) bs \<and> thumb_ok env bs (fm_thumbnail m) \<and>
                  fm_size m = of_nat (length (concat bs)))"

text \<open>
  What is assumed of the memory: a bucket has a size, and no request of half the address space or
  more is served, as \<^verbatim>\<open>malloc\<close> documents.
\<close>

definition fm_env_ok :: "('k, 'v) fm_env \<Rightarrow> bool" where
  "fm_env_ok env \<longleftrightarrow> sizeof_bucket env \<noteq> 0 \<and> (\<forall>n. malloc_ok env n \<longrightarrow> unat n < 2 ^ 63)"

text \<open>The map that a flat map stands for.\<close>

definition fm_map :: "('k, 'v) fm_env \<Rightarrow> ('k, 'v) flat_map \<Rightarrow> 'k \<rightharpoonup> 'v" where
  "fm_map env m = (case fm_buckets m of None \<Rightarrow> Map.empty | Some bs \<Rightarrow> lookup_in (fm_idx env (fm_nbucket m)) bs)"

lemma fm_okE:
  assumes "fm_ok env n m"
  obtains bs where "fm_buckets m = Some bs" "length bs = 2 ^ n" "chains_ok (fm_idx env (2 ^ n)) bs"
    "thumb_ok env bs (fm_thumbnail m)" "fm_size m = of_nat (length (concat bs))" "fm_nbucket m = 2 ^ n" "n \<le> 62"
    "\<And>key. fm_idx env (2 ^ n) key < 2 ^ n" "fm_map env m = lookup_in (fm_idx env (2 ^ n)) bs"
    "fm_initialized m" "fm_entries m = concat bs"
proof (cases "fm_buckets m")
  case (Some bs)
  have "fm_idx env (2 ^ n) key < 2 ^ n" for key using assms fm_idx_less [of n] by (simp add: fm_ok_def)
  then show ?thesis
    using assms Some that by (simp add: fm_ok_def fm_map_def fm_initialized_def fm_entries_def)
qed (use assms in \<open>simp add: fm_ok_def\<close>)

lemma fm_chain_ok:
  assumes "fm_ok env n m" "fm_buckets m = Some bs"
  shows "fm_chain env m key = Inr (fm_idx env (2 ^ n) key, bs ! fm_idx env (2 ^ n) key)"
  using assms by (elim fm_okE) (auto simp: fm_chain_def fm_idx_def vec_at_def Let_def)

text \<open>Replacing the chain of one bucket.\<close>

lemma fm_ok_set_chain:
  assumes ok: "fm_ok env n m" and bs: "fm_buckets m = Some bs" and i: "i < 2 ^ n"
    and c: "distinct (map fst c)" "\<And>x. x \<in> set c \<Longrightarrow> fm_idx env (2 ^ n) (fst x) = i"
    and th: "thumb_ok env (bs[i := c]) th"
    and sz: "cnt + of_nat (length (bs ! i)) = fm_size m + of_nat (length c)"
  shows "fm_ok env n (set_chain i c (m\<lparr>fm_size := cnt, fm_thumbnail := th\<rparr>))"
    and "fm_map env (set_chain i c (m\<lparr>fm_size := cnt, fm_thumbnail := th\<rparr>)) k =
         (if fm_idx env (2 ^ n) k = i then map_of c k else fm_map env m k)"
proof -
  from ok bs have b: "length bs = 2 ^ n" "chains_ok (fm_idx env (2 ^ n)) bs" "fm_nbucket m = 2 ^ n"
    "fm_size m = of_nat (length (concat bs))" "fm_map env m = lookup_in (fm_idx env (2 ^ n)) bs"
    by (auto elim!: fm_okE)
  have "(of_nat (length (concat (bs[i := c])) + length (bs ! i)) :: u64) = of_nat (length (concat bs) + length c)"
    using length_concat_update [of i bs c] i b(1) by simp
  then have "cnt + of_nat (length (bs ! i)) = of_nat (length (concat (bs[i := c]))) + of_nat (length (bs ! i))"
    using sz b(4) by (simp only: of_nat_add)
  then have "cnt = of_nat (length (concat (bs[i := c])))" by (simp only: add_right_cancel)
  then show "fm_ok env n (set_chain i c (m\<lparr>fm_size := cnt, fm_thumbnail := th\<rparr>))"
    using ok bs b c th chains_ok_update [of _ bs c i] by (simp add: fm_ok_def set_chain_def del: length_concat)
  show "fm_map env (set_chain i c (m\<lparr>fm_size := cnt, fm_thumbnail := th\<rparr>)) k =
         (if fm_idx env (2 ^ n) k = i then map_of c k else fm_map env m k)"
    using bs b i by (simp add: fm_map_def set_chain_def lookup_in_def)
qed

text \<open>The pool is not part of the map.\<close>

lemma fm_pool_simps [simp]:
  "fm_ok env n (m\<lparr>fm_pool := p\<rparr>) = fm_ok env n m" "fm_map env (m\<lparr>fm_pool := p\<rparr>) = fm_map env m"
  by (cases "fm_buckets m"; simp add: fm_ok_def fm_map_def)+

text \<open>Adding a key that is not there, as \<^verbatim>\<open>operator[]\<close> does in its two places.\<close>

lemma thumb_ok_same: "thumb_ok env bs th \<Longrightarrow> i < length bs \<Longrightarrow> (c = [] \<longleftrightarrow> bs ! i = []) \<Longrightarrow> thumb_ok env (bs[i := c]) th"
  by (auto simp: thumb_ok_def nth_list_update split: option.splits)

lemma thumb_set_ok:
  assumes "thumb_ok env bs (fm_thumbnail m)" "i < length bs" "c \<noteq> []"
  shows "\<exists>th. thumb_update env ba_set i m = Inr (m\<lparr>fm_thumbnail := th\<rparr>) \<and> thumb_ok env (bs[i := c]) th"
proof (cases "is_sparse env")
  case True
  then obtain a where a: "fm_thumbnail m = Some a" "ba_room a (length bs)" "\<forall>i < length bs. bit_at a i \<longleftrightarrow> bs ! i \<noteq> []"
    using assms(1) by (auto simp: thumb_ok_def split: option.splits)
  then obtain a' where a': "ba_set a i = Inr a'" "length a' = length a" "\<forall>j. bit_at a' j \<longleftrightarrow> j = i \<or> bit_at a j"
    using ba_set_bits assms(2) by blast
  then have "thumb_ok env (bs[i := c]) (Some a')"
    using True a assms(2, 3) by (auto simp: thumb_ok_def ba_room_def nth_list_update)
  then show ?thesis using True a(1) a'(1) by (auto simp: thumb_update_def)
next
  case False
  then have "thumb_ok env (bs[i := c]) (fm_thumbnail m)" using assms(1) by (simp add: thumb_ok_def)
  then show ?thesis using False by (intro exI [of _ "fm_thumbnail m"]) (simp add: thumb_update_def)
qed

lemma thumb_unset_ok:
  assumes "thumb_ok env bs (fm_thumbnail m)" "i < length bs"
  shows "\<exists>th. thumb_update env ba_unset i m = Inr (m\<lparr>fm_thumbnail := th\<rparr>) \<and> thumb_ok env (bs[i := []]) th"
proof (cases "is_sparse env")
  case True
  then obtain a where a: "fm_thumbnail m = Some a" "ba_room a (length bs)" "\<forall>i < length bs. bit_at a i \<longleftrightarrow> bs ! i \<noteq> []"
    using assms(1) by (auto simp: thumb_ok_def split: option.splits)
  then obtain a' where a': "ba_unset a i = Inr a'" "length a' = length a" "\<forall>j. bit_at a' j \<longleftrightarrow> j \<noteq> i \<and> bit_at a j"
    using ba_unset_bits assms(2) by blast
  then have "thumb_ok env (bs[i := []]) (Some a')"
    using True a assms(2) by (auto simp: thumb_ok_def ba_room_def nth_list_update)
  then show ?thesis using True a(1) a'(1) by (auto simp: thumb_update_def)
next
  case False
  then have "thumb_ok env (bs[i := []]) (fm_thumbnail m)" using assms(1) by (simp add: thumb_ok_def)
  then show ?thesis using False by (intro exI [of _ "fm_thumbnail m"]) (simp add: thumb_update_def)
qed

text \<open>A reference points at the entry of a key.\<close>

definition ref_ok :: "('k, 'v) fm_env \<Rightarrow> 'k \<Rightarrow> fm_ref \<Rightarrow> ('k, 'v) flat_map \<Rightarrow> bool" where
  "ref_ok env key r m \<longleftrightarrow>
     (case fm_buckets m of None \<Rightarrow> False
      | Some bs \<Rightarrow> fst r = fm_idx env (fm_nbucket m) key \<and> snd r < length (bs ! fst r) \<and> fst (bs ! fst r ! snd r) = key)"

lemma ref_ok_pool [simp]: "ref_ok env key r (m\<lparr>fm_pool := p\<rparr>) = ref_ok env key r m"
  by (cases "fm_buckets m") (simp_all add: ref_ok_def)

lemma map_of_update:
  "distinct (map fst c) \<Longrightarrow> j < length c \<Longrightarrow>
   map_of (c[j := (fst (c ! j), v)]) = (map_of c)(fst (c ! j) \<mapsto> v)"
proof (induction c arbitrary: j)
  case (Cons x c)
  show ?case
  proof (cases j)
    case (Suc i)
    have "i < length c" "fst x \<notin> fst ` set c" using Suc Cons.prems by auto
    then have "fst (c ! i) \<noteq> fst x" using nth_mem image_eqI by metis
    then show ?thesis using Suc Cons by (auto simp: fun_upd_twist)
  qed (auto simp: fun_eq_iff)
qed simp

lemma fm_write_ok:
  assumes ok: "fm_ok env n m" and r: "ref_ok env key r m"
  shows "fm_ok env n (fm_write r v m)" "fm_map env (fm_write r v m) = (fm_map env m)(key \<mapsto> v)"
proof -
  obtain bs where b: "fm_buckets m = Some bs" "length bs = 2 ^ n" "chains_ok (fm_idx env (2 ^ n)) bs"
    "thumb_ok env bs (fm_thumbnail m)" "fm_nbucket m = 2 ^ n" "\<And>key. fm_idx env (2 ^ n) key < 2 ^ n"
    "fm_map env m = lookup_in (fm_idx env (2 ^ n)) bs"
    using ok by (elim fm_okE) blast
  define i where "i = fst r"
  define j where "j = snd r"
  have ij: "i = fm_idx env (2 ^ n) key" "j < length (bs ! i)" "fst (bs ! i ! j) = key" "i < 2 ^ n"
    using r b by (auto simp: ref_ok_def i_def j_def)
  define c where "c = (bs ! i)[j := (key, v)]"
  have fc: "map fst c = map fst (bs ! i)" using ij(2, 3) by (simp add: c_def map_update list_update_same_conv)
  have ch: "distinct (map fst (bs ! i))" "\<forall>x \<in> set (bs ! i). fm_idx env (2 ^ n) (fst x) = i"
    using b(2, 3) ij(4) by (simp_all add: chains_ok_def)
  have c: "distinct (map fst c)" "\<And>x. x \<in> set c \<Longrightarrow> fm_idx env (2 ^ n) (fst x) = i"
    using ch fc by (simp, metis (no_types, lifting) image_eqI image_set imageE)
  have th: "thumb_ok env (bs[i := c]) (fm_thumbnail m)"
    using b ij by (intro thumb_ok_same) (auto simp: c_def)
  have eq: "fm_write r v m = set_chain i c (m\<lparr>fm_size := fm_size m, fm_thumbnail := fm_thumbnail m\<rparr>)"
    using b(1) ij by (simp add: fm_write_def set_chain_def c_def i_def j_def)
  have sz: "fm_size m + of_nat (length (bs ! i)) = fm_size m + of_nat (length c)" by (simp add: c_def)
  show "fm_ok env n (fm_write r v m)"
    unfolding eq by (rule fm_ok_set_chain(1) [OF ok b(1) ij(4) c th sz])
  have "map_of c = (map_of (bs ! i))(key \<mapsto> v)"
    using map_of_update [OF ch(1) ij(2), of v] ij(3) by (simp add: c_def)
  then show "fm_map env (fm_write r v m) = (fm_map env m)(key \<mapsto> v)"
    unfolding eq using fm_ok_set_chain(2) [OF ok b(1) ij(4) c th sz] b(7) ij(1)
    by (auto simp: fun_eq_iff lookup_in_def)
qed

section \<open>Walking a map\<close>

lemma skip_invalid_ok:
  "e \<le> skip_invalid cs e \<and> skip_invalid cs e \<le> e + length cs \<and>
   (skip_invalid cs e < e + length cs \<longrightarrow> cs ! (skip_invalid cs e - e) \<noteq> []) \<and>
   (\<forall>i. e \<le> i \<longrightarrow> i < skip_invalid cs e \<longrightarrow> cs ! (i - e) = [])"
proof (induction cs e rule: skip_invalid.induct)
  case (2 c cs e)
  show ?case
  proof (cases "c = []")
    case True
    with 2 have IH: "Suc e \<le> skip_invalid cs (Suc e)" "skip_invalid cs (Suc e) \<le> Suc e + length cs"
      "skip_invalid cs (Suc e) < Suc e + length cs \<Longrightarrow> cs ! (skip_invalid cs (Suc e) - Suc e) \<noteq> []"
      "\<And>i. Suc e \<le> i \<Longrightarrow> i < skip_invalid cs (Suc e) \<Longrightarrow> cs ! (i - Suc e) = []" by auto
    have "(c # cs) ! (i - e) = []" if "e \<le> i" "i < skip_invalid cs (Suc e)" for i
      using that IH(4) [of i] True by (cases "i = e") (auto simp: nth_Cons')
    then show ?thesis using IH True by (auto simp: nth_Cons')
  qed simp
qed simp

lemma find_valid_ok:
  assumes "e \<le> length bs"
  shows "e \<le> find_valid bs e" "find_valid bs e \<le> length bs" "fm_valid_at bs (find_valid bs e)"
    and "e \<le> i \<Longrightarrow> i < find_valid bs e \<Longrightarrow> bs ! i = []"
proof -
  note s = skip_invalid_ok [of e "drop e bs", folded find_valid_def]
  show le: "e \<le> find_valid bs e" "find_valid bs e \<le> length bs" using s assms by auto
  show "bs ! i = []" if "e \<le> i" "i < find_valid bs e" using s that assms le by auto
  show "fm_valid_at bs (find_valid bs e)"
    using s le assms by (cases "find_valid bs e = length bs") (auto simp: fm_valid_at_def)
qed

lemma concat_empty_prefix:
  "e \<le> f \<Longrightarrow> f \<le> length bs \<Longrightarrow> (\<And>i. e \<le> i \<Longrightarrow> i < f \<Longrightarrow> bs ! i = []) \<Longrightarrow> concat (drop e bs) = concat (drop f bs)"
proof (induction "f - e" arbitrary: e)
  case (Suc d)
  then have "drop e bs = bs ! e # drop (Suc e) bs" by (intro Cons_nth_drop_Suc [symmetric]) simp
  moreover have "concat (drop (Suc e) bs) = concat (drop f bs)" using Suc by (intro Suc.hyps(1)) auto
  ultimately show ?case using Suc by simp
qed simp

definition it_rest :: "('k \<times> 'v) list list \<Rightarrow> fm_iter \<Rightarrow> ('k \<times> 'v) list" where
  "it_rest bs it = drop (it_node it) (bs ! it_entry it) @ concat (drop (Suc (it_entry it)) bs)"

lemma sparse_find_right:
  assumes "ba_room a (length bs)" "\<forall>i < length bs. bit_at a i \<longleftrightarrow> bs ! i \<noteq> []" "pos < length bs" "bs ! pos = []"
  shows "(sparse_find (Some a) bs pos = Inr (find_valid bs pos) \<longleftrightarrow> \<not> first1_trap a (pos + 1) (length bs)) \<and>
    (length bs mod 64 = 0 \<longrightarrow> sparse_find (Some a) bs pos = Inr (find_valid bs pos))"
proof -
  obtain r where r: "ba_first1 a (pos + 1) (length bs) = Inr r"
    "first_one a (pos + 1) (length bs) r \<longleftrightarrow> \<not> first1_trap a (pos + 1) (length bs)"
    using first1_total [OF assms(1), of "pos + 1"] assms(3) by auto
  define f where "f = find_valid bs pos"
  have f: "pos \<le> f" "f \<le> length bs" "fm_valid_at bs f" "\<And>i. pos \<le> i \<Longrightarrow> i < f \<Longrightarrow> bs ! i = []"
    using find_valid_ok [of pos bs] assms(3) by (auto simp: f_def)
  have pf: "pos + 1 \<le> f" using f assms(3, 4) by (cases "f = pos") (auto simp: fm_valid_at_def)
  have ff: "first_one a (pos + 1) (length bs) f"
    using f pf assms(2) by (auto simp: first_one_def fm_valid_at_def)
  have uniq: "x = f" if "first_one a (pos + 1) (length bs) x" for x using that ff by (rule first_one_unique)
  have "sparse_find (Some a) bs pos = Inr r" using r(1) assms(3, 4) by (simp add: sparse_find_def fm_valid_at_def)
  moreover have "r = f \<longleftrightarrow> \<not> first1_trap a (pos + 1) (length bs)" using r(2) ff uniq by blast
  moreover have "length bs mod 64 = 0 \<longrightarrow> \<not> first1_trap a (pos + 1) (length bs)"
    using first1_no_trap [of "length bs" "pos + 1" a] assms(3) by simp
  ultimately show ?thesis by (simp add: f_def)
qed

text \<open>
  The iterator of a dense map, and of a sparse map whose buckets fill whole words of the thumbnail, is at
  the next valid bucket.
\<close>

definition walk_ends :: "('k, 'v) fm_env \<Rightarrow> nat \<Rightarrow> bool" where
  "walk_ends env n \<longleftrightarrow> (is_sparse env \<longrightarrow> 6 \<le> n)"

lemma walk_ends_mono: "walk_ends env n \<Longrightarrow> n \<le> n' \<Longrightarrow> walk_ends env n'"
  by (auto simp: walk_ends_def)

lemma iter_at_dense:
  assumes th: "thumb_ok env bs (fm_thumbnail m)" and len: "length bs = 2 ^ n" and ends: "walk_ends env n" and pos: "pos \<le> length bs"
  shows "iter_at env m bs pos = Inr (it_at bs pos)"
proof (cases "is_sparse env")
  case True
  then obtain a where a: "fm_thumbnail m = Some a" "ba_room a (length bs)" "\<forall>i < length bs. bit_at a i \<longleftrightarrow> bs ! i \<noteq> []"
    using th by (auto simp: thumb_ok_def split: option.splits)
  have "(2 :: nat) ^ 6 dvd 2 ^ n" using True ends by (intro le_imp_power_dvd) (simp add: walk_ends_def)
  then have full: "length bs mod 64 = 0" by (simp add: len)
  have "sparse_find (Some a) bs pos = Inr (find_valid bs pos)"
  proof (cases "fm_valid_at bs pos")
    case valid: True
    note f = find_valid_ok [OF pos]
    have "find_valid bs pos = pos"
    proof (rule ccontr)
      assume "find_valid bs pos \<noteq> pos"
      with f have "bs ! pos = []" "pos \<noteq> length bs" by auto
      with valid show False by (simp add: fm_valid_at_def)
    qed
    with valid show ?thesis by (simp add: sparse_find_def)
  next
    case False
    then have "pos < length bs" "bs ! pos = []" using pos by (auto simp: fm_valid_at_def)
    from sparse_find_right [OF a(2, 3) this] full show ?thesis by blast
  qed
  then show ?thesis using True a(1) by (simp add: iter_at_def it_at_def)
next
  case False
  then show ?thesis by (simp add: iter_at_def)
qed

text \<open>What a loop over a list does.\<close>

fun fold_res :: "('a \<Rightarrow> 's \<Rightarrow> 's res) \<Rightarrow> 'a list \<Rightarrow> 's \<Rightarrow> 's res" where
  "fold_res body [] s = Inr s"
| "fold_res body (x # xs) s = res_bind (body x s) (fold_res body xs)"

lemma it_at_end [simp]: "it_at bs (length bs) = \<lparr>it_entry = length bs, it_node = 0\<rparr>"
  by (simp add: it_at_def find_valid_def)

lemma iter_loop_rest:
  assumes th: "thumb_ok env bs (fm_thumbnail m)" "length bs = 2 ^ n" "walk_ends env n"
  shows "it_entry it < length bs \<Longrightarrow> it_node it < length (bs ! it_entry it) \<Longrightarrow> length (it_rest bs it) \<le> fuel \<Longrightarrow>
    iter_loop env m bs body fuel it s = fold_res body (it_rest bs it) s"
proof (induction fuel arbitrary: it s)
  case 0
  then show ?case by (simp add: it_rest_def)
next
  case (Suc k)
  define e j where "e = it_entry it" and "j = it_node it"
  have ej: "e < length bs" "j < length (bs ! e)" using Suc.prems by (simp_all add: e_def j_def)
  have en: "iter_at env m bs (length bs) = Inr \<lparr>it_entry = length bs, it_node = 0\<rparr>" using iter_at_dense [OF th] by simp
  have ne: "it \<noteq> \<lparr>it_entry = length bs, it_node = 0\<rparr>" using ej(1) by (auto simp: e_def)
  have deref: "iter_deref bs it = Inr (bs ! e ! j)" using ej by (simp add: iter_deref_def vec_at_def e_def j_def)
  let ?rest = "drop (Suc j) (bs ! e) @ concat (drop (Suc e) bs)"
  have hd: "it_rest bs it = bs ! e ! j # ?rest"
    using ej by (simp add: it_rest_def e_def j_def Cons_nth_drop_Suc)
  have step: "iter_loop env m bs body (Suc k) it s =
      res_bind (body (bs ! e ! j) s) (\<lambda>s1. res_bind (iter_next env m bs it) (\<lambda>it1. iter_loop env m bs body k it1 s1))"
    by (subst iter_loop.simps) (simp add: en ne deref)
  have "\<exists>it1. iter_next env m bs it = Inr it1 \<and> (\<forall>s1. iter_loop env m bs body k it1 s1 = fold_res body ?rest s1)"
  proof (cases "Suc j < length (bs ! e)")
    case True
    let ?it = "it\<lparr>it_node := Suc j\<rparr>"
    have "iter_next env m bs it = Inr ?it" using True by (simp add: iter_next_def e_def j_def)
    moreover have "it_rest bs ?it = ?rest" by (simp add: it_rest_def e_def)
    ultimately show ?thesis using Suc.IH [of ?it] True ej(1) Suc.prems(3) unfolding hd by (simp add: e_def)
  next
    case False
    define f where "f = find_valid bs (Suc e)"
    have f: "Suc e \<le> f" "f \<le> length bs" "fm_valid_at bs f" "\<And>i. Suc e \<le> i \<Longrightarrow> i < f \<Longrightarrow> bs ! i = []"
      using find_valid_ok [of "Suc e" bs] ej by (auto simp: f_def)
    have nx: "iter_next env m bs it = Inr \<lparr>it_entry = f, it_node = 0\<rparr>"
      using False ej(1) iter_at_dense [OF th, of "Suc e"] by (simp add: iter_next_def it_at_def e_def j_def f_def)
    have cc: "?rest = concat (drop f bs)" using False concat_empty_prefix [OF f(1, 2, 4)] by simp
    show ?thesis
    proof (cases "f = length bs")
      case True
      then have "iter_loop env m bs body k \<lparr>it_entry = f, it_node = 0\<rparr> s1 = Inr s1" for s1
        by (subst iter_loop.simps) (simp add: en)
      then show ?thesis unfolding nx cc by (simp add: True)
    next
      case lt: False
      then have f2: "f < length bs" "bs ! f \<noteq> []" using f by (auto simp: fm_valid_at_def)
      have r: "it_rest bs \<lparr>it_entry = f, it_node = 0\<rparr> = concat (drop f bs)"
        using f2 by (simp add: it_rest_def flip: Cons_nth_drop_Suc)
      have "length (concat (drop f bs)) \<le> k" using Suc.prems(3) unfolding hd cc by simp
      then show ?thesis using Suc.IH [of "\<lparr>it_entry = f, it_node = 0\<rparr>"] f2 unfolding r cc nx by simp
    qed
  qed
  then show ?case unfolding step hd by (auto simp: res_bind_def split: sum.split)
qed

lemma fm_for_entries:
  assumes "fm_ok env n m" "walk_ends env n"
  shows "fm_for env m body s = fold_res body (fm_entries m) s"
proof -
  obtain bs where b: "fm_buckets m = Some bs" "length bs = 2 ^ n" "thumb_ok env bs (fm_thumbnail m)" "fm_entries m = concat bs"
    using assms(1) by (elim fm_okE) blast
  define f where "f = find_valid bs 0"
  have f: "f \<le> length bs" "fm_valid_at bs f" "\<And>i. i < f \<Longrightarrow> bs ! i = []"
    using find_valid_ok [of 0 bs] by (auto simp: f_def)
  have cc: "concat bs = concat (drop f bs)" using concat_empty_prefix [of 0 f bs] f by simp
  have start: "fm_for env m body s = iter_loop env m bs body (length (concat bs)) \<lparr>it_entry = f, it_node = 0\<rparr> s"
    using iter_at_dense [OF b(3, 2) assms(2), of 0] by (simp add: fm_for_def b(1) it_at_def f_def)
  show ?thesis
  proof (cases "f = length bs")
    case True
    have "iter_at env m bs (length bs) = Inr \<lparr>it_entry = length bs, it_node = 0\<rparr>"
      using iter_at_dense [OF b(3, 2) assms(2)] by simp
    then have "iter_loop env m bs body fuel \<lparr>it_entry = f, it_node = 0\<rparr> s = Inr s" for fuel
      by (subst iter_loop.simps) (simp add: True)
    moreover have none: "concat bs = []" by (subst cc) (simp add: True)
    ultimately show ?thesis unfolding start b(4) none by simp
  next
    case False
    then have f2: "f < length bs" "bs ! f \<noteq> []" using f by (auto simp: fm_valid_at_def)
    have r: "it_rest bs \<lparr>it_entry = f, it_node = 0\<rparr> = concat bs"
      using f2 cc by (simp add: it_rest_def flip: Cons_nth_drop_Suc)
    have "iter_loop env m bs body (length (concat bs)) \<lparr>it_entry = f, it_node = 0\<rparr> s =
        fold_res body (it_rest bs \<lparr>it_entry = f, it_node = 0\<rparr>) s"
      using f2 r by (intro iter_loop_rest [OF b(3, 2) assms(2)]) simp_all
    then show ?thesis unfolding start r b(4) .
  qed
qed

section \<open>\<^verbatim>\<open>operator[]\<close> and \<^verbatim>\<open>resize\<close>\<close>

lemma fm_init_ok:
  assumes env: "fm_env_ok env" and r: "fm_init env nb lf fm_new = Inr (0, m)" and n: "find_power2 nb = 2 ^ n" "n < 64"
    and bytes: "unat (sizeof_bucket env) * (2 ^ n + 1) < 2 ^ 64"
  shows "fm_ok env n m" "fm_map env m = Map.empty" "fm_entries m = []"
proof -
  have u: "unat (2 ^ n :: u64) = 2 ^ n" using n(2) by (rule unat_exp)
  have al: "fm_alloc env (2 ^ n) = Inr True" and lf: "10 \<le> lf" "lf \<le> 100"
    using r by (auto simp: fm_init_def Let_def fm_initialized_def fm_new_def flatmap_round_def n split: if_splits elim!: res_bind_InrE)
  let ?bs = "replicate (2 ^ n) [] :: ('a \<times> 'b) list list"
  have "unat (sizeof_bucket env * (2 ^ n + 1)) = unat (sizeof_bucket env) * (2 ^ n + 1)"
  proof -
    have s: "1 \<le> unat (sizeof_bucket env)" using env by (simp add: fm_env_ok_def unat_gt_0 Suc_le_eq)
    then have "1 * (2 ^ n + 1) \<le> unat (sizeof_bucket env) * (2 ^ n + 1)" by (rule mult_le_mono1)
    then have "unat (2 ^ n + 1 :: u64) = 2 ^ n + 1" using bytes u by (simp add: unat_word_ariths)
    then show ?thesis using bytes by (simp add: unat_word_ariths)
  qed
  moreover have "malloc_ok env (sizeof_bucket env * (2 ^ n + 1))"
    using al by (simp add: fm_alloc_def split: if_splits)
  ultimately have sz: "unat (sizeof_bucket env) * (2 ^ n + 1) < 2 ^ 63" using env by (auto simp: fm_env_ok_def)
  have n62: "n \<le> 62"
  proof (rule ccontr)
    assume "\<not> n \<le> 62"
    then have "(2 :: nat) ^ 63 \<le> 2 ^ n" by (intro power_increasing) auto
    also have "\<dots> \<le> 1 * (2 ^ n + 1)" by simp
    also have "\<dots> \<le> unat (sizeof_bucket env) * (2 ^ n + 1)"
      using env by (intro mult_le_mono1) (simp add: fm_env_ok_def unat_gt_0 Suc_le_eq)
    finally show False using sz by simp
  qed
  have m: "fm_buckets m = Some ?bs" "fm_nbucket m = 2 ^ n" "fm_size m = 0" "fm_load_factor m = lf"
    using r lf al u by (auto simp: fm_init_def Let_def fm_initialized_def fm_new_def flatmap_round_def n
        split: if_splits option.splits elim!: res_bind_InrE)
  have th: "thumb_ok env ?bs (fm_thumbnail m)"
  proof (cases "is_sparse env")
    case True
    then obtain a a1 where a: "ba_malloc (malloc_ok env) (fresh env) (2 ^ n) = Some a" "ba_clear a (2 ^ n) = Inr a1"
      "fm_thumbnail m = Some a1"
      using r lf al u by (auto simp: fm_init_def Let_def fm_initialized_def fm_new_def flatmap_round_def n
        split: if_splits option.splits elim!: res_bind_InrE)
    have "(2 :: nat) ^ n \<le> 2 ^ 62" using n62 by (intro power_increasing) auto
    then have "ba_room a (2 ^ n)" using ba_malloc_room [OF a(1)] u by simp
    with ba_clear_bits [OF this] a(2) have "length a1 = length a" "\<forall>j < 2 ^ n. \<not> bit_at a1 j" by auto
    then show ?thesis using \<open>ba_room a (2 ^ n)\<close> True a(3) by (simp add: thumb_ok_def ba_room_def)
  next
    case False
    then show ?thesis using r lf al u by (auto simp: fm_init_def Let_def fm_initialized_def fm_new_def flatmap_round_def n
        thumb_ok_def split: if_splits option.splits elim!: res_bind_InrE)
  qed
  show "fm_ok env n m" using m th n62 sz lf by (simp add: fm_ok_def chains_ok_def)
  show "fm_map env m = Map.empty"
    using m fm_idx_less [of n env] n62 by (auto simp: fm_map_def lookup_in_def fun_eq_iff)
  show "fm_entries m = []" using m by (simp add: fm_entries_def)
qed

text \<open>What \<^verbatim>\<open>operator[]\<close> promises, on maps of at least \<open>2 ^ n\<close> buckets.\<close>

definition subscript_ok ::
    "('k, 'v) fm_env \<Rightarrow> nat \<Rightarrow> (('k, 'v) flat_map \<Rightarrow> 'k \<Rightarrow> (fm_ref \<times> ('k, 'v) flat_map) res) \<Rightarrow> bool"
where
  "subscript_ok env n f \<longleftrightarrow> (\<forall>n' m key. n \<le> n' \<longrightarrow> fm_ok env n' m \<longrightarrow>
     (\<exists>r m' n''. f m key = Inr (r, m') \<and> n' \<le> n'' \<and> fm_ok env n'' m' \<and> ref_ok env key r m' \<and>
        fm_map env m' = (if key \<in> dom (fm_map env m) then fm_map env m else (fm_map env m)(key \<mapsto> default_value env))))"

lemma fm_fill_ok:
  assumes sub: "subscript_ok env n f" and ok: "fm_ok env n' m" "n \<le> n'"
  shows "\<exists>m' n''. fold_res (fm_put f) es m = Inr m' \<and> n' \<le> n'' \<and> fm_ok env n'' m' \<and> fm_map env m' = fm_map env m ++ map_of (rev es)"
  using ok
proof (induction es arbitrary: m n')
  case (Cons e es)
  obtain k v where e: "e = (k, v)" by (cases e)
  obtain r m1 n1 where s: "f m k = Inr (r, m1)" "n' \<le> n1" "fm_ok env n1 m1" "ref_ok env k r m1"
    "fm_map env m1 = (if k \<in> dom (fm_map env m) then fm_map env m else (fm_map env m)(k \<mapsto> default_value env))"
    using sub Cons.prems unfolding subscript_ok_def by blast
  note w = fm_write_ok [OF s(3, 4), of v]
  obtain m2 n2 where "fold_res (fm_put f) es (fm_write r v m1) = Inr m2" "n1 \<le> n2" "fm_ok env n2 m2"
    "fm_map env m2 = fm_map env (fm_write r v m1) ++ map_of (rev es)"
    using Cons.IH [OF w(1)] s(2) Cons.prems(2) by auto
  moreover have "fm_map env (fm_write r v m1) = (fm_map env m)(k \<mapsto> v)" using w(2) s(5) by (auto simp: fun_eq_iff)
  moreover have "fm_put f (k, v) m = Inr (fm_write r v m1)" by (simp add: fm_put_def s(1))
  ultimately show ?case using s(2) by (auto simp: e intro!: exI [of _ n2])
qed auto

lemma fm_init_returns:
  assumes "find_power2 nb = 2 ^ n" "n < 64" "unat (sizeof_bucket env) * (2 ^ n + 1) < 2 ^ 64"
  shows "\<exists>r m. fm_init env nb lf fm_new = Inr (r, m)"
proof -
  have u: "unat (2 ^ n :: u64) = 2 ^ n" using assms(2) by (rule unat_exp)
  have "(2 :: nat) ^ n \<le> 2 ^ 63" using assms(2) by (intro power_increasing) auto
  then have "\<exists>a1. ba_clear a (2 ^ n) = Inr a1" if "ba_malloc (malloc_ok env) (fresh env) (2 ^ n) = Some a" for a
    using ba_clear_bits [OF ba_malloc_room [OF that]] u by auto
  moreover have "\<exists>b. fm_alloc env (2 ^ n) = Inr b" using assms(3) u by (auto simp: fm_alloc_def)
  ultimately show ?thesis
    using assms(1) u by (fastforce simp: fm_init_def Let_def flatmap_round_def split: option.split)
qed

lemma fm_resize_by_ok:
  assumes env: "fm_env_ok env" and ok: "fm_ok env n m" and p: "find_power2 nb2 = 2 ^ p" "p < 64"
    and bytes: "unat (sizeof_bucket env) * (2 ^ p + 1) < 2 ^ 64" and sub: "subscript_ok env p f" and ends: "walk_ends env n"
  obtains (kept) "fm_resize_by f env nb2 m = Inr (False, m)"
    | (resized) m' n' where "fm_resize_by f env nb2 m = Inr (True, m')" "p \<le> n'" "fm_ok env n' m'" "fm_map env m' = fm_map env m"
proof -
  have p2: "find_power2 (2 ^ p) = 2 ^ p" using p(2) by (rule find_power2_exp)
  obtain r m0 where init: "fm_init env (2 ^ p) (fm_load_factor m) fm_new = Inr (r, m0)"
    using fm_init_returns [OF p2 p(2) bytes] by blast
  show thesis
  proof (cases "fm_nbucket m = 2 ^ p \<or> r \<noteq> 0")
    case True
    then have "fm_resize_by f env nb2 m = Inr (False, m)"
      using init p(1) by (auto simp: fm_resize_by_def flatmap_round_def Let_def)
    then show thesis by (rule kept)
  next
    case False
    then have m0: "fm_init env (2 ^ p) (fm_load_factor m) fm_new = Inr (0, m0)" using init by simp
    note new = fm_init_ok [OF env m0 p2 p(2) bytes]
    obtain m' n' where m': "fm_for env m (fm_put f) m0 = Inr m'" "p \<le> n'" "fm_ok env n' m'"
      "fm_map env m' = map_of (rev (fm_entries m))"
      using fm_fill_ok [OF sub new(1), of "fm_entries m"] new(2) unfolding fm_for_entries [OF ok ends] by auto
    from ok obtain bs where b: "fm_entries m = concat bs" "fm_map env m = lookup_in (fm_idx env (2 ^ n)) bs"
      "chains_ok (fm_idx env (2 ^ n)) bs" "length bs = 2 ^ n" "\<And>key. fm_idx env (2 ^ n) key < 2 ^ n"
      by (elim fm_okE) blast
    have "map_of (rev (concat bs)) = map_of (concat bs)"
      using distinct_concat_chains [OF b(3)] by (subst map_of_inject_set) (auto simp flip: rev_map)
    also have "\<dots> = fm_map env m" using map_of_concat [OF b(3)] b by (auto simp: fun_eq_iff)
    finally have "fm_map env m' = fm_map env m" using m'(4) b(1) by simp
    moreover have "fm_resize_by f env nb2 m = Inr (True, m')"
      using False m0 m'(1) p(1) by (simp add: fm_resize_by_def flatmap_round_def Let_def)
    ultimately show thesis using m' by (intro resized)
  qed
qed

lemma fm_subscript_ok:
  assumes env: "fm_env_ok env" and mem: "node_mem env"
  shows "64 \<le> f + n \<Longrightarrow> walk_ends env n \<Longrightarrow> subscript_ok env n (fm_subscript f env)"
proof (induction f arbitrary: n)
  case 0
  then show ?case by (auto simp: subscript_ok_def fm_ok_def)
next
  case (Suc f)
  show ?case unfolding subscript_ok_def
  proof (intro allI impI)
    fix n' m key
    assume nn: "n \<le> n'" and ok: "fm_ok env n' m"
    let ?goal = "\<exists>r m' n''. fm_subscript (Suc f) env m key = Inr (r, m') \<and> n' \<le> n'' \<and> fm_ok env n'' m' \<and> ref_ok env key r m' \<and>
        fm_map env m' = (if key \<in> dom (fm_map env m) then fm_map env m else (fm_map env m)(key \<mapsto> default_value env))"
    obtain bs where b: "fm_buckets m = Some bs" "length bs = 2 ^ n'" "chains_ok (fm_idx env (2 ^ n')) bs"
      "thumb_ok env bs (fm_thumbnail m)" "fm_nbucket m = 2 ^ n'" "\<And>key. fm_idx env (2 ^ n') key < 2 ^ n'"
      "fm_map env m = lookup_in (fm_idx env (2 ^ n')) bs"
      using ok by (elim fm_okE) blast
    define i where "i = fm_idx env (2 ^ n') key"
    have i: "i < 2 ^ n'" using b(6) by (simp add: i_def)
    have ch: "distinct (map fst (bs ! i))" "\<forall>x \<in> set (bs ! i). fm_idx env (2 ^ n') (fst x) = i"
      using b(2, 3) i by (simp_all add: chains_ok_def)
    have chain: "fm_chain env m key = Inr (i, bs ! i)" using fm_chain_ok [OF ok b(1)] by (simp add: i_def)
    have look: "fm_map env m key = map_of (bs ! i) key" by (simp add: b(7) lookup_in_def i_def)
    have add: "fm_ok env n' m' \<and> ref_ok env key (i, length (bs ! i)) m' \<and> fm_map env m' = (fm_map env m)(key \<mapsto> default_value env)"
      if new: "key \<notin> fst ` set (bs ! i)" and th: "thumb_ok env (bs[i := bs ! i @ [(key, default_value env)]]) th"
        and m': "m' = set_chain i (bs ! i @ [(key, default_value env)]) (m\<lparr>fm_size := fm_size m + 1, fm_thumbnail := th\<rparr>)" for m' th
    proof -
      let ?c = "bs ! i @ [(key, default_value env)]"
      have c: "distinct (map fst ?c)" "\<And>x. x \<in> set ?c \<Longrightarrow> fm_idx env (2 ^ n') (fst x) = i"
        using ch new by (auto simp: i_def)
      have sz: "fm_size m + 1 + of_nat (length (bs ! i)) = fm_size m + of_nat (length ?c)" by simp
      note upd = fm_ok_set_chain [OF ok b(1) i c th sz]
      have "map_of (bs ! i) key = None" using new by (simp add: map_of_eq_None_iff)
      then have "fm_map env m' = (fm_map env m)(key \<mapsto> default_value env)"
        using upd(2) m' look by (auto simp: fun_eq_iff i_def b(7) lookup_in_def map_add_def split: option.split)
      moreover have "ref_ok env key (i, length (bs ! i)) m'"
        using b i m' by (simp add: ref_ok_def set_chain_def i_def)
      ultimately show ?thesis using upd(1) m' by simp
    qed
    show ?goal
    proof (cases "bs ! i = []")
      case True
      obtain th where th: "thumb_update env ba_set i (m\<lparr>fm_size := fm_size m + 1\<rparr>) =
          Inr (m\<lparr>fm_size := fm_size m + 1, fm_thumbnail := th\<rparr>)" "thumb_ok env (bs[i := [(key, default_value env)]]) th"
        using thumb_set_ok [of env bs "m\<lparr>fm_size := fm_size m + 1\<rparr>" i "[(key, default_value env)]"] b i by auto
      have "key \<notin> dom (fm_map env m)" using look True by auto
      moreover have "fm_subscript (Suc f) env m key =
          Inr ((i, 0), set_chain i [(key, default_value env)] (m\<lparr>fm_size := fm_size m + 1, fm_thumbnail := th\<rparr>))"
        unfolding fm_subscript.simps chain res_bind_simps using True th(1) by simp
      ultimately show ?thesis
        using add [of th, OF _ _ refl] True th(2)
        by (intro exI [of _ "(i, 0)"] exI [of _ "set_chain i [(key, default_value env)] (m\<lparr>fm_size := fm_size m + 1, fm_thumbnail := th\<rparr>)"] exI [of _ n']) simp
    next
      case ne: False
      show ?thesis
      proof (cases "chain_find key (bs ! i)")
        case (Some j)
        from chain_find_Some [OF Some] have j: "j < length (bs ! i)" "fst (bs ! i ! j) = key" "key \<in> dom (fm_map env m)"
          using look by auto
        then have "ref_ok env key (i, j) m" using b by (simp add: ref_ok_def i_def)
        moreover have "fm_subscript (Suc f) env m key = Inr ((i, j), m)"
          unfolding fm_subscript.simps chain res_bind_simps using ne Some by simp
        ultimately show ?thesis using j(3) ok by (intro exI [of _ "(i, j)"] exI [of _ m] exI [of _ n']) simp
      next
        case None
        then have new: "key \<notin> fst ` set (bs ! i)" by (simp add: chain_find_None)
        then have nd: "key \<notin> dom (fm_map env m)" using look by (simp add: map_of_eq_None_iff domIff)
        have th: "thumb_ok env (bs[i := bs ! i @ [(key, default_value env)]]) (fm_thumbnail m)"
          using b i ne by (intro thumb_ok_same) auto
        have keep: ?goal if "(if is_too_crowded m (fm_size m) then fm_resize_by (fm_subscript f env) env (fm_nbucket m + 1) m
            else Inr (False, m)) = Inr (False, m)"
        proof -
          let ?m = "set_chain i (bs ! i @ [(key, default_value env)]) (m\<lparr>fm_size := fm_size m + 1\<rparr>)"
          obtain pool where pool: "pool_get (pool_nitem env) (node_mem env) (fm_pool m) = Some pool"
            using mem pool_get_None [of "pool_nitem env" "node_mem env" "fm_pool m"] by blast
          have res: "fm_subscript (Suc f) env m key = Inr ((i, length (bs ! i)), ?m\<lparr>fm_pool := pool\<rparr>)"
            unfolding fm_subscript.simps chain res_bind_simps using ne None that pool by simp
          have "?m = set_chain i (bs ! i @ [(key, default_value env)]) (m\<lparr>fm_size := fm_size m + 1, fm_thumbnail := fm_thumbnail m\<rparr>)"
            by (simp add: set_chain_def)
          from add [OF new th this] show ?thesis
            using res nd by (intro exI [of _ "(i, length (bs ! i))"] exI [of _ "?m\<lparr>fm_pool := pool\<rparr>"] exI [of _ n']) simp
        qed
        show ?thesis
        proof (cases "is_too_crowded m (fm_size m)")
          case crowded: True
          have n62: "n' \<le> 62" and half: "unat (sizeof_bucket env) * (2 ^ n' + 1) < 2 ^ 63" using ok by (simp_all add: fm_ok_def)
          have p: "find_power2 (fm_nbucket m + 1) = 2 ^ Suc n'" using find_power2_exp_plus1 n62 b(5) by simp
          have bytes: "unat (sizeof_bucket env) * (2 ^ Suc n' + 1) < 2 ^ 64"
            using half by (simp add: algebra_simps)
          have ends: "walk_ends env n'" "walk_ends env (Suc n')" using Suc.prems(2) nn by (auto intro: walk_ends_mono)
          have sub: "subscript_ok env (Suc n') (fm_subscript f env)" using Suc.prems(1) nn ends(2) by (intro Suc.IH) simp_all
          have p64: "Suc n' < 64" using n62 by simp
          from env ok p p64 bytes sub ends(1) show ?thesis
          proof (cases rule: fm_resize_by_ok)
            case kept
            with crowded have "(if is_too_crowded m (fm_size m) then fm_resize_by (fm_subscript f env) env (fm_nbucket m + 1) m
                else Inr (False, m)) = Inr (False, m)" by (simp only: if_True)
            then show ?thesis by (rule keep)
          next
            case (resized m1 n1)
            obtain r m2 n2 where "fm_subscript f env m1 key = Inr (r, m2)" "n1 \<le> n2" "fm_ok env n2 m2" "ref_ok env key r m2"
              "fm_map env m2 = (fm_map env m)(key \<mapsto> default_value env)"
              using sub [unfolded subscript_ok_def, rule_format, OF resized(2, 3), of key] nd
              unfolding resized(4) if_not_P [OF nd] by blast
            moreover have "fm_subscript (Suc f) env m key = fm_subscript f env m1 key"
              unfolding fm_subscript.simps chain res_bind_simps using resized(1) crowded ne None by simp
            ultimately show ?thesis using resized(2) nd by (intro exI [of _ r] exI [of _ m2] exI [of _ n2]) simp
          qed
        qed (intro keep, simp)
      qed
    qed
  qed
qed

end
