(* ===== verification/FlatMapOps.thy ===== *)
theory FlatMapOps
  imports FlatMap
begin

text \<open>
  The flat map as a finite map: every operation of \<^verbatim>\<open>butil/containers/flat_map_inl.h\<close> implements the
  operation on \<open>fm_map\<close>, over any sequence of operations.  Then its iterators, dense and sparse, and
  the copy and the position hints.
\<close>

section \<open>The operations on the abstract map\<close>

lemma fm_at_ok:
  assumes "fm_env_ok env" "node_mem env" "fm_ok env n m" "walk_ends env n"
  obtains r m' n' where "fm_at env m key = Inr (r, m')" "n \<le> n'" "fm_ok env n' m'" "ref_ok env key r m'"
    "fm_map env m' = (if key \<in> dom (fm_map env m) then fm_map env m else (fm_map env m)(key \<mapsto> default_value env))"
proof -
  have "subscript_ok env n (fm_at env)" using fm_subscript_ok [OF assms(1, 2), of 64 n] assms(4) by (simp add: fm_at_def)
  from this [unfolded subscript_ok_def, rule_format, OF order_refl assms(3)] show thesis using that by blast
qed

lemma fm_insert_ok:
  assumes "fm_env_ok env" "node_mem env" "fm_ok env n m" "walk_ends env n"
  obtains r m' n' where "fm_insert env key v m = Inr (r, m')" "n \<le> n'" "fm_ok env n' m'"
    "fm_map env m' = (fm_map env m)(key \<mapsto> v)"
proof -
  obtain r m1 n1 where m1: "fm_at env m key = Inr (r, m1)" "n \<le> n1" "fm_ok env n1 m1" "ref_ok env key r m1"
    "fm_map env m1 = (if key \<in> dom (fm_map env m) then fm_map env m else (fm_map env m)(key \<mapsto> default_value env))"
    using fm_at_ok [OF assms] by blast
  have "fm_map env (fm_write r v m1) = (fm_map env m)(key \<mapsto> v)"
    using fm_write_ok(2) [OF m1(3, 4)] m1(5) by (auto simp: fun_eq_iff)
  then show thesis using m1 fm_write_ok(1) [OF m1(3, 4)] that by (simp add: fm_insert_def)
qed

lemma fm_seek_ok:
  assumes ok: "fm_ok env n m"
  shows "fm_seek env key m = Inr (fm_map env m key)"
proof -
  obtain bs where b: "fm_buckets m = Some bs" "fm_map env m = lookup_in (fm_idx env (2 ^ n)) bs" "fm_initialized m"
    using ok by (elim fm_okE) blast
  show ?thesis
  proof (cases "chain_find key (bs ! fm_idx env (2 ^ n) key)")
    case None
    then have "map_of (bs ! fm_idx env (2 ^ n) key) key = None" by (simp add: chain_find_None map_of_eq_None_iff)
    then show ?thesis using None fm_chain_ok [OF ok b(1), of key] b by (simp add: fm_seek_def lookup_in_def)
  next
    case (Some j)
    then show ?thesis
      using chain_find_Some [OF Some] fm_chain_ok [OF ok b(1), of key] b by (simp add: fm_seek_def lookup_in_def)
  qed
qed

lemma map_of_remove_nth:
  "distinct (map fst c) \<Longrightarrow> j < length c \<Longrightarrow> map_of (take j c @ drop (Suc j) c) = (map_of c)(fst (c ! j) := None)"
proof (induction c arbitrary: j)
  case (Cons x c)
  show ?case
  proof (cases j)
    case 0
    then show ?thesis using Cons.prems by (auto simp: fun_eq_iff map_of_eq_None_iff)
  next
    case (Suc i)
    have "i < length c" "fst x \<notin> fst ` set c" using Suc Cons.prems by auto
    then have "fst (c ! i) \<noteq> fst x" using nth_mem image_eqI by metis
    then show ?thesis using Suc Cons by (auto simp: fun_eq_iff)
  qed
qed simp

lemma distinct_remove_nth: "distinct xs \<Longrightarrow> distinct (take j xs @ drop (Suc j) xs)"
  by (metis distinct_append distinct_take distinct_drop set_take_disj_set_drop_if_distinct le_SucI order_refl)

text \<open>Erasing leaves the chain without its entry for the key, whichever branch does it.\<close>

lemma fm_erase_ok:
  assumes ok: "fm_ok env n m"
  shows "\<exists>m'. fm_erase env key m = Inr ((if key \<in> dom (fm_map env m) then 1 else 0, fm_map env m key), m') \<and>
    fm_ok env n m' \<and> fm_map env m' = (fm_map env m)(key := None)"
proof -
  obtain bs where b: "fm_buckets m = Some bs" "length bs = 2 ^ n" "chains_ok (fm_idx env (2 ^ n)) bs"
    "thumb_ok env bs (fm_thumbnail m)" "\<And>key. fm_idx env (2 ^ n) key < 2 ^ n"
    "fm_map env m = lookup_in (fm_idx env (2 ^ n)) bs" "fm_initialized m"
    using ok by (elim fm_okE) blast
  define i where "i = fm_idx env (2 ^ n) key"
  have i: "i < 2 ^ n" using b(5) by (simp add: i_def)
  have ch: "distinct (map fst (bs ! i))" "\<forall>x \<in> set (bs ! i). fm_idx env (2 ^ n) (fst x) = i"
    using b(2, 3) i by (simp_all add: chains_ok_def)
  have chain: "fm_chain env m key = Inr (i, bs ! i)" using fm_chain_ok [OF ok b(1)] by (simp add: i_def)
  have look: "fm_map env m key = map_of (bs ! i) key" by (simp add: b(6) lookup_in_def i_def)
  have removed: "fm_ok env n m' \<and> fm_map env m' = (fm_map env m)(key := None)"
    if j: "j < length (bs ! i)" "fst (bs ! i ! j) = key" and c: "c = take j (bs ! i) @ drop (Suc j) (bs ! i)"
      and th: "thumb_ok env (bs[i := c]) th"
      and m': "m' = set_chain i c (m\<lparr>fm_size := fm_size m - 1, fm_thumbnail := th\<rparr>)" for j c th m'
  proof -
    have sub: "set c \<subseteq> set (bs ! i)" using c set_take_subset set_drop_subset by (metis le_sup_iff set_append)
    have "map fst c = take j (map fst (bs ! i)) @ drop (Suc j) (map fst (bs ! i))" by (simp add: c take_map drop_map)
    then have c1: "distinct (map fst c)" using distinct_remove_nth [OF ch(1)] by simp
    have c2: "fm_idx env (2 ^ n) (fst x) = i" if "x \<in> set c" for x using ch(2) sub that by blast
    have "length (bs ! i) = Suc (length c)" using j(1) by (simp add: c)
    then have sz: "fm_size m - 1 + of_nat (length (bs ! i)) = fm_size m + of_nat (length c)" by simp
    note upd = fm_ok_set_chain [OF ok b(1) i c1 c2 th sz]
    have "map_of c = (map_of (bs ! i))(key := None)" using map_of_remove_nth [OF ch(1) j(1)] j(2) c by simp
    then have "fm_map env m' = (fm_map env m)(key := None)"
      using upd(2) m' by (auto simp: fun_eq_iff i_def b(6) lookup_in_def)
    then show ?thesis using upd(1) m' by simp
  qed
  show ?thesis
  proof (cases "bs ! i")
    case Nil
    then have "fm_map env m key = None" "(fm_map env m)(key := None) = fm_map env m" using look by (auto simp: fun_upd_idem)
    then show ?thesis using Nil chain ok b(7) by (auto simp: fm_erase_def)
  next
    case (Cons x p)
    obtain k v where x: "x = (k, v)" by (cases x)
    show ?thesis
    proof (cases "k = key")
      case True
      have res: "fm_map env m key = Some v" using look Cons x True by simp
      show ?thesis
      proof (cases "p = []")
        case single: True
        obtain th where th: "thumb_update env ba_unset i (set_chain i [] m) = Inr ((set_chain i [] m)\<lparr>fm_thumbnail := th\<rparr>)"
          "thumb_ok env (bs[i := []]) th"
          using thumb_unset_ok [of env bs "set_chain i [] m" i] b i by (auto simp: set_chain_def)
        have "fm_erase env key m = Inr ((1, Some v), set_chain i [] (m\<lparr>fm_size := fm_size m - 1, fm_thumbnail := th\<rparr>))"
          using chain Cons x True single th(1) b(7) by (simp add: fm_erase_def) (simp add: set_chain_def)
        moreover have "fm_ok env n (set_chain i [] (m\<lparr>fm_size := fm_size m - 1, fm_thumbnail := th\<rparr>)) \<and>
            fm_map env (set_chain i [] (m\<lparr>fm_size := fm_size m - 1, fm_thumbnail := th\<rparr>)) = (fm_map env m)(key := None)"
          using Cons x True single by (intro removed [OF _ _ _ th(2) refl, of 0]) simp_all
        ultimately show ?thesis using res by (intro exI conjI) (auto simp: domI)
      next
        case more: False
        have th: "thumb_ok env (bs[i := p]) (fm_thumbnail m)" using b i Cons more by (intro thumb_ok_same) auto
        have "fm_erase env key m = Inr ((1, Some v),
            (set_chain i p (m\<lparr>fm_size := fm_size m - 1, fm_thumbnail := fm_thumbnail m\<rparr>))\<lparr>fm_pool := pool_back (fm_pool m)\<rparr>)"
          using chain Cons x True more b(7) by (simp add: fm_erase_def) (simp add: set_chain_def)
        moreover have "fm_ok env n (set_chain i p (m\<lparr>fm_size := fm_size m - 1, fm_thumbnail := fm_thumbnail m\<rparr>)) \<and>
            fm_map env (set_chain i p (m\<lparr>fm_size := fm_size m - 1, fm_thumbnail := fm_thumbnail m\<rparr>)) = (fm_map env m)(key := None)"
          using Cons x True by (intro removed [OF _ _ _ th refl, of 0]) simp_all
        ultimately show ?thesis using res by (intro exI conjI) (auto simp: domI)
      qed
    next
      case other: False
      show ?thesis
      proof (cases "chain_find key p")
        case None
        then have "fm_map env m key = None" "(fm_map env m)(key := None) = fm_map env m"
          using look Cons x other by (auto simp: chain_find_None map_of_eq_None_iff intro!: fun_upd_idem)
        then show ?thesis using None Cons x other chain ok b(7) by (auto simp: fm_erase_def)
      next
        case (Some j)
        from chain_find_Some [OF Some] have j: "j < length p" "fst (p ! j) = key" "map_of p key = Some (snd (p ! j))" by auto
        let ?c = "(k, v) # take j p @ drop (Suc j) p"
        have th: "thumb_ok env (bs[i := ?c]) (fm_thumbnail m)" using b i Cons by (intro thumb_ok_same) auto
        have "fm_erase env key m = Inr ((1, Some (snd (p ! j))),
            (set_chain i ?c (m\<lparr>fm_size := fm_size m - 1, fm_thumbnail := fm_thumbnail m\<rparr>))\<lparr>fm_pool := pool_back (fm_pool m)\<rparr>)"
          using chain Cons x other Some b(7) by (simp add: fm_erase_def) (simp add: set_chain_def)
        moreover have "fm_map env m key = Some (snd (p ! j))" using look Cons x other j(3) by simp
        moreover have "fm_ok env n (set_chain i ?c (m\<lparr>fm_size := fm_size m - 1, fm_thumbnail := fm_thumbnail m\<rparr>)) \<and>
            fm_map env (set_chain i ?c (m\<lparr>fm_size := fm_size m - 1, fm_thumbnail := fm_thumbnail m\<rparr>)) = (fm_map env m)(key := None)"
          using Cons x j by (intro removed [OF _ _ _ th refl, of "Suc j"]) simp_all
        ultimately show ?thesis by (intro exI conjI) (auto simp: domI)
      qed
    qed
  qed
qed

lemma fm_card:
  assumes "fm_ok env n m"
  shows "finite (dom (fm_map env m))" "fm_size m = of_nat (card (dom (fm_map env m)))"
proof -
  obtain bs where b: "length bs = 2 ^ n" "chains_ok (fm_idx env (2 ^ n)) bs" "\<And>key. fm_idx env (2 ^ n) key < 2 ^ n"
    "fm_size m = of_nat (length (concat bs))" "fm_map env m = lookup_in (fm_idx env (2 ^ n)) bs"
    using assms by (elim fm_okE) blast
  have "fm_map env m = map_of (concat bs)" using map_of_concat [OF b(2)] b by (auto simp: fun_eq_iff)
  then have d: "dom (fm_map env m) = set (map fst (concat bs))" by (simp add: dom_map_of_conv_image_fst)
  then show "finite (dom (fm_map env m))" by simp
  have "card (dom (fm_map env m)) = length (concat bs)"
    unfolding d using distinct_card [OF distinct_concat_chains [OF b(2)]] by (simp only: length_map)
  then show "fm_size m = of_nat (card (dom (fm_map env m)))" using b(4) by simp
qed

lemma fm_clear_ok:
  assumes ok: "fm_ok env n m" and few: "card (dom (fm_map env m)) < 2 ^ 64"
  shows "\<exists>m'. fm_clear m = Inr m' \<and> fm_ok env n m' \<and> fm_map env m' = Map.empty"
proof (cases "fm_size m = 0")
  case True
  have "unat (fm_size m) = card (dom (fm_map env m))"
    using fm_card(2) [OF ok] few by (simp add: unat_of_nat take_bit_nat_eq_self)
  then have "fm_map env m = Map.empty" using True fm_card(1) [OF ok] by simp
  then show ?thesis using True ok by (simp add: fm_clear_def)
next
  case False
  obtain bs where b: "fm_buckets m = Some bs" "length bs = 2 ^ n" "thumb_ok env bs (fm_thumbnail m)"
    "fm_nbucket m = 2 ^ n" "n \<le> 62" "\<And>key. fm_idx env (2 ^ n) key < 2 ^ n"
    using ok by (elim fm_okE) blast
  have u: "unat (2 ^ n :: u64) = 2 ^ n" using b(5) by (intro unat_exp) simp
  define pool where "pool = (pool_back ^^ pool_nodes bs) (fm_pool m)"
  obtain th where th: "fm_clear m = Inr (m\<lparr>fm_size := 0, fm_buckets := Some (replicate (2 ^ n) []), fm_thumbnail := th, fm_pool := pool\<rparr>)"
    "thumb_ok env (replicate (2 ^ n) [] :: ('a \<times> 'b) list list) th"
  proof (cases "fm_thumbnail m")
    case None
    then show thesis
      using that [of None] b False by (simp add: fm_clear_def Let_def thumb_ok_def pool_def split: if_splits)
  next
    case (Some a)
    then have a: "is_sparse env" "ba_room a (2 ^ n)" using b by (auto simp: thumb_ok_def split: if_splits)
    obtain a' where a': "ba_clear a (2 ^ n) = Inr a'" "length a' = length a" "\<forall>j < 2 ^ n. \<not> bit_at a' j"
      using ba_clear_bits [OF a(2)] by blast
    then show thesis
      using that [of "Some a'"] Some a b False u by (simp add: fm_clear_def Let_def thumb_ok_def ba_room_def pool_def)
  qed
  let ?m = "m\<lparr>fm_size := 0, fm_buckets := Some (replicate (2 ^ n) []), fm_thumbnail := th, fm_pool := pool\<rparr>"
  have "fm_ok env n ?m" using ok b th(2) by (simp add: fm_ok_def chains_ok_def)
  moreover have "fm_map env ?m = Map.empty" using b by (auto simp: fm_map_def lookup_in_def fun_eq_iff)
  ultimately show ?thesis using th(1) by blast
qed

lemma find_power2_range:
  assumes "b \<noteq> 0" "unat b \<le> 2 ^ 63"
  obtains k where "k < 64" "find_power2 b = 2 ^ k" "unat b \<le> 2 ^ k" "2 ^ k < 2 * unat b"
proof (cases "unat b = 1")
  case True
  then have "b = 1" by (simp add: word_unat_eq_iff)
  then show thesis using that [of 0] by simp
next
  case False
  then have "2 \<le> unat b" using assms(1) by (simp add: unat_eq_0 [symmetric])
  then obtain k where k: "2 ^ k < unat b" "unat b \<le> 2 ^ (k + 1)" using ex_power_ivl2 [of 2 "unat b"] by auto
  have "k < 63"
  proof (rule ccontr)
    assume "\<not> k < 63"
    then have "(2 :: nat) ^ 63 \<le> 2 ^ k" by (intro power_increasing) auto
    then show False using k(1) assms(2) by simp
  qed
  then show thesis using that [of "Suc k"] find_power2_round [of k b] k by simp
qed

text \<open>
  A number of buckets that stays within the address space and, for a sparse map, fills at least one word of
  the thumbnail: the iterator of a smaller sparse map, which resizing uses, does not find the end.
\<close>

definition resize_fits :: "('k, 'v) fm_env \<Rightarrow> u64 \<Rightarrow> bool" where
  "resize_fits env nb \<longleftrightarrow> nb \<noteq> 0 \<and> unat nb \<le> 2 ^ 63 \<and> unat (sizeof_bucket env) * (2 * unat nb + 1) < 2 ^ 64 \<and>
     (is_sparse env \<longrightarrow> 64 \<le> nb)"

lemma resize_fitsE:
  assumes "resize_fits env nb"
  obtains p where "find_power2 nb = 2 ^ p" "p < 64" "unat (sizeof_bucket env) * (2 ^ p + 1) < 2 ^ 64" "walk_ends env p"
proof -
  obtain p where p: "p < 64" "find_power2 nb = 2 ^ p" "2 ^ p < 2 * unat nb" "unat nb \<le> 2 ^ p"
    using assms find_power2_range [of nb] unfolding resize_fits_def by metis
  have ends: "walk_ends env p"
  proof (cases "is_sparse env")
    case True
    then have "64 \<le> unat nb" using assms by (simp add: resize_fits_def word_le_nat_alt)
    then have "(2 :: nat) ^ 6 \<le> 2 ^ p" using p(4) by simp
    then have "6 \<le> p" by (rule power_le_imp_le_exp [rotated]) simp
    then show ?thesis by (simp add: walk_ends_def)
  qed (simp add: walk_ends_def)
  have "unat (sizeof_bucket env) * (2 ^ p + 1) \<le> unat (sizeof_bucket env) * (2 * unat nb + 1)"
    using p(3) by (intro mult_le_mono2) simp
  also have "\<dots> < 2 ^ 64" using assms by (simp only: resize_fits_def)
  finally show thesis by (rule that [OF p(2, 1) _ ends])
qed

lemma fm_resize_ok:
  assumes env: "fm_env_ok env" "node_mem env" and ok: "fm_ok env n m" "walk_ends env n" and fits: "resize_fits env nb"
  obtains b m' n' where "fm_resize env nb m = Inr (b, m')" "fm_ok env n' m'" "walk_ends env n'" "fm_map env m' = fm_map env m"
proof -
  obtain p where p: "find_power2 nb = 2 ^ p" "p < 64" "unat (sizeof_bucket env) * (2 ^ p + 1) < 2 ^ 64" "walk_ends env p"
    using fits by (rule resize_fitsE)
  have sub: "subscript_ok env p (fm_at env)" using fm_subscript_ok [OF env, of 64 p] p(4) by (simp add: fm_at_def)
  from env(1) ok(1) p(1-3) sub ok(2) show thesis
  proof (cases rule: fm_resize_by_ok)
    case kept
    then show thesis using that [of False m n] ok by (simp add: fm_resize_def)
  next
    case (resized m' n')
    then show thesis using that [of True m' n'] walk_ends_mono [OF p(4)] by (simp add: fm_resize_def)
  qed
qed

section \<open>Sequences of operations\<close>

datatype ('k, 'v) fm_op = FmInsert 'k 'v | FmSubscript 'k | FmSeek 'k | FmErase 'k | FmClear | FmResize u64 | FmSize
datatype 'v fm_out = Done | Found "'v option" | Erased nat "'v option" | Sized u64

definition fm_step :: "('k, 'v) fm_env \<Rightarrow> ('k, 'v) fm_op \<Rightarrow> ('k, 'v) flat_map \<Rightarrow> ('v fm_out \<times> ('k, 'v) flat_map) res" where
  "fm_step env op m =
     (case op of
        FmInsert k v \<Rightarrow> res_bind (fm_insert env k v m) (\<lambda>(r, m1). Inr (Done, m1))
      | FmSubscript k \<Rightarrow> res_bind (fm_at env m k) (\<lambda>(r, m1). res_bind (fm_seek env k m1) (\<lambda>v. Inr (Found v, m1)))
      | FmSeek k \<Rightarrow> res_bind (fm_seek env k m) (\<lambda>v. Inr (Found v, m))
      | FmErase k \<Rightarrow> res_bind (fm_erase env k m) (\<lambda>((c, v), m1). Inr (Erased c v, m1))
      | FmClear \<Rightarrow> res_bind (fm_clear m) (\<lambda>m1. Inr (Done, m1))
      | FmResize n \<Rightarrow> res_bind (fm_resize env n m) (\<lambda>(b, m1). Inr (Done, m1))
      | FmSize \<Rightarrow> Inr (Sized (fm_size m), m))"

fun fm_run :: "('k, 'v) fm_env \<Rightarrow> ('k, 'v) fm_op list \<Rightarrow> ('k, 'v) flat_map \<Rightarrow> 'v fm_out list res" where
  "fm_run env [] m = Inr []"
| "fm_run env (op # ops) m =
     res_bind (fm_step env op m) (\<lambda>(out, m1). res_bind (fm_run env ops m1) (\<lambda>outs. Inr (out # outs)))"

definition map_step :: "'v \<Rightarrow> ('k, 'v) fm_op \<Rightarrow> ('k \<rightharpoonup> 'v) \<Rightarrow> 'v fm_out \<times> ('k \<rightharpoonup> 'v)" where
  "map_step d op M =
     (case op of
        FmInsert k v \<Rightarrow> (Done, M(k \<mapsto> v))
      | FmSubscript k \<Rightarrow> (case M k of Some v \<Rightarrow> (Found (Some v), M) | None \<Rightarrow> (Found (Some d), M(k \<mapsto> d)))
      | FmSeek k \<Rightarrow> (Found (M k), M)
      | FmErase k \<Rightarrow> (Erased (if k \<in> dom M then 1 else 0) (M k), M(k := None))
      | FmClear \<Rightarrow> (Done, Map.empty)
      | FmResize n \<Rightarrow> (Done, M)
      | FmSize \<Rightarrow> (Sized (of_nat (card (dom M))), M))"

fun map_run :: "'v \<Rightarrow> ('k, 'v) fm_op list \<Rightarrow> ('k \<rightharpoonup> 'v) \<Rightarrow> 'v fm_out list" where
  "map_run d [] M = []"
| "map_run d (op # ops) M = (case map_step d op M of (out, M1) \<Rightarrow> out # map_run d ops M1)"

fun op_fits :: "('k, 'v) fm_env \<Rightarrow> ('k, 'v) fm_op \<Rightarrow> bool" where
  "op_fits env (FmResize n) = resize_fits env n"
| "op_fits env op = True"

lemma map_step_card:
  assumes "finite (dom M)"
  shows "card (dom (snd (map_step d op M))) \<le> Suc (card (dom M))"
proof (cases op)
  case (FmErase k)
  then show ?thesis using assms card_Diff1_le [of "dom M" k] by (simp add: map_step_def)
qed (use assms in \<open>auto simp: map_step_def card_insert_if split: option.split\<close>)

lemma fm_step_ok:
  assumes env: "fm_env_ok env" "node_mem env" and ok: "fm_ok env n m" and ends: "walk_ends env n"
    and fits: "op_fits env op" and few: "card (dom (fm_map env m)) < 2 ^ 64"
  shows "\<exists>m' n'. fm_step env op m = Inr (fst (map_step (default_value env) op (fm_map env m)), m') \<and> fm_ok env n' m' \<and> walk_ends env n' \<and>
    fm_map env m' = snd (map_step (default_value env) op (fm_map env m))"
proof (cases op)
  case (FmInsert k v)
  obtain r m' n' where "fm_insert env k v m = Inr (r, m')" "n \<le> n'" "fm_ok env n' m'" "fm_map env m' = (fm_map env m)(k \<mapsto> v)"
    using fm_insert_ok [OF env ok ends] by blast
  then show ?thesis using FmInsert walk_ends_mono [OF ends] by (auto simp: fm_step_def map_step_def)
next
  case (FmSubscript k)
  obtain r m1 n1 where "fm_at env m k = Inr (r, m1)" "n \<le> n1" "fm_ok env n1 m1"
    "fm_map env m1 = (if k \<in> dom (fm_map env m) then fm_map env m else (fm_map env m)(k \<mapsto> default_value env))"
    using fm_at_ok [OF env ok ends] by blast
  then show ?thesis
    using FmSubscript walk_ends_mono [OF ends] fm_seek_ok [of env n1 m1 k] by (auto simp: fm_step_def map_step_def split: option.split)
next
  case (FmSeek k)
  then show ?thesis using fm_seek_ok [OF ok] ok ends by (auto simp: fm_step_def map_step_def)
next
  case (FmErase k)
  obtain m' where m': "fm_erase env k m = Inr ((if k \<in> dom (fm_map env m) then 1 else 0, fm_map env m k), m')"
    "fm_ok env n m'" "fm_map env m' = (fm_map env m)(k := None)" using fm_erase_ok [OF ok] by blast
  then show ?thesis using FmErase ends by (intro exI [of _ m'] exI [of _ n]) (simp add: fm_step_def map_step_def)
next
  case FmClear
  then show ?thesis using fm_clear_ok [OF ok few] ends by (auto simp: fm_step_def map_step_def)
next
  case (FmResize nb)
  with fits have "resize_fits env nb" by simp
  from fm_resize_ok [OF env ok ends this] obtain b m' n' where "fm_resize env nb m = Inr (b, m')" "fm_ok env n' m'" "walk_ends env n'"
    "fm_map env m' = fm_map env m" by blast
  then show ?thesis using FmResize by (auto simp: fm_step_def map_step_def)
next
  case FmSize
  then show ?thesis using ok ends fm_card(2) [OF ok] by (auto simp: fm_step_def map_step_def)
qed

lemma fm_run_ok:
  assumes "fm_env_ok env" "node_mem env"
  shows "fm_ok env n m \<Longrightarrow> walk_ends env n \<Longrightarrow> list_all (op_fits env) ops \<Longrightarrow> card (dom (fm_map env m)) + length ops < 2 ^ 64 \<Longrightarrow>
    fm_run env ops m = Inr (map_run (default_value env) ops (fm_map env m))"
proof (induction ops arbitrary: m n)
  case (Cons op ops)
  let ?s = "map_step (default_value env) op (fm_map env m)"
  obtain m' n' where s: "fm_step env op m = Inr (fst ?s, m')" "fm_ok env n' m'" "fm_map env m' = snd ?s" "walk_ends env n'"
    using fm_step_ok [OF assms Cons.prems(1, 2), of op] Cons.prems by auto
  have "card (dom (fm_map env m')) + length ops < 2 ^ 64"
    using map_step_card [OF fm_card(1) [OF Cons.prems(1)], of "default_value env" op] Cons.prems(4) s(3) by simp
  with Cons.IH [OF s(2, 4)] Cons.prems(3) s show ?case by (simp add: split_beta)
qed simp

text \<open>
C29: A flat map that was initialised with room in the address space behaves as a finite map as long as
  \<^verbatim>\<open>malloc\<close> serves the small blocks of the node pool: over any
  sequence of inserts, subscripts, lookups, erasures, clears, resizes and size queries, every operation
  returns (with the fuel the model gives it) and reports exactly what the finite map reports,
  whatever the hash function does and whether or not memory for a larger bucket array is found.  A sparse
  map is covered if it is initialised, and explicitly resized, to 64 buckets or more only: growing walks the map
  with its own iterator, and below 64 buckets the sparse iterator does not find the end.
\<close>
theorem flat_map_is_finite_map:
  assumes "fm_env_ok env" "node_mem env" "resize_fits env nb" "fm_init env nb lf fm_new = Inr (0, m)"
    and "list_all (op_fits env) ops" "length ops < 2 ^ 64"
  shows "fm_run env ops m = Inr (map_run (default_value env) ops Map.empty)"
proof -
  obtain p where p: "find_power2 nb = 2 ^ p" "p < 64" "unat (sizeof_bucket env) * (2 ^ p + 1) < 2 ^ 64" "walk_ends env p"
    using assms(3) by (rule resize_fitsE)
  note new = fm_init_ok [OF assms(1, 4) p(1-3)]
  from fm_run_ok [OF assms(1, 2) new(1) p(4) assms(5)] new(2) assms(6) show ?thesis by simp
qed

definition demo_env :: "(string, nat) fm_env" where
  "demo_env =
     \<lparr>hashfn = string_hash, default_value = 0, is_sparse = False, sizeof_bucket = 48,
      malloc_ok = (\<lambda>n. n < 2 ^ 40), fresh = (\<lambda>_. 0)\<rparr>"

lemma demo_env_ok: "fm_env_ok demo_env"
proof -
  have "unat n < 2 ^ 63" if "n < (2 ^ 40 :: u64)" for n
    using that by (simp add: word_less_nat_alt)
  then show ?thesis by (simp add: fm_env_ok_def demo_env_def)
qed

lemma demo_node_mem: "node_mem demo_env"
  by (simp add: node_mem_def demo_env_def sizeof_block_def block_nitem_def Let_def)

lemma demo_init:
  "fm_init demo_env 4 80 fm_new =
     Inr (0, \<lparr>fm_size = 0, fm_nbucket = 4, fm_buckets = Some [[], [], [], []], fm_thumbnail = None, fm_load_factor = 80, fm_pool = pool_new\<rparr>)"
proof -
  have "find_power2 4 = 4" using find_power2_exp [of 2] by simp
  moreover have "replicate 4 x = [x, x, x, x]" for x :: "(string \<times> nat) list" by (simp add: numeral_eq_Suc)
  ultimately show ?thesis
    by (simp add: fm_init_def demo_env_def fm_new_def fm_initialized_def flatmap_round_def fm_alloc_def Let_def)
qed

theorem flat_map_is_finite_map_witness:
  "fm_env_ok demo_env \<and> node_mem demo_env \<and> resize_fits demo_env 4 \<and>
   (\<exists>m. fm_init demo_env 4 80 fm_new = Inr (0, m) \<and>
      fm_run demo_env [FmInsert ''a'' 1, FmInsert ''e'' 2, FmResize 64, FmSeek ''e'', FmErase ''a'', FmSize] m =
        Inr [Done, Done, Done, Found (Some 2), Erased 1 (Some 1), Sized 1])"
proof -
  have fits: "resize_fits demo_env 4" "resize_fits demo_env 64" by (simp_all add: resize_fits_def demo_env_def)
  show ?thesis
    using flat_map_is_finite_map [OF demo_env_ok demo_node_mem fits(1) demo_init,
        of "[FmInsert ''a'' 1, FmInsert ''e'' 2, FmResize 64, FmSeek ''e'', FmErase ''a'', FmSize]"]
      fits demo_init demo_env_ok demo_node_mem by (simp add: map_step_def demo_env_def)
qed

section \<open>Iterating\<close>

lemma list_all_upt: "list_all P [0..<n] \<Longrightarrow> \<forall>i < n. P i"
  by (simp add: list_all_iff)

text \<open>
C30: A loop from \<^verbatim>\<open>begin()\<close> until the iterator equals \<^verbatim>\<open>end()\<close> over a dense map, or over a sparse map of at
  least 64 buckets, that its body does not change runs the body on the entries in bucket order, each of them
  exactly once, and ends, unless the body fails; the entries are those of the finite map, with
  distinct keys.
\<close>
theorem iteration_visits_every_entry:
  assumes "fm_ok env n m" "is_sparse env \<longrightarrow> 6 \<le> n"
  shows "fm_for env m body s = fold_res body (fm_entries m) s \<and> distinct (map fst (fm_entries m)) \<and>
    map_of (fm_entries m) = fm_map env m"
proof -
  obtain bs where b: "length bs = 2 ^ n" "chains_ok (fm_idx env (2 ^ n)) bs" "\<And>key. fm_idx env (2 ^ n) key < 2 ^ n"
    "fm_map env m = lookup_in (fm_idx env (2 ^ n)) bs" "fm_entries m = concat bs"
    using assms(1) by (elim fm_okE) blast
  have "map_of (concat bs) = fm_map env m" using map_of_concat [OF b(2)] b by (auto simp: fun_eq_iff)
  moreover have "fm_for env m body s = fold_res body (fm_entries m) s"
    using fm_for_entries [OF assms(1)] assms(2) by (simp add: walk_ends_def)
  ultimately show ?thesis using distinct_concat_chains [OF b(2)] b(5) by metis
qed

definition demo_map :: "(string, nat) flat_map" where
  "demo_map =
     \<lparr>fm_size = 3, fm_nbucket = 4, fm_buckets = Some [[], [(''a'', 1), (''e'', 2)], [], [(''c'', 3)]], fm_thumbnail = None,
      fm_load_factor = 80, fm_pool = \<lparr>np_free_nodes = 0, np_blocks = [1]\<rparr>\<rparr>"

lemma demo_map_ok: "fm_ok demo_env 2 demo_map"
proof -
  let ?bs = "[[], [(''a'', 1), (''e'', 2)], [], [(''c'', 3)]] :: (string \<times> nat) list list"
  have "fm_idx demo_env 4 ''a'' = 1" "fm_idx demo_env 4 ''e'' = 1" "fm_idx demo_env 4 ''c'' = 3" by code_simp+
  then have "chains_ok (fm_idx demo_env 4) ?bs" by (auto simp: chains_ok_def less_Suc_eq numeral_eq_Suc)
  then show ?thesis by (simp add: fm_ok_def demo_map_def demo_env_def thumb_ok_def)
qed

theorem iteration_visits_every_entry_witness:
  "fm_for demo_env demo_map (\<lambda>(k, v) acc. Inr (acc @ [v])) [] = Inr [1, 2, 3]"
  using iteration_visits_every_entry [OF demo_map_ok, of "\<lambda>(k, v) acc. Inr (acc @ [v])" "[]"]
  by (simp add: demo_env_def demo_map_def fm_entries_def)

text \<open>
The sparse iterator, which asks the thumbnail for the next valid bucket, finds the bucket the dense
  one finds exactly when the thumbnail search is not trapped; a map of at least 64 buckets never traps it.
\<close>
theorem sparse_iterator_right_iff:
  assumes "ba_room a (length bs)" "\<forall>i < length bs. bit_at a i \<longleftrightarrow> bs ! i \<noteq> []" "pos < length bs" "bs ! pos = []"
  shows "(sparse_find (Some a) bs pos = Inr (find_valid bs pos) \<longleftrightarrow> \<not> first1_trap a (pos + 1) (length bs)) \<and>
    (length bs mod 64 = 0 \<longrightarrow> sparse_find (Some a) bs pos = Inr (find_valid bs pos))"
  by (rule sparse_find_right [OF assms])

theorem sparse_iterator_right_iff_witness:
  "first1_trap [1] 2 8 \<and>
   sparse_find (Some [1]) [[(''k'', 0 :: nat)], [], [], [], [], [], [], []] 1 \<noteq>
     Inr (find_valid [[(''k'', 0 :: nat)], [], [], [], [], [], [], []] 1)"
proof -
  let ?bs = "[[(''k'', 0 :: nat)], [], [], [], [], [], [], []]"
  have trap: "first1_trap [1] (1 + 1) (length ?bs)" "first1_trap [1] 2 8" by code_simp+
  have "list_all (\<lambda>i. bit_at [1] i \<longleftrightarrow> ?bs ! i \<noteq> []) [0..<length ?bs]" by code_simp
  then have bits: "\<forall>i < length ?bs. bit_at [1] i \<longleftrightarrow> ?bs ! i \<noteq> []" by (rule list_all_upt)
  have room: "ba_room [1] (length ?bs)" by (simp add: ba_room_def)
  have at: "1 < length ?bs" "?bs ! 1 = []" by simp_all
  from sparse_iterator_right_iff [OF room bits at] trap show ?thesis by blast
qed

section \<open>Position hints\<close>

definition it_deref :: "('k \<times> 'v) list list \<Rightarrow> fm_iter \<Rightarrow> 'k \<times> 'v" where
  "it_deref bs it = bs ! it_entry it ! it_node it"

record 'k position_hint =
  ph_nbucket :: nat
  ph_offset :: nat
  ph_at_entry :: bool
  ph_key :: "'k option"

definition save_iterator :: "('k \<times> 'v) list list \<Rightarrow> fm_iter \<Rightarrow> 'k position_hint" where
  "save_iterator bs it =
     (if it \<noteq> it_at bs (length bs) then
        \<lparr>ph_nbucket = length bs, ph_offset = it_entry it, ph_at_entry = (it_node it = 0), ph_key = Some (fst (it_deref bs it))\<rparr>
      else \<lparr>ph_nbucket = length bs, ph_offset = it_entry it, ph_at_entry = False, ph_key = None\<rparr>)"

definition restore_iterator :: "('k \<times> 'v) list list \<Rightarrow> 'k position_hint \<Rightarrow> fm_iter" where
  "restore_iterator bs hint =
     (if ph_nbucket hint \<noteq> length bs \<or> ph_offset hint \<ge> length bs then it_at bs 0
      else if ph_at_entry hint then it_at bs (ph_offset hint)
      else if bs ! ph_offset hint = [] then it_at bs (ph_offset hint + 1)
      else case ph_key hint of
             None \<Rightarrow> it_at bs (ph_offset hint)
           | Some key \<Rightarrow>
               (case chain_find key (bs ! ph_offset hint) of
                  Some j \<Rightarrow> \<lparr>it_entry = ph_offset hint, it_node = j\<rparr>
                | None \<Rightarrow> it_at bs (ph_offset hint)))"

definition it_live :: "('k \<times> 'v) list list \<Rightarrow> fm_iter \<Rightarrow> bool" where
  "it_live bs it \<longleftrightarrow> it_entry it < length bs \<and> it_node it < length (bs ! it_entry it)"

lemma chain_find_nth: "distinct (map fst c) \<Longrightarrow> j < length c \<Longrightarrow> chain_find (fst (c ! j)) c = Some j"
proof (induction c arbitrary: j)
  case (Cons x c)
  show ?case
  proof (cases j)
    case (Suc i)
    have "i < length c" "fst x \<notin> fst ` set c" using Suc Cons.prems by auto
    then have "fst (c ! i) \<noteq> fst x" using nth_mem image_eqI by metis
    then show ?thesis using Suc Cons by (cases x) auto
  qed (cases x, simp)
qed simp

lemma it_at_valid: "pos < length bs \<Longrightarrow> bs ! pos \<noteq> [] \<Longrightarrow> it_at bs pos = \<lparr>it_entry = pos, it_node = 0\<rparr>"
  by (simp add: it_at_def find_valid_def flip: Cons_nth_drop_Suc)

lemma position_hint_cases:
  assumes "chains_ok hx bs" "it_live bs it"
  shows "restore_iterator bs (save_iterator bs it) = it"
    and "length bs' \<noteq> length bs \<Longrightarrow> restore_iterator bs' (save_iterator bs it) = it_at bs' 0"
    and "restore_iterator bs (save_iterator bs (it_at bs (length bs))) = it_at bs 0"
    and "it_node it \<noteq> 0 \<Longrightarrow> length bs' = length bs \<Longrightarrow> chain_find (fst (it_deref bs it)) (bs' ! it_entry it) = Some j \<Longrightarrow>
         restore_iterator bs' (save_iterator bs it) = \<lparr>it_entry = it_entry it, it_node = j\<rparr>"
proof -
  have e: "it_entry it < length bs" "it_node it < length (bs ! it_entry it)" "bs ! it_entry it \<noteq> []"
    using assms(2) by (auto simp: it_live_def)
  have ne: "it \<noteq> it_at bs (length bs)" using e(1) find_valid_ok [of "length bs" bs] by (auto simp: it_at_def)
  have d: "distinct (map fst (bs ! it_entry it))" using assms(1) e(1) by (simp add: chains_ok_def)
  show "restore_iterator bs (save_iterator bs it) = it"
    using e ne chain_find_nth [OF d e(2)] it_at_valid [OF e(1, 3)]
    by (auto simp: restore_iterator_def save_iterator_def it_deref_def)
  show "restore_iterator bs' (save_iterator bs it) = it_at bs' 0" if "length bs' \<noteq> length bs"
    using that ne by (simp add: restore_iterator_def save_iterator_def)
  show "restore_iterator bs (save_iterator bs (it_at bs (length bs))) = it_at bs 0"
    using find_valid_ok [of "length bs" bs] by (simp add: restore_iterator_def save_iterator_def it_at_def)
  show "restore_iterator bs' (save_iterator bs it) = \<lparr>it_entry = it_entry it, it_node = j\<rparr>"
    if "it_node it \<noteq> 0" "length bs' = length bs" "chain_find (fst (it_deref bs it)) (bs' ! it_entry it) = Some j"
  proof -
    have "bs' ! it_entry it \<noteq> []" using that(3) by auto
    then show ?thesis using that ne e(1) by (simp add: restore_iterator_def save_iterator_def)
  qed
qed

text \<open>A position hint saved from an iterator at an entry leads back to that iterator when the map did not
  change, to the same entry when the iterator stood inside a chain and the chain still holds its key,
  and to the start of the map when the map was resized.  A hint saved at the end also leads to the start.
\<close>
theorem position_hint_roundtrip:
  assumes "chains_ok hx bs" "it_live bs it"
  shows "restore_iterator bs (save_iterator bs it) = it \<and>
    (length bs' \<noteq> length bs \<longrightarrow> restore_iterator bs' (save_iterator bs it) = it_at bs' 0) \<and>
    restore_iterator bs (save_iterator bs (it_at bs (length bs))) = it_at bs 0 \<and>
    (it_node it \<noteq> 0 \<longrightarrow> length bs' = length bs \<longrightarrow> chain_find (fst (it_deref bs it)) (bs' ! it_entry it) = Some j \<longrightarrow>
       restore_iterator bs' (save_iterator bs it) = \<lparr>it_entry = it_entry it, it_node = j\<rparr>)"
  using position_hint_cases [OF assms] by blast

theorem position_hint_roundtrip_witness:
  "restore_iterator [[(1 :: nat, True), (2, False)], []]
     (save_iterator [[(1, True), (2, False)], []] \<lparr>it_entry = 0, it_node = 1\<rparr>) = \<lparr>it_entry = 0, it_node = 1\<rparr>"
proof -
  have ok: "chains_ok (\<lambda>_. 0) [[(1 :: nat, True), (2, False)], []]"
    unfolding chains_ok_def by (simp add: less_Suc_eq numeral_2_eq_2)
  have live: "it_live [[(1 :: nat, True), (2, False)], []] \<lparr>it_entry = 0, it_node = 1\<rparr>" by (simp add: it_live_def)
  from position_hint_roundtrip [OF ok live, of "[]"] show ?thesis by blast
qed

section \<open>Copying\<close>

definition fm_swap :: "('k, 'v) flat_map \<Rightarrow> ('k, 'v) flat_map \<Rightarrow> ('k, 'v) flat_map \<times> ('k, 'v) flat_map" where
  "fm_swap m rhs = (rhs, m)"

fun thumb_copy :: "('k \<times> 'v) list list \<Rightarrow> nat \<Rightarrow> u64 list \<Rightarrow> u64 list res" where
  "thumb_copy [] i a = Inr a"
| "thumb_copy (c # cs) i a = res_bind (if c = [] then Inr a else ba_set a i) (\<lambda>a1. thumb_copy cs (Suc i) a1)"

text \<open>
  \<^verbatim>\<open>operator=\<close> between different objects.  When the thumbnail cannot be allocated, the new buckets are left
  uninitialised; the model gives them no chain, so that using one is a fault.
\<close>

definition fm_assign :: "('k, 'v) fm_env \<Rightarrow> ('k, 'v) flat_map \<Rightarrow> ('k, 'v) flat_map \<Rightarrow> ('k, 'v) flat_map res" where
  "fm_assign env m rhs =
     res_bind (fm_clear m) (\<lambda>m1.
       if fm_size rhs = 0 then Inr m1
       else
         let m2 = (if \<not> fm_initialized m1 then m1\<lparr>fm_load_factor := fm_load_factor rhs\<rparr> else m1);
             fill = (\<lambda>m3.
               if fm_nbucket m3 = fm_nbucket rhs then
                 res_bind (deref (fm_buckets rhs)) (\<lambda>bs.
                 res_bind (if is_sparse env then res_bind (deref (fm_thumbnail m3)) (\<lambda>a. res_bind (thumb_copy bs 0 a) (\<lambda>a1. Inr (Some a1)))
                           else Inr (fm_thumbnail m3)) (\<lambda>th.
                 res_bind (pool_take (pool_nitem env) (node_mem env) (pool_nodes bs) (fm_pool m3)) (\<lambda>p.
                   Inr (m3\<lparr>fm_buckets := Some bs, fm_thumbnail := th, fm_size := fm_size rhs, fm_pool := p\<rparr>))))
               else fm_for env rhs (fm_put (fm_at env)) m3)
         in if fm_buckets m2 = None \<or> is_too_crowded m2 (fm_size rhs) then
              res_bind (fm_alloc env (fm_nbucket rhs)) (\<lambda>ok.
                if \<not> ok then Inr (m2\<lparr>fm_nbucket := fm_nbucket rhs, fm_buckets := None\<rparr>)
                else let m3 = m2\<lparr>fm_nbucket := fm_nbucket rhs, fm_buckets := Some (replicate (unat (fm_nbucket rhs)) [])\<rparr>
                     in if is_sparse env then
                          (case ba_malloc (malloc_ok env) (fresh env) (fm_nbucket rhs) of
                             None \<Rightarrow> Inr (m3\<lparr>fm_buckets := Some [], fm_thumbnail := None\<rparr>)
                           | Some a \<Rightarrow> res_bind (ba_clear a (unat (fm_nbucket rhs))) (\<lambda>a1. fill (m3\<lparr>fm_thumbnail := Some a1\<rparr>)))
                        else fill m3)
            else fill m2)"

definition fm_copy :: "('k, 'v) fm_env \<Rightarrow> ('k, 'v) flat_map \<Rightarrow> ('k, 'v) flat_map res" where
  "fm_copy env rhs = fm_assign env (fm_new\<lparr>fm_load_factor := fm_load_factor rhs\<rparr>) rhs"

text \<open>\<^verbatim>\<open>bucket_info\<close>: the longest chain and the numbers whose quotient is the average length.\<close>

definition bucket_info :: "('k, 'v) flat_map \<Rightarrow> nat \<times> u64 \<times> nat" where
  "bucket_info m =
     (case fm_buckets m of
        None \<Rightarrow> (0, fm_size m, 0)
      | Some bs \<Rightarrow> (foldl (\<lambda>n c. if c \<noteq> [] then max n (length c) else n) 0 bs, fm_size m, length (filter (\<lambda>c. c \<noteq> []) bs)))"

lemma thumb_copy_bits:
  "ba_room a (i + length cs) \<Longrightarrow>
   \<exists>a'. thumb_copy cs i a = Inr a' \<and> length a' = length a \<and>
     (\<forall>j. bit_at a' j \<longleftrightarrow> bit_at a j \<or> (i \<le> j \<and> j < i + length cs \<and> cs ! (j - i) \<noteq> []))"
proof (induction cs arbitrary: i a)
  case (Cons c cs)
  obtain a1 where a1: "(if c = [] then Inr a else ba_set a i) = Inr a1" "length a1 = length a"
    "\<forall>j. bit_at a1 j \<longleftrightarrow> bit_at a j \<or> (j = i \<and> c \<noteq> [])"
    using ba_set_bits [OF Cons.prems, of i] by (cases "c = []") auto
  have "ba_room a1 (Suc i + length cs)" using Cons.prems a1(2) by (simp add: ba_room_def)
  from Cons.IH [OF this] obtain a' where a': "thumb_copy cs (Suc i) a1 = Inr a'" "length a' = length a1"
    "\<forall>j. bit_at a' j \<longleftrightarrow> bit_at a1 j \<or> (Suc i \<le> j \<and> j < Suc i + length cs \<and> cs ! (j - Suc i) \<noteq> [])" by blast
  have "bit_at a' j \<longleftrightarrow> bit_at a j \<or> (i \<le> j \<and> j < i + length (c # cs) \<and> (c # cs) ! (j - i) \<noteq> [])" for j
    using a'(3) a1(3) by (cases "j = i") (auto simp: nth_Cons' Suc_le_eq)
  then show ?case using a1 a' by auto
qed auto

lemma fm_copy_thumb:
  assumes "is_sparse env" "n \<le> 62" "malloc_ok env (ba_bytes (2 ^ n))" "length bs = 2 ^ n"
  obtains a a1 a2 where "ba_malloc (malloc_ok env) (fresh env) (2 ^ n) = Some a" "ba_clear a (2 ^ n) = Inr a1"
    "thumb_copy bs 0 a1 = Inr a2" "thumb_ok env bs (Some a2)"
proof -
  have u: "unat (2 ^ n :: u64) = 2 ^ n" using assms(2) by (intro unat_exp) simp
  have le: "(2 :: nat) ^ n \<le> 2 ^ 62" using assms(2) by (intro power_increasing) auto
  have "(2 ^ n :: u64) \<noteq> 0" using u by (metis power_not_zero unat_0 zero_neq_numeral)
  then obtain a where a: "ba_malloc (malloc_ok env) (fresh env) (2 ^ n) = Some a"
    using assms(3) by (simp add: ba_malloc_def)
  have room: "ba_room a (2 ^ n)" using ba_malloc_room [OF a] u le by simp
  obtain a1 where a1: "ba_clear a (2 ^ n) = Inr a1" "length a1 = length a" "\<forall>j < 2 ^ n. \<not> bit_at a1 j"
    using ba_clear_bits [OF room] by blast
  have "ba_room a1 (0 + length bs)" using room a1(2) assms(4) by (simp add: ba_room_def)
  from thumb_copy_bits [OF this] obtain a2 where a2: "thumb_copy bs 0 a1 = Inr a2" "length a2 = length a1"
    "\<forall>j. bit_at a2 j \<longleftrightarrow> bit_at a1 j \<or> (j < length bs \<and> bs ! j \<noteq> [])" by auto
  have "thumb_ok env bs (Some a2)"
    using a1 a2 room assms(1, 4) by (auto simp: thumb_ok_def ba_room_def)
  then show thesis using that a a1(1) a2(1) by blast
qed

lemma copy_cases:
  assumes ok: "fm_ok env n rhs"
  shows "fm_size rhs = 0 \<Longrightarrow> \<exists>m. fm_copy env rhs = Inr m \<and> \<not> fm_initialized m \<and> fm_insert env key v m = Inl NullDeref"
    and "fm_size rhs \<noteq> 0 \<Longrightarrow> malloc_ok env (sizeof_bucket env * (2 ^ n + 1)) \<Longrightarrow> malloc_ok env (ba_bytes (2 ^ n)) \<Longrightarrow> node_mem env \<Longrightarrow>
         \<exists>m. fm_copy env rhs = Inr m \<and> fm_ok env n m \<and> fm_map env m = fm_map env rhs"
proof -
  let ?new = "fm_new\<lparr>fm_load_factor := fm_load_factor rhs\<rparr> :: ('a, 'b) flat_map"
  have new: "fm_clear ?new = Inr ?new" "\<not> fm_initialized ?new" "fm_buckets ?new = None"
    by (simp_all add: fm_clear_def fm_new_def fm_initialized_def)
  have "fm_subscript (Suc f) env ?new key = Inl NullDeref" for f by (simp add: fm_chain_def new(3))
  then have "fm_at env ?new key = Inl NullDeref" by (simp add: fm_at_def numeral_eq_Suc)
  then have "fm_insert env key v ?new = Inl NullDeref" by (simp add: fm_insert_def)
  then show "\<exists>m. fm_copy env rhs = Inr m \<and> \<not> fm_initialized m \<and> fm_insert env key v m = Inl NullDeref"
    if "fm_size rhs = 0" using that new by (simp add: fm_copy_def fm_assign_def)
  assume size: "fm_size rhs \<noteq> 0" and mem: "malloc_ok env (sizeof_bucket env * (2 ^ n + 1))" "malloc_ok env (ba_bytes (2 ^ n))" "node_mem env"
  obtain bs where b: "fm_buckets rhs = Some bs" "length bs = 2 ^ n" "thumb_ok env bs (fm_thumbnail rhs)"
    "fm_nbucket rhs = 2 ^ n" "n \<le> 62"
    using ok by (elim fm_okE) blast
  have u: "unat (2 ^ n :: u64) = 2 ^ n" using b(5) by (intro unat_exp) simp
  have "unat (sizeof_bucket env) * (2 ^ n + 1) < 2 ^ 64" using ok by (simp add: fm_ok_def)
  then have al: "fm_alloc env (2 ^ n) = Inr True" using mem(1) u by (simp add: fm_alloc_def)
  obtain p where p: "pool_take (pool_nitem env) True (pool_nodes bs) pool_new = Inr p" using pool_take_mem by blast
  have np: "fm_pool ?new = pool_new" by (simp add: fm_new_def)
  obtain th where th: "fm_copy env rhs = Inr (rhs\<lparr>fm_thumbnail := th, fm_pool := p\<rparr>)" "thumb_ok env bs th"
  proof (cases "is_sparse env")
    case True
    obtain a a1 a2 where "ba_malloc (malloc_ok env) (fresh env) (2 ^ n) = Some a" "ba_clear a (2 ^ n) = Inr a1"
      "thumb_copy bs 0 a1 = Inr a2" "thumb_ok env bs (Some a2)"
      using fm_copy_thumb [OF True b(5) mem(2) b(2)] by blast
    then show thesis
      using that [of "Some a2"] True new size b al u p np mem(3) by (simp add: fm_copy_def fm_assign_def Let_def)
  next
    case False
    then show thesis
      using that [of None] False new size b al u p np mem(3) by (simp add: fm_copy_def fm_assign_def Let_def thumb_ok_def) (simp add: fm_new_def)
  qed
  have "fm_ok env n (rhs\<lparr>fm_thumbnail := th, fm_pool := p\<rparr>)" "fm_map env (rhs\<lparr>fm_thumbnail := th, fm_pool := p\<rparr>) = fm_map env rhs"
    using ok b th(2) by (simp_all add: fm_ok_def fm_map_def)
  then show "\<exists>m. fm_copy env rhs = Inr m \<and> fm_ok env n m \<and> fm_map env m = fm_map env rhs" using th(1) by blast
qed

text \<open>
Copying a map gives an equal map when it holds an entry and memory is found.  The copy of an empty
  map is not initialised, even if the original is: inserting into it dereferences a null pointer.
\<close>
theorem copy_equal_unless_empty:
  assumes "fm_ok env n rhs"
  shows "(fm_size rhs = 0 \<longrightarrow>
       (\<exists>m. fm_copy env rhs = Inr m \<and> \<not> fm_initialized m \<and> fm_insert env key v m = Inl NullDeref)) \<and>
    (fm_size rhs \<noteq> 0 \<longrightarrow> malloc_ok env (sizeof_bucket env * (2 ^ n + 1)) \<longrightarrow> malloc_ok env (ba_bytes (2 ^ n)) \<longrightarrow> node_mem env \<longrightarrow>
       (\<exists>m. fm_copy env rhs = Inr m \<and> fm_ok env n m \<and> fm_map env m = fm_map env rhs))"
  using copy_cases [OF assms] by blast

theorem copy_equal_unless_empty_witness:
  "\<exists>m. fm_init demo_env 4 80 fm_new = Inr (0, m) \<and>
     (\<exists>m'. fm_copy demo_env m = Inr m' \<and> \<not> fm_initialized m' \<and> fm_insert demo_env ''a'' 1 m' = Inl NullDeref)"
proof -
  have "find_power2 4 = 2 ^ 2" using find_power2_exp [of 2] by simp
  from fm_init_ok(1) [OF demo_env_ok demo_init this] have ok: "fm_ok demo_env 2
      \<lparr>fm_size = 0, fm_nbucket = 4, fm_buckets = Some [[], [], [], []], fm_thumbnail = None, fm_load_factor = 80, fm_pool = pool_new\<rparr>"
    by (simp add: demo_env_def)
  from copy_equal_unless_empty [OF ok, of "''a''" 1] show ?thesis using demo_init by simp
qed

end
