(* ===== verification/SplitString.thy ===== *)
theory SplitString
  imports Prelude
begin

text \<open>
  The function \<^verbatim>\<open>split\<close> of \<^verbatim>\<open>service/torrent_server/http_service.cpp\<close>, with its three nested loops over
  positions, and the words of a string as its reference.
\<close>

section \<open>Splitting strings\<close>

definition is_sep :: "string \<Rightarrow> char \<Rightarrow> bool" where
  "is_sep seperator c \<longleftrightarrow> list_ex (\<lambda>x. c = x) seperator"

text \<open>The two inner loops: where the separators end from \<open>i\<close> on, and where the word ends from \<open>j\<close> on.\<close>

function skip_seps :: "string \<Rightarrow> string \<Rightarrow> nat \<Rightarrow> nat" where
  "skip_seps s seperator i = (if i < length s \<and> is_sep seperator (s ! i) then skip_seps s seperator (i + 1) else i)"
  by pat_completeness auto
termination by (relation "measure (\<lambda>(s, _, i). length s - i)") auto

function word_end :: "string \<Rightarrow> string \<Rightarrow> nat \<Rightarrow> nat" where
  "word_end s seperator j = (if j < length s \<and> \<not> is_sep seperator (s ! j) then word_end s seperator (j + 1) else j)"
  by pat_completeness auto
termination by (relation "measure (\<lambda>(s, _, j). length s - j)") auto

declare skip_seps.simps [simp del] word_end.simps [simp del]

lemma dropWhile_head: "dropWhile P s = c # u \<Longrightarrow> \<not> P c"
  by (metis hd_dropWhile list.distinct(1) list.sel(1))

lemma takeWhile_dropWhile_Nil: "takeWhile (\<lambda>c. \<not> P c) (dropWhile P s) = [] \<longleftrightarrow> dropWhile P s = []"
proof (cases "dropWhile P s")
  case (Cons c u)
  show ?thesis using dropWhile_head [OF Cons] unfolding Cons by simp
next
  case Nil
  show ?thesis unfolding Nil by simp
qed

lemma skip_seps_prefix: "i \<le> length s \<Longrightarrow> skip_seps s sep i = i + length (takeWhile (is_sep sep) (drop i s))"
proof (induction s sep i rule: skip_seps.induct)
  case (1 s sep i)
  then show ?case
    by (subst skip_seps.simps, cases "i < length s") (auto simp: Cons_nth_drop_Suc [symmetric] Suc_le_eq)
qed

lemma word_end_prefix: "j \<le> length s \<Longrightarrow> word_end s sep j = j + length (takeWhile (\<lambda>c. \<not> is_sep sep c) (drop j s))"
proof (induction s sep j rule: word_end.induct)
  case (1 s sep j)
  then show ?case
    by (subst word_end.simps, cases "j < length s") (auto simp: Cons_nth_drop_Suc [symmetric] Suc_le_eq)
qed

lemma skip_seps_le: "i \<le> length s \<Longrightarrow> skip_seps s sep i \<le> length s"
  using length_takeWhile_le [of "is_sep sep" "drop i s"] by (simp add: skip_seps_prefix)

lemma drop_skip_seps: "i \<le> length s \<Longrightarrow> drop (skip_seps s sep i) s = dropWhile (is_sep sep) (drop i s)"
  by (simp add: skip_seps_prefix dropWhile_eq_drop add.commute)

text \<open>Where the separators end either a word begins or the string ends.\<close>

lemma word_end_skip:
  assumes "i < length s"
  shows "i < word_end s sep (skip_seps s sep i)"
proof -
  let ?t = "dropWhile (is_sep sep) (drop i s)"
  have le: "skip_seps s sep i \<le> length s" "i \<le> skip_seps s sep i"
    using assms skip_seps_le [of i s sep] by (simp_all add: skip_seps_prefix)
  show ?thesis
  proof (cases "skip_seps s sep i = i")
    case True
    have "?t \<noteq> []" using assms drop_skip_seps [of i s sep] True by simp
    then have "takeWhile (\<lambda>c. \<not> is_sep sep c) ?t \<noteq> []"
      by (simp only: takeWhile_dropWhile_Nil not_False_eq_True)
    then show ?thesis
      using word_end_prefix [OF le(1), of sep] drop_skip_seps [of i s sep] assms True by simp
  next
    case False
    then show ?thesis using le word_end_prefix [OF le(1), of sep] by simp
  qed
qed

text \<open>The outer loop: the position moves on in every round, and the loop ends at the size of the string.\<close>

function split_loop :: "string \<Rightarrow> string \<Rightarrow> nat \<Rightarrow> string list \<Rightarrow> string list" where
  "split_loop s seperator i result =
     (if i < length s then
        let i1 = skip_seps s seperator i; j = word_end s seperator i1
        in split_loop s seperator j (if i1 \<noteq> j then result @ [take (j - i1) (drop i1 s)] else result)
      else result)"
  by pat_completeness auto
termination
proof (relation "measure (\<lambda>(s, _, i, _). length s - i)")
  fix s seperator :: string and i :: nat and result and i1 j
  assume "i < length s" "i1 = skip_seps s seperator i" "j = word_end s seperator i1"
  then show "((s, seperator, j, if i1 \<noteq> j then result @ [take (j - i1) (drop i1 s)] else result), s, seperator, i, result)
      \<in> measure (\<lambda>(s, _, i, _). length s - i)"
    using word_end_skip [of i s seperator] by auto
qed auto

declare split_loop.simps [simp del]

definition split :: "string \<Rightarrow> string \<Rightarrow> string list" where
  "split s seperator = split_loop s seperator 0 []"

text \<open>The words of a string: the maximal runs of characters that are no separators.\<close>

function words :: "(char \<Rightarrow> bool) \<Rightarrow> string \<Rightarrow> string list" where
  "words P s =
     (let t = dropWhile P s
      in if t = [] then [] else takeWhile (\<lambda>c. \<not> P c) t # words P (dropWhile (\<lambda>c. \<not> P c) t))"
  by pat_completeness auto
termination
proof (relation "measure (\<lambda>(_, s). length s)")
  fix P :: "char \<Rightarrow> bool" and s t
  assume t: "t = dropWhile P s" "t \<noteq> []"
  then obtain c u where "t = c # u" "\<not> P c" using dropWhile_head [of P s] by (cases t) metis+
  then have "length (dropWhile (\<lambda>c. \<not> P c) t) < length t" using length_dropWhile_le [of "\<lambda>c. \<not> P c" u] by simp
  also have "length t \<le> length s" by (simp add: t(1) length_dropWhile_le)
  finally show "((P, dropWhile (\<lambda>c. \<not> P c) t), P, s) \<in> measure (\<lambda>(_, s). length s)" by simp
qed auto

declare words.simps [simp del]

lemma split_loop_words: "i \<le> length s \<Longrightarrow> split_loop s sep i result = result @ words (is_sep sep) (drop i s)"
proof (induction s sep i result rule: split_loop.induct)
  case (1 s sep i result)
  define i1 j where "i1 = skip_seps s sep i" and "j = word_end s sep i1"
  have i1: "i1 \<le> length s" "drop i1 s = dropWhile (is_sep sep) (drop i s)"
    using 1(2) skip_seps_le drop_skip_seps by (simp_all add: i1_def)
  have j: "j = i1 + length (takeWhile (\<lambda>c. \<not> is_sep sep c) (drop i1 s))" using i1 by (simp add: j_def word_end_prefix)
  then have jd: "j \<le> length s" "drop j s = dropWhile (\<lambda>c. \<not> is_sep sep c) (drop i1 s)"
    "take (j - i1) (drop i1 s) = takeWhile (\<lambda>c. \<not> is_sep sep c) (drop i1 s)"
    using i1(1) length_takeWhile_le [of "\<lambda>c. \<not> is_sep sep c" "drop i1 s"]
    by (simp_all add: dropWhile_eq_drop takeWhile_eq_take [symmetric] add.commute)
  have empty: "i1 = j \<longleftrightarrow> drop i1 s = []"
  proof -
    have "takeWhile (\<lambda>c. \<not> is_sep sep c) (drop i1 s) = [] \<longleftrightarrow> drop i1 s = []"
      unfolding i1(2) by (rule takeWhile_dropWhile_Nil)
    then show ?thesis by (simp add: j)
  qed
  show ?case
  proof (cases "i < length s")
    case True
    have "split_loop s sep i result = split_loop s sep j (if i1 \<noteq> j then result @ [take (j - i1) (drop i1 s)] else result)"
      using True by (subst split_loop.simps) (simp add: Let_def i1_def j_def)
    also have "\<dots> = (if i1 \<noteq> j then result @ [take (j - i1) (drop i1 s)] else result) @ words (is_sep sep) (drop j s)"
      using True jd(1) by (intro 1(1)) (simp_all add: i1_def j_def)
    also have "\<dots> = result @ words (is_sep sep) (drop i s)"
    proof (cases "i1 = j")
      case True
      have "words (is_sep sep) [] = []" by (subst words.simps) simp
      moreover have "words (is_sep sep) (drop i s) = []"
        using True empty i1(2) by (subst words.simps) simp
      ultimately show ?thesis using True empty jd(2) by simp
    next
      case False
      then have "words (is_sep sep) (drop i s) = takeWhile (\<lambda>c. \<not> is_sep sep c) (drop i1 s) # words (is_sep sep) (drop j s)"
        using empty i1(2) jd(2) by (subst words.simps) (simp add: Let_def)
      then show ?thesis using False jd(3) by simp
    qed
    finally show ?thesis .
  next
    case False
    then have "words (is_sep sep) (drop i s) = []" by (subst words.simps) simp
    then show ?thesis using False by (subst split_loop.simps) simp
  qed
qed

text \<open>
C35: \<^verbatim>\<open>split\<close> always ends and returns the words of the string: the maximal runs of characters that are not
  separators, in order; no separator leaves an empty word.
\<close>
theorem split_is_words: "split s seperator = words (is_sep seperator) s"
  by (simp add: split_def split_loop_words)

end
