(* ===== verification/HttpService.thy ===== *)
theory HttpService
  imports Torrent SplitString
begin

text \<open>
  \<^verbatim>\<open>service/torrent_server/http_service.cpp\<close>: the handlers of the HTTP interface.  A request is its
  query parameters, a response a record of the fields the handler sets.  Parameters of the model: the
  part of the MySQL client that reads results, the account database and its JSON format, the reply of
  the user node, and the number formats of the C and chain libraries.  A row of a result is a list
  of fields, \<open>None\<close> for an SQL NULL, which the handlers pass on as a null pointer.
\<close>

section \<open>Parameters\<close>

record ('c, 'w) result_ops =
  my_store_result :: "'c \<Rightarrow> 'w \<Rightarrow> string option list list option \<times> 'w"
  my_free_result :: "'c \<Rightarrow> 'w \<Rightarrow> 'w"

text \<open>jsonxx as the handlers use it: \<open>None\<close> where \<^verbatim>\<open>has<T>\<close> is false and \<^verbatim>\<open>get<T>\<close> asserts.\<close>

record ('o, 'a) reply_ops =
  jr_parse :: "string \<Rightarrow> 'o"
  jr_object :: "'o \<Rightarrow> string \<Rightarrow> 'o option"
  jr_number :: "'o \<Rightarrow> string \<Rightarrow> int option"
  jr_array :: "'o \<Rightarrow> string \<Rightarrow> 'a option"
  jr_array_size :: "'a \<Rightarrow> nat"
  jr_string_at :: "'a \<Rightarrow> nat \<Rightarrow> string option"

text \<open>
  In order: the flags that name the MySQL server; \<^verbatim>\<open>strtod\<close> and \<^verbatim>\<open>rstripzero\<close>; \<^verbatim>\<open>fc::json\<close> reading the two maps
  of a payment and an account, which may throw; \<^verbatim>\<open>to_string\<close> of a balance; \<^verbatim>\<open>is_valid_id\<close>; the conversion to a
  payment id; the reply of the user node to a user id, \<open>None\<close> when the call failed; the addresses of
  an account's active authority; and the account database.
\<close>

record ('acc, 'ad, 'o, 'a) http_env =
  he_params :: conn_params
  he_strtod :: "string \<Rightarrow> u64"
  he_rstripzero :: "string \<Rightarrow> string"
  he_pieces_of :: "string \<Rightarrow> (string, u32) smap option"
  he_increase_of :: "string \<Rightarrow> (string, string) smap option"
  he_account_of :: "string \<Rightarrow> 'acc option"
  he_balance_text :: "string \<Rightarrow> string"
  he_is_valid_id :: "string \<Rightarrow> bool"
  he_payment_id :: "string \<Rightarrow> string"
  he_user_reply :: "string \<Rightarrow> string option"
  he_json :: "('o, 'a) reply_ops"
  he_addresses :: "'acc \<Rightarrow> string list"
  he_get_account :: "string \<Rightarrow> 'ad \<Rightarrow> 'acc option"
  he_has_account :: "string \<Rightarrow> 'ad \<Rightarrow> bool"
  he_save_account :: "'acc \<Rightarrow> 'ad \<Rightarrow> 'ad"

section \<open>Responses\<close>

record 'r response =
  rs_code :: int
  rs_message :: string
  rs_result :: "'r option"

abbreviation new_response :: "'r response" where
  "new_response \<equiv> \<lparr>rs_code = 0, rs_message = [], rs_result = None\<rparr>"

abbreviation failed_with :: "int \<Rightarrow> string \<Rightarrow> 'r response" where
  "failed_with code message \<equiv> \<lparr>rs_code = code, rs_message = message, rs_result = None\<rparr>"

record account_response =
  ar_warning :: string
  ar_account :: string

abbreviation warned :: "string \<Rightarrow> account_response" where
  "warned w \<equiv> \<lparr>ar_warning = w, ar_account = []\<rparr>"

record realtime_body =
  rb_payment :: "torrent_payment option"
  rb_account :: string
  rb_torrent :: "torrent option"

section \<open>Histories from MySQL\<close>

definition size_arg :: "u64 \<Rightarrow> string option \<Rightarrow> u64" where
  "size_arg dflt arg = (case arg of None \<Rightarrow> dflt | Some s \<Rightarrow> int_to_u64 (atoi (c_str s)))"

definition row_limit :: "string option \<Rightarrow> u64" where
  "row_limit s_limit = (let limit = size_arg 20 s_limit in if limit > 100 then 100 else limit)"

definition limit_clause :: "u64 \<Rightarrow> u64 \<Rightarrow> string" where
  "limit_clause offset limit =
     (if offset \<noteq> 0 then '' LIMIT '' @ fmt_lu offset @ '', '' @ fmt_lu limit else '' LIMIT '' @ fmt_lu limit)"

definition create_history_sql :: "string option \<Rightarrow> string option \<Rightarrow> string option \<Rightarrow> string" where
  "create_history_sql user_id s_offset s_limit =
     ''SELECT `id`, `transaction_id`, `time`, `create_block`, `last_modify`, `user_id`, `asset`,`balance`, `percent`, `pay_times`, `finish_times`, `is_create` from torrent '' @
     (case user_id of None \<Rightarrow> [] | Some u \<Rightarrow> '' where `user_id` = '' @ quoted u @ '' '') @
     '' order by create_block desc'' @ limit_clause (size_arg 0 s_offset) (row_limit s_limit)"

definition payment_history_sql :: "string option \<Rightarrow> string option \<Rightarrow> string option \<Rightarrow> string option \<Rightarrow> string" where
  "payment_history_sql user_id torrent_id s_offset s_limit =
     ''SELECT `payment_id`, `torrent_id`, `time`, `create_time`, `selttement_time`, `refund_time`, `user_id`,`asset`, `pieces`, `payed_pieces`, `sizes`, `percent`,`is_selttement`, `is_refund`, `sign_address`, `pay_pieces`, `author_amount`, `payment_amount`,`transfer_one_piece_amount`,`author_one_piece_amount`,`receiver_author_one_piece_amount`,`selttement_trx_id`,`refund_trx_id`,`receipt_trx_id`,`increase_trx` from torrent_payment '' @
     (case user_id of None \<Rightarrow> [] | Some u \<Rightarrow> '' where `user_id` = '' @ quoted u @ '' '') @
     (case torrent_id of
        None \<Rightarrow> []
      | Some t \<Rightarrow> (if user_id \<noteq> None then '' AND '' else '' where '') @ '' `torrent_id`  = '' @ quoted t) @
     '' order by create_time desc'' @ limit_clause (size_arg 0 s_offset) (row_limit s_limit)"

text \<open>A field that is read as a C string.\<close>

definition field :: "string option list \<Rightarrow> nat \<Rightarrow> string res" where
  "field row k = res_bind (vec_at row k) (\<lambda>f. res_bind (deref f) (\<lambda>s. Inr (c_str s)))"

definition read_torrent_row :: "('acc, 'ad, 'o, 'a) http_env \<Rightarrow> string option list \<Rightarrow> torrent \<Rightarrow> torrent res" where
  "read_torrent_row E row pb =
     res_bind (field row 0) (\<lambda>f0. res_bind (field row 1) (\<lambda>f1. res_bind (field row 2) (\<lambda>f2.
     res_bind (field row 3) (\<lambda>f3. res_bind (field row 4) (\<lambda>f4. res_bind (field row 5) (\<lambda>f5.
     res_bind (field row 6) (\<lambda>f6. res_bind (field row 7) (\<lambda>f7. res_bind (field row 8) (\<lambda>f8.
     res_bind (field row 9) (\<lambda>f9. res_bind (field row 10) (\<lambda>f10. res_bind (field row 11) (\<lambda>f11.
       Inr (pb\<lparr>t_id := f0, t_transaction_id := f1, t_time := he_strtod E f2, t_create_block := int_to_u64 (atoi f3),
               t_last_modify := int_to_u64 (atoi f4), t_user_id := f5, t_asset := atoi f6,
               t_balance := he_rstripzero E f7, t_percent := atoi f8, t_pay_times := atoi f9,
               t_finish_times := atoi f10, t_is_create := (atoi f11 \<noteq> 0)\<rparr>)))))))))))))"

text \<open>Entries are put into a protobuf map one by one, next to what it already holds.\<close>

definition put_entries :: "(string \<times> 'v) list \<Rightarrow> (string, 'v) smap \<Rightarrow> (string, 'v) smap" where
  "put_entries entries m = fold (\<lambda>(k, v) m. smap_put m k v) entries m"

definition read_payment_row :: "('acc, 'ad, 'o, 'a) http_env \<Rightarrow> string option list \<Rightarrow> torrent_payment \<Rightarrow> torrent_payment res" where
  "read_payment_row E row pb =
     res_bind (field row 0) (\<lambda>f0. res_bind (field row 1) (\<lambda>f1. res_bind (field row 2) (\<lambda>f2.
     res_bind (field row 3) (\<lambda>f3. res_bind (field row 4) (\<lambda>f4. res_bind (field row 5) (\<lambda>f5.
     res_bind (field row 6) (\<lambda>f6. res_bind (field row 7) (\<lambda>f7. res_bind (field row 8) (\<lambda>f8.
     res_bind (field row 9) (\<lambda>f9. res_bind (field row 10) (\<lambda>f10. res_bind (field row 11) (\<lambda>f11.
     res_bind (field row 12) (\<lambda>f12. res_bind (field row 13) (\<lambda>f13. res_bind (field row 14) (\<lambda>f14.
     res_bind (field row 15) (\<lambda>f15. res_bind (nothrow (he_pieces_of E f15)) (\<lambda>pieces.
     res_bind (field row 16) (\<lambda>f16. res_bind (field row 17) (\<lambda>f17. res_bind (field row 18) (\<lambda>f18.
     res_bind (field row 19) (\<lambda>f19. res_bind (field row 20) (\<lambda>f20. res_bind (field row 21) (\<lambda>f21.
     res_bind (field row 22) (\<lambda>f22. res_bind (field row 23) (\<lambda>f23. res_bind (field row 24) (\<lambda>f24.
     res_bind (nothrow (he_increase_of E f24)) (\<lambda>increases.
       Inr (pb\<lparr>p_payment_id := f0, p_torrent_id := f1, p_time := he_strtod E f2, p_create_time := int_to_u64 (atoi f3),
               p_selttement_time := int_to_u64 (atoi f4), p_refund_time := int_to_u64 (atoi f5), p_user_id := f6,
               p_asset := atoi f7, p_pieces := atoi f8, p_payed_pieces := atoi f9, p_sizes := int_to_u64 (atoi f10),
               p_percent := atoi f11, p_is_selttement := (atoi f12 \<noteq> 0), p_is_refund := (atoi f13 \<noteq> 0),
               p_sign_address := f14, p_pay_pieces := put_entries pieces (p_pay_pieces pb),
               p_author_amount := f16, p_payment_amount := f17, p_transfer_one_piece_amount := f18,
               p_author_one_piece_amount := f19, p_receiver_author_one_piece_amount := f20,
               p_selttement_trx_id := f21, p_refund_trx_id := f22, p_receipt_trx_id := f23,
               p_increase_trx := put_entries increases (p_increase_trx pb)\<rparr>))))))))))))))))))))))))))))"

text \<open>Every row goes into \<^verbatim>\<open>mutable_result()\<close>: the one result message, created by the first row.\<close>

fun rows_loop :: "('row \<Rightarrow> 'r \<Rightarrow> 'r res) \<Rightarrow> 'r \<Rightarrow> 'row list \<Rightarrow> 'r option \<Rightarrow> 'r option res" where
  "rows_loop read_row blank [] pb = Inr pb"
| "rows_loop read_row blank (row # rows) pb =
     res_bind (read_row row (case pb of None \<Rightarrow> blank | Some r \<Rightarrow> r)) (\<lambda>r. rows_loop read_row blank rows (Some r))"

definition history_reply ::
  "('q, 'c option) cq_ops \<Rightarrow> ('c, 'w) mysql_ops \<Rightarrow> ('c, 'w) result_ops \<Rightarrow> conn_params \<Rightarrow> string \<Rightarrow>
   (string option list \<Rightarrow> 'r \<Rightarrow> 'r res) \<Rightarrow> 'r \<Rightarrow> ('q, 'w) my_state \<Rightarrow> ('r response \<times> ('q, 'w) my_state) res" where
  "history_reply Q M R params sql read_row blank s =
     res_bind (get_mysql_conn Q M 0 params s) (\<lambda>(conn, mysql_flag, s1).
       case conn of
         None \<Rightarrow> Inr (new_response\<lparr>rs_code := 1\<rparr>, s1)
       | Some c \<Rightarrow>
           (case my_real_query M c sql (my_world s1) of (ret, w) \<Rightarrow>
              if ret \<noteq> 0 then Inr (new_response\<lparr>rs_code := 2\<rparr>, s1\<lparr>my_world := w\<rparr>)
              else
                case my_store_result R c w of (result, w1) \<Rightarrow>
                  res_bind (deref result) (\<lambda>rows.
                  res_bind (rows_loop read_row blank rows None) (\<lambda>pb.
                  res_bind (release_mysql_conn Q M (Some c) mysql_flag (s1\<lparr>my_world := my_free_result R c w1\<rparr>)) (\<lambda>s2.
                    Inr (\<lparr>rs_code = 0, rs_message = [], rs_result = pb\<rparr>, s2))))))"

definition get_create_history ::
  "('q, 'c option) cq_ops \<Rightarrow> ('c, 'w) mysql_ops \<Rightarrow> ('c, 'w) result_ops \<Rightarrow> ('acc, 'ad, 'o, 'a) http_env \<Rightarrow>
   string option \<Rightarrow> string option \<Rightarrow> string option \<Rightarrow> ('q, 'w) my_state \<Rightarrow> (torrent response \<times> ('q, 'w) my_state) res" where
  "get_create_history Q M R E user_id s_offset s_limit s =
     history_reply Q M R (he_params E) (create_history_sql user_id s_offset s_limit) (read_torrent_row E) empty_torrent s"

definition get_payment_history ::
  "('q, 'c option) cq_ops \<Rightarrow> ('c, 'w) mysql_ops \<Rightarrow> ('c, 'w) result_ops \<Rightarrow> ('acc, 'ad, 'o, 'a) http_env \<Rightarrow>
   string option \<Rightarrow> string option \<Rightarrow> string option \<Rightarrow> string option \<Rightarrow> ('q, 'w) my_state \<Rightarrow>
   (torrent_payment response \<times> ('q, 'w) my_state) res" where
  "get_payment_history Q M R E user_id torrent_id s_offset s_limit s =
     history_reply Q M R (he_params E) (payment_history_sql user_id torrent_id s_offset s_limit) (read_payment_row E)
       empty_payment s"

section \<open>Answers from the databases\<close>

text \<open>\<^verbatim>\<open>get_torrent\<close> dereferences the parameter without looking whether it is there.\<close>

definition reply_torrent :: "('acc, 'ad, 'o, 'a) http_env \<Rightarrow> torrent \<Rightarrow> torrent" where
  "reply_torrent E t =
     empty_torrent\<lparr>t_id := t_id t, t_time := t_time t, t_create_block := t_create_block t, t_last_modify := t_last_modify t,
       t_user_id := t_user_id t, t_asset := t_asset t, t_balance := he_balance_text E (t_balance t),
       t_percent := t_percent t, t_pay_times := t_pay_times t, t_finish_times := t_finish_times t,
       t_is_create := t_is_create t\<rparr>"

definition get_torrent_handler ::
  "'db leveldb_ops \<Rightarrow> pb_codec \<Rightarrow> ('acc, 'ad, 'o, 'a) http_env \<Rightarrow> string option \<Rightarrow> 'db torrent_database \<Rightarrow> torrent response res" where
  "get_torrent_handler L C E torrent_id db =
     res_bind (deref torrent_id) (\<lambda>ident.
     res_bind (get_torrent L C (c_str ident) db) (\<lambda>o'.
       case o' of
         None \<Rightarrow> Inr (failed_with 1 ''torrent_id do not exist'')
       | Some t \<Rightarrow> Inr \<lparr>rs_code = 0, rs_message = [], rs_result = Some (reply_torrent E t)\<rparr>))"

definition get_address :: "('acc, 'ad, 'o, 'a) http_env \<Rightarrow> 'acc \<Rightarrow> string \<Rightarrow> int \<times> string" where
  "get_address E acc out = (if length (he_addresses E acc) = 1 then (0, hd (he_addresses E acc)) else (1, out))"

definition reply_payment :: "torrent_payment \<Rightarrow> torrent_payment" where
  "reply_payment p =
     empty_payment\<lparr>p_payment_id := p_payment_id p, p_torrent_id := p_torrent_id p, p_time := p_time p,
       p_create_time := p_create_time p, p_selttement_time := p_selttement_time p, p_refund_time := p_refund_time p,
       p_user_id := p_user_id p, p_asset := p_asset p, p_pieces := p_pieces p, p_payed_pieces := p_payed_pieces p,
       p_sizes := p_sizes p, p_percent := p_percent p, p_is_selttement := p_is_selttement p, p_is_refund := p_is_refund p,
       p_sign_address := p_sign_address p, p_pay_pieces := put_entries (p_pay_pieces p) [],
       p_author_amount := p_author_amount p, p_payment_amount := p_payment_amount p,
       p_transfer_one_piece_amount := p_transfer_one_piece_amount p, p_author_one_piece_amount := p_author_one_piece_amount p,
       p_receiver_author_one_piece_amount := p_receiver_author_one_piece_amount p,
       p_selttement_trx_id := p_selttement_trx_id p, p_refund_trx_id := p_refund_trx_id p,
       p_receipt_trx_id := p_receipt_trx_id p, p_increase_trx := put_entries (p_increase_trx p) []\<rparr>"

definition HandleAccountResponse ::
  "('acc, 'ad, 'o, 'a) http_env \<Rightarrow> string option \<Rightarrow> 'ad \<Rightarrow> (account_response \<times> 'ad) res" where
  "HandleAccountResponse E reply ad =
     (case reply of
        None \<Rightarrow> Inr (warned ''failt to send userRequest'', ad)
      | Some body \<Rightarrow>
          let J = he_json E; o1 = jr_parse J (c_str body)
          in if jr_object J o1 ''error'' \<noteq> None then Inr (warned ''id not exists'', ad)
             else res_bind (asserted (jr_object J o1 ''result'')) (\<lambda>result.
               case jr_number J result ''total'' of
                 None \<Rightarrow> Inr (warned ''server error'', ad)
               | Some tot \<Rightarrow>
                   (case jr_array J result ''res'' of
                      None \<Rightarrow> Inr (warned ''id not exists'', ad)
                    | Some res' \<Rightarrow>
                        if tot \<noteq> 1 then Inr (warned ''id not exists'', ad)
                        else if jr_array_size J res' \<noteq> 1 then Inr (warned ''id not exists'', ad)
                        else
                          res_bind (asserted (jr_string_at J res' 0)) (\<lambda>r.
                          res_bind (nothrow (he_account_of E r)) (\<lambda>ao.
                            case get_address E ao [] of (rr, aa) \<Rightarrow>
                              if rr = 0 then Inr (\<lparr>ar_warning = [], ar_account = aa\<rparr>, he_save_account E ao ad)
                              else Inr (warned [], ad))))))"

definition HandleUserResponse ::
  "'db leveldb_ops \<Rightarrow> pb_codec \<Rightarrow> ('acc, 'ad, 'o, 'a) http_env \<Rightarrow> 'db torrent_database \<Rightarrow> torrent_payment \<Rightarrow>
   string option \<Rightarrow> 'ad \<Rightarrow> (realtime_body response \<times> 'ad) res" where
  "HandleUserResponse L C E db p reply ad =
     (case reply of
        None \<Rightarrow> Inr (failed_with 3 ''failt to send userRequest'', ad)
      | Some body \<Rightarrow>
          let J = he_json E; o1 = jr_parse J (c_str body)
          in if jr_object J o1 ''error'' \<noteq> None then Inr (failed_with 4 ''id not exists'', ad)
             else res_bind (asserted (jr_object J o1 ''result'')) (\<lambda>result.
               case jr_number J result ''total'' of
                 None \<Rightarrow> Inr (failed_with 5 ''server error'', ad)
               | Some tot \<Rightarrow>
                   (case jr_array J result ''res'' of
                      None \<Rightarrow> Inr (failed_with 6 ''id not exists'', ad)
                    | Some res' \<Rightarrow>
                        if tot \<noteq> 1 then Inr (failed_with 6 ''id not exists'', ad)
                        else if jr_array_size J res' \<noteq> 1 then Inr (failed_with 7 ''id not exists'', ad)
                        else
                          res_bind (asserted (jr_string_at J res' 0)) (\<lambda>r.
                          res_bind (nothrow (he_account_of E r)) (\<lambda>ao.
                            case get_address E ao [] of (rr, aa) \<Rightarrow>
                              if rr = 0 then
                                let ad' = he_save_account E ao ad
                                in res_bind (get_torrent L C (p_torrent_id p) db) (\<lambda>t.
                                   case t of
                                     None \<Rightarrow> Inr (failed_with 21 ''torrent id not exists'', ad')
                                   | Some torrent \<Rightarrow>
                                       Inr (\<lparr>rs_code = 0, rs_message = [],
                                             rs_result = Some \<lparr>rb_payment = Some (reply_payment p), rb_account = aa,
                                                               rb_torrent = Some (reply_torrent E torrent)\<rparr>\<rparr>, ad'))
                              else Inr (new_response, ad))))))"

text \<open>The call to the user node is joined before the handler returns.\<close>

definition get_account ::
  "('acc, 'ad, 'o, 'a) http_env \<Rightarrow> string option \<Rightarrow> 'ad \<Rightarrow> (account_response \<times> 'ad) res" where
  "get_account E user_id ad =
     (case user_id of
        None \<Rightarrow> Inr (warned ''user_id error'', ad)
      | Some u \<Rightarrow>
          if \<not> he_is_valid_id E (c_str u) then Inr (warned ''user_id error'', ad)
          else
            case he_get_account E (c_str u) ad of
              None \<Rightarrow> HandleAccountResponse E (he_user_reply E u) ad
            | Some o' \<Rightarrow>
                (case get_address E o' [] of (rr, aa) \<Rightarrow>
                   if rr = 0 then Inr (\<lparr>ar_warning = [], ar_account = aa\<rparr>, ad)
                   else Inr (warned ''user id do not exist'', ad)))"

definition get_torrent_payment_handler ::
  "'db leveldb_ops \<Rightarrow> pb_codec \<Rightarrow> ('acc, 'ad, 'o, 'a) http_env \<Rightarrow> string option \<Rightarrow> 'db torrent_database \<Rightarrow> 'ad \<Rightarrow>
   (realtime_body response \<times> 'ad) res" where
  "get_torrent_payment_handler L C E payment_hash db ad =
     (case payment_hash of
        None \<Rightarrow> Inr (failed_with 1 ''payment_hash is not valid'', ad)
      | Some hash \<Rightarrow>
          if length (c_str hash) \<noteq> 40 then Inr (failed_with 1 ''payment_hash is not valid'', ad)
          else res_bind (get_torrent_payment L C (he_payment_id E hash) db) (\<lambda>o'.
            case o' of
              None \<Rightarrow> Inr (failed_with 2 ''payment_hash do not exist'', ad)
            | Some p \<Rightarrow>
                if \<not> he_has_account E (p_user_id p) ad then
                  HandleUserResponse L C E db p (he_user_reply E (p_user_id p)) ad
                else
                  (case he_get_account E (p_user_id p) ad of
                     None \<Rightarrow> Inr (failed_with 10 ''user do not exist'', ad)
                   | Some user \<Rightarrow>
                       res_bind (get_torrent L C (p_torrent_id p) db) (\<lambda>t.
                         case t of
                           None \<Rightarrow> Inr (failed_with 11 ''user do not exist'', ad)
                         | Some torrent \<Rightarrow>
                             (case get_address E user [] of (rr, aa) \<Rightarrow>
                                if rr \<noteq> 0 then
                                  Inr (\<lparr>rs_code = 11, rs_message = ''user_id error'',
                                        rs_result = Some \<lparr>rb_payment = Some empty_payment, rb_account = [], rb_torrent = None\<rparr>\<rparr>, ad)
                                else
                                  Inr (\<lparr>rs_code = 0, rs_message = [],
                                        rs_result = Some \<lparr>rb_payment = Some (reply_payment p), rb_account = aa,
                                                          rb_torrent = Some (reply_torrent E torrent)\<rparr>\<rparr>, ad))))))"

section \<open>What the handlers answer\<close>

text \<open>Putting the entries of a sorted map into an empty one copies it.\<close>

lemma smap_put_last: "(\<And>x. x \<in> fst ` set m \<Longrightarrow> x < k) \<Longrightarrow> smap_put m k v = m @ [(k, v)]"
proof (induction m k v rule: smap_put.induct)
  case (2 k' v' m k v)
  then have "k' < k" by simp
  then show ?case using 2 by (auto dest: order.asym)
qed simp

lemma put_entries_append: "smap_ok (acc @ m) \<Longrightarrow> put_entries m acc = acc @ m"
proof (induction m arbitrary: acc)
  case (Cons e m)
  obtain k v where e: "e = (k, v)" by (cases e)
  have "smap_put acc k v = acc @ [(k, v)]"
    using Cons.prems by (intro smap_put_last) (auto simp: e smap_ok_def sorted_wrt_append)
  then show ?case using Cons.IH [of "acc @ [e]"] Cons.prems by (simp add: put_entries_def e)
qed (simp add: put_entries_def)

lemma put_entries_copy [simp]: "smap_ok m \<Longrightarrow> put_entries m [] = m"
  using put_entries_append [of "[]" m] by simp

lemma reply_payment_same: "smap_ok (p_pay_pieces p) \<Longrightarrow> smap_ok (p_increase_trx p) \<Longrightarrow> reply_payment p = p"
  by (simp add: reply_payment_def empty_payment_def)

lemma reply_torrent_same:
  "reply_torrent E t = t\<lparr>t_transaction_id := [], t_balance := he_balance_text E (t_balance t)\<rparr>"
  by (simp add: reply_torrent_def empty_torrent_def)

lemma smap_find_put_fun: "smap_find (smap_put m k v) = (smap_find m)(k \<mapsto> v)"
  by (simp add: fun_eq_iff)

lemma smap_find_fun: "smap_find m = map_of m"
  by (simp add: fun_eq_iff smap_find_map_of)

lemma put_entries_find: "smap_find (put_entries es m) = smap_find m ++ map_of (rev es)"
proof (induction es arbitrary: m)
  case (Cons e es)
  obtain k v where e: "e = (k, v)" by (cases e)
  have step: "put_entries (e # es) m = put_entries es (smap_put m k v)" by (simp add: put_entries_def e)
  show ?case unfolding step Cons.IH smap_find_put_fun by (simp add: e)
qed (simp add: put_entries_def)

text \<open>The answer of \<^verbatim>\<open>get_torrent_payment\<close> when it carries a payment and a torrent.\<close>

lemma HandleUserResponse_success:
  assumes "HandleUserResponse L C E db p reply ad = Inr (resp, ad')" "rs_code resp = 0" "rs_result resp = Some b"
  obtains t aa where "get_torrent L C (p_torrent_id p) db = Inr (Some t)" "rb_payment b = Some (reply_payment p)"
    "rb_torrent b = Some (reply_torrent E t)" "rb_account b = aa"
  using assms
  by (auto simp: HandleUserResponse_def Let_def split: option.split_asm if_split_asm prod.split_asm elim!: res_bind_InrE)

text \<open>
C33: When \<^verbatim>\<open>get_torrent_payment\<close> answers with a result and code 0, the payment in the answer is the stored
  payment in every field, and the torrent is the stored torrent of that payment, less its transaction id and
  with its balance printed again, whether the account came from the database or from the user node.
\<close>
theorem payment_reply_matches_store:
  assumes "get_torrent_payment_handler L C E (Some hash) db ad = Inr (resp, ad')" "rs_code resp = 0" "rs_result resp = Some b"
    and "get_torrent_payment L C (he_payment_id E hash) db = Inr (Some p)" "smap_ok (p_pay_pieces p)" "smap_ok (p_increase_trx p)"
  shows "rb_payment b = Some p \<and>
    (\<exists>t. get_torrent L C (p_torrent_id p) db = Inr (Some t) \<and>
       rb_torrent b = Some (t\<lparr>t_transaction_id := [], t_balance := he_balance_text E (t_balance t)\<rparr>))"
proof (cases "he_has_account E (p_user_id p) ad")
  case False
  then have "HandleUserResponse L C E db p (he_user_reply E (p_user_id p)) ad = Inr (resp, ad')"
    using assms(1-4) by (auto simp: get_torrent_payment_handler_def split: if_split_asm)
  from HandleUserResponse_success [OF this assms(2, 3)] show ?thesis
    using reply_payment_same [OF assms(5, 6)] by (metis reply_torrent_same)
next
  case True
  then obtain t aa where "get_torrent L C (p_torrent_id p) db = Inr (Some t)"
    "b = \<lparr>rb_payment = Some (reply_payment p), rb_account = aa, rb_torrent = Some (reply_torrent E t)\<rparr>"
    using assms(1-4)
    by (auto simp: get_torrent_payment_handler_def split: option.split_asm if_split_asm prod.split_asm elim!: res_bind_InrE)
  then show ?thesis using reply_payment_same [OF assms(5, 6)] by (auto simp: reply_torrent_same)
qed

text \<open>
An answer of \<^verbatim>\<open>get_torrent_payment\<close> without a result has a code other than 0, except in one case: the
  account was fetched from the user node and does not have exactly one address; then the answer
  claims success, with code 0 and no message, and carries nothing.
\<close>
theorem empty_success_iff_address_missing:
  assumes "get_torrent_payment_handler L C E (Some hash) db ad = Inr (resp, ad')"
    and "get_torrent_payment L C (he_payment_id E hash) db = Inr (Some p)" "length (c_str hash) = 40"
  shows "rs_result resp = None \<and> rs_code resp = 0 \<longleftrightarrow>
    \<not> he_has_account E (p_user_id p) ad \<and>
    (\<exists>body result res' r ao.
       he_user_reply E (p_user_id p) = Some body \<and>
       jr_object (he_json E) (jr_parse (he_json E) (c_str body)) ''error'' = None \<and>
       jr_object (he_json E) (jr_parse (he_json E) (c_str body)) ''result'' = Some result \<and>
       jr_number (he_json E) result ''total'' = Some 1 \<and> jr_array (he_json E) result ''res'' = Some res' \<and>
       jr_array_size (he_json E) res' = 1 \<and> jr_string_at (he_json E) res' 0 = Some r \<and>
       he_account_of E r = Some ao \<and> length (he_addresses E ao) \<noteq> 1)"
proof (cases "he_has_account E (p_user_id p) ad")
  case True
  then show ?thesis
    using assms by (auto simp: get_torrent_payment_handler_def split: option.split_asm if_split_asm prod.split_asm elim!: res_bind_InrE)
next
  case False
  then have r: "HandleUserResponse L C E db p (he_user_reply E (p_user_id p)) ad = Inr (resp, ad')"
    using assms by (auto simp: get_torrent_payment_handler_def split: if_split_asm)
  then show ?thesis
    using False
    by (auto simp: HandleUserResponse_def Let_def asserted_def get_address_def nothrow_Inr_iff
        split: option.split_asm if_split_asm prod.split_asm elim!: res_bind_InrE)
qed

section \<open>Histories\<close>

lemma read_torrent_row_fresh: "read_torrent_row E row pb = read_torrent_row E row empty_torrent"
  by (cases pb) (simp add: read_torrent_row_def empty_torrent_def)

lemma torrent_rows_last:
  assumes "rows_loop (read_torrent_row E) empty_torrent rows pb = Inr r" "rows \<noteq> []"
  shows "\<exists>t. read_torrent_row E (last rows) empty_torrent = Inr t \<and> r = Some t"
  using assms
proof (induction rows arbitrary: pb)
  case (Cons row rows)
  from Cons.prems(1) obtain t where t: "read_torrent_row E row (case pb of None \<Rightarrow> empty_torrent | Some r \<Rightarrow> r) = Inr t"
    "rows_loop (read_torrent_row E) empty_torrent rows (Some t) = Inr r" by (auto elim!: res_bind_InrE)
  have "read_torrent_row E row empty_torrent = Inr t" using t(1) read_torrent_row_fresh by metis
  then show ?case using t(2) Cons.IH [OF t(2)] by (cases "rows = []") simp_all
qed simp

lemma history_reply_result:
  assumes "get_mysql_conn Q M 0 params s = Inr (Some c, flag, s1)" "my_real_query M c sql (my_world s1) = (0, w)"
    and "my_store_result R c w = (Some rows, w1)" "history_reply Q M R params sql read_row blank s = Inr (resp, s')"
  shows "rs_code resp = 0 \<and> rows_loop read_row blank rows None = Inr (rs_result resp)"
  using assms by (auto simp: history_reply_def elim!: res_bind_InrE)

text \<open>Of the rows that MySQL returned, the answer of \<^verbatim>\<open>get_create_history\<close> holds only the last one: every row is
  read into the same message and replaces the one before.
\<close>
theorem create_history_reports_last_row:
  assumes "get_mysql_conn Q M 0 (he_params E) s = Inr (Some c, flag, s1)"
    and "my_real_query M c (create_history_sql user_id s_offset s_limit) (my_world s1) = (0, w)"
    and "my_store_result R c w = (Some rows, w1)"
    and "get_create_history Q M R E user_id s_offset s_limit s = Inr (resp, s')"
  shows "rs_code resp = 0 \<and>
    (if rows = [] then rs_result resp = None
     else \<exists>t. read_torrent_row E (last rows) empty_torrent = Inr t \<and> rs_result resp = Some t)"
proof -
  from history_reply_result [OF assms(1-3) assms(4) [unfolded get_create_history_def]]
  have r: "rs_code resp = 0" "rows_loop (read_torrent_row E) empty_torrent rows None = Inr (rs_result resp)" by auto
  show ?thesis
  proof (cases "rows = []")
    case False
    then show ?thesis using torrent_rows_last [OF r(2)] r(1) by simp
  qed (use r in simp)
qed

text \<open>The maps of a payment row are added to what the message holds; every other field is replaced.\<close>

lemma read_payment_row_cases:
  assumes "read_payment_row E row pb = Inr q"
  obtains es fs q0 where "read_payment_row E row empty_payment = Inr q0"
    "q = q0\<lparr>p_pay_pieces := put_entries es (p_pay_pieces pb), p_increase_trx := put_entries fs (p_increase_trx pb)\<rparr>"
    "p_pay_pieces q0 = put_entries es []" "p_increase_trx q0 = put_entries fs []"
  using assms
  by (cases pb) (auto simp: read_payment_row_def empty_payment_def elim!: res_bind_InrE)

lemma smap_ok_put_entries: "smap_ok m \<Longrightarrow> smap_ok (put_entries es m)"
  by (induction es arbitrary: m) (auto simp: put_entries_def)

lemma map_of_rev_put_entries: "map_of (rev (put_entries es [])) = map_of (rev es)"
proof -
  have d: "distinct (map fst (put_entries es []))" by (intro smap_ok_distinct smap_ok_put_entries) simp
  then have "map_of (rev (put_entries es [])) = map_of (put_entries es [])"
    by (subst map_of_inject_set) (auto simp flip: rev_map)
  also have "\<dots> = map_of (rev es)"
    using put_entries_find [of es "[]"] by (simp add: smap_find_fun)
  finally show ?thesis .
qed

definition without_maps :: "torrent_payment \<Rightarrow> torrent_payment" where
  "without_maps p = p\<lparr>p_pay_pieces := [], p_increase_trx := []\<rparr>"

lemma payment_rows_merge:
  assumes "rows_loop (read_payment_row E) empty_payment rows pb = Inr r" "rows \<noteq> []"
  shows "\<exists>ps q. r = Some q \<and> list_all2 (\<lambda>row p. read_payment_row E row empty_payment = Inr p) rows ps \<and>
    without_maps q = without_maps (last ps) \<and>
    smap_find (p_pay_pieces q) =
      smap_find (p_pay_pieces (case_option empty_payment id pb)) ++ map_of (rev (concat (map p_pay_pieces ps))) \<and>
    smap_find (p_increase_trx q) =
      smap_find (p_increase_trx (case_option empty_payment id pb)) ++ map_of (rev (concat (map p_increase_trx ps)))"
  using assms
proof (induction rows arbitrary: pb)
  case (Cons row rows)
  let ?pb = "case_option empty_payment id pb"
  from Cons.prems(1) obtain q1 where q1: "read_payment_row E row ?pb = Inr q1"
    "rows_loop (read_payment_row E) empty_payment rows (Some q1) = Inr r"
    by (cases pb) (auto elim!: res_bind_InrE)
  obtain es fs q0 where q0: "read_payment_row E row empty_payment = Inr q0"
    "q1 = q0\<lparr>p_pay_pieces := put_entries es (p_pay_pieces ?pb), p_increase_trx := put_entries fs (p_increase_trx ?pb)\<rparr>"
    "p_pay_pieces q0 = put_entries es []" "p_increase_trx q0 = put_entries fs []"
    using q1(1) by (rule read_payment_row_cases)
  show ?case
  proof (cases "rows = []")
    case True
    then have "r = Some q1" using q1(2) by simp
    moreover have "without_maps q1 = without_maps q0" by (simp add: q0(2) without_maps_def)
    ultimately show ?thesis
      using True q0 by (intro exI [of _ "[q0]"] exI [of _ q1]) (simp add: put_entries_find map_of_rev_put_entries)
  next
    case False
    obtain ps q where ps: "r = Some q" "list_all2 (\<lambda>row p. read_payment_row E row empty_payment = Inr p) rows ps"
      "without_maps q = without_maps (last ps)"
      "smap_find (p_pay_pieces q) = smap_find (p_pay_pieces q1) ++ map_of (rev (concat (map p_pay_pieces ps)))"
      "smap_find (p_increase_trx q) = smap_find (p_increase_trx q1) ++ map_of (rev (concat (map p_increase_trx ps)))"
      using Cons.IH [OF q1(2) False] by (simp only: option.case id_apply) blast
    have ne: "ps \<noteq> []" using ps(2) False by auto
    have q: "smap_find (p_pay_pieces q1) = smap_find (p_pay_pieces ?pb) ++ map_of (rev (p_pay_pieces q0))"
      "smap_find (p_increase_trx q1) = smap_find (p_increase_trx ?pb) ++ map_of (rev (p_increase_trx q0))"
      by (simp_all add: q0(2-4) put_entries_find map_of_rev_put_entries)
    show ?thesis
      using ps q0(1) ne unfolding q by (intro exI [of _ "q0 # ps"] exI [of _ q]) (simp add: map_add_assoc)
  qed
qed simp

text \<open>
The answer of \<^verbatim>\<open>get_payment_history\<close> holds the scalar fields of the last row, but the pieces and the
  increases of all rows together: an entry of an earlier payment stays unless a later row has the same key.
\<close>
theorem payment_history_merges_maps:
  assumes "get_mysql_conn Q M 0 (he_params E) s = Inr (Some c, flag, s1)"
    and "my_real_query M c (payment_history_sql user_id torrent_id s_offset s_limit) (my_world s1) = (0, w)"
    and "my_store_result R c w = (Some rows, w1)" "rows \<noteq> []"
    and "get_payment_history Q M R E user_id torrent_id s_offset s_limit s = Inr (resp, s')"
  shows "\<exists>ps q. rs_code resp = 0 \<and> rs_result resp = Some q \<and>
    list_all2 (\<lambda>row p. read_payment_row E row empty_payment = Inr p) rows ps \<and> without_maps q = without_maps (last ps) \<and>
    smap_find (p_pay_pieces q) = map_of (rev (concat (map p_pay_pieces ps))) \<and>
    smap_find (p_increase_trx q) = map_of (rev (concat (map p_increase_trx ps)))"
proof -
  from history_reply_result [OF assms(1-3) assms(5) [unfolded get_payment_history_def]]
  have r: "rs_code resp = 0" "rows_loop (read_payment_row E) empty_payment rows None = Inr (rs_result resp)" by auto
  have "smap_find (p_pay_pieces empty_payment) = Map.empty" "smap_find (p_increase_trx empty_payment) = Map.empty"
    by (simp_all add: empty_payment_def fun_eq_iff)
  then show ?thesis using payment_rows_merge [OF r(2) assms(4)] r(1) by auto
qed

section \<open>Connections\<close>

text \<open>Reading results, over a world that records the calls of the client library.\<close>

definition traced_results :: "('c, 'w) result_ops \<Rightarrow> ('c, 'w \<times> 'c my_call list) result_ops" where
  "traced_results R =
     \<lparr>my_store_result = (\<lambda>c (w, cs). case my_store_result R c w of (r, w') \<Rightarrow> (r, w', cs)),
      my_free_result = (\<lambda>c (w, cs). (my_free_result R c w, cs))\<rparr>"

lemma traced_results_calls:
  "my_store_result (traced_results R) c w = (r, w') \<Longrightarrow> snd w' = snd w" "snd (my_free_result (traced_results R) c w) = snd w"
  by (auto simp: traced_results_def split: prod.splits)

text \<open>
  The balance of a handler: the connections that were pooled before and those that it created are those that are
  pooled after it, those that it closed, and those that are lost.
\<close>

definition balanced :: "'c option multiset \<Rightarrow> 'c my_call list \<Rightarrow> 'c option multiset \<Rightarrow> 'c option multiset \<Rightarrow> bool" where
  "balanced before cs after lost \<longleftrightarrow>
     before + image_mset Some (mset (created cs)) = after + image_mset Some (mset (closed cs)) + lost"

text \<open>Getting and releasing a connection, with the calls that are made.\<close>

lemma get_mysql_conn_balance:
  assumes pool: "conn_pool Q ok items" and ok: "conn_pool.pool_ok ok items s"
    and got: "get_mysql_conn Q (traced M) 0 p s = Inr (conn, flag, s1)"
  shows "\<exists>cs. snd (my_world s1) = snd (my_world s) @ cs \<and> conn_pool.pool_ok ok items s1 \<and>
     (case conn of None \<Rightarrow> balanced (items (my_pool s)) cs (items (my_pool s1)) {#}
      | Some c \<Rightarrow> (flag = 0 \<or> flag = 1) \<and> balanced (items (my_pool s)) cs (items (my_pool s1)) {#Some c#})"
proof -
  from traced.get_mysql_conn_calls [OF got] obtain cs where cs: "snd (my_world s1) = snd (my_world s) @ cs"
    "case conn of None \<Rightarrow> flag = 0 \<and> closed cs = created cs | Some c \<Rightarrow> flag = 0 \<and> cs = [] \<or> flag = 1 \<and> created cs = [c] \<and> closed cs = []"
    by blast
  have r: "conn_pool.pool_ok ok items s1 \<and>
     ((\<exists>c. conn = Some c \<and> flag = 0 \<and> items (my_pool s) = add_mset (Some c) (items (my_pool s1)) \<and> my_world s1 = my_world s) \<or>
      (items (my_pool s) = {#} \<and> items (my_pool s1) = {#} \<and> flag = (if conn = None then 0 else 1)))"
    using conn_pool.get_mysql_conn_result [OF pool ok, of "traced M" 0 p] got by auto
  show ?thesis using cs r by (intro exI [of _ cs]) (auto simp: balanced_def split: option.splits)
qed

lemma release_mysql_conn_balance:
  assumes pool: "conn_pool Q ok items" and ok: "conn_pool.pool_ok ok items s" and flag: "flag = 0 \<or> flag = 1"
    and rel: "release_mysql_conn Q (traced M) (Some c) flag s = Inr s'"
  shows "\<exists>cs lost. snd (my_world s') = snd (my_world s) @ cs \<and> balanced (add_mset (Some c) (items (my_pool s))) cs (items (my_pool s')) lost \<and>
     (lost = {#} \<or> lost = {#Some c#} \<and> (\<exists>q'. cq_enqueue Q (Some c) (my_pool s) = Inr (False, q')))"
proof (cases "flag = 0")
  case True
  obtain b q' where e: "cq_enqueue Q (Some c) (my_pool s) = Inr (b, q')"
    "items q' = (if b then add_mset (Some c) (items (my_pool s)) else items (my_pool s))"
    using concurrent_bag.enqueue [of Q ok items "my_pool s" "Some c"] pool ok
    by (auto simp: conn_pool_def conn_pool.pool_ok_def [OF pool])
  then have s': "s' = s\<lparr>my_pool := q'\<rparr>" using rel True by (simp add: release_mysql_conn_def)
  show ?thesis
    by (rule exI [of _ "[]"], rule exI [of _ "if b then {#} else {#Some c#}"]) (use e s' in \<open>auto simp: balanced_def\<close>)
next
  case False
  have "s' = s\<lparr>my_world := my_close (traced M) c (my_world s)\<rparr>" using rel flag False by (simp add: release_mysql_conn_def)
  then show ?thesis by (intro exI [of _ "[CClose c]"] exI [of _ "{#}"]) (simp add: balanced_def traced.close_call)
qed

lemma balanced_then:
  assumes "balanced a cs b {#Some c#}" "created cs1 = []" "closed cs1 = []" "balanced (add_mset (Some c) b) cs2 d l"
  shows "balanced a (cs @ cs1 @ cs2) d l"
proof -
  let ?new = "\<lambda>cs. image_mset Some (mset (created cs))" and ?old = "\<lambda>cs. image_mset Some (mset (closed cs))"
  have "a + (?new cs + ?new cs2) = (b + ?old cs + {#Some c#}) + ?new cs2"
    using assms(1) unfolding balanced_def by (simp only: add.assoc [symmetric])
  also have "\<dots> = (add_mset (Some c) b + ?new cs2) + ?old cs" by simp
  also have "\<dots> = d + (?old cs + ?old cs2) + l" using assms(4) unfolding balanced_def by (simp only: ac_simps)
  finally show ?thesis unfolding balanced_def using assms(2,3) by simp
qed

lemma history_reply_balance:
  assumes pool: "conn_pool Q ok items" and ok: "conn_pool.pool_ok ok items s"
    and r: "history_reply Q (traced M) (traced_results R) params sql read_row blank s = Inr (resp, s')"
  shows "\<exists>cs lost. snd (my_world s') = snd (my_world s) @ cs \<and> balanced (items (my_pool s)) cs (items (my_pool s')) lost \<and>
     (rs_code resp = 0 \<and> (lost = {#} \<or> (\<exists>c q q'. lost = {#Some c#} \<and> cq_enqueue Q (Some c) q = Inr (False, q'))) \<or>
      rs_code resp = 1 \<and> lost = {#} \<or>
      rs_code resp = 2 \<and> (\<exists>c. lost = {#Some c#}))"
proof -
  obtain conn flag s1 where g: "get_mysql_conn Q (traced M) 0 params s = Inr (conn, flag, s1)"
    using r by (auto simp: history_reply_def elim!: res_bind_InrE)
  from get_mysql_conn_balance [OF pool ok g] obtain cs1 where cs1: "snd (my_world s1) = snd (my_world s) @ cs1"
    "conn_pool.pool_ok ok items s1"
    "case conn of None \<Rightarrow> balanced (items (my_pool s)) cs1 (items (my_pool s1)) {#}
      | Some c \<Rightarrow> (flag = 0 \<or> flag = 1) \<and> balanced (items (my_pool s)) cs1 (items (my_pool s1)) {#Some c#}" by blast
  show ?thesis
  proof (cases conn)
    case None
    then show ?thesis using r g cs1 by (auto simp: history_reply_def)
  next
    case (Some c)
    obtain ret w where q: "my_real_query (traced M) c sql (my_world s1) = (ret, w)" by (cases "my_real_query (traced M) c sql (my_world s1)")
    obtain cs2 where cs2: "snd w = snd (my_world s1) @ cs2" "created cs2 = []" "closed cs2 = []"
      using traced.query_call [OF q] by auto
    show ?thesis
    proof (cases "ret = 0")
      case False
      then have "rs_code resp = 2" "s' = s1\<lparr>my_world := w\<rparr>" using r g Some q by (auto simp: history_reply_def)
      moreover have "balanced (items (my_pool s)) (cs1 @ cs2) (items (my_pool s1)) {#Some c#}" using cs1(3) cs2 Some by (simp add: balanced_def)
      ultimately show ?thesis using cs1(1) cs2(1) by (intro exI [of _ "cs1 @ cs2"] exI [of _ "{#Some c#}"]) auto
    next
      case True
      obtain res w0 where w0: "my_store_result (traced_results R) c w = (res, w0)" by (cases "my_store_result (traced_results R) c w")
      define w1 where "w1 = my_free_result (traced_results R) c w0"
      have w1: "snd w1 = snd w" "release_mysql_conn Q (traced M) (Some c) flag (s1\<lparr>my_world := w1\<rparr>) = Inr s'" "rs_code resp = 0"
        using traced_results_calls(1) [OF w0] r g Some q True w0
        by (auto simp: w1_def history_reply_def traced_results_calls(2) elim!: res_bind_InrE)
      have ok1: "conn_pool.pool_ok ok items (s1\<lparr>my_world := w1\<rparr>)" using cs1(2) by (simp add: conn_pool.pool_ok_def [OF pool])
      have f: "flag = 0 \<or> flag = 1" and b: "balanced (items (my_pool s)) cs1 (items (my_pool s1)) {#Some c#}" using cs1(3) Some by auto
      from release_mysql_conn_balance [OF pool ok1 f w1(2)] obtain cs3 lost where cs3: "snd (my_world s') = snd w1 @ cs3"
        "balanced (add_mset (Some c) (items (my_pool s1))) cs3 (items (my_pool s')) lost"
        "lost = {#} \<or> lost = {#Some c#} \<and> (\<exists>q'. cq_enqueue Q (Some c) (my_pool s1) = Inr (False, q'))" by auto
      have "snd (my_world s') = snd (my_world s) @ cs1 @ cs2 @ cs3" using cs3(1) w1(1) cs2(1) cs1(1) by simp
      with balanced_then [OF b cs2(2,3) cs3(2)] cs3(3) w1(3) show ?thesis by blast
    qed
  qed
qed

section \<open>Examples\<close>

definition demo_http :: "(string list, bool, unit, unit) http_env" where
  "demo_http =
     \<lparr>he_params = \<lparr>cp_host = [], cp_user = [], cp_pass = [], cp_name = [], cp_port = 3306, cp_charset = []\<rparr>,
      he_strtod = (\<lambda>_. 0), he_rstripzero = (\<lambda>s. s), he_pieces_of = (\<lambda>s. Some [(s, 1)]), he_increase_of = (\<lambda>_. Some []),
      he_account_of = (\<lambda>_. Some [''a'', ''b'']), he_balance_text = (\<lambda>s. s), he_is_valid_id = (\<lambda>_. True),
      he_payment_id = (\<lambda>s. s), he_user_reply = (\<lambda>_. Some []),
      he_json = \<lparr>jr_parse = (\<lambda>_. ()), jr_object = (\<lambda>_ k. if k = ''result'' then Some () else None),
                 jr_number = (\<lambda>_ _. Some 1), jr_array = (\<lambda>_ _. Some ()), jr_array_size = (\<lambda>_. 1), jr_string_at = (\<lambda>_ _. Some [])\<rparr>,
      he_addresses = (\<lambda>a. a), he_get_account = (\<lambda>_ known. if known then Some [''addr''] else None),
      he_has_account = (\<lambda>_ known. known), he_save_account = (\<lambda>_ _. True)\<rparr>"

definition demo_hash :: string where
  "demo_hash = replicate 40 (CHR ''f'')"

lemma demo_hash_length: "length (c_str demo_hash) = 40"
proof -
  have "no_nul demo_hash" by (simp add: demo_hash_def no_nul_def list_all_iff)
  then show ?thesis by (simp add: demo_hash_def)
qed

abbreviation demo_payment :: torrent_payment where
  "demo_payment \<equiv> empty_payment\<lparr>p_torrent_id := ''t'', p_pieces := 3\<rparr>"

definition demo_store :: "(string \<Rightarrow> string option) torrent_database" where
  "demo_store =
     \<lparr>td_is_open = True,
      td_db = DbLive [demo_hash \<mapsto> enc_payment num_codec demo_payment, ''t'' \<mapsto> enc_torrent num_codec empty_torrent],
      td_sync = True\<rparr>"

lemma demo_lookups:
  "get_torrent_payment map_leveldb num_codec demo_hash demo_store = Inr (Some demo_payment)"
  "get_torrent map_leveldb num_codec ''t'' demo_store = Inr (Some empty_torrent)"
proof -
  have ne: "demo_hash \<noteq> ''t''" by (simp add: demo_hash_def numeral_eq_Suc)
  show "get_torrent_payment map_leveldb num_codec demo_hash demo_store = Inr (Some demo_payment)"
    using ne nc.dec_enc_payment by (simp add: get_torrent_payment_def demo_store_def map_leveldb_def db_deref_def)
  show "get_torrent map_leveldb num_codec ''t'' demo_store = Inr (Some empty_torrent)"
    using nc.dec_enc_torrent by (simp add: get_torrent_def demo_store_def map_leveldb_def db_deref_def)
qed

theorem payment_reply_matches_store_witness:
  "\<exists>resp b. get_torrent_payment_handler map_leveldb num_codec demo_http (Some demo_hash) demo_store True = Inr (resp, True) \<and>
     rs_result resp = Some b \<and> rb_payment b = Some demo_payment"
proof -
  have id: "he_payment_id demo_http demo_hash = demo_hash" by (simp add: demo_http_def)
  obtain resp b where r: "get_torrent_payment_handler map_leveldb num_codec demo_http (Some demo_hash) demo_store True = Inr (resp, True)"
    "rs_code resp = 0" "rs_result resp = Some b"
    by (simp add: get_torrent_payment_handler_def id demo_lookups demo_hash_length)
      (simp add: demo_http_def get_address_def demo_lookups(2) [simplified])
  have "smap_ok (p_pay_pieces demo_payment)" "smap_ok (p_increase_trx demo_payment)" by (simp_all add: empty_payment_def)
  from payment_reply_matches_store [OF r _ this] demo_lookups(1) id r show ?thesis by auto
qed

theorem empty_success_iff_address_missing_witness:
  "\<exists>resp. get_torrent_payment_handler map_leveldb num_codec demo_http (Some demo_hash) demo_store False = Inr (resp, False) \<and>
     rs_result resp = None \<and> rs_code resp = 0"
proof -
  have id: "he_payment_id demo_http demo_hash = demo_hash" by (simp add: demo_http_def)
  obtain resp where r: "get_torrent_payment_handler map_leveldb num_codec demo_http (Some demo_hash) demo_store False = Inr (resp, False)"
    by (simp add: get_torrent_payment_handler_def id demo_lookups demo_hash_length)
      (simp add: demo_http_def HandleUserResponse_def get_address_def asserted_def)
  have "get_torrent_payment map_leveldb num_codec (he_payment_id demo_http demo_hash) demo_store = Inr (Some demo_payment)"
    using demo_lookups(1) id by simp
  from empty_success_iff_address_missing [OF r this demo_hash_length] r show ?thesis
    by (auto simp: demo_http_def)
qed

definition demo_result :: "string option list list \<Rightarrow> (nat, demo_world) result_ops" where
  "demo_result rows = \<lparr>my_store_result = (\<lambda>_ w. (Some rows, w)), my_free_result = (\<lambda>_ w. w)\<rparr>"

abbreviation demo_state :: "nat \<Rightarrow> (nat option list, demo_world) my_state" where
  "demo_state fails \<equiv> \<lparr>my_pool = [Some 7], my_world = ([], fails)\<rparr>"

lemma demo_conn: "get_mysql_conn (list_bag 4) demo_mysql 0 p (demo_state n) = Inr (Some 7, 0, \<lparr>my_pool = [], my_world = ([], n)\<rparr>)"
  by (simp add: get_mysql_conn_def list_bag_def)

definition demo_rows :: "string option list list" where
  "demo_rows = [replicate 25 (Some ''1''), replicate 25 (Some ''2'')]"

lemma field_replicate: "k < n \<Longrightarrow> field (replicate n (Some s)) k = Inr (c_str s)"
  by (simp add: field_def vec_at_def)

lemma demo_query: "my_real_query demo_mysql 7 sql ([], 0) = (0, ([sql], 0))"
  by (simp add: demo_mysql_def)

lemma demo_release: "release_mysql_conn (list_bag 4) demo_mysql (Some 7) 0 \<lparr>my_pool = [], my_world = w\<rparr> = Inr \<lparr>my_pool = [Some 7], my_world = w\<rparr>"
  by (simp add: release_mysql_conn_def list_bag_def)

theorem create_history_reports_last_row_witness:
  "\<exists>resp s' t. get_create_history (list_bag 4) demo_mysql (demo_result demo_rows) demo_http None None None (demo_state 0) = Inr (resp, s') \<and>
     read_torrent_row demo_http (replicate 25 (Some ''2'')) empty_torrent = Inr t \<and> rs_result resp = Some t"
proof -
  have q: "my_real_query demo_mysql 7 (create_history_sql None None None) (my_world \<lparr>my_pool = [] :: nat option list, my_world = ([], 0)\<rparr>) =
      (0, ([create_history_sql None None None], 0))" by (simp add: demo_query)
  have st: "my_store_result (demo_result demo_rows) 7 ([create_history_sql None None None], 0) =
      (Some demo_rows, ([create_history_sql None None None], 0))" by (simp add: demo_result_def)
  have "\<exists>t. read_torrent_row demo_http (replicate 25 (Some f)) pb = Inr t" for f pb
    by (simp add: read_torrent_row_def field_replicate)
  then obtain t1 t2 where "read_torrent_row demo_http (replicate 25 (Some ''1'')) empty_torrent = Inr t1"
    "read_torrent_row demo_http (replicate 25 (Some ''2'')) t1 = Inr t2" by blast
  then obtain resp s' where r: "get_create_history (list_bag 4) demo_mysql (demo_result demo_rows) demo_http None None None (demo_state 0) = Inr (resp, s')"
    by (simp add: get_create_history_def history_reply_def demo_conn demo_query demo_release)
      (simp add: demo_result_def demo_rows_def demo_release)
  from create_history_reports_last_row [OF demo_conn q st r] r show ?thesis by (auto simp: demo_rows_def)
qed

theorem payment_history_merges_maps_witness:
  "\<exists>resp s' q. get_payment_history (list_bag 4) demo_mysql (demo_result demo_rows) demo_http None None None None (demo_state 0) = Inr (resp, s') \<and>
     rs_result resp = Some q \<and> rs_code resp = 0"
proof -
  let ?sql = "payment_history_sql None None None None"
  have q: "my_real_query demo_mysql 7 ?sql (my_world \<lparr>my_pool = [] :: nat option list, my_world = ([], 0)\<rparr>) = (0, ([?sql], 0))"
    by (simp add: demo_query)
  have st: "my_store_result (demo_result demo_rows) 7 ([?sql], 0) = (Some demo_rows, ([?sql], 0))" by (simp add: demo_result_def)
  have "\<exists>t. read_payment_row demo_http (replicate 25 (Some f)) pb = Inr t" for f pb
    by (simp add: read_payment_row_def field_replicate) (simp add: demo_http_def)
  then obtain t1 t2 where "read_payment_row demo_http (replicate 25 (Some ''1'')) empty_payment = Inr t1"
    "read_payment_row demo_http (replicate 25 (Some ''2'')) t1 = Inr t2" by blast
  then obtain resp s' where r: "get_payment_history (list_bag 4) demo_mysql (demo_result demo_rows) demo_http None None None None (demo_state 0) = Inr (resp, s')"
    by (simp add: get_payment_history_def history_reply_def demo_conn demo_query demo_release)
      (simp add: demo_result_def demo_rows_def demo_release)
  from payment_history_merges_maps [OF demo_conn q st _ r] r show ?thesis by (auto simp: demo_rows_def)
qed

end
