(* ===== verification/KafkaQueue.thy ===== *)
theory KafkaQueue
  imports ExecutionQueue
begin

text \<open>
  \<^verbatim>\<open>lib/kafka_exe_queue.cpp\<close>: an execution queue whose consumer hands messages to librdkafka.  The library is
  the record \<open>kafka_ops\<close> on a world \<open>'w\<close>; producers and topics are optional handles.  Errors that are
  only logged leave no trace.
\<close>

record ('p, 't, 'w) kafka_ops =
  rd_conf_set :: "string \<Rightarrow> string \<Rightarrow> 'w \<Rightarrow> bool \<times> 'w"
  rd_new :: "'w \<Rightarrow> 'p option \<times> 'w"
  rd_topic_new :: "'p \<Rightarrow> string \<Rightarrow> 'w \<Rightarrow> 't option \<times> 'w"
  rd_produce :: "'t \<Rightarrow> string \<Rightarrow> 'w \<Rightarrow> int \<times> 'w"
  rd_poll :: "'p \<Rightarrow> 'w \<Rightarrow> 'w"
  rd_flush :: "'p \<Rightarrow> nat \<Rightarrow> 'w \<Rightarrow> 'w"
  rd_topic_destroy :: "'t \<Rightarrow> 'w \<Rightarrow> 'w"
  rd_destroy :: "'p \<Rightarrow> 'w \<Rightarrow> 'w"

record ('p, 't, 'w) kafka_state =
  kf_rk :: "'p option"
  kf_rkt :: "'t option"
  kf_world :: 'w

record kafka_task =
  kt_message :: string

definition kafka_init ::
  "('p, 't, 'w) kafka_ops \<Rightarrow> string \<Rightarrow> string \<Rightarrow> ('p, 't, 'w) kafka_state \<Rightarrow> int \<times> ('p, 't, 'w) kafka_state" where
  "kafka_init K brokers topic_name s =
     (let (ok1, w1) = rd_conf_set K ''bootstrap.servers'' brokers (kf_world s)
      in if \<not> ok1 then (- 24, s\<lparr>kf_world := w1\<rparr>)
         else let (ok2, w2) = rd_conf_set K ''queue.buffering.max.ms'' ''1'' w1
              in if \<not> ok2 then (- 28, s\<lparr>kf_world := w2\<rparr>)
                 else let (rk, w3) = rd_new K w2; s3 = s\<lparr>kf_rk := rk, kf_world := w3\<rparr>
                      in case rk of
                           None \<Rightarrow> (- 36, s3)
                         | Some p \<Rightarrow>
                             (let (rkt, w4) = rd_topic_new K p topic_name w3; s4 = s3\<lparr>kf_rkt := rkt, kf_world := w4\<rparr>
                              in case rkt of None \<Rightarrow> (- 43, s4) | Some _ \<Rightarrow> (0, s4)))"

text \<open>A message that cannot be produced is logged and skipped.\<close>

fun produce_loop :: "('p, 't, 'w) kafka_ops \<Rightarrow> 't \<Rightarrow> kafka_task list \<Rightarrow> 'w \<Rightarrow> 'w" where
  "produce_loop K rkt [] w = w"
| "produce_loop K rkt (t # iter) w = (case rd_produce K rkt (kt_message t) w of (ret, w1) \<Rightarrow> produce_loop K rkt iter w1)"

definition kafka_queue_exe ::
  "('p, 't, 'w) kafka_ops \<Rightarrow> kafka_task list \<Rightarrow> ('p, 't, 'w) kafka_state \<Rightarrow> (int \<times> ('p, 't, 'w) kafka_state) res" where
  "kafka_queue_exe K iter s =
     res_bind (if iter = [] then Inr (kf_world s) else res_bind (deref (kf_rkt s)) (\<lambda>rkt. Inr (produce_loop K rkt iter (kf_world s)))) (\<lambda>w.
     res_bind (deref (kf_rk s)) (\<lambda>rk. Inr (0, s\<lparr>kf_world := rd_poll K rk w\<rparr>)))"

definition put_kafka_exe_queue ::
  "(kafka_task exec_queue \<Rightarrow> kafka_task task_node option \<times> bool) \<Rightarrow> string \<Rightarrow> kafka_task exec_queue \<Rightarrow> kafka_task exec_queue" where
  "put_kafka_exe_queue alloc message q = snd (execute_options alloc None \<lparr>kt_message = message\<rparr> q)"

text \<open>The results of starting and stopping the queue are dropped.\<close>

definition kafka_exe_queue_start :: "(kafka_task exec_queue \<Rightarrow> int \<times> kafka_task exec_queue) \<Rightarrow> kafka_task exec_queue \<Rightarrow> kafka_task exec_queue" where
  "kafka_exe_queue_start create q = snd (execution_queue_start create q)"

definition kafka_exe_queue_stop :: "(kafka_task exec_queue \<Rightarrow> int \<times> kafka_task exec_queue) \<Rightarrow> kafka_task exec_queue \<Rightarrow> kafka_task exec_queue" where
  "kafka_exe_queue_stop stop q = snd (execution_queue_stop stop q)"

definition kafka_finish ::
  "('p, 't, 'w) kafka_ops \<Rightarrow> ('p, 't, 'w) kafka_state \<Rightarrow> ('p, 't, 'w) kafka_state res" where
  "kafka_finish K s =
     res_bind (deref (kf_rk s)) (\<lambda>rk.
     res_bind (deref (kf_rkt s)) (\<lambda>rkt.
       Inr (s\<lparr>kf_world := rd_destroy K rk (rd_topic_destroy K rkt (rd_flush K rk 1000 (kf_world s)))\<rparr>)))"

section \<open>What is handed over\<close>

text \<open>
  The library \<open>K\<close> with a list of the calls that the consumer makes and their results; nothing is assumed of \<open>K\<close>.
\<close>

datatype ('p, 't) kafka_call = KProduce 't string int | KPoll 'p

definition traced_kafka :: "('p, 't, 'w) kafka_ops \<Rightarrow> ('p, 't, 'w \<times> ('p, 't) kafka_call list) kafka_ops" where
  "traced_kafka K =
     \<lparr>rd_conf_set = (\<lambda>k v (w, cs). case rd_conf_set K k v w of (r, w') \<Rightarrow> (r, w', cs)),
      rd_new = (\<lambda>(w, cs). case rd_new K w of (r, w') \<Rightarrow> (r, w', cs)),
      rd_topic_new = (\<lambda>p n (w, cs). case rd_topic_new K p n w of (r, w') \<Rightarrow> (r, w', cs)),
      rd_produce = (\<lambda>t m (w, cs). case rd_produce K t m w of (r, w') \<Rightarrow> (r, w', cs @ [KProduce t m r])),
      rd_poll = (\<lambda>p (w, cs). (rd_poll K p w, cs @ [KPoll p])),
      rd_flush = (\<lambda>p n (w, cs). (rd_flush K p n w, cs)),
      rd_topic_destroy = (\<lambda>t (w, cs). (rd_topic_destroy K t w, cs)),
      rd_destroy = (\<lambda>p (w, cs). (rd_destroy K p w, cs))\<rparr>"

text \<open>The results that the library gives to these messages, one after the other.\<close>

fun produce_results :: "('p, 't, 'w) kafka_ops \<Rightarrow> 't \<Rightarrow> string list \<Rightarrow> 'w \<Rightarrow> int list" where
  "produce_results K rkt [] w = []"
| "produce_results K rkt (m # ms) w = (case rd_produce K rkt m w of (r, w') \<Rightarrow> r # produce_results K rkt ms w')"

lemma length_produce_results [simp]: "length (produce_results K rkt ms w) = length ms"
  by (induction ms arbitrary: w) (auto split: prod.split)

lemma produce_loop_calls:
  "snd (produce_loop (traced_kafka K) rkt iter (w, cs)) =
     cs @ map2 (KProduce rkt) (map kt_message iter) (produce_results K rkt (map kt_message iter) w)"
proof (induction iter arbitrary: w cs)
  case (Cons t iter)
  obtain r w1 where "rd_produce K rkt (kt_message t) w = (r, w1)" by fastforce
  then show ?case using Cons.IH [of w1 "cs @ [KProduce rkt (kt_message t) r]"] by (simp add: traced_kafka_def)
qed simp

text \<open>A producer with room for so many messages.\<close>

definition bounded_kafka :: "nat \<Rightarrow> (unit, unit, string list) kafka_ops" where
  "bounded_kafka cap =
     \<lparr>rd_conf_set = (\<lambda>_ _ w. (True, w)), rd_new = (\<lambda>w. (Some (), w)), rd_topic_new = (\<lambda>_ _ w. (Some (), w)),
      rd_produce = (\<lambda>_ m w. if length w < cap then (0, w @ [m]) else (- 1, w)), rd_poll = (\<lambda>_ w. w),
      rd_flush = (\<lambda>_ _ w. w), rd_topic_destroy = (\<lambda>_ w. w), rd_destroy = (\<lambda>_ w. w)\<rparr>"

interpretation kafka_sink: task_sink "put_kafka_exe_queue alloc" "\<lambda>q. map kt_message (eq_tasks q)" "\<lambda>q. q_open q \<and> alloc_ok alloc" for alloc
  by unfold_locales (auto simp: put_kafka_exe_queue_def execute_options_tasks execute_options_open alloc_ok_def)

text \<open>
C37: From submission to librdkafka: of messages put into an open queue while memory lasts, the consumer calls
  \<^verbatim>\<open>rd_kafka_produce\<close> exactly once for each, behind those that waited before and in the order of submission, on the topic, then
  polls once and returns 0, whatever the library answers.  A message that the library refuses (result -1) is not tried
  again, and the ones behind it are handed over all the same.
\<close>
theorem kafka_messages_in_order:
  assumes "q_open q" "alloc_ok alloc" "kf_rk s = Some rk" "kf_rkt s = Some rkt" "kf_world s = (w, cs)"
  shows "\<exists>s'. kafka_queue_exe (traced_kafka K) (eq_tasks (fold (put_kafka_exe_queue alloc) ms q)) s = Inr (0, s') \<and>
    snd (kf_world s') = cs @
      map2 (KProduce rkt) (map kt_message (eq_tasks q) @ ms) (produce_results K rkt (map kt_message (eq_tasks q) @ ms) w) @ [KPoll rk]"
proof -
  let ?iter = "eq_tasks (fold (put_kafka_exe_queue alloc) ms q)"
  have it: "map kt_message ?iter = map kt_message (eq_tasks q) @ ms"
    using kafka_sink.fold_put [of q alloc ms] assms(1,2) by simp
  have "kafka_queue_exe (traced_kafka K) ?iter s =
      Inr (0, s\<lparr>kf_world := rd_poll (traced_kafka K) rk (produce_loop (traced_kafka K) rkt ?iter (kf_world s))\<rparr>)"
    using assms(3,4) by (simp add: kafka_queue_exe_def)
  moreover have "snd (rd_poll (traced_kafka K) rk x) = snd x @ [KPoll rk]" for x by (cases x) (simp add: traced_kafka_def)
  ultimately show ?thesis using produce_loop_calls [of K rkt ?iter w cs] it assms(5) by simp
qed

theorem kafka_messages_in_order_witness:
  "\<exists>s'. kafka_queue_exe (traced_kafka (bounded_kafka 1))
       (eq_tasks (fold (put_kafka_exe_queue (\<lambda>_. (Some new_task_node, True))) [''ab'', ''cd'']
          \<lparr>eq_live = True, eq_stopped = False, eq_started = []\<rparr>))
       \<lparr>kf_rk = Some (), kf_rkt = Some (), kf_world = ([], [])\<rparr> = Inr (0, s') \<and>
     snd (kf_world s') = [KProduce () ''ab'' 0, KProduce () ''cd'' (- 1), KPoll ()]"
proof -
  let ?q = "\<lparr>eq_live = True, eq_stopped = False, eq_started = []\<rparr> :: kafka_task exec_queue"
  have q: "q_open ?q" "alloc_ok (\<lambda>_ :: kafka_task exec_queue. (Some new_task_node, True))" "eq_tasks ?q = []"
    by (simp_all add: q_open_def alloc_ok_def eq_tasks_def map_filter_def)
  have "produce_results (bounded_kafka 1) () [''ab'', ''cd''] [] = [0, - 1]" by (simp add: bounded_kafka_def)
  then show ?thesis
    using kafka_messages_in_order [OF q(1,2), of "\<lparr>kf_rk = Some (), kf_rkt = Some (), kf_world = ([], [])\<rparr>" "()" "()" "[]" "[]"
        "bounded_kafka 1" "[''ab'', ''cd'']"] q(3) by (simp del: produce_results.simps fold.simps)
qed

end
