(* ===== verification/Migration.thy ===== *)
theory Migration
  imports TorrentDb Chain "HOL-Library.AList"
begin

text \<open>
  \<^verbatim>\<open>service/tools/main.cpp\<close>: the tool that reads torrents and payments stored as JSON from one LevelDB,
  deletes them there and writes them as protobuf messages into another.  Parameters: the JSON reader, which
  may throw, the protobuf serialiser and \<open>share_type\<close>; ids are given by what their \<^verbatim>\<open>str()\<close> prints.  A value
  that could not be read leaves the C++ structure with fields nobody wrote, which the tool then reads.
\<close>

section \<open>The JSON structures\<close>

record 'sh btp_torrent =
  bt_id :: string
  bt_tx_id :: string
  bt_creator :: string
  bt_amount :: 'sh
  bt_asset_type :: u32
  bt_create_time :: u64
  bt_last_modify :: u64
  bt_percent :: u32
  bt_pay_times :: u32
  bt_finish_times :: u32

record 'sh btp_payment =
  bp_id :: string
  bp_torrent_id :: string
  bp_creator :: string
  bp_asset_type :: u32
  bp_author_amount :: 'sh
  bp_percent :: u32
  bp_payment_amount :: 'sh
  bp_is_selttement :: bool
  bp_is_refund :: bool
  bp_pay_pieces :: "(string, u32) smap"
  bp_create_time :: u64
  bp_selttement_time :: u64
  bp_refund_time :: u64
  bp_pieces :: u32
  bp_sizes :: u64
  bp_payed_pieces :: u32
  bp_transfer_one_piece_amount :: 'sh
  bp_author_one_piece_amount :: 'sh
  bp_receiver_author_one_piece_amount :: 'sh
  bp_sign_address :: string
  bp_selttement_trx_id :: string
  bp_refund_trx_id :: string
  bp_receipt_trx_id :: string
  bp_increase_trx :: "(string, 'sh) smap"

record 'sh migration_env =
  me_share :: "'sh share_ops"
  me_codec :: pb_codec
  me_torrent_of :: "string \<Rightarrow> 'sh btp_torrent option"
  me_payment_of :: "string \<Rightarrow> 'sh btp_payment option"

text \<open>The old database is also iterated, over the entries it had when the iterator was made, and deleted from.\<close>

record 'db source_ops =
  ldb_entries :: "'db \<Rightarrow> (string \<times> string) list"
  ldb_delete :: "'db \<Rightarrow> string \<Rightarrow> bool \<times> 'db"

section \<open>Conversion\<close>

definition torrent_to_pb :: "'sh share_ops \<Rightarrow> 'sh btp_torrent \<Rightarrow> torrent" where
  "torrent_to_pb S t =
     empty_torrent\<lparr>t_id := bt_id t, t_transaction_id := bt_tx_id t, t_create_block := bt_create_time t,
       t_last_modify := bt_last_modify t, t_user_id := bt_creator t, t_asset := bt_asset_type t,
       t_balance := sh_as_string S (bt_amount t), t_percent := bt_percent t, t_pay_times := bt_pay_times t,
       t_finish_times := bt_finish_times t\<rparr>"

definition payment_to_pb :: "'sh share_ops \<Rightarrow> 'sh btp_payment \<Rightarrow> torrent_payment" where
  "payment_to_pb S p =
     empty_payment\<lparr>p_payment_id := bp_id p, p_torrent_id := bp_torrent_id p, p_create_time := bp_create_time p,
       p_selttement_time := bp_selttement_time p, p_refund_time := bp_refund_time p, p_user_id := bp_creator p,
       p_asset := bp_asset_type p, p_pieces := bp_pieces p, p_payed_pieces := bp_payed_pieces p, p_sizes := bp_sizes p,
       p_percent := bp_percent p, p_is_selttement := bp_is_selttement p, p_is_refund := bp_is_refund p,
       p_sign_address := bp_sign_address p,
       p_pay_pieces := fold (\<lambda>(k, v) m. smap_put m k v) (bp_pay_pieces p) [],
       p_selttement_trx_id := bp_selttement_trx_id p, p_refund_trx_id := bp_refund_trx_id p,
       p_receipt_trx_id := bp_receipt_trx_id p,
       p_increase_trx := fold (\<lambda>(k, v) m. smap_put m k (sh_to_string S v)) (bp_increase_trx p) [],
       p_author_amount := sh_as_string S (bp_author_amount p), p_payment_amount := sh_as_string S (bp_payment_amount p),
       p_transfer_one_piece_amount := sh_as_string S (bp_transfer_one_piece_amount p),
       p_author_one_piece_amount := sh_as_string S (bp_author_one_piece_amount p),
       p_receiver_author_one_piece_amount := sh_as_string S (bp_receiver_author_one_piece_amount p)\<rparr>"

text \<open>\<^verbatim>\<open>string::find\<close>: whether the pattern occurs.\<close>

fun occurs_in :: "string \<Rightarrow> string \<Rightarrow> bool" where
  "occurs_in pat [] = (pat = [])"
| "occurs_in pat (c # s) = (take (length pat) (c # s) = pat \<or> occurs_in pat s)"

text \<open>The key and the value that an entry is saved as.\<close>

definition convert :: "'sh migration_env \<Rightarrow> string \<Rightarrow> (string \<times> string) res" where
  "convert E value =
     (if occurs_in ''receiver_author_one_piece_amount'' value then
        (case me_payment_of E value of
           None \<Rightarrow> Inl Indeterminate
         | Some tp \<Rightarrow> let pb = payment_to_pb (me_share E) tp in Inr (p_payment_id pb, enc_payment (me_codec E) pb))
      else
        (case me_torrent_of E value of
           None \<Rightarrow> Inl Indeterminate
         | Some t \<Rightarrow> let pb = torrent_to_pb (me_share E) t in Inr (t_id pb, enc_torrent (me_codec E) pb)))"

section \<open>The loop\<close>

fun migrate_loop ::
  "'db leveldb_ops \<Rightarrow> 'db source_ops \<Rightarrow> 'sh migration_env \<Rightarrow> (string \<times> string) list \<Rightarrow> 'db \<Rightarrow> 'db db_ptr \<Rightarrow> ('db \<times> 'db db_ptr) res" where
  "migrate_loop L I E [] db db_new = Inr (db, db_new)"
| "migrate_loop L I E ((key, v) # it) db db_new =
     (case ldb_delete I db key of (ok, db1) \<Rightarrow>
        if \<not> ok then Inl AssertFailed
        else res_bind (convert E v) (\<lambda>(k, pb).
             res_bind (db_deref db_new) (\<lambda>d.
               case ldb_put L d k pb of (_, d1) \<Rightarrow> migrate_loop L I E it db1 (DbLive d1))))"

text \<open>The check after the second \<^verbatim>\<open>DB::Open\<close> looks at the status of the first.\<close>

definition migrate_main ::
  "'db leveldb_ops \<Rightarrow> 'db source_ops \<Rightarrow> 'sh migration_env \<Rightarrow> string \<Rightarrow> string \<Rightarrow> (int \<times> ('db \<times> 'db db_ptr) option) res" where
  "migrate_main L I E db_path db_path_new =
     (case ldb_open L db_path of
        None \<Rightarrow> Inr (- 1, None)
      | Some db \<Rightarrow>
          let db_new = (case ldb_open L db_path_new of None \<Rightarrow> DbUninit | Some d \<Rightarrow> DbLive d)
          in res_bind (migrate_loop L I E (ldb_entries I db) db db_new) (\<lambda>r. Inr (0, Some r)))"

section \<open>What is moved\<close>

text \<open>
  What LevelDB promises of an iterator that is moved from the first entry to the last: it shows every key of the database
  once, with its value.  A deletion that succeeds removes its key and no other.
\<close>

locale migration_store = leveldb L
  for L :: "'db leveldb_ops" +
  fixes I :: "'db source_ops"
  assumes delete: "ldb_delete I d k = (True, d') \<Longrightarrow> ldb_get L d' j = (if j = k then None else ldb_get L d j)"
    and iterated: "map_of (ldb_entries I d) j = ldb_get L d j" "distinct (map fst (ldb_entries I d))"
begin

lemma migrate_loop_moves:
  "migrate_loop L I E es db (DbLive d) = Inr (db', new') \<Longrightarrow>
   (\<And>d k v. fst (ldb_put L d k v)) \<Longrightarrow>
   \<exists>kvs d'. list_all2 (\<lambda>(_, v) kv. convert E v = Inr kv) es kvs \<and> new' = DbLive d' \<and>
     (\<forall>j. ldb_get L d' j = (case map_of (rev kvs) j of Some v \<Rightarrow> Some v | None \<Rightarrow> ldb_get L d j)) \<and>
     (\<forall>j. ldb_get L db' j = (if j \<in> fst ` set es then None else ldb_get L db j))"
proof (induction es arbitrary: db d)
  case (Cons e es)
  obtain key v where e: "e = (key, v)" by (cases e)
  from Cons.prems(1) obtain db1 k pb where d1: "ldb_delete I db key = (True, db1)" "convert E v = Inr (k, pb)"
    and rest: "(case ldb_put L d k pb of (_, d1) \<Rightarrow> migrate_loop L I E es db1 (DbLive d1)) = Inr (db', new')"
    by (auto simp: e split: prod.split_asm if_split_asm elim!: res_bind_InrE)
  obtain d1 where p: "ldb_put L d k pb = (True, d1)" using Cons.prems(2) [of d k pb] by (cases "ldb_put L d k pb") auto
  from rest p have "migrate_loop L I E es db1 (DbLive d1) = Inr (db', new')" by simp
  from Cons.IH [OF this Cons.prems(2)] obtain kvs d' where IH: "list_all2 (\<lambda>(_, v) kv. convert E v = Inr kv) es kvs"
    "new' = DbLive d'" "\<And>j. ldb_get L d' j = (case map_of (rev kvs) j of Some v \<Rightarrow> Some v | None \<Rightarrow> ldb_get L d1 j)"
    "\<And>j. ldb_get L db' j = (if j \<in> fst ` set es then None else ldb_get L db1 j)" by blast
  have "ldb_get L d' j = (case map_of (rev ((k, pb) # kvs)) j of Some v \<Rightarrow> Some v | None \<Rightarrow> ldb_get L d j)" for j
    using IH(3) [of j] get_put [OF p, of j] by (auto simp: map_add_def split: option.split)
  moreover have "ldb_get L db' j = (if j \<in> fst ` set (e # es) then None else ldb_get L db j)" for j
    using IH(4) [of j] delete [OF d1(1), of j] by (auto simp: e)
  ultimately show ?case using IH(1, 2) d1(2) by (intro exI [of _ "(k, pb) # kvs"]) (simp add: e)
qed auto

end

text \<open>The converted entries, found again in a database that holds the last one under each id.\<close>

lemma converted_found:
  assumes "list_all2 (\<lambda>(_, v) kv. convert E v = Inr kv) es kvs" "map_of es k = Some v"
  obtains k' pb where "convert E v = Inr (k', pb)" "(k', pb) \<in> set kvs"
proof -
  obtain i where i: "i < length es" "es ! i = (k, v)" using map_of_SomeD [OF assms(2)] by (auto simp: in_set_conv_nth)
  then have "convert E v = Inr (kvs ! i)" "kvs ! i \<in> set kvs" using assms(1) by (auto simp: list_all2_conv_all_nth dest: spec [of _ i])
  then show thesis using that [of "fst (kvs ! i)" "snd (kvs ! i)"] by simp
qed

text \<open>
  Databases that are association lists, the newest entry of a key first; \<open>files\<close> says what the directories hold.
\<close>

definition disk_leveldb :: "(string \<Rightarrow> (string \<times> string) list option) \<Rightarrow> (string \<times> string) list leveldb_ops" where
  "disk_leveldb files =
     \<lparr>ldb_open = files, ldb_get = map_of, ldb_put = (\<lambda>d k v. (True, (k, v) # d)), ldb_write = (\<lambda>d kvs. (True, rev kvs @ d))\<rparr>"

definition disk_source :: "(string \<times> string) list source_ops" where
  "disk_source = \<lparr>ldb_entries = AList.clearjunk, ldb_delete = (\<lambda>d k. (True, AList.delete k d))\<rparr>"

interpretation disk_migration: migration_store "disk_leveldb files" disk_source for files
  by unfold_locales
    (auto simp: disk_leveldb_def disk_source_def map_add_def map_of_rev_None AList.delete_conv' AList.map_of_clearjunk
      AList.distinct_clearjunk split: option.splits)

text \<open>
C38: When the tool returns and no write fails, the old database is empty, every entry that it held was converted, and the
  new database holds the converted records, the last one under each id, next to what it held before; when no two records
  have the same id, each of the converted records is found there under its id.
\<close>
theorem migration_moves_every_entry:
  assumes "migration_store L I" "\<forall>d k v. fst (ldb_put L d k v)"
    and "ldb_open L db_path = Some db" "ldb_open L db_path_new = Some d"
    and "migrate_main L I E db_path db_path_new = Inr (ret, r)"
  shows "\<exists>kvs db' d'. ret = 0 \<and> r = Some (db', DbLive d') \<and>
    (\<forall>j. ldb_get L db' j = None) \<and>
    list_all2 (\<lambda>(_, v) kv. convert E v = Inr kv) (ldb_entries I db) kvs \<and>
    (\<forall>j. ldb_get L d' j = (case map_of (rev kvs) j of Some v \<Rightarrow> Some v | None \<Rightarrow> ldb_get L d j)) \<and>
    (\<forall>k v. ldb_get L db k = Some v \<longrightarrow> (\<exists>k' pb. convert E v = Inr (k', pb) \<and> ldb_get L d' k' \<noteq> None \<and>
       (distinct (map fst kvs) \<longrightarrow> ldb_get L d' k' = Some pb)))"
proof -
  from assms(3-5) obtain db' new' where r: "ret = 0" "r = Some (db', new')"
    "migrate_loop L I E (ldb_entries I db) db (DbLive d) = Inr (db', new')"
    by (auto simp: migrate_main_def elim!: res_bind_InrE)
  from migration_store.migrate_loop_moves [OF assms(1) r(3)] assms(2) obtain kvs d' where
    m: "list_all2 (\<lambda>(_, v) kv. convert E v = Inr kv) (ldb_entries I db) kvs" "new' = DbLive d'"
    "\<And>j. ldb_get L d' j = (case map_of (rev kvs) j of Some v \<Rightarrow> Some v | None \<Rightarrow> ldb_get L d j)"
    "\<And>j. ldb_get L db' j = (if j \<in> fst ` set (ldb_entries I db) then None else ldb_get L db j)" by blast
  note it = migration_store.iterated(1) [OF assms(1)]
  have "ldb_get L db' j = None" for j
    using m(4) [of j] it [of db j] map_of_eq_None_iff [of "ldb_entries I db" j] by (cases "j \<in> fst ` set (ldb_entries I db)") simp_all
  moreover have "\<exists>k' pb. convert E v = Inr (k', pb) \<and> ldb_get L d' k' \<noteq> None \<and> (distinct (map fst kvs) \<longrightarrow> ldb_get L d' k' = Some pb)"
    if v: "ldb_get L db k = Some v" for k v
  proof -
    have "map_of (ldb_entries I db) k = Some v" using v it by simp
    from converted_found [OF m(1) this] obtain k' pb where c: "convert E v = Inr (k', pb)" "(k', pb) \<in> set kvs" .
    have "map_of (rev kvs) k' = Some pb" if "distinct (map fst kvs)"
      using c(2) that by (intro map_of_is_SomeI) (simp_all add: rev_map [symmetric])
    moreover have "map_of (rev kvs) k' \<noteq> None" using c(2) imageI [OF c(2), of fst] by (auto simp: map_of_eq_None_iff)
    ultimately show ?thesis using c(1) m(3) [of k'] by (cases "map_of (rev kvs) k'") auto
  qed
  ultimately show ?thesis using r(1,2) m(1-3) by (intro exI [of _ kvs] exI [of _ db'] exI [of _ d']) auto
qed

definition demo_migration :: "128 word migration_env" where
  "demo_migration =
     \<lparr>me_share = w128_share, me_codec = num_codec,
      me_torrent_of = (\<lambda>v. Some \<lparr>bt_id = v, bt_tx_id = [], bt_creator = [], bt_amount = 0, bt_asset_type = 0, bt_create_time = 0,
        bt_last_modify = 0, bt_percent = 0, bt_pay_times = 0, bt_finish_times = 0\<rparr>),
      me_payment_of = (\<lambda>_. None)\<rparr>"

text \<open>An old database with two torrents, one of them stored twice, and a new one with an entry of its own.\<close>

definition demo_files :: "string \<Rightarrow> (string \<times> string) list option" where
  "demo_files path = Some (if path = ''old'' then [(''k'', ''x''), (''l'', ''y''), (''k'', ''z'')] else [(''m'', ''w'')])"

lemma demo_convert: "\<exists>pb. convert demo_migration [c] = Inr ([c], pb)"
  by (simp add: convert_def demo_migration_def torrent_to_pb_def empty_torrent_def)

theorem migration_moves_every_entry_witness:
  "\<exists>db' d' pb. migrate_main (disk_leveldb demo_files) disk_source demo_migration ''old'' ''new'' = Inr (0, Some (db', DbLive d')) \<and>
     convert demo_migration ''y'' = Inr (''y'', pb) \<and> map_of d' ''y'' \<noteq> None \<and> map_of db' ''l'' = None"
proof -
  let ?L = "disk_leveldb demo_files"
  have put: "\<forall>d k v. fst (ldb_put ?L d k v)" by (simp add: disk_leveldb_def)
  have op: "ldb_open ?L ''old'' = Some [(''k'', ''x''), (''l'', ''y''), (''k'', ''z'')]" "ldb_open ?L ''new'' = Some [(''m'', ''w'')]"
    by (simp_all add: disk_leveldb_def demo_files_def)
  obtain px py where conv: "convert demo_migration ''x'' = Inr (''x'', px)" "convert demo_migration ''y'' = Inr (''y'', py)"
    using demo_convert by blast
  obtain ret r where m: "migrate_main ?L disk_source demo_migration ''old'' ''new'' = Inr (ret, r)"
    by (simp add: migrate_main_def op disk_source_def conv) (simp add: disk_leveldb_def)
  have y: "ldb_get ?L [(''k'', ''x''), (''l'', ''y''), (''k'', ''z'')] ''l'' = Some ''y''" by (simp add: disk_leveldb_def)
  from migration_moves_every_entry [OF disk_migration.migration_store_axioms put op m] obtain kvs db' d' where
    r: "ret = 0" "r = Some (db', DbLive d')" "ldb_get ?L db' ''l'' = None" "ldb_get ?L d' ''y'' \<noteq> None"
    using y conv(2) by fastforce
  then show ?thesis using m conv(2) by (auto simp: disk_leveldb_def)
qed

end
