(* ===== verification/CqBlock.thy ===== *)
theory CqBlock
  imports Prelude
begin

text \<open>
  \<^verbatim>\<open>lib/concurrentqueue.h\<close>, part one: index arithmetic, blocks of 32 elements, the free list of blocks with its
  reference counts, the pool of blocks made with the queue, and where a producer gets a block from.  The
  development follows the configuration the server compiles: the default traits, a 64-bit \<^verbatim>\<open>size_t\<close>,
  \<^verbatim>\<open>MOODYCAMEL_CPP11_THREAD_LOCAL_SUPPORTED\<close> undefined, elements whose copies do not throw.

  Each member function is one step: a compare-and-exchange finds what was loaded before, and a loop that
  reloads without anything having changed \<open>Hangs\<close>.  Blocks live in a heap, a block's address is a number,
  and \<open>None\<close> in a slot means that no object lives there.  Whether the \<open>n\<close>-th call of \<^verbatim>\<open>malloc\<close> succeeds is
  given by \<open>pl_mem\<close>.
\<close>

unbundle bit_operations_syntax

section \<open>Index arithmetic\<close>

definition circular_less_than :: "u64 \<Rightarrow> u64 \<Rightarrow> bool" where
  "circular_less_than a b \<longleftrightarrow> a - b > push_bit 63 1"

lemma unat_minus_of_nat:
  assumes "d \<le> 2 ^ 64"
  shows "unat (- of_nat d :: u64) = (if d = 0 then 0 else 2 ^ 64 - d)"
proof (cases "d = 0")
  case False
  have "(of_nat (2 ^ 64) :: u64) = 0" by simp
  then have "(- of_nat d :: u64) = of_nat (2 ^ 64 - d)" using of_nat_diff [OF assms, where ?'a = u64] by simp
  then show ?thesis using False by (simp add: unat_of_nat)
qed simp

text \<open>Positions are compared on the circle: the answer is right as long as they are less than half of it apart.\<close>

lemma circular_less_than_of_nat:
  assumes "a \<le> b" "b - a < 2 ^ 63"
  shows "circular_less_than (of_nat a) (of_nat b) \<longleftrightarrow> a < b" and "\<not> circular_less_than (of_nat b) (of_nat a)"
proof -
  define d where "d = b - a"
  have b: "b = a + d" using assms(1) by (simp add: d_def)
  have d: "d < 2 ^ 63" using assms(2) by (simp add: d_def)
  have half: "unat (push_bit 63 1 :: u64) = 2 ^ 63" by simp
  have u: "unat (of_nat d :: u64) = d" using d by (simp add: unat_of_nat)
  have m: "unat (- of_nat d :: u64) = (if d = 0 then 0 else 2 ^ 64 - d)" by (rule unat_minus_of_nat) (use d in simp)
  show "circular_less_than (of_nat a) (of_nat b) \<longleftrightarrow> a < b"
    using d m half by (auto simp: circular_less_than_def b word_less_nat_alt)
  show "\<not> circular_less_than (of_nat b) (of_nat a)"
    using d u half by (simp add: circular_less_than_def b word_less_nat_alt)
qed

section \<open>Blocks\<close>

definition BLOCK_SIZE :: u64 where
  "BLOCK_SIZE = 32"

record 'a cq_block =
  bk_elements :: "'a option list"
  bk_completely_dequeued :: u64
  bk_free_refs :: u32
  bk_free_next :: "nat option"
  bk_dynamic :: bool

definition new_block :: "'a cq_block" where
  "new_block =
     \<lparr>bk_elements = replicate (unat BLOCK_SIZE) None, bk_completely_dequeued = 0, bk_free_refs = 0, bk_free_next = None,
      bk_dynamic = True\<rparr>"

text \<open>The operations in the implicit context, where a counter says how many elements were taken out.\<close>

definition bk_is_empty :: "'a cq_block \<Rightarrow> bool res" where
  "bk_is_empty b =
     (if bk_completely_dequeued b = BLOCK_SIZE then Inr True
      else if \<not> bk_completely_dequeued b \<le> BLOCK_SIZE then Inl AssertFailed else Inr False)"

definition bk_set_empty :: "'a cq_block \<Rightarrow> (bool \<times> 'a cq_block) res" where
  "bk_set_empty b =
     (let prevVal = bk_completely_dequeued b; b' = b\<lparr>bk_completely_dequeued := prevVal + 1\<rparr>
      in if \<not> prevVal < BLOCK_SIZE then Inl AssertFailed else Inr (prevVal = BLOCK_SIZE - 1, b'))"

definition bk_set_many_empty :: "u64 \<Rightarrow> 'a cq_block \<Rightarrow> (bool \<times> 'a cq_block) res" where
  "bk_set_many_empty n b =
     (let prevVal = bk_completely_dequeued b; b' = b\<lparr>bk_completely_dequeued := prevVal + n\<rparr>
      in if \<not> prevVal + n \<le> BLOCK_SIZE then Inl AssertFailed else Inr (prevVal + n = BLOCK_SIZE, b'))"

definition bk_set_all_empty :: "'a cq_block \<Rightarrow> 'a cq_block" where
  "bk_set_all_empty b = b\<lparr>bk_completely_dequeued := BLOCK_SIZE\<rparr>"

definition bk_reset_empty :: "'a cq_block \<Rightarrow> 'a cq_block" where
  "bk_reset_empty b = b\<lparr>bk_completely_dequeued := 0\<rparr>"

definition bk_slot :: "u64 \<Rightarrow> nat" where
  "bk_slot idx = unat (idx AND (BLOCK_SIZE - 1))"

definition bk_construct :: "u64 \<Rightarrow> 'a \<Rightarrow> 'a cq_block \<Rightarrow> 'a cq_block" where
  "bk_construct idx x b = b\<lparr>bk_elements := (bk_elements b)[bk_slot idx := Some x]\<rparr>"

text \<open>Moving an element out and destroying it.\<close>

definition bk_take :: "u64 \<Rightarrow> 'a cq_block \<Rightarrow> ('a \<times> 'a cq_block) res" where
  "bk_take idx b =
     res_bind (vec_at (bk_elements b) (bk_slot idx)) (\<lambda>el.
       case el of None \<Rightarrow> Inl DeadDeref | Some x \<Rightarrow> Inr (x, b\<lparr>bk_elements := (bk_elements b)[bk_slot idx := None]\<rparr>))"

lemma bk_slot_of_nat [simp]: "bk_slot (of_nat i) = i mod 32"
  using unat_and_pow2 [of "of_nat i" 5]
  by (simp add: bk_slot_def BLOCK_SIZE_def unat_of_nat mod_mod_cancel)

section \<open>The pool\<close>

record 'a cq_pool =
  pl_heap :: "nat \<Rightarrow> 'a cq_block"
  pl_next :: nat
  pl_free_head :: "nat option"
  pl_initial_index :: u64
  pl_initial_size :: u64
  pl_mem :: "nat \<Rightarrow> bool"
  pl_mallocs :: nat

definition pl_update :: "nat \<Rightarrow> ('a cq_block \<Rightarrow> 'a cq_block) \<Rightarrow> 'a cq_pool \<Rightarrow> 'a cq_pool" where
  "pl_update a f pl = pl\<lparr>pl_heap := (pl_heap pl)(a := f (pl_heap pl a))\<rparr>"

definition pl_malloc :: "'a cq_pool \<Rightarrow> bool \<times> 'a cq_pool" where
  "pl_malloc pl = (pl_mem pl (pl_mallocs pl), pl\<lparr>pl_mallocs := pl_mallocs pl + 1\<rparr>)"

subsection \<open>The free list\<close>

definition REFS_MASK :: u32 where "REFS_MASK = 0x7FFFFFFF"
definition SHOULD_BE_ON_FREELIST :: u32 where "SHOULD_BE_ON_FREELIST = 0x80000000"

definition add_knowing_refcount_is_zero :: "nat \<Rightarrow> 'a cq_pool \<Rightarrow> 'a cq_pool" where
  "add_knowing_refcount_is_zero node pl =
     (let head = pl_free_head pl
      in (pl_update node (\<lambda>b. b\<lparr>bk_free_next := head, bk_free_refs := 1\<rparr>) pl)\<lparr>pl_free_head := Some node\<rparr>)"

definition free_list_add :: "nat \<Rightarrow> 'a cq_pool \<Rightarrow> 'a cq_pool" where
  "free_list_add node pl =
     (let refs = bk_free_refs (pl_heap pl node);
          pl1 = pl_update node (\<lambda>b. b\<lparr>bk_free_refs := refs + SHOULD_BE_ON_FREELIST\<rparr>) pl
      in if refs = 0 then add_knowing_refcount_is_zero node pl1 else pl1)"

text \<open>A head whose count is zero makes the loop reload the same head for ever.\<close>

definition free_list_try_get :: "'a cq_pool \<Rightarrow> (nat option \<times> 'a cq_pool) res" where
  "free_list_try_get pl =
     (case pl_free_head pl of
        None \<Rightarrow> Inr (None, pl)
      | Some head \<Rightarrow>
          (let refs = bk_free_refs (pl_heap pl head)
           in if refs AND REFS_MASK = 0 then Inl Hangs
              else let next = bk_free_next (pl_heap pl head);
                       pl1 = (pl_update head (\<lambda>b. b\<lparr>bk_free_refs := refs + 1\<rparr>) pl)\<lparr>pl_free_head := next\<rparr>
                   in if (refs + 1) AND SHOULD_BE_ON_FREELIST \<noteq> 0 then Inl AssertFailed
                      else Inr (Some head, pl_update head (\<lambda>b. b\<lparr>bk_free_refs := refs + 1 - 2\<rparr>) pl1)))"

subsection \<open>Getting and returning blocks\<close>

definition populate_initial_block_list :: "u64 \<Rightarrow> 'a cq_pool \<Rightarrow> 'a cq_pool" where
  "populate_initial_block_list blockCount pl =
     (if blockCount = 0 then pl\<lparr>pl_initial_size := 0\<rparr>
      else case pl_malloc pl of
        (False, pl1) \<Rightarrow> pl1\<lparr>pl_initial_size := 0\<rparr>
      | (True, pl1) \<Rightarrow>
          pl1\<lparr>pl_initial_size := blockCount,
              pl_heap := (\<lambda>a. if a < unat blockCount then new_block\<lparr>bk_dynamic := False\<rparr> else pl_heap pl1 a),
              pl_next := unat blockCount\<rparr>)"

definition try_get_block_from_initial_pool :: "'a cq_pool \<Rightarrow> nat option \<times> 'a cq_pool" where
  "try_get_block_from_initial_pool pl =
     (if pl_initial_index pl \<ge> pl_initial_size pl then (None, pl)
      else let index = pl_initial_index pl
           in (if index < pl_initial_size pl then Some (unat index) else None, pl\<lparr>pl_initial_index := index + 1\<rparr>))"

definition add_block_to_free_list :: "nat \<Rightarrow> 'a cq_pool \<Rightarrow> 'a cq_pool" where
  "add_block_to_free_list block pl = free_list_add block pl"

definition create_block :: "'a cq_pool \<Rightarrow> nat option \<times> 'a cq_pool" where
  "create_block pl =
     (case pl_malloc pl of
        (False, pl1) \<Rightarrow> (None, pl1)
      | (True, pl1) \<Rightarrow>
          (Some (pl_next pl1), pl1\<lparr>pl_heap := (pl_heap pl1)(pl_next pl1 := new_block), pl_next := pl_next pl1 + 1\<rparr>))"

definition requisition_block :: "bool \<Rightarrow> 'a cq_pool \<Rightarrow> (nat option \<times> 'a cq_pool) res" where
  "requisition_block can_alloc pl =
     (case try_get_block_from_initial_pool pl of
        (Some block, pl1) \<Rightarrow> Inr (Some block, pl1)
      | (None, pl1) \<Rightarrow>
          res_bind (free_list_try_get pl1) (\<lambda>(r, pl2).
            case r of
              Some block \<Rightarrow> Inr (Some block, pl2)
            | None \<Rightarrow> if can_alloc then Inr (create_block pl2) else Inr (None, pl2)))"

section \<open>The pool invariant\<close>

text \<open>The nodes of the free list, from its head on.\<close>

fun free_chain :: "(nat \<Rightarrow> 'a cq_block) \<Rightarrow> nat option \<Rightarrow> nat list \<Rightarrow> bool" where
  "free_chain hp p [] \<longleftrightarrow> p = None"
| "free_chain hp p (a # as) \<longleftrightarrow> p = Some a \<and> free_chain hp (bk_free_next (hp a)) as"

lemma free_chain_cong:
  "(\<And>a. a \<in> set as \<Longrightarrow> bk_free_next (hp' a) = bk_free_next (hp a)) \<Longrightarrow> free_chain hp' p as = free_chain hp p as"
  by (induction as arbitrary: p) auto

text \<open>
  \<open>B\<close> are the blocks in the hands of producers, \<open>fl\<close> the blocks on the free list.  Every other block below
  \<open>pl_next\<close> has not been handed out yet or has been given up by nobody: its count is zero.
\<close>

definition pool_ok :: "'a cq_pool \<Rightarrow> nat set \<Rightarrow> nat list \<Rightarrow> bool" where
  "pool_ok pl B fl \<longleftrightarrow>
     free_chain (pl_heap pl) (pl_free_head pl) fl \<and> distinct fl \<and>
     (\<forall>a \<in> set fl. bk_free_refs (pl_heap pl a) = 1) \<and>
     (\<forall>a. a \<in> B \<longrightarrow> a < pl_next pl \<and> a \<notin> set fl \<and> \<not> (unat (pl_initial_index pl) \<le> a \<and> a < unat (pl_initial_size pl))) \<and>
     (\<forall>a < pl_next pl. a \<notin> set fl \<longrightarrow> bk_free_refs (pl_heap pl a) = 0) \<and>
     (\<forall>a < pl_next pl. length (bk_elements (pl_heap pl a)) = 32) \<and>
     (\<forall>a \<in> set fl. a < pl_next pl \<and> \<not> (unat (pl_initial_index pl) \<le> a \<and> a < unat (pl_initial_size pl))) \<and>
     unat (pl_initial_size pl) \<le> pl_next pl"

lemma pool_okD:
  assumes "pool_ok pl B fl"
  shows "a \<in> B \<Longrightarrow> bk_free_refs (pl_heap pl a) = 0" and "a \<in> B \<Longrightarrow> length (bk_elements (pl_heap pl a)) = 32"
    and "a \<in> B \<Longrightarrow> a < pl_next pl" and "a \<in> B \<Longrightarrow> a \<notin> set fl"
  using assms by (auto simp: pool_ok_def)

text \<open>Writing to elements and counters of a block in use keeps the invariant.\<close>

lemma pool_ok_update:
  assumes "pool_ok pl B fl" "a \<in> B"
    and "\<And>b. bk_free_refs (f b) = bk_free_refs b" "\<And>b. bk_free_next (f b) = bk_free_next b"
    and "\<And>b. length (bk_elements (f b)) = length (bk_elements b)"
  shows "pool_ok (pl_update a f pl) B fl"
  using assms by (auto simp: pool_ok_def pl_update_def elim!: iffD1 [OF free_chain_cong, rotated])

lemma pool_ok_mallocs [simp]: "pool_ok (pl\<lparr>pl_mallocs := n\<rparr>) B fl = pool_ok pl B fl"
  by (simp add: pool_ok_def)

lemma add_block_to_free_list_ok:
  assumes "pool_ok pl B fl" "a \<in> B"
  shows "pool_ok (add_block_to_free_list a pl) (B - {a}) (a # fl)"
    and "b \<noteq> a \<Longrightarrow> pl_heap (add_block_to_free_list a pl) b = pl_heap pl b"
  using assms pool_okD(1) [OF assms]
  by (auto simp: pool_ok_def add_block_to_free_list_def free_list_add_def add_knowing_refcount_is_zero_def pl_update_def Let_def
      elim!: iffD1 [OF free_chain_cong, rotated])

lemma free_list_try_get_ok:
  assumes "pool_ok pl B fl"
  shows "\<exists>pl'. free_list_try_get pl = Inr (if fl = [] then None else Some (hd fl), pl') \<and>
     pool_ok pl' (if fl = [] then B else insert (hd fl) B) (tl fl) \<and> (fl \<noteq> [] \<longrightarrow> hd fl \<notin> B) \<and>
     (\<forall>b. b \<noteq> hd fl \<or> fl = [] \<longrightarrow> pl_heap pl' b = pl_heap pl b) \<and> pl_next pl' = pl_next pl"
proof (cases fl)
  case Nil
  then show ?thesis using assms by (simp add: free_list_try_get_def pool_ok_def)
next
  case (Cons a as)
  then have a: "pl_free_head pl = Some a" "bk_free_refs (pl_heap pl a) = 1" "a \<notin> B" "a \<notin> set as"
    using assms by (auto simp: pool_ok_def)
  show ?thesis
    using assms a Cons
    by (auto simp: free_list_try_get_def pool_ok_def REFS_MASK_def SHOULD_BE_ON_FREELIST_def pl_update_def Let_def
        elim!: iffD1 [OF free_chain_cong, rotated])
qed

lemma try_get_block_from_initial_pool_ok:
  assumes "pool_ok pl B fl"
  shows "\<exists>r pl'. try_get_block_from_initial_pool pl = (r, pl') \<and> pl_heap pl' = pl_heap pl \<and> pl_next pl' = pl_next pl \<and>
     pool_ok pl' (case r of None \<Rightarrow> B | Some a \<Rightarrow> insert a B) fl \<and> (\<forall>a. r = Some a \<longrightarrow> a \<notin> B)"
proof (cases "pl_initial_index pl \<ge> pl_initial_size pl")
  case False
  then have "unat (pl_initial_index pl + 1) = unat (pl_initial_index pl) + 1"
    by (intro unat_succ [of _ "pl_initial_size pl"]) simp
  then show ?thesis
    using False assms by (auto simp: try_get_block_from_initial_pool_def pool_ok_def Let_def word_less_nat_alt word_le_nat_alt)
qed (use assms in \<open>auto simp: try_get_block_from_initial_pool_def\<close>)

lemma create_block_ok:
  assumes "pool_ok pl B []"
  shows "\<exists>r pl'. create_block pl = (r, pl') \<and> pool_ok pl' (case r of None \<Rightarrow> B | Some a \<Rightarrow> insert a B) [] \<and>
     (\<forall>a. r = Some a \<longrightarrow> a \<notin> B) \<and> (\<forall>b \<in> B. pl_heap pl' b = pl_heap pl b)"
proof (cases "pl_mem pl (pl_mallocs pl)")
  case True
  then show ?thesis
    using assms by (auto simp: create_block_def pl_malloc_def pool_ok_def new_block_def BLOCK_SIZE_def less_Suc_eq)
qed (use assms in \<open>auto simp: create_block_def pl_malloc_def\<close>)

text \<open>A requisitioned block is one that nobody else holds.\<close>

lemma requisition_block_ok:
  assumes "pool_ok pl B fl"
  shows "\<exists>r pl' fl'. requisition_block can_alloc pl = Inr (r, pl') \<and> pool_ok pl' (case r of None \<Rightarrow> B | Some a \<Rightarrow> insert a B) fl' \<and>
     (\<forall>a. r = Some a \<longrightarrow> a \<notin> B) \<and> (\<forall>b \<in> B. pl_heap pl' b = pl_heap pl b)"
proof -
  obtain r1 pl1 where r1: "try_get_block_from_initial_pool pl = (r1, pl1)" "pl_heap pl1 = pl_heap pl"
    "pool_ok pl1 (case r1 of None \<Rightarrow> B | Some a \<Rightarrow> insert a B) fl" "\<forall>a. r1 = Some a \<longrightarrow> a \<notin> B"
    using try_get_block_from_initial_pool_ok [OF assms] by blast
  show ?thesis
  proof (cases r1)
    case (Some a)
    then show ?thesis using r1 by (auto simp: requisition_block_def)
  next
    case None
    with r1 have ok1: "pool_ok pl1 B fl" by simp
    obtain pl2 where pl2: "free_list_try_get pl1 = Inr (if fl = [] then None else Some (hd fl), pl2)"
      "pool_ok pl2 (if fl = [] then B else insert (hd fl) B) (tl fl)" "fl \<noteq> [] \<longrightarrow> hd fl \<notin> B"
      "\<forall>b. b \<noteq> hd fl \<or> fl = [] \<longrightarrow> pl_heap pl2 b = pl_heap pl1 b"
      using free_list_try_get_ok [OF ok1] by blast
    show ?thesis
    proof (cases "fl = [] \<and> can_alloc")
      case True
      then show ?thesis
        using None r1(1,2) pl2 create_block_ok [of pl2 B] by (auto simp: requisition_block_def)
    next
      case False
      have "\<forall>b \<in> B. pl_heap pl2 b = pl_heap pl b" using pl2(3,4) r1(2) by metis
      then show ?thesis using False None r1(1,2) pl2 by (auto simp: requisition_block_def)
    qed
  qed
qed

end
