(* ===== verification/CqIndex.thy ===== *)
theory CqIndex
  imports CqBlock
begin

text \<open>
  \<^verbatim>\<open>lib/concurrentqueue.h\<close>, part two: the circular index by which an implicit producer finds the block of an
  element, its growth, and the lookup.  Entries are shared between an index and the one it outgrew; a single
  step only ever uses the newest, so an entry is stored in it by value.  An entry whose key says that it was
  never used has an uninitialised block pointer.
\<close>

section \<open>The index\<close>

datatype block_ptr = NeverSet | NoBlock | BlockAt nat

record index_entry =
  ie_key :: u64
  ie_value :: block_ptr

record block_index =
  bi_capacity :: u64
  bi_tail :: u64
  bi_index :: "index_entry list"

definition INVALID_BLOCK_BASE :: u64 where
  "INVALID_BLOCK_BASE = 1"

record implicit_producer =
  ip_tail_index :: u64
  ip_head_index :: u64
  ip_optimistic_count :: u64
  ip_overcommit :: u64
  ip_tail_block :: "nat option"
  ip_inactive :: bool
  ip_next_capacity :: u64
  ip_block_index :: "block_index option"

text \<open>Copying the old entries, the oldest first.  The loop visits each entry once.\<close>

fun copy_index :: "nat \<Rightarrow> block_index \<Rightarrow> u64 \<Rightarrow> index_entry list \<Rightarrow> index_entry list res" where
  "copy_index 0 prev prevPos acc = Inl Hangs"
| "copy_index (Suc fuel) prev prevPos acc =
     (let pos = (prevPos + 1) AND (bi_capacity prev - 1)
      in res_bind (vec_at (bi_index prev) (unat pos)) (\<lambda>e.
           if pos \<noteq> bi_tail prev then copy_index fuel prev pos (acc @ [e]) else Inr (acc @ [e])))"

definition unused_entry :: index_entry where
  "unused_entry = \<lparr>ie_key = INVALID_BLOCK_BASE, ie_value = NeverSet\<rparr>"

definition new_block_index :: "implicit_producer \<Rightarrow> 'a cq_pool \<Rightarrow> (bool \<times> implicit_producer \<times> 'a cq_pool) res" where
  "new_block_index p pl =
     (let prev = ip_block_index p;
          prevCapacity = (case prev of None \<Rightarrow> 0 | Some h \<Rightarrow> bi_capacity h);
          entryCount = (case prev of None \<Rightarrow> ip_next_capacity p | Some h \<Rightarrow> prevCapacity);
          (raw, pl1) = pl_malloc pl
      in if \<not> raw then Inr (False, p, pl1)
         else res_bind (case prev of None \<Rightarrow> Inr [] | Some h \<Rightarrow> copy_index (length (bi_index h)) h (bi_tail h) []) (\<lambda>old.
           if of_nat (length old) \<noteq> prevCapacity then Inl AssertFailed
           else Inr (True,
             p\<lparr>ip_block_index := Some \<lparr>bi_capacity = ip_next_capacity p, bi_tail = (prevCapacity - 1) AND (ip_next_capacity p - 1),
                 bi_index = old @ replicate (unat entryCount) unused_entry\<rparr>,
               ip_next_capacity := push_bit 1 (ip_next_capacity p)\<rparr>, pl1)))"

definition set_index :: "block_index \<Rightarrow> implicit_producer \<Rightarrow> implicit_producer" where
  "set_index h p = p\<lparr>ip_block_index := Some h\<rparr>"

text \<open>Writing an entry's key and moving the tail to it.\<close>

definition claim_entry :: "u64 \<Rightarrow> u64 \<Rightarrow> index_entry \<Rightarrow> block_index \<Rightarrow> block_index" where
  "claim_entry newTail start e h = h\<lparr>bi_index := (bi_index h)[unat newTail := e\<lparr>ie_key := start\<rparr>], bi_tail := newTail\<rparr>"

definition entry_free :: "index_entry \<Rightarrow> bool res" where
  "entry_free e =
     (if ie_key e = INVALID_BLOCK_BASE then Inr True
      else case ie_value e of NeverSet \<Rightarrow> Inl Indeterminate | NoBlock \<Rightarrow> Inr True | BlockAt _ \<Rightarrow> Inr False)"

definition next_tail :: "block_index \<Rightarrow> u64" where
  "next_tail h = (bi_tail h + 1) AND (bi_capacity h - 1)"

definition insert_block_index_entry ::
  "bool \<Rightarrow> u64 \<Rightarrow> implicit_producer \<Rightarrow> 'a cq_pool \<Rightarrow> (u64 option \<times> implicit_producer \<times> 'a cq_pool) res" where
  "insert_block_index_entry can_alloc start p pl =
     (case ip_block_index p of
        None \<Rightarrow> Inr (None, p, pl)
      | Some h \<Rightarrow>
          res_bind (vec_at (bi_index h) (unat (next_tail h))) (\<lambda>e.
          res_bind (entry_free e) (\<lambda>free.
            if free then Inr (Some (next_tail h), set_index (claim_entry (next_tail h) start e h) p, pl)
            else if \<not> can_alloc then Inr (None, p, pl)
            else res_bind (new_block_index p pl) (\<lambda>(made, p1, pl1).
              if \<not> made then Inr (None, p1, pl1)
              else res_bind (deref (ip_block_index p1)) (\<lambda>h1.
                   res_bind (vec_at (bi_index h1) (unat (next_tail h1))) (\<lambda>e1.
                     if ie_key e1 \<noteq> INVALID_BLOCK_BASE then Inl AssertFailed
                     else Inr (Some (next_tail h1), set_index (claim_entry (next_tail h1) start e1 h1) p1, pl1)))))))"

definition rewind_block_index_tail :: "implicit_producer \<Rightarrow> implicit_producer res" where
  "rewind_block_index_tail p =
     res_bind (deref (ip_block_index p)) (\<lambda>h.
       Inr (set_index (h\<lparr>bi_tail := (bi_tail h - 1) AND (bi_capacity h - 1)\<rparr>) p))"

text \<open>Storing into an entry's block pointer.\<close>

definition store_value :: "u64 \<Rightarrow> block_ptr \<Rightarrow> implicit_producer \<Rightarrow> implicit_producer res" where
  "store_value pos v p =
     res_bind (deref (ip_block_index p)) (\<lambda>h.
     res_bind (vec_at (bi_index h) (unat pos)) (\<lambda>e.
       Inr (set_index (h\<lparr>bi_index := (bi_index h)[unat pos := e\<lparr>ie_value := v\<rparr>]\<rparr>) p)))"

text \<open>
  The difference is made signed and then divided by \<open>BLOCK_SIZE\<close>, which is unsigned, so that the division is
  an unsigned one.
\<close>

definition get_block_index_index_for_index :: "u64 \<Rightarrow> implicit_producer \<Rightarrow> u64 res" where
  "get_block_index_index_for_index index0 p =
     (let index = index0 AND NOT (BLOCK_SIZE - 1)
      in res_bind (deref (ip_block_index p)) (\<lambda>h.
         res_bind (vec_at (bi_index h) (unat (bi_tail h))) (\<lambda>tailEntry.
           let tailBase = ie_key tailEntry
           in if tailBase = INVALID_BLOCK_BASE then Inl AssertFailed
              else let offset = (index - tailBase) div BLOCK_SIZE;
                       idx = (bi_tail h + offset) AND (bi_capacity h - 1)
                   in res_bind (vec_at (bi_index h) (unat idx)) (\<lambda>e.
                        if ie_key e = index \<and> ie_value e \<noteq> NoBlock then Inr idx else Inl AssertFailed))))"

definition get_block_index_entry_for_index :: "u64 \<Rightarrow> implicit_producer \<Rightarrow> (u64 \<times> index_entry) res" where
  "get_block_index_entry_for_index index p =
     res_bind (get_block_index_index_for_index index p) (\<lambda>idx.
     res_bind (deref (ip_block_index p)) (\<lambda>h.
     res_bind (vec_at (bi_index h) (unat idx)) (\<lambda>e. Inr (idx, e))))"

section \<open>The index as a list\<close>

text \<open>The entries from the oldest to the one at the tail.\<close>

definition index_view :: "block_index \<Rightarrow> index_entry list" where
  "index_view h = rotate (Suc (unat (bi_tail h))) (bi_index h)"

definition index_shape :: "nat \<Rightarrow> block_index \<Rightarrow> bool" where
  "index_shape k h \<longleftrightarrow> 5 \<le> k \<and> k \<le> 59 \<and> bi_capacity h = 2 ^ k \<and> length (bi_index h) = 2 ^ k \<and> unat (bi_tail h) < 2 ^ k"

lemma length_index_view [simp]: "length (index_view h) = length (bi_index h)"
  by (simp add: index_view_def)

lemma mod_add_inj:
  fixes i :: nat
  shows "i < n \<Longrightarrow> j < n \<Longrightarrow> (m + i) mod n = (m + j) mod n \<Longrightarrow> i = j"
proof (induction i j rule: linorder_wlog)
  case (le i j)
  then have "n dvd (m + j) - (m + i)" by (intro iffD1 [OF mod_eq_dvd_iff_nat]) auto
  then show ?case using le by (auto dest: dvd_imp_le)
qed simp

lemma rotate_list_update:
  assumes "i < length xs"
  shows "rotate m (xs[(m + i) mod length xs := x]) = (rotate m xs)[i := x]"
proof (rule nth_equalityI)
  fix j assume "j < length (rotate m (xs[(m + i) mod length xs := x]))"
  then have j: "j < length xs" by simp
  have "(m + i) mod length xs = (m + j) mod length xs \<longleftrightarrow> i = j"
    using mod_add_inj [of i "length xs" j m] assms j by auto
  moreover have "(m + j) mod length xs < length xs" using j by (intro mod_less_divisor) auto
  ultimately show "rotate m (xs[(m + i) mod length xs := x]) ! j = (rotate m xs)[i := x] ! j"
    using assms j by (simp add: nth_rotate nth_list_update)
qed simp

lemma rotate1_eq_snocD: "rotate1 zs = us @ [e] \<Longrightarrow> zs = e # us"
  by (cases zs) auto

lemma next_tail_pos:
  "index_shape k h \<Longrightarrow> unat (next_tail h) = Suc (unat (bi_tail h)) mod 2 ^ k"
proof -
  assume h: "index_shape k h"
  have "unat (bi_tail h) + 1 < 2 ^ 64"
  proof -
    have "(2 :: nat) ^ k \<le> 2 ^ 59" using h by (intro power_increasing) (simp_all add: index_shape_def)
    then show ?thesis using h by (simp add: index_shape_def)
  qed
  then have "unat (bi_tail h + 1) = Suc (unat (bi_tail h))"
    using unat_succ [of "bi_tail h" "- 1"] h by (simp add: word_less_nat_alt unsigned_minus_1_eq_mask mask_eq_exp_minus_1)
  then show ?thesis using h unat_and_pow2 [of "bi_tail h + 1" k] by (simp add: next_tail_def index_shape_def)
qed

lemma index_view_nth:
  "index_shape k h \<Longrightarrow> q < 2 ^ k \<Longrightarrow> index_view h ! q = bi_index h ! ((Suc (unat (bi_tail h)) + q) mod 2 ^ k)"
  by (simp add: index_view_def index_shape_def nth_rotate del: rotate_Suc)

text \<open>The entry after the tail is the oldest; claiming it moves it to the end.\<close>

lemma claim_entry_view:
  assumes "index_shape k h"
  shows "vec_at (bi_index h) (unat (next_tail h)) = Inr (hd (index_view h))"
    and "index_shape k (claim_entry (next_tail h) start e h)"
    and "index_view (claim_entry (next_tail h) start e h) = tl (index_view h) @ [e\<lparr>ie_key := start\<rparr>]"
proof -
  let ?c = "2 ^ k :: nat" and ?t = "unat (bi_tail h)" and ?xs = "bi_index h" and ?e = "e\<lparr>ie_key := start\<rparr>"
  have len: "length ?xs = ?c" and nt: "unat (next_tail h) = Suc ?t mod ?c"
    using assms next_tail_pos by (auto simp: index_shape_def)
  have v: "index_view h \<noteq> []" using len by (auto simp flip: length_0_conv)
  show "vec_at ?xs (unat (next_tail h)) = Inr (hd (index_view h))"
    using index_view_nth [OF assms, of 0] v len by (simp add: vec_at_def nt hd_conv_nth)
  show "index_shape k (claim_entry (next_tail h) start e h)"
    using assms nt by (simp add: index_shape_def claim_entry_def)
  let ?ys = "?xs[Suc ?t mod ?c := ?e]"
  have "rotate (Suc ?t) ?ys = (index_view h)[0 := ?e]"
    using rotate_list_update [of 0 ?xs "Suc ?t" ?e] len by (simp add: index_view_def)
  then have r: "rotate (Suc ?t) ?ys = ?e # tl (index_view h)" using v by (cases "index_view h") auto
  have "rotate (Suc (Suc ?t mod ?c)) ?ys = rotate (Suc (Suc ?t)) ?ys"
    using len by (subst (1 2) rotate_conv_mod) (simp add: mod_Suc_eq)
  also have "\<dots> = tl (index_view h) @ [?e]" using r by (simp only: rotate_Suc [of "Suc ?t"] rotate1.simps)
  finally show "index_view (claim_entry (next_tail h) start e h) = tl (index_view h) @ [?e]"
    by (simp add: index_view_def claim_entry_def nt)
qed

lemma pow2_minus_1_mod: "k \<le> 64 \<Longrightarrow> (2 ^ 64 - 1) mod 2 ^ k = (2 ^ k - 1 :: nat)"
  using take_bit_of_mask [of k 64, where ?'a = nat] by (simp only: take_bit_eq_mod mask_eq_exp_minus_1 min_absorb1)

lemma rewind_view:
  assumes "index_shape k h" "index_view h = us @ [e]"
  shows "index_shape k (h\<lparr>bi_tail := (bi_tail h - 1) AND (bi_capacity h - 1)\<rparr>)"
    and "index_view (h\<lparr>bi_tail := (bi_tail h - 1) AND (bi_capacity h - 1)\<rparr>) = e # us"
    and "Suc (unat ((bi_tail h - 1) AND (bi_capacity h - 1))) mod 2 ^ k = unat (bi_tail h)"
proof -
  let ?c = "2 ^ k :: nat" and ?t = "unat (bi_tail h)"
  have h: "length (bi_index h) = ?c" "?t < ?c" "k \<le> 64" "bi_capacity h = 2 ^ k" using assms(1) by (auto simp: index_shape_def)
  have "unat (bi_tail h - 1) = (if ?t = 0 then 2 ^ 64 - 1 else ?t - 1)"
    by (auto simp: unat_eq_0 unat_minus_one unsigned_minus_1_eq_mask mask_eq_exp_minus_1)
  moreover have "(2 ^ 64 - 1) mod ?c = ?c - 1" using h(3) pow2_minus_1_mod by simp
  ultimately have nt: "unat ((bi_tail h - 1) AND (bi_capacity h - 1)) = (if ?t = 0 then ?c - 1 else ?t - 1)"
    using h unat_and_pow2 [of "bi_tail h - 1" k] by auto
  then show "index_shape k (h\<lparr>bi_tail := (bi_tail h - 1) AND (bi_capacity h - 1)\<rparr>)"
    using assms(1) h(2) by (auto simp: index_shape_def)
  show "Suc (unat ((bi_tail h - 1) AND (bi_capacity h - 1))) mod 2 ^ k = ?t" using nt h(2) by auto
  have "rotate1 (rotate ?t (bi_index h)) = us @ [e]" using assms(2) by (simp add: index_view_def rotate_Suc)
  then have "rotate ?t (bi_index h) = e # us" by (rule rotate1_eq_snocD)
  moreover have "rotate (Suc (?c - 1)) (bi_index h) = rotate 0 (bi_index h)"
    using h by (subst rotate_conv_mod) simp
  ultimately show "index_view (h\<lparr>bi_tail := (bi_tail h - 1) AND (bi_capacity h - 1)\<rparr>) = e # us"
    by (auto simp: index_view_def nt simp del: rotate_Suc)
qed

text \<open>Storing a block pointer at a position of the index updates the entry in the list.\<close>

lemma store_value_view:
  assumes "index_shape k h" "q < 2 ^ k" "unat pos = (Suc (unat (bi_tail h)) + q) mod 2 ^ k" "ip_block_index p = Some h"
  shows "\<exists>h'. store_value pos v p = Inr (set_index h' p) \<and> index_shape k h' \<and> bi_tail h' = bi_tail h \<and>
     index_view h' = (index_view h)[q := (index_view h ! q)\<lparr>ie_value := v\<rparr>]"
proof -
  have len: "length (bi_index h) = 2 ^ k" using assms(1) by (simp add: index_shape_def)
  then have "store_value pos v p =
      Inr (set_index (h\<lparr>bi_index := (bi_index h)[unat pos := (index_view h ! q)\<lparr>ie_value := v\<rparr>]\<rparr>) p)"
    using assms index_view_nth [OF assms(1,2)] by (simp add: store_value_def vec_at_def)
  then show ?thesis
    using assms len rotate_list_update [of q "bi_index h" "Suc (unat (bi_tail h))" "(index_view h ! q)\<lparr>ie_value := v\<rparr>"]
    by (auto simp: index_shape_def index_view_def)
qed

text \<open>The copying loop copies the entries from the oldest to the one at the tail.\<close>

lemma copy_index_rotate:
  assumes "index_shape k h" "m < 2 ^ k" "unat pos = (unat (bi_tail h) + m) mod 2 ^ k"
  shows "copy_index (2 ^ k - m) h pos (take m (index_view h)) = Inr (index_view h)"
  using assms(2,3)
proof (induction "2 ^ k - m" arbitrary: m pos)
  case (Suc f)
  let ?c = "2 ^ k :: nat" and ?t = "unat (bi_tail h)" and ?pos = "(pos + 1) AND (bi_capacity h - 1)"
  have h: "?t < ?c" "length (index_view h) = ?c" "bi_capacity h = 2 ^ k" "k \<le> 59" using assms(1) by (auto simp: index_shape_def)
  have "(2 :: nat) ^ k \<le> 2 ^ 59" using h(4) by (intro power_increasing) simp_all
  moreover have "(?t + m) mod ?c < ?c" by simp
  ultimately have "unat pos < 2 ^ 59" using Suc.prems(2) by linarith
  then have "unat pos + 1 < 2 ^ 64" by simp
  then have "unat (pos + 1) = unat pos + 1"
    using unat_succ [of pos "- 1"] by (simp add: word_less_nat_alt unsigned_minus_1_eq_mask mask_eq_exp_minus_1)
  then have pos: "unat ?pos = (Suc ?t + m) mod ?c"
    using h unat_and_pow2 [of "pos + 1" k] Suc.prems(2) by (simp add: mod_Suc_eq)
  have e: "vec_at (bi_index h) (unat ?pos) = Inr (index_view h ! m)"
    using index_view_nth [OF assms(1) Suc.prems(1)] pos h(2) by (simp add: vec_at_def)
  have snoc: "take m (index_view h) @ [index_view h ! m] = take (Suc m) (index_view h)"
    using Suc.prems(1) h(2) by (simp add: take_Suc_conv_app_nth)
  have "?pos = bi_tail h \<longleftrightarrow> Suc m = ?c"
    using mod_add_inj [of "Suc m mod ?c" ?c 0 ?t] Suc.prems(1) h(1) pos
  proof (cases "Suc m = ?c")
    case True
    then have "Suc ?t + m = ?t + ?c" by simp
    then have "(Suc ?t + m) mod ?c = ?t" using h(1) by (simp only: mod_add_self2) simp
    with pos have "?pos = bi_tail h" by (simp only: word_unat_eq_iff)
    with True show ?thesis by simp
  qed (auto simp: word_unat_eq_iff mod_add_right_eq Suc_lessI)
  then show ?case
  proof (cases "Suc m = ?c")
    case True
    with \<open>?pos = bi_tail h \<longleftrightarrow> Suc m = ?c\<close> e snoc h(2) show ?thesis by (simp flip: Suc.hyps(2))
  next
    case False
    have "f = ?c - Suc m" using Suc.hyps(2) by linarith
    then have "copy_index f h ?pos (take (Suc m) (index_view h)) = Inr (index_view h)"
      using Suc.hyps(1) [of "Suc m" ?pos] Suc.prems(1) False pos by simp
    with False \<open>?pos = bi_tail h \<longleftrightarrow> Suc m = ?c\<close> e snoc show ?thesis by (simp flip: Suc.hyps(2))
  qed
qed simp

text \<open>Growing an index puts as many unused entries before the old ones.\<close>

lemma new_block_index_grows:
  assumes "ip_block_index p = Some h" "index_shape k h" "k < 59" "ip_next_capacity p = 2 ^ Suc k"
  shows "\<exists>made h'. new_block_index p pl = Inr (made, if made then p\<lparr>ip_block_index := Some h', ip_next_capacity := 2 ^ Suc (Suc k)\<rparr> else p,
      pl\<lparr>pl_mallocs := pl_mallocs pl + 1\<rparr>) \<and>
     index_shape (Suc k) h' \<and> index_view h' = replicate (2 ^ k) unused_entry @ index_view h"
proof -
  have h: "bi_capacity h = 2 ^ k" "length (bi_index h) = 2 ^ k" "5 \<le> k" using assms(2) by (auto simp: index_shape_def)
  have lt: "(2 :: nat) ^ k < 2 ^ 64" using assms(3) by (intro power_strict_increasing) simp_all
  have "(2 ^ k :: u64) = of_nat (2 ^ k)" by simp
  then have u: "unat (2 ^ k :: u64) = 2 ^ k" using lt by (simp only: unat_of_nat) simp
  have copy: "copy_index (length (bi_index h)) h (bi_tail h) [] = Inr (index_view h)"
    using copy_index_rotate [OF assms(2), of 0 "bi_tail h"] assms(2) h(2) by (simp add: index_shape_def)
  have "(0 :: nat) < 2 ^ k" by simp
  then have lt2: "(2 ^ k - Suc 0) mod (2 * 2 ^ k) = (2 ^ k - Suc 0 :: nat)" by (intro mod_less) linarith
  define h' where "h' = \<lparr>bi_capacity = 2 ^ Suc k, bi_tail = (2 ^ k - 1) AND (2 ^ Suc k - 1 :: u64),
    bi_index = index_view h @ replicate (2 ^ k) unused_entry\<rparr>"
  have "unat (2 ^ k - 1 :: u64) = 2 ^ k - 1" using unat_and_pow2 [of "- 1" k] pow2_minus_1_mod [of k] assms(3)
    by (simp add: unsigned_minus_1_eq_mask mask_eq_exp_minus_1)
  then have t: "unat (bi_tail h') = 2 ^ k - 1"
    using unat_and_pow2 [of "2 ^ k - 1" "Suc k"] lt2 by (simp add: h'_def)
  moreover have "2 ^ k - Suc 0 < (2 * 2 ^ k :: nat)" using \<open>(0 :: nat) < 2 ^ k\<close> by linarith
  ultimately have "index_shape (Suc k) h'" using assms(3) h by (simp add: index_shape_def h'_def)
  moreover have "index_view h' = replicate (2 ^ k) unused_entry @ index_view h"
  proof -
    have "Suc (unat (bi_tail h')) = length (index_view h)" using t h(2) by simp
    moreover have "bi_index h' = index_view h @ replicate (2 ^ k) unused_entry" by (simp add: h'_def)
    ultimately show ?thesis by (simp only: index_view_def [of h'] rotate_append)
  qed
  moreover have "new_block_index p pl = Inr (pl_mem pl (pl_mallocs pl),
      if pl_mem pl (pl_mallocs pl) then p\<lparr>ip_block_index := Some h', ip_next_capacity := 2 ^ Suc (Suc k)\<rparr> else p,
      pl\<lparr>pl_mallocs := pl_mallocs pl + 1\<rparr>)"
    using assms(1,4) h(1,2) copy u by (simp add: new_block_index_def pl_malloc_def h'_def push_bit_eq_mult Let_def)
  ultimately show ?thesis by blast
qed

section \<open>The index invariant\<close>

text \<open>
  The entries of the blocks \<open>bs\<close>, of which the last one is the \<open>n\<close>-th block of the producer; a block's key is
  the position of its first element.
\<close>

definition live_entries :: "nat \<Rightarrow> nat list \<Rightarrow> index_entry list" where
  "live_entries n bs =
     map (\<lambda>j. \<lparr>ie_key = of_nat (32 * (n - length bs + j)), ie_value = BlockAt (bs ! j)\<rparr>) [0..<length bs]"

definition index_inv :: "implicit_producer \<Rightarrow> nat \<Rightarrow> nat list \<Rightarrow> bool" where
  "index_inv p n bs \<longleftrightarrow>
     (case ip_block_index p of
        None \<Rightarrow> n = 0 \<and> bs = []
      | Some h \<Rightarrow> \<exists>k old. index_shape k h \<and> ip_next_capacity p = 2 ^ Suc k \<and> length bs \<le> n \<and>
          index_view h = old @ live_entries n bs \<and> list_all (\<lambda>e. entry_free e = Inr True) old)"

text \<open>An entry has been claimed for the next block.\<close>

definition index_pending :: "implicit_producer \<Rightarrow> nat \<Rightarrow> nat list \<Rightarrow> u64 \<Rightarrow> u64 \<Rightarrow> bool" where
  "index_pending p n bs start pos \<longleftrightarrow>
     (\<exists>h k old e. ip_block_index p = Some h \<and> index_shape k h \<and> ip_next_capacity p = 2 ^ Suc k \<and> length bs \<le> n \<and>
        index_view h = (old @ live_entries n bs) @ [e] \<and> ie_key e = start \<and> list_all (\<lambda>e. entry_free e = Inr True) old \<and>
        pos = bi_tail h)"

lemma length_live_entries [simp]: "length (live_entries n bs) = length bs"
  by (simp add: live_entries_def)

lemma live_entries_Nil [simp]: "live_entries n [] = []"
  by (simp add: live_entries_def)

lemma live_entries_snoc:
  "length bs \<le> n \<Longrightarrow> live_entries n bs @ [\<lparr>ie_key = of_nat (32 * n), ie_value = BlockAt b\<rparr>] = live_entries (Suc n) (bs @ [b])"
  by (simp add: live_entries_def nth_append)

lemma live_entries_Cons:
  "length bs < n \<Longrightarrow> live_entries n (b # bs) =
     \<lparr>ie_key = of_nat (32 * (n - Suc (length bs))), ie_value = BlockAt b\<rparr> # live_entries n bs"
  by (simp add: live_entries_def upt_conv_Cons Suc_diff_Suc flip: map_Suc_upt del: upt_Suc)

lemma block_base_valid: "(of_nat (32 * j) :: u64) \<noteq> INVALID_BLOCK_BASE"
proof
  assume "(of_nat (32 * j) :: u64) = INVALID_BLOCK_BASE"
  then have "unat (of_nat (32 * j) :: u64) mod 2 = 1" by (simp add: INVALID_BLOCK_BASE_def)
  moreover have "unat (of_nat (32 * j) :: u64) mod 2 = 32 * j mod 2" by (simp only: unat_of_nat) (simp add: mod_mod_cancel)
  moreover have "32 * j mod 2 = 0" by presburger
  ultimately show False by simp
qed

lemma live_entry_not_free: "e \<in> set (live_entries n bs) \<Longrightarrow> entry_free e = Inr False"
  using block_base_valid by (auto simp: live_entries_def entry_free_def simp del: of_nat_mult of_nat_add distrib_left_numeral)

lemma entry_free_unused [simp]: "entry_free unused_entry = Inr True"
  by (simp add: entry_free_def unused_entry_def)

lemma pending_claim:
  assumes "ip_block_index p = Some h" "index_shape k h" "ip_next_capacity p = 2 ^ Suc k" "length bs \<le> n"
    and "index_view h = e # old @ live_entries n bs" "list_all (\<lambda>e. entry_free e = Inr True) old"
  shows "index_pending (set_index (claim_entry (next_tail h) start e' h) p) n bs start (next_tail h)"
  using assms claim_entry_view(2,3) [OF assms(2), of start e'] unfolding index_pending_def
  by (intro exI [of _ "claim_entry (next_tail h) start e' h"] exI [of _ k] exI [of _ old] exI [of _ "e'\<lparr>ie_key := start\<rparr>"])
    (simp add: set_index_def claim_entry_def)

lemma insert_block_index_entry_ok:
  assumes "index_inv p n bs" "length bs < 2 ^ 58"
  shows "\<exists>r p' m. insert_block_index_entry can_alloc start p pl = Inr (r, p', pl\<lparr>pl_mallocs := m\<rparr>) \<and>
     p' = p\<lparr>ip_block_index := ip_block_index p', ip_next_capacity := ip_next_capacity p'\<rparr> \<and>
     (case r of None \<Rightarrow> p' = p | Some pos \<Rightarrow> index_pending p' n bs start pos)"
proof (cases "ip_block_index p")
  case None
  then show ?thesis by (auto simp: insert_block_index_entry_def intro: exI [of _ "pl_mallocs pl"])
next
  case (Some h)
  then obtain k old where h: "index_shape k h" "ip_next_capacity p = 2 ^ Suc k" "length bs \<le> n"
    "index_view h = old @ live_entries n bs" "list_all (\<lambda>e. entry_free e = Inr True) old"
    using assms(1) by (auto simp: index_inv_def)
  note claim = claim_entry_view(1) [OF h(1)]
  show ?thesis
  proof (cases old)
    case (Cons e old')
    then have "index_pending (set_index (claim_entry (next_tail h) start e h) p) n bs start (next_tail h)"
      using pending_claim [OF Some h(1-3), of e old'] h(4,5) by simp
    moreover have "insert_block_index_entry can_alloc start p pl =
        Inr (Some (next_tail h), set_index (claim_entry (next_tail h) start e h) p, pl\<lparr>pl_mallocs := pl_mallocs pl\<rparr>)"
      using Cons h(4,5) claim Some by (simp add: insert_block_index_entry_def)
    ultimately show ?thesis
      by (intro exI [of _ "Some (next_tail h)"] exI [of _ "set_index (claim_entry (next_tail h) start e h) p"]
        exI [of _ "pl_mallocs pl"]) (simp add: set_index_def)
  next
    case Nil
    then have len: "length bs = 2 ^ k" using h(1,4) length_index_view [of h] by (simp add: index_shape_def)
    then have k: "k < 58" using assms(2) by (intro power_less_imp_less_exp [of 2 k 58]) simp_all
    have "hd (index_view h) \<in> set (live_entries n bs)" using h(4) Nil len by (cases "live_entries n bs") (auto simp flip: length_0_conv)
    then have full: "entry_free (hd (index_view h)) = Inr False" by (rule live_entry_not_free)
    have "k < 59" using k by simp
    obtain made h' where g: "new_block_index p pl = Inr (made,
        if made then p\<lparr>ip_block_index := Some h', ip_next_capacity := 2 ^ Suc (Suc k)\<rparr> else p, pl\<lparr>pl_mallocs := pl_mallocs pl + 1\<rparr>)"
      "index_shape (Suc k) h'" "index_view h' = replicate (2 ^ k) unused_entry @ index_view h"
      using new_block_index_grows [OF Some h(1) \<open>k < 59\<close> h(2), of pl] by blast
    let ?p = "p\<lparr>ip_block_index := Some h', ip_next_capacity := 2 ^ Suc (Suc k)\<rparr>"
    have v': "index_view h' = unused_entry # replicate (2 ^ k - 1) unused_entry @ live_entries n bs"
      using g(3) h(4) Nil by (metis append_Cons append_Nil power_not_zero replicate_Suc Suc_diff_1 zero_neq_numeral gr0I)
    have pend: "index_pending (set_index (claim_entry (next_tail h') start unused_entry h') ?p) n bs start (next_tail h')"
      using pending_claim [of ?p h' "Suc k", OF _ g(2) _ h(3) v'] by (simp add: list_all_iff)
    have "vec_at (bi_index h') (unat (next_tail h')) = Inr unused_entry" using claim_entry_view(1) [OF g(2)] v' by simp
    then have "insert_block_index_entry can_alloc start p pl =
        (if \<not> can_alloc then Inr (None, p, pl)
         else if made then Inr (Some (next_tail h'), set_index (claim_entry (next_tail h') start unused_entry h') ?p, pl\<lparr>pl_mallocs := pl_mallocs pl + 1\<rparr>)
         else Inr (None, p, pl\<lparr>pl_mallocs := pl_mallocs pl + 1\<rparr>))"
      using claim full Some g(1) by (simp add: insert_block_index_entry_def unused_entry_def)
    then show ?thesis
      using pend by (cases "can_alloc \<and> made") (auto simp: set_index_def intro: exI [of _ "pl_mallocs pl"])
  qed
qed

text \<open>The claimed entry is filled, or given back.\<close>

lemma pending_filled:
  assumes "index_pending p n bs (of_nat (32 * n)) pos"
  shows "\<exists>h'. store_value pos (BlockAt b) p = Inr (set_index h' p) \<and> index_inv (set_index h' p) (Suc n) (bs @ [b])"
proof -
  obtain h k old e where h: "ip_block_index p = Some h" "index_shape k h" "ip_next_capacity p = 2 ^ Suc k" "length bs \<le> n"
    "index_view h = (old @ live_entries n bs) @ [e]" "ie_key e = of_nat (32 * n)"
    "list_all (\<lambda>e. entry_free e = Inr True) old" "pos = bi_tail h"
    using assms by (auto simp: index_pending_def)
  have len: "length (old @ live_entries n bs) = 2 ^ k - 1" "unat (bi_tail h) < 2 ^ k"
    using h(2) arg_cong [OF h(5), of length] by (simp_all add: index_shape_def)
  then have "unat pos = (Suc (unat (bi_tail h)) + (2 ^ k - 1)) mod 2 ^ k" using h(8) by (simp add: mod_add_self2)
  from store_value_view [OF h(2) _ this h(1)] obtain h' where h': "store_value pos (BlockAt b) p = Inr (set_index h' p)"
    "index_shape k h'" "index_view h' = (index_view h)[2 ^ k - 1 := (index_view h ! (2 ^ k - 1))\<lparr>ie_value := BlockAt b\<rparr>]"
    by auto
  have "index_view h' = (old @ live_entries n bs) @ [e\<lparr>ie_value := BlockAt b\<rparr>]"
    using h'(3) h(5) len(1) by (metis list_update_length nth_append_length)
  moreover have "e\<lparr>ie_value := BlockAt b\<rparr> = \<lparr>ie_key = of_nat (32 * n), ie_value = BlockAt b\<rparr>" using h(6) by (cases e) simp
  ultimately have "index_view h' = old @ live_entries (Suc n) (bs @ [b])" using live_entries_snoc [OF h(4)] by simp
  then have "index_inv (set_index h' p) (Suc n) (bs @ [b])"
    using h h'(2) by (auto simp: index_inv_def set_index_def)
  with h'(1) show ?thesis by blast
qed

lemma pending_rewound:
  assumes "index_pending p n bs start pos"
  shows "\<exists>p1 h'. rewind_block_index_tail p = Inr p1 \<and> store_value pos NoBlock p1 = Inr (set_index h' p) \<and> index_inv (set_index h' p) n bs"
proof -
  obtain h k old e where h: "ip_block_index p = Some h" "index_shape k h" "ip_next_capacity p = 2 ^ Suc k" "length bs \<le> n"
    "index_view h = (old @ live_entries n bs) @ [e]" "list_all (\<lambda>e. entry_free e = Inr True) old" "pos = bi_tail h"
    using assms by (auto simp: index_pending_def)
  let ?h = "h\<lparr>bi_tail := (bi_tail h - 1) AND (bi_capacity h - 1)\<rparr>"
  note rw = rewind_view [OF h(2,5)]
  have "unat pos = (Suc (unat (bi_tail ?h)) + 0) mod 2 ^ k" using rw(3) h(7) by simp
  from store_value_view [OF rw(1) _ this, of "set_index ?h p"] obtain h' where
    h': "store_value pos NoBlock (set_index ?h p) = Inr (set_index h' (set_index ?h p))" "index_shape k h'"
      "index_view h' = (index_view ?h)[0 := (index_view ?h ! 0)\<lparr>ie_value := NoBlock\<rparr>]"
    by (auto simp: set_index_def)
  have "index_view h' = (e\<lparr>ie_value := NoBlock\<rparr> # old) @ live_entries n bs" using h'(3) rw(2) by simp
  moreover have "entry_free (e\<lparr>ie_value := NoBlock\<rparr>) = Inr True" by (simp add: entry_free_def)
  ultimately have "index_inv (set_index h' p) n bs" using h h'(2) by (fastforce simp: index_inv_def set_index_def)
  with h'(1) h(1) show ?thesis
    by (intro exI [of _ "set_index ?h p"] exI [of _ h']) (simp add: rewind_block_index_tail_def set_index_def)
qed

section \<open>Looking an element's block up\<close>

text \<open>
  Although the division is unsigned, the result is right: what it adds, \<open>2 ^ 59\<close>, is a multiple of the
  capacity.
\<close>

lemma unsigned_offset:
  assumes "j < 2 ^ k" "k \<le> 59" "t < 2 ^ k" "j \<le> n"
  shows "unat ((of_nat t + (of_nat (32 * (n - j)) - of_nat (32 * n)) div 32) AND (2 ^ k - 1) :: u64) = (t + 2 ^ k - j) mod 2 ^ k"
proof -
  have p59: "(2 :: nat) ^ k \<le> 2 ^ 59" using assms(2) by (intro power_increasing) simp_all
  have e64: "2 ^ 64 - 32 * j = 32 * (2 ^ 59 - j)" by simp
  have n: "32 * n = 32 * (n - j) + 32 * j" using assms(4) by simp
  have "(of_nat (32 * (n - j)) - of_nat (32 * n) :: u64) = - of_nat (32 * j)" by (subst n) (simp only: of_nat_add diff_add_eq_diff_diff_swap, simp)
  moreover have "unat (- of_nat (32 * j) :: u64) = (if j = 0 then 0 else 2 ^ 64 - 32 * j)"
    using unat_minus_of_nat [of "32 * j"] assms(1) p59 by simp
  ultimately have "unat ((of_nat (32 * (n - j)) - of_nat (32 * n)) div 32 :: u64) = (if j = 0 then 0 else 2 ^ 59 - j)"
    by (simp only: unat_div unat_numeral e64) simp
  moreover have "unat (of_nat t :: u64) = t" using assms(3) p59 by (simp add: unat_of_nat)
  ultimately have s: "unat (of_nat t + (of_nat (32 * (n - j)) - of_nat (32 * n)) div 32 :: u64) = (if j = 0 then t else t + (2 ^ 59 - j))"
    using assms(1,3) p59 by (subst unat_plus_if_size) (auto simp: word_size)
  have "(2 :: nat) ^ 59 = 2 ^ k * 2 ^ (59 - k)" using assms(2) by (simp flip: power_add)
  then have "t + (2 ^ 59 - j) = t + 2 ^ k - j + 2 ^ k * (2 ^ (59 - k) - 1)"
    using assms(1) p59 by (simp add: diff_mult_distrib2)
  then have "(t + (2 ^ 59 - j)) mod 2 ^ k = (t + 2 ^ k - j) mod 2 ^ k" by simp
  then show ?thesis using s unat_and_pow2 by (auto simp: assms(3))
qed

lemma block_base:
  "(of_nat i AND NOT (BLOCK_SIZE - 1) :: u64) = of_nat (32 * (i div 32))"
proof -
  let ?w = "of_nat i :: u64"
  have m: "(BLOCK_SIZE - 1 :: u64) = mask 5" by (simp add: BLOCK_SIZE_def mask_eq_exp_minus_1)
  have "(?w AND mask 5) + (?w AND NOT (mask 5)) = (?w AND mask 5) OR (?w AND NOT (mask 5))"
    by (rule disjunctive_add_eq_or) (rule bit_eqI, simp add: bit_simps)
  also have "\<dots> = ?w" by (rule bit_eqI) (auto simp: bit_simps)
  finally have "?w AND NOT (mask 5) = ?w - take_bit 5 ?w" by (simp add: take_bit_eq_mask algebra_simps)
  also have "take_bit 5 ?w = of_nat (i mod 32)" by (simp only: take_bit_of_nat) (simp add: take_bit_eq_mod)
  also have "?w - of_nat (i mod 32) = of_nat (32 * (i div 32))"
    by (metis add_diff_cancel_right' mult_div_mod_eq of_nat_add)
  finally show ?thesis by (simp only: m)
qed

text \<open>Looking up a position finds the entry of its block; emptying the oldest block's entry drops that block.\<close>

lemma lookup_ok:
  assumes "index_inv p n bs" "j < length bs" "i div 32 = n - length bs + j"
  shows "\<exists>pos. get_block_index_entry_for_index (of_nat i) p = Inr (pos, \<lparr>ie_key = of_nat (32 * (i div 32)), ie_value = BlockAt (bs ! j)\<rparr>) \<and>
     (j = 0 \<longrightarrow> (\<exists>h'. store_value pos NoBlock p = Inr (set_index h' p) \<and> index_inv (set_index h' p) n (tl bs)))"
proof -
  obtain h k old where h: "ip_block_index p = Some h" "index_shape k h" "ip_next_capacity p = 2 ^ Suc k" "length bs \<le> n"
    "index_view h = old @ live_entries n bs" "list_all (\<lambda>e. entry_free e = Inr True) old"
    using assms(1,2) by (auto simp: index_inv_def split: option.splits)
  let ?c = "2 ^ k :: nat" and ?t = "unat (bi_tail h)" and ?d = "length bs - 1 - j"
  have sh: "bi_capacity h = 2 ^ k" "?t < ?c" "length (bi_index h) = ?c" "k \<le> 59" using h(2) by (auto simp: index_shape_def)
  have len: "length old + length bs = ?c" using arg_cong [OF h(5), of length] sh(3) by simp
  have live: "index_view h ! (length old + q) = \<lparr>ie_key = of_nat (32 * (n - length bs + q)), ie_value = BlockAt (bs ! q)\<rparr>"
    if "q < length bs" for q using that by (simp add: h(5) nth_append live_entries_def)
  have pos_of: "bi_index h ! ((Suc ?t + (length old + q)) mod ?c) = index_view h ! (length old + q)" if "q < length bs" for q
    using index_view_nth [OF h(2), of "length old + q"] that len by simp
  have "bi_index h ! ?t = index_view h ! (length old + (length bs - 1))"
    using pos_of [of "length bs - 1"] assms(2) sh(2) len by (simp add: mod_add_self2)
  moreover have "n - length bs + (length bs - 1) = n - 1" using assms(2) h(4) by simp
  ultimately have tl: "ie_key (bi_index h ! ?t) = of_nat (32 * (n - 1))" using live [of "length bs - 1"] assms(2) by simp
  define pos where "pos = (bi_tail h + (of_nat (32 * (i div 32)) - of_nat (32 * (n - 1))) div BLOCK_SIZE) AND (bi_capacity h - 1)"
  have "i div 32 = n - 1 - ?d" using assms(2,3) h(4) by simp
  then have "unat pos = (?t + ?c - ?d) mod ?c"
    using unsigned_offset [of ?d k ?t "n - 1"] assms(2) len sh(1,2,4) h(4) by (simp add: pos_def BLOCK_SIZE_def)
  also have "?t + ?c - ?d = Suc ?t + (length old + j)" using len assms(2) by simp
  finally have pos: "unat pos = (Suc ?t + (length old + j)) mod ?c" .
  let ?e = "\<lparr>ie_key = of_nat (32 * (i div 32)), ie_value = BlockAt (bs ! j)\<rparr>"
  have at: "bi_index h ! unat pos = ?e" using pos pos_of [OF assms(2)] live [OF assms(2)] assms(3) by simp
  have "unat pos < ?c" by (simp add: pos)
  then have "get_block_index_entry_for_index (of_nat i) p = Inr (pos, ?e)"
    using h(1) tl at sh(2,3) block_base_valid [of "n - 1"]
    by (simp add: get_block_index_entry_for_index_def get_block_index_index_for_index_def block_base vec_at_def pos_def Let_def
        del: of_nat_mult)
  moreover have "\<exists>h'. store_value pos NoBlock p = Inr (set_index h' p) \<and> index_inv (set_index h' p) n (tl bs)" if z: "j = 0"
  proof -
    obtain h' where h': "store_value pos NoBlock p = Inr (set_index h' p)" "index_shape k h'"
      "index_view h' = (index_view h)[length old := (index_view h ! length old)\<lparr>ie_value := NoBlock\<rparr>]"
      using store_value_view [OF h(2) _ pos h(1), of NoBlock] z len assms(2) by auto
    obtain b bs' where bs: "bs = b # bs'" using assms(2) by (cases bs) auto
    then have "index_view h' = (old @ [?e\<lparr>ie_value := NoBlock\<rparr>]) @ live_entries n bs'"
      using h'(3) live_entries_Cons [of bs' n b] h(4,5) assms(3) z by (simp add: list_update_append)
    moreover have "entry_free (?e\<lparr>ie_value := NoBlock\<rparr>) = Inr True" by (simp add: entry_free_def)
    ultimately have "index_inv (set_index h' p) n bs'" using h h'(2) bs by (fastforce simp: index_inv_def set_index_def)
    with h'(1) bs show ?thesis by auto
  qed
  ultimately show ?thesis by blast
qed

end
