(* ===== verification/CqProducer.thy ===== *)
theory CqProducer
  imports CqIndex
begin

text \<open>
  \<^verbatim>\<open>lib/concurrentqueue.h\<close>, part three: enqueueing into and dequeueing from an implicit producer.  The invariant
  relates a producer and the heap to the list of its elements, over indices that wrap around at \<open>2 ^ 64\<close>: \<open>h\<close>
  counts the elements ever dequeued and \<open>bs\<close> are the blocks in use, the oldest first.
\<close>

section \<open>Operations\<close>

definition MAX_SUBQUEUE_SIZE :: u64 where
  "MAX_SUBQUEUE_SIZE = - 1"

definition IMPLICIT_INITIAL_INDEX_SIZE :: u64 where
  "IMPLICIT_INITIAL_INDEX_SIZE = 32"

definition ImplicitProducer :: "'a cq_pool \<Rightarrow> (implicit_producer \<times> 'a cq_pool) res" where
  "ImplicitProducer pl =
     (let p = \<lparr>ip_tail_index = 0, ip_head_index = 0, ip_optimistic_count = 0, ip_overcommit = 0, ip_tail_block = None,
               ip_inactive = False, ip_next_capacity = IMPLICIT_INITIAL_INDEX_SIZE, ip_block_index = None\<rparr>
      in res_bind (new_block_index p pl) (\<lambda>(_, p', pl'). Inr (p', pl')))"

definition size_approx :: "implicit_producer \<Rightarrow> u64" where
  "size_approx p =
     (if circular_less_than (ip_head_index p) (ip_tail_index p) then ip_tail_index p - ip_head_index p else 0)"

text \<open>The element is built last: its construction does not throw.\<close>

definition construct_at_tail :: "'a \<Rightarrow> implicit_producer \<Rightarrow> 'a cq_pool \<Rightarrow> (bool \<times> implicit_producer \<times> 'a cq_pool) res" where
  "construct_at_tail x p pl =
     res_bind (deref (ip_tail_block p)) (\<lambda>tb.
       Inr (True, p\<lparr>ip_tail_index := 1 + ip_tail_index p\<rparr>, pl_update tb (bk_construct (ip_tail_index p) x) pl))"

definition implicit_enqueue ::
  "bool \<Rightarrow> 'a \<Rightarrow> implicit_producer \<Rightarrow> 'a cq_pool \<Rightarrow> (bool \<times> implicit_producer \<times> 'a cq_pool) res" where
  "implicit_enqueue can_alloc x p pl =
     (let currentTailIndex = ip_tail_index p
      in if currentTailIndex AND (BLOCK_SIZE - 1) = 0 then
           (let head = ip_head_index p
            in if circular_less_than currentTailIndex head then Inl AssertFailed
               else if \<not> circular_less_than head (currentTailIndex + BLOCK_SIZE) \<or>
                 (MAX_SUBQUEUE_SIZE \<noteq> - 1 \<and> (MAX_SUBQUEUE_SIZE = 0 \<or> MAX_SUBQUEUE_SIZE - BLOCK_SIZE < currentTailIndex - head))
               then Inr (False, p, pl)
               else res_bind (insert_block_index_entry can_alloc currentTailIndex p pl) (\<lambda>(r, p1, pl1).
                 case r of
                   None \<Rightarrow> Inr (False, p1, pl1)
                 | Some idxEntry \<Rightarrow>
                     res_bind (requisition_block can_alloc pl1) (\<lambda>(newBlock, pl2).
                       case newBlock of
                         None \<Rightarrow>
                           res_bind (rewind_block_index_tail p1) (\<lambda>p2.
                           res_bind (store_value idxEntry NoBlock p2) (\<lambda>p3. Inr (False, p3, pl2)))
                       | Some b \<Rightarrow>
                           res_bind (store_value idxEntry (BlockAt b) p1) (\<lambda>p2.
                             construct_at_tail x (p2\<lparr>ip_tail_block := Some b\<rparr>) (pl_update b bk_reset_empty pl2)))))
         else construct_at_tail x p pl)"

definition implicit_dequeue :: "implicit_producer \<Rightarrow> 'a cq_pool \<Rightarrow> ('a option \<times> implicit_producer \<times> 'a cq_pool) res" where
  "implicit_dequeue p pl =
     (let tail = ip_tail_index p; overcommit = ip_overcommit p
      in if circular_less_than (ip_optimistic_count p - overcommit) tail then
           (let myDequeueCount = ip_optimistic_count p;
                p1 = p\<lparr>ip_optimistic_count := myDequeueCount + 1\<rparr>
            in if circular_less_than (myDequeueCount - overcommit) (ip_tail_index p1) then
                 (let index = ip_head_index p1; p2 = p1\<lparr>ip_head_index := index + 1\<rparr>
                  in res_bind (get_block_index_entry_for_index index p2) (\<lambda>(pos, entry).
                     case ie_value entry of
                       BlockAt block \<Rightarrow>
                         res_bind (bk_take index (pl_heap pl block)) (\<lambda>(x, b1).
                         res_bind (bk_set_empty b1) (\<lambda>(now_empty, b2).
                           let pl1 = pl_update block (\<lambda>_. b2) pl
                           in if now_empty then
                                res_bind (store_value pos NoBlock p2) (\<lambda>p3. Inr (Some x, p3, add_block_to_free_list block pl1))
                              else Inr (Some x, p2, pl1)))
                     | NoBlock \<Rightarrow> Inl NullDeref
                     | NeverSet \<Rightarrow> Inl Indeterminate))
               else Inr (None, p1\<lparr>ip_overcommit := ip_overcommit p1 + 1\<rparr>, pl))
         else Inr (None, p, pl))"

section \<open>The invariant\<close>

text \<open>\<open>n\<close> is the number of blocks begun so far.\<close>

definition producer_nums :: "implicit_producer \<Rightarrow> nat \<Rightarrow> nat \<Rightarrow> nat list \<Rightarrow> nat \<Rightarrow> bool" where
  "producer_nums p h n bs m \<longleftrightarrow>
     32 * n - h < 2 ^ 63 \<and> h div 32 \<le> n \<and> h + m \<le> 32 * n \<and>
     ip_tail_index p = of_nat (h + m) \<and> ip_head_index p = of_nat h \<and> ip_optimistic_count p - ip_overcommit p = of_nat h \<and>
     index_inv p n bs \<and> length bs = n - h div 32 \<and> distinct bs"

definition producer_heap :: "(nat \<Rightarrow> 'a cq_block) \<Rightarrow> nat \<Rightarrow> nat list \<Rightarrow> 'a list \<Rightarrow> bool" where
  "producer_heap hp h bs xs \<longleftrightarrow>
     (\<forall>k < length bs. bk_completely_dequeued (hp (bs ! k)) = (if k = 0 then of_nat (h mod 32) else 0)) \<and>
     (\<forall>q < length xs. bk_elements (hp (bs ! ((h + q) div 32 - h div 32))) ! ((h + q) mod 32) = Some (xs ! q))"

definition producer_core :: "(nat \<Rightarrow> 'a cq_block) \<Rightarrow> implicit_producer \<Rightarrow> nat \<Rightarrow> nat \<Rightarrow> nat list \<Rightarrow> 'a list \<Rightarrow> bool" where
  "producer_core hp p h n bs xs \<longleftrightarrow> producer_nums p h n bs (length xs) \<and> producer_heap hp h bs xs"

definition producer_ok :: "(nat \<Rightarrow> 'a cq_block) \<Rightarrow> implicit_producer \<Rightarrow> nat \<Rightarrow> nat list \<Rightarrow> 'a list \<Rightarrow> bool" where
  "producer_ok hp p h bs xs \<longleftrightarrow>
     producer_core hp p h ((h + length xs + 31) div 32) bs xs \<and>
     ((h + length xs) mod 32 \<noteq> 0 \<longrightarrow> ip_tail_block p = Some (last bs))"

definition producer_ready :: "(nat \<Rightarrow> 'a cq_block) \<Rightarrow> implicit_producer \<Rightarrow> nat \<Rightarrow> nat list \<Rightarrow> 'a list \<Rightarrow> bool" where
  "producer_ready hp p h bs xs \<longleftrightarrow>
     producer_core hp p h ((h + length xs) div 32 + 1) bs xs \<and> ip_tail_block p = Some (last bs)"

text \<open>Where the elements are.\<close>

lemma block_offset:
  fixes h :: nat
  assumes "h + q < 32 * n"
  shows "(h + q) div 32 - h div 32 < n - h div 32" and "h div 32 \<le> (h + q) div 32"
  using assms by (auto intro: div_le_mono less_mult_imp_div_less diff_less_mono simp: mult.commute)

lemma blocks_begun:
  shows "t mod 32 = 0 \<Longrightarrow> (t + 31) div 32 = (t :: nat) div 32" and "t mod 32 \<noteq> 0 \<Longrightarrow> (t + 31) div 32 = (t :: nat) div 32 + 1"
proof -
  have r: "t mod 32 < 32" by simp
  have "t + 31 = 32 * (t div 32) + (t mod 32 + 31)" by simp
  then have e: "(t + 31) div 32 = t div 32 + (t mod 32 + 31) div 32" by (metis div_mult_self4 zero_neq_numeral)
  show "(t + 31) div 32 = t div 32" if "t mod 32 = 0" using e that by simp
  show "(t + 31) div 32 = t div 32 + 1" if "t mod 32 \<noteq> 0" using e that r div_nat_eqI [of 32 1 "t mod 32 + 31"] by simp
qed

lemma producer_heap_cong:
  assumes "producer_heap hp h bs xs" "length bs = n - h div 32" "h + length xs \<le> 32 * n" "\<And>b. b \<in> set bs \<Longrightarrow> hp' b = hp b"
  shows "producer_heap hp' h bs xs"
proof -
  have e: "hp' (bs ! ((h + q) div 32 - h div 32)) = hp (bs ! ((h + q) div 32 - h div 32))" if "q < length xs" for q
    using that assms(2,3) block_offset(1) [of h q n] by (intro assms(4) nth_mem) simp
  have d: "hp' (bs ! k) = hp (bs ! k)" if "k < length bs" for k using that by (intro assms(4) nth_mem)
  show ?thesis
    unfolding producer_heap_def
  proof (intro conjI allI impI)
    fix k assume k: "k < length bs"
    show "bk_completely_dequeued (hp' (bs ! k)) = (if k = 0 then of_nat (h mod 32) else 0)"
      by (subst d [OF k]) (use assms(1) k in \<open>unfold producer_heap_def, blast\<close>)
  next
    fix q assume q: "q < length xs"
    show "bk_elements (hp' (bs ! ((h + q) div 32 - h div 32))) ! ((h + q) mod 32) = Some (xs ! q)"
      by (subst e [OF q]) (use assms(1) q in \<open>unfold producer_heap_def, blast\<close>)
  qed
qed

lemma producer_core_cong:
  assumes "\<And>b. b \<in> set bs \<Longrightarrow> hp' b = hp b"
  shows "producer_core hp' p h n bs xs = producer_core hp p h n bs xs"
proof (cases "producer_nums p h n bs (length xs)")
  case True
  then have n: "length bs = n - h div 32" "h + length xs \<le> 32 * n" unfolding producer_nums_def by blast+
  have "producer_heap hp' h bs xs = producer_heap hp h bs xs"
  proof
    show "producer_heap hp h bs xs" if "producer_heap hp' h bs xs" by (rule producer_heap_cong [OF that n]) (simp add: assms)
    show "producer_heap hp' h bs xs" if "producer_heap hp h bs xs" by (rule producer_heap_cong [OF that n]) (rule assms)
  qed
  then show ?thesis by (simp only: producer_core_def)
qed (simp add: producer_core_def)

lemma index_inv_cong:
  "ip_block_index p = ip_block_index p' \<Longrightarrow> ip_next_capacity p = ip_next_capacity p' \<Longrightarrow> index_inv p n bs = index_inv p' n bs"
  by (cases "ip_block_index p'") (simp_all add: index_inv_def)

lemma producer_ok_cong:
  assumes "\<And>b. b \<in> set bs \<Longrightarrow> hp' b = hp b"
  shows "producer_ok hp' p h bs xs = producer_ok hp p h bs xs"
  by (simp only: producer_ok_def producer_core_cong [OF assms])

lemma size_approx_ok: "producer_ok hp p h bs xs \<Longrightarrow> unat (size_approx p) = length xs"
proof -
  assume "producer_ok hp p h bs xs"
  then have p: "ip_tail_index p = of_nat (h + length xs)" "ip_head_index p = of_nat h" "length xs < 2 ^ 63"
    by (auto simp: producer_ok_def producer_core_def producer_nums_def)
  have "unat (of_nat (length xs) :: u64) = length xs" using p(3) by (simp add: unat_of_nat)
  then show ?thesis
    using p circular_less_than_of_nat(1) [of h "h + length xs"] by (auto simp: size_approx_def)
qed

text \<open>A new element goes into the block that was prepared for it.\<close>

lemma construct_at_tail_ok:
  assumes "producer_ready (pl_heap pl) p h bs xs" "pool_ok pl B fl" "set bs \<subseteq> B"
  shows "\<exists>p' pl'. construct_at_tail x p pl = Inr (True, p', pl') \<and> producer_ok (pl_heap pl') p' h bs (xs @ [x]) \<and>
     pool_ok pl' B fl \<and> (\<forall>a. a \<notin> set bs \<longrightarrow> pl_heap pl' a = pl_heap pl a)"
proof -
  let ?t = "h + length xs" and ?pl = "pl_update (last bs) (bk_construct (ip_tail_index p) x) pl"
  let ?p = "p\<lparr>ip_tail_index := 1 + ip_tail_index p\<rparr>"
  define n where "n = ?t div 32 + 1"
  have nums: "producer_nums p h n bs (length xs)" and heap: "producer_heap (pl_heap pl) h bs xs" and tb: "ip_tail_block p = Some (last bs)"
    using assms(1) by (auto simp: producer_ready_def producer_core_def n_def)
  have tail: "ip_tail_index p = of_nat ?t" and len: "length bs = n - h div 32" and d: "distinct bs"
    using nums by (auto simp: producer_nums_def)
  have tn: "?t < 32 * n" by (simp add: n_def)
  note off = block_offset [OF tn]
  have ne: "bs \<noteq> []" and last: "last bs = bs ! (?t div 32 - h div 32)"
    using off len by (auto simp: last_conv_nth n_def simp flip: length_0_conv)
  have mem: "last bs \<in> B" using ne assms(3) by auto
  have len32: "length (bk_elements (pl_heap pl (last bs))) = 32" using pool_okD(2) [OF assms(2) mem] .
  have new: "pl_heap ?pl (last bs) = (pl_heap pl (last bs))\<lparr>bk_elements := (bk_elements (pl_heap pl (last bs)))[?t mod 32 := Some x]\<rparr>"
    by (simp add: pl_update_def bk_construct_def tail del: of_nat_add)
  have same: "pl_heap ?pl a = pl_heap pl a" if "a \<noteq> last bs" for a using that by (simp add: pl_update_def)
  have el: "bk_elements (pl_heap ?pl (bs ! ((h + q) div 32 - h div 32))) ! ((h + q) mod 32) = Some ((xs @ [x]) ! q)"
    if q: "q < length (xs @ [x])" for q
  proof (cases "q = length xs")
    case True
    then show ?thesis using last len32 new by simp
  next
    case False
    with q have q': "q < length xs" by simp
    with heap have old: "bk_elements (pl_heap pl (bs ! ((h + q) div 32 - h div 32))) ! ((h + q) mod 32) = Some (xs ! q)"
      by (simp add: producer_heap_def)
    show ?thesis
    proof (cases "bs ! ((h + q) div 32 - h div 32) = last bs")
      case True
      have q_off: "(h + q) div 32 - h div 32 < length bs" "h div 32 \<le> (h + q) div 32" using block_offset [of h q n] q' tn len by simp_all
      have "(h + q) div 32 - h div 32 = ?t div 32 - h div 32"
        using True d q_off(1) off(1) len unfolding last by (simp add: nth_eq_iff_index_eq)
      then have "(h + q) div 32 = ?t div 32" using q_off(2) off(2) by (metis le_add_diff_inverse)
      then have "(h + q) mod 32 \<noteq> ?t mod 32" using q' by (metis add_left_cancel div_mult_mod_eq less_irrefl)
      then show ?thesis using True old new q' by (simp add: nth_append)
    qed (use old q' same in \<open>simp add: nth_append\<close>)
  qed
  have "bk_completely_dequeued (pl_heap ?pl a) = bk_completely_dequeued (pl_heap pl a)" for a
    by (simp add: pl_update_def bk_construct_def)
  then have "producer_heap (pl_heap ?pl) h bs (xs @ [x])" using heap el by (simp only: producer_heap_def) blast
  moreover have "index_inv ?p n bs = index_inv p n bs" by (rule index_inv_cong) simp_all
  then have "producer_nums ?p h n bs (length (xs @ [x]))" using nums tn by (simp add: producer_nums_def)
  moreover have "(h + length (xs @ [x]) + 31) div 32 = n" by (simp add: n_def)
  ultimately have "producer_ok (pl_heap ?pl) ?p h bs (xs @ [x])" using tb by (simp only: producer_ok_def producer_core_def) simp
  moreover have "pool_ok ?pl B fl" by (rule pool_ok_update [OF assms(2) mem]) (simp_all add: bk_construct_def)
  moreover have "\<forall>a. a \<notin> set bs \<longrightarrow> pl_heap ?pl a = pl_heap pl a" using ne same by (metis last_in_set)
  moreover have "construct_at_tail x p pl = Inr (True, ?p, ?pl)" using tb by (simp add: construct_at_tail_def)
  ultimately show ?thesis by blast
qed

section \<open>Enqueueing\<close>

text \<open>A fresh block after the last one makes room.\<close>

lemma producer_ready_new_block:
  assumes "producer_ok hp p h bs xs" "(h + length xs) mod 32 = 0" "h + length xs + 32 - h < 2 ^ 63"
    and "p' = p\<lparr>ip_block_index := x, ip_next_capacity := c, ip_tail_block := Some b\<rparr>"
    and "index_inv p' (Suc ((h + length xs) div 32)) (bs @ [b])" "b \<notin> set bs"
    and "\<And>a. a \<in> set bs \<Longrightarrow> hp' a = hp a" "bk_completely_dequeued (hp' b) = 0"
  shows "producer_ready hp' p' h (bs @ [b]) xs"
proof -
  let ?t = "h + length xs" and ?n = "(h + length xs) div 32"
  have t: "?t = 32 * ?n" using assms(2) by (metis add.right_neutral div_mult_mod_eq mult.commute)
  have n: "(?t + 31) div 32 = ?n" using assms(2) by (rule blocks_begun(1))
  have nums: "producer_nums p h ?n bs (length xs)" and heap: "producer_heap hp h bs xs"
    using assms(1) by (auto simp only: producer_ok_def producer_core_def n)
  have le: "h div 32 \<le> ?n" by (intro div_le_mono) simp
  have len: "length bs = ?n - h div 32" "h + length xs \<le> 32 * ?n" using nums unfolding producer_nums_def by blast+
  have "producer_nums p' h (Suc ?n) (bs @ [b]) (length xs)"
    using nums assms(3-6) t le unfolding producer_nums_def by auto
  moreover have "producer_heap hp' h (bs @ [b]) xs"
    unfolding producer_heap_def
  proof (intro conjI allI impI)
    fix k assume k: "k < length (bs @ [b])"
    show "bk_completely_dequeued (hp' ((bs @ [b]) ! k)) = (if k = 0 then of_nat (h mod 32) else 0)"
    proof (cases "k < length bs")
      case True
      then have "bk_completely_dequeued (hp (bs ! k)) = (if k = 0 then of_nat (h mod 32) else 0)"
        using heap unfolding producer_heap_def by blast
      then show ?thesis using True assms(7) [OF nth_mem [OF True]] by (simp add: nth_append)
    next
      case False
      with k have kb: "k = length bs" by simp
      have "h mod 32 = 0" if "bs = []"
      proof -
        have "?n \<le> h div 32" using that len(1) by simp
        with le have "h div 32 = ?n" by simp
        then have "32 * (h div 32) = ?t" using t by simp
        then show ?thesis by (metis add_leE le_antisym mult_div_mod_eq le_add1 add_diff_cancel_left' diff_is_0_eq')
      qed
      then show ?thesis using kb assms(8) by auto
    qed
  next
    fix q assume q: "q < length xs"
    have o: "(h + q) div 32 - h div 32 < length bs" using block_offset(1) [of h q ?n] q len by simp
    have "bk_elements (hp (bs ! ((h + q) div 32 - h div 32))) ! ((h + q) mod 32) = Some (xs ! q)"
      using heap q unfolding producer_heap_def by blast
    then show "bk_elements (hp' ((bs @ [b]) ! ((h + q) div 32 - h div 32))) ! ((h + q) mod 32) = Some (xs ! q)"
      using o assms(7) [OF nth_mem [OF o]] by (simp add: nth_append)
  qed
  ultimately show ?thesis using assms(4) by (simp add: producer_ready_def producer_core_def)
qed

text \<open>
  What an operation on one producer does to the rest: it may take a block that nobody holds or give one back,
  and it leaves the blocks of the other producers alone.
\<close>

definition pool_step :: "'a cq_pool \<Rightarrow> nat set \<Rightarrow> nat list \<Rightarrow> 'a cq_pool \<Rightarrow> nat list \<Rightarrow> bool" where
  "pool_step pl B bs pl' bs' \<longleftrightarrow>
     (\<exists>fl. pool_ok pl' ((B - set bs) \<union> set bs') fl) \<and> set bs' \<inter> (B - set bs) = {} \<and>
     (\<forall>a \<in> B - set bs. pl_heap pl' a = pl_heap pl a)"

lemma low_bits_zero: "(of_nat t AND (BLOCK_SIZE - 1) :: u64) = 0 \<longleftrightarrow> t mod 32 = 0"
  using bk_slot_of_nat [of t] unfolding bk_slot_def by (metis unsigned_eq_0_iff)

lemma circular_less_than_bound:
  assumes "circular_less_than (of_nat a) (of_nat (a + d))" "0 < d" "d \<le> 2 ^ 64"
  shows "d < 2 ^ 63"
proof -
  have "unat (of_nat a - of_nat (a + d) :: u64) = 2 ^ 64 - d" using unat_minus_of_nat [OF assms(3)] assms(2) by simp
  then show ?thesis using assms by (simp add: circular_less_than_def word_less_nat_alt)
qed

lemma producer_ok_index:
  assumes "producer_ok hp p h bs xs" "(h + length xs) mod 32 = 0" "index_inv p' ((h + length xs) div 32) bs"
    and "p' = p\<lparr>ip_block_index := x, ip_next_capacity := c\<rparr>"
  shows "producer_ok hp p' h bs xs"
  using assms unfolding producer_ok_def blocks_begun(1) [OF assms(2)] producer_core_def producer_nums_def by simp

lemma implicit_enqueue_ok:
  assumes p: "producer_ok (pl_heap pl) p h bs xs" and pl: "pool_ok pl B fl" and B: "set bs \<subseteq> B"
  shows "\<exists>b p' pl' bs'. implicit_enqueue can_alloc x p pl = Inr (b, p', pl') \<and>
     producer_ok (pl_heap pl') p' h bs' (if b then xs @ [x] else xs) \<and> ip_inactive p' = ip_inactive p \<and> pool_step pl B bs pl' bs'"
proof (cases "(h + length xs) mod 32 = 0")
  case False
  let ?t = "h + length xs"
  have ready: "producer_ready (pl_heap pl) p h bs xs"
    using p False by (simp only: producer_ok_def producer_ready_def blocks_begun(2) [OF False] simp_thms not_True_eq_False)
  have tail: "ip_tail_index p = of_nat ?t" using p by (simp only: producer_ok_def producer_core_def producer_nums_def)
  obtain p' pl' where c: "construct_at_tail x p pl = Inr (True, p', pl')" "producer_ok (pl_heap pl') p' h bs (xs @ [x])"
    "pool_ok pl' B fl" "\<forall>a. a \<notin> set bs \<longrightarrow> pl_heap pl' a = pl_heap pl a"
    using construct_at_tail_ok [OF ready pl B] by blast
  have "implicit_enqueue can_alloc x p pl = Inr (True, p', pl')"
    using c(1) False by (simp add: implicit_enqueue_def tail low_bits_zero del: of_nat_add)
  moreover have "pool_step pl B bs pl' bs" using c(3,4) B by (auto simp: pool_step_def Un_absorb2 Un_commute)
  moreover have "ip_inactive p' = ip_inactive p" using c(1) by (auto simp: construct_at_tail_def elim!: res_bind_InrE)
  ultimately show ?thesis using c(2) by fastforce
next
  case True
  let ?t = "h + length xs" and ?n = "(h + length xs) div 32"
  have t: "?t = 32 * ?n" using True by (metis add.right_neutral div_mult_mod_eq mult.commute)
  have core: "producer_core (pl_heap pl) p h ?n bs xs" using p True by (simp only: producer_ok_def blocks_begun(1))
  then have nums: "32 * ?n - h < 2 ^ 63" "ip_tail_index p = of_nat ?t" "ip_head_index p = of_nat h" "index_inv p ?n bs"
    "length bs = ?n - h div 32" unfolding producer_core_def producer_nums_def by blast+
  have t32: "ip_tail_index p + BLOCK_SIZE = of_nat (?t + 32)" by (simp add: nums(2) BLOCK_SIZE_def)
  have same: "pool_step pl B bs (pl\<lparr>pl_mallocs := m\<rparr>) bs" for m using pl B by (auto simp: pool_step_def Un_absorb2 Un_commute)
  have lt: "length xs < 2 ^ 63" using nums(1) t by simp
  have na: "\<not> circular_less_than (ip_tail_index p) (ip_head_index p)"
    unfolding nums(2,3) by (rule circular_less_than_of_nat(2)) (use lt in simp_all)
  show ?thesis
  proof (cases "circular_less_than (ip_head_index p) (ip_tail_index p + BLOCK_SIZE)")
    case full: False
    then have "implicit_enqueue can_alloc x p pl = Inr (False, p, pl)"
      using na True by (simp add: implicit_enqueue_def nums(2) low_bits_zero del: of_nat_add)
    then show ?thesis using p same [of "pl_mallocs pl"] by (intro exI [of _ False] exI [of _ p] exI [of _ pl] exI [of _ bs]) simp
  next
    case room: True
    have d: "length xs + 32 < 2 ^ 63"
      using circular_less_than_bound [of h "length xs + 32"] room lt by (simp only: nums(3) t32 add.assoc) simp
    have "32 * (h div 32) + h mod 32 = h" "h mod 32 < 32" by simp_all
    then have few: "length bs < 2 ^ 58" using d t nums(5) by simp
    obtain r p1 m where ins: "insert_block_index_entry can_alloc (ip_tail_index p) p pl = Inr (r, p1, pl\<lparr>pl_mallocs := m\<rparr>)"
      "p1 = p\<lparr>ip_block_index := ip_block_index p1, ip_next_capacity := ip_next_capacity p1\<rparr>"
      "case r of None \<Rightarrow> p1 = p | Some pos \<Rightarrow> index_pending p1 ?n bs (ip_tail_index p) pos"
      using insert_block_index_entry_ok [OF nums(4) few, of can_alloc "ip_tail_index p" pl] by (elim exE conjE) (rule that)
    let ?pl1 = "pl\<lparr>pl_mallocs := m\<rparr>"
    have step: "implicit_enqueue can_alloc x p pl = (case r of None \<Rightarrow> Inr (False, p1, ?pl1)
        | Some idxEntry \<Rightarrow> res_bind (requisition_block can_alloc ?pl1) (\<lambda>(newBlock, pl2).
            case newBlock of
              None \<Rightarrow> res_bind (rewind_block_index_tail p1) (\<lambda>p2. res_bind (store_value idxEntry NoBlock p2) (\<lambda>p3. Inr (False, p3, pl2)))
            | Some b \<Rightarrow> res_bind (store_value idxEntry (BlockAt b) p1) (\<lambda>p2.
                construct_at_tail x (p2\<lparr>ip_tail_block := Some b\<rparr>) (pl_update b bk_reset_empty pl2))))"
      using na room ins(1) True
      by (simp add: implicit_enqueue_def MAX_SUBQUEUE_SIZE_def low_bits_zero nums(2) del: of_nat_add)
    show ?thesis
    proof (cases r)
      case None
      then show ?thesis using step ins(3) p same [of m] by auto
    next
      case (Some pos)
      with ins(3) have pend: "index_pending p1 ?n bs (of_nat (32 * ?n)) pos" using nums(2) t by simp
      obtain nb pl2 fl2 where rq: "requisition_block can_alloc ?pl1 = Inr (nb, pl2)"
        "pool_ok pl2 (case nb of None \<Rightarrow> B | Some a \<Rightarrow> insert a B) fl2" "\<forall>a. nb = Some a \<longrightarrow> a \<notin> B"
        "\<forall>b \<in> B. pl_heap pl2 b = pl_heap ?pl1 b"
        using requisition_block_ok [of ?pl1 B fl can_alloc] pl by auto
      show ?thesis
      proof (cases nb)
        case None
        obtain p2 h' where rw: "rewind_block_index_tail p1 = Inr p2" "store_value pos NoBlock p2 = Inr (set_index h' p1)"
          "index_inv (set_index h' p1) ?n bs"
          using pending_rewound [OF pend] by blast
        have "producer_ok (pl_heap pl2) (set_index h' p1) h bs xs"
        proof (subst producer_ok_cong [of bs _ "pl_heap pl"])
          show "producer_ok (pl_heap pl) (set_index h' p1) h bs xs"
            by (rule producer_ok_index [OF p True rw(3), of "ip_next_capacity p1" "Some h'"]) (subst ins(2), simp add: set_index_def)
        qed (use rq(4) B in auto)
        moreover have "ip_inactive (set_index h' p1) = ip_inactive p" using arg_cong [OF ins(2), of ip_inactive] by (simp add: set_index_def)
        moreover have "pool_step pl B bs pl2 bs" using rq(2,4) None B by (auto simp: pool_step_def Un_absorb2 Un_commute)
        ultimately show ?thesis using step Some rq(1) None rw(1,2) by fastforce
      next
        case nb: (Some b)
        have b: "b \<notin> B" using rq(3) nb by simp
        obtain h' where st: "store_value pos (BlockAt b) p1 = Inr (set_index h' p1)" "index_inv (set_index h' p1) (Suc ?n) (bs @ [b])"
          using pending_filled [OF pend] by blast
        define p3 where "p3 = (set_index h' p1)\<lparr>ip_tail_block := Some b\<rparr>"
        define pl3 where "pl3 = pl_update b bk_reset_empty pl2"
        have p3: "p3 = p\<lparr>ip_block_index := Some h', ip_next_capacity := ip_next_capacity p1, ip_tail_block := Some b\<rparr>"
          unfolding p3_def set_index_def by (subst ins(2)) simp
        have heap3: "pl_heap pl3 a = pl_heap pl a" if "a \<in> B" for a
          using that b rq(4) by (auto simp: pl3_def pl_update_def)
        have ready: "producer_ready (pl_heap pl3) p3 h (bs @ [b]) xs"
        proof (rule producer_ready_new_block [OF p True _ p3])
          show "index_inv p3 (Suc ?n) (bs @ [b])" using st(2) by (simp add: p3_def cong: index_inv_cong)
          show "bk_completely_dequeued (pl_heap pl3 b) = 0" by (simp add: pl3_def pl_update_def bk_reset_empty_def)
        qed (use d b B heap3 in auto)
        have pl3: "pool_ok pl3 (insert b B) fl2"
          unfolding pl3_def using rq(2) nb by (intro pool_ok_update) (simp_all add: bk_reset_empty_def)
        obtain p' pl' where c: "construct_at_tail x p3 pl3 = Inr (True, p', pl')" "producer_ok (pl_heap pl') p' h (bs @ [b]) (xs @ [x])"
          "pool_ok pl' (insert b B) fl2" "\<forall>a. a \<notin> set (bs @ [b]) \<longrightarrow> pl_heap pl' a = pl_heap pl3 a"
          using construct_at_tail_ok [OF ready pl3] B by fastforce
        have "insert b B = (B - set bs) \<union> set (bs @ [b])" using B by auto
        moreover have "pl_heap pl' a = pl_heap pl a" if "a \<in> B - set bs" for a
          using c(4) heap3 [of a] b that by (cases "a = b") auto
        ultimately have "pool_step pl B bs pl' (bs @ [b])" using c(3) b by (auto simp: pool_step_def)
        moreover have "ip_inactive p' = ip_inactive p"
          using c(1) by (auto simp: construct_at_tail_def p3 elim!: res_bind_InrE)
        moreover have "implicit_enqueue can_alloc x p pl = Inr (True, p', pl')"
          using step Some rq(1) nb st(1) c(1) by (simp add: p3_def pl3_def)
        ultimately show ?thesis using c(2) by fastforce
      qed
    qed
  qed
qed

section \<open>Dequeueing\<close>

text \<open>The numbers after the oldest element went, with and without its block.\<close>

lemma div_mod_Suc_32:
  shows "h mod 32 \<noteq> 31 \<Longrightarrow> Suc h div 32 = h div 32 \<and> Suc h mod 32 = Suc (h mod 32)"
    and "h mod 32 = 31 \<Longrightarrow> Suc h div 32 = Suc (h div 32) \<and> Suc h mod 32 = 0"
  by (auto simp: div_Suc mod_Suc)

lemma producer_heap_dequeued:
  assumes "producer_heap hp h bs (x # xs)" "bs = b # bs'" "distinct bs"
    and "length bs = n - h div 32" "h + length (x # xs) \<le> 32 * n"
    and "\<And>a. a \<noteq> b \<Longrightarrow> a \<in> set bs \<Longrightarrow> hp' a = hp a" "h mod 32 \<noteq> 31 \<Longrightarrow> hp' b = (hp b)\<lparr>bk_elements := (bk_elements (hp b))[h mod 32 := None],
      bk_completely_dequeued := of_nat (h mod 32) + 1\<rparr>"
  shows "producer_heap hp' (Suc h) (if h mod 32 = 31 then bs' else bs) xs"
proof -
  have deq: "bk_completely_dequeued (hp (bs ! k)) = (if k = 0 then of_nat (h mod 32) else 0)" if "k < length bs" for k
    using assms(1) that unfolding producer_heap_def by blast
  have el: "bk_elements (hp (bs ! ((h + Suc q) div 32 - h div 32))) ! ((h + Suc q) mod 32) = Some (xs ! q)" if "q < length xs" for q
  proof -
    have "Suc q < length (x # xs)" using that by simp
    with assms(1) have "bk_elements (hp (bs ! ((h + Suc q) div 32 - h div 32))) ! ((h + Suc q) mod 32) = Some ((x # xs) ! Suc q)"
      unfolding producer_heap_def by blast
    then show ?thesis by simp
  qed
  have off: "(h + Suc q) div 32 - h div 32 < length bs" "h div 32 \<le> (h + Suc q) div 32" if "q < length xs" for q
    using block_offset [of h "Suc q" n] that assms(4,5) by simp_all
  have b0: "bs ! 0 = b" and rest: "bs ! Suc k = bs' ! k" for k using assms(2) by simp_all
  have other: "hp' (bs ! k) = hp (bs ! k)" if "k < length bs" "k \<noteq> 0" for k
    using assms(2,3) that by (intro assms(6)) (auto simp: nth_Cons' split: if_splits)
  show ?thesis
  proof (cases "h mod 32 = 31")
    case True
    note S = div_mod_Suc_32(2) [OF True]
    have "bk_completely_dequeued (hp' (bs' ! k)) = (if k = 0 then of_nat (Suc h mod 32) else 0)" if "k < length bs'" for k
      using other [of "Suc k"] deq [of "Suc k"] that S assms(2) rest by simp
    moreover have "bk_elements (hp' (bs' ! ((Suc h + q) div 32 - Suc h div 32))) ! ((Suc h + q) mod 32) = Some (xs ! q)"
      if q: "q < length xs" for q
    proof -
      have "Suc (h div 32) \<le> (Suc h + q) div 32" using S by (metis div_le_mono le_add1)
      then have i: "(h + Suc q) div 32 - h div 32 = Suc ((Suc h + q) div 32 - Suc h div 32)" using S by simp
      have "hp' (bs' ! ((Suc h + q) div 32 - Suc h div 32)) = hp (bs ! ((h + Suc q) div 32 - h div 32))"
        using other [OF off(1) [OF q]] rest unfolding i by simp
      then show ?thesis using el [OF q] by simp
    qed
    ultimately show ?thesis using True unfolding producer_heap_def by simp
  next
    case False
    note S = div_mod_Suc_32(1) [OF False]
    note hb = assms(7) [OF False]
    have "bk_completely_dequeued (hp' (bs ! k)) = (if k = 0 then of_nat (Suc h mod 32) else 0)" if "k < length bs" for k
      using other [of k] deq [of k] that S hb b0 by (cases "k = 0") (simp_all add: add.commute)
    moreover have "bk_elements (hp' (bs ! ((Suc h + q) div 32 - Suc h div 32))) ! ((Suc h + q) mod 32) = Some (xs ! q)"
      if q: "q < length xs" for q
    proof -
      let ?k = "(h + Suc q) div 32 - h div 32"
      have i: "(Suc h + q) div 32 - Suc h div 32 = ?k" using S by simp
      show ?thesis
      proof (cases "?k = 0")
        case z: True
        then have "(h + Suc q) div 32 = h div 32" using off(2) [OF q] by simp
        then have "(h + Suc q) mod 32 \<noteq> h mod 32" by (metis add_left_cancel div_mult_mod_eq add_cancel_left_right nat.simps(3))
        then show ?thesis using el [OF q] hb unfolding i z b0 by simp
      next
        case nz: False
        show ?thesis using el [OF q] other [OF off(1) [OF q] nz] unfolding i by simp
      qed
    qed
    ultimately show ?thesis using False unfolding producer_heap_def by simp
  qed
qed

lemma producer_nums_dequeued:
  assumes "producer_nums p h n bs (Suc m)" "bs = b # bs'"
    and "p' = p\<lparr>ip_head_index := of_nat h + 1, ip_optimistic_count := ip_optimistic_count p + 1, ip_block_index := ip_block_index p'\<rparr>"
    and "index_inv p' n (if h mod 32 = 31 then bs' else bs)"
  shows "producer_nums p' (Suc h) n (if h mod 32 = 31 then bs' else bs) m"
proof -
  have le: "Suc h div 32 \<le> n"
  proof -
    have "Suc h \<le> 32 * n" using assms(1) unfolding producer_nums_def by linarith
    then have "Suc h div 32 \<le> (32 * n) div 32" by (rule div_le_mono)
    then show ?thesis by simp
  qed
  have "length (if h mod 32 = 31 then bs' else bs) = n - Suc h div 32"
    using assms(1,2) div_mod_Suc_32 [of h] unfolding producer_nums_def by auto
  moreover have "ip_optimistic_count p' - ip_overcommit p' = of_nat (Suc h)"
    using assms(1) unfolding producer_nums_def by (subst (1 2) assms(3)) (simp add: algebra_simps)
  moreover have "ip_tail_index p' = of_nat (Suc h + m)" "ip_head_index p' = of_nat (Suc h)"
    using assms(1) unfolding producer_nums_def by (subst assms(3), simp add: algebra_simps)+
  ultimately show ?thesis
    using assms(1,2,4) le unfolding producer_nums_def by auto
qed

lemma implicit_dequeue_empty:
  assumes "producer_ok (pl_heap pl) p h bs []"
  shows "implicit_dequeue p pl = Inr (None, p, pl)"
proof -
  have "ip_tail_index p = of_nat h" "ip_optimistic_count p - ip_overcommit p = of_nat h"
    using assms by (auto simp: producer_ok_def producer_core_def producer_nums_def)
  then show ?thesis using circular_less_than_of_nat(1) [of h h] by (simp add: implicit_dequeue_def)
qed

lemma implicit_dequeue_ok:
  assumes p: "producer_ok (pl_heap pl) p h bs (x # xs)" and pl: "pool_ok pl B fl" and B: "set bs \<subseteq> B"
  shows "\<exists>p' pl' bs'. implicit_dequeue p pl = Inr (Some x, p', pl') \<and>
     producer_ok (pl_heap pl') p' (Suc h) bs' xs \<and> ip_inactive p' = ip_inactive p \<and> pool_step pl B bs pl' bs'"
proof -
  define n where "n = (h + length (x # xs) + 31) div 32"
  have nums: "producer_nums p h n bs (length (x # xs))" and heap: "producer_heap (pl_heap pl) h bs (x # xs)"
    and tb: "(h + length (x # xs)) mod 32 \<noteq> 0 \<longrightarrow> ip_tail_block p = Some (last bs)"
    using p unfolding producer_ok_def producer_core_def n_def by blast+
  from nums have idx: "index_inv p n bs" and len: "length bs = n - h div 32" and le: "h + length (x # xs) \<le> 32 * n"
    and d: "distinct bs" and tail: "ip_tail_index p = of_nat (h + length (x # xs))" and head: "ip_head_index p = of_nat h"
    and opt: "ip_optimistic_count p - ip_overcommit p = of_nat h" and small: "length (x # xs) < 2 ^ 63"
    unfolding producer_nums_def by auto
  have off: "0 < length bs" and hn: "h div 32 \<le> n" using block_offset [of h 0 n] le len by auto
  then obtain b bs' where bs: "bs = b # bs'" by (cases bs) auto
  have b: "b \<in> B" using B bs by simp
  have cl: "circular_less_than (ip_optimistic_count p - ip_overcommit p) (ip_tail_index p)"
    unfolding opt tail using circular_less_than_of_nat(1) [of h "h + length (x # xs)"] small by simp
  define p2 where "p2 = p\<lparr>ip_optimistic_count := ip_optimistic_count p + 1, ip_head_index := of_nat h + 1\<rparr>"
  have idx2: "index_inv p2 n bs" using idx by (simp add: p2_def cong: index_inv_cong)
  obtain pos where look: "get_block_index_entry_for_index (of_nat h) p2 =
      Inr (pos, \<lparr>ie_key = of_nat (32 * (h div 32)), ie_value = BlockAt b\<rparr>)"
    and drop: "\<exists>h'. store_value pos NoBlock p2 = Inr (set_index h' p2) \<and> index_inv (set_index h' p2) n bs'"
    using lookup_ok [OF idx2 off, of h] len hn bs by auto
  let ?b = "pl_heap pl b"
  have deq: "bk_completely_dequeued ?b = of_nat (h mod 32)"
    using heap bs unfolding producer_heap_def by (metis length_greater_0_conv list.distinct(1) nth_Cons_0)
  have "bk_elements (pl_heap pl (bs ! ((h + 0) div 32 - h div 32))) ! ((h + 0) mod 32) = Some ((x # xs) ! 0)"
    using heap unfolding producer_heap_def by blast
  then have el: "bk_elements ?b ! (h mod 32) = Some x" using bs by simp
  have len32: "length (bk_elements ?b) = 32" by (rule pool_okD(2) [OF pl b])
  let ?b2 = "?b\<lparr>bk_elements := (bk_elements ?b)[h mod 32 := None], bk_completely_dequeued := of_nat (h mod 32) + 1\<rparr>"
  have take: "bk_take (of_nat h) ?b = Inr (x, ?b\<lparr>bk_elements := (bk_elements ?b)[h mod 32 := None]\<rparr>)"
    using el len32 by (simp add: bk_take_def vec_at_def)
  have um: "unat (of_nat (h mod 32) :: u64) = h mod 32" by (simp add: unat_of_nat)
  have set: "bk_set_empty (?b\<lparr>bk_elements := (bk_elements ?b)[h mod 32 := None]\<rparr>) = Inr (h mod 32 = 31, ?b2)"
    using um by (simp add: bk_set_empty_def deq BLOCK_SIZE_def word_less_nat_alt word_unat_eq_iff [of _ 31] Let_def)
  define pl1 where "pl1 = pl_update b (\<lambda>_. ?b2) pl"
  have step: "implicit_dequeue p pl = (if h mod 32 = 31
      then res_bind (store_value pos NoBlock p2) (\<lambda>p3. Inr (Some x, p3, add_block_to_free_list b pl1))
      else Inr (Some x, p2, pl1))"
    using cl look take set by (simp add: implicit_dequeue_def head p2_def pl1_def Let_def)
  have pl1: "pool_ok pl1 B fl"
    using pl b unfolding pl1_def pool_ok_def pl_update_def by (auto elim!: iffD1 [OF free_chain_cong, rotated])
  have heap1: "pl_heap pl1 a = (if a = b then ?b2 else pl_heap pl a)" for a by (simp add: pl1_def pl_update_def)
  have last: "ip_tail_block p = Some (last (if h mod 32 = 31 then bs' else bs))" if nz: "(Suc h + length xs) mod 32 \<noteq> 0"
  proof -
    have "bs' \<noteq> []" if "h mod 32 = 31"
    proof -
      have "n = (Suc h + length xs) div 32 + 1" using blocks_begun(2) [OF nz] by (simp add: n_def)
      moreover have "Suc h div 32 \<le> (Suc h + length xs) div 32" by (intro div_le_mono) simp
      ultimately have "1 < length bs" using len div_mod_Suc_32(2) [OF that] by linarith
      then show ?thesis using bs by auto
    qed
    then show ?thesis using tb nz bs by (auto simp: last_ConsR)
  qed
  have n': "n = (Suc h + length xs + 31) div 32" by (simp add: n_def)
  show ?thesis
  proof (cases "h mod 32 = 31")
    case False
    have "producer_nums p2 (Suc h) n bs (length xs)"
      using producer_nums_dequeued [of p h n bs "length xs" b bs' p2] nums bs idx2 False by (simp add: p2_def)
    moreover have "producer_heap (pl_heap pl1) (Suc h) bs xs"
      using producer_heap_dequeued [OF heap bs d len le, of "pl_heap pl1"] False by (simp add: heap1)
    ultimately have "producer_ok (pl_heap pl1) p2 (Suc h) bs xs"
      using last False unfolding producer_ok_def producer_core_def n' [symmetric] by (simp add: p2_def)
    moreover have "(B - set bs) \<union> set bs = B" using B by auto
    then have "pool_step pl B bs pl1 bs" using pl1 bs heap1 by (auto simp: pool_step_def)
    ultimately show ?thesis using step False by (auto simp: p2_def)
  next
    case True
    obtain h' where h': "store_value pos NoBlock p2 = Inr (set_index h' p2)" "index_inv (set_index h' p2) n bs'" using drop by blast
    define pl2 where "pl2 = add_block_to_free_list b pl1"
    note fr = add_block_to_free_list_ok [OF pl1 b, folded pl2_def]
    have "producer_nums (set_index h' p2) (Suc h) n bs' (length xs)"
      using producer_nums_dequeued [of p h n bs "length xs" b bs' "set_index h' p2"] nums bs h'(2) True
      by (simp add: p2_def set_index_def)
    moreover have "producer_heap (pl_heap pl2) (Suc h) bs' xs"
      using producer_heap_dequeued [OF heap bs d len le, of "pl_heap pl2"] True fr(2) heap1 by simp
    ultimately have "producer_ok (pl_heap pl2) (set_index h' p2) (Suc h) bs' xs"
      using last True unfolding producer_ok_def producer_core_def n' [symmetric] by (simp add: p2_def set_index_def)
    moreover have "(B - set bs) \<union> set bs' = B - {b}" using B bs d by auto
    then have "pool_step pl B bs pl2 bs'" using fr heap1 bs by (auto simp: pool_step_def)
    ultimately show ?thesis using step True h'(1) by (auto simp: p2_def set_index_def pl2_def)
  qed
qed

section \<open>A new producer\<close>

lemma ImplicitProducer_ok:
  "\<exists>p. ImplicitProducer pl = Inr (p, pl\<lparr>pl_mallocs := pl_mallocs pl + 1\<rparr>) \<and> producer_ok hp p 0 [] [] \<and> \<not> ip_inactive p"
proof -
  let ?h = "\<lparr>bi_capacity = 32, bi_tail = 31, bi_index = replicate 32 unused_entry\<rparr>"
  have shape: "index_shape 5 ?h" by (simp add: index_shape_def)
  have m31: "(- 1 AND 31 :: u64) = 31" by simp
  have view: "index_view ?h = replicate 32 unused_entry" by (simp add: index_view_def del: rotate_Suc)
  have inv: "index_inv p 0 []" if "ip_block_index p = Some ?h" "ip_next_capacity p = 64" for p
    using that shape view unfolding index_inv_def
    by simp (intro exI [of _ 5], simp add: list_all_iff)
  show ?thesis
  proof (cases "pl_mem pl (pl_mallocs pl)")
    case True
    then show ?thesis
      using inv
      by (simp add: ImplicitProducer_def new_block_index_def pl_malloc_def IMPLICIT_INITIAL_INDEX_SIZE_def Let_def push_bit_eq_mult
          producer_ok_def producer_core_def producer_nums_def producer_heap_def m31)
  next
    case False
    then show ?thesis
      by (simp add: ImplicitProducer_def new_block_index_def pl_malloc_def Let_def producer_ok_def producer_core_def
          producer_nums_def producer_heap_def index_inv_def)
  qed
qed

end
