(* ===== verification/CqHash.thy ===== *)
theory CqHash
  imports CqBlock
begin

text \<open>
  \<^verbatim>\<open>lib/concurrentqueue.h\<close>, part four: the hash tables that map a thread to its implicit producer.  A table is
  an array of keys and values probed linearly; a key of zero marks a free slot.  When the newest table gets
  full a larger one is put before it, and what is found in an older table is entered into the newest.  A
  producer is the position of its object.  A probe that has seen every slot would go round for ever.
\<close>

section \<open>Thread ids and tables\<close>

definition invalid_thread_id :: u64 where
  "invalid_thread_id = 0"

definition hash_thread_id :: "u64 \<Rightarrow> u64" where
  "hash_thread_id h0 =
     (let h1 = h0 XOR drop_bit 33 h0; h2 = h1 * 0xff51afd7ed558ccd; h3 = h2 XOR drop_bit 33 h2; h4 = h3 * 0xc4ceb9fe1a85ec53
      in h4 XOR drop_bit 33 h4)"

type_synonym producer_table = "(u64 \<times> nat option) list"

definition table_capacity :: "producer_table \<Rightarrow> u64" where
  "table_capacity T = of_nat (length T)"

definition INITIAL_IMPLICIT_PRODUCER_HASH_SIZE :: u64 where
  "INITIAL_IMPLICIT_PRODUCER_HASH_SIZE = 32"

definition empty_table :: "u64 \<Rightarrow> producer_table" where
  "empty_table capacity = replicate (unat capacity) (invalid_thread_id, None)"

definition populate_initial_implicit_producer_hash :: "producer_table list \<times> u64" where
  "populate_initial_implicit_producer_hash = ([empty_table INITIAL_IMPLICIT_PRODUCER_HASH_SIZE], 0)"

text \<open>Looking for an id in one table, and entering one at the first free slot.\<close>

fun find_id :: "nat \<Rightarrow> producer_table \<Rightarrow> u64 \<Rightarrow> u64 \<Rightarrow> nat option option res" where
  "find_id 0 T ident index = Inl Hangs"
| "find_id (Suc fuel) T ident index =
     (let i = index AND (table_capacity T - 1)
      in res_bind (vec_at T (unat i)) (\<lambda>(probedKey, v).
           if probedKey = ident then Inr (Some v)
           else if probedKey = invalid_thread_id then Inr None
           else find_id fuel T ident (i + 1)))"

fun place_id :: "nat \<Rightarrow> producer_table \<Rightarrow> u64 \<Rightarrow> nat option \<Rightarrow> u64 \<Rightarrow> producer_table res" where
  "place_id 0 T ident v index = Inl Hangs"
| "place_id (Suc fuel) T ident v index =
     (let i = index AND (table_capacity T - 1)
      in res_bind (vec_at T (unat i)) (\<lambda>(probedKey, _).
           if probedKey = invalid_thread_id then Inr (T[unat i := (ident, v)])
           else place_id fuel T ident v (i + 1)))"

fun find_older :: "producer_table list \<Rightarrow> u64 \<Rightarrow> nat option option res" where
  "find_older [] ident = Inr None"
| "find_older (T # Ts) ident =
     res_bind (find_id (length T) T ident (hash_thread_id ident)) (\<lambda>r.
       case r of Some v \<Rightarrow> Inr (Some v) | None \<Rightarrow> find_older Ts ident)"

text \<open>The search through all tables, the newest first.\<close>

fun find_producer :: "producer_table list \<Rightarrow> u64 \<Rightarrow> (nat option option \<times> producer_table list) res" where
  "find_producer [] ident = Inr (None, [])"
| "find_producer (mainHash # prev) ident =
     res_bind (find_id (length mainHash) mainHash ident (hash_thread_id ident)) (\<lambda>r.
       case r of
         Some v \<Rightarrow> Inr (Some v, mainHash # prev)
       | None \<Rightarrow>
           res_bind (find_older prev ident) (\<lambda>r.
             case r of
               None \<Rightarrow> Inr (None, mainHash # prev)
             | Some v \<Rightarrow>
                 res_bind (place_id (length mainHash) mainHash ident v (hash_thread_id ident)) (\<lambda>mainHash'.
                   Inr (Some v, mainHash' # prev))))"

text \<open>The loop that doubles a capacity; 64 doublings exhaust the type.\<close>

fun grow_capacity :: "nat \<Rightarrow> u64 \<Rightarrow> u64 \<Rightarrow> u64 res" where
  "grow_capacity 0 newCount newCapacity = Inl Hangs"
| "grow_capacity (Suc fuel) newCount newCapacity =
     (if newCount \<ge> drop_bit 1 newCapacity then grow_capacity fuel newCount (push_bit 1 newCapacity) else Inr newCapacity)"

section \<open>One table\<close>

definition slot :: "producer_table \<Rightarrow> u64 \<Rightarrow> nat \<Rightarrow> nat" where
  "slot T ident j = (unat (hash_thread_id ident) + j) mod length T"

definition key_at :: "producer_table \<Rightarrow> nat \<Rightarrow> u64" where
  "key_at T i = fst (T ! i)"

definition table_shape :: "producer_table \<Rightarrow> bool" where
  "table_shape T \<longleftrightarrow> (\<exists>k. 5 \<le> k \<and> k \<le> 50 \<and> length T = 2 ^ k)"

text \<open>Every key can be reached from where its id hashes to without passing a free slot.\<close>

definition table_inv :: "producer_table \<Rightarrow> bool" where
  "table_inv T \<longleftrightarrow> table_shape T \<and>
     (\<forall>i < length T. \<forall>j < length T. key_at T i = key_at T j \<longrightarrow> key_at T i \<noteq> 0 \<longrightarrow> i = j) \<and>
     (\<forall>i < length T. key_at T i \<noteq> 0 \<longrightarrow>
        (\<exists>j < length T. slot T (key_at T i) j = i \<and> (\<forall>j' < j. key_at T (slot T (key_at T i) j') \<noteq> 0)))"

definition has_free_slot :: "producer_table \<Rightarrow> bool" where
  "has_free_slot T \<longleftrightarrow> (\<exists>i < length T. key_at T i = 0)"

definition table_keys :: "producer_table \<Rightarrow> u64 set" where
  "table_keys T = {key_at T i | i. i < length T \<and> key_at T i \<noteq> 0}"

lemma probe_position:
  assumes "table_shape T" "unat index mod length T = slot T ident j"
  shows "unat (index AND (table_capacity T - 1)) = slot T ident j"
    and "unat ((index AND (table_capacity T - 1)) + 1) mod length T = slot T ident (Suc j)"
    and "slot T ident j < length T"
proof -
  obtain k where k: "k \<le> 50" "length T = 2 ^ k" using assms(1) by (auto simp: table_shape_def)
  show lt: "slot T ident j < length T" by (simp add: slot_def k(2))
  have "table_capacity T = 2 ^ k" by (simp add: table_capacity_def k(2))
  then show pos: "unat (index AND (table_capacity T - 1)) = slot T ident j"
    using unat_and_pow2 [of index k] assms(2) k(2) by simp
  have "(2 :: nat) ^ k \<le> 2 ^ 50" using k(1) by (intro power_increasing) simp_all
  with lt k(2) have "slot T ident j < 2 ^ 50" by linarith
  then have "unat (index AND (table_capacity T - 1)) < unat (- 1 :: u64)"
    by (simp add: pos unsigned_minus_1_eq_mask mask_eq_exp_minus_1)
  then have "unat ((index AND (table_capacity T - 1)) + 1) = slot T ident j + 1"
    using unat_succ [of "index AND (table_capacity T - 1)" "- 1"] pos by (simp add: word_less_nat_alt)
  then show "unat ((index AND (table_capacity T - 1)) + 1) mod length T = slot T ident (Suc j)"
    by (simp add: slot_def mod_Suc_eq)
qed

text \<open>The two probes stop at the first slot with the key or without one.\<close>

lemma find_id_stops:
  assumes "table_shape T" "m < j + fuel" "j \<le> m" "unat index mod length T = slot T ident j"
    and "key_at T (slot T ident m) = ident \<or> key_at T (slot T ident m) = 0"
    and "\<And>i. i < m \<Longrightarrow> key_at T (slot T ident i) \<noteq> ident \<and> key_at T (slot T ident i) \<noteq> 0"
  shows "find_id fuel T ident index =
     Inr (if key_at T (slot T ident m) = ident then Some (snd (T ! slot T ident m)) else None)"
  using assms(2-4)
proof (induction fuel arbitrary: j index)
  case (Suc fuel)
  note pos = probe_position [OF assms(1) Suc.prems(3)]
  show ?case
  proof (cases "j = m")
    case True
    then show ?thesis
      using assms(5) pos(1,3) by (auto simp: vec_at_def key_at_def invalid_thread_id_def Let_def split: prod.splits)
  next
    case False
    then have "j < m" using Suc.prems(2) by simp
    then have "find_id (Suc fuel) T ident index = find_id fuel T ident ((index AND (table_capacity T - 1)) + 1)"
      using assms(6) [of j] pos(1,3) by (auto simp: vec_at_def key_at_def invalid_thread_id_def Let_def split: prod.splits)
    then show ?thesis using Suc.IH [of "Suc j"] Suc.prems \<open>j < m\<close> pos(2) by simp
  qed
qed simp

lemma place_id_stops:
  assumes "table_shape T" "m < j + fuel" "j \<le> m" "unat index mod length T = slot T ident j"
    and "key_at T (slot T ident m) = 0" "\<And>i. i < m \<Longrightarrow> key_at T (slot T ident i) \<noteq> 0"
  shows "place_id fuel T ident v index = Inr (T[slot T ident m := (ident, v)])"
  using assms(2-4)
proof (induction fuel arbitrary: j index)
  case (Suc fuel)
  note pos = probe_position [OF assms(1) Suc.prems(3)]
  show ?case
  proof (cases "j = m")
    case True
    then show ?thesis
      using assms(5) pos(1,3) by (auto simp: vec_at_def key_at_def invalid_thread_id_def Let_def split: prod.splits)
  next
    case False
    then have "j < m" using Suc.prems(2) by simp
    then have "place_id (Suc fuel) T ident v index = place_id fuel T ident v ((index AND (table_capacity T - 1)) + 1)"
      using assms(6) [of j] pos(1,3) by (auto simp: vec_at_def key_at_def invalid_thread_id_def Let_def split: prod.splits)
    then show ?thesis using Suc.IH [of "Suc j"] Suc.prems \<open>j < m\<close> pos(2) by simp
  qed
qed simp

lemma slot_surj:
  assumes "i < length T"
  shows "\<exists>m < length T. slot T ident m = i"
proof -
  let ?n = "length T" and ?H = "unat (hash_thread_id ident)"
  let ?m = "(i + (?n - ?H mod ?n)) mod ?n"
  have n: "0 < ?n" using assms by linarith
  have "(?H + ?m) mod ?n = (?H mod ?n + (i + (?n - ?H mod ?n))) mod ?n" by (simp add: mod_add_left_eq mod_add_right_eq)
  also have "?H mod ?n + (i + (?n - ?H mod ?n)) = i + ?n" using mod_less_divisor [OF n, of ?H] by simp
  finally have "slot T ident ?m = i" using assms by (simp add: slot_def)
  moreover have "?m < ?n" using n by (rule mod_less_divisor)
  ultimately show ?thesis by blast
qed

text \<open>A table with a free slot answers as the map it stands for.\<close>

lemma map_of_key_at:
  assumes "table_inv T" "i < length T" "key_at T i = ident" "ident \<noteq> 0"
  shows "map_of T ident = Some (snd (T ! i))"
proof -
  have "ident \<in> fst ` set T" using assms(2,3) by (force simp: key_at_def)
  then obtain v where v: "map_of T ident = Some v" by (auto simp: map_of_eq_None_iff dest: weak_map_of_SomeI)
  then obtain j where "j < length T" "T ! j = (ident, v)" using map_of_SomeD in_set_conv_nth by metis
  with assms have "j = i" by (auto simp: table_inv_def key_at_def)
  with v \<open>T ! j = (ident, v)\<close> show ?thesis by simp
qed

lemma first_hit:
  assumes "has_free_slot T"
  shows "\<exists>m < length T. (key_at T (slot T ident m) = ident \<or> key_at T (slot T ident m) = 0) \<and>
     (\<forall>i < m. key_at T (slot T ident i) \<noteq> ident \<and> key_at T (slot T ident i) \<noteq> 0)"
proof -
  obtain i where i: "i < length T" "key_at T i = 0" using assms by (auto simp: has_free_slot_def)
  with slot_surj [OF i(1)] obtain m where m: "m < length T" "key_at T (slot T ident m) = 0" by metis
  let ?P = "\<lambda>m. key_at T (slot T ident m) = ident \<or> key_at T (slot T ident m) = 0"
  define l where "l = (LEAST m. ?P m)"
  have "?P l" unfolding l_def by (rule LeastI [of ?P m]) (use m(2) in simp)
  moreover have "l \<le> m" unfolding l_def by (rule Least_le) (use m(2) in simp)
  moreover have "\<not> ?P i" if "i < l" for i using that unfolding l_def by (rule not_less_Least)
  ultimately show ?thesis using m(1) by (intro exI [of _ l]) auto
qed

lemma find_id_map_of:
  assumes "table_inv T" "has_free_slot T" "ident \<noteq> 0"
  shows "find_id (length T) T ident (hash_thread_id ident) = Inr (map_of T ident)"
proof -
  obtain m where m: "m < length T" "key_at T (slot T ident m) = ident \<or> key_at T (slot T ident m) = 0"
    "\<And>i. i < m \<Longrightarrow> key_at T (slot T ident i) \<noteq> ident \<and> key_at T (slot T ident i) \<noteq> 0"
    using first_hit [OF assms(2)] by blast
  have sh: "table_shape T" using assms(1) by (simp add: table_inv_def)
  have lt: "slot T ident i < length T" for i using m(1) by (auto simp: slot_def intro: mod_less_divisor)
  have f: "find_id (length T) T ident (hash_thread_id ident) =
     Inr (if key_at T (slot T ident m) = ident then Some (snd (T ! slot T ident m)) else None)"
    using m by (intro find_id_stops [OF sh, of m 0]) (auto simp: slot_def)
  show ?thesis
  proof (cases "key_at T (slot T ident m) = ident")
    case True
    then show ?thesis using f map_of_key_at [OF assms(1) lt _ assms(3)] by simp
  next
    case False
    have "ident \<notin> fst ` set T"
    proof
      assume "ident \<in> fst ` set T"
      then obtain i where i: "i < length T" "key_at T i = ident" by (auto simp: key_at_def in_set_conv_nth)
      with assms(1,3) obtain j where j: "slot T ident j = i" "\<And>j'. j' < j \<Longrightarrow> key_at T (slot T ident j') \<noteq> 0"
        unfolding table_inv_def by metis
      have "m \<noteq> j" using False i(2) j(1) by auto
      then show False using m(2) m(3) [of j] j i(2) False by (cases "m < j") auto
    qed
    then have "map_of T ident = None" by (simp add: map_of_eq_None_iff)
    then show ?thesis using f False by simp
  qed
qed

lemma table_keys_map_of:
  assumes "table_inv T"
  shows "ident \<in> table_keys T \<longleftrightarrow> ident \<noteq> 0 \<and> map_of T ident \<noteq> None"
proof
  assume "ident \<in> table_keys T"
  then show "ident \<noteq> 0 \<and> map_of T ident \<noteq> None" using map_of_key_at [OF assms] by (auto simp: table_keys_def)
next
  assume "ident \<noteq> 0 \<and> map_of T ident \<noteq> None"
  then obtain v where "(ident, v) \<in> set T" "ident \<noteq> 0" by (auto dest: map_of_SomeD)
  then show "ident \<in> table_keys T" by (auto simp: table_keys_def key_at_def in_set_conv_nth intro: exI) (metis fst_conv)
qed

text \<open>Entering a new id.\<close>

lemma place_id_ok:
  assumes "table_inv T" "has_free_slot T" "ident \<noteq> 0" "ident \<notin> table_keys T"
  shows "\<exists>T'. place_id (length T) T ident v (hash_thread_id ident) = Inr T' \<and> table_inv T' \<and> length T' = length T \<and>
     table_keys T' = insert ident (table_keys T) \<and> (\<forall>j. j \<noteq> 0 \<longrightarrow> map_of T' j = (if j = ident then Some v else map_of T j))"
proof -
  have sh: "table_shape T" using assms(1) by (simp add: table_inv_def)
  have "key_at T i \<noteq> ident" if "i < length T" for i using that assms(3,4) by (auto simp: table_keys_def)
  moreover have lt: "slot T ident i < length T" for i
    using assms(2) by (auto simp: slot_def has_free_slot_def intro: mod_less_divisor)
  ultimately obtain m where m: "m < length T" "key_at T (slot T ident m) = 0" "\<And>i. i < m \<Longrightarrow> key_at T (slot T ident i) \<noteq> 0"
    using first_hit [OF assms(2), of ident] by metis
  let ?s = "slot T ident m"
  define T' where "T' = T[?s := (ident, v)]"
  have "place_id (length T) T ident v (hash_thread_id ident) = Inr T'"
    unfolding T'_def using m by (intro place_id_stops [OF sh, of m 0]) (auto simp: slot_def)
  moreover have len: "length T' = length T" by (simp add: T'_def)
  have key: "key_at T' i = (if i = ?s then ident else key_at T i)" if "i < length T" for i
    using that lt [of m] by (simp add: T'_def key_at_def)
  have slot: "slot T' j = slot T j" for j by (simp add: slot_def len fun_eq_iff)
  have inv: "table_inv T'"
    unfolding table_inv_def len
  proof (intro conjI allI impI)
    show "table_shape T'" using sh by (simp add: table_shape_def len)
  next
    fix i j assume ij: "i < length T" "j < length T" "key_at T' i = key_at T' j" "key_at T' i \<noteq> 0"
    then show "i = j"
      using assms(1,3,4) key unfolding table_inv_def table_keys_def by (auto split: if_splits)
  next
    fix i assume i: "i < length T" "key_at T' i \<noteq> 0"
    show "\<exists>j < length T. slot T' (key_at T' i) j = i \<and> (\<forall>j' < j. key_at T' (slot T' (key_at T' i) j') \<noteq> 0)"
    proof (cases "i = ?s")
      case True
      then have "key_at T' i = ident" using key i(1) by simp
      then show ?thesis using True m lt key assms(3) by (intro exI [of _ m]) (simp add: slot)
    next
      case False
      then have ki: "key_at T' i = key_at T i" using key i(1) by simp
      with assms(1) i obtain j where j: "j < length T" "slot T (key_at T i) j = i" "\<And>j'. j' < j \<Longrightarrow> key_at T (slot T (key_at T i) j') \<noteq> 0"
        unfolding table_inv_def by metis
      have "slot T (key_at T i) j' < length T" for j' using i(1) by (auto simp: slot_def intro: mod_less_divisor)
      then show ?thesis using j ki key assms(3) by (intro exI [of _ j]) (auto simp: slot)
    qed
  qed
  moreover have keys: "table_keys T' = insert ident (table_keys T)"
  proof -
    have "j \<in> table_keys T' \<longleftrightarrow> j = ident \<or> j \<in> table_keys T" for j
    proof
      assume "j \<in> table_keys T'"
      then show "j = ident \<or> j \<in> table_keys T" unfolding table_keys_def len using key by (auto split: if_splits)
    next
      assume j: "j = ident \<or> j \<in> table_keys T"
      show "j \<in> table_keys T'"
      proof (cases "j = ident")
        case True
        then show ?thesis using key [OF lt] lt [of m] assms(3) by (auto simp: table_keys_def len intro!: exI [of _ ?s])
      next
        case False
        with j obtain i where "i < length T" "key_at T i = j" "j \<noteq> 0" by (auto simp: table_keys_def)
        then show ?thesis using key [of i] m(2) by (auto simp: table_keys_def len intro!: exI [of _ i] split: if_splits)
      qed
    qed
    then show ?thesis by auto
  qed
  moreover have "map_of T' j = (if j = ident then Some v else map_of T j)" if j: "j \<noteq> 0" for j
  proof (cases "j \<in> table_keys T'")
    case True
    then obtain i where i: "i < length T" "key_at T' i = j" by (auto simp: table_keys_def len)
    then have "map_of T' j = Some (snd (T' ! i))" using map_of_key_at [OF inv, of i j] j len by simp
    moreover have "map_of T j = Some (snd (T ! i))" if "j \<noteq> ident"
      using map_of_key_at [OF assms(1) i(1) _ j] that i key by (auto split: if_splits)
    moreover have "i = ?s \<longleftrightarrow> j = ident" using i key assms(3,4) by (auto simp: table_keys_def split: if_splits)
    ultimately show ?thesis using lt [of m] by (auto simp: T'_def)
  next
    case False
    then have "j \<noteq> ident" "j \<notin> table_keys T" using keys by auto
    then show ?thesis using False table_keys_map_of [OF inv] table_keys_map_of [OF assms(1)] j by auto
  qed
  ultimately show ?thesis using len by blast
qed

text \<open>A table longer than the number of its keys has a free slot.\<close>

lemma pigeonhole_free_slot:
  assumes "table_inv T" "table_keys T \<subseteq> D" "finite D" "card D < length T"
  shows "has_free_slot T"
proof (rule ccontr)
  assume "\<not> has_free_slot T"
  then have nz: "key_at T i \<noteq> 0" if "i < length T" for i using that by (auto simp: has_free_slot_def)
  then have "inj_on (key_at T) {..<length T}" using assms(1) by (auto simp: inj_on_def table_inv_def)
  moreover have "key_at T ` {..<length T} \<subseteq> D" using assms(2) nz by (auto simp: table_keys_def)
  ultimately have "card {..<length T} \<le> card D" using assms(3) by (intro card_inj_on_le)
  with assms(4) show False by simp
qed

section \<open>All tables\<close>

text \<open>\<open>R\<close> is the registry the tables stand for: which producer belongs to which thread.\<close>

definition table_of :: "(u64 \<rightharpoonup> nat) \<Rightarrow> producer_table \<Rightarrow> bool" where
  "table_of R T \<longleftrightarrow> table_inv T \<and> has_free_slot T \<and> table_keys T \<subseteq> dom R \<and> (\<forall>ident \<in> table_keys T. map_of T ident = Some (R ident))"

definition tables_inv :: "(u64 \<rightharpoonup> nat) \<Rightarrow> producer_table list \<Rightarrow> u64 \<Rightarrow> bool" where
  "tables_inv R Ts n \<longleftrightarrow>
     Ts \<noteq> [] \<and> list_all (table_of R) Ts \<and> dom R \<subseteq> \<Union> (table_keys ` set Ts) \<and>
     finite (dom R) \<and> (\<forall>ident \<in> dom R. 0 < ident \<and> ident < 2 ^ 48) \<and> 2 * card (dom R) < length (hd Ts) \<and> n = of_nat (card (dom R))"

lemma table_of_map_of:
  assumes "table_of R T" "ident \<noteq> 0"
  shows "map_of T ident = (if ident \<in> table_keys T then Some (R ident) else None)"
  using assms table_keys_map_of [of T ident] by (auto simp: table_of_def)

lemma find_older_ok:
  assumes "list_all (table_of R) Ts" "ident \<noteq> 0"
  shows "find_older Ts ident = Inr (if ident \<in> \<Union> (table_keys ` set Ts) then Some (R ident) else None)"
  using assms(1)
proof (induction Ts)
  case (Cons T Ts)
  then have "find_id (length T) T ident (hash_thread_id ident) = Inr (map_of T ident)"
    using find_id_map_of assms(2) by (simp add: table_of_def)
  then show ?case using Cons assms(2) table_of_map_of [of R T ident] by simp
qed simp

lemma table_of_place:
  assumes "table_of R T" "ident \<noteq> 0" "ident \<notin> table_keys T" "R ident = Some p" "finite (dom R)" "card (dom R) < length T"
  shows "\<exists>T'. place_id (length T) T ident (Some p) (hash_thread_id ident) = Inr T' \<and> table_of R T' \<and> length T' = length T \<and>
     table_keys T' = insert ident (table_keys T)"
proof -
  obtain T' where T': "place_id (length T) T ident (Some p) (hash_thread_id ident) = Inr T'" "table_inv T'" "length T' = length T"
    "table_keys T' = insert ident (table_keys T)" "\<And>j. j \<noteq> 0 \<Longrightarrow> map_of T' j = (if j = ident then Some (Some p) else map_of T j)"
    using place_id_ok [of T ident "Some p"] assms(1-3) unfolding table_of_def by blast
  have sub: "table_keys T' \<subseteq> dom R" using T'(4) assms(1,4) by (auto simp: table_of_def)
  then have "has_free_slot T'" using pigeonhole_free_slot [OF T'(2) _ assms(5)] assms(6) T'(3) by simp
  moreover have "map_of T' j = Some (R j)" if "j \<in> table_keys T'" for j
  proof -
    have "j \<noteq> 0" using that by (auto simp: table_keys_def)
    then show ?thesis using T'(4,5) that assms(1,4) by (auto simp: table_of_def)
  qed
  ultimately show ?thesis using T' sub by (auto simp: table_of_def)
qed

lemma find_producer_ok:
  assumes "tables_inv R Ts n" "ident \<noteq> 0"
  shows "\<exists>Ts'. find_producer Ts ident = Inr (if ident \<in> dom R then Some (R ident) else None, Ts') \<and> tables_inv R Ts' n \<and>
     (ident \<notin> dom R \<longrightarrow> Ts' = Ts)"
proof -
  obtain T prev where Ts: "Ts = T # prev" using assms(1) by (cases Ts) (auto simp: tables_inv_def)
  have T: "table_of R T" and prev: "list_all (table_of R) prev" and dom: "dom R \<subseteq> table_keys T \<union> \<Union> (table_keys ` set prev)"
    and fin: "finite (dom R)" and c: "2 * card (dom R) < length T" using assms(1) Ts by (auto simp: tables_inv_def)
  have f: "find_id (length T) T ident (hash_thread_id ident) = Inr (if ident \<in> table_keys T then Some (R ident) else None)"
    using find_id_map_of [of T ident] T assms(2) table_of_map_of [OF T assms(2)] by (simp add: table_of_def)
  show ?thesis
  proof (cases "ident \<in> dom R \<and> ident \<notin> table_keys T")
    case True
    then obtain p where p: "R ident = Some p" by auto
    have card: "card (dom R) < length T" using c by simp
    obtain T' where T': "place_id (length T) T ident (Some p) (hash_thread_id ident) = Inr T'" "table_of R T'" "length T' = length T"
      "table_keys T' = insert ident (table_keys T)"
      using table_of_place [OF T assms(2) _ p fin card] True by blast
    have "ident \<in> \<Union> (table_keys ` set prev)" using True dom by auto
    then have "find_producer Ts ident = Inr (Some (R ident), T' # prev)"
      using f find_older_ok [OF prev assms(2)] T'(1) p True Ts by simp
    moreover have "tables_inv R (T' # prev) n" using assms(1) Ts T' by (auto simp: tables_inv_def)
    ultimately show ?thesis using True by auto
  next
    case False
    have "table_keys T \<subseteq> dom R" "\<Union> (table_keys ` set prev) \<subseteq> dom R"
      using T prev by (auto simp: table_of_def list_all_iff)
    then have "find_producer Ts ident = Inr (if ident \<in> dom R then Some (R ident) else None, Ts)"
      using f find_older_ok [OF prev assms(2)] False Ts by auto
    then show ?thesis using assms(1) by auto
  qed
qed

text \<open>A fresh table in front, and a new thread entered into the newest table.\<close>

lemma empty_table_ok:
  assumes "5 \<le> k" "k \<le> 50"
  shows "table_of R (empty_table (2 ^ k))" and "table_keys (empty_table (2 ^ k)) = {}" and "length (empty_table (2 ^ k)) = 2 ^ k"
proof -
  have "(2 :: nat) ^ k < 2 ^ 64" using assms by (intro power_strict_increasing) simp_all
  moreover have "(2 ^ k :: u64) = of_nat (2 ^ k)" by simp
  ultimately have u: "unat (2 ^ k :: u64) = 2 ^ k" by (simp only: unat_of_nat) simp
  then show len: "length (empty_table (2 ^ k)) = 2 ^ k" by (simp add: empty_table_def)
  have k0: "key_at (empty_table (2 ^ k)) i = 0" if "i < 2 ^ k" for i
    using that u by (simp add: key_at_def empty_table_def invalid_thread_id_def)
  then show keys: "table_keys (empty_table (2 ^ k)) = {}" by (auto simp: table_keys_def len)
  show "table_of R (empty_table (2 ^ k))"
    using assms k0 keys len by (auto simp: table_of_def table_inv_def table_shape_def has_free_slot_def intro!: exI [of _ k])
qed

lemma tables_inv_grow:
  assumes "tables_inv R Ts n" "5 \<le> k" "k \<le> 50" "2 * card (dom R) < 2 ^ k"
  shows "tables_inv R (empty_table (2 ^ k) # Ts) n"
  using assms empty_table_ok [OF assms(2,3)] by (auto simp: tables_inv_def)

lemma table_of_upd: "table_of R T \<Longrightarrow> ident \<notin> dom R \<Longrightarrow> table_of (R(ident \<mapsto> p)) T"
  unfolding table_of_def by (auto simp: domIff)

lemma tables_inv_add:
  assumes "tables_inv R (T # prev) n" "ident \<notin> dom R" "0 < ident" "ident < 2 ^ 48" "2 * card (dom R) + 2 < length T"
  shows "\<exists>T'. place_id (length T) T ident (Some p) (hash_thread_id ident) = Inr T' \<and> tables_inv (R(ident \<mapsto> p)) (T' # prev) (n + 1)"
proof -
  let ?R = "R(ident \<mapsto> p)"
  have T: "table_of R T" and prev: "list_all (table_of R) prev" and fin: "finite (dom R)" using assms(1) by (auto simp: tables_inv_def)
  have card: "card (dom ?R) = Suc (card (dom R))" using fin assms(2) by simp
  have "ident \<notin> table_keys T" using T assms(2) by (auto simp: table_of_def)
  then obtain T' where T': "place_id (length T) T ident (Some p) (hash_thread_id ident) = Inr T'" "table_of ?R T'" "length T' = length T"
    "table_keys T' = insert ident (table_keys T)"
    using table_of_place [OF table_of_upd [OF T assms(2)], of ident p p] assms(3,5) fin card by auto
  have "list_all (table_of ?R) prev" using prev table_of_upd [OF _ assms(2)] by (auto simp: list_all_iff)
  then have "tables_inv ?R (T' # prev) (n + 1)"
    using assms(1,3-5) T' card by (auto simp: tables_inv_def)
  with T'(1) show ?thesis by blast
qed

end
