(* ===== verification/CqQueue.thy ===== *)
theory CqQueue
  imports CqProducer CqHash CqSpec
begin

text \<open>
  \<^verbatim>\<open>lib/concurrentqueue.h\<close>, part five: the queue itself, made of the block pool, the implicit producers, their
  list and the tables from threads to producers.  \<open>try_dequeue\<close> scores the producers and takes from the best.
  The interpretation at the end shows that the queue is the bag that its clients rely on.
\<close>

section \<open>The queue\<close>

record 'a cqueue =
  cq_pool :: "'a cq_pool"
  cq_producers :: "implicit_producer list"
  cq_list :: "nat list"
  cq_producer_count :: u32
  cq_tables :: "producer_table list"
  cq_hash_count :: u64

definition empty_pool :: "(nat \<Rightarrow> bool) \<Rightarrow> 'a cq_pool" where
  "empty_pool mem =
     \<lparr>pl_heap = (\<lambda>_. new_block), pl_next = 0, pl_free_head = None, pl_initial_index = 0, pl_initial_size = 0,
      pl_mem = mem, pl_mallocs = 0\<rparr>"

definition queue_with_blocks :: "(nat \<Rightarrow> bool) \<Rightarrow> u64 \<Rightarrow> 'a cqueue" where
  "queue_with_blocks mem blocks =
     (let (tables, n) = populate_initial_implicit_producer_hash
      in \<lparr>cq_pool = populate_initial_block_list blocks (empty_pool mem), cq_producers = [], cq_list = [],
          cq_producer_count = 0, cq_tables = tables, cq_hash_count = n\<rparr>)"

definition ConcurrentQueue :: "(nat \<Rightarrow> bool) \<Rightarrow> u64 \<Rightarrow> 'a cqueue" where
  "ConcurrentQueue mem capacity =
     queue_with_blocks mem (capacity div BLOCK_SIZE + (if capacity AND (BLOCK_SIZE - 1) = 0 then 0 else 1))"

definition ConcurrentQueue3 :: "(nat \<Rightarrow> bool) \<Rightarrow> u64 \<Rightarrow> u64 \<Rightarrow> u64 \<Rightarrow> 'a cqueue" where
  "ConcurrentQueue3 mem minCapacity maxExplicitProducers maxImplicitProducers =
     queue_with_blocks mem
       (((minCapacity + BLOCK_SIZE - 1) div BLOCK_SIZE - 1) * (maxExplicitProducers + 1) +
        2 * (maxExplicitProducers + maxImplicitProducers))"

section \<open>Producers\<close>

definition add_producer :: "implicit_producer \<Rightarrow> 'a cqueue \<Rightarrow> nat \<times> 'a cqueue" where
  "add_producer p q =
     (let a = length (cq_producers q)
      in (a, q\<lparr>cq_producer_count := cq_producer_count q + 1, cq_producers := cq_producers q @ [p], cq_list := a # cq_list q\<rparr>))"

text \<open>The second result says whether the producer was used before.\<close>

definition recycle_or_create_producer :: "'a cqueue \<Rightarrow> (nat option \<times> bool \<times> 'a cqueue) res" where
  "recycle_or_create_producer q =
     (case find (\<lambda>a. ip_inactive (cq_producers q ! a)) (cq_list q) of
        Some a \<Rightarrow>
          Inr (Some a, True, q\<lparr>cq_producers := (cq_producers q)[a := (cq_producers q ! a)\<lparr>ip_inactive := False\<rparr>]\<rparr>)
      | None \<Rightarrow>
          (case pl_malloc (cq_pool q) of
             (False, pl) \<Rightarrow> Inr (None, False, q\<lparr>cq_pool := pl\<rparr>)
           | (True, pl) \<Rightarrow>
               res_bind (ImplicitProducer pl) (\<lambda>(p, pl1).
                 let (a, q1) = add_producer p (q\<lparr>cq_pool := pl1\<rparr>) in Inr (Some a, False, q1))))"

text \<open>A larger table when the newest is half full; False when there is no memory for it.\<close>

definition grow_tables :: "u64 \<Rightarrow> 'a cqueue \<Rightarrow> (bool \<times> 'a cqueue) res" where
  "grow_tables newCount q =
     (case cq_tables q of
        [] \<Rightarrow> Inl NullDeref
      | mainHash # _ \<Rightarrow>
          if newCount \<ge> drop_bit 1 (table_capacity mainHash) then
            res_bind (grow_capacity 64 newCount (push_bit 1 (table_capacity mainHash))) (\<lambda>newCapacity.
              case pl_malloc (cq_pool q) of
                (False, pl) \<Rightarrow> Inr (False, q\<lparr>cq_pool := pl, cq_hash_count := cq_hash_count q - 1\<rparr>)
              | (True, pl) \<Rightarrow> Inr (True, q\<lparr>cq_pool := pl, cq_tables := empty_table newCapacity # cq_tables q\<rparr>))
          else Inr (True, q))"

definition register_thread :: "u64 \<Rightarrow> u64 \<Rightarrow> 'a cqueue \<Rightarrow> (nat option \<times> 'a cqueue) res" where
  "register_thread ident newCount q =
     (case cq_tables q of
        [] \<Rightarrow> Inl NullDeref
      | mainHash # prev \<Rightarrow>
          if newCount < drop_bit 1 (table_capacity mainHash) + drop_bit 2 (table_capacity mainHash) then
            res_bind (recycle_or_create_producer q) (\<lambda>(r, recycled, q1).
              case r of
                None \<Rightarrow> Inr (None, q1\<lparr>cq_hash_count := cq_hash_count q1 - 1\<rparr>)
              | Some a \<Rightarrow>
                  let q2 = (if recycled then q1\<lparr>cq_hash_count := cq_hash_count q1 - 1\<rparr> else q1)
                  in res_bind (place_id (length mainHash) mainHash ident (Some a) (hash_thread_id ident)) (\<lambda>mainHash'.
                       Inr (Some a, q2\<lparr>cq_tables := mainHash' # prev\<rparr>)))
          else Inl Hangs)"

definition get_or_add_implicit_producer :: "u64 \<Rightarrow> 'a cqueue \<Rightarrow> (nat option \<times> 'a cqueue) res" where
  "get_or_add_implicit_producer ident q =
     res_bind (find_producer (cq_tables q) ident) (\<lambda>(r, tables).
       let q0 = q\<lparr>cq_tables := tables\<rparr>
       in case r of
            Some v \<Rightarrow> Inr (v, q0)
          | None \<Rightarrow>
              (let newCount = 1 + cq_hash_count q0; q1 = q0\<lparr>cq_hash_count := newCount\<rparr>
               in res_bind (grow_tables newCount q1) (\<lambda>(ok, q2).
                    if \<not> ok then Inr (None, q2) else register_thread ident newCount q2)))"

section \<open>Enqueueing and dequeueing\<close>

definition inner_enqueue :: "bool \<Rightarrow> u64 \<Rightarrow> 'a \<Rightarrow> 'a cqueue \<Rightarrow> (bool \<times> 'a cqueue) res" where
  "inner_enqueue can_alloc ident x q =
     res_bind (get_or_add_implicit_producer ident q) (\<lambda>(producer, q1).
       case producer of
         None \<Rightarrow> Inr (False, q1)
       | Some a \<Rightarrow>
           res_bind (vec_at (cq_producers q1) a) (\<lambda>p.
           res_bind (implicit_enqueue can_alloc x p (cq_pool q1)) (\<lambda>(b, p', pl').
             Inr (b, q1\<lparr>cq_producers := (cq_producers q1)[a := p'], cq_pool := pl'\<rparr>))))"

text \<open>\<open>ident\<close> is the calling thread.\<close>

definition enqueue :: "u64 \<Rightarrow> 'a \<Rightarrow> 'a cqueue \<Rightarrow> (bool \<times> 'a cqueue) res" where
  "enqueue ident x q = (if INITIAL_IMPLICIT_PRODUCER_HASH_SIZE = 0 then Inr (False, q) else inner_enqueue True ident x q)"

definition try_enqueue :: "u64 \<Rightarrow> 'a \<Rightarrow> 'a cqueue \<Rightarrow> (bool \<times> 'a cqueue) res" where
  "try_enqueue ident x q = (if INITIAL_IMPLICIT_PRODUCER_HASH_SIZE = 0 then Inr (False, q) else inner_enqueue False ident x q)"

definition dequeue_from :: "nat \<Rightarrow> 'a cqueue \<Rightarrow> ('a option \<times> 'a cqueue) res" where
  "dequeue_from a q =
     res_bind (vec_at (cq_producers q) a) (\<lambda>p.
     res_bind (implicit_dequeue p (cq_pool q)) (\<lambda>(r, p', pl').
       Inr (r, q\<lparr>cq_producers := (cq_producers q)[a := p'], cq_pool := pl'\<rparr>)))"

text \<open>The scoring loop: how many of the producers looked at have elements, at most three, and which has most.\<close>

fun score_producers :: "implicit_producer list \<Rightarrow> nat list \<Rightarrow> nat \<Rightarrow> nat option \<Rightarrow> u64 \<Rightarrow> nat \<times> nat option" where
  "score_producers ps [] nonEmptyCount best bestSize = (nonEmptyCount, best)"
| "score_producers ps (a # ptr) nonEmptyCount best bestSize =
     (if nonEmptyCount < 3 then
        (let sz = size_approx (ps ! a)
         in if sz > 0 then
              (if sz > bestSize then score_producers ps ptr (Suc nonEmptyCount) (Some a) sz
               else score_producers ps ptr (Suc nonEmptyCount) best bestSize)
            else score_producers ps ptr nonEmptyCount best bestSize)
      else (nonEmptyCount, best))"

fun dequeue_any :: "nat option \<Rightarrow> nat list \<Rightarrow> 'a cqueue \<Rightarrow> ('a option \<times> 'a cqueue) res" where
  "dequeue_any best [] q = Inr (None, q)"
| "dequeue_any best (a # ptr) q =
     (if Some a = best then dequeue_any best ptr q
      else res_bind (dequeue_from a q) (\<lambda>(r, q1). case r of Some x \<Rightarrow> Inr (Some x, q1) | None \<Rightarrow> dequeue_any best ptr q1))"

definition try_dequeue :: "'a cqueue \<Rightarrow> ('a option \<times> 'a cqueue) res" where
  "try_dequeue q =
     (let (nonEmptyCount, best) = score_producers (cq_producers q) (cq_list q) 0 None 0
      in if nonEmptyCount > 0 then
           res_bind (deref best) (\<lambda>a.
           res_bind (dequeue_from a q) (\<lambda>(r, q1).
             case r of Some x \<Rightarrow> Inr (Some x, q1) | None \<Rightarrow> dequeue_any best (cq_list q1) q1))
         else Inr (None, q))"

definition try_dequeue_non_interleaved :: "'a cqueue \<Rightarrow> ('a option \<times> 'a cqueue) res" where
  "try_dequeue_non_interleaved q = dequeue_any None (cq_list q) q"

fun sum_sizes :: "implicit_producer list \<Rightarrow> nat list \<Rightarrow> u64 \<Rightarrow> u64" where
  "sum_sizes ps [] total_size = total_size"
| "sum_sizes ps (a # ptr) total_size = sum_sizes ps ptr (total_size + size_approx (ps ! a))"

definition queue_size_approx :: "'a cqueue \<Rightarrow> u64" where
  "queue_size_approx q = sum_sizes (cq_producers q) (cq_list q) 0"

section \<open>The elements in the queue\<close>

text \<open>The elements of a producer, found by the lookup that dequeueing uses.\<close>

definition peek :: "'a cq_pool \<Rightarrow> implicit_producer \<Rightarrow> nat \<Rightarrow> 'a option" where
  "peek pl p q =
     (let index = ip_head_index p + of_nat q
      in case get_block_index_entry_for_index index p of
           Inr (_, e) \<Rightarrow> (case ie_value e of BlockAt b \<Rightarrow> bk_elements (pl_heap pl b) ! bk_slot index | _ \<Rightarrow> None)
         | Inl _ \<Rightarrow> None)"

definition producer_items :: "'a cq_pool \<Rightarrow> implicit_producer \<Rightarrow> 'a list" where
  "producer_items pl p = List.map_filter (peek pl p) [0..<unat (ip_tail_index p - ip_head_index p)]"

definition queue_items :: "'a cqueue \<Rightarrow> 'a multiset" where
  "queue_items q = mset (concat (map (producer_items (cq_pool q)) (cq_producers q)))"

lemma map_filter_Some: "(\<And>i. i < length xs \<Longrightarrow> f i = Some (xs ! i)) \<Longrightarrow> List.map_filter f [0..<length xs] = xs"
proof -
  assume f: "\<And>i. i < length xs \<Longrightarrow> f i = Some (xs ! i)"
  then have "List.map_filter f [0..<length xs] = List.map_filter (\<lambda>i. Some (xs ! i)) [0..<length xs]"
    unfolding List.map_filter_def by (intro arg_cong2 [where f = map] filter_cong map_cong) auto
  then show ?thesis by (simp add: map_filter_def comp_def map_nth)
qed

lemma producer_items_ok:
  assumes "producer_ok (pl_heap pl) p h bs xs"
  shows "producer_items pl p = xs"
proof -
  define n where "n = (h + length xs + 31) div 32"
  have nums: "producer_nums p h n bs (length xs)" and heap: "producer_heap (pl_heap pl) h bs xs"
    using assms unfolding producer_ok_def producer_core_def n_def by blast+
  from nums have idx: "index_inv p n bs" and len: "length bs = n - h div 32" and le: "h + length xs \<le> 32 * n" and hn: "h div 32 \<le> n"
    and tail: "ip_tail_index p = of_nat (h + length xs)" and head: "ip_head_index p = of_nat h" and small: "length xs < 2 ^ 63"
    unfolding producer_nums_def by auto
  have "peek pl p q = Some (xs ! q)" if q: "q < length xs" for q
  proof -
    let ?j = "(h + q) div 32 - h div 32"
    have j: "?j < length bs" "h div 32 \<le> (h + q) div 32" using block_offset [of h q n] q le len by auto
    then have "(h + q) div 32 = n - length bs + ?j" using len hn by simp
    with lookup_ok [OF idx j(1)] obtain pos where
      "get_block_index_entry_for_index (of_nat (h + q)) p = Inr (pos, \<lparr>ie_key = of_nat (32 * ((h + q) div 32)), ie_value = BlockAt (bs ! ?j)\<rparr>)"
      by blast
    moreover have "bk_elements (pl_heap pl (bs ! ?j)) ! ((h + q) mod 32) = Some (xs ! q)"
      using heap q unfolding producer_heap_def by blast
    moreover have "bk_slot (of_nat h + of_nat q) = (h + q) mod 32" using bk_slot_of_nat [of "h + q"] by simp
    ultimately show ?thesis unfolding peek_def Let_def head by (simp flip: of_nat_add)
  qed
  moreover have "unat (of_nat (length xs) :: u64) = length xs" using small by (simp add: unat_of_nat)
  ultimately show ?thesis using map_filter_Some [of xs "peek pl p"] by (simp add: producer_items_def tail head)
qed

section \<open>The invariant\<close>

definition queue_rep :: "'a cqueue \<Rightarrow> (u64 \<rightharpoonup> nat) \<Rightarrow> nat list \<Rightarrow> nat list list \<Rightarrow> 'a list list \<Rightarrow> bool" where
  "queue_rep q R hs bss xss \<longleftrightarrow>
     (let n = length (cq_producers q)
      in length hs = n \<and> length bss = n \<and> length xss = n \<and>
         (\<forall>i < n. producer_ok (pl_heap (cq_pool q)) (cq_producers q ! i) (hs ! i) (bss ! i) (xss ! i) \<and> \<not> ip_inactive (cq_producers q ! i)) \<and>
         (\<forall>i < n. \<forall>j < n. i \<noteq> j \<longrightarrow> set (bss ! i) \<inter> set (bss ! j) = {}) \<and>
         (\<exists>fl. pool_ok (cq_pool q) (\<Union> (set ` set bss)) fl) \<and>
         distinct (cq_list q) \<and> set (cq_list q) = {..<n} \<and>
         tables_inv R (cq_tables q) (cq_hash_count q) \<and> ran R \<subseteq> {..<n} \<and> inj_on R (dom R))"

definition queue_ok :: "'a cqueue \<Rightarrow> bool" where
  "queue_ok q \<longleftrightarrow> (\<exists>R hs bss xss. queue_rep q R hs bss xss)"

lemma queue_repD:
  assumes "queue_rep q R hs bss xss"
  shows "length hs = length (cq_producers q)" and "length bss = length (cq_producers q)" and "length xss = length (cq_producers q)"
    and "a < length (cq_producers q) \<Longrightarrow> producer_ok (pl_heap (cq_pool q)) (cq_producers q ! a) (hs ! a) (bss ! a) (xss ! a)"
    and "a < length (cq_producers q) \<Longrightarrow> \<not> ip_inactive (cq_producers q ! a)"
    and "a < length (cq_producers q) \<Longrightarrow> b < length (cq_producers q) \<Longrightarrow> a \<noteq> b \<Longrightarrow> set (bss ! a) \<inter> set (bss ! b) = {}"
    and "\<exists>fl. pool_ok (cq_pool q) (\<Union> (set ` set bss)) fl"
    and "set (cq_list q) = {..<length (cq_producers q)}" and "tables_inv R (cq_tables q) (cq_hash_count q)"
    and "ran R \<subseteq> {..<length (cq_producers q)}" and "inj_on R (dom R)" and "distinct (cq_list q)"
  using assms by (simp_all add: queue_rep_def Let_def)

lemma queue_items_rep: "queue_rep q R hs bss xss \<Longrightarrow> queue_items q = mset (concat xss)"
proof -
  assume r: "queue_rep q R hs bss xss"
  have "map (producer_items (cq_pool q)) (cq_producers q) = xss"
    using queue_repD(3) [OF r] producer_items_ok [OF queue_repD(4) [OF r]] by (simp add: list_eq_iff_nth_eq [where xs = "map _ _"])
  then show ?thesis by (simp add: queue_items_def)
qed

lemma mset_concat_update:
  "a < length xss \<Longrightarrow> mset (concat (xss[a := ys])) + mset (xss ! a) = mset (concat xss) + mset ys"
  by (induction xss arbitrary: a) (auto simp: nth_Cons split: nat.split)

text \<open>A step of one producer.\<close>

lemma queue_rep_step:
  assumes r: "queue_rep q R hs bss xss" and a: "a < length (cq_producers q)"
    and p': "producer_ok (pl_heap pl') p' h' bs' xs'" "\<not> ip_inactive p'"
    and st: "pool_step (cq_pool q) (\<Union> (set ` set bss)) (bss ! a) pl' bs'"
  shows "queue_rep (q\<lparr>cq_producers := (cq_producers q)[a := p'], cq_pool := pl'\<rparr>) R (hs[a := h']) (bss[a := bs']) (xss[a := xs'])"
proof -
  let ?n = "length (cq_producers q)" and ?B = "\<Union> (set ` set bss)"
  note D = queue_repD [OF r]
  have sub: "set (bss ! i) \<subseteq> ?B - set (bss ! a)" if "i < ?n" "i \<noteq> a" for i
    using D(6) [OF that(1) a that(2)] that(1) D(2) by fastforce
  have ok: "producer_ok (pl_heap pl') (cq_producers q ! i) (hs ! i) (bss ! i) (xss ! i)" if "i < ?n" "i \<noteq> a" for i
  proof (subst producer_ok_cong)
    show "pl_heap pl' b = pl_heap (cq_pool q) b" if "b \<in> set (bss ! i)" for b
      using st sub [OF \<open>i < ?n\<close> \<open>i \<noteq> a\<close>] that by (auto simp: pool_step_def)
  qed (rule D(4) [OF that(1)])
  have B': "\<Union> (set ` set (bss[a := bs'])) = (?B - set (bss ! a)) \<union> set bs'"
  proof -
    have "\<Union> (set ` set (bss[a := bs'])) = (\<Union>i < ?n. set (bss[a := bs'] ! i))"
      using D(2) by (simp add: set_conv_nth [of "bss[a := bs']"]) blast
    also have "\<dots> = (?B - set (bss ! a)) \<union> set bs'"
    proof (intro equalityI subsetI)
      fix b assume "b \<in> (\<Union>i < ?n. set (bss[a := bs'] ! i))"
      then obtain i where "i < ?n" "b \<in> set (bss[a := bs'] ! i)" by auto
      then show "b \<in> (?B - set (bss ! a)) \<union> set bs'" using sub [of i] a D(2) by (cases "i = a") auto
    next
      fix b assume "b \<in> (?B - set (bss ! a)) \<union> set bs'"
      then consider "b \<in> set bs'" | i where "i < ?n" "b \<in> set (bss ! i)" "i \<noteq> a"
        using D(2) by (auto simp: in_set_conv_nth [of _ bss]) metis
      then show "b \<in> (\<Union>i < ?n. set (bss[a := bs'] ! i))"
        using a D(2) by cases force+
    qed
    finally show ?thesis .
  qed
  have "set (bss[a := bs'] ! i) \<inter> set (bss[a := bs'] ! j) = {}" if "i < ?n" "j < ?n" "i \<noteq> j" for i j
    using that D(2) D(6) sub [of i] sub [of j] a st by (cases "i = a"; cases "j = a") (auto simp: pool_step_def nth_list_update)
  moreover have "producer_ok (pl_heap pl') ((cq_producers q)[a := p'] ! i) (hs[a := h'] ! i) (bss[a := bs'] ! i) (xss[a := xs'] ! i) \<and>
      \<not> ip_inactive ((cq_producers q)[a := p'] ! i)" if "i < ?n" for i
    using ok [OF that] p' that D(1-3) D(5) [OF that] by (cases "i = a") auto
  moreover have "\<exists>fl. pool_ok pl' (\<Union> (set ` set (bss[a := bs']))) fl" using st B' by (simp add: pool_step_def)
  ultimately show ?thesis using D by (simp add: queue_rep_def Let_def)
qed

lemma pool_sub: "a < length bss \<Longrightarrow> set (bss ! a) \<subseteq> \<Union> (set ` set bss)"
  by (intro Union_upper imageI nth_mem)

lemma dequeue_from_ok:
  assumes r: "queue_rep q R hs bss xss" and a: "a < length (cq_producers q)" and ne: "xss ! a \<noteq> []"
  shows "\<exists>q' hs' bss'. dequeue_from a q = Inr (Some (hd (xss ! a)), q') \<and> queue_rep q' R hs' bss' (xss[a := tl (xss ! a)])"
proof -
  note D = queue_repD [OF r]
  obtain fl where fl: "pool_ok (cq_pool q) (\<Union> (set ` set bss)) fl" using D(7) by blast
  have "producer_ok (pl_heap (cq_pool q)) (cq_producers q ! a) (hs ! a) (bss ! a) (hd (xss ! a) # tl (xss ! a))"
    using D(4) [OF a] ne by simp
  from implicit_dequeue_ok [OF this fl] obtain p' pl' bs' where s:
    "implicit_dequeue (cq_producers q ! a) (cq_pool q) = Inr (Some (hd (xss ! a)), p', pl')"
    "producer_ok (pl_heap pl') p' (Suc (hs ! a)) bs' (tl (xss ! a))" "ip_inactive p' = ip_inactive (cq_producers q ! a)"
    "pool_step (cq_pool q) (\<Union> (set ` set bss)) (bss ! a) pl' bs'"
    using pool_sub [of a bss] a D(2) by auto
  have "queue_rep (q\<lparr>cq_producers := (cq_producers q)[a := p'], cq_pool := pl'\<rparr>) R (hs[a := Suc (hs ! a)]) (bss[a := bs']) (xss[a := tl (xss ! a)])"
    using queue_rep_step [OF r a s(2) _ s(4)] s(3) D(5) [OF a] by simp
  then show ?thesis using s(1) a by (auto simp: dequeue_from_def vec_at_def)
qed

lemma score_producers_ok:
  assumes "\<And>a. a \<in> set ptr \<Longrightarrow> (0 < size_approx (ps ! a)) = ne a" "n = 0 \<Longrightarrow> bestSize = 0"
    and "0 < n \<Longrightarrow> \<exists>a. best = Some a \<and> ne a" "score_producers ps ptr n best bestSize = (n', best')"
  shows "(0 < n' \<longrightarrow> (\<exists>a. best' = Some a \<and> ne a)) \<and> (n' = 0 \<longrightarrow> n = 0 \<and> (\<forall>a \<in> set ptr. \<not> ne a))"
  using assms
proof (induction ptr arbitrary: n best bestSize)
  case (Cons a ptr)
  show ?case
  proof (cases "n < 3 \<and> 0 < size_approx (ps ! a)")
    case True
    then have na: "ne a" using Cons.prems(1) by simp
    show ?thesis
    proof (cases "size_approx (ps ! a) > bestSize")
      case True
      then show ?thesis using Cons.IH [of "Suc n" "size_approx (ps ! a)" "Some a"] Cons.prems na \<open>n < 3 \<and> _\<close> by (simp add: Let_def)
    next
      case False
      then have "0 < n" using Cons.prems(2) \<open>n < 3 \<and> _\<close> by (cases n) auto
      then show ?thesis using False Cons.IH [of "Suc n" bestSize best] Cons.prems \<open>n < 3 \<and> _\<close> by (simp add: Let_def)
    qed
  next
    case False
    show ?thesis
    proof (cases "n < 3")
      case lt: True
      with False Cons.prems(1,4) have sc: "\<not> ne a" "score_producers ps ptr n best bestSize = (n', best')" by (simp_all add: Let_def)
      have "(0 < size_approx (ps ! b)) = ne b" if "b \<in> set ptr" for b using Cons.prems(1) that by simp
      from Cons.IH [OF this Cons.prems(2,3) sc(2)] sc(1) show ?thesis by simp
    next
      case nlt: False
      with Cons.prems(4) have "n' = n" "best' = best" by simp_all
      with nlt Cons.prems(3) show ?thesis by simp
    qed
  qed
qed auto

lemma try_dequeue_ok:
  assumes r: "queue_rep q R hs bss xss"
  shows "(concat xss = [] \<and> try_dequeue q = Inr (None, q)) \<or>
     (\<exists>a q' hs' bss'. a < length xss \<and> xss ! a \<noteq> [] \<and> try_dequeue q = Inr (Some (hd (xss ! a)), q') \<and>
        queue_rep q' R hs' bss' (xss[a := tl (xss ! a)]))"
proof -
  note D = queue_repD [OF r]
  let ?ne = "\<lambda>a. a < length xss \<and> xss ! a \<noteq> []"
  obtain n best where s: "score_producers (cq_producers q) (cq_list q) 0 None 0 = (n, best)" by fastforce
  have "(0 < size_approx (cq_producers q ! a)) = ?ne a" if "a \<in> set (cq_list q)" for a
  proof -
    have a: "a < length (cq_producers q)" using that D(8) by auto
    have "unat (size_approx (cq_producers q ! a)) = length (xss ! a)" by (rule size_approx_ok [OF D(4) [OF a]])
    then show ?thesis using a D(3) by (simp add: word_less_nat_alt)
  qed
  from score_producers_ok [OF this _ _ s] have sc: "0 < n \<Longrightarrow> \<exists>a. best = Some a \<and> ?ne a"
    "n = 0 \<Longrightarrow> \<forall>a \<in> set (cq_list q). \<not> ?ne a" by auto
  show ?thesis
  proof (cases "n = 0")
    case True
    then have "\<forall>xs \<in> set xss. xs = []" using sc(2) D(3,8) by (auto simp: in_set_conv_nth)
    then show ?thesis using True s by (simp add: try_dequeue_def)
  next
    case False
    then obtain a where a: "best = Some a" "?ne a" using sc(1) by auto
    obtain q' hs' bss' where "dequeue_from a q = Inr (Some (hd (xss ! a)), q')" "queue_rep q' R hs' bss' (xss[a := tl (xss ! a)])"
      using dequeue_from_ok [OF r, of a] a(2) D(3) by auto
    then show ?thesis using False s a by (auto simp: try_dequeue_def)
  qed
qed

section \<open>Finding the producer of a thread\<close>

lemma queue_rep_mallocs:
  assumes "queue_rep q R hs bss xss"
  shows "queue_rep (q\<lparr>cq_pool := (cq_pool q)\<lparr>pl_mallocs := m\<rparr>\<rparr>) R hs bss xss"
  using assms by (simp add: queue_rep_def Let_def)

lemma queue_rep_tables:
  assumes "queue_rep q R hs bss xss" "tables_inv R tables n"
  shows "queue_rep (q\<lparr>cq_tables := tables, cq_hash_count := n\<rparr>) R hs bss xss"
  using assms by (simp add: queue_rep_def Let_def)

text \<open>A new producer is empty; whoever registers it next owns it.\<close>

lemma recycle_or_create_producer_ok:
  assumes r: "queue_rep q R hs bss xss"
  shows "\<exists>res q1. recycle_or_create_producer q = Inr (res, False, q1) \<and> cq_tables q1 = cq_tables q \<and> cq_hash_count q1 = cq_hash_count q \<and>
     (case res of None \<Rightarrow> queue_rep q1 R hs bss xss
      | Some a \<Rightarrow> a = length (cq_producers q) \<and> queue_rep q1 R (hs @ [0]) (bss @ [[]]) (xss @ [[]]))"
proof -
  note D = queue_repD [OF r]
  have "find (\<lambda>a. ip_inactive (cq_producers q ! a)) (cq_list q) = None" using D(5,8) by (auto simp: find_None_iff)
  note find = this
  show ?thesis
  proof (cases "pl_mem (cq_pool q) (pl_mallocs (cq_pool q))")
    case False
    then show ?thesis
      using find queue_rep_mallocs [OF r] by (simp add: recycle_or_create_producer_def pl_malloc_def)
  next
    case True
    let ?pl = "(cq_pool q)\<lparr>pl_mallocs := pl_mallocs (cq_pool q) + 1\<rparr>" and ?n = "length (cq_producers q)"
    obtain p where p: "ImplicitProducer ?pl = Inr (p, ?pl\<lparr>pl_mallocs := pl_mallocs ?pl + 1\<rparr>)" "producer_ok (pl_heap ?pl) p 0 [] []" "\<not> ip_inactive p"
      using ImplicitProducer_ok by blast
    define q1 where "q1 = q\<lparr>cq_pool := ?pl\<lparr>pl_mallocs := pl_mallocs ?pl + 1\<rparr>, cq_producer_count := cq_producer_count q + 1,
      cq_producers := cq_producers q @ [p], cq_list := ?n # cq_list q\<rparr>"
    have "recycle_or_create_producer q = Inr (Some ?n, False, q1)"
      using find True p(1) by (simp add: recycle_or_create_producer_def pl_malloc_def add_producer_def q1_def Let_def)
    moreover have "queue_rep q1 R (hs @ [0]) (bss @ [[]]) (xss @ [[]])"
      unfolding queue_rep_def Let_def
    proof (intro conjI allI impI)
      fix i assume "i < length (cq_producers q1)"
      then have "i < ?n \<or> i = ?n" by (auto simp: q1_def)
      then show "producer_ok (pl_heap (cq_pool q1)) (cq_producers q1 ! i) ((hs @ [0]) ! i) ((bss @ [[]]) ! i) ((xss @ [[]]) ! i)"
        "\<not> ip_inactive (cq_producers q1 ! i)"
        using D(1-3) D(4) [of i] D(5) [of i] p(2,3) by (auto simp: q1_def nth_append)
    next
      fix i j assume "i < length (cq_producers q1)" "j < length (cq_producers q1)" "i \<noteq> j"
      then show "set ((bss @ [[]]) ! i) \<inter> set ((bss @ [[]]) ! j) = {}" using D(2) D(6) [of i j] by (auto simp: q1_def nth_append)
    qed (use D in \<open>auto simp: q1_def\<close>)
    ultimately show ?thesis by (auto simp: q1_def)
  qed
qed

lemma card_threads:
  assumes "\<forall>ident \<in> D. 0 < ident \<and> ident < (2 ^ 48 :: u64)"
  shows "card D < 2 ^ 48"
proof -
  have "unat ` D \<subseteq> {0<..<2 ^ 48}"
  proof
    fix n assume "n \<in> unat ` D"
    then obtain w where "w \<in> D" "n = unat w" by auto
    then show "n \<in> {0<..<2 ^ 48}" using assms by (auto simp: word_less_nat_alt)
  qed
  moreover have "inj_on unat D" by (auto simp: inj_on_def word_unat_eq_iff)
  ultimately have "card D \<le> card {0<..<2 ^ 48 :: nat}" by (intro card_inj_on_le) auto
  then show ?thesis by simp
qed

text \<open>Capacities are powers of two.\<close>

lemma capacity_pow2:
  assumes "length T = 2 ^ k" "5 \<le> k" "k \<le> 60"
  shows "unat (table_capacity T) = 2 ^ k" and "unat (drop_bit 1 (table_capacity T)) = 2 ^ (k - 1)"
    and "unat (drop_bit 2 (table_capacity T)) = 2 ^ (k - 2)"
proof -
  have "(2 :: nat) ^ k < 2 ^ 64" using assms(3) by (intro power_strict_increasing) simp_all
  then show u: "unat (table_capacity T) = 2 ^ k" by (simp only: table_capacity_def assms(1) unat_of_nat) simp
  have "2 ^ k div 2 ^ m = (2 ^ (k - m) :: nat)" if "m \<le> k" for m using that by (simp add: power_diff)
  from this [of 1] this [of 2] assms(2)
  show "unat (drop_bit 1 (table_capacity T)) = 2 ^ (k - 1)" "unat (drop_bit 2 (table_capacity T)) = 2 ^ (k - 2)"
    by (simp_all only: unat_drop_bit u)
qed

lemma grow_tables_ok:
  assumes r: "queue_rep q R hs bss xss" and fresh: "ident \<notin> dom R" "0 < ident" "ident < 2 ^ 48"
  shows "\<exists>ok q2. grow_tables (1 + cq_hash_count q) (q\<lparr>cq_hash_count := 1 + cq_hash_count q\<rparr>) = Inr (ok, q2) \<and>
     (if ok then \<exists>T prev m. q2 = q\<lparr>cq_hash_count := 1 + cq_hash_count q, cq_pool := (cq_pool q)\<lparr>pl_mallocs := m\<rparr>, cq_tables := T # prev\<rparr> \<and>
          tables_inv R (T # prev) (cq_hash_count q) \<and> 2 * card (dom R) + 2 < length T
      else queue_rep q2 R hs bss xss)"
proof -
  let ?c = "card (dom R)"
  note ti = queue_repD(9) [OF r]
  then obtain T prev where Ts: "cq_tables q = T # prev" by (cases "cq_tables q") (auto simp: tables_inv_def)
  have fin: "finite (dom R)" and cnt: "cq_hash_count q = of_nat ?c" and c2: "2 * ?c < length T" and T: "table_inv T"
    and ids: "\<forall>ident \<in> dom R. 0 < ident \<and> ident < 2 ^ 48"
    using ti Ts by (auto simp: tables_inv_def table_of_def)
  obtain k where k: "5 \<le> k" "k \<le> 50" "length T = 2 ^ k" using T by (auto simp: table_inv_def table_shape_def)
  have "card (insert ident (dom R)) < 2 ^ 48" using ids fresh by (intro card_threads) auto
  then have c48: "?c + 1 < 2 ^ 48" using fin fresh(1) by simp
  then have new: "unat (1 + cq_hash_count q) = ?c + 1" using cnt by (simp add: unat_of_nat flip: of_nat_Suc)
  have cap: "unat (drop_bit 1 (table_capacity T)) = 2 ^ (k - 1)" using capacity_pow2(2) [OF k(3)] k by simp
  have kk: "(2 :: nat) ^ k = 2 * 2 ^ (k - 1)" using k(1) by (simp flip: power_Suc)
  show ?thesis
  proof (cases "1 + cq_hash_count q \<ge> drop_bit 1 (table_capacity T)")
    case False
    then have "?c + 1 < 2 ^ (k - 1)" using new cap by (simp add: word_le_nat_alt)
    then have "2 * ?c + 2 < length T" using k(3) kk by simp
    moreover have "tables_inv R (T # prev) (cq_hash_count q)" using ti Ts by simp
    moreover have "grow_tables (1 + cq_hash_count q) (q\<lparr>cq_hash_count := 1 + cq_hash_count q\<rparr>) = Inr (True, q\<lparr>cq_hash_count := 1 + cq_hash_count q\<rparr>)"
      using False Ts by (simp add: grow_tables_def)
    ultimately show ?thesis using Ts
      by (intro exI [of _ True] exI [of _ "q\<lparr>cq_hash_count := 1 + cq_hash_count q\<rparr>"])
        (auto intro!: exI [of _ T] exI [of _ prev] exI [of _ "pl_mallocs (cq_pool q)"])
  next
    case True
    then have ge: "2 ^ (k - 1) \<le> ?c + 1" using new cap by (simp add: word_le_nat_alt)
    then have "(2 :: nat) ^ (k - 1) < 2 ^ 48" using c48 by linarith
    then have k48: "k - 1 < 48" by (rule power_less_imp_less_exp [rotated]) simp
    have cN: "push_bit 1 (table_capacity T) = (2 ^ Suc k :: u64)" by (simp add: table_capacity_def k(3) push_bit_eq_mult)
    have "(2 :: nat) ^ Suc k < 2 ^ 64" using k(2) by (intro power_strict_increasing) simp_all
    moreover have "(2 ^ Suc k :: u64) = of_nat (2 ^ Suc k)" by simp
    ultimately have "unat (2 ^ Suc k :: u64) = 2 ^ Suc k" by (simp only: unat_of_nat) simp
    then have "unat (drop_bit 1 (2 ^ Suc k :: u64)) = 2 ^ k" by (simp only: unat_drop_bit) simp
    moreover have "?c + 1 < 2 ^ k" using c2 k kk by (cases "2 ^ (k - 1) :: nat") auto
    ultimately have "\<not> 1 + cq_hash_count q \<ge> drop_bit 1 (2 ^ Suc k :: u64)" using new by (simp add: word_le_nat_alt)
    then have g: "grow_capacity 64 (1 + cq_hash_count q) (push_bit 1 (table_capacity T)) = Inr (2 ^ Suc k)"
      unfolding cN by (simp add: numeral_eq_Suc)
    let ?q = "q\<lparr>cq_hash_count := 1 + cq_hash_count q\<rparr>" and ?m = "pl_mallocs (cq_pool q) + 1"
    show ?thesis
    proof (cases "pl_mem (cq_pool q) (pl_mallocs (cq_pool q))")
      case False
      then have "grow_tables (1 + cq_hash_count q) ?q = Inr (False, q\<lparr>cq_pool := (cq_pool q)\<lparr>pl_mallocs := ?m\<rparr>\<rparr>)"
        using True Ts g by (simp add: grow_tables_def pl_malloc_def)
      then show ?thesis using queue_rep_mallocs [OF r] by (intro exI [of _ False]) simp
    next
      case mem: True
      have "Suc k \<le> 50" "5 \<le> Suc k" "2 * ?c < 2 ^ Suc k" using k48 k(1) c2 k(3) by simp_all
      then have "tables_inv R (empty_table (2 ^ Suc k) # T # prev) (cq_hash_count q)"
        using tables_inv_grow ti Ts by metis
      moreover have "2 * ?c + 2 < length (empty_table (2 ^ Suc k))"
        using empty_table_ok(3) [OF \<open>5 \<le> Suc k\<close> \<open>Suc k \<le> 50\<close>] \<open>?c + 1 < 2 ^ k\<close> by simp
      moreover have "grow_tables (1 + cq_hash_count q) ?q =
          Inr (True, ?q\<lparr>cq_pool := (cq_pool q)\<lparr>pl_mallocs := ?m\<rparr>, cq_tables := empty_table (2 ^ Suc k) # T # prev\<rparr>)"
        using True mem Ts g by (simp add: grow_tables_def pl_malloc_def)
      ultimately show ?thesis
        by (intro exI [of _ True] exI [of _ "?q\<lparr>cq_pool := (cq_pool q)\<lparr>pl_mallocs := ?m\<rparr>, cq_tables := empty_table (2 ^ Suc k) # T # prev\<rparr>"])
          (auto intro!: exI [of _ "empty_table (2 ^ Suc k)"] exI [of _ "T # prev"] exI [of _ ?m])
    qed
  qed
qed

lemma recycle_or_create_producer_frame:
  "recycle_or_create_producer (q\<lparr>cq_hash_count := n\<rparr>) =
     map_sum id (\<lambda>(r, b, q'). (r, b, q'\<lparr>cq_hash_count := n\<rparr>)) (recycle_or_create_producer q)"
  by (auto simp: recycle_or_create_producer_def add_producer_def Let_def res_bind_def pl_malloc_def
      split: option.splits sum.splits bool.splits prod.splits)

lemma register_thread_ok:
  assumes r: "queue_rep q R hs bss xss" and fresh: "ident \<notin> dom R" "0 < ident" "ident < 2 ^ 48"
    and t: "tables_inv R (T # prev) (cq_hash_count q)" "2 * card (dom R) + 2 < length T"
  shows "\<exists>res q'. register_thread ident (1 + cq_hash_count q)
       (q\<lparr>cq_hash_count := 1 + cq_hash_count q, cq_pool := (cq_pool q)\<lparr>pl_mallocs := m\<rparr>, cq_tables := T # prev\<rparr>) = Inr (res, q') \<and>
     (case res of None \<Rightarrow> queue_rep q' R hs bss xss
      | Some a \<Rightarrow> a = length (cq_producers q) \<and> queue_rep q' (R(ident \<mapsto> a)) (hs @ [0]) (bss @ [[]]) (xss @ [[]]))"
proof -
  let ?c = "card (dom R)"
  define q0 where "q0 = q\<lparr>cq_pool := (cq_pool q)\<lparr>pl_mallocs := m\<rparr>, cq_tables := T # prev\<rparr>"
  define q1 where "q1 = q0\<lparr>cq_hash_count := 1 + cq_hash_count q\<rparr>"
  have r0: "queue_rep q0 R hs bss xss"
    using queue_rep_tables [OF queue_rep_mallocs [OF r, of m] t(1)] by (simp add: q0_def)
  have fin: "finite (dom R)" and cnt: "cq_hash_count q = of_nat ?c" and T: "table_inv T" and ids: "\<forall>ident \<in> dom R. 0 < ident \<and> ident < 2 ^ 48"
    using t(1) by (auto simp: tables_inv_def table_of_def)
  obtain k where k: "5 \<le> k" "k \<le> 50" "length T = 2 ^ k" using T by (auto simp: table_inv_def table_shape_def)
  have "card (dom R) < 2 ^ 48" by (rule card_threads [OF ids])
  then have new: "unat (1 + cq_hash_count q) = ?c + 1" using cnt by (simp add: unat_of_nat flip: of_nat_Suc)
  have room: "1 + cq_hash_count q < drop_bit 1 (table_capacity T) + drop_bit 2 (table_capacity T)"
  proof -
    have cap: "unat (drop_bit 1 (table_capacity T)) = 2 ^ (k - 1)" "unat (drop_bit 2 (table_capacity T)) = 2 ^ (k - 2)"
      using capacity_pow2(2,3) [OF k(3)] k by simp_all
    have "(2 :: nat) ^ (k - 1) \<le> 2 ^ 50" "(2 :: nat) ^ (k - 2) \<le> 2 ^ 50" using k(2) by (intro power_increasing; simp)+
    then have "unat (drop_bit 1 (table_capacity T) + drop_bit 2 (table_capacity T)) = 2 ^ (k - 1) + 2 ^ (k - 2)"
      using cap by (subst unat_plus_if_size) (auto simp: word_size)
    moreover have "?c + 1 < 2 ^ (k - 1)"
    proof -
      have "(2 :: nat) ^ k = 2 * 2 ^ (k - 1)" using k(1) by (simp flip: power_Suc)
      then show ?thesis using t(2) k(3) by simp
    qed
    ultimately show ?thesis using new by (simp add: word_less_nat_alt)
  qed
  obtain res q2 where rc: "recycle_or_create_producer q0 = Inr (res, False, q2)" "cq_tables q2 = T # prev"
    "case res of None \<Rightarrow> queue_rep q2 R hs bss xss | Some a \<Rightarrow> a = length (cq_producers q0) \<and> queue_rep q2 R (hs @ [0]) (bss @ [[]]) (xss @ [[]])"
    "cq_hash_count q2 = cq_hash_count q"
    using recycle_or_create_producer_ok [OF r0] by (auto simp: q0_def)
  have rc1: "recycle_or_create_producer q1 = Inr (res, False, q2\<lparr>cq_hash_count := 1 + cq_hash_count q\<rparr>)"
    using rc(1) by (simp add: recycle_or_create_producer_frame q1_def)
  have q1: "q\<lparr>cq_hash_count := 1 + cq_hash_count q, cq_pool := (cq_pool q)\<lparr>pl_mallocs := m\<rparr>, cq_tables := T # prev\<rparr> = q1"
    and t1: "cq_tables q1 = T # prev" by (simp_all add: q1_def q0_def)
  show ?thesis
  proof (cases res)
    case None
    have "q2\<lparr>cq_hash_count := cq_hash_count q\<rparr> = q2" by (simp flip: rc(4))
    then have "register_thread ident (1 + cq_hash_count q) q1 = Inr (None, q2)"
      using None rc1 room t1 by (simp add: register_thread_def)
    then show ?thesis unfolding q1 using None rc(3) by auto
  next
    case (Some a)
    then have a: "a = length (cq_producers q)" and r2: "queue_rep q2 R (hs @ [0]) (bss @ [[]]) (xss @ [[]])"
      using rc(3) by (auto simp: q0_def)
    obtain T' where T': "place_id (length T) T ident (Some a) (hash_thread_id ident) = Inr T'"
      "tables_inv (R(ident \<mapsto> a)) (T' # prev) (cq_hash_count q + 1)"
      using tables_inv_add [OF t(1) fresh t(2)] by blast
    have "length (cq_producers q2) = Suc a" using queue_repD(1) [OF r2] queue_repD(1) [OF r] a by simp
    moreover have ran: "ran R \<subseteq> {..<a}" using queue_repD(10) [OF r] a by simp
    moreover have "ran (R(ident \<mapsto> a)) = insert a (ran R)" using fresh(1) by (auto simp: ran_def)
    moreover have "inj_on (R(ident \<mapsto> a)) (dom (R(ident \<mapsto> a)))"
      using queue_repD(11) [OF r] ran fresh(1) by (auto simp: inj_on_def ran_def)
    ultimately have "queue_rep (q2\<lparr>cq_hash_count := 1 + cq_hash_count q, cq_tables := T' # prev\<rparr>) (R(ident \<mapsto> a)) (hs @ [0]) (bss @ [[]]) (xss @ [[]])"
      using queue_repD [OF r2] T'(2) unfolding queue_rep_def Let_def by (auto simp: add.commute)
    moreover have "register_thread ident (1 + cq_hash_count q) q1 =
        Inr (Some a, q2\<lparr>cq_hash_count := 1 + cq_hash_count q, cq_tables := T' # prev\<rparr>)"
      using rc1 Some room T'(1) t1 by (simp add: register_thread_def)
    ultimately show ?thesis unfolding q1 using a by auto
  qed
qed

text \<open>
  A thread that is known gets its producer, whatever table it was found in; an unknown one gets a new producer
  of its own or, without memory, none.
\<close>

lemma get_or_add_implicit_producer_ok:
  assumes r: "queue_rep q R hs bss xss" and v: "0 < ident" "ident < 2 ^ 48"
  shows "\<exists>res q' R' hs' bss' xss'. get_or_add_implicit_producer ident q = Inr (res, q') \<and> queue_rep q' R' hs' bss' xss' \<and>
     (case R ident of
        Some a \<Rightarrow> res = Some a \<and> R' = R \<and> xss' = xss
      | None \<Rightarrow> (res = None \<and> R' = R \<and> xss' = xss) \<or> (res = Some (length xss) \<and> R' = R(ident \<mapsto> length xss) \<and> xss' = xss @ [[]]))"
proof -
  have nz: "ident \<noteq> 0" using v(1) by auto
  obtain Ts' where f: "find_producer (cq_tables q) ident = Inr (if ident \<in> dom R then Some (R ident) else None, Ts')"
    "tables_inv R Ts' (cq_hash_count q)" "ident \<notin> dom R \<longrightarrow> Ts' = cq_tables q"
    using find_producer_ok [OF queue_repD(9) [OF r] nz] by blast
  show ?thesis
  proof (cases "R ident")
    case (Some a)
    then have "get_or_add_implicit_producer ident q = Inr (Some a, q\<lparr>cq_tables := Ts'\<rparr>)"
      using f(1) by (auto simp: get_or_add_implicit_producer_def)
    moreover have "queue_rep (q\<lparr>cq_tables := Ts'\<rparr>) R hs bss xss" using queue_rep_tables [OF r f(2)] by simp
    ultimately show ?thesis using Some by auto
  next
    case None
    then have fresh: "ident \<notin> dom R" by auto
    with f have step: "get_or_add_implicit_producer ident q =
        res_bind (grow_tables (1 + cq_hash_count q) (q\<lparr>cq_hash_count := 1 + cq_hash_count q\<rparr>)) (\<lambda>(ok, q2).
          if \<not> ok then Inr (None, q2) else register_thread ident (1 + cq_hash_count q) q2)"
      by (simp add: get_or_add_implicit_producer_def Let_def)
    obtain ok q2 where g: "grow_tables (1 + cq_hash_count q) (q\<lparr>cq_hash_count := 1 + cq_hash_count q\<rparr>) = Inr (ok, q2)"
      "if ok then \<exists>T prev m. q2 = q\<lparr>cq_hash_count := 1 + cq_hash_count q, cq_pool := (cq_pool q)\<lparr>pl_mallocs := m\<rparr>, cq_tables := T # prev\<rparr> \<and>
          tables_inv R (T # prev) (cq_hash_count q) \<and> 2 * card (dom R) + 2 < length T
       else queue_rep q2 R hs bss xss"
      using grow_tables_ok [OF r fresh v] by (elim exE conjE) (rule that)
    show ?thesis
    proof (cases ok)
      case False
      then have "get_or_add_implicit_producer ident q = Inr (None, q2)" using step g(1) by simp
      then show ?thesis using False g(2) None by auto
    next
      case True
      then obtain T prev m where q2: "q2 = q\<lparr>cq_hash_count := 1 + cq_hash_count q, cq_pool := (cq_pool q)\<lparr>pl_mallocs := m\<rparr>, cq_tables := T # prev\<rparr>"
        and T: "tables_inv R (T # prev) (cq_hash_count q)" "2 * card (dom R) + 2 < length T" using g(2) by auto
      obtain res q' where rg: "register_thread ident (1 + cq_hash_count q) q2 = Inr (res, q')"
        "case res of None \<Rightarrow> queue_rep q' R hs bss xss
          | Some a \<Rightarrow> a = length (cq_producers q) \<and> queue_rep q' (R(ident \<mapsto> a)) (hs @ [0]) (bss @ [[]]) (xss @ [[]])"
        using register_thread_ok [OF r fresh v T, of m] unfolding q2 by blast
      have "get_or_add_implicit_producer ident q = Inr (res, q')" using step g(1) True rg(1) by simp
      then show ?thesis using rg(2) None queue_repD(3) [OF r] by (cases res) auto
    qed
  qed
qed

section \<open>Enqueueing\<close>

text \<open>An accepted element is the last of its thread's producer; a refused one changes nothing.\<close>

lemma inner_enqueue_ok:
  assumes r: "queue_rep q R hs bss xss" and v: "0 < ident" "ident < 2 ^ 48"
  shows "\<exists>b q' R' hs' bss' xss' xss1. inner_enqueue can_alloc ident x q = Inr (b, q') \<and> queue_rep q' R' hs' bss' xss' \<and>
     (xss1 = xss \<and> R' = R \<or> R ident = None \<and> xss1 = xss @ [[]] \<and> R' = R(ident \<mapsto> length xss)) \<and>
     (if b then \<exists>a < length xss1. R' ident = Some a \<and> xss' = xss1[a := xss1 ! a @ [x]] else xss' = xss1)"
proof -
  obtain res q1 R1 hs1 bss1 xss1 where g: "get_or_add_implicit_producer ident q = Inr (res, q1)" "queue_rep q1 R1 hs1 bss1 xss1"
    "case R ident of
        Some a \<Rightarrow> res = Some a \<and> R1 = R \<and> xss1 = xss
      | None \<Rightarrow> (res = None \<and> R1 = R \<and> xss1 = xss) \<or> (res = Some (length xss) \<and> R1 = R(ident \<mapsto> length xss) \<and> xss1 = xss @ [[]])"
    using get_or_add_implicit_producer_ok [OF r v] by (elim exE conjE) (rule that)
  have R1: "xss1 = xss \<and> R1 = R \<or> R ident = None \<and> xss1 = xss @ [[]] \<and> R1 = R(ident \<mapsto> length xss)" and own: "\<And>a. res = Some a \<Longrightarrow> R1 ident = Some a"
    using g(3) by (auto split: option.splits)
  show ?thesis
  proof (cases res)
    case None
    then have "inner_enqueue can_alloc ident x q = Inr (False, q1)" using g(1) by (simp add: inner_enqueue_def)
    then show ?thesis using g(2) R1 by (intro exI [of _ False]) auto
  next
    case (Some a)
    note D = queue_repD [OF g(2)]
    have a: "a < length (cq_producers q1)" using own [OF Some] D(10) by (auto simp: ran_def)
    obtain fl where fl: "pool_ok (cq_pool q1) (\<Union> (set ` set bss1)) fl" using D(7) by blast
    obtain b p' pl' bs' where e: "implicit_enqueue can_alloc x (cq_producers q1 ! a) (cq_pool q1) = Inr (b, p', pl')"
      "producer_ok (pl_heap pl') p' (hs1 ! a) bs' (if b then xss1 ! a @ [x] else xss1 ! a)"
      "ip_inactive p' = ip_inactive (cq_producers q1 ! a)" "pool_step (cq_pool q1) (\<Union> (set ` set bss1)) (bss1 ! a) pl' bs'"
      using implicit_enqueue_ok [OF D(4) [OF a] fl, of can_alloc x] pool_sub [of a bss1] a D(2) by auto
    define q' where "q' = q1\<lparr>cq_producers := (cq_producers q1)[a := p'], cq_pool := pl'\<rparr>"
    have "queue_rep q' R1 (hs1[a := hs1 ! a]) (bss1[a := bs']) (xss1[a := if b then xss1 ! a @ [x] else xss1 ! a])"
      unfolding q'_def using queue_rep_step [OF g(2) a e(2) _ e(4)] e(3) D(5) [OF a] by simp
    moreover have "inner_enqueue can_alloc ident x q = Inr (b, q')"
      using g(1) Some e(1) a by (simp add: inner_enqueue_def vec_at_def q'_def)
    ultimately show ?thesis
      using R1 own [OF Some] a D(3) by (intro exI [of _ b] exI [of _ q'] exI [of _ R1]) (cases b; fastforce)
  qed
qed

section \<open>The queue is a bag\<close>

lemma enqueue_bag:
  assumes "queue_ok q" "0 < ident" "ident < 2 ^ 48"
  shows "\<exists>b q'. enqueue ident x q = Inr (b, q') \<and> queue_ok q' \<and> queue_items q' = (if b then add_mset x (queue_items q) else queue_items q)"
proof -
  obtain R hs bss xss where r: "queue_rep q R hs bss xss" using assms(1) by (auto simp: queue_ok_def)
  obtain b q' R' hs' bss' xss' xss1 where e: "inner_enqueue True ident x q = Inr (b, q')" "queue_rep q' R' hs' bss' xss'"
    "xss1 = xss \<and> R' = R \<or> R ident = None \<and> xss1 = xss @ [[]] \<and> R' = R(ident \<mapsto> length xss)"
    "if b then \<exists>a < length xss1. R' ident = Some a \<and> xss' = xss1[a := xss1 ! a @ [x]] else xss' = xss1"
    using inner_enqueue_ok [OF r assms(2,3), of True x] by (elim exE conjE) (rule that)
  have "mset (concat xss1) = mset (concat xss)" using e(3) by auto
  moreover have "mset (concat xss') = (if b then add_mset x (mset (concat xss1)) else mset (concat xss1))"
  proof (cases b)
    case True
    then obtain a where a: "a < length xss1" "xss' = xss1[a := xss1 ! a @ [x]]" using e(4) by auto
    show ?thesis using mset_concat_update [OF a(1), of "xss1 ! a @ [x]"] True a(2) by simp
  qed (use e(4) in simp)
  moreover have "enqueue ident x q = Inr (b, q')" using e(1) by (simp add: enqueue_def INITIAL_IMPLICIT_PRODUCER_HASH_SIZE_def)
  moreover have "queue_ok q'" using e(2) unfolding queue_ok_def by blast
  ultimately show ?thesis
    using queue_items_rep [OF r] queue_items_rep [OF e(2)] by simp
qed

lemma try_dequeue_bag:
  assumes "queue_ok q"
  shows "\<exists>r q'. try_dequeue q = Inr (r, q') \<and> queue_ok q' \<and>
     (case r of None \<Rightarrow> queue_items q = {#} \<and> queue_items q' = {#} | Some x \<Rightarrow> queue_items q = add_mset x (queue_items q'))"
proof -
  obtain R hs bss xss where r: "queue_rep q R hs bss xss" using assms(1) by (auto simp: queue_ok_def)
  from try_dequeue_ok [OF r] show ?thesis
  proof
    assume "concat xss = [] \<and> try_dequeue q = Inr (None, q)"
    then show ?thesis using queue_items_rep [OF r] assms by auto
  next
    assume "\<exists>a q' hs' bss'. a < length xss \<and> xss ! a \<noteq> [] \<and> try_dequeue q = Inr (Some (hd (xss ! a)), q') \<and>
        queue_rep q' R hs' bss' (xss[a := tl (xss ! a)])"
    then obtain a q' hs' bss' where a: "a < length xss" "xss ! a \<noteq> []" "try_dequeue q = Inr (Some (hd (xss ! a)), q')"
      "queue_rep q' R hs' bss' (xss[a := tl (xss ! a)])" by blast
    have "mset (xss ! a) = add_mset (hd (xss ! a)) (mset (tl (xss ! a)))" using a(2) by (metis list.collapse mset.simps(2))
    with mset_concat_update [OF a(1), of "tl (xss ! a)"] have "mset (concat xss) = add_mset (hd (xss ! a)) (mset (concat (xss[a := tl (xss ! a)])))"
      by simp
    then show ?thesis using a(3,4) queue_items_rep [OF r] queue_items_rep [OF a(4)] by (auto simp: queue_ok_def)
  qed
qed

text \<open>\<open>try_dequeue_non_interleaved\<close> takes from the first producer that has an element.\<close>

lemma dequeue_from_empty:
  assumes r: "queue_rep q R hs bss xss" and a: "a < length (cq_producers q)" and e: "xss ! a = []"
  shows "dequeue_from a q = Inr (None, q)"
proof -
  have "implicit_dequeue (cq_producers q ! a) (cq_pool q) = Inr (None, cq_producers q ! a, cq_pool q)"
    using implicit_dequeue_empty queue_repD(4) [OF r a] e by metis
  then show ?thesis using a by (simp add: dequeue_from_def vec_at_def)
qed

lemma dequeue_any_ok:
  assumes r: "queue_rep q R hs bss xss" and "set ptr \<subseteq> {..<length (cq_producers q)}"
  shows "((\<forall>a \<in> set ptr. xss ! a = []) \<and> dequeue_any None ptr q = Inr (None, q)) \<or>
     (\<exists>a q' hs' bss'. a < length xss \<and> xss ! a \<noteq> [] \<and> dequeue_any None ptr q = Inr (Some (hd (xss ! a)), q') \<and>
        queue_rep q' R hs' bss' (xss[a := tl (xss ! a)]))"
  using assms(2)
proof (induction ptr)
  case (Cons a ptr)
  then have a: "a < length (cq_producers q)" "a < length xss" using queue_repD(3) [OF r] by auto
  show ?case
  proof (cases "xss ! a = []")
    case True
    then show ?thesis using Cons dequeue_from_empty [OF r a(1)] by simp
  next
    case False
    obtain q' hs' bss' where q': "dequeue_from a q = Inr (Some (hd (xss ! a)), q')" "queue_rep q' R hs' bss' (xss[a := tl (xss ! a)])"
      using dequeue_from_ok [OF r a(1) False] by blast
    then have "dequeue_any None (a # ptr) q = Inr (Some (hd (xss ! a)), q')" by simp
    then show ?thesis using a(2) False q'(2) by blast
  qed
qed simp

lemma try_dequeue_non_interleaved_ok:
  assumes r: "queue_rep q R hs bss xss"
  shows "(concat xss = [] \<and> try_dequeue_non_interleaved q = Inr (None, q)) \<or>
     (\<exists>a q' hs' bss'. a < length xss \<and> xss ! a \<noteq> [] \<and> try_dequeue_non_interleaved q = Inr (Some (hd (xss ! a)), q') \<and>
        queue_rep q' R hs' bss' (xss[a := tl (xss ! a)]))"
proof -
  note D = queue_repD [OF r]
  have "concat xss = []" if "\<forall>a \<in> set (cq_list q). xss ! a = []" using that D(3,8) by (auto simp: in_set_conv_nth)
  then show ?thesis using dequeue_any_ok [OF r, of "cq_list q"] D(8) unfolding try_dequeue_non_interleaved_def by blast
qed

text \<open>\<open>size_approx\<close> is exact when nobody else is at work.\<close>

lemma sum_sizes_ok:
  assumes r: "queue_rep q R hs bss xss" and "set ptr \<subseteq> {..<length (cq_producers q)}"
  shows "sum_sizes (cq_producers q) ptr n = n + of_nat (sum_list (map (\<lambda>a. length (xss ! a)) ptr))"
  using assms(2)
proof (induction ptr arbitrary: n)
  case (Cons a ptr)
  then have "a < length (cq_producers q)" by simp
  then have "unat (size_approx (cq_producers q ! a)) = length (xss ! a)"
    using size_approx_ok [OF queue_repD(4) [OF r]] by blast
  then have "size_approx (cq_producers q ! a) = of_nat (length (xss ! a))" by (metis of_nat_unat ucast_id)
  then show ?case using Cons by (simp add: algebra_simps)
qed simp

lemma queue_size_approx_ok:
  assumes r: "queue_rep q R hs bss xss"
  shows "queue_size_approx q = of_nat (length (concat xss))"
proof -
  note D = queue_repD [OF r]
  have "sum_list (map (\<lambda>a. length (xss ! a)) (cq_list q)) = (\<Sum>a<length xss. length (xss ! a))"
    using D(3,8,12) by (simp add: sum_list_distinct_conv_sum_set)
  also have "\<dots> = length (concat xss)" by (simp add: length_concat sum_list_sum_nth atLeast0LessThan)
  finally show ?thesis using sum_sizes_ok [OF r, of "cq_list q" 0] D(8) by (simp add: queue_size_approx_def)
qed

section \<open>A new queue\<close>

lemma empty_pool_ok: "pool_ok (populate_initial_block_list n (empty_pool mem)) {} []"
  by (cases "mem 0")
    (auto simp: pool_ok_def populate_initial_block_list_def empty_pool_def pl_malloc_def new_block_def BLOCK_SIZE_def)

lemma queue_with_blocks_ok: "queue_rep (queue_with_blocks mem n) Map.empty [] [] []"
proof -
  have "tables_inv Map.empty [empty_table (2 ^ 5)] 0"
    using empty_table_ok [of 5] by (simp add: tables_inv_def)
  then show ?thesis
    using empty_pool_ok [of n mem]
    by (auto simp: queue_rep_def queue_with_blocks_def populate_initial_implicit_producer_hash_def INITIAL_IMPLICIT_PRODUCER_HASH_SIZE_def)
qed

text \<open>The operations as the clients see them; \<open>sched\<close> says which thread calls.\<close>

definition mc_ops :: "('a cqueue \<Rightarrow> u64) \<Rightarrow> ('a cqueue, 'a) cq_ops" where
  "mc_ops sched = \<lparr>cq_enqueue = (\<lambda>x q. enqueue (sched q) x q), cq_try_dequeue = try_dequeue\<rparr>"

locale thread_schedule =
  fixes sched :: "'a cqueue \<Rightarrow> u64"
  assumes valid: "0 < sched q" "sched q < 2 ^ 48"

sublocale thread_schedule \<subseteq> concurrent_bag "mc_ops sched" queue_ok queue_items
proof unfold_locales
  show "\<exists>b q'. cq_enqueue (mc_ops sched) x q = Inr (b, q') \<and> queue_ok q' \<and> queue_items q' = (if b then add_mset x (queue_items q) else queue_items q)"
    if "queue_ok q" for x q
    using enqueue_bag [OF that valid] by (simp add: mc_ops_def)
  show "\<exists>r q'. cq_try_dequeue (mc_ops sched) q = Inr (r, q') \<and> queue_ok q' \<and>
     (case r of None \<Rightarrow> queue_items q = {#} \<and> queue_items q' = {#} | Some x \<Rightarrow> queue_items q = add_mset x (queue_items q'))"
    if "queue_ok q" for q
    using try_dequeue_bag [OF that] by (simp add: mc_ops_def)
qed

context thread_schedule
begin

lemma queue_bag: "concurrent_bag (mc_ops sched) queue_ok queue_items"
  by unfold_locales

end

interpretation one_thread: thread_schedule "\<lambda>_. 0x7f0000001000"
  by unfold_locales (simp_all add: word_less_nat_alt)

end
