(* ===== verification/CqTrace.thy ===== *)
theory CqTrace
  imports CqQueue
begin

text \<open>
  \<^verbatim>\<open>lib/concurrentqueue.h\<close>, part six: whole histories.  A series of calls on a queue refines the abstract queue
  that keeps one first-in first-out list for every thread; what holds of all its traces holds of the code.
\<close>

section \<open>Calls\<close>

datatype 'a call = Enqueue u64 'a | TryEnqueue u64 'a | TryDequeue | TryDequeueNonInterleaved | SizeApprox

datatype 'a outcome = Accepted bool | Taken "'a option" | SizeIs u64

definition valid_thread :: "u64 \<Rightarrow> bool" where
  "valid_thread ident \<longleftrightarrow> 0 < ident \<and> ident < 2 ^ 48"

fun valid_call :: "'a call \<Rightarrow> bool" where
  "valid_call (Enqueue ident x) = valid_thread ident"
| "valid_call (TryEnqueue ident x) = valid_thread ident"
| "valid_call _ = True"

fun do_call :: "'a call \<Rightarrow> 'a cqueue \<Rightarrow> ('a outcome \<times> 'a cqueue) res" where
  "do_call (Enqueue ident x) q = res_bind (enqueue ident x q) (\<lambda>(b, q'). Inr (Accepted b, q'))"
| "do_call (TryEnqueue ident x) q = res_bind (try_enqueue ident x q) (\<lambda>(b, q'). Inr (Accepted b, q'))"
| "do_call TryDequeue q = res_bind (try_dequeue q) (\<lambda>(r, q'). Inr (Taken r, q'))"
| "do_call TryDequeueNonInterleaved q = res_bind (try_dequeue_non_interleaved q) (\<lambda>(r, q'). Inr (Taken r, q'))"
| "do_call SizeApprox q = Inr (SizeIs (queue_size_approx q), q)"

fun run_calls :: "'a call list \<Rightarrow> 'a cqueue \<Rightarrow> ('a outcome list \<times> 'a cqueue) res" where
  "run_calls [] q = Inr ([], q)"
| "run_calls (c # cs) q =
     res_bind (do_call c q) (\<lambda>(out, q1). res_bind (run_calls cs q1) (\<lambda>(outs, q2). Inr (out # outs, q2)))"

section \<open>The abstract queue\<close>

type_synonym 'a fifos = "u64 \<Rightarrow> 'a list"

fun call_of :: "'a call \<Rightarrow> (u64 \<times> 'a) option" where
  "call_of (Enqueue ident x) = Some (ident, x)"
| "call_of (TryEnqueue ident x) = Some (ident, x)"
| "call_of _ = None"

inductive fifo_step :: "'a fifos \<Rightarrow> 'a call \<Rightarrow> 'a outcome \<Rightarrow> 'a fifos \<Rightarrow> bool" where
  accept: "call_of c = Some (ident, x) \<Longrightarrow> fifo_step s c (Accepted True) (s(ident := s ident @ [x]))"
| refuse: "call_of c = Some (ident, x) \<Longrightarrow> fifo_step s c (Accepted False) s"
| take: "c \<in> {TryDequeue, TryDequeueNonInterleaved} \<Longrightarrow> s ident = x # xs \<Longrightarrow> fifo_step s c (Taken (Some x)) (s(ident := xs))"
| empty: "c \<in> {TryDequeue, TryDequeueNonInterleaved} \<Longrightarrow> s = (\<lambda>_. []) \<Longrightarrow> fifo_step s c (Taken None) s"
| size_is: "fifo_step s SizeApprox (SizeIs (of_nat (\<Sum>ident \<in> UNIV. length (s ident)))) s"

inductive fifo_trace :: "'a fifos \<Rightarrow> 'a call list \<Rightarrow> 'a outcome list \<Rightarrow> 'a fifos \<Rightarrow> bool" where
  finished: "fifo_trace s [] [] s"
| step: "fifo_step s c out s1 \<Longrightarrow> fifo_trace s1 cs outs s2 \<Longrightarrow> fifo_trace s (c # cs) (out # outs) s2"

inductive_cases fifo_trace_ConsE: "fifo_trace s (c # cs) outs s2"
inductive_simps fifo_trace_Nil [simp]: "fifo_trace s [] outs s2"

section \<open>The simulation\<close>

definition view_of :: "(u64 \<rightharpoonup> nat) \<Rightarrow> 'a list list \<Rightarrow> 'a fifos" where
  "view_of R xss ident = (case R ident of None \<Rightarrow> [] | Some a \<Rightarrow> xss ! a)"

definition fifo_rep :: "'a cqueue \<Rightarrow> 'a fifos \<Rightarrow> bool" where
  "fifo_rep q s \<longleftrightarrow> (\<exists>R hs bss xss. queue_rep q R hs bss xss \<and> {..<length xss} \<subseteq> ran R \<and> s = view_of R xss)"

lemma view_of_update:
  assumes "inj_on R (dom R)" "R ident = Some a" "a < length xss"
  shows "view_of R (xss[a := ys]) = (view_of R xss)(ident := ys)"
proof
  fix t
  have "R t = Some a \<longleftrightarrow> t = ident" using assms(1,2) by (metis domI inj_onD)
  then show "view_of R (xss[a := ys]) t = ((view_of R xss)(ident := ys)) t"
    using assms(2,3) by (auto simp: view_of_def nth_list_update split: option.splits)
qed

lemma view_of_new:
  assumes "R ident = None" "ran R \<subseteq> {..<length xss}"
  shows "view_of (R(ident \<mapsto> length xss)) (xss @ [[]]) = view_of R xss"
  using assms by (auto simp: view_of_def nth_append ran_def fun_eq_iff split: option.splits)

lemma inner_enqueue_fifo:
  assumes "fifo_rep q s" "valid_thread ident"
  shows "\<exists>b q'. inner_enqueue can_alloc ident x q = Inr (b, q') \<and> fifo_rep q' (if b then s(ident := s ident @ [x]) else s)"
proof -
  obtain R hs bss xss where r: "queue_rep q R hs bss xss" and own: "{..<length xss} \<subseteq> ran R" and s: "s = view_of R xss"
    using assms(1) by (auto simp: fifo_rep_def)
  have v: "0 < ident" "ident < 2 ^ 48" using assms(2) by (simp_all add: valid_thread_def)
  obtain b q' R' hs' bss' xss' xss1 where e: "inner_enqueue can_alloc ident x q = Inr (b, q')" "queue_rep q' R' hs' bss' xss'"
    "xss1 = xss \<and> R' = R \<or> R ident = None \<and> xss1 = xss @ [[]] \<and> R' = R(ident \<mapsto> length xss)"
    "if b then \<exists>a < length xss1. R' ident = Some a \<and> xss' = xss1[a := xss1 ! a @ [x]] else xss' = xss1"
    using inner_enqueue_ok [OF r v, of can_alloc x] by (elim exE conjE) (rule that)
  have "ran R \<subseteq> {..<length xss}" using queue_repD(3,10) [OF r] by simp
  then have s1: "view_of R' xss1 = s" using e(3) view_of_new [of R ident xss] s by auto
  have "{..<length xss1} \<subseteq> ran R'" using e(3)
  proof
    assume "R ident = None \<and> xss1 = xss @ [[]] \<and> R' = R(ident \<mapsto> length xss)"
    then have "ran R' = insert (length xss) (ran R)" "length xss1 = Suc (length xss)" by auto
    then show ?thesis using own by (auto simp: less_Suc_eq)
  qed (use own in simp)
  moreover have "length xss' = length xss1" using e(4) by (auto split: if_splits)
  ultimately have own': "{..<length xss'} \<subseteq> ran R'" by simp
  have "view_of R' xss' = (if b then s(ident := s ident @ [x]) else s)"
  proof (cases b)
    case True
    then obtain a where a: "a < length xss1" "R' ident = Some a" "xss' = xss1[a := xss1 ! a @ [x]]" using e(4) by auto
    have "s ident = xss1 ! a" using a(2) by (simp add: view_of_def flip: s1)
    then show ?thesis using view_of_update [OF queue_repD(11) [OF e(2)] a(2,1)] s1 a(3) True by simp
  qed (use e(4) s1 in simp)
  then show ?thesis using e(1,2) own' unfolding fifo_rep_def by metis
qed

lemma dequeue_fifo:
  assumes r: "queue_rep q R hs bss xss" and own: "{..<length xss} \<subseteq> ran R" and c: "c \<in> {TryDequeue, TryDequeueNonInterleaved}"
    and ok: "(concat xss = [] \<and> res = Inr (None, q)) \<or>
     (\<exists>a q' hs' bss'. a < length xss \<and> xss ! a \<noteq> [] \<and> res = Inr (Some (hd (xss ! a)), q') \<and> queue_rep q' R hs' bss' (xss[a := tl (xss ! a)]))"
  shows "\<exists>r q' s'. res = Inr (r, q') \<and> fifo_rep q' s' \<and> fifo_step (view_of R xss) c (Taken r) s'"
  using ok
proof
  assume e: "concat xss = [] \<and> res = Inr (None, q)"
  have "ran R \<subseteq> {..<length xss}" using queue_repD(3,10) [OF r] by simp
  then have "view_of R xss = (\<lambda>_. [])" using e by (force simp: view_of_def fun_eq_iff ran_def split: option.splits)
  then have "fifo_step (view_of R xss) c (Taken None) (view_of R xss)" using c by (intro fifo_step.empty)
  then show ?thesis using e r own unfolding fifo_rep_def by blast
next
  assume "\<exists>a q' hs' bss'. a < length xss \<and> xss ! a \<noteq> [] \<and> res = Inr (Some (hd (xss ! a)), q') \<and> queue_rep q' R hs' bss' (xss[a := tl (xss ! a)])"
  then obtain a q' hs' bss' where a: "a < length xss" "xss ! a \<noteq> []" "res = Inr (Some (hd (xss ! a)), q')"
    "queue_rep q' R hs' bss' (xss[a := tl (xss ! a)])" by blast
  obtain ident where t: "R ident = Some a" using own a(1) by (auto simp: ran_def)
  have "view_of R xss ident = hd (xss ! a) # tl (xss ! a)" using t a(2) by (simp add: view_of_def)
  from fifo_step.take [where s = "view_of R xss", OF c this] have "fifo_step (view_of R xss) c (Taken (Some (hd (xss ! a)))) (view_of R (xss[a := tl (xss ! a)]))"
    by (simp only: view_of_update [OF queue_repD(11) [OF r] t a(1)])
  moreover have "fifo_rep q' (view_of R (xss[a := tl (xss ! a)]))" using a(4) own unfolding fifo_rep_def by (metis length_list_update)
  ultimately show ?thesis using a(3) by blast
qed

lemma size_fifo:
  assumes r: "queue_rep q R hs bss xss" and own: "{..<length xss} \<subseteq> ran R"
  shows "queue_size_approx q = of_nat (\<Sum>ident \<in> UNIV. length (view_of R xss ident))"
proof -
  note D = queue_repD [OF r]
  have ran: "ran R = {..<length xss}" using own D(3,10) by auto
  have "(\<Sum>ident \<in> UNIV. length (view_of R xss ident)) = (\<Sum>ident \<in> dom R. length (view_of R xss ident))"
    by (rule sum.mono_neutral_right) (auto simp: view_of_def split: option.splits)
  also have "\<dots> = (\<Sum>ident \<in> dom R. length (xss ! the (R ident)))"
    by (rule sum.cong) (auto simp: view_of_def)
  also have "\<dots> = (\<Sum>a \<in> (\<lambda>ident. the (R ident)) ` dom R. length (xss ! a))"
  proof (subst sum.reindex)
    show "inj_on (\<lambda>ident. the (R ident)) (dom R)" by (rule inj_onI) (metis D(11) domIff inj_onD option.expand)
  qed simp
  also have "(\<lambda>ident. the (R ident)) ` dom R = ran R" by (force simp: ran_def image_def)
  also have "\<dots> = {..<length xss}" by (rule ran)
  also have "(\<Sum>a<length xss. length (xss ! a)) = length (concat xss)" by (simp add: length_concat sum_list_sum_nth atLeast0LessThan)
  finally show ?thesis using queue_size_approx_ok [OF r] by simp
qed

lemma do_call_refines:
  assumes "fifo_rep q s" "valid_call c"
  shows "\<exists>out q' s'. do_call c q = Inr (out, q') \<and> fifo_rep q' s' \<and> fifo_step s c out s'"
proof -
  obtain R hs bss xss where r: "queue_rep q R hs bss xss" and own: "{..<length xss} \<subseteq> ran R" and s: "s = view_of R xss"
    using assms(1) by (auto simp: fifo_rep_def)
  have enq: "\<exists>out q' s'. res_bind (inner_enqueue can_alloc ident x q) (\<lambda>(b, q'). Inr (Accepted b, q')) = Inr (out, q') \<and> fifo_rep q' s' \<and> fifo_step s c out s'"
    if c: "call_of c = Some (ident, x)" and v: "valid_thread ident" for can_alloc ident x
  proof -
    obtain b q' where b: "inner_enqueue can_alloc ident x q = Inr (b, q')" "fifo_rep q' (if b then s(ident := s ident @ [x]) else s)"
      using inner_enqueue_fifo [OF assms(1) v] by blast
    have "fifo_step s c (Accepted b) (if b then s(ident := s ident @ [x]) else s)"
      using fifo_step.accept [OF c, of s] fifo_step.refuse [OF c, of s] by simp
    then show ?thesis using b by auto
  qed
  show ?thesis
  proof (cases c)
    case (Enqueue ident x)
    then show ?thesis using enq [of ident x True] assms(2) by (simp add: enqueue_def INITIAL_IMPLICIT_PRODUCER_HASH_SIZE_def)
  next
    case (TryEnqueue ident x)
    then show ?thesis using enq [of ident x False] assms(2) by (simp add: try_enqueue_def INITIAL_IMPLICIT_PRODUCER_HASH_SIZE_def)
  next
    case TryDequeue
    then show ?thesis using dequeue_fifo [OF r own, of c, OF _ try_dequeue_ok [OF r]] s by auto
  next
    case TryDequeueNonInterleaved
    then show ?thesis using dequeue_fifo [OF r own, of c, OF _ try_dequeue_non_interleaved_ok [OF r]] s by auto
  next
    case SizeApprox
    then show ?thesis using assms(1) fifo_step.size_is [of s] size_fifo [OF r own] s by auto
  qed
qed

lemma run_calls_refine:
  assumes "fifo_rep q s" "list_all valid_call cs"
  shows "\<exists>outs q' s'. run_calls cs q = Inr (outs, q') \<and> fifo_rep q' s' \<and> fifo_trace s cs outs s'"
  using assms
proof (induction cs arbitrary: q s)
  case Nil
  then show ?case by auto
next
  case (Cons c cs)
  obtain out q1 s1 where 1: "do_call c q = Inr (out, q1)" "fifo_rep q1 s1" "fifo_step s c out s1"
    using do_call_refines [OF Cons.prems(1), of c] Cons.prems(2) by auto
  obtain outs q2 s2 where "run_calls cs q1 = Inr (outs, q2)" "fifo_rep q2 s2" "fifo_trace s1 cs outs s2"
    using Cons.IH [OF 1(2)] Cons.prems(2) by auto
  with 1 show ?case by (auto intro: fifo_trace.step)
qed

lemma new_queue_fifo: "fifo_rep (queue_with_blocks mem n) (\<lambda>_. [])"
  unfolding fifo_rep_def using queue_with_blocks_ok [of mem n]
  by (intro exI [of _ Map.empty] exI [of _ "[]"]) (auto simp: view_of_def)

section \<open>What a history shows\<close>

fun accepted_by :: "u64 \<Rightarrow> 'a call list \<Rightarrow> 'a outcome list \<Rightarrow> 'a list" where
  "accepted_by ident (c # cs) (out # outs) =
     (case call_of c of
        Some (t, x) \<Rightarrow> if t = ident \<and> out = Accepted True then x # accepted_by ident cs outs else accepted_by ident cs outs
      | None \<Rightarrow> accepted_by ident cs outs)"
| "accepted_by ident _ _ = []"

fun taken :: "'a outcome list \<Rightarrow> 'a list" where
  "taken [] = []"
| "taken (Taken (Some x) # outs) = x # taken outs"
| "taken (_ # outs) = taken outs"

text \<open>Elements that carry the thread that enqueued them.\<close>

definition tagged :: "(u64 \<times> 'a) call \<Rightarrow> bool" where
  "tagged c \<longleftrightarrow> (case call_of c of Some (ident, x) \<Rightarrow> fst x = ident | None \<Rightarrow> True)"

lemma call_of_dequeue [simp]: "c \<in> {TryDequeue, TryDequeueNonInterleaved} \<Longrightarrow> call_of c = None"
  by auto

lemma fifo_trace_order:
  assumes "fifo_trace s cs outs s'" "list_all tagged cs" "\<And>t x. x \<in> set (s t) \<Longrightarrow> fst x = t"
  shows "s ident @ accepted_by ident cs outs = filter (\<lambda>x. fst x = ident) (taken outs) @ s' ident"
  using assms
proof (induction rule: fifo_trace.induct)
  case (step s c out s1 cs outs s2)
  have tags: "fst x = t" if "x \<in> set (s1 t)" for t x
  proof -
    have "x \<in> set (s t) \<or> fst x = t"
      using step.hyps(1) step.prems(1) that by cases (auto simp: tagged_def split: if_splits)
    then show ?thesis using step.prems(2) by blast
  qed
  have IH: "s1 ident @ accepted_by ident cs outs = filter (\<lambda>x. fst x = ident) (taken outs) @ s2 ident"
    using step.IH tags step.prems(1) by simp
  show ?case using step.hyps(1)
  proof cases
    case (take t x xs)
    then have "fst x = t" using step.prems(2) [of x t] by simp
    then show ?thesis using take IH by (auto split: if_splits)
  qed (use IH in \<open>auto split: if_splits\<close>)
qed simp

section \<open>Enqueueing succeeds while there is memory\<close>

definition plentiful :: "'a cqueue \<Rightarrow> bool" where
  "plentiful q \<longleftrightarrow> (\<forall>n. pl_mem (cq_pool q) n) \<and> (\<forall>p \<in> set (cq_producers q). ip_block_index p \<noteq> None)"

lemma pl_mem_simps [simp]:
  "pl_mem (pl_update a f pl) = pl_mem pl" "pl_mem (add_block_to_free_list a pl) = pl_mem pl"
  by (simp_all add: pl_update_def add_block_to_free_list_def free_list_add_def add_knowing_refcount_is_zero_def Let_def)

lemma requisition_block_mem:
  assumes "requisition_block can_alloc pl = Inr (r, pl')"
  shows "pl_mem pl' = pl_mem pl \<and> (can_alloc \<longrightarrow> (\<forall>n. pl_mem pl n) \<longrightarrow> r \<noteq> None)"
  using assms
  by (auto simp: requisition_block_def try_get_block_from_initial_pool_def free_list_try_get_def create_block_def pl_malloc_def Let_def
      split: option.splits if_splits prod.splits bool.splits elim!: res_bind_InrE) (metis option.exhaust)

lemma new_block_index_mem:
  assumes "new_block_index p pl = Inr (made, p', pl')"
  shows "pl_mem pl' = pl_mem pl \<and> (made = pl_mem pl (pl_mallocs pl)) \<and> (made \<longrightarrow> ip_block_index p' \<noteq> None) \<and> (\<not> made \<longrightarrow> p' = p)"
  using assms by (auto simp: new_block_index_def pl_malloc_def Let_def split: if_splits elim!: res_bind_InrE)

lemma insert_block_index_entry_mem:
  assumes "insert_block_index_entry can_alloc start p pl = Inr (r, p', pl')"
  shows "pl_mem pl' = pl_mem pl \<and> (ip_block_index p \<noteq> None \<longrightarrow> ip_block_index p' \<noteq> None \<and> (can_alloc \<longrightarrow> (\<forall>n. pl_mem pl n) \<longrightarrow> r \<noteq> None))"
  using assms
  by (auto simp: insert_block_index_entry_def set_index_def split: option.splits if_splits elim!: res_bind_InrE dest!: new_block_index_mem)

text \<open>A producer with fewer than \<open>2 ^ 62\<close> elements is not full.\<close>

lemma producer_room:
  assumes "producer_ok hp p h bs xs" "length xs < 2 ^ 62"
  shows "circular_less_than (ip_head_index p) (ip_tail_index p + BLOCK_SIZE)"
    and "\<not> circular_less_than (ip_tail_index p) (ip_head_index p)"
proof -
  have e: "ip_tail_index p = of_nat (h + length xs)" "ip_head_index p = of_nat h"
    using assms(1) unfolding producer_ok_def producer_core_def producer_nums_def by blast+
  have t: "ip_tail_index p + BLOCK_SIZE = of_nat (h + (length xs + 32))" by (simp add: e BLOCK_SIZE_def)
  show "circular_less_than (ip_head_index p) (ip_tail_index p + BLOCK_SIZE)"
    unfolding t e(2) by (subst circular_less_than_of_nat(1)) (use assms(2) in simp_all)
  show "\<not> circular_less_than (ip_tail_index p) (ip_head_index p)"
    unfolding e by (rule circular_less_than_of_nat(2)) (use assms(2) in simp_all)
qed

lemma store_value_index: "store_value pos v p = Inr p' \<Longrightarrow> ip_block_index p' \<noteq> None"
  by (auto simp: store_value_def set_index_def elim!: res_bind_InrE)

lemma construct_at_tail_mem:
  assumes "construct_at_tail x p pl = Inr (b, p', pl')"
  shows "b \<and> pl_mem pl' = pl_mem pl \<and> ip_block_index p' = ip_block_index p"
  using assms by (auto simp: construct_at_tail_def elim!: res_bind_InrE)

lemma implicit_enqueue_mem:
  assumes e: "implicit_enqueue can_alloc x p pl = Inr (b, p', pl')" and i: "ip_block_index p \<noteq> None"
  shows "pl_mem pl' = pl_mem pl \<and> ip_block_index p' \<noteq> None \<and>
     (can_alloc \<longrightarrow> (\<forall>n. pl_mem pl n) \<longrightarrow> circular_less_than (ip_head_index p) (ip_tail_index p + BLOCK_SIZE) \<longrightarrow> b)"
  using e i unfolding implicit_enqueue_def Let_def
  by (auto simp: MAX_SUBQUEUE_SIZE_def split: if_splits option.splits elim!: res_bind_InrE
      dest!: insert_block_index_entry_mem requisition_block_mem construct_at_tail_mem store_value_index)

lemma implicit_dequeue_mem:
  assumes "implicit_dequeue p pl = Inr (r, p', pl')" "ip_block_index p \<noteq> None"
  shows "pl_mem pl' = pl_mem pl \<and> ip_block_index p' \<noteq> None"
  using assms
  by (auto simp: implicit_dequeue_def Let_def split: if_splits block_ptr.splits elim!: res_bind_InrE dest!: store_value_index)

lemma recycle_or_create_producer_mem:
  assumes "recycle_or_create_producer q = Inr (r, recycled, q')" "plentiful q" "set (cq_list q) \<subseteq> {..<length (cq_producers q)}"
  shows "plentiful q' \<and> r \<noteq> None"
proof (cases "find (\<lambda>a. ip_inactive (cq_producers q ! a)) (cq_list q)")
  case None
  then show ?thesis
    using assms(1,2)
    by (auto simp: recycle_or_create_producer_def plentiful_def pl_malloc_def add_producer_def ImplicitProducer_def Let_def
        elim!: res_bind_InrE dest!: new_block_index_mem)
next
  case (Some a)
  then have "a \<in> set (cq_list q)" by (auto simp: find_Some_iff)
  then have "cq_producers q ! a \<in> set (cq_producers q)" using assms(3) by auto
  then show ?thesis
    using Some assms(1,2) by (auto simp: recycle_or_create_producer_def plentiful_def dest!: set_update_subset_insert [THEN subsetD]) metis
qed

lemma plentiful_fields [simp]:
  "plentiful (q\<lparr>cq_tables := Ts\<rparr>) = plentiful q" "plentiful (q\<lparr>cq_hash_count := n\<rparr>) = plentiful q"
  by (simp_all add: plentiful_def)

lemma grow_tables_mem:
  assumes "grow_tables n q = Inr (ok, q')" "plentiful q"
  shows "ok \<and> plentiful q' \<and> cq_producers q' = cq_producers q \<and> cq_list q' = cq_list q"
  using assms by (auto simp: grow_tables_def pl_malloc_def plentiful_def split: list.splits if_splits elim!: res_bind_InrE)

lemma register_thread_mem:
  assumes "register_thread ident n q = Inr (r, q')" "plentiful q" "set (cq_list q) \<subseteq> {..<length (cq_producers q)}"
  shows "plentiful q' \<and> r \<noteq> None"
  using assms(1) recycle_or_create_producer_mem [OF _ assms(2,3)]
  by (auto simp: register_thread_def Let_def split: list.splits if_splits option.splits elim!: res_bind_InrE)

lemma get_or_add_implicit_producer_mem:
  assumes r: "queue_rep q R hs bss xss" and v: "ident \<noteq> 0" and p: "plentiful q" and g: "get_or_add_implicit_producer ident q = Inr (res, q')"
  shows "plentiful q' \<and> res \<noteq> None"
proof -
  obtain Ts' where f: "find_producer (cq_tables q) ident = Inr (if ident \<in> dom R then Some (R ident) else None, Ts')"
    using find_producer_ok [OF queue_repD(9) [OF r] v] by blast
  show ?thesis
  proof (cases "R ident")
    case (Some a)
    then have "ident \<in> dom R" by auto
    then show ?thesis using Some f g p by (auto simp: get_or_add_implicit_producer_def)
  next
    case None
    then have "ident \<notin> dom R" by auto
    with f g obtain ok q2 where "grow_tables (1 + cq_hash_count q) (q\<lparr>cq_tables := Ts', cq_hash_count := 1 + cq_hash_count q\<rparr>) = Inr (ok, q2)"
      and s: "(if \<not> ok then Inr (None, q2) else register_thread ident (1 + cq_hash_count q) q2) = Inr (res, q')"
      by (auto simp: get_or_add_implicit_producer_def Let_def elim!: res_bind_InrE)
    from grow_tables_mem [OF this(1)] p have q2: "ok" "plentiful q2" "cq_producers q2 = cq_producers q" "cq_list q2 = cq_list q" by auto
    then show ?thesis using register_thread_mem [of ident "1 + cq_hash_count q" q2 res q'] s queue_repD(8) [OF r] by simp
  qed
qed

lemma plentiful_step:
  assumes "plentiful q" "pl_mem pl' = pl_mem (cq_pool q)" "ip_block_index p' \<noteq> None"
  shows "plentiful (q\<lparr>cq_producers := (cq_producers q)[a := p'], cq_pool := pl'\<rparr>)"
  using assms by (auto simp: plentiful_def dest!: set_update_subset_insert [THEN subsetD])

lemma inner_enqueue_mem:
  assumes f: "fifo_rep q s" and v: "valid_thread ident" and p: "plentiful q"
    and e: "inner_enqueue can_alloc ident x q = Inr (b, q')" and small: "\<And>t. length (s t) < 2 ^ 62"
  shows "plentiful q' \<and> (can_alloc \<longrightarrow> b)"
proof -
  obtain R hs bss xss where r: "queue_rep q R hs bss xss" and own: "{..<length xss} \<subseteq> ran R" and s: "s = view_of R xss"
    using f by (auto simp: fifo_rep_def)
  have nz: "0 < ident" "ident < 2 ^ 48" "ident \<noteq> 0" using v by (auto simp: valid_thread_def)
  obtain res q1 R1 hs1 bss1 xss1 where g: "get_or_add_implicit_producer ident q = Inr (res, q1)" "queue_rep q1 R1 hs1 bss1 xss1"
    "case R ident of
        Some a \<Rightarrow> res = Some a \<and> R1 = R \<and> xss1 = xss
      | None \<Rightarrow> (res = None \<and> R1 = R \<and> xss1 = xss) \<or> (res = Some (length xss) \<and> R1 = R(ident \<mapsto> length xss) \<and> xss1 = xss @ [[]])"
    using get_or_add_implicit_producer_ok [OF r nz(1,2)] by (elim exE conjE) (rule that)
  have q1: "plentiful q1" and "res \<noteq> None" using get_or_add_implicit_producer_mem [OF r nz(3) p g(1)] by auto
  then obtain a where a: "res = Some a" by auto
  have R1a: "R1 ident = Some a" and len: "length (xss1 ! a) < 2 ^ 62"
    using g(3) a small [of ident] s by (auto simp: view_of_def split: option.splits)
  have lt: "a < length (cq_producers q1)" using R1a queue_repD(10) [OF g(2)] by (auto simp: ran_def)
  obtain p' pl' where i: "implicit_enqueue can_alloc x (cq_producers q1 ! a) (cq_pool q1) = Inr (b, p', pl')"
    "q' = q1\<lparr>cq_producers := (cq_producers q1)[a := p'], cq_pool := pl'\<rparr>"
    using e g(1) a lt by (auto simp: inner_enqueue_def vec_at_def elim!: res_bind_InrE)
  have idx: "ip_block_index (cq_producers q1 ! a) \<noteq> None" and mem: "\<forall>n. pl_mem (cq_pool q1) n"
    using q1 lt by (auto simp: plentiful_def)
  note m = implicit_enqueue_mem [OF i(1) idx]
  show ?thesis
    using m mem producer_room(1) [OF queue_repD(4) [OF g(2) lt] len] plentiful_step [OF q1, of pl' p' a] i(2) by simp
qed

lemma dequeue_from_mem:
  assumes "dequeue_from a q = Inr (r, q')" "plentiful q"
  shows "plentiful q' \<and> cq_list q' = cq_list q"
proof -
  obtain p' pl' where i: "implicit_dequeue (cq_producers q ! a) (cq_pool q) = Inr (r, p', pl')" "a < length (cq_producers q)"
    "q' = q\<lparr>cq_producers := (cq_producers q)[a := p'], cq_pool := pl'\<rparr>"
    using assms(1) by (auto simp: dequeue_from_def vec_at_def split: if_splits elim!: res_bind_InrE)
  then have "ip_block_index (cq_producers q ! a) \<noteq> None" using assms(2) by (auto simp: plentiful_def)
  from implicit_dequeue_mem [OF i(1) this] show ?thesis using plentiful_step [OF assms(2), of pl' p' a] i(3) by simp
qed

lemma dequeue_any_mem: "dequeue_any best ptr q = Inr (r, q') \<Longrightarrow> plentiful q \<Longrightarrow> plentiful q'"
  by (induction best ptr q rule: dequeue_any.induct)
    (auto split: if_splits option.splits elim!: res_bind_InrE dest!: dequeue_from_mem)

lemma do_call_mem:
  assumes "fifo_rep q s" "valid_call c" "plentiful q" "do_call c q = Inr (out, q')" "\<And>t. length (s t) < 2 ^ 62"
  shows "plentiful q' \<and> (\<forall>ident x. c = Enqueue ident x \<longrightarrow> out = Accepted True)"
proof -
  note enq = inner_enqueue_mem [OF assms(1) _ assms(3) _ assms(5)]
  show ?thesis
  proof (cases c)
    case (Enqueue ident x)
    with assms(2,4) obtain b where "inner_enqueue True ident x q = Inr (b, q')" "out = Accepted b" "valid_thread ident"
      by (auto simp: enqueue_def INITIAL_IMPLICIT_PRODUCER_HASH_SIZE_def elim!: res_bind_InrE)
    then show ?thesis using enq [of ident True x b q'] by simp
  next
    case (TryEnqueue ident x)
    with assms(2,4) obtain b where "inner_enqueue False ident x q = Inr (b, q')" "valid_thread ident"
      by (auto simp: try_enqueue_def INITIAL_IMPLICIT_PRODUCER_HASH_SIZE_def elim!: res_bind_InrE)
    then show ?thesis using enq [of ident False x b q'] TryEnqueue by simp
  next
    case TryDequeue
    with assms(3,4) have "plentiful q'"
      by (fastforce simp: try_dequeue_def split: if_splits option.splits prod.splits elim!: res_bind_InrE dest: dequeue_from_mem dequeue_any_mem)
    then show ?thesis using TryDequeue by simp
  next
    case TryDequeueNonInterleaved
    with assms(3,4) show ?thesis
      by (auto simp: try_dequeue_non_interleaved_def elim!: res_bind_InrE dest: dequeue_any_mem)
  qed (use assms(3,4) in simp)
qed

lemma run_calls_mem:
  assumes "fifo_rep q s" "list_all valid_call cs" "plentiful q" "run_calls cs q = Inr (outs, q')" "\<And>t. length (s t) + length cs < 2 ^ 62"
  shows "length outs = length cs \<and> (\<forall>i < length cs. \<forall>ident x. cs ! i = Enqueue ident x \<longrightarrow> outs ! i = Accepted True)"
  using assms
proof (induction cs arbitrary: q s outs)
  case (Cons c cs)
  obtain out q1 s1 where 1: "do_call c q = Inr (out, q1)" "fifo_rep q1 s1" "fifo_step s c out s1"
    using do_call_refines [OF Cons.prems(1), of c] Cons.prems(2) by auto
  obtain outs1 where o: "outs = out # outs1" "run_calls cs q1 = Inr (outs1, q')"
    using Cons.prems(4) 1(1) by (auto elim!: res_bind_InrE)
  have small: "length (s t) < 2 ^ 62" for t using Cons.prems(5) [of t] by simp
  have m: "plentiful q1" "\<forall>ident x. c = Enqueue ident x \<longrightarrow> out = Accepted True"
    using do_call_mem [OF Cons.prems(1) _ Cons.prems(3) 1(1) small] Cons.prems(2) by auto
  have "length (s1 t) \<le> Suc (length (s t))" for t using 1(3) by cases auto
  then have "length (s1 t) + length cs \<le> length (s t) + length (c # cs)" for t by simp
  then have "length (s1 t) + length cs < 2 ^ 62" for t using Cons.prems(5) [of t] by (rule le_less_trans)
  from Cons.IH [OF 1(2) _ m(1) o(2) this] Cons.prems(2) m(2) o(1) show ?case by (auto simp: nth_Cons split: nat.splits)
qed simp

section \<open>A history\<close>

definition demo_calls :: "(u64 \<times> nat) call list" where
  "demo_calls =
     [Enqueue 0x7f0000001000 (0x7f0000001000, 1), Enqueue 0x7f0000002000 (0x7f0000002000, 2),
      TryEnqueue 0x7f0000001000 (0x7f0000001000, 3), SizeApprox, TryDequeue, TryDequeueNonInterleaved, SizeApprox]"

lemma demo_calls_valid [simp]: "list_all valid_call demo_calls" "list_all tagged demo_calls"
  by (simp_all add: demo_calls_def valid_thread_def tagged_def word_less_nat_alt)

lemma demo_calls_run:
  "map_sum id fst (run_calls demo_calls (ConcurrentQueue (\<lambda>_. True) 64)) =
     Inr [Accepted True, Accepted True, Accepted True, SizeIs 3, Taken (Some (0x7f0000001000, 1)), Taken (Some (0x7f0000002000, 2)), SizeIs 1]"
  by code_simp

text \<open>
  \<^verbatim>\<open>try_enqueue\<close> is documented not to allocate memory.  It does when the thread is new: for the producer and for its
  index.
\<close>

lemma try_enqueue_allocates:
  "pl_mallocs (cq_pool (ConcurrentQueue (\<lambda>_. True) 64 :: nat cqueue)) = 1"
  "map_sum id (\<lambda>(b, q). (b, pl_mallocs (cq_pool q))) (try_enqueue 0x7f0000001000 (5 :: nat) (ConcurrentQueue (\<lambda>_. True) 64)) = Inr (True, 3)"
  by code_simp+

section \<open>Properties\<close>

text \<open>
C6: The queue refines its abstract specification: whatever calls valid threads make on a queue built by either
constructor, whatever allocations are refused, every call returns without a fault, and the outcomes are those of
one first-in first-out list per thread: an accepted element joins its thread's list at the end, a refused one
leaves no trace, a taken element is the first of some thread's list, a dequeue comes back empty-handed only when
every list is empty, and the size is the number of elements.\<close>

theorem queue_refines_fifos:
  assumes "q = ConcurrentQueue mem capacity \<or> q = ConcurrentQueue3 mem minCapacity maxExplicit maxImplicit"
    and "list_all valid_call cs"
  shows "\<exists>outs q' s'. run_calls cs q = Inr (outs, q') \<and> fifo_trace (\<lambda>_. []) cs outs s' \<and>
     queue_size_approx q' = of_nat (\<Sum>ident \<in> UNIV. length (s' ident))"
proof -
  have "fifo_rep q (\<lambda>_. [])" using assms(1) new_queue_fifo by (auto simp: ConcurrentQueue_def ConcurrentQueue3_def)
  from run_calls_refine [OF this assms(2)] obtain outs q' s' where
    o: "run_calls cs q = Inr (outs, q')" "fifo_rep q' s'" "fifo_trace (\<lambda>_. []) cs outs s'" by blast
  then show ?thesis using size_fifo unfolding fifo_rep_def by blast
qed

theorem queue_refines_fifos_witness:
  "\<exists>outs q' s'. run_calls demo_calls (ConcurrentQueue (\<lambda>n. n \<noteq> 3) 64) = Inr (outs, q') \<and> fifo_trace (\<lambda>_. []) demo_calls outs s' \<and>
     queue_size_approx q' = of_nat (\<Sum>ident \<in> UNIV. length (s' ident))"
  using queue_refines_fifos [OF disjI1 [OF refl] demo_calls_valid(1)] by simp

text \<open>
C7: Nothing is lost, invented, duplicated or overtaken: when every element carries its thread, then after any calls by
valid threads on a new queue the elements that a thread had accepted are, in order, those of its elements that were
taken out followed by those that are still inside, and the reported size counts exactly the latter.\<close>

theorem thread_order_kept:
  fixes cs :: "(u64 \<times> 'a) call list"
  assumes "list_all valid_call cs" "list_all tagged cs" "run_calls cs (ConcurrentQueue mem capacity) = Inr (outs, q')"
  shows "\<exists>rest. (\<forall>ident. accepted_by ident cs outs = filter (\<lambda>x. fst x = ident) (taken outs) @ rest ident) \<and>
     queue_size_approx q' = of_nat (\<Sum>ident \<in> UNIV. length (rest ident))"
proof -
  have "fifo_rep (ConcurrentQueue mem capacity) (\<lambda>_. [])" by (simp add: ConcurrentQueue_def new_queue_fifo)
  from run_calls_refine [OF this assms(1)] assms(3) obtain s' where
    t: "fifo_rep q' s'" "fifo_trace (\<lambda>_. []) cs outs s'" by auto
  have "queue_size_approx q' = of_nat (\<Sum>ident \<in> UNIV. length (s' ident))" using t(1) size_fifo unfolding fifo_rep_def by blast
  then show ?thesis using fifo_trace_order [OF t(2) assms(2)] by (intro exI [of _ s']) simp
qed

theorem thread_order_kept_witness:
  "\<exists>outs q' rest. run_calls demo_calls (ConcurrentQueue (\<lambda>_. True) 64) = Inr (outs, q') \<and>
     accepted_by 0x7f0000001000 demo_calls outs = [(0x7f0000001000, 1)] @ rest 0x7f0000001000"
proof -
  obtain outs q' where o: "run_calls demo_calls (ConcurrentQueue (\<lambda>_. True) 64) = Inr (outs, q')"
    and t: "taken outs = [(0x7f0000001000, 1), (0x7f0000002000, 2)]" using demo_calls_run by (cases "run_calls demo_calls (ConcurrentQueue (\<lambda>_. True) 64)") auto
  from thread_order_kept [OF demo_calls_valid o] t o show ?thesis by auto
qed

text \<open>
C39: While memory lasts every enqueue is accepted: on a new queue whose allocations all succeed, in a history of fewer
than \<open>2 ^ 62\<close> calls by valid threads, no call to \<open>enqueue\<close> is refused.\<close>

theorem enqueue_accepted_with_memory:
  assumes "\<And>n. mem n" "list_all valid_call cs" "length cs < 2 ^ 62" "i < length cs" "cs ! i = Enqueue ident x"
  shows "\<exists>outs q'. run_calls cs (ConcurrentQueue mem capacity) = Inr (outs, q') \<and> outs ! i = Accepted True"
proof -
  let ?q = "ConcurrentQueue mem capacity"
  have f: "fifo_rep ?q (\<lambda>_. [])" by (simp add: ConcurrentQueue_def new_queue_fifo)
  have p: "plentiful ?q"
    using assms(1) by (auto simp: plentiful_def ConcurrentQueue_def queue_with_blocks_def populate_initial_implicit_producer_hash_def
        populate_initial_block_list_def empty_pool_def pl_malloc_def)
  obtain outs q' where "run_calls cs ?q = Inr (outs, q')" using run_calls_refine [OF f assms(2)] by blast
  with run_calls_mem [OF f assms(2) p this] assms(3-5) show ?thesis by auto
qed

theorem enqueue_accepted_with_memory_witness:
  "\<exists>outs q'. run_calls demo_calls (ConcurrentQueue (\<lambda>_. True) 64) = Inr (outs, q') \<and> outs ! 1 = Accepted True"
  using enqueue_accepted_with_memory [of "\<lambda>_. True" demo_calls 1 "0x7f0000002000" "(0x7f0000002000, 2)" 64]
  by (simp add: demo_calls_def valid_thread_def word_less_nat_alt)

end
