(* ===== verification/ConnectionPool.thy ===== *)
theory ConnectionPool
  imports HttpService CqTrace
begin

text \<open>
  The pool of \<^verbatim>\<open>lib/mysql_exe_queue.cpp\<close> on the queue of \<^verbatim>\<open>lib/concurrentqueue.h\<close>: the contract that the pool's
  lemmas rely on is the one that the queue was shown to keep.  Its users are the consumers of batches and the
  handlers of \<^verbatim>\<open>service/torrent_server/http_service.cpp\<close> that read histories.
\<close>

definition g_concurrent_q :: "(nat \<Rightarrow> bool) \<Rightarrow> 'c option cqueue" where
  "g_concurrent_q mem = ConcurrentQueue mem (of_nat g_max_conn_size)"

text \<open>Batches one after the other, as the execution queue hands them out.\<close>

fun run_batches ::
  "('q, 'c option) cq_ops \<Rightarrow> ('c, 'w) mysql_ops \<Rightarrow> mysql_task list list \<Rightarrow> ('q, 'w) my_state \<Rightarrow> ('q, 'w) my_state res option" where
  "run_batches Q M [] s = Some (Inr s)"
| "run_batches Q M (iter # iters) s =
     (case mysql_queue_exe_batch Q M iter s of
        None \<Rightarrow> None
      | Some (Inl e) \<Rightarrow> Some (Inl e)
      | Some (Inr (_, s1)) \<Rightarrow> run_batches Q M iters s1)"

context conn_pool
begin

lemma pool_init_pool_ok:
  "pool_ok s \<Longrightarrow> \<exists>ret s'. pool_init_loop Q M p n s = Inr (ret, s') \<and> pool_ok s'"
proof (induction n arbitrary: s)
  case (Suc n)
  obtain conn w where w: "mysql_bytetrade_init M p (my_world s) = (conn, w)" by fastforce
  show ?case
  proof (cases conn)
    case None
    then show ?thesis using w Suc.prems by (simp add: pool_ok_def)
  next
    case (Some c)
    obtain b q' where q': "cq_enqueue Q (Some c) (my_pool s) = Inr (b, q')" "ok q'"
      "items q' = (if b then add_mset (Some c) (items (my_pool s)) else items (my_pool s))"
      using enqueue [of "my_pool s" "Some c"] Suc.prems by (auto simp: pool_ok_def)
    then have "pool_ok (s\<lparr>my_pool := q', my_world := w\<rparr>)" using Suc.prems by (auto simp: pool_ok_def)
    from Suc.IH [OF this] show ?thesis using w Some q'(1) by simp
  qed
qed simp

lemma run_batches_pool:
  assumes "pool_ok s" "run_batches Q M iters s = Some r"
  shows "\<exists>s'. r = Inr s' \<and> pool_ok s' \<and> items (my_pool s') \<subseteq># items (my_pool s)"
  using assms
proof (induction iters arbitrary: s)
  case (Cons iter iters)
  then obtain r1 where r1: "mysql_queue_exe_batch Q M iter s = Some r1" by (auto split: option.splits)
  obtain ret s1 where s1: "r1 = Inr (ret, s1)" "pool_ok s1" "items (my_pool s1) \<subseteq># items (my_pool s)"
    using consume_pool [OF Cons.prems(1) r1 [unfolded mysql_queue_exe_batch_def]] by blast
  with Cons.prems(2) r1 have "run_batches Q M iters s1 = Some r" by simp
  from Cons.IH [OF s1(2) this] s1(3) show ?case by (auto intro: subset_mset.order_trans)
qed auto

end

lemma valid_thread_schedule: "\<forall>q. valid_thread (sched q) \<Longrightarrow> thread_schedule sched"
  by unfold_locales (simp_all add: valid_thread_def)

interpretation cq_pool: conn_pool "mc_ops (\<lambda>_. 0x7f0000001000)" queue_ok queue_items M for M :: "('c, 'w) mysql_ops"
  by unfold_locales

lemma g_concurrent_q_ok: "queue_ok (g_concurrent_q mem)" "queue_items (g_concurrent_q mem) = {#}"
proof -
  have r: "queue_rep (g_concurrent_q mem) Map.empty [] [] []"
    unfolding g_concurrent_q_def ConcurrentQueue_def by (rule queue_with_blocks_ok)
  then show "queue_ok (g_concurrent_q mem)" unfolding queue_ok_def by blast
  show "queue_items (g_concurrent_q mem) = {#}" using queue_items_rep [OF r] by simp
qed

text \<open>
C12: The connection pool on the lock-free queue as the program builds it: whatever threads call, whatever allocations are
refused and however many connections the start-up opened, filling the pool and consuming any batches after it never runs
into a failed assertion or a stray pointer, no null connection is ever pooled, and every pooled connection is one that the
start-up had opened.\<close>

theorem pool_on_queue_kept:
  fixes M :: "('c, 'w) mysql_ops" and sched :: "'c option cqueue \<Rightarrow> u64"
  assumes "\<forall>q. valid_thread (sched q)"
  shows "\<exists>ret s. mysql_conn_pool_init (mc_ops sched) M p nproc \<lparr>my_pool = g_concurrent_q mem, my_world = w\<rparr> = Inr (ret, s) \<and>
     (\<forall>iters r. run_batches (mc_ops sched) M iters s = Some r \<longrightarrow>
        (\<exists>s'. r = Inr s' \<and> queue_ok (my_pool s') \<and> None \<notin># queue_items (my_pool s') \<and>
           queue_items (my_pool s') \<subseteq># queue_items (my_pool s)))"
proof -
  have cp: "conn_pool (mc_ops sched) queue_ok queue_items"
    using thread_schedule.queue_bag [OF valid_thread_schedule [OF assms]] by (simp add: conn_pool_def)
  let ?s = "\<lparr>my_pool = g_concurrent_q mem :: 'c option cqueue, my_world = w\<rparr>"
  have "conn_pool.pool_ok queue_ok queue_items ?s" 
    by (simp add: conn_pool.pool_ok_def [OF cp] g_concurrent_q_ok)
  from conn_pool.pool_init_pool_ok [OF cp this, of M p "unat (nproc * 2)"] obtain ret s where
    i: "mysql_conn_pool_init (mc_ops sched) M p nproc ?s = Inr (ret, s)" "conn_pool.pool_ok queue_ok queue_items s"
    by (auto simp: mysql_conn_pool_init_def)
  have "\<exists>s'. r = Inr s' \<and> queue_ok (my_pool s') \<and> None \<notin># queue_items (my_pool s') \<and> queue_items (my_pool s') \<subseteq># queue_items (my_pool s)"
    if "run_batches (mc_ops sched) M iters s = Some r" for iters r
    using conn_pool.run_batches_pool [OF cp i(2) that] unfolding conn_pool.pool_ok_def [OF cp] by blast
  with i(1) show ?thesis by blast
qed

theorem pool_on_queue_kept_witness:
  "\<exists>ret s s'. mysql_conn_pool_init (mc_ops (\<lambda>_. 0x7f0000001000)) demo_mysql (task_params demo_task) 1
       \<lparr>my_pool = g_concurrent_q (\<lambda>_. True), my_world = ([], 2)\<rparr> = Inr (ret, s) \<and>
     run_batches (mc_ops (\<lambda>_. 0x7f0000001000)) demo_mysql [] s = Some (Inr s') \<and> None \<notin># queue_items (my_pool s')"
proof -
  have "\<forall>q :: nat option cqueue. valid_thread 0x7f0000001000" by (simp add: valid_thread_def word_less_nat_alt)
  from pool_on_queue_kept [OF this, of demo_mysql "task_params demo_task" 1 "\<lambda>_. True" "([], 2)"] obtain ret s where
    s: "mysql_conn_pool_init (mc_ops (\<lambda>_. 0x7f0000001000)) demo_mysql (task_params demo_task) 1
       \<lparr>my_pool = g_concurrent_q (\<lambda>_. True), my_world = ([], 2)\<rparr> = Inr (ret, s)"
    "run_batches (mc_ops (\<lambda>_. 0x7f0000001000)) demo_mysql [] s = Some r \<longrightarrow> (\<exists>s'. r = Inr s' \<and> None \<notin># queue_items (my_pool s'))" for r
    by blast
  then show ?thesis by auto
qed

section \<open>The history handlers on the pool\<close>

text \<open>One connection in the pool as the program builds it, while memory lasts.\<close>

lemma one_pooled:
  "\<exists>q. cq_enqueue (mc_ops (\<lambda>_. 0x7f0000001000)) (Some c) (g_concurrent_q (\<lambda>_. True)) = Inr (True, q) \<and> queue_ok q \<and> queue_items q = {#Some c#}"
proof -
  let ?q = "g_concurrent_q (\<lambda>_. True) :: 'a option cqueue"
  obtain b q where q: "cq_enqueue (mc_ops (\<lambda>_. 0x7f0000001000)) (Some c) ?q = Inr (b, q)" "queue_ok q"
    "queue_items q = (if b then add_mset (Some c) (queue_items ?q) else queue_items ?q)"
    using one_thread.enqueue [OF g_concurrent_q_ok(1), of "Some c" "\<lambda>_. True"] by blast
  have f: "fifo_rep ?q (\<lambda>_. [])" by (simp add: g_concurrent_q_def ConcurrentQueue_def new_queue_fifo)
  have p: "plentiful ?q"
    by (auto simp: plentiful_def g_concurrent_q_def ConcurrentQueue_def queue_with_blocks_def
        populate_initial_implicit_producer_hash_def populate_initial_block_list_def empty_pool_def pl_malloc_def)
  have v: "valid_thread 0x7f0000001000" by (simp add: valid_thread_def word_less_nat_alt)
  have e: "inner_enqueue True 0x7f0000001000 (Some c) ?q = Inr (b, q)" using q(1) by (simp add: mc_ops_def enqueue_def INITIAL_IMPLICIT_PRODUCER_HASH_SIZE_def)
  have b using inner_enqueue_mem [OF f v p e] by simp
  then show ?thesis using q g_concurrent_q_ok(2) by auto
qed

text \<open>A server that drops the query of a history, with the calls recorded: the connection comes from the pool and does not go back.\<close>

lemma demo_failing_history:
  assumes "queue_ok q" "queue_items q = {#Some 7#}"
  shows "\<exists>resp s'. get_create_history (mc_ops (\<lambda>_. 0x7f0000001000)) (traced demo_mysql) (traced_results (demo_result [])) demo_http None None None
     \<lparr>my_pool = q, my_world = (([], 2), [])\<rparr> = Inr (resp, s') \<and> rs_code resp = 2 \<and> queue_items (my_pool s') = {#} \<and> created (snd (my_world s')) = []"
proof -
  obtain x q' where d: "cq_try_dequeue (mc_ops (\<lambda>_. 0x7f0000001000)) q = Inr (x, q')"
    "case x of None \<Rightarrow> queue_items q = {#} \<and> queue_items q' = {#} | Some y \<Rightarrow> queue_items q = add_mset y (queue_items q')"
    using one_thread.try_dequeue [OF assms(1)] by blast
  then have "x = Some (Some 7)" "queue_items q' = {#}" using assms(2) by (auto split: option.splits)
  moreover have "my_real_query (traced demo_mysql) 7 sql (([], 2), []) = (1, ([], 2), [CQuery 7 sql 1 2006])" for sql
    by (simp add: traced_def demo_mysql_def)
  ultimately show ?thesis using d(1)
    by (simp add: get_create_history_def history_reply_def get_mysql_conn_def)
qed



end
