(* ===== verification/WorkSteal.thy ===== *)
theory WorkSteal
  imports Prelude "HOL-Library.Multiset" "HOL-Library.Sublist"
begin

unbundle bit_operations_syntax

text \<open>
  \<^verbatim>\<open>bthread/work_stealing_queue.h\<close>: the queue of runnable tasks of a worker.  Its owner pushes and pops at the
  bottom while any number of thieves steal at the top, without locks.  Here the operations are interleaved: every
  load, store and compare-and-exchange of an atomic, and every access to the buffer, is a step of its own, and any
  thread may move next.  Memory is sequentially consistent, which the fences are there to provide where it matters.
  A slot of the buffer that was never written holds \<open>None\<close>.
\<close>

section \<open>The queue\<close>

record 'a wsq =
  ws_bottom :: u64
  ws_capacity :: u64
  ws_buffer :: "'a option list"
  ws_top :: u64

definition ws_new :: "'a wsq" where
  "ws_new = \<lparr>ws_bottom = 1, ws_capacity = 0, ws_buffer = [], ws_top = 1\<rparr>"

text \<open>\<open>mem\<close> says whether the buffer can be allocated.\<close>

definition ws_init :: "bool \<Rightarrow> u64 \<Rightarrow> 'a wsq \<Rightarrow> int \<times> 'a wsq" where
  "ws_init mem capacity q =
     (if ws_capacity q \<noteq> 0 then (- 1, q)
      else if capacity = 0 then (- 1, q)
      else if capacity AND (capacity - 1) \<noteq> 0 then (- 1, q)
      else if \<not> mem then (- 1, q\<lparr>ws_buffer := []\<rparr>)
      else (0, q\<lparr>ws_buffer := replicate (unat capacity) None, ws_capacity := capacity\<rparr>))"

definition ws_slot :: "u64 \<Rightarrow> 'a wsq \<Rightarrow> nat" where
  "ws_slot i q = unat (i AND (ws_capacity q - 1))"

definition ws_read :: "u64 \<Rightarrow> 'a wsq \<Rightarrow> 'a res" where
  "ws_read i q = res_bind (vec_at (ws_buffer q) (ws_slot i q)) (\<lambda>v. case v of None \<Rightarrow> Inl Indeterminate | Some x \<Rightarrow> Inr x)"

definition ws_write :: "u64 \<Rightarrow> 'a \<Rightarrow> 'a wsq \<Rightarrow> 'a wsq res" where
  "ws_write i x q =
     (if ws_slot i q < length (ws_buffer q) then Inr (q\<lparr>ws_buffer := (ws_buffer q)[ws_slot i q := Some x]\<rparr>) else Inl OutOfRange)"

definition volatile_size :: "'a wsq \<Rightarrow> u64" where
  "volatile_size q = (if ws_bottom q \<le> ws_top q then 0 else ws_bottom q - ws_top q)"

section \<open>Where a thread is\<close>

text \<open>The state of the owner inside \<open>push\<close> and \<open>pop\<close> and of a thief inside \<open>steal\<close>, with its local variables.\<close>

datatype 'a owner =
    Idle
  | Push1 'a u64         \<comment> \<open>\<open>b\<close> is loaded\<close>
  | Push2 'a u64         \<comment> \<open>there is room\<close>
  | Push3 'a u64         \<comment> \<open>the item is in the buffer\<close>
  | Pop1 u64             \<comment> \<open>\<open>b\<close> is loaded\<close>
  | Pop2 u64             \<comment> \<open>the fast check has passed\<close>
  | Pop3 u64             \<comment> \<open>the bottom is lowered\<close>
  | Pop4 u64 u64         \<comment> \<open>\<open>t\<close> is loaded again and does not exceed the new bottom\<close>
  | Pop5 u64 u64 'a      \<comment> \<open>the last item, to be competed for\<close>
  | Restore u64          \<comment> \<open>the bottom is to be put back\<close>

datatype 'a thief =
    TIdle
  | Steal1 u64           \<comment> \<open>\<open>t\<close> is loaded\<close>
  | Steal2 u64           \<comment> \<open>at the start of the loop body\<close>
  | Steal3 u64           \<comment> \<open>the second check has passed\<close>
  | Steal4 u64 'a        \<comment> \<open>the item is read\<close>

text \<open>An operation's result, reported when it is settled.\<close>

datatype 'a event = Pushed 'a bool | Popped "'a option" | Stolen "'a option"

fun owner_step :: "'a wsq \<Rightarrow> 'a owner \<Rightarrow> ('a event option \<times> 'a owner \<times> 'a wsq) res" where
  "owner_step q Idle = Inr (None, Idle, q)"
| "owner_step q (Push1 x b) =
     (if b \<ge> ws_top q + ws_capacity q then Inr (Some (Pushed x False), Idle, q) else Inr (None, Push2 x b, q))"
| "owner_step q (Push2 x b) = res_bind (ws_write b x q) (\<lambda>q'. Inr (None, Push3 x b, q'))"
| "owner_step q (Push3 x b) = Inr (Some (Pushed x True), Idle, q\<lparr>ws_bottom := b + 1\<rparr>)"
| "owner_step q (Pop1 b) = (if ws_top q \<ge> b then Inr (Some (Popped None), Idle, q) else Inr (None, Pop2 b, q))"
| "owner_step q (Pop2 b) = Inr (None, Pop3 b, q\<lparr>ws_bottom := b - 1\<rparr>)"
| "owner_step q (Pop3 b) =
     (if ws_top q > b - 1 then Inr (Some (Popped None), Restore b, q) else Inr (None, Pop4 b (ws_top q), q))"
| "owner_step q (Pop4 b t) =
     res_bind (ws_read (b - 1) q) (\<lambda>v.
       if t \<noteq> b - 1 then Inr (Some (Popped (Some v)), Idle, q) else Inr (None, Pop5 b t v, q))"
| "owner_step q (Pop5 b t v) =
     (if ws_top q = t then Inr (Some (Popped (Some v)), Restore b, q\<lparr>ws_top := t + 1\<rparr>)
      else Inr (Some (Popped None), Restore b, q))"
| "owner_step q (Restore b) = Inr (None, Idle, q\<lparr>ws_bottom := b\<rparr>)"

text \<open>A failed exchange loads the top it found into \<open>t\<close> and goes round the loop again.\<close>

fun thief_step :: "'a wsq \<Rightarrow> 'a thief \<Rightarrow> ('a event option \<times> 'a thief \<times> 'a wsq) res" where
  "thief_step q TIdle = Inr (None, TIdle, q)"
| "thief_step q (Steal1 t) = (if t \<ge> ws_bottom q then Inr (Some (Stolen None), TIdle, q) else Inr (None, Steal2 t, q))"
| "thief_step q (Steal2 t) = (if t \<ge> ws_bottom q then Inr (Some (Stolen None), TIdle, q) else Inr (None, Steal3 t, q))"
| "thief_step q (Steal3 t) = res_bind (ws_read t q) (\<lambda>v. Inr (None, Steal4 t v, q))"
| "thief_step q (Steal4 t v) =
     (if ws_top q = t then Inr (Some (Stolen (Some v)), TIdle, q\<lparr>ws_top := t + 1\<rparr>)
      else Inr (None, Steal2 (ws_top q), q))"

section \<open>Interleavings\<close>

record 'a ws_sys =
  sys_q :: "'a wsq"
  sys_owner :: "'a owner"
  sys_thieves :: "nat \<Rightarrow> 'a thief"

definition ws_start :: "'a wsq \<Rightarrow> 'a ws_sys" where
  "ws_start q = \<lparr>sys_q = q, sys_owner = Idle, sys_thieves = (\<lambda>_. TIdle)\<rparr>"

inductive ws_step :: "'a ws_sys \<Rightarrow> 'a event option \<Rightarrow> 'a ws_sys \<Rightarrow> bool" where
  call_push: "sys_owner s = Idle \<Longrightarrow> ws_step s None (s\<lparr>sys_owner := Push1 x (ws_bottom (sys_q s))\<rparr>)"
| call_pop: "sys_owner s = Idle \<Longrightarrow> ws_step s None (s\<lparr>sys_owner := Pop1 (ws_bottom (sys_q s))\<rparr>)"
| owner: "owner_step (sys_q s) (sys_owner s) = Inr (ev, pc, q) \<Longrightarrow> ws_step s ev (s\<lparr>sys_q := q, sys_owner := pc\<rparr>)"
| call_steal: "sys_thieves s i = TIdle \<Longrightarrow> ws_step s None (s\<lparr>sys_thieves := (sys_thieves s)(i := Steal1 (ws_top (sys_q s)))\<rparr>)"
| thief: "thief_step (sys_q s) (sys_thieves s i) = Inr (ev, pc, q) \<Longrightarrow>
     ws_step s ev (s\<lparr>sys_q := q, sys_thieves := (sys_thieves s)(i := pc)\<rparr>)"

definition event_list :: "'a event option \<Rightarrow> 'a event list" where
  "event_list ev = (case ev of None \<Rightarrow> [] | Some e \<Rightarrow> [e])"

inductive ws_run :: "'a ws_sys \<Rightarrow> nat \<Rightarrow> 'a event list \<Rightarrow> 'a ws_sys \<Rightarrow> bool" for s0 where
  start: "ws_run s0 0 [] s0"
| step: "ws_run s0 n evs s \<Longrightarrow> ws_step s ev s' \<Longrightarrow> ws_run s0 (Suc n) (evs @ event_list ev) s'"

section \<open>The abstract deque\<close>

text \<open>
  The items from top to bottom.  A push fails exactly when the deque is full and a pop exactly when it is empty;
  a steal may also fail when there is one item, which the owner may be about to take.
\<close>

fun deque_event :: "nat \<Rightarrow> 'a event \<Rightarrow> 'a list \<Rightarrow> 'a list option" where
  "deque_event cap (Pushed x True) xs = (if length xs < cap then Some (xs @ [x]) else None)"
| "deque_event cap (Pushed x False) xs = (if length xs = cap then Some xs else None)"
| "deque_event cap (Popped None) xs = (if xs = [] then Some xs else None)"
| "deque_event cap (Popped (Some x)) xs = (if xs \<noteq> [] \<and> last xs = x then Some (butlast xs) else None)"
| "deque_event cap (Stolen None) xs = (if length xs \<le> 1 then Some xs else None)"
| "deque_event cap (Stolen (Some x)) xs = (if xs \<noteq> [] \<and> hd xs = x then Some (tl xs) else None)"

fun deque_run :: "nat \<Rightarrow> 'a event list \<Rightarrow> 'a list \<Rightarrow> 'a list option" where
  "deque_run cap [] xs = Some xs"
| "deque_run cap (ev # evs) xs = (case deque_event cap ev xs of None \<Rightarrow> None | Some ys \<Rightarrow> deque_run cap evs ys)"

lemma deque_run_append:
  "deque_run cap (evs @ evs') xs = (case deque_run cap evs xs of None \<Rightarrow> None | Some ys \<Rightarrow> deque_run cap evs' ys)"
  by (induction evs arbitrary: xs) (auto split: option.splits)

section \<open>The invariant\<close>

text \<open>One past the last item: an item that the owner is popping counts until the result is settled.\<close>

fun owner_end :: "'a owner \<Rightarrow> nat \<Rightarrow> nat" where
  "owner_end (Pop3 b) _ = unat b"
| "owner_end (Pop4 b _) _ = unat b"
| "owner_end (Pop5 b _ _) _ = unat b"
| "owner_end (Restore b) _ = unat b"
| "owner_end _ bottom = bottom"

definition item_end :: "'a ws_sys \<Rightarrow> nat" where
  "item_end s = owner_end (sys_owner s) (unat (ws_bottom (sys_q s)))"

definition slot_of :: "'a wsq \<Rightarrow> nat \<Rightarrow> 'a option" where
  "slot_of q i = ws_buffer q ! (i mod length (ws_buffer q))"

definition items_between :: "'a wsq \<Rightarrow> nat \<Rightarrow> nat \<Rightarrow> 'a list" where
  "items_between q m n = map (\<lambda>i. the (slot_of q i)) [m..<n]"

definition ws_items :: "'a ws_sys \<Rightarrow> 'a list" where
  "ws_items s = items_between (sys_q s) (unat (ws_top (sys_q s))) (item_end s)"

text \<open>No thief that has passed its checks is after an item that the owner already has for itself.\<close>

fun steal_limit :: "'a owner \<Rightarrow> nat \<Rightarrow> nat" where
  "steal_limit (Pop4 b t) e = (if t \<noteq> b - 1 then unat b - 1 else Suc e)"
| "steal_limit _ e = Suc e"

fun owner_inv :: "'a wsq \<Rightarrow> 'a owner \<Rightarrow> bool" where
  "owner_inv q Idle = True"
| "owner_inv q (Push1 x b) = (b = ws_bottom q)"
| "owner_inv q (Push2 x b) = (b = ws_bottom q \<and> unat b < unat (ws_top q) + length (ws_buffer q))"
| "owner_inv q (Push3 x b) = (b = ws_bottom q \<and> unat b < unat (ws_top q) + length (ws_buffer q) \<and> slot_of q (unat b) = Some x)"
| "owner_inv q (Pop1 b) = (b = ws_bottom q)"
| "owner_inv q (Pop2 b) = (b = ws_bottom q \<and> 1 < unat b)"
| "owner_inv q (Pop3 b) = (ws_bottom q = b - 1 \<and> 1 < unat b)"
| "owner_inv q (Pop4 b t) = (ws_bottom q = b - 1 \<and> 1 < unat b \<and> unat t < unat b \<and> t \<le> ws_top q \<and> (t \<noteq> b - 1 \<longrightarrow> unat (ws_top q) < unat b))"
| "owner_inv q (Pop5 b t v) = (ws_bottom q = b - 1 \<and> 1 < unat b \<and> t = b - 1 \<and> t \<le> ws_top q \<and> slot_of q (unat b - 1) = Some v)"
| "owner_inv q (Restore b) = (ws_bottom q = b - 1 \<and> 1 < unat b \<and> unat (ws_top q) = unat b)"

fun thief_inv :: "'a wsq \<Rightarrow> nat \<Rightarrow> nat \<Rightarrow> 'a thief \<Rightarrow> bool" where
  "thief_inv q e l TIdle = True"
| "thief_inv q e l (Steal1 t) = (0 < t \<and> t \<le> ws_top q)"
| "thief_inv q e l (Steal2 t) = (0 < t \<and> t \<le> ws_top q)"
| "thief_inv q e l (Steal3 t) = (0 < t \<and> t \<le> ws_top q \<and> slot_of q (unat t) \<noteq> None \<and> (t = ws_top q \<longrightarrow> unat t < e) \<and> unat t < l)"
| "thief_inv q e l (Steal4 t v) =
     (0 < t \<and> t \<le> ws_top q \<and> (t = ws_top q \<longrightarrow> unat t < e \<and> slot_of q (unat t) = Some v) \<and> unat t < l)"

definition queue_inv :: "nat \<Rightarrow> 'a wsq \<Rightarrow> nat \<Rightarrow> bool" where
  "queue_inv k q e \<longleftrightarrow> k < 64 \<and> ws_capacity q = 2 ^ k \<and> length (ws_buffer q) = 2 ^ k \<and>
     0 < unat (ws_top q) \<and> unat (ws_top q) \<le> e \<and> e \<le> unat (ws_top q) + 2 ^ k \<and> e < 2 ^ 63 \<and>
     (\<forall>i. 0 < i \<longrightarrow> i < e \<longrightarrow> slot_of q i \<noteq> None)"

definition sys_inv :: "nat \<Rightarrow> 'a ws_sys \<Rightarrow> bool" where
  "sys_inv k s \<longleftrightarrow> queue_inv k (sys_q s) (item_end s) \<and> owner_inv (sys_q s) (sys_owner s) \<and>
     (\<forall>i. thief_inv (sys_q s) (item_end s) (steal_limit (sys_owner s) (item_end s)) (sys_thieves s i))"

section \<open>Arithmetic\<close>

lemma unat_inc63: "unat (w :: u64) < 2 ^ 63 \<Longrightarrow> unat (w + 1) = unat w + 1"
  using unat_of_nat_add [of w 1] by simp

lemma unat_dec: "0 < unat (w :: u64) \<Longrightarrow> unat (w - 1) = unat w - 1"
  by (metis One_nat_def Suc_leI unat_1 unat_sub word_le_nat_alt)

lemma queue_invD:
  assumes "queue_inv k q e"
  shows "unat (ws_top q + 1) = unat (ws_top q) + 1" and "ws_slot i q = unat i mod 2 ^ k"
    and "unat (ws_top q + ws_capacity q) = unat (ws_top q) + 2 ^ k" and "unat (ws_top q) \<le> e" and "length (ws_buffer q) = 2 ^ k"
proof -
  have q: "k < 64" "ws_capacity q = 2 ^ k" "unat (ws_top q) \<le> e" "e < 2 ^ 63" "length (ws_buffer q) = 2 ^ k"
    using assms by (simp_all add: queue_inv_def)
  show "unat (ws_top q + 1) = unat (ws_top q) + 1" using q by (intro unat_inc63) simp
  show "ws_slot i q = unat i mod 2 ^ k" using unat_and_pow2 [of i k] q(2) by (simp add: ws_slot_def)
  have "(2 :: nat) ^ k \<le> 2 ^ 63" using q(1) by (intro power_increasing) simp_all
  then have "unat (ws_top q) + 2 ^ k < 2 ^ 64" using q(3,4) by simp
  then have "unat (ws_top q + of_nat (2 ^ k)) = unat (ws_top q) + 2 ^ k" by (rule unat_of_nat_add)
  then show "unat (ws_top q + ws_capacity q) = unat (ws_top q) + 2 ^ k" by (simp add: q(2))
  show "unat (ws_top q) \<le> e" "length (ws_buffer q) = 2 ^ k" by (rule q)+
qed

lemma ws_read_ok:
  assumes "queue_inv k q e" "slot_of q (unat i) = Some v"
  shows "ws_read i q = Inr v"
  using assms queue_invD(2,5) [OF assms(1)] by (simp add: ws_read_def vec_at_def slot_of_def)

lemma slot_of_write:
  assumes "queue_inv k q e" "ws_write i x q = Inr q'"
  shows "slot_of q' j = (if j mod 2 ^ k = unat i mod 2 ^ k then Some x else slot_of q j)"
  using assms queue_invD(2,5) [OF assms(1)] by (auto simp: ws_write_def slot_of_def split: if_splits)

text \<open>Distinct positions within one round of the buffer use distinct slots.\<close>

lemma mod_distinct:
  fixes i :: nat
  assumes "m \<le> i" "i < j" "j < m + n"
  shows "i mod n \<noteq> j mod n"
proof
  assume "i mod n = j mod n"
  then have "n dvd j - i" using mod_eq_dvd_iff_nat [of i j n] assms by (simp add: eq_commute)
  then show False using assms by (auto dest: dvd_imp_le)
qed

lemma bottom_end:
  assumes "owner_inv q pc"
  shows "unat (ws_bottom q) \<le> owner_end pc (unat (ws_bottom q))" and "owner_end pc (unat (ws_bottom q)) \<le> unat (ws_bottom q) + 1"
  using assms by (cases pc; simp add: unat_dec)+

section \<open>Items\<close>

lemma items_snoc: "m \<le> n \<Longrightarrow> items_between q m (Suc n) = items_between q m n @ [the (slot_of q n)]"
  by (simp add: items_between_def)

lemma items_Cons: "m < n \<Longrightarrow> items_between q m n = the (slot_of q m) # items_between q (Suc m) n"
  by (simp add: items_between_def upt_conv_Cons)

lemma length_items [simp]: "length (items_between q m n) = n - m"
  by (simp add: items_between_def)

lemma items_cong:
  "(\<And>i. m \<le> i \<Longrightarrow> i < n \<Longrightarrow> slot_of q' i = slot_of q i) \<Longrightarrow> items_between q' m n = items_between q m n"
  by (simp add: items_between_def)

lemma slot_of_simps [simp]:
  "slot_of (q\<lparr>ws_bottom := b\<rparr>) i = slot_of q i" "slot_of (q\<lparr>ws_top := t\<rparr>) i = slot_of q i"
  by (simp_all add: slot_of_def)

lemma items_simps [simp]:
  "items_between (q\<lparr>ws_bottom := b\<rparr>) m n = items_between q m n" "items_between (q\<lparr>ws_top := t\<rparr>) m n = items_between q m n"
  by (simp_all add: items_between_def)

section \<open>The owner's steps\<close>

lemma thief_inv_mono:
  assumes "thief_inv q e l th" "unat (ws_top q) \<le> e'" "unat (ws_top q) < l' \<or> l \<le> l'" "e \<le> e' \<or> l \<le> e'"
    and "ws_top q' = ws_top q" "\<And>i. slot_of q' i = slot_of q i"
  shows "thief_inv q' e' l' th"
  using assms by (cases th) (auto simp: word_le_nat_alt)

definition owner_moves :: "nat \<Rightarrow> 'a ws_sys \<Rightarrow> 'a event option \<Rightarrow> 'a owner \<Rightarrow> 'a wsq \<Rightarrow> bool" where
  "owner_moves k s ev pc q \<longleftrightarrow> sys_inv k (s\<lparr>sys_q := q, sys_owner := pc\<rparr>) \<and>
     deque_run (2 ^ k) (event_list ev) (ws_items s) = Some (ws_items (s\<lparr>sys_q := q, sys_owner := pc\<rparr>))"

text \<open>A step that leaves the end, the top and the slots alone.\<close>

lemma owner_moves_local:
  assumes inv: "sys_inv k s" and pc: "owner_inv q pc" "owner_end pc (unat (ws_bottom q)) = item_end s"
    and l: "steal_limit pc (item_end s) = Suc (item_end s) \<or> unat (ws_top q) < steal_limit pc (item_end s)"
    and q: "q = (sys_q s)\<lparr>ws_bottom := b\<rparr>" and ev: "deque_run (2 ^ k) (event_list ev) (ws_items s) = Some (ws_items s)"
  shows "owner_moves k s ev pc q"
proof -
  let ?s = "s\<lparr>sys_q := q, sys_owner := pc\<rparr>"
  have e: "item_end ?s = item_end s" using pc(2) by (simp add: item_end_def)
  have qi: "queue_inv k (sys_q s) (item_end s)" using inv by (simp add: sys_inv_def)
  then have "queue_inv k q (item_end s)" unfolding q by (simp add: queue_inv_def)
  moreover have "thief_inv q (item_end s) (steal_limit pc (item_end s)) (sys_thieves s i)" for i
  proof (rule thief_inv_mono)
    show "thief_inv (sys_q s) (item_end s) (steal_limit (sys_owner s) (item_end s)) (sys_thieves s i)" using inv by (simp add: sys_inv_def)
    show "unat (ws_top (sys_q s)) < steal_limit pc (item_end s) \<or> steal_limit (sys_owner s) (item_end s) \<le> steal_limit pc (item_end s)"
      using l queue_invD(4) [OF qi] by (auto simp: q)
  qed (use queue_invD(4) [OF qi] in \<open>simp_all add: q\<close>)
  ultimately have "sys_inv k ?s" using pc(1) e by (simp add: sys_inv_def)
  moreover have "ws_items ?s = ws_items s" by (simp add: ws_items_def e) (simp add: q)
  ultimately show ?thesis using ev by (simp add: owner_moves_def)
qed

lemma event_list_simps [simp]: "event_list None = []" "event_list (Some e) = [e]"
  by (simp_all add: event_list_def)

lemma length_ws_items: "length (ws_items s) = item_end s - unat (ws_top (sys_q s))"
  by (simp add: ws_items_def)

lemma steal_limit_end: "steal_limit pc e = Suc e \<or> (\<exists>b t. pc = Pop4 b t \<and> t \<noteq> b - 1)"
  by (cases pc) auto

lemma owner_push2_ok:
  assumes inv: "sys_inv k s" and o: "sys_owner s = Push2 x b"
  shows "\<exists>q. ws_write b x (sys_q s) = Inr q \<and> owner_moves k s None (Push3 x b) q"
proof -
  let ?q = "sys_q s" and ?T = "unat (ws_top (sys_q s))"
  have qi: "queue_inv k ?q (item_end s)" using inv by (simp add: sys_inv_def)
  note Q = queue_invD [OF qi]
  have b: "b = ws_bottom ?q" "unat b < ?T + 2 ^ k" "item_end s = unat b"
    using inv o Q(5) by (auto simp: sys_inv_def item_end_def)
  obtain q where w: "ws_write b x ?q = Inr q" using Q(2,5) by (simp add: ws_write_def)
  then have f: "ws_top q = ws_top ?q" "ws_bottom q = ws_bottom ?q" "ws_capacity q = ws_capacity ?q" "length (ws_buffer q) = length (ws_buffer ?q)"
    by (auto simp: ws_write_def split: if_splits)
  note sl = slot_of_write [OF qi w]
  have keep: "slot_of q i = slot_of ?q i" if "?T \<le> i" "i < unat b" for i
    using mod_distinct [OF that b(2)] sl by simp
  let ?s = "s\<lparr>sys_q := q, sys_owner := Push3 x b\<rparr>"
  have e: "item_end ?s = unat b" by (simp add: item_end_def f b(1))
  have "queue_inv k q (unat b)" using qi f sl b(3) by (auto simp: queue_inv_def)
  moreover have "thief_inv q (unat b) (Suc (unat b)) (sys_thieves s i)" for i
  proof -
    have "thief_inv ?q (unat b) (Suc (unat b)) (sys_thieves s i)" using inv o b(3) by (auto simp: sys_inv_def)
    then show ?thesis using sl keep f(1) by (cases "sys_thieves s i") auto
  qed
  moreover have "owner_inv q (Push3 x b)" using b f sl Q(5) by simp
  ultimately have "sys_inv k ?s" using e by (auto simp: sys_inv_def)
  moreover have "ws_items ?s = ws_items s" unfolding ws_items_def e b(3) using items_cong [OF keep] by (simp add: f(1))
  ultimately show ?thesis using w by (simp add: owner_moves_def)
qed

lemma owner_push3_ok:
  assumes inv: "sys_inv k s" and o: "sys_owner s = Push3 x b" and small: "item_end s + 1 < 2 ^ 63"
  shows "owner_moves k s (Some (Pushed x True)) Idle ((sys_q s)\<lparr>ws_bottom := b + 1\<rparr>)"
proof -
  let ?q = "sys_q s" and ?T = "unat (ws_top (sys_q s))"
  have qi: "queue_inv k ?q (item_end s)" using inv by (simp add: sys_inv_def)
  note Q = queue_invD [OF qi]
  have b: "b = ws_bottom ?q" "unat b < ?T + 2 ^ k" "item_end s = unat b" "slot_of ?q (unat b) = Some x"
    using inv o Q(5) by (auto simp: sys_inv_def item_end_def)
  have b1: "unat (b + 1) = Suc (unat b)" using unat_inc63 [of b] small b(3) by simp
  let ?q' = "?q\<lparr>ws_bottom := b + 1\<rparr>"
  let ?s = "s\<lparr>sys_q := ?q', sys_owner := Idle\<rparr>"
  have e: "item_end ?s = Suc (unat b)" by (simp add: item_end_def b1)
  have "queue_inv k ?q' (Suc (unat b))" using qi small b(2-4) by (auto simp: queue_inv_def less_Suc_eq)
  moreover have "thief_inv ?q' (Suc (unat b)) (Suc (Suc (unat b))) (sys_thieves s i)" for i
    by (rule thief_inv_mono [where q = ?q and e = "unat b" and l = "Suc (unat b)"])
      (use inv o b(3) Q(4) in \<open>auto simp: sys_inv_def\<close>)
  ultimately have "sys_inv k ?s" using e by (simp add: sys_inv_def)
  moreover have "ws_items ?s = ws_items s @ [x]"
    unfolding ws_items_def e using b(3,4) Q(4) by (simp add: items_snoc)
  moreover have "length (ws_items s) < 2 ^ k" using b(2,3) Q(4) by (simp add: length_ws_items)
  ultimately show ?thesis by (simp add: owner_moves_def)
qed

lemma owner_pop4_ok:
  assumes inv: "sys_inv k s" and o: "sys_owner s = Pop4 b t"
  shows "\<exists>v. ws_read (b - 1) (sys_q s) = Inr v \<and>
     (if t \<noteq> b - 1 then owner_moves k s (Some (Popped (Some v))) Idle (sys_q s) else owner_moves k s None (Pop5 b t v) (sys_q s))"
proof -
  let ?q = "sys_q s" and ?T = "unat (ws_top (sys_q s))"
  have qi: "queue_inv k ?q (item_end s)" using inv by (simp add: sys_inv_def)
  note Q = queue_invD [OF qi]
  have b: "ws_bottom ?q = b - 1" "1 < unat b" "unat t < unat b" "t \<le> ws_top ?q" "t \<noteq> b - 1 \<Longrightarrow> ?T < unat b" "item_end s = unat b"
    using inv o by (auto simp: sys_inv_def item_end_def)
  have b1: "unat (b - 1) = unat b - 1" using b(2) by (simp add: unat_dec)
  have "0 < unat b - 1" "unat b - 1 < item_end s" using b(2,6) by simp_all
  then have "slot_of ?q (unat b - 1) \<noteq> None" using qi unfolding queue_inv_def by blast
  then obtain v where v: "slot_of ?q (unat b - 1) = Some v" by blast
  have rd: "ws_read (b - 1) ?q = Inr v" by (rule ws_read_ok [OF qi]) (simp only: b1 v)
  have same: "?q = ?q\<lparr>ws_bottom := ws_bottom ?q\<rparr>" by simp
  show ?thesis
  proof (cases "t = b - 1")
    case True
    then have "owner_moves k s None (Pop5 b t v) ?q" using b v by (intro owner_moves_local [OF inv _ _ _ same]) simp_all
    then show ?thesis using rd True by simp
  next
    case False
    let ?s = "s\<lparr>sys_q := ?q, sys_owner := Idle\<rparr>"
    have e: "item_end ?s = unat b - 1" by (simp add: item_end_def b(1) b1)
    have le: "?T \<le> unat b - 1" using b(5) [OF False] by simp
    have "queue_inv k ?q (unat b - 1)" using qi le b(6) by (auto simp: queue_inv_def)
    moreover have "thief_inv ?q (unat b - 1) (Suc (unat b - 1)) (sys_thieves s i)" for i
      by (rule thief_inv_mono [where q = ?q and e = "unat b" and l = "unat b - 1"])
        (use inv o b(6) le False in \<open>auto simp: sys_inv_def\<close>)
    ultimately have "sys_inv k ?s" using e by (simp add: sys_inv_def)
    moreover have "ws_items s = ws_items ?s @ [v]"
      unfolding ws_items_def e b(6) using items_snoc [OF le, of ?q] v b(2) by simp
    ultimately have "owner_moves k s (Some (Popped (Some v))) Idle ?q" by (simp add: owner_moves_def)
    then show ?thesis using rd False by simp
  qed
qed

lemma thief_inv_top:
  assumes "thief_inv q e l th" "unat (ws_top q + 1) = unat (ws_top q) + 1" "unat (ws_top q) < l' \<or> l \<le> l'"
  shows "thief_inv (q\<lparr>ws_top := ws_top q + 1\<rparr>) e l' th"
proof -
  have "t \<le> ws_top q + 1 \<and> t \<noteq> ws_top q + 1" if "t \<le> ws_top q" for t
    using that assms(2) by (auto simp: word_le_nat_alt)
  then show ?thesis using assms(1,3) by (cases th) (auto simp: word_le_nat_alt)
qed

lemma owner_pop5_ok:
  assumes inv: "sys_inv k s" and o: "sys_owner s = Pop5 b t v"
  shows "if ws_top (sys_q s) = t then owner_moves k s (Some (Popped (Some v))) (Restore b) ((sys_q s)\<lparr>ws_top := t + 1\<rparr>)
     else owner_moves k s (Some (Popped None)) (Restore b) (sys_q s)"
proof -
  let ?q = "sys_q s" and ?T = "unat (ws_top (sys_q s))"
  have qi: "queue_inv k ?q (item_end s)" using inv by (simp add: sys_inv_def)
  note Q = queue_invD [OF qi]
  have b: "ws_bottom ?q = b - 1" "1 < unat b" "t = b - 1" "t \<le> ws_top ?q" "slot_of ?q (unat b - 1) = Some v" "item_end s = unat b"
    using inv o by (auto simp: sys_inv_def item_end_def)
  have b1: "unat (b - 1) = unat b - 1" using b(2) by (simp add: unat_dec)
  show ?thesis
  proof (cases "ws_top ?q = t")
    case True
    let ?q' = "?q\<lparr>ws_top := t + 1\<rparr>"
    let ?s = "s\<lparr>sys_q := ?q', sys_owner := Restore b\<rparr>"
    have T: "?T = unat b - 1" "t + 1 = b" using True b(3) b1 by simp_all
    have e: "item_end ?s = unat b" by (simp add: item_end_def)
    have "queue_inv k ?q' (unat b)" using qi b(2,6) T by (simp add: queue_inv_def)
    moreover have "thief_inv ?q' (unat b) (Suc (unat b)) (sys_thieves s i)" for i
      using thief_inv_top [of ?q "unat b" "Suc (unat b)" "sys_thieves s i" "Suc (unat b)"] inv o b(6) Q(1) True by (simp add: sys_inv_def)
    moreover have "owner_inv ?q' (Restore b)" using b(1,2) T(2) by simp
    ultimately have "sys_inv k ?s" using e by (simp add: sys_inv_def)
    moreover have "ws_items s = [v]" unfolding ws_items_def b(6) using items_snoc [of "unat b - 1" "unat b - 1" ?q] T(1) b(2,5)
      by (simp add: items_between_def)
    moreover have "ws_items ?s = []" unfolding ws_items_def e using T by (simp add: items_between_def)
    ultimately show ?thesis using True by (simp add: owner_moves_def)
  next
    case False
    then have T: "?T = unat b" using b(2-4,6) b1 Q(4) by (auto simp: word_le_nat_alt word_unat_eq_iff)
    then have "length (ws_items s) = 0" by (simp add: length_ws_items b(6))
    then have "owner_moves k s (Some (Popped None)) (Restore b) ?q"
      using b T by (intro owner_moves_local [OF inv, where b = "ws_bottom ?q"]) simp_all
    then show ?thesis using False by simp
  qed
qed

lemma owner_step_ok:
  assumes inv: "sys_inv k s" and e: "item_end s + 1 < 2 ^ 63"
  shows "\<exists>ev pc q. owner_step (sys_q s) (sys_owner s) = Inr (ev, pc, q) \<and> owner_moves k s ev pc q"
proof -
  let ?q = "sys_q s" and ?o = "sys_owner s"
  have qi: "queue_inv k ?q (item_end s)" and oi: "owner_inv ?q ?o" using inv by (simp_all add: sys_inv_def)
  note Q = queue_invD [OF qi]
  have same: "?q = ?q\<lparr>ws_bottom := ws_bottom ?q\<rparr>" by simp
  show ?thesis
  proof (cases ?o)
    case Idle
    then show ?thesis using owner_moves_local [OF inv _ _ _ same, of Idle None] by (simp add: item_end_def)
  next
    case (Push1 x b)
    then have b: "b = ws_bottom ?q" "item_end s = unat b" using oi by (simp_all add: item_end_def)
    show ?thesis
    proof (cases "b \<ge> ws_top ?q + ws_capacity ?q")
      case True
      then have "length (ws_items s) = 2 ^ k" using b(2) Q(3) qi by (simp add: length_ws_items word_le_nat_alt queue_inv_def)
      then have "owner_moves k s (Some (Pushed x False)) Idle ?q" using b by (intro owner_moves_local [OF inv _ _ _ same]) simp_all
      then show ?thesis using Push1 True by simp
    next
      case False
      then have "unat b < unat (ws_top ?q) + length (ws_buffer ?q)" using Q(3,5) by (simp add: word_le_nat_alt)
      then have "owner_moves k s None (Push2 x b) ?q" using b by (intro owner_moves_local [OF inv _ _ _ same]) simp_all
      then show ?thesis using Push1 False by simp
    qed
  next
    case (Pop1 b)
    then have b: "b = ws_bottom ?q" "item_end s = unat b" using oi by (simp_all add: item_end_def)
    show ?thesis
    proof (cases "ws_top ?q \<ge> b")
      case True
      then have "length (ws_items s) = 0" using b(2) by (simp add: length_ws_items word_le_nat_alt)
      then have "owner_moves k s (Some (Popped None)) Idle ?q" using b by (intro owner_moves_local [OF inv _ _ _ same]) simp_all
      then show ?thesis using Pop1 True by simp
    next
      case False
      then have "1 < unat b" using qi by (simp add: word_le_nat_alt queue_inv_def)
      then have "owner_moves k s None (Pop2 b) ?q" using b by (intro owner_moves_local [OF inv _ _ _ same]) simp_all
      then show ?thesis using Pop1 False by simp
    qed
  next
    case (Pop2 b)
    then have b: "b = ws_bottom ?q" "1 < unat b" "item_end s = unat b" using oi by (auto simp: item_end_def)
    then have "owner_moves k s None (Pop3 b) (?q\<lparr>ws_bottom := b - 1\<rparr>)"
      by (intro owner_moves_local [OF inv _ _ _ refl]) simp_all
    then show ?thesis using Pop2 by simp
  next
    case (Pop3 b)
    then have b: "ws_bottom ?q = b - 1" "1 < unat b" "item_end s = unat b" using oi by (simp_all add: item_end_def)
    show ?thesis
    proof (cases "ws_top ?q > b - 1")
      case True
      then have t: "unat (ws_top ?q) = unat b" using b(2,3) Q(4) by (simp add: word_less_nat_alt unat_dec)
      then have "length (ws_items s) = 0" using b(3) by (simp add: length_ws_items)
      then have "owner_moves k s (Some (Popped None)) (Restore b) ?q" using b t by (intro owner_moves_local [OF inv _ _ _ same]) simp_all
      then show ?thesis using Pop3 True by simp
    next
      case False
      then have t: "unat (ws_top ?q) < unat b" "ws_top ?q \<noteq> b - 1 \<Longrightarrow> unat (ws_top ?q) < unat b - 1"
        using b(2) by (auto simp: word_less_nat_alt unat_dec word_unat_eq_iff)
      then have "owner_moves k s None (Pop4 b (ws_top ?q)) ?q" using b by (intro owner_moves_local [OF inv _ _ _ same]) auto
      then show ?thesis using Pop3 False by simp
    qed
  next
    case (Restore b)
    then have "owner_moves k s None Idle (?q\<lparr>ws_bottom := b\<rparr>)"
      using oi by (intro owner_moves_local [OF inv _ _ _ refl]) (simp_all add: item_end_def)
    then show ?thesis using Restore by simp
  next
    case (Push2 x b)
    then show ?thesis using owner_push2_ok [OF inv Push2] by auto
  next
    case (Push3 x b)
    then show ?thesis using owner_push3_ok [OF inv Push3 e] by simp
  next
    case (Pop4 b t)
    then show ?thesis using owner_pop4_ok [OF inv Pop4] by (auto split: if_splits)
  next
    case (Pop5 b t v)
    then show ?thesis using owner_pop5_ok [OF inv Pop5] by (auto split: if_splits)
  qed
qed

section \<open>The thieves' steps\<close>

definition thief_moves :: "nat \<Rightarrow> 'a ws_sys \<Rightarrow> nat \<Rightarrow> 'a event option \<Rightarrow> 'a thief \<Rightarrow> 'a wsq \<Rightarrow> bool" where
  "thief_moves k s i ev pc q \<longleftrightarrow> sys_inv k (s\<lparr>sys_q := q, sys_thieves := (sys_thieves s)(i := pc)\<rparr>) \<and>
     deque_run (2 ^ k) (event_list ev) (ws_items s) = Some (ws_items (s\<lparr>sys_q := q, sys_thieves := (sys_thieves s)(i := pc)\<rparr>))"

lemma thief_moves_local:
  assumes "sys_inv k s" "thief_inv (sys_q s) (item_end s) (steal_limit (sys_owner s) (item_end s)) pc"
    and "deque_run (2 ^ k) (event_list ev) (ws_items s) = Some (ws_items s)"
  shows "thief_moves k s i ev pc (sys_q s)"
  using assms by (simp add: thief_moves_def sys_inv_def ws_items_def item_end_def)

text \<open>A successful exchange takes the first item.\<close>

lemma thief_takes:
  assumes inv: "sys_inv k s" and th: "sys_thieves s i = Steal4 t v" and t: "ws_top (sys_q s) = t"
  shows "thief_moves k s i (Some (Stolen (Some v))) TIdle ((sys_q s)\<lparr>ws_top := t + 1\<rparr>)"
proof -
  let ?q = "sys_q s" and ?T = "unat (ws_top (sys_q s))" and ?e = "item_end s"
  have qi: "queue_inv k ?q ?e" and oi: "owner_inv ?q (sys_owner s)"
    and ti: "\<And>j. thief_inv ?q ?e (steal_limit (sys_owner s) ?e) (sys_thieves s j)" using inv by (simp_all add: sys_inv_def)
  note Q = queue_invD [OF qi]
  have lt: "?T < ?e" "slot_of ?q ?T = Some v" "?T < steal_limit (sys_owner s) ?e" using ti [of i] th t by auto
  let ?q' = "?q\<lparr>ws_top := ws_top ?q + 1\<rparr>"
  let ?s = "s\<lparr>sys_q := ?q', sys_thieves := (sys_thieves s)(i := TIdle)\<rparr>"
  have e: "item_end ?s = ?e" by (simp add: item_end_def)
  have "queue_inv k ?q' ?e" using qi lt(1) Q(1) by (auto simp: queue_inv_def)
  moreover have "thief_inv ?q' ?e (steal_limit (sys_owner s) ?e) (sys_thieves ?s j)" for j
    using thief_inv_top [OF ti [of j] Q(1)] by simp
  moreover have "owner_inv ?q' (sys_owner s)"
    using oi lt Q(1) by (cases "sys_owner s") (auto simp: word_le_nat_alt item_end_def)
  ultimately have "sys_inv k ?s" using e by (simp add: sys_inv_def)
  moreover have "ws_items s = v # ws_items ?s"
    using lt by (simp add: ws_items_def e items_Cons [OF lt(1)] Q(1))
  ultimately show ?thesis by (simp add: thief_moves_def flip: t)
qed

lemma thief_step_ok:
  assumes inv: "sys_inv k s"
  shows "\<exists>ev pc q. thief_step (sys_q s) (sys_thieves s i) = Inr (ev, pc, q) \<and> thief_moves k s i ev pc q"
proof -
  let ?q = "sys_q s" and ?e = "item_end s" and ?l = "steal_limit (sys_owner s) (item_end s)"
  have qi: "queue_inv k ?q ?e" and oi: "owner_inv ?q (sys_owner s)" and ti: "thief_inv ?q ?e ?l (sys_thieves s i)"
    using inv by (simp_all add: sys_inv_def)
  note Q = queue_invD [OF qi] and local = thief_moves_local [OF inv]
  have be: "unat (ws_bottom ?q) \<le> ?e" "?e \<le> unat (ws_bottom ?q) + 1" using bottom_end [OF oi] by (simp_all add: item_end_def)
  have fail: "thief_moves k s i (Some (Stolen None)) TIdle ?q" if "t \<le> ws_top ?q" "t \<ge> ws_bottom ?q" for t
  proof -
    have "?e \<le> unat (ws_top ?q) + 1" using be(2) that by (simp add: word_le_nat_alt)
    then show ?thesis by (intro local) (simp_all add: length_ws_items)
  qed
  show ?thesis
  proof (cases "sys_thieves s i")
    case TIdle
    then show ?thesis using local [of TIdle None i] by simp
  next
    case (Steal1 t)
    then have "thief_moves k s i None (Steal2 t) ?q" using ti by (intro local) simp_all
    then show ?thesis using Steal1 ti fail [of t] by simp
  next
    case (Steal2 t)
    have "thief_moves k s i None (Steal3 t) ?q" if b: "\<not> t \<ge> ws_bottom ?q"
    proof (intro local)
      have t: "0 < unat t" "unat t < unat (ws_bottom ?q)" using ti Steal2 b by (simp_all add: word_le_nat_alt word_less_nat_alt)
      then have "slot_of ?q (unat t) \<noteq> None" using qi be(1) unfolding queue_inv_def by fastforce
      moreover have "unat t < ?l" using t be(1) oi by (cases "sys_owner s") (auto simp: unat_dec)
      ultimately show "thief_inv ?q ?e ?l (Steal3 t)" using ti Steal2 t be(1) by auto
    qed simp
    then show ?thesis using Steal2 ti fail [of t] by simp
  next
    case (Steal3 t)
    then obtain v where v: "slot_of ?q (unat t) = Some v" using ti by auto
    then have "thief_moves k s i None (Steal4 t v) ?q" using ti Steal3 by (intro local) auto
    then show ?thesis using Steal3 ws_read_ok [OF qi v] by simp
  next
    case (Steal4 t v)
    have "thief_moves k s i None (Steal2 (ws_top ?q)) ?q" using qi by (intro local) (simp_all add: queue_inv_def word_less_nat_alt)
    then show ?thesis using Steal4 thief_takes [OF inv Steal4] by simp
  qed
qed

section \<open>Runs\<close>

lemma ws_step_ok:
  assumes inv: "sys_inv k s" and e: "item_end s + 1 < 2 ^ 63" and st: "ws_step s ev s'"
  shows "sys_inv k s' \<and> deque_run (2 ^ k) (event_list ev) (ws_items s) = Some (ws_items s') \<and> item_end s' \<le> item_end s + 1"
  using st
proof cases
  case (call_push x)
  then show ?thesis using owner_moves_local [OF inv, of "sys_q s" "Push1 x (ws_bottom (sys_q s))" "ws_bottom (sys_q s)" None]
    by (simp add: owner_moves_def item_end_def)
next
  case call_pop
  then show ?thesis using owner_moves_local [OF inv, of "sys_q s" "Pop1 (ws_bottom (sys_q s))" "ws_bottom (sys_q s)" None]
    by (simp add: owner_moves_def item_end_def)
next
  case (owner pc q)
  have "owner_moves k s ev pc q" using owner_step_ok [OF inv e] owner(2) by auto
  moreover have "item_end s' \<le> item_end s + 1"
  proof -
    have "owner_inv (sys_q s) (sys_owner s)" using inv by (simp add: sys_inv_def)
    then show ?thesis using owner e
      by (cases "sys_owner s") (auto simp: item_end_def unat_dec unat_inc63 ws_write_def split: if_splits elim!: res_bind_InrE)
  qed
  ultimately show ?thesis using owner(1) by (simp add: owner_moves_def)
next
  case (call_steal i)
  have "queue_inv k (sys_q s) (item_end s)" using inv by (simp add: sys_inv_def)
  then have "thief_inv (sys_q s) (item_end s) (steal_limit (sys_owner s) (item_end s)) (Steal1 (ws_top (sys_q s)))"
    by (simp add: queue_inv_def word_less_nat_alt)
  from thief_moves_local [OF inv this, of None i] show ?thesis using call_steal by (simp add: thief_moves_def item_end_def)
next
  case (thief i pc q)
  have "thief_moves k s i ev pc q" using thief_step_ok [OF inv, of i] thief(2) by auto
  moreover have "ws_bottom q = ws_bottom (sys_q s)"
    using thief(2) by (cases "sys_thieves s i") (auto split: if_splits elim!: res_bind_InrE)
  ultimately show ?thesis using thief(1) by (simp add: thief_moves_def item_end_def)
qed

lemma ws_run_ok:
  assumes "ws_run s0 n evs s" "sys_inv k s0" "item_end s0 + n < 2 ^ 63"
  shows "sys_inv k s \<and> deque_run (2 ^ k) evs (ws_items s0) = Some (ws_items s) \<and> item_end s \<le> item_end s0 + n"
  using assms
proof (induction rule: ws_run.induct)
  case start
  then show ?case by simp
next
  case (step n evs s ev s')
  then have IH: "sys_inv k s" "deque_run (2 ^ k) evs (ws_items s0) = Some (ws_items s)" "item_end s \<le> item_end s0 + n" by simp_all
  have "item_end s + 1 < 2 ^ 63" using IH(3) step.prems(2) by simp
  from ws_step_ok [OF IH(1) this step.hyps(2)] IH(2,3) show ?case by (simp add: deque_run_append)
qed

text \<open>The test for a power of two.\<close>

lemma pow2_test:
  assumes "c \<noteq> (0 :: u64)" "c AND (c - 1) = 0"
  shows "\<exists>k < 64. unat c = 2 ^ k"
proof -
  have pos: "0 < unat c" using assms(1) by (simp add: unat_gt_0)
  then obtain k where k: "2 ^ k \<le> unat c" "unat c < 2 ^ Suc k"
    using ex_power_ivl1 [of 2 "unat c"] by auto
  have lt: "unat c < 2 ^ 64" using unsigned_less [of c, where ?'a = nat] by simp
  have top: "bit w k" if "2 ^ k \<le> unat w" "unat w < 2 ^ Suc k" for w :: u64
  proof -
    have "unat w div 2 ^ k = 1" using that by (intro div_nat_eqI) simp_all
    then have "bit (unat w) k" by (simp add: bit_iff_odd)
    then show ?thesis by (simp add: bit_unsigned_iff)
  qed
  have "unat c = 2 ^ k"
  proof (rule ccontr)
    assume "unat c \<noteq> 2 ^ k"
    then have "bit (c - 1) k" using k unat_dec [OF pos] by (intro top) simp_all
    then have "bit (c AND (c - 1)) k" using top [OF k] by (simp add: bit_and_iff)
    then show False using assms(2) by simp
  qed
  moreover have "k < 64"
  proof -
    have "(2 :: nat) ^ k < 2 ^ 64" using k(1) lt by linarith
    then show ?thesis by (rule power_less_imp_less_exp [rotated]) simp
  qed
  ultimately show ?thesis by blast
qed

lemma ws_init_inv:
  assumes "ws_init mem capacity ws_new = (0, q)"
  shows "\<exists>k. unat capacity = 2 ^ k \<and> sys_inv k (ws_start q) \<and> item_end (ws_start q) = 1 \<and> ws_items (ws_start q) = []"
proof -
  have c: "capacity \<noteq> 0" "capacity AND (capacity - 1) = 0"
    and q: "q = \<lparr>ws_bottom = 1, ws_capacity = capacity, ws_buffer = replicate (unat capacity) None, ws_top = 1\<rparr>"
    using assms by (auto simp: ws_init_def ws_new_def split: if_splits)
  obtain k where k: "k < 64" "unat capacity = 2 ^ k" using pow2_test [OF c] by blast
  have "capacity = of_nat (2 ^ k)" using k(2) by (metis of_nat_unat ucast_id)
  then have "capacity = 2 ^ k" by simp
  then show ?thesis using k
    by (intro exI [of _ k]) (simp add: sys_inv_def queue_inv_def ws_start_def item_end_def ws_items_def items_between_def q)
qed

section \<open>Histories of the deque\<close>

fun pushed_items :: "'a event list \<Rightarrow> 'a list" where
  "pushed_items [] = []"
| "pushed_items (Pushed x True # evs) = x # pushed_items evs"
| "pushed_items (_ # evs) = pushed_items evs"

fun popped_items :: "'a event list \<Rightarrow> 'a list" where
  "popped_items [] = []"
| "popped_items (Popped (Some x) # evs) = x # popped_items evs"
| "popped_items (_ # evs) = popped_items evs"

fun stolen_items :: "'a event list \<Rightarrow> 'a list" where
  "stolen_items [] = []"
| "stolen_items (Stolen (Some x) # evs) = x # stolen_items evs"
| "stolen_items (_ # evs) = stolen_items evs"

lemma deque_conserves:
  "deque_run cap evs xs = Some ys \<Longrightarrow>
     mset xs + mset (pushed_items evs) = mset (popped_items evs) + mset (stolen_items evs) + mset ys \<and>
     subseq (stolen_items evs @ ys) (xs @ pushed_items evs)"
proof (induction cap evs xs rule: deque_run.induct)
  case (2 cap ev evs xs)
  then obtain zs where zs: "deque_event cap ev xs = Some zs" "deque_run cap evs zs = Some ys" by (auto split: option.splits)
  have IH: "mset zs + mset (pushed_items evs) = mset (popped_items evs) + mset (stolen_items evs) + mset ys"
    "subseq (stolen_items evs @ ys) (zs @ pushed_items evs)" using "2.IH" zs by auto
  show ?case
  proof (cases ev)
    case (Pushed x b)
    then show ?thesis using zs(1) IH by (cases b) (auto split: if_splits)
  next
    case (Popped r)
    show ?thesis
    proof (cases r)
      case (Some x)
      then have "xs = zs @ [x]" using zs(1) Popped by (auto split: if_splits)
      moreover have "subseq (zs @ pushed_items evs) (zs @ x # pushed_items evs)" by (intro list_emb_append_mono list_emb_Cons) simp_all
      ultimately show ?thesis using IH Popped Some subseq_order.order_trans by fastforce
    qed (use zs(1) IH Popped in \<open>auto split: if_splits\<close>)
  next
    case (Stolen r)
    then show ?thesis using zs(1) IH by (cases r; cases xs) (auto split: if_splits)
  qed
qed simp

section \<open>Runs from a new queue\<close>

lemma volatile_size_idle:
  assumes "sys_inv k s" "sys_owner s = Idle"
  shows "volatile_size (sys_q s) = of_nat (length (ws_items s))"
proof -
  let ?b = "ws_bottom (sys_q s)" and ?t = "ws_top (sys_q s)"
  have le: "unat ?t \<le> unat ?b" using assms by (simp add: sys_inv_def queue_inv_def item_end_def)
  then have "of_nat (unat ?b - unat ?t) = ?b - ?t" by (simp add: of_nat_diff)
  moreover have "?b \<le> ?t \<longleftrightarrow> ?b = ?t" using le by (auto simp: word_le_nat_alt word_unat_eq_iff [of ?b])
  ultimately show ?thesis using assms(2) by (simp add: volatile_size_def length_ws_items item_end_def)
qed

lemma new_queue_run:
  assumes "ws_init mem capacity ws_new = (0, q)" "ws_run (ws_start q) n evs s" "n < 2 ^ 62"
  shows "\<exists>k. unat capacity = 2 ^ k \<and> sys_inv k s \<and> deque_run (2 ^ k) evs [] = Some (ws_items s) \<and> item_end s + 1 < 2 ^ 63"
proof -
  obtain k where k: "unat capacity = 2 ^ k" "sys_inv k (ws_start q)" "item_end (ws_start q) = 1" "ws_items (ws_start q) = []"
    using ws_init_inv [OF assms(1)] by blast
  have r: "sys_inv k s" "deque_run (2 ^ k) evs [] = Some (ws_items s)" "item_end s \<le> 1 + n"
    using ws_run_ok [OF assms(2) k(2)] k(3,4) assms(3) by simp_all
  moreover have "item_end s + 1 < 2 ^ 63" using r(3) assms(3) by simp
  ultimately show ?thesis using k(1) by blast
qed

section \<open>Progress\<close>

text \<open>
  The owner never waits: whatever the others do to the queue between its steps, at most six of them end an
  operation.  A thief goes round its loop again only when somebody has taken an item since it loaded the top.
\<close>

fun owner_against :: "'a wsq list \<Rightarrow> 'a owner \<Rightarrow> 'a owner res" where
  "owner_against [] pc = Inr pc"
| "owner_against (q # qs) pc = res_bind (owner_step q pc) (\<lambda>(_, pc', _). owner_against qs pc')"

fun owner_rank :: "'a owner \<Rightarrow> nat" where
  "owner_rank Idle = 0"
| "owner_rank (Push1 _ _) = 3"
| "owner_rank (Push2 _ _) = 2"
| "owner_rank (Push3 _ _) = 1"
| "owner_rank (Pop1 _) = 6"
| "owner_rank (Pop2 _) = 5"
| "owner_rank (Pop3 _) = 4"
| "owner_rank (Pop4 _ _) = 3"
| "owner_rank (Pop5 _ _ _) = 2"
| "owner_rank (Restore _) = 1"

lemma owner_step_rank: "owner_step q pc = Inr (ev, pc', q') \<Longrightarrow> owner_rank pc' \<le> owner_rank pc - 1"
  by (cases pc) (auto split: if_splits elim!: res_bind_InrE)

lemma owner_against_rank: "owner_against qs pc = Inr pc' \<Longrightarrow> owner_rank pc' \<le> owner_rank pc - length qs"
proof (induction qs arbitrary: pc)
  case (Cons q qs)
  then obtain ev pc1 q1 where st: "owner_step q pc = Inr (ev, pc1, q1)" "owner_against qs pc1 = Inr pc'"
    by (auto elim!: res_bind_InrE)
  from Cons.IH [OF st(2)] owner_step_rank [OF st(1)] show ?case by simp
qed simp

lemma owner_operations_end: "owner_against qs pc = Inr pc' \<Longrightarrow> 6 \<le> length qs \<Longrightarrow> pc' = Idle"
proof -
  assume a: "owner_against qs pc = Inr pc'" "6 \<le> length qs"
  have "owner_rank pc \<le> 6" by (cases pc) simp_all
  then have "owner_rank pc' = 0" using owner_against_rank [OF a(1)] a(2) by simp
  then show ?thesis by (cases pc') simp_all
qed

lemma steal_retries_on_progress:
  assumes "sys_inv k s" "sys_thieves s i = Steal4 t v" "thief_step (sys_q s) (sys_thieves s i) = Inr (None, pc, q)"
  shows "pc = Steal2 (ws_top (sys_q s)) \<and> t < ws_top (sys_q s)"
proof -
  have "thief_inv (sys_q s) (item_end s) (steal_limit (sys_owner s) (item_end s)) (sys_thieves s i)" using assms(1) by (simp add: sys_inv_def)
  then show ?thesis using assms(2,3) by (auto split: if_splits)
qed

section \<open>Schedules\<close>

text \<open>A schedule picks the thread that moves next, and the call it makes when it is idle.\<close>

datatype 'a action = CallPush 'a | CallPop | OwnerMoves | CallSteal nat | ThiefMoves nat

fun ws_act :: "'a action \<Rightarrow> 'a ws_sys \<Rightarrow> ('a event option \<times> 'a ws_sys) option" where
  "ws_act (CallPush x) s = (case sys_owner s of Idle \<Rightarrow> Some (None, s\<lparr>sys_owner := Push1 x (ws_bottom (sys_q s))\<rparr>) | _ \<Rightarrow> None)"
| "ws_act CallPop s = (case sys_owner s of Idle \<Rightarrow> Some (None, s\<lparr>sys_owner := Pop1 (ws_bottom (sys_q s))\<rparr>) | _ \<Rightarrow> None)"
| "ws_act OwnerMoves s =
     (case owner_step (sys_q s) (sys_owner s) of Inl _ \<Rightarrow> None | Inr (ev, pc, q) \<Rightarrow> Some (ev, s\<lparr>sys_q := q, sys_owner := pc\<rparr>))"
| "ws_act (CallSteal i) s =
     (case sys_thieves s i of TIdle \<Rightarrow> Some (None, s\<lparr>sys_thieves := (sys_thieves s)(i := Steal1 (ws_top (sys_q s)))\<rparr>) | _ \<Rightarrow> None)"
| "ws_act (ThiefMoves i) s =
     (case thief_step (sys_q s) (sys_thieves s i) of
        Inl _ \<Rightarrow> None
      | Inr (ev, pc, q) \<Rightarrow> Some (ev, s\<lparr>sys_q := q, sys_thieves := (sys_thieves s)(i := pc)\<rparr>))"

fun ws_sched :: "'a action list \<Rightarrow> 'a event list \<Rightarrow> 'a ws_sys \<Rightarrow> ('a event list \<times> 'a ws_sys) option" where
  "ws_sched [] evs s = Some (evs, s)"
| "ws_sched (a # as) evs s =
     (case ws_act a s of None \<Rightarrow> None | Some (ev, s') \<Rightarrow> ws_sched as (evs @ event_list ev) s')"

lemma ws_act_step: "ws_act a s = Some (ev, s') \<Longrightarrow> ws_step s ev s'"
  by (cases a) (auto split: owner.splits thief.splits sum.splits intro: ws_step.intros)

lemma ws_step_act: "ws_step s ev s' \<Longrightarrow> \<exists>a. ws_act a s = Some (ev, s')"
proof (induction rule: ws_step.induct)
  case (call_push s x)
  then show ?case by (intro exI [of _ "CallPush x"]) simp
next
  case (call_pop s)
  then show ?case by (intro exI [of _ CallPop]) simp
next
  case (owner s ev pc q)
  then show ?case by (intro exI [of _ OwnerMoves]) simp
next
  case (call_steal s i)
  then show ?case by (intro exI [of _ "CallSteal i"]) simp
next
  case (thief s i ev pc q)
  then show ?case by (intro exI [of _ "ThiefMoves i"]) simp
qed

lemma ws_sched_run:
  "ws_run s0 n evs s \<Longrightarrow> ws_sched as evs s = Some (evs', s') \<Longrightarrow> ws_run s0 (n + length as) evs' s'"
proof (induction as arbitrary: n evs s)
  case (Cons a as)
  then obtain ev s1 where a: "ws_act a s = Some (ev, s1)" "ws_sched as (evs @ event_list ev) s1 = Some (evs', s')"
    by (auto split: option.splits)
  from Cons.IH [OF ws_run.step [OF Cons.prems(1) ws_act_step [OF a(1)]] a(2)] show ?case by simp
qed simp

text \<open>The last item, competed for by its owner and a thief; the thief wins, and the owner's next pop finds nothing.\<close>

definition demo_queue :: "nat wsq" where
  "demo_queue = snd (ws_init True 2 ws_new)"

definition demo_race :: "nat action list" where
  "demo_race =
     [CallPush 7, OwnerMoves, OwnerMoves, OwnerMoves, CallPush 8, OwnerMoves, OwnerMoves, OwnerMoves,
      CallPush 9, OwnerMoves, CallPop, OwnerMoves, OwnerMoves, OwnerMoves, OwnerMoves,
      CallSteal 0, ThiefMoves 0, ThiefMoves 0, ThiefMoves 0, CallPop, OwnerMoves, OwnerMoves, OwnerMoves, OwnerMoves,
      CallSteal 1, ThiefMoves 1, ThiefMoves 0, OwnerMoves, OwnerMoves]"

lemma demo_race_events:
  "map_option fst (ws_sched demo_race [] (ws_start demo_queue)) =
     Some [Pushed 7 True, Pushed 8 True, Pushed 9 False, Popped (Some 8), Stolen None, Stolen (Some 7), Popped None]"
  by code_simp

lemma demo_race_run:
  "\<exists>s. ws_run (ws_start demo_queue) 29
     [Pushed 7 True, Pushed 8 True, Pushed 9 False, Popped (Some 8), Stolen None, Stolen (Some 7), Popped None] s"
proof -
  obtain s where "ws_sched demo_race [] (ws_start demo_queue) =
      Some ([Pushed 7 True, Pushed 8 True, Pushed 9 False, Popped (Some 8), Stolen None, Stolen (Some 7), Popped None], s)"
    using demo_race_events by (auto simp: map_option_case split: option.splits)
  from ws_sched_run [OF ws_run.start this] have "ws_run (ws_start demo_queue) (0 + length demo_race)
     [Pushed 7 True, Pushed 8 True, Pushed 9 False, Popped (Some 8), Stolen None, Stolen (Some 7), Popped None] s" .
  moreover have "0 + length demo_race = 29" by (simp add: demo_race_def)
  ultimately show ?thesis by metis
qed

lemma demo_queue_init: "ws_init True 2 ws_new = (0, demo_queue)"
  by (simp add: demo_queue_def ws_init_def ws_new_def)

section \<open>Properties\<close>

text \<open>
C8: The work-stealing queue is a deque under every interleaving: in any run of fewer than \<open>2 ^ 62\<close> steps of one owner
and any number of thieves on a queue that \<open>init\<close> set up, no thread ever leaves the buffer or reads a slot that was
not written, and the results are those of a bounded double-ended queue: a push fails exactly when the
deque is full, a pop exactly when it is empty and otherwise takes the newest item, a steal takes the oldest item
and fails only when at most one is left.\<close>

theorem work_stealing_refines_deque:
  assumes "ws_init mem capacity ws_new = (0, q)" "ws_run (ws_start q) n evs s" "n < 2 ^ 62"
  shows "\<exists>xs. deque_run (unat capacity) evs [] = Some xs \<and>
     (\<exists>r. owner_step (sys_q s) (sys_owner s) = Inr r) \<and> (\<forall>i. \<exists>r. thief_step (sys_q s) (sys_thieves s i) = Inr r) \<and>
     (sys_owner s = Idle \<longrightarrow> volatile_size (sys_q s) = of_nat (length xs))"
proof -
  obtain k where k: "unat capacity = 2 ^ k" "sys_inv k s" "deque_run (2 ^ k) evs [] = Some (ws_items s)" "item_end s + 1 < 2 ^ 63"
    using new_queue_run [OF assms] by blast
  have "\<exists>r. owner_step (sys_q s) (sys_owner s) = Inr r" using owner_step_ok [OF k(2,4)] by blast
  moreover have "\<exists>r. thief_step (sys_q s) (sys_thieves s i) = Inr r" for i using thief_step_ok [OF k(2)] by blast
  ultimately show ?thesis using k(1,3) volatile_size_idle [OF k(2)] by auto
qed

theorem work_stealing_refines_deque_witness:
  "\<exists>xs. deque_run 2 [Pushed 7 True, Pushed 8 True, Pushed 9 False, Popped (Some 8), Stolen None, Stolen (Some 7), Popped None] [] = Some (xs :: nat list)"
proof -
  obtain s where "ws_run (ws_start demo_queue) 29
     [Pushed 7 True, Pushed 8 True, Pushed 9 False, Popped (Some 8), Stolen None, Stolen (Some 7), Popped None] s"
    using demo_race_run by blast
  from work_stealing_refines_deque [OF demo_queue_init this] show ?thesis by auto
qed

text \<open>
Every task runs exactly once: in any such run the items pushed are, with multiplicity, those popped, those stolen
and those still in the queue, and the thieves get theirs in the order in which they were pushed.\<close>

theorem items_taken_once:
  assumes "ws_init mem capacity ws_new = (0, q)" "ws_run (ws_start q) n evs s" "n < 2 ^ 62"
  shows "\<exists>xs. mset (pushed_items evs) = mset (popped_items evs) + mset (stolen_items evs) + mset xs \<and>
     subseq (stolen_items evs @ xs) (pushed_items evs) \<and>
     (sys_owner s = Idle \<longrightarrow> volatile_size (sys_q s) = 0 \<longrightarrow> xs = [])"
proof -
  obtain k where k: "sys_inv k s" "deque_run (2 ^ k) evs [] = Some (ws_items s)" "item_end s + 1 < 2 ^ 63"
    using new_queue_run [OF assms] by blast
  have "length (ws_items s) < 2 ^ 63" using k(3) by (simp add: length_ws_items)
  then have "unat (of_nat (length (ws_items s)) :: u64) = length (ws_items s)" by (simp add: unat_of_nat)
  then have "sys_owner s = Idle \<longrightarrow> volatile_size (sys_q s) = 0 \<longrightarrow> ws_items s = []"
    using volatile_size_idle [OF k(1)] by (metis length_0_conv unat_0)
  then show ?thesis using deque_conserves [OF k(2)] by auto
qed

theorem items_taken_once_witness:
  "\<exists>xs :: nat list. mset [7, 8] = mset [8] + mset [7] + mset xs \<and> subseq ([7] @ xs) [7, 8]"
proof -
  obtain s where "ws_run (ws_start demo_queue) 29
     [Pushed 7 True, Pushed 8 True, Pushed 9 False, Popped (Some 8), Stolen None, Stolen (Some 7), Popped None] s"
    using demo_race_run by blast
  from items_taken_once [OF demo_queue_init this] show ?thesis by auto
qed

end
