(* ===== verification/Recorder.thy ===== *)
theory Recorder
  imports TimeUtil "HOL-Library.Multiset"
begin

unbundle bit_operations_syntax

text \<open>
  \<^verbatim>\<open>bvar/recorder.h\<close> on \<^verbatim>\<open>bvar/detail/combiner.h\<close>: the recorder of averages.  Every thread that records has an
  agent, an atomic word that packs the number of its samples into 20 bits and their sum into 44 signed bits; the
  combiner holds what overflowed, what threads left behind that have quit, and the list of agents.  Its operations are
  interleaved: an atomic access is a step, what happens under the combiner's lock without touching the word of
  another thread is a step, and resetting visits one agent after the other while others record.
\<close>

section \<open>Packed words\<close>

definition SUM_BIT_WIDTH :: nat where
  "SUM_BIT_WIDTH = 44"

definition MAX_SUM_PER_THREAD :: u64 where
  "MAX_SUM_PER_THREAD = push_bit SUM_BIT_WIDTH 1 - 1"

definition MAX_NUM_PER_THREAD :: u64 where
  "MAX_NUM_PER_THREAD = push_bit (64 - SUM_BIT_WIDTH) 1 - 1"

definition get_sum :: "u64 \<Rightarrow> u64" where
  "get_sum n = n AND MAX_SUM_PER_THREAD"

definition get_num :: "u64 \<Rightarrow> u64" where
  "get_num n = drop_bit SUM_BIT_WIDTH n"

definition extend_sign_bit :: "u64 \<Rightarrow> int" where
  "extend_sign_bit sm = sint (((push_bit (64 - SUM_BIT_WIDTH + 1) 1 - 1) * (push_bit (SUM_BIT_WIDTH - 1) 1 AND sm)) OR sm)"

definition get_complement :: "int \<Rightarrow> u64" where
  "get_complement n = word_of_int n AND MAX_SUM_PER_THREAD"

definition compress :: "u64 \<Rightarrow> u64 \<Rightarrow> u64" where
  "compress num sm = push_bit SUM_BIT_WIDTH num OR (sm AND MAX_SUM_PER_THREAD)"

definition will_overflow :: "int \<Rightarrow> int \<Rightarrow> bool" where
  "will_overflow lhs rhs \<longleftrightarrow>
     (lhs > 0 \<and> rhs > 0 \<and> lhs + rhs > drop_bit 1 (sint MAX_SUM_PER_THREAD)) \<or>
     (lhs < 0 \<and> rhs < 0 \<and> lhs + rhs < - drop_bit 1 (sint MAX_SUM_PER_THREAD) - 1)"

text \<open>\<open>(int64_t)(int)sample != sample\<close>.\<close>

definition clamp_int :: "int \<Rightarrow> int" where
  "clamp_int sample =
     (if sint (word_of_int sample :: u32) \<noteq> sample then
        (if sample > 2 ^ 31 - 1 then 2 ^ 31 - 1 else - (2 ^ 31))
      else sample)"

lemma max_sum: "MAX_SUM_PER_THREAD = mask 44" "sint MAX_SUM_PER_THREAD = 2 ^ 44 - 1" "drop_bit 1 (sint MAX_SUM_PER_THREAD) = 2 ^ 43 - 1"
  by (simp_all add: MAX_SUM_PER_THREAD_def SUM_BIT_WIDTH_def mask_eq_exp_minus_1)

lemma max_num: "MAX_NUM_PER_THREAD = 2 ^ 20 - 1"
  by (simp add: MAX_NUM_PER_THREAD_def SUM_BIT_WIDTH_def)

lemma clamp_int_range: "- (2 ^ 31) \<le> clamp_int x" "clamp_int x < 2 ^ 31"
proof -
  have "- (2 ^ 31) \<le> sint (word_of_int x :: u32)" "sint (word_of_int x :: u32) < 2 ^ 31"
    using sint_greater_eq [of "word_of_int x :: u32"] sint_less [of "word_of_int x :: u32"] by simp_all
  then show "- (2 ^ 31) \<le> clamp_int x" "clamp_int x < 2 ^ 31" by (auto simp: clamp_int_def)
qed

lemma clamp_int_id: "- (2 ^ 31) \<le> x \<Longrightarrow> x < 2 ^ 31 \<Longrightarrow> clamp_int x = x"
proof -
  assume "- (2 ^ 31) \<le> x" "x < 2 ^ 31"
  then have "sint (word_of_int x :: u32) = x" by (simp add: sint_sbintrunc' signed_take_bit_int_eq_self)
  then show ?thesis by (simp add: clamp_int_def)
qed

text \<open>The trick with the multiplication is sign extension.\<close>

lemma exp_and: "(2 ^ k :: u64) AND w = (if bit w k then 2 ^ k else 0)"
  by (rule bit_eqI) (auto simp: bit_and_iff bit_exp_iff)

lemma extend_sign_bit_eq: "extend_sign_bit (get_sum n) = signed_take_bit 43 (uint n)"
proof -
  let ?s = "get_sum n"
  have "bit ?s 43 = bit n 43" by (simp add: get_sum_def max_sum bit_simps)
  then have "push_bit 43 1 AND ?s = (if bit n 43 then 2 ^ 43 else (0 :: u64))"
    using exp_and [of 43 ?s] by (simp add: push_bit_eq_mult)
  then have "(push_bit 21 1 - 1) * (push_bit 43 1 AND ?s) = (if bit n 43 then - (2 ^ 43) else (0 :: u64))" by simp
  moreover define M :: u64 where "M = - (2 ^ 43)"
  ultimately have e: "extend_sign_bit ?s = sint ((if bit n 43 then M else 0) OR ?s)"
    by (simp add: extend_sign_bit_def SUM_BIT_WIDTH_def)
  have M: "bit M i \<longleftrightarrow> i < 64 \<and> 43 \<le> i" for i unfolding M_def by (simp only: bit_minus_exp_iff) simp
  have s: "bit ?s i \<longleftrightarrow> i < 44 \<and> bit n i" for i by (auto simp: get_sum_def max_sum bit_simps)
  show ?thesis
    unfolding e
  proof (rule bit_eqI)
    fix i
    show "bit (sint ((if bit n 43 then M else 0) OR ?s)) i = bit (signed_take_bit 43 (uint n)) i"
    proof (cases "i = 43")
      case True
      then show ?thesis by (simp add: bit_sint_iff bit_signed_take_bit_iff bit_or_iff M s bit_uint_iff)
    next
      case False
      then show ?thesis by (auto simp: bit_sint_iff bit_signed_take_bit_iff bit_or_iff M s bit_uint_iff min_def)
    qed
  qed
qed

lemma get_num_compress: "unat num < 2 ^ 20 \<Longrightarrow> get_num (compress num sm) = num"
proof -
  assume "unat num < 2 ^ 20"
  then have "take_bit 20 num = num" by (simp add: word_unat_eq_iff unsigned_take_bit_eq take_bit_nat_eq_self)
  then have b: "bit num i \<Longrightarrow> i < 20" for i by (metis bit_take_bit_iff)
  show ?thesis
    by (rule bit_eqI) (auto simp: get_num_def compress_def SUM_BIT_WIDTH_def max_sum bit_simps dest: b)
qed

lemma get_sum_compress: "take_bit 44 (uint (compress num sm)) = take_bit 44 (uint sm)"
  by (rule bit_eqI) (auto simp: compress_def SUM_BIT_WIDTH_def max_sum bit_simps)

text \<open>Adding a sample to a packed word, when neither part overflows.\<close>

lemma signed_44_add:
  assumes "- (2 ^ 43) \<le> signed_take_bit 43 (uint n) + x" "signed_take_bit 43 (uint n) + x < 2 ^ 43"
  shows "signed_take_bit 43 (uint (compress num (get_sum n + get_complement x))) = signed_take_bit 43 (uint n) + x"
proof -
  let ?S = "signed_take_bit 43 (uint n)"
  have t: "take_bit 44 (uint (w AND MAX_SUM_PER_THREAD)) = take_bit 44 (uint w)" for w
    by (rule bit_eqI) (auto simp: max_sum bit_simps)
  have "take_bit 44 (uint (get_sum n + get_complement x)) = take_bit 44 (uint (get_sum n) + uint (get_complement x))"
    by (simp add: uint_word_ariths take_bit_eq_mod mod_mod_cancel)
  also have "\<dots> = take_bit 44 (take_bit 44 (uint n) + take_bit 44 (uint (word_of_int x :: u64)))"
    using t [of n] t [of "word_of_int x"] unfolding get_sum_def get_complement_def by (metis take_bit_add)
  also have "take_bit 44 (uint (word_of_int x :: u64)) = take_bit 44 x" by (simp add: unsigned_of_int)
  also have "take_bit 44 (uint n) = take_bit 44 ?S" by (simp add: take_bit_signed_take_bit)
  finally have "take_bit (Suc 43) (uint (compress num (get_sum n + get_complement x))) = take_bit (Suc 43) (?S + x)"
    by (simp add: get_sum_compress take_bit_add)
  then have "signed_take_bit 43 (uint (compress num (get_sum n + get_complement x))) = signed_take_bit 43 (?S + x)"
    by (simp only: signed_take_bit_eq_iff_take_bit_eq)
  then show ?thesis using assms by (simp add: signed_take_bit_int_eq_self)
qed

lemma no_overflow_range:
  assumes "\<not> will_overflow s x" "- (2 ^ 43) \<le> s" "s < 2 ^ 43" "- (2 ^ 31) \<le> x" "x < 2 ^ 31"
  shows "- (2 ^ 43) \<le> s + x \<and> s + x < 2 ^ 43"
  using assms unfolding will_overflow_def max_sum(3) by auto

section \<open>Statistics\<close>

record stat =
  st_sum :: int
  st_num :: int

definition zero_stat :: stat where
  "zero_stat = \<lparr>st_sum = 0, st_num = 0\<rparr>"

definition AddToStat :: "stat \<Rightarrow> u64 \<Rightarrow> stat res" where
  "AddToStat lhs rhs =
     res_bind (i64 (st_sum lhs + extend_sign_bit (get_sum rhs))) (\<lambda>sm.
       Inr \<lparr>st_sum = sm, st_num = sint (word_of_int (st_num lhs) + get_num rhs)\<rparr>)"

definition get_average_int :: "stat \<Rightarrow> int res" where
  "get_average_int s = (if st_num s = 0 then Inr 0 else i64 (sgn (st_num s) * cdiv (st_sum s) \<bar>st_num s\<bar>))"

lemma cdiv_abs_le: "0 < b \<Longrightarrow> \<bar>cdiv a b\<bar> \<le> \<bar>a\<bar>"
proof -
  assume b: "0 < b"
  have "0 \<le> x div b \<and> x div b \<le> x" if "0 \<le> x" for x :: int
    using that b zdiv_mono2 [of x 1 b] by (simp add: pos_imp_zdiv_nonneg_iff)
  from this [of a] this [of "- a"] show ?thesis by (auto simp: cdiv_def)
qed

definition plus_stat :: "stat \<Rightarrow> stat \<Rightarrow> stat" where
  "plus_stat a b = \<lparr>st_sum = st_sum a + st_sum b, st_num = st_num a + st_num b\<rparr>"

definition elem_stat :: "u64 \<Rightarrow> stat" where
  "elem_stat n = \<lparr>st_sum = signed_take_bit 43 (uint n), st_num = uint (get_num n)\<rparr>"

text \<open>The sum of \<open>n\<close> samples of type \<^verbatim>\<open>int\<close> is bounded.\<close>

definition stat_ok :: "stat \<Rightarrow> bool" where
  "stat_ok a \<longleftrightarrow> 0 \<le> st_num a \<and> \<bar>st_sum a\<bar> \<le> 2 ^ 31 * st_num a"

lemma stat_ok_plus: "stat_ok a \<Longrightarrow> stat_ok b \<Longrightarrow> stat_ok (plus_stat a b)"
  by (auto simp: stat_ok_def plus_stat_def)

lemma zero_stat_simps [simp]: "stat_ok zero_stat" "st_sum zero_stat = 0" "st_num zero_stat = 0" "elem_stat 0 = zero_stat"
  by (simp_all add: stat_ok_def zero_stat_def elem_stat_def get_num_def)

lemma get_average_int_ok:
  "stat_ok a \<Longrightarrow> st_num a < 2 ^ 32 \<Longrightarrow> get_average_int a = Inr (if st_num a = 0 then 0 else cdiv (st_sum a) (st_num a))"
proof -
  assume a: "stat_ok a" "st_num a < 2 ^ 32"
  show ?thesis
  proof (cases "st_num a = 0")
    case False
    then have "0 < st_num a" using a by (simp add: stat_ok_def)
    moreover from this have "\<bar>cdiv (st_sum a) (st_num a)\<bar> \<le> 2 ^ 31 * st_num a"
      using cdiv_abs_le [of "st_num a" "st_sum a"] a by (simp add: stat_ok_def)
    ultimately show ?thesis using a(2) by (simp add: get_average_int_def)
  qed (simp add: get_average_int_def)
qed

lemma AddToStat_ok:
  assumes "stat_ok g" "stat_ok (elem_stat n)" "st_num g + st_num (elem_stat n) < 2 ^ 32"
  shows "AddToStat g n = Inr (plus_stat g (elem_stat n))"
proof -
  have b: "\<bar>st_sum g + st_sum (elem_stat n)\<bar> \<le> 2 ^ 31 * (st_num g + st_num (elem_stat n))" "0 \<le> st_num g" "0 \<le> st_num (elem_stat n)"
    using stat_ok_plus [OF assms(1,2)] assms(1,2) by (simp_all add: stat_ok_def plus_stat_def)
  then have "\<bar>st_sum g + st_sum (elem_stat n)\<bar> < 2 ^ 63" using assms(3) by simp
  then have "i64 (st_sum g + st_sum (elem_stat n)) = Inr (st_sum g + st_sum (elem_stat n))" by (intro i64_ok) simp_all
  moreover have "sint (word_of_int (st_num g) + get_num n) = st_num g + st_num (elem_stat n)"
  proof -
    have "word_of_int (st_num g) + get_num n = (word_of_int (st_num g + st_num (elem_stat n)) :: u64)" by (simp add: elem_stat_def)
    moreover have "sint (word_of_int (st_num g + st_num (elem_stat n)) :: u64) = st_num g + st_num (elem_stat n)"
      unfolding sint_sbintrunc' by (rule signed_take_bit_int_eq_self) (use b assms(3) in simp_all)
    ultimately show ?thesis by (simp only:)
  qed
  ultimately show ?thesis by (simp add: AddToStat_def plus_stat_def elem_stat_def extend_sign_bit_eq)
qed

lemma elem_stat_record:
  assumes "\<not> num + 1 > MAX_NUM_PER_THREAD" "num = get_num n" "sm = get_sum n" "\<not> will_overflow (extend_sign_bit sm) x"
    and "- (2 ^ 31) \<le> x" "x < 2 ^ 31"
  shows "elem_stat (compress (num + 1) (sm + get_complement x)) = plus_stat (elem_stat n) \<lparr>st_sum = x, st_num = 1\<rparr>"
proof -
  let ?S = "signed_take_bit 43 (uint n)"
  have "- (2 ^ 43) \<le> ?S" "?S < 2 ^ 43" using signed_take_bit_int_greater_eq_minus_exp signed_take_bit_int_less_exp by blast+
  moreover have "\<not> will_overflow ?S x" using assms(3,4) by (simp only: extend_sign_bit_eq not_False_eq_True)
  ultimately have r: "- (2 ^ 43) \<le> ?S + x" "?S + x < 2 ^ 43" using no_overflow_range [OF _ _ _ assms(5,6)] by blast+
  have n20: "unat num < 2 ^ 20"
  proof -
    have "num = drop_bit 44 n" using assms(2) by (simp add: get_num_def SUM_BIT_WIDTH_def)
    then have "unat num = unat n div 2 ^ 44" by (simp only: unat_drop_bit)
    moreover have "unat n < 2 ^ 64" using unsigned_less [of n, where ?'a = nat] by simp
    ultimately show ?thesis by (simp add: less_mult_imp_div_less)
  qed
  then have u: "unat (num + 1) = unat num + 1" using unat_of_nat_add [of num 1] by simp
  then have "unat (num + 1) < 2 ^ 20" using assms(1) by (simp add: max_num word_less_nat_alt)
  then have "uint (get_num (compress (num + 1) (sm + get_complement x))) = uint num + 1"
    using u get_num_compress [of "num + 1"] by (simp only: uint_nat of_nat_add of_nat_1)
  then show ?thesis using signed_44_add [OF r] assms(2,3) by (simp add: elem_stat_def plus_stat_def)
qed

text \<open>Combining all agents, when nobody else is at work.\<close>

fun combine_agents :: "stat \<Rightarrow> nat list \<Rightarrow> (nat \<Rightarrow> u64) \<Rightarrow> stat res" where
  "combine_agents ret [] elem = Inr ret"
| "combine_agents ret (a # as) elem = res_bind (AddToStat ret (elem a)) (\<lambda>ret'. combine_agents ret' as elem)"

lemma combine_agents_ok:
  assumes "stat_ok ret" "\<And>a. a \<in> set as \<Longrightarrow> stat_ok (elem_stat (elem a))" "st_num ret + (\<Sum>a \<leftarrow> as. st_num (elem_stat (elem a))) < 2 ^ 32"
  shows "combine_agents ret as elem =
     Inr \<lparr>st_sum = st_sum ret + (\<Sum>a \<leftarrow> as. st_sum (elem_stat (elem a))), st_num = st_num ret + (\<Sum>a \<leftarrow> as. st_num (elem_stat (elem a)))\<rparr>"
  using assms
proof (induction as arbitrary: ret)
  case (Cons a as)
  have a: "stat_ok (elem_stat (elem a))" using Cons.prems(2) by simp
  have "0 \<le> (\<Sum>a \<leftarrow> as. st_num (elem_stat (elem a)))" using Cons.prems(2) by (intro sum_list_nonneg) (auto simp: stat_ok_def)
  then have "AddToStat ret (elem a) = Inr (plus_stat ret (elem_stat (elem a)))"
    using Cons.prems(3) by (intro AddToStat_ok [OF Cons.prems(1) a]) simp
  moreover have "combine_agents (plus_stat ret (elem_stat (elem a))) as elem =
      Inr \<lparr>st_sum = st_sum (plus_stat ret (elem_stat (elem a))) + (\<Sum>a \<leftarrow> as. st_sum (elem_stat (elem a))),
           st_num = st_num (plus_stat ret (elem_stat (elem a))) + (\<Sum>a \<leftarrow> as. st_num (elem_stat (elem a)))\<rparr>"
    by (rule Cons.IH) (use Cons.prems stat_ok_plus [OF Cons.prems(1) a] in \<open>auto simp: plus_stat_def\<close>)
  ultimately show ?case by (simp add: plus_stat_def)
qed simp

section \<open>Threads\<close>

text \<open>What a thread is doing: recording a sample, resetting, combining, or quitting.\<close>

datatype rec_pc =
    RIdle
  | Rec0 int                 \<comment> \<open>looking for its agent\<close>
  | Rec1 int                 \<comment> \<open>about to load its word\<close>
  | Rec2 int u64             \<comment> \<open>at the head of the loop, with \<open>n\<close>\<close>
  | Rec3 int u64 u64 u64     \<comment> \<open>about to exchange, with \<open>n\<close>, \<open>num\<close> and \<open>sum\<close>\<close>
  | Reset0
  | Reset1 stat "nat list"   \<comment> \<open>holds the lock; these agents are left\<close>
  | Comb0
  | Comb1 stat "nat list"    \<comment> \<open>holds the lock; these agents are left\<close>
  | Exit0

datatype rec_event = Recorded int | WasReset stat | Combined stat

record rec_sys =
  rs_global :: stat
  rs_agents :: "nat list"
  rs_elem :: "nat \<Rightarrow> u64"
  rs_lock :: "nat option"
  rs_pc :: "nat \<Rightarrow> rec_pc"

definition rs_start :: rec_sys where
  "rs_start = \<lparr>rs_global = zero_stat, rs_agents = [], rs_elem = (\<lambda>_. 0), rs_lock = None, rs_pc = (\<lambda>_. RIdle)\<rparr>"

definition goto :: "nat \<Rightarrow> rec_pc \<Rightarrow> rec_sys \<Rightarrow> rec_sys" where
  "goto t pc s = s\<lparr>rs_pc := (rs_pc s)(t := pc)\<rparr>"

definition set_elem :: "nat \<Rightarrow> u64 \<Rightarrow> rec_sys \<Rightarrow> rec_sys" where
  "set_elem t n s = s\<lparr>rs_elem := (rs_elem s)(t := n)\<rparr>"

text \<open>\<open>commit_and_clear\<close> and \<open>commit_and_erase\<close> of the agent of \<open>t\<close>.\<close>

definition commit_and_clear :: "nat \<Rightarrow> rec_sys \<Rightarrow> rec_sys res" where
  "commit_and_clear t s = res_bind (AddToStat (rs_global s) (rs_elem s t)) (\<lambda>g. Inr (set_elem t 0 (s\<lparr>rs_global := g\<rparr>)))"

definition commit_and_erase :: "nat \<Rightarrow> rec_sys \<Rightarrow> rec_sys res" where
  "commit_and_erase t s =
     res_bind (AddToStat (rs_global s) (rs_elem s t)) (\<lambda>g. Inr (s\<lparr>rs_global := g, rs_agents := remove1 t (rs_agents s)\<rparr>))"

definition new_agent :: "nat \<Rightarrow> rec_sys \<Rightarrow> rec_sys" where
  "new_agent t s = (set_elem t 0 s)\<lparr>rs_agents := rs_agents s @ [t]\<rparr>"

text \<open>
  The next step of thread \<open>t\<close>; \<open>None\<close> while it waits for the lock.  \<open>weak\<close> lets the weak exchange fail without
  a reason.
\<close>

definition rec_step :: "bool \<Rightarrow> nat \<Rightarrow> rec_sys \<Rightarrow> (rec_event option \<times> rec_sys) res option" where
  "rec_step weak t s =
     (case rs_pc s t of
        RIdle \<Rightarrow> None
      | Rec0 x \<Rightarrow>
          if t \<in> set (rs_agents s) then Some (Inr (None, goto t (Rec1 x) s))
          else if rs_lock s = None then Some (Inr (None, goto t (Rec1 x) (new_agent t s)))
          else None
      | Rec1 x \<Rightarrow> Some (Inr (None, goto t (Rec2 x (rs_elem s t)) s))
      | Rec2 x n \<Rightarrow>
          if get_num n + 1 > MAX_NUM_PER_THREAD \<or> will_overflow (extend_sign_bit (get_sum n)) x then
            (if rs_lock s = None then Some (res_bind (commit_and_clear t s) (\<lambda>s'. Inr (None, goto t (Rec3 x 0 0 0) s')))
             else None)
          else Some (Inr (None, goto t (Rec3 x n (get_num n) (get_sum n)) s))
      | Rec3 x n num sm \<Rightarrow>
          if \<not> weak \<and> rs_elem s t = n then
            Some (Inr (Some (Recorded x), goto t RIdle (set_elem t (compress (num + 1) (sm + get_complement x)) s)))
          else Some (Inr (None, goto t (Rec2 x (rs_elem s t)) s))
      | Reset0 \<Rightarrow>
          if rs_lock s = None then
            Some (Inr (None, goto t (Reset1 (rs_global s) (rs_agents s)) (s\<lparr>rs_lock := Some t, rs_global := zero_stat\<rparr>)))
          else None
      | Reset1 tmp [] \<Rightarrow> Some (Inr (Some (WasReset tmp), goto t RIdle (s\<lparr>rs_lock := None\<rparr>)))
      | Reset1 tmp (a # as) \<Rightarrow>
          Some (res_bind (AddToStat tmp (rs_elem s a)) (\<lambda>tmp'. Inr (None, goto t (Reset1 tmp' as) (set_elem a 0 s))))
      | Comb0 \<Rightarrow>
          if rs_lock s = None then Some (Inr (None, goto t (Comb1 (rs_global s) (rs_agents s)) (s\<lparr>rs_lock := Some t\<rparr>)))
          else None
      | Comb1 ret [] \<Rightarrow> Some (Inr (Some (Combined ret), goto t RIdle (s\<lparr>rs_lock := None\<rparr>)))
      | Comb1 ret (a # as) \<Rightarrow> Some (res_bind (AddToStat ret (rs_elem s a)) (\<lambda>ret'. Inr (None, goto t (Comb1 ret' as) s)))
      | Exit0 \<Rightarrow>
          if t \<notin> set (rs_agents s) then Some (Inr (None, goto t RIdle s))
          else if rs_lock s = None then Some (res_bind (commit_and_erase t s) (\<lambda>s'. Inr (None, goto t RIdle s')))
          else None)"

inductive rec_run :: "rec_event list \<Rightarrow> rec_sys \<Rightarrow> bool" where
  start: "rec_run [] rs_start"
| call: "rec_run evs s \<Longrightarrow> rs_pc s t = RIdle \<Longrightarrow> pc \<in> {Rec0 (clamp_int x), Reset0, Comb0, Exit0} \<Longrightarrow> rec_run evs (goto t pc s)"
| step: "rec_run evs s \<Longrightarrow> rec_step weak t s = Some (Inr (ev, s')) \<Longrightarrow> rec_run (evs @ (case ev of None \<Rightarrow> [] | Some e \<Rightarrow> [e])) s'"

section \<open>The invariant\<close>

text \<open>What a reset under way has collected.\<close>

definition in_reset :: "rec_sys \<Rightarrow> stat" where
  "in_reset s = (case rs_lock s of None \<Rightarrow> zero_stat | Some t \<Rightarrow> (case rs_pc s t of Reset1 tmp _ \<Rightarrow> tmp | _ \<Rightarrow> zero_stat))"

definition agents_sum :: "(stat \<Rightarrow> int) \<Rightarrow> nat set \<Rightarrow> rec_sys \<Rightarrow> int" where
  "agents_sum f A s = (\<Sum>a \<in> A. f (elem_stat (rs_elem s a)))"

definition all_stat :: "(stat \<Rightarrow> int) \<Rightarrow> rec_sys \<Rightarrow> int" where
  "all_stat f s = f (rs_global s) + agents_sum f (set (rs_agents s)) s + f (in_reset s)"

definition int_sample :: "int \<Rightarrow> bool" where
  "int_sample x \<longleftrightarrow> - (2 ^ 31) \<le> x \<and> x < 2 ^ 31"

fun pc_inv :: "rec_sys \<Rightarrow> nat \<Rightarrow> rec_pc \<Rightarrow> bool" where
  "pc_inv s t (Rec0 x) = int_sample x"
| "pc_inv s t (Rec1 x) = (int_sample x \<and> t \<in> set (rs_agents s))"
| "pc_inv s t (Rec2 x n) = (int_sample x \<and> t \<in> set (rs_agents s))"
| "pc_inv s t (Rec3 x n num sm) =
     (int_sample x \<and> t \<in> set (rs_agents s) \<and> num = get_num n \<and> sm = get_sum n \<and> \<not> num + 1 > MAX_NUM_PER_THREAD \<and>
      \<not> will_overflow (extend_sign_bit sm) x)"
| "pc_inv s t (Reset1 tmp as) = (rs_lock s = Some t \<and> stat_ok tmp \<and> set as \<subseteq> set (rs_agents s) \<and> distinct as)"
| "pc_inv s t (Comb1 ret as) =
     (rs_lock s = Some t \<and> stat_ok ret \<and> set as \<subseteq> set (rs_agents s) \<and> distinct as \<and>
      st_num ret + agents_sum st_num (set as) s \<le> all_stat st_num s)"
| "pc_inv s t _ = True"

fun holds_lock :: "rec_pc \<Rightarrow> bool" where
  "holds_lock (Reset1 _ _) = True"
| "holds_lock (Comb1 _ _) = True"
| "holds_lock _ = False"

definition rec_inv :: "rec_sys \<Rightarrow> bool" where
  "rec_inv s \<longleftrightarrow> distinct (rs_agents s) \<and> stat_ok (rs_global s) \<and> (\<forall>a \<in> set (rs_agents s). stat_ok (elem_stat (rs_elem s a))) \<and>
     (\<forall>t. pc_inv s t (rs_pc s t)) \<and> (\<forall>t. rs_lock s = Some t \<longrightarrow> holds_lock (rs_pc s t))"

definition additive :: "(stat \<Rightarrow> int) \<Rightarrow> bool" where
  "additive f \<longleftrightarrow> (\<forall>a b. f (plus_stat a b) = f a + f b) \<and> f zero_stat = 0"

lemma additive_fields: "additive st_sum" "additive st_num"
  by (simp_all add: additive_def plus_stat_def)

lemma agents_sum_cong: "rs_elem s' = rs_elem s \<Longrightarrow> agents_sum f A s' = agents_sum f A s"
  by (simp add: agents_sum_def)

lemma agents_sum_set:
  assumes "finite A" "t \<in> A"
  shows "agents_sum f A (set_elem t n s) = agents_sum f A s - f (elem_stat (rs_elem s t)) + f (elem_stat n)"
proof -
  have "(\<Sum>a \<in> A - {t}. f (elem_stat (((rs_elem s)(t := n)) a))) = (\<Sum>a \<in> A - {t}. f (elem_stat (rs_elem s a)))"
    by (rule sum.cong) auto
  then show ?thesis using assms by (simp add: agents_sum_def set_elem_def sum.remove [OF assms])
qed

lemma agents_sum_other: "t \<notin> A \<Longrightarrow> agents_sum f A (set_elem t n s) = agents_sum f A s"
  unfolding agents_sum_def by (rule sum.cong) (auto simp: set_elem_def)

lemma agents_sum_nonneg:
  assumes "rec_inv s" "A \<subseteq> set (rs_agents s)"
  shows "0 \<le> agents_sum st_num A s"
  using assms unfolding agents_sum_def by (intro sum_nonneg) (auto simp: rec_inv_def stat_ok_def)

lemma agents_sum_remove:
  "finite A \<Longrightarrow> t \<in> A \<Longrightarrow> agents_sum f A s = f (elem_stat (rs_elem s t)) + agents_sum f (A - {t}) s"
  by (simp add: agents_sum_def sum.remove)

lemma in_reset_ok:
  assumes "rec_inv s"
  shows "stat_ok (in_reset s)"
proof (cases "rs_lock s")
  case (Some t)
  have "pc_inv s t (rs_pc s t)" using assms by (simp add: rec_inv_def)
  then show ?thesis using Some by (cases "rs_pc s t") (auto simp: in_reset_def)
qed (simp add: in_reset_def)

text \<open>Two parts of the whole.\<close>

lemma parts_le:
  assumes "rec_inv s" "a \<in> set (rs_agents s)"
  shows "st_num (rs_global s) + st_num (elem_stat (rs_elem s a)) \<le> all_stat st_num s"
    and "st_num (in_reset s) + st_num (elem_stat (rs_elem s a)) \<le> all_stat st_num s"
proof -
  have "0 \<le> st_num (in_reset s)" using in_reset_ok [OF assms(1)] by (simp add: stat_ok_def)
  moreover have "0 \<le> st_num (rs_global s)" using assms(1) by (simp add: rec_inv_def stat_ok_def)
  moreover have "0 \<le> agents_sum st_num (set (rs_agents s) - {a}) s" by (rule agents_sum_nonneg [OF assms(1)]) auto
  ultimately show "st_num (rs_global s) + st_num (elem_stat (rs_elem s a)) \<le> all_stat st_num s"
    "st_num (in_reset s) + st_num (elem_stat (rs_elem s a)) \<le> all_stat st_num s"
    using agents_sum_remove [of "set (rs_agents s)" a st_num s] assms(2) by (simp_all add: all_stat_def)
qed

lemma sys_fields [simp]:
  "rs_global (goto t pc s) = rs_global s" "rs_agents (goto t pc s) = rs_agents s" "rs_elem (goto t pc s) = rs_elem s"
  "rs_lock (goto t pc s) = rs_lock s" "rs_pc (goto t pc s) = (rs_pc s)(t := pc)"
  "rs_global (set_elem t n s) = rs_global s" "rs_agents (set_elem t n s) = rs_agents s" "rs_elem (set_elem t n s) = (rs_elem s)(t := n)"
  "rs_lock (set_elem t n s) = rs_lock s" "rs_pc (set_elem t n s) = rs_pc s"
  by (simp_all add: goto_def set_elem_def)

section \<open>Steps\<close>

definition rec_moves :: "rec_sys \<Rightarrow> rec_event option \<Rightarrow> rec_sys \<Rightarrow> bool" where
  "rec_moves s ev s' \<longleftrightarrow> rec_inv s' \<and>
     (\<forall>f. additive f \<longrightarrow> all_stat f s' = all_stat f s +
        (case ev of Some (Recorded x) \<Rightarrow> f \<lparr>st_sum = x, st_num = 1\<rparr> | Some (WasReset r) \<Rightarrow> - f r | _ \<Rightarrow> 0))"

lemma rec_movesI:
  assumes "\<And>u. pc_inv s' u (rs_pc s' u)" "distinct (rs_agents s')" "stat_ok (rs_global s')"
    and "\<And>a. a \<in> set (rs_agents s') \<Longrightarrow> stat_ok (elem_stat (rs_elem s' a))"
    and "\<And>u. rs_lock s' = Some u \<Longrightarrow> holds_lock (rs_pc s' u)"
    and "\<And>f. additive f \<Longrightarrow> all_stat f s' = all_stat f s +
        (case ev of Some (Recorded x) \<Rightarrow> f \<lparr>st_sum = x, st_num = 1\<rparr> | Some (WasReset r) \<Rightarrow> - f r | _ \<Rightarrow> 0)"
  shows "rec_moves s ev s'"
  using assms by (simp add: rec_moves_def rec_inv_def)

text \<open>A thread that does not hold the lock is not disturbed by what others do.\<close>

lemma other_pc:
  assumes "rec_inv s" "rs_lock s \<noteq> Some u" "u \<in> set (rs_agents s') \<longleftrightarrow> u \<in> set (rs_agents s)"
  shows "pc_inv s' u (rs_pc s u)"
proof -
  have "pc_inv s u (rs_pc s u)" using assms(1) by (simp add: rec_inv_def)
  then show ?thesis using assms(2,3) by (cases "rs_pc s u") auto
qed

lemma not_holder: "rec_inv s \<Longrightarrow> \<not> holds_lock (rs_pc s t) \<Longrightarrow> rs_lock s \<noteq> Some t"
  by (auto simp: rec_inv_def)

lemma in_reset_goto: "rs_lock s \<noteq> Some t \<Longrightarrow> in_reset (goto t pc s) = in_reset s"
  by (auto simp: in_reset_def split: option.splits)

lemma pc_inv_cong:
  assumes "rs_agents s' = rs_agents s" "rs_lock s' = rs_lock s" "rs_elem s' = rs_elem s" "all_stat st_num s' = all_stat st_num s"
  shows "pc_inv s' t p = pc_inv s t p"
  using assms by (cases p) (simp_all add: agents_sum_def)

lemma goto_moves:
  assumes inv: "rec_inv s" and old: "\<not> holds_lock (rs_pc s t)" and pc: "\<not> holds_lock pc" "pc_inv s t pc"
  shows "rec_moves s None (goto t pc s)"
proof -
  have nl: "rs_lock s \<noteq> Some t" by (rule not_holder [OF inv old])
  have a: "all_stat f (goto t pc s) = all_stat f s" for f
    by (simp add: all_stat_def agents_sum_def in_reset_goto [OF nl])
  have "pc_inv (goto t pc s) u p = pc_inv s u p" for u p by (rule pc_inv_cong) (simp_all add: a)
  then have "rec_inv (goto t pc s)" using inv pc nl by (auto simp: rec_inv_def)
  then show ?thesis using a by (simp add: rec_moves_def)
qed

lemma commit_moves:
  assumes inv: "rec_inv s" and t: "t \<in> set (rs_agents s)" and l: "rs_lock s = None" and n: "all_stat st_num s < 2 ^ 32"
  shows "AddToStat (rs_global s) (rs_elem s t) = Inr (plus_stat (rs_global s) (elem_stat (rs_elem s t)))"
    and "stat_ok (plus_stat (rs_global s) (elem_stat (rs_elem s t)))"
proof -
  have ok: "stat_ok (rs_global s)" "stat_ok (elem_stat (rs_elem s t))" using inv t by (auto simp: rec_inv_def)
  show "AddToStat (rs_global s) (rs_elem s t) = Inr (plus_stat (rs_global s) (elem_stat (rs_elem s t)))"
    by (rule AddToStat_ok [OF ok]) (use parts_le(1) [OF inv t] n in linarith)
  show "stat_ok (plus_stat (rs_global s) (elem_stat (rs_elem s t)))" by (rule stat_ok_plus [OF ok])
qed

lemma new_agent_moves:
  assumes inv: "rec_inv s" and t: "t \<notin> set (rs_agents s)" and l: "rs_lock s = None" and x: "rs_pc s t = Rec0 x"
  shows "rec_moves s None (goto t (Rec1 x) (new_agent t s))"
proof -
  let ?s = "goto t (Rec1 x) (new_agent t s)"
  have f: "rs_agents ?s = rs_agents s @ [t]" "rs_elem ?s = (rs_elem s)(t := 0)" "rs_lock ?s = None" "rs_global ?s = rs_global s"
    "rs_pc ?s = (rs_pc s)(t := Rec1 x)" using l by (simp_all add: new_agent_def goto_def set_elem_def)
  have "all_stat g ?s = all_stat g s" if "additive g" for g
    using that t agents_sum_other [OF t, of g 0 s] l f
    by (simp add: all_stat_def in_reset_def agents_sum_def additive_def)
  moreover have "pc_inv ?s u (rs_pc ?s u)" for u
  proof (cases "u = t")
    case True
    have "pc_inv s t (Rec0 x)" using inv x by (auto simp: rec_inv_def dest: spec [of _ t])
    then show ?thesis using True f by simp
  next
    case False
    then show ?thesis using other_pc [OF inv, of u ?s] f l by auto
  qed
  ultimately show ?thesis by (intro rec_movesI) (use inv t f in \<open>auto simp: rec_inv_def simp del: sys_fields\<close>)
qed

lemma commit_and_clear_moves:
  assumes inv: "rec_inv s" and t: "t \<in> set (rs_agents s)" and l: "rs_lock s = None" and n: "all_stat st_num s < 2 ^ 32"
    and pc: "pc_inv s t pc" "\<not> holds_lock pc"
  shows "\<exists>s'. commit_and_clear t s = Inr s' \<and> rec_moves s None (goto t pc s')"
proof -
  note c = commit_moves [OF inv t l n]
  define s' where "s' = set_elem t 0 (s\<lparr>rs_global := plus_stat (rs_global s) (elem_stat (rs_elem s t))\<rparr>)"
  let ?s = "goto t pc s'"
  have f: "rs_agents ?s = rs_agents s" "rs_elem ?s = (rs_elem s)(t := 0)" "rs_lock ?s = None"
    "rs_global ?s = plus_stat (rs_global s) (elem_stat (rs_elem s t))" "rs_pc ?s = (rs_pc s)(t := pc)"
    using l by (simp_all add: s'_def goto_def set_elem_def)
  have "all_stat g ?s = all_stat g s" if "additive g" for g
    using that agents_sum_set [of "set (rs_agents s)" t g 0 s] t l f
    by (simp add: all_stat_def in_reset_def agents_sum_def additive_def)
  moreover have "pc_inv ?s u (rs_pc ?s u)" for u
  proof (cases "u = t")
    case True
    then show ?thesis using pc f by (cases pc) auto
  next
    case False
    then show ?thesis using other_pc [OF inv, of u ?s] f l by auto
  qed
  ultimately have "rec_moves s None ?s" by (intro rec_movesI) (use inv f c(2) in \<open>auto simp: rec_inv_def simp del: sys_fields\<close>)
  then show ?thesis using c(1) by (simp add: commit_and_clear_def s'_def)
qed

lemma commit_and_erase_moves:
  assumes inv: "rec_inv s" and t: "t \<in> set (rs_agents s)" and l: "rs_lock s = None" and n: "all_stat st_num s < 2 ^ 32"
  shows "\<exists>s'. commit_and_erase t s = Inr s' \<and> rec_moves s None (goto t RIdle s')"
proof -
  note c = commit_moves [OF inv t l n]
  define s' where "s' = s\<lparr>rs_global := plus_stat (rs_global s) (elem_stat (rs_elem s t)), rs_agents := remove1 t (rs_agents s)\<rparr>"
  let ?s = "goto t RIdle s'"
  have d: "distinct (rs_agents s)" using inv by (simp add: rec_inv_def)
  have f: "set (rs_agents ?s) = set (rs_agents s) - {t}" "distinct (rs_agents ?s)" "rs_elem ?s = rs_elem s" "rs_lock ?s = None"
    "rs_global ?s = plus_stat (rs_global s) (elem_stat (rs_elem s t))" "rs_pc ?s = (rs_pc s)(t := RIdle)"
    using l d by (simp_all add: s'_def goto_def)
  have "all_stat g ?s = all_stat g s" if "additive g" for g
    using that agents_sum_remove [of "set (rs_agents s)" t g s] t l f
    by (simp add: all_stat_def in_reset_def agents_sum_def additive_def)
  moreover have "pc_inv ?s u (rs_pc ?s u)" for u
    using other_pc [OF inv, of u ?s] f l by (cases "u = t") auto
  ultimately have "rec_moves s None ?s" by (intro rec_movesI) (use inv f c(2) in \<open>auto simp: rec_inv_def simp del: sys_fields\<close>)
  then show ?thesis using c(1) by (simp add: commit_and_erase_def s'_def)
qed

lemma record_moves:
  assumes inv: "rec_inv s" and pc: "rs_pc s t = Rec3 x (rs_elem s t) num sm"
  shows "rec_moves s (Some (Recorded x)) (goto t RIdle (set_elem t (compress (num + 1) (sm + get_complement x)) s))"
proof -
  let ?n = "rs_elem s t" and ?v = "compress (num + 1) (sm + get_complement x)"
  let ?s = "goto t RIdle (set_elem t ?v s)"
  have p: "pc_inv s t (Rec3 x ?n num sm)" using inv pc by (auto simp: rec_inv_def dest: spec [of _ t])
  then have t: "t \<in> set (rs_agents s)" and x: "- (2 ^ 31) \<le> x" "x < 2 ^ 31" by (simp_all add: int_sample_def)
  have v: "elem_stat ?v = plus_stat (elem_stat ?n) \<lparr>st_sum = x, st_num = 1\<rparr>"
    using p by (intro elem_stat_record [OF _ _ _ _ x]) auto
  have "stat_ok \<lparr>st_sum = x, st_num = 1\<rparr>" using x by (auto simp: stat_ok_def)
  then have vok: "stat_ok (elem_stat ?v)" unfolding v using inv t by (intro stat_ok_plus) (auto simp: rec_inv_def)
  have nl: "rs_lock s \<noteq> Some t" using not_holder [OF inv, of t] pc by simp
  have ag: "agents_sum g A ?s = agents_sum g A s + (if t \<in> A then g \<lparr>st_sum = x, st_num = 1\<rparr> else 0)" if "additive g" "finite A" for g A
    using that agents_sum_set [OF that(2), of t g ?v s] agents_sum_other [of t A g ?v s] v by (simp add: agents_sum_def additive_def)
  have ir: "in_reset ?s = in_reset s" using nl by (auto simp: in_reset_def split: option.splits)
  have all: "all_stat g ?s = all_stat g s + g \<lparr>st_sum = x, st_num = 1\<rparr>" if "additive g" for g
    using ag [OF that, of "set (rs_agents s)"] t ir by (simp add: all_stat_def)
  have "pc_inv ?s u (rs_pc ?s u)" for u
  proof (cases "u = t")
    case False
    have "pc_inv s u (rs_pc s u)" using inv by (simp add: rec_inv_def)
    then have "pc_inv ?s u (rs_pc s u)"
      using all [OF additive_fields(2)] ag [OF additive_fields(2)] by (cases "rs_pc s u") auto
    then show ?thesis using False by simp
  qed simp
  then show ?thesis by (rule rec_movesI) (use inv vok nl all in \<open>auto simp: rec_inv_def\<close>)
qed

text \<open>Steps that hold, take or release the lock.\<close>

lemma locked_moves:
  assumes inv: "rec_inv s" and old: "rs_lock s = None \<or> rs_lock s = Some t" and pc: "pc_inv s' t (rs_pc s' t)"
    and f: "rs_agents s' = rs_agents s" "\<And>u. u \<noteq> t \<Longrightarrow> rs_pc s' u = rs_pc s u" "stat_ok (rs_global s')"
      "\<And>a. a \<in> set (rs_agents s) \<Longrightarrow> stat_ok (elem_stat (rs_elem s' a))"
      "rs_lock s' = None \<or> rs_lock s' = Some t \<and> holds_lock (rs_pc s' t)"
    and all: "\<And>f. additive f \<Longrightarrow> all_stat f s' = all_stat f s +
        (case ev of Some (Recorded x) \<Rightarrow> f \<lparr>st_sum = x, st_num = 1\<rparr> | Some (WasReset r) \<Rightarrow> - f r | _ \<Rightarrow> 0)"
  shows "rec_moves s ev s'"
proof (rule rec_movesI)
  show "pc_inv s' u (rs_pc s' u)" for u
    using pc other_pc [OF inv, of u s'] old f(1,2) by (cases "u = t") auto
qed (use inv f all in \<open>auto simp: rec_inv_def\<close>)

lemma reset_moves:
  assumes inv: "rec_inv s" and n: "all_stat st_num s < 2 ^ 32"
  shows "rs_pc s t = Reset0 \<Longrightarrow> rs_lock s = None \<Longrightarrow>
       rec_moves s None (goto t (Reset1 (rs_global s) (rs_agents s)) (s\<lparr>rs_lock := Some t, rs_global := zero_stat\<rparr>))"
    and "rs_pc s t = Reset1 tmp [] \<Longrightarrow> rec_moves s (Some (WasReset tmp)) (goto t RIdle (s\<lparr>rs_lock := None\<rparr>))"
    and "rs_pc s t = Reset1 tmp (a # as) \<Longrightarrow>
       \<exists>tmp'. AddToStat tmp (rs_elem s a) = Inr tmp' \<and> rec_moves s None (goto t (Reset1 tmp' as) (set_elem a 0 s))"
proof -
  have pi: "pc_inv s t (rs_pc s t)" and g: "stat_ok (rs_global s)" "distinct (rs_agents s)" using inv by (simp_all add: rec_inv_def)
  have el: "\<And>a. a \<in> set (rs_agents s) \<Longrightarrow> stat_ok (elem_stat (rs_elem s a))" using inv by (simp add: rec_inv_def)
  show "rec_moves s None (goto t (Reset1 (rs_global s) (rs_agents s)) (s\<lparr>rs_lock := Some t, rs_global := zero_stat\<rparr>))"
    if "rs_pc s t = Reset0" "rs_lock s = None"
    by (rule locked_moves [OF inv, of t])
      (use that g el in \<open>auto simp: goto_def all_stat_def in_reset_def agents_sum_def additive_def\<close>)
  show "rec_moves s (Some (WasReset tmp)) (goto t RIdle (s\<lparr>rs_lock := None\<rparr>))" if "rs_pc s t = Reset1 tmp []"
    by (rule locked_moves [OF inv, of t])
      (use that pi g el in \<open>auto simp: goto_def all_stat_def in_reset_def agents_sum_def additive_def\<close>)
  show "\<exists>tmp'. AddToStat tmp (rs_elem s a) = Inr tmp' \<and> rec_moves s None (goto t (Reset1 tmp' as) (set_elem a 0 s))"
    if pc: "rs_pc s t = Reset1 tmp (a # as)"
  proof -
    have l: "rs_lock s = Some t" "stat_ok tmp" "a \<in> set (rs_agents s)" "set as \<subseteq> set (rs_agents s)" "distinct as" using pi pc by auto
    have ir: "in_reset s = tmp" using l pc by (simp add: in_reset_def)
    have add: "AddToStat tmp (rs_elem s a) = Inr (plus_stat tmp (elem_stat (rs_elem s a)))"
      by (rule AddToStat_ok [OF l(2) el [OF l(3)]]) (use parts_le(2) [OF inv l(3)] n ir in simp)
    have "all_stat f (goto t (Reset1 (plus_stat tmp (elem_stat (rs_elem s a))) as) (set_elem a 0 s)) = all_stat f s" if "additive f" for f
      using that agents_sum_set [of "set (rs_agents s)" a f 0 s] l(1,3) ir
      by (simp add: all_stat_def in_reset_def agents_sum_def additive_def)
    then have "rec_moves s None (goto t (Reset1 (plus_stat tmp (elem_stat (rs_elem s a))) as) (set_elem a 0 s))"
      by (intro locked_moves [OF inv, of t]) (use l g el stat_ok_plus [OF l(2) el [OF l(3)]] in auto)
    then show ?thesis using add by blast
  qed
qed

lemma combine_moves:
  assumes inv: "rec_inv s" and n: "all_stat st_num s < 2 ^ 32"
  shows "rs_pc s t = Comb0 \<Longrightarrow> rs_lock s = None \<Longrightarrow>
       rec_moves s None (goto t (Comb1 (rs_global s) (rs_agents s)) (s\<lparr>rs_lock := Some t\<rparr>))"
    and "rs_pc s t = Comb1 ret [] \<Longrightarrow> rec_moves s (Some (Combined ret)) (goto t RIdle (s\<lparr>rs_lock := None\<rparr>))"
    and "rs_pc s t = Comb1 ret (a # as) \<Longrightarrow>
       \<exists>ret'. AddToStat ret (rs_elem s a) = Inr ret' \<and> rec_moves s None (goto t (Comb1 ret' as) s)"
proof -
  have pi: "pc_inv s t (rs_pc s t)" and g: "stat_ok (rs_global s)" "distinct (rs_agents s)" using inv by (simp_all add: rec_inv_def)
  have el: "\<And>a. a \<in> set (rs_agents s) \<Longrightarrow> stat_ok (elem_stat (rs_elem s a))" using inv by (simp add: rec_inv_def)
  show "rec_moves s None (goto t (Comb1 (rs_global s) (rs_agents s)) (s\<lparr>rs_lock := Some t\<rparr>))"
    if "rs_pc s t = Comb0" "rs_lock s = None"
    by (rule locked_moves [OF inv, of t])
      (use that g el in \<open>auto simp: goto_def all_stat_def in_reset_def agents_sum_def additive_def\<close>)
  show "rec_moves s (Some (Combined ret)) (goto t RIdle (s\<lparr>rs_lock := None\<rparr>))" if "rs_pc s t = Comb1 ret []"
    by (rule locked_moves [OF inv, of t])
      (use that pi g el in \<open>auto simp: goto_def all_stat_def in_reset_def agents_sum_def additive_def\<close>)
  show "\<exists>ret'. AddToStat ret (rs_elem s a) = Inr ret' \<and> rec_moves s None (goto t (Comb1 ret' as) s)"
    if pc: "rs_pc s t = Comb1 ret (a # as)"
  proof -
    have l: "rs_lock s = Some t" "stat_ok ret" "a \<in> set (rs_agents s)" "set as \<subseteq> set (rs_agents s)" "distinct as" "a \<notin> set as"
      and le: "st_num ret + agents_sum st_num (set (a # as)) s \<le> all_stat st_num s" using pi pc by auto
    have as: "agents_sum st_num (set (a # as)) s = st_num (elem_stat (rs_elem s a)) + agents_sum st_num (set as) s"
      using l(6) by (simp add: agents_sum_def)
    have "0 \<le> agents_sum st_num (set as) s" by (rule agents_sum_nonneg [OF inv l(4)])
    then have add: "AddToStat ret (rs_elem s a) = Inr (plus_stat ret (elem_stat (rs_elem s a)))"
      by (intro AddToStat_ok [OF l(2) el [OF l(3)]]) (use as le n in linarith)
    let ?s = "goto t (Comb1 (plus_stat ret (elem_stat (rs_elem s a))) as) s"
    have all: "all_stat f ?s = all_stat f s" for f
      using l(1) pc by (simp add: all_stat_def in_reset_def agents_sum_def)
    have "pc_inv ?s t (rs_pc ?s t)"
      using l stat_ok_plus [OF l(2) el [OF l(3)]] le as all by (simp add: plus_stat_def agents_sum_def)
    then have "rec_moves s None ?s" by (intro locked_moves [OF inv, of t]) (use l g el all in auto)
    then show ?thesis using add by blast
  qed
qed

lemma rec_step_ok:
  assumes inv: "rec_inv s" and n: "all_stat st_num s < 2 ^ 32" and st: "rec_step weak t s = Some r"
  shows "\<exists>ev s'. r = Inr (ev, s') \<and> rec_moves s ev s'"
proof -
  have pi: "pc_inv s t (rs_pc s t)" using inv by (simp add: rec_inv_def)
  note local = goto_moves [OF inv, of t]
  show ?thesis
  proof (cases "rs_pc s t")
    case RIdle
    then show ?thesis using st by (simp add: rec_step_def)
  next
    case (Rec0 x)
    then show ?thesis using st pi local [of "Rec1 x"] new_agent_moves [OF inv _ _ Rec0] by (auto simp: rec_step_def split: if_splits)
  next
    case (Rec1 x)
    then show ?thesis using st pi local [of "Rec2 x (rs_elem s t)"] by (auto simp: rec_step_def)
  next
    case (Rec2 x m)
    have z: "pc_inv s t (Rec3 x 0 0 0)" using pi Rec2
      by (simp add: get_num_def get_sum_def max_num extend_sign_bit_def will_overflow_def)
    show ?thesis
      using st pi Rec2 local [of "Rec3 x m (get_num m) (get_sum m)"] commit_and_clear_moves [OF inv _ _ n z]
      by (auto simp: rec_step_def split: if_splits)
  next
    case (Rec3 x m num sm)
    then show ?thesis using st pi local [of "Rec2 x (rs_elem s t)"] record_moves [OF inv, of t x num sm]
      by (auto simp: rec_step_def split: if_splits)
  next
    case Reset0
    then show ?thesis using st reset_moves(1) [OF inv n Reset0] by (auto simp: rec_step_def split: if_splits)
  next
    case (Reset1 tmp as)
    then show ?thesis using st reset_moves(2,3) [OF inv n, of t tmp] by (cases as) (auto simp: rec_step_def)
  next
    case Comb0
    then show ?thesis using st combine_moves(1) [OF inv n Comb0] by (auto simp: rec_step_def split: if_splits)
  next
    case (Comb1 ret as)
    then show ?thesis using st combine_moves(2,3) [OF inv n, of t ret] by (cases as) (auto simp: rec_step_def)
  next
    case Exit0
    then show ?thesis using st local [of RIdle] commit_and_erase_moves [OF inv _ _ n, of t] by (auto simp: rec_step_def split: if_splits)
  qed
qed

section \<open>Runs\<close>

fun recorded :: "rec_event list \<Rightarrow> int list" where
  "recorded [] = []"
| "recorded (Recorded x # evs) = x # recorded evs"
| "recorded (_ # evs) = recorded evs"

fun reset_results :: "rec_event list \<Rightarrow> stat list" where
  "reset_results [] = []"
| "reset_results (WasReset r # evs) = r # reset_results evs"
| "reset_results (_ # evs) = reset_results evs"

lemma recorded_append [simp]: "recorded (evs @ evs') = recorded evs @ recorded evs'"
  by (induction evs rule: recorded.induct) simp_all

lemma reset_results_append [simp]: "reset_results (evs @ evs') = reset_results evs @ reset_results evs'"
  by (induction evs rule: reset_results.induct) simp_all

lemma reset_results_one: "r \<in> set (reset_results [e]) \<longleftrightarrow> e = WasReset r"
  by (cases e) auto

definition samples_stat :: "(stat \<Rightarrow> int) \<Rightarrow> int list \<Rightarrow> int" where
  "samples_stat f xs = (\<Sum>x \<leftarrow> xs. f \<lparr>st_sum = x, st_num = 1\<rparr>)"

lemma rs_start_inv: "rec_inv rs_start" "additive f \<Longrightarrow> all_stat f rs_start = 0"
  by (simp_all add: rec_inv_def rs_start_def all_stat_def agents_sum_def in_reset_def additive_def)

lemma rec_run_inv:
  "rec_run evs s \<Longrightarrow> length (recorded evs) < 2 ^ 32 \<Longrightarrow>
     rec_inv s \<and> (\<forall>r \<in> set (reset_results evs). 0 \<le> st_num r) \<and>
     (\<forall>f. additive f \<longrightarrow> all_stat f s + (\<Sum>r \<leftarrow> reset_results evs. f r) = samples_stat f (recorded evs))"
proof (induction rule: rec_run.induct)
  case start
  then show ?case by (simp add: rs_start_inv samples_stat_def)
next
  case (call evs s t pc x)
  then have "rec_inv s" by simp
  moreover have "pc_inv s t pc" using call.hyps(3) clamp_int_range [of x] by (auto simp: int_sample_def)
  ultimately have "rec_moves s None (goto t pc s)" using call.hyps(2,3) by (intro goto_moves) auto
  then show ?case using call.IH [OF call.prems] by (simp add: rec_moves_def)
next
  case (step evs s weak t ev s')
  have "length (recorded evs) < 2 ^ 32" using step.prems by simp
  then have IH: "rec_inv s" "\<forall>r \<in> set (reset_results evs). 0 \<le> st_num r"
    "\<And>f. additive f \<Longrightarrow> all_stat f s + (\<Sum>r \<leftarrow> reset_results evs. f r) = samples_stat f (recorded evs)" using step.IH by auto
  have "0 \<le> (\<Sum>r \<leftarrow> reset_results evs. st_num r)" using IH(2) by (intro sum_list_nonneg) auto
  moreover have "samples_stat st_num (recorded evs) = int (length (recorded evs))" by (simp add: samples_stat_def sum_list_triv)
  ultimately have n: "all_stat st_num s < 2 ^ 32" using IH(3) [OF additive_fields(2)] \<open>length (recorded evs) < 2 ^ 32\<close> by simp
  have m: "rec_moves s ev s'" using rec_step_ok [OF IH(1) n step.hyps(2)] by auto
  have "0 \<le> st_num r" if "ev = Some (WasReset r)" for r
  proof -
    have "rs_pc s t = Reset1 r []"
      using step.hyps(2) that by (auto simp: rec_step_def split: rec_pc.splits list.splits if_splits elim!: res_bind_InrE)
    moreover have "pc_inv s t (rs_pc s t)" using IH(1) by (simp add: rec_inv_def)
    ultimately show ?thesis by (simp add: stat_ok_def)
  qed
  then have r: "\<forall>r \<in> set (reset_results (case ev of None \<Rightarrow> [] | Some e \<Rightarrow> [e])). 0 \<le> st_num r"
    by (auto simp: reset_results_one split: option.splits)
  show ?case
  proof (intro conjI allI impI)
    fix f :: "stat \<Rightarrow> int"
    assume f: "additive f"
    then have "all_stat f s' = all_stat f s +
        (case ev of Some (Recorded x) \<Rightarrow> f \<lparr>st_sum = x, st_num = 1\<rparr> | Some (WasReset r) \<Rightarrow> - f r | _ \<Rightarrow> 0)"
      using m by (simp add: rec_moves_def)
    then show "all_stat f s' + (\<Sum>r \<leftarrow> reset_results (evs @ (case ev of None \<Rightarrow> [] | Some e \<Rightarrow> [e])). f r) =
        samples_stat f (recorded (evs @ (case ev of None \<Rightarrow> [] | Some e \<Rightarrow> [e])))"
      using IH(3) [OF f] by (auto simp: samples_stat_def split: option.splits rec_event.splits)
  qed (use m r IH(2) in \<open>auto simp: rec_moves_def\<close>)
qed

lemma run_counts:
  assumes "rec_run evs s" "length (recorded evs) < 2 ^ 32"
  shows "rec_inv s" and "all_stat st_num s + (\<Sum>r \<leftarrow> reset_results evs. st_num r) = int (length (recorded evs))"
    and "all_stat st_sum s + (\<Sum>r \<leftarrow> reset_results evs. st_sum r) = sum_list (recorded evs)" and "all_stat st_num s < 2 ^ 32"
proof -
  note R = rec_run_inv [OF assms]
  then show "rec_inv s" by blast
  show n: "all_stat st_num s + (\<Sum>r \<leftarrow> reset_results evs. st_num r) = int (length (recorded evs))"
    using R additive_fields(2) by (simp add: samples_stat_def sum_list_triv)
  show "all_stat st_sum s + (\<Sum>r \<leftarrow> reset_results evs. st_sum r) = sum_list (recorded evs)"
    using R additive_fields(1) by (simp add: samples_stat_def)
  have "0 \<le> (\<Sum>r \<leftarrow> reset_results evs. st_num r)" using R by (intro sum_list_nonneg) auto
  then show "all_stat st_num s < 2 ^ 32" using n assms(2) by simp
qed

text \<open>The average, read when no thread is at work.\<close>

definition average :: "rec_sys \<Rightarrow> int res" where
  "average s = res_bind (combine_agents (rs_global s) (rs_agents s) (rs_elem s)) get_average_int"

lemma idle_combine:
  assumes inv: "rec_inv s" and n: "all_stat st_num s < 2 ^ 32" and idle: "\<forall>t. rs_pc s t = RIdle"
  shows "combine_agents (rs_global s) (rs_agents s) (rs_elem s) = Inr \<lparr>st_sum = all_stat st_sum s, st_num = all_stat st_num s\<rparr>"
    and "stat_ok \<lparr>st_sum = all_stat st_sum s, st_num = all_stat st_num s\<rparr>"
proof -
  have ok: "stat_ok (rs_global s)" "\<And>a. a \<in> set (rs_agents s) \<Longrightarrow> stat_ok (elem_stat (rs_elem s a))" "distinct (rs_agents s)"
    using inv by (auto simp: rec_inv_def)
  have "rs_lock s = None" using inv idle by (cases "rs_lock s") (auto simp: rec_inv_def)
  then have "f (rs_global s) + (\<Sum>a \<leftarrow> rs_agents s. f (elem_stat (rs_elem s a))) = all_stat f s" if "additive f" for f
    using that ok(3) by (simp add: all_stat_def agents_sum_def in_reset_def additive_def sum_list_distinct_conv_sum_set)
  note e = this [OF additive_fields(1)] this [OF additive_fields(2)]
  show "combine_agents (rs_global s) (rs_agents s) (rs_elem s) = Inr \<lparr>st_sum = all_stat st_sum s, st_num = all_stat st_num s\<rparr>"
    using combine_agents_ok [OF ok(1,2)] n e by simp
  have "stat_ok \<lparr>st_sum = st_sum ret + (\<Sum>a \<leftarrow> as. st_sum (elem_stat (rs_elem s a))),
      st_num = st_num ret + (\<Sum>a \<leftarrow> as. st_num (elem_stat (rs_elem s a)))\<rparr>"
    if "stat_ok ret" "set as \<subseteq> set (rs_agents s)" for ret as
    using that
  proof (induction as arbitrary: ret)
    case (Cons a as)
    have "stat_ok (plus_stat ret (elem_stat (rs_elem s a)))" using Cons.prems ok(2) by (intro stat_ok_plus) auto
    from Cons.IH [OF this] Cons.prems show ?case by (simp add: plus_stat_def add.assoc)
  qed (simp add: stat_ok_def)
  from this [OF ok(1) subset_refl] show "stat_ok \<lparr>st_sum = all_stat st_sum s, st_num = all_stat st_num s\<rparr>" unfolding e .
qed

text \<open>Runs that follow a schedule: \<open>Some pc\<close> is a call, \<open>None\<close> a step.\<close>

fun rec_exec :: "(rec_pc option \<times> nat) list \<Rightarrow> rec_event list \<Rightarrow> rec_sys \<Rightarrow> (rec_event list \<times> rec_sys) option" where
  "rec_exec [] evs s = Some (evs, s)"
| "rec_exec ((Some pc, t) # sched) evs s =
     (if rs_pc s t = RIdle \<and> (case pc of Rec0 x \<Rightarrow> clamp_int x = x | Reset0 \<Rightarrow> True | Comb0 \<Rightarrow> True | Exit0 \<Rightarrow> True | _ \<Rightarrow> False)
      then rec_exec sched evs (goto t pc s) else None)"
| "rec_exec ((None, t) # sched) evs s =
     (case rec_step False t s of Some (Inr (ev, s')) \<Rightarrow> rec_exec sched (evs @ (case ev of None \<Rightarrow> [] | Some e \<Rightarrow> [e])) s' | _ \<Rightarrow> None)"

lemma rec_exec_run: "rec_exec sched evs s = Some (evs', s') \<Longrightarrow> rec_run evs s \<Longrightarrow> rec_run evs' s'"
proof (induction sched evs s rule: rec_exec.induct)
  case (2 pc t sched evs s)
  then have c: "rs_pc s t = RIdle" "case pc of Rec0 x \<Rightarrow> clamp_int x = x | Reset0 \<Rightarrow> True | Comb0 \<Rightarrow> True | Exit0 \<Rightarrow> True | _ \<Rightarrow> False"
    by (auto split: if_splits)
  then have "\<exists>x. pc \<in> {Rec0 (clamp_int x), Reset0, Comb0, Exit0}" by (cases pc) (auto, metis)
  then have "rec_run evs (goto t pc s)" using rec_run.call [OF 2(3) c(1)] by blast
  then show ?case using 2 c by auto
next
  case (3 t sched evs s)
  then show ?case using rec_run.step by (auto split: option.splits sum.splits)
qed simp

lemma step_other_pc:
  assumes st: "rec_step weak u s = Some (Inr (ev, s'))" and t: "t \<noteq> u"
  shows "rs_pc s' t = rs_pc s t"
proof -
  have cc: "commit_and_clear u s = Inr s1 \<Longrightarrow> rs_pc s1 = rs_pc s" and ce: "commit_and_erase u s = Inr s1 \<Longrightarrow> rs_pc s1 = rs_pc s"
    and na: "rs_pc (new_agent u s) = rs_pc s" for s1
    by (auto simp: commit_and_clear_def commit_and_erase_def new_agent_def elim!: res_bind_InrE)
  show ?thesis
  proof (cases "rs_pc s u")
    case (Reset1 tmp as)
    then show ?thesis using st t by (cases as) (auto simp: rec_step_def elim!: res_bind_InrE)
  next
    case (Comb1 ret as)
    then show ?thesis using st t by (cases as) (auto simp: rec_step_def elim!: res_bind_InrE)
  qed (use st t cc ce na in \<open>auto simp: rec_step_def split: if_splits elim!: res_bind_InrE\<close>)
qed

lemma rec_exec_step:
  assumes "rec_exec ((None, u) # sched) evs s = Some r"
  obtains ev s1 where "rec_step False u s = Some (Inr (ev, s1))" "rec_exec sched (evs @ (case ev of None \<Rightarrow> [] | Some e \<Rightarrow> [e])) s1 = Some r"
  using assms by (auto split: option.splits sum.splits)

lemma rec_exec_other: "rec_exec sched evs s = Some (evs', s') \<Longrightarrow> t \<notin> snd ` set sched \<Longrightarrow> rs_pc s' t = rs_pc s t"
proof (induction sched arbitrary: evs s)
  case (Cons a sched)
  obtain c u where a: "a = (c, u)" by (cases a)
  have u: "t \<noteq> u" "t \<notin> snd ` set sched" using Cons.prems(2) a by auto
  show ?case
  proof (cases c)
    case None
    obtain ev s1 where st: "rec_step False u s = Some (Inr (ev, s1))"
      and r: "rec_exec sched (evs @ (case ev of None \<Rightarrow> [] | Some e \<Rightarrow> [e])) s1 = Some (evs', s')"
      using rec_exec_step [OF Cons.prems(1) [unfolded a None]] by blast
    show ?thesis using Cons.IH [OF r u(2)] step_other_pc [OF st u(1)] by simp
  next
    case (Some pc)
    then have "rec_exec sched evs (goto u pc s) = Some (evs', s')" using Cons.prems(1) a by (simp split: if_splits)
    then show ?thesis using Cons.IH u by fastforce
  qed
qed simp

section \<open>Properties\<close>

text \<open>
C14: No sample is lost or counted twice: whatever threads record, reset, combine and quit in whatever interleaving, with
fewer than \<open>2 ^ 32\<close> samples no step overflows, and once the threads are idle the combined count and sum together
with the results of all resets are exactly the number and the sum of the recorded samples, although each thread packs
its own into one word of 64 bits; without resets the average is their mean, rounded towards zero.\<close>

theorem samples_counted_once:
  assumes "rec_run evs s" "length (recorded evs) < 2 ^ 32"
  shows "(\<forall>weak t r. rec_step weak t s = Some r \<longrightarrow> (\<exists>x. r = Inr x)) \<and>
     ((\<forall>t. rs_pc s t = RIdle) \<longrightarrow>
       (\<exists>v. combine_agents (rs_global s) (rs_agents s) (rs_elem s) = Inr v \<and>
          st_num v + (\<Sum>r \<leftarrow> reset_results evs. st_num r) = int (length (recorded evs)) \<and>
          st_sum v + (\<Sum>r \<leftarrow> reset_results evs. st_sum r) = sum_list (recorded evs)) \<and>
       (reset_results evs = [] \<longrightarrow>
          average s = Inr (if recorded evs = [] then 0 else cdiv (sum_list (recorded evs)) (int (length (recorded evs))))))"
proof -
  note R = run_counts [OF assms]
  have "\<exists>x. r = Inr x" if "rec_step weak t s = Some r" for weak t r using rec_step_ok [OF R(1,4) that] by blast
  moreover have "(\<exists>v. combine_agents (rs_global s) (rs_agents s) (rs_elem s) = Inr v \<and>
          st_num v + (\<Sum>r \<leftarrow> reset_results evs. st_num r) = int (length (recorded evs)) \<and>
          st_sum v + (\<Sum>r \<leftarrow> reset_results evs. st_sum r) = sum_list (recorded evs)) \<and>
       (reset_results evs = [] \<longrightarrow>
          average s = Inr (if recorded evs = [] then 0 else cdiv (sum_list (recorded evs)) (int (length (recorded evs)))))"
    if "\<forall>t. rs_pc s t = RIdle"
    using idle_combine [OF R(1,4) that] R(2-4) get_average_int_ok [OF idle_combine(2) [OF R(1,4) that]] by (simp add: average_def) auto
  ultimately show ?thesis by blast
qed

text \<open>Two threads; the second records while the first resets, before its agent is visited.\<close>

definition sample_schedule :: "(rec_pc option \<times> nat) list" where
  "sample_schedule =
     [(Some (Rec0 5), 0), (None, 0), (None, 0), (None, 0), (None, 0), (Some (Rec0 (- 3)), 1), (None, 1), (None, 1), (None, 1),
      (Some Reset0, 0), (None, 0), (None, 0), (None, 1), (None, 0), (None, 0),
      (Some (Rec0 7), 1), (None, 1), (None, 1), (None, 1), (None, 1)]"

lemma sample_schedule_exec:
  "(case rec_exec sample_schedule [] rs_start of None \<Rightarrow> False | Some (evs, s) \<Rightarrow>
     evs = [Recorded 5, Recorded (- 3), WasReset \<lparr>st_sum = 2, st_num = 2\<rparr>, Recorded 7] \<and> rs_pc s 0 = RIdle \<and> rs_pc s 1 = RIdle)"
  by code_simp

theorem samples_counted_once_witness:
  "\<exists>evs s v. rec_exec sample_schedule [] rs_start = Some (evs, s) \<and>
     combine_agents (rs_global s) (rs_agents s) (rs_elem s) = Inr v \<and> st_num v = 1 \<and> st_sum v = 7"
proof -
  obtain evs s where e: "rec_exec sample_schedule [] rs_start = Some (evs, s)"
    and evs: "evs = [Recorded 5, Recorded (- 3), WasReset \<lparr>st_sum = 2, st_num = 2\<rparr>, Recorded 7]"
    and pc: "rs_pc s 0 = RIdle" "rs_pc s 1 = RIdle"
    using sample_schedule_exec by (auto split: option.splits)
  have "rs_pc s t = RIdle" for t
    using pc rec_exec_other [OF e, of t] by (cases "t \<in> {0, 1}") (auto simp: sample_schedule_def rs_start_def)
  moreover have "rec_run evs s" by (rule rec_exec_run [OF e rec_run.start])
  ultimately show ?thesis using samples_counted_once [of evs s] e evs by auto
qed

end
