(* ===== verification/DoublyBuffered.thy ===== *)
theory DoublyBuffered
  imports Prelude
begin

text \<open>
  \<^verbatim>\<open>butil/containers/doubly_buffered_data.h\<close>: two instances of the data, the one in front for readers and the one
  behind for modifications.  A reader holds the mutex of its own thread's wrapper while it reads; a modifier changes
  the instance behind, flips the index, waits for every wrapper once and then changes the other instance.  Threads are
  interleaved: an access to shared memory is a step, and so is what happens inside one lock without waiting.
\<close>

section \<open>State\<close>

text \<open>
  What is called on an instance: it gets the instance and the other one, and gives back the result and the new
  instance.  \<open>Modify\<close> ignores the other one.
\<close>

type_synonym 'a modifier = "'a \<Rightarrow> 'a \<Rightarrow> u64 \<times> 'a"

datatype 'a db_pc =
    DIdle
  | Rd0                                          \<comment> \<open>\<open>Read\<close> is called\<close>
  | RdAdd nat                                    \<comment> \<open>has a new wrapper, about to lock \<open>_wrappers_mutex\<close>\<close>
  | RdDel nat                                    \<comment> \<open>could not store it, about to delete it\<close>
  | RdSet nat                                    \<comment> \<open>before \<^verbatim>\<open>pthread_setspecific\<close>\<close>
  | RdBegin nat                                  \<comment> \<open>before \<open>BeginRead\<close>\<close>
  | RdLoad nat                                   \<comment> \<open>before \<open>UnsafeRead\<close>\<close>
  | Reading nat nat                              \<comment> \<open>the user holds a pointer to this instance\<close>
  | Mod0 "'a modifier"                           \<comment> \<open>before locking \<open>_modify_mutex\<close>\<close>
  | Mod1 "'a modifier"                           \<comment> \<open>before loading the index\<close>
  | Mod2 "'a modifier" nat                       \<comment> \<open>before the first call\<close>
  | Mod3 "'a modifier" nat u64                   \<comment> \<open>before flipping\<close>
  | Mod4 "'a modifier" nat u64                   \<comment> \<open>before locking \<open>_wrappers_mutex\<close>\<close>
  | Mod5 "'a modifier" nat u64 "nat list"        \<comment> \<open>these wrappers are left\<close>
  | Mod6 "'a modifier" nat u64                   \<comment> \<open>before the second call\<close>
  | Quit                                         \<comment> \<open>the thread ends\<close>

record 'a dbd =
  db_data :: "nat \<Rightarrow> 'a"
  db_index :: nat
  db_created_key :: bool
  db_wrappers :: "nat list"
  db_wrappers_mutex :: "nat option"
  db_modify_mutex :: "nat option"
  db_live :: "nat \<Rightarrow> bool"            \<comment> \<open>which wrappers are allocated\<close>
  db_mutex :: "nat \<Rightarrow> nat option"     \<comment> \<open>\<open>_mutex\<close> of a wrapper\<close>
  db_tls :: "nat \<Rightarrow> nat option"       \<comment> \<open>the wrapper that a thread keeps under \<open>_wrapper_key\<close>\<close>
  db_pc :: "nat \<Rightarrow> 'a db_pc"

definition db_init :: "bool \<Rightarrow> 'a \<Rightarrow> 'a dbd" where
  "db_init created v =
     \<lparr>db_data = (\<lambda>_. v), db_index = 0, db_created_key = created, db_wrappers = [], db_wrappers_mutex = None, db_modify_mutex = None,
      db_live = (\<lambda>_. False), db_mutex = (\<lambda>_. None), db_tls = (\<lambda>_. None), db_pc = (\<lambda>_. DIdle)\<rparr>"

datatype 'a db_event = Took nat | Released nat | ReadFailed nat | Published "'a modifier" | Returned nat u64

section \<open>Operations\<close>

text \<open>The six ways to modify.\<close>

definition Modify :: "('a \<Rightarrow> u64 \<times> 'a) \<Rightarrow> 'a db_pc" where
  "Modify fn = Mod0 (\<lambda>bg _. fn bg)"

definition Modify1 :: "('a \<Rightarrow> 'b \<Rightarrow> u64 \<times> 'a) \<Rightarrow> 'b \<Rightarrow> 'a db_pc" where
  "Modify1 fn arg1 = Modify (\<lambda>bg. fn bg arg1)"

definition Modify2 :: "('a \<Rightarrow> 'b \<Rightarrow> 'c \<Rightarrow> u64 \<times> 'a) \<Rightarrow> 'b \<Rightarrow> 'c \<Rightarrow> 'a db_pc" where
  "Modify2 fn arg1 arg2 = Modify (\<lambda>bg. fn bg arg1 arg2)"

definition ModifyWithForeground :: "'a modifier \<Rightarrow> 'a db_pc" where
  "ModifyWithForeground fn = Mod0 fn"

definition ModifyWithForeground1 :: "('a \<Rightarrow> 'a \<Rightarrow> 'b \<Rightarrow> u64 \<times> 'a) \<Rightarrow> 'b \<Rightarrow> 'a db_pc" where
  "ModifyWithForeground1 fn arg1 = Mod0 (\<lambda>bg fg. fn bg fg arg1)"

definition ModifyWithForeground2 :: "('a \<Rightarrow> 'a \<Rightarrow> 'b \<Rightarrow> 'c \<Rightarrow> u64 \<times> 'a) \<Rightarrow> 'b \<Rightarrow> 'c \<Rightarrow> 'a db_pc" where
  "ModifyWithForeground2 fn arg1 arg2 = Mod0 (\<lambda>bg fg. fn bg fg arg1 arg2)"

text \<open>\<^verbatim>\<open>!index\<close>; also the other instance, \<^verbatim>\<open>_data[&bg == _data]\<close>.\<close>

definition flip :: "nat \<Rightarrow> nat" where
  "flip i = (if i = 0 then 1 else 0)"

text \<open>The last wrapper takes the place of the removed one.\<close>

definition remove_wrapper :: "nat \<Rightarrow> nat list \<Rightarrow> nat list" where
  "remove_wrapper w ws = (if w \<in> set ws then butlast (ws[length (takeWhile (\<lambda>x. x \<noteq> w) ws) := last ws]) else ws)"

definition db_goto :: "nat \<Rightarrow> 'a db_pc \<Rightarrow> 'a dbd \<Rightarrow> 'a dbd" where
  "db_goto t pc s = s\<lparr>db_pc := (db_pc s)(t := pc)\<rparr>"

definition delete_wrapper :: "nat \<Rightarrow> 'a dbd \<Rightarrow> 'a dbd" where
  "delete_wrapper w s = s\<lparr>db_wrappers := remove_wrapper w (db_wrappers s), db_live := (db_live s)(w := False)\<rparr>"

text \<open>
  The next step of thread \<open>t\<close>; \<open>None\<close> while it waits for a lock.  The environment chooses whether a wrapper can be
  allocated and where, whether the vector can grow, and whether \<^verbatim>\<open>pthread_setspecific\<close> works.
\<close>

definition read_step ::
  "nat option \<Rightarrow> bool \<Rightarrow> bool \<Rightarrow> nat \<Rightarrow> 'a dbd \<Rightarrow> ('a db_event option \<times> 'a dbd) res option" where
  "read_step alloc push_ok set_ok t s =
     (case db_pc s t of
        Rd0 \<Rightarrow>
          if \<not> db_created_key s then Some (Inr (Some (ReadFailed t), db_goto t DIdle s))
          else (case db_tls s t of
              Some w \<Rightarrow> Some (Inr (None, db_goto t (RdBegin w) s))
            | None \<Rightarrow>
                (case alloc of
                   None \<Rightarrow> Some (Inr (Some (ReadFailed t), db_goto t DIdle s))
                 | Some w \<Rightarrow>
                     if db_live s w then None
                     else Some (Inr (None, db_goto t (RdAdd w)
                            (s\<lparr>db_live := (db_live s)(w := True), db_mutex := (db_mutex s)(w := None)\<rparr>)))))
      | RdAdd w \<Rightarrow>
          if db_wrappers_mutex s \<noteq> None then None
          else if push_ok then Some (Inr (None, db_goto t (RdSet w) (s\<lparr>db_wrappers := db_wrappers s @ [w]\<rparr>)))
          else Some (Inr (None, db_goto t (RdDel w) s))
      | RdDel w \<Rightarrow>
          if db_wrappers_mutex s \<noteq> None then None
          else Some (Inr (Some (ReadFailed t), db_goto t DIdle (delete_wrapper w s)))
      | RdSet w \<Rightarrow>
          if set_ok then Some (Inr (None, db_goto t (RdBegin w) (s\<lparr>db_tls := (db_tls s)(t := Some w)\<rparr>)))
          else Some (Inr (Some (ReadFailed t), db_goto t DIdle s))
      | RdBegin w \<Rightarrow>
          if \<not> db_live s w then Some (Inl DeadDeref)
          else if db_mutex s w \<noteq> None then None
          else Some (Inr (None, db_goto t (RdLoad w) (s\<lparr>db_mutex := (db_mutex s)(w := Some t)\<rparr>)))
      | RdLoad w \<Rightarrow> Some (Inr (Some (Took t), db_goto t (Reading w (db_index s)) s))
      | Reading w i \<Rightarrow>
          if \<not> db_live s w then Some (Inl DeadDeref)
          else Some (Inr (Some (Released t), db_goto t DIdle (s\<lparr>db_mutex := (db_mutex s)(w := None)\<rparr>)))
      | Quit \<Rightarrow>
          (case db_tls s t of
             None \<Rightarrow> Some (Inr (None, db_goto t DIdle s))
           | Some w \<Rightarrow>
               if db_wrappers_mutex s \<noteq> None then None
               else Some (Inr (None, db_goto t DIdle (delete_wrapper w (s\<lparr>db_tls := (db_tls s)(t := None)\<rparr>)))))
      | _ \<Rightarrow> None)"

definition modify_step :: "nat \<Rightarrow> 'a dbd \<Rightarrow> ('a db_event option \<times> 'a dbd) res option" where
  "modify_step t s =
     (case db_pc s t of
        Mod0 fn \<Rightarrow>
          if db_modify_mutex s \<noteq> None then None
          else Some (Inr (None, db_goto t (Mod1 fn) (s\<lparr>db_modify_mutex := Some t\<rparr>)))
      | Mod1 fn \<Rightarrow> Some (Inr (None, db_goto t (Mod2 fn (flip (db_index s))) s))
      | Mod2 fn bg \<Rightarrow>
          (let (ret, x) = fn (db_data s bg) (db_data s (flip bg)); s' = s\<lparr>db_data := (db_data s)(bg := x)\<rparr> in
           if ret = 0 then Some (Inr (Some (Returned t 0), db_goto t DIdle (s'\<lparr>db_modify_mutex := None\<rparr>)))
           else Some (Inr (None, db_goto t (Mod3 fn bg ret) s')))
      | Mod3 fn bg ret \<Rightarrow> Some (Inr (Some (Published fn), db_goto t (Mod4 fn (flip bg) ret) (s\<lparr>db_index := bg\<rparr>)))
      | Mod4 fn bg ret \<Rightarrow>
          if db_wrappers_mutex s \<noteq> None then None
          else Some (Inr (None, db_goto t (Mod5 fn bg ret (db_wrappers s)) (s\<lparr>db_wrappers_mutex := Some t\<rparr>)))
      | Mod5 fn bg ret [] \<Rightarrow> Some (Inr (None, db_goto t (Mod6 fn bg ret) (s\<lparr>db_wrappers_mutex := None\<rparr>)))
      | Mod5 fn bg ret (w # ws) \<Rightarrow>
          if \<not> db_live s w then Some (Inl DeadDeref)
          else if db_mutex s w \<noteq> None then None
          else Some (Inr (None, db_goto t (Mod5 fn bg ret ws) s))
      | Mod6 fn bg ret \<Rightarrow>
          (let (ret2, x) = fn (db_data s bg) (db_data s (flip bg)) in
           if ret2 \<noteq> ret then Some (Inl AssertFailed)
           else Some (Inr (Some (Returned t ret2),
             db_goto t DIdle (s\<lparr>db_data := (db_data s)(bg := x), db_modify_mutex := None\<rparr>))))
      | _ \<Rightarrow> None)"

fun in_modify :: "'a db_pc \<Rightarrow> bool" where
  "in_modify (Mod0 _) = True"
| "in_modify (Mod1 _) = True"
| "in_modify (Mod2 _ _) = True"
| "in_modify (Mod3 _ _ _) = True"
| "in_modify (Mod4 _ _ _) = True"
| "in_modify (Mod5 _ _ _ _) = True"
| "in_modify (Mod6 _ _ _) = True"
| "in_modify _ = False"

definition db_step ::
  "nat option \<Rightarrow> bool \<Rightarrow> bool \<Rightarrow> nat \<Rightarrow> 'a dbd \<Rightarrow> ('a db_event option \<times> 'a dbd) res option" where
  "db_step alloc push_ok set_ok t s = (if in_modify (db_pc s t) then modify_step t s else read_step alloc push_ok set_ok t s)"

text \<open>
  What a call may be given: on equal instances it either returns 0 and changes nothing, or, called on the other one
  after the flip, does there what it did before.
\<close>

definition mod_ok :: "'a modifier \<Rightarrow> bool" where
  "mod_ok fn \<longleftrightarrow> (\<forall>v. case fn v v of (ret, v') \<Rightarrow> if ret = 0 then v' = v else fn v v' = (ret, v'))"

inductive db_run :: "bool \<Rightarrow> 'a \<Rightarrow> 'a db_event list \<Rightarrow> 'a dbd \<Rightarrow> bool" for created v where
  db_start: "db_run created v [] (db_init created v)"
| db_call: "db_run created v evs s \<Longrightarrow> db_pc s t = DIdle \<Longrightarrow> pc = Rd0 \<or> pc = Quit \<or> (\<exists>fn. mod_ok fn \<and> pc = Mod0 fn) \<Longrightarrow>
    db_run created v evs (db_goto t pc s)"
| db_next: "db_run created v evs s \<Longrightarrow> db_step alloc push_ok set_ok t s = Some (Inr (ev, s')) \<Longrightarrow>
    db_run created v (evs @ (case ev of None \<Rightarrow> [] | Some e \<Rightarrow> [e])) s'"

section \<open>Locks and wrappers\<close>

lemma remove_wrapper:
  assumes "distinct ws"
  shows "set (remove_wrapper w ws) = set ws - {w}" "distinct (remove_wrapper w ws)"
proof -
  have "set (remove_wrapper w ws) = set ws - {w} \<and> distinct (remove_wrapper w ws)"
  proof (cases "w \<in> set ws")
    case True
    then obtain as bs where ws: "ws = as @ w # bs" "\<forall>x \<in> set as. x \<noteq> w" using split_list_first by fastforce
    then have tw: "takeWhile (\<lambda>x. x \<noteq> w) ws = as" by (simp add: takeWhile_append2)
    show ?thesis
    proof (cases bs rule: rev_cases)
      case Nil
      then show ?thesis using ws tw assms by (simp add: remove_wrapper_def butlast_append)
    next
      case (snoc bs' b)
      then show ?thesis using ws tw assms by (auto simp: remove_wrapper_def butlast_append)
    qed
  qed (use assms in \<open>simp add: remove_wrapper_def\<close>)
  then show "set (remove_wrapper w ws) = set ws - {w}" "distinct (remove_wrapper w ws)" by blast+
qed

text \<open>The wrapper that a thread has, or is about to have.\<close>

definition owns :: "'a dbd \<Rightarrow> nat \<Rightarrow> nat \<Rightarrow> bool" where
  "owns s t w \<longleftrightarrow> db_tls s t = Some w \<or> db_pc s t \<in> {RdAdd w, RdSet w, RdDel w}"

fun modifying :: "'a db_pc \<Rightarrow> bool" where
  "modifying (Mod0 _) = False"
| "modifying pc = in_modify pc"

fun waiting :: "'a db_pc \<Rightarrow> bool" where
  "waiting (Mod5 _ _ _ _) = True"
| "waiting _ = False"

fun has_pointer :: "nat \<Rightarrow> 'a db_pc \<Rightarrow> bool" where
  "has_pointer w (RdLoad w') = (w = w')"
| "has_pointer w (Reading w' _) = (w = w')"
| "has_pointer w _ = False"

fun pc_ok :: "'a dbd \<Rightarrow> nat \<Rightarrow> 'a db_pc \<Rightarrow> bool" where
  "pc_ok s t (RdAdd w) = (db_tls s t = None \<and> db_live s w \<and> w \<notin> set (db_wrappers s))"
| "pc_ok s t (RdDel w) = (db_tls s t = None \<and> db_live s w \<and> w \<notin> set (db_wrappers s))"
| "pc_ok s t (RdSet w) = (db_tls s t = None \<and> w \<in> set (db_wrappers s))"
| "pc_ok s t (RdBegin w) = (db_tls s t = Some w)"
| "pc_ok s t (RdLoad w) = (db_tls s t = Some w \<and> db_mutex s w = Some t)"
| "pc_ok s t (Reading w i) = (db_tls s t = Some w \<and> db_mutex s w = Some t \<and> i < 2)"
| "pc_ok s t (Mod0 fn) = mod_ok fn"
| "pc_ok s t (Mod1 fn) = (db_modify_mutex s = Some t \<and> mod_ok fn)"
| "pc_ok s t (Mod2 fn bg) = (db_modify_mutex s = Some t \<and> mod_ok fn \<and> bg = flip (db_index s))"
| "pc_ok s t (Mod3 fn bg ret) = (db_modify_mutex s = Some t \<and> mod_ok fn \<and> bg = flip (db_index s) \<and> ret \<noteq> 0)"
| "pc_ok s t (Mod4 fn bg ret) = (db_modify_mutex s = Some t \<and> mod_ok fn \<and> bg = flip (db_index s) \<and> ret \<noteq> 0)"
| "pc_ok s t (Mod5 fn bg ret ws) =
     (db_modify_mutex s = Some t \<and> mod_ok fn \<and> bg = flip (db_index s) \<and> ret \<noteq> 0 \<and>
      db_wrappers_mutex s = Some t \<and> set ws \<subseteq> set (db_wrappers s))"
| "pc_ok s t (Mod6 fn bg ret) = (db_modify_mutex s = Some t \<and> mod_ok fn \<and> bg = flip (db_index s) \<and> ret \<noteq> 0)"
| "pc_ok s t _ = True"

definition lock_inv :: "'a dbd \<Rightarrow> bool" where
  "lock_inv s \<longleftrightarrow> distinct (db_wrappers s) \<and> (\<forall>w \<in> set (db_wrappers s). db_live s w) \<and>
     (\<forall>t w. db_tls s t = Some w \<longrightarrow> w \<in> set (db_wrappers s)) \<and> (\<forall>t u w. owns s t w \<longrightarrow> owns s u w \<longrightarrow> t = u) \<and>
     (\<forall>t. pc_ok s t (db_pc s t)) \<and> (\<forall>w t. db_mutex s w = Some t \<longrightarrow> has_pointer w (db_pc s t)) \<and>
     (\<forall>t. db_modify_mutex s = Some t \<longrightarrow> modifying (db_pc s t)) \<and> (\<forall>t. db_wrappers_mutex s = Some t \<longrightarrow> waiting (db_pc s t)) \<and>
     db_index s < 2"

lemma flip_simps [simp]: "flip 0 = 1" "flip (Suc 0) = 0" "i < 2 \<Longrightarrow> flip (flip i) = i" "flip i < 2" "flip i \<noteq> i" "i \<noteq> flip i"
  by (auto simp: flip_def)

lemma lock_inv_start: "lock_inv (db_init created v)"
  by (simp add: lock_inv_def db_init_def owns_def)

lemma lock_invD:
  assumes "lock_inv s"
  shows "distinct (db_wrappers s)" "w \<in> set (db_wrappers s) \<Longrightarrow> db_live s w" "db_tls s t = Some w \<Longrightarrow> w \<in> set (db_wrappers s)"
    "pc_ok s t (db_pc s t)" "db_mutex s w = Some t \<Longrightarrow> has_pointer w (db_pc s t)"
    "db_modify_mutex s = Some t \<Longrightarrow> modifying (db_pc s t)" "db_wrappers_mutex s = Some t \<Longrightarrow> waiting (db_pc s t)" "db_index s < 2"
  using assms by (auto simp: lock_inv_def)

lemma lock_inv_owner:
  assumes "lock_inv s"
  shows "owns s t w \<Longrightarrow> db_live s w" and "owns s t w \<Longrightarrow> owns s u w \<Longrightarrow> t = u"
proof -
  show "db_live s w" if "owns s t w"
    using that lock_invD(4) [OF assms, of t] lock_invD(2,3) [OF assms, of w] lock_invD(3) [OF assms, of t w]
    by (auto simp: owns_def)
  show "owns s t w \<Longrightarrow> owns s u w \<Longrightarrow> t = u" using assms unfolding lock_inv_def by blast
qed

text \<open>What a thread relies on is not touched by another thread that changes only what it owns.\<close>

lemma lock_inv_local:
  assumes inv: "lock_inv s"
    and others: "\<And>u. u \<noteq> t \<Longrightarrow> db_tls s' u = db_tls s u" "\<And>u. u \<noteq> t \<Longrightarrow> db_pc s' u = db_pc s u"
      "\<And>w. \<not> owns s t w \<Longrightarrow> db_live s w \<Longrightarrow> (w \<in> set (db_wrappers s') \<longleftrightarrow> w \<in> set (db_wrappers s)) \<and> db_live s' w = db_live s w \<and> db_mutex s' w = db_mutex s w"
      "db_modify_mutex s' = db_modify_mutex s \<and> db_index s' = db_index s \<or>
       db_modify_mutex s \<in> {None, Some t} \<and> db_modify_mutex s' \<in> {None, Some t}"
      "db_wrappers_mutex s' = db_wrappers_mutex s \<and> db_wrappers s' = db_wrappers s \<or>
       db_wrappers_mutex s \<in> {None, Some t} \<and> db_wrappers_mutex s' \<in> {None, Some t}"
    and me: "distinct (db_wrappers s')" "\<And>w. w \<in> set (db_wrappers s') \<Longrightarrow> db_live s' w"
      "\<And>w. db_tls s' t = Some w \<Longrightarrow> w \<in> set (db_wrappers s')" "pc_ok s' t (db_pc s' t)"
      "db_modify_mutex s' = Some t \<Longrightarrow> modifying (db_pc s' t)" "db_wrappers_mutex s' = Some t \<Longrightarrow> waiting (db_pc s' t)" "db_index s' < 2"
      "\<And>w u. db_mutex s' w = Some u \<Longrightarrow> u = t \<and> has_pointer w (db_pc s' t) \<or> u \<noteq> t \<and> db_mutex s w = Some u"
      "\<And>w. owns s' t w \<Longrightarrow> owns s t w \<or> \<not> db_live s w"
  shows "lock_inv s'"
proof -
  note D = lock_invD [OF inv] and O = lock_inv_owner [OF inv]
  have frame: "(w \<in> set (db_wrappers s') \<longleftrightarrow> w \<in> set (db_wrappers s)) \<and> db_live s' w = db_live s w \<and> db_mutex s' w = db_mutex s w"
    if "u \<noteq> t" "owns s u w" for u w
    using others(3) [of w] O(1) [OF that(2)] O(2) [OF that(2), of t] that(1) by blast
  have pc: "pc_ok s' u (db_pc s' u)" for u
  proof (cases "u = t")
    case False
    note o = frame [OF False] others(1,2) [OF False]
    have "pc_ok s u (db_pc s u)" by (rule D(4))
    then have "pc_ok s' u (db_pc s u)" using o others(4,5) False by (cases "db_pc s u") (auto simp: owns_def)
    then show ?thesis using o by simp
  qed (simp add: me)
  have tls: "w \<in> set (db_wrappers s')" if "db_tls s' u = Some w" for u w
    using that me(3) others(1) [of u] frame [of u w] D(3) [of u w] by (cases "u = t") (auto simp: owns_def)
  have own: "owns s' u w \<longleftrightarrow> owns s u w" if "u \<noteq> t" for u w using others(1,2) [OF that] by (simp add: owns_def)
  have uniq: "u = u'" if "owns s' u w" "owns s' u' w" for u u' w
    using that me(9) [of w] own [of u w] own [of u' w] O(1) [of u w] O(1) [of u' w] O(2) [of u w u'] O(2) [of t w u] O(2) [of t w u']
    by (cases "u = t"; cases "u' = t") simp_all
  have mu: "has_pointer w (db_pc s' u)" if "db_mutex s' w = Some u" for w u
    using me(8) [OF that] D(5) [of w u] others(2) [of u] by auto
  have mm: "modifying (db_pc s' u)" if "db_modify_mutex s' = Some u" for u
    using that me(5) others(2,4) D(6) [of u] by (cases "u = t") auto
  have wm: "waiting (db_pc s' u)" if "db_wrappers_mutex s' = Some u" for u
    using that me(6) others(2,5) D(7) [of u] by (cases "u = t") auto
  show ?thesis unfolding lock_inv_def using me(1,2,7) pc tls uniq mu mm wm by blast
qed

lemma db_fields [simp]:
  "db_data (db_goto t pc s) = db_data s" "db_index (db_goto t pc s) = db_index s" "db_wrappers (db_goto t pc s) = db_wrappers s"
  "db_wrappers_mutex (db_goto t pc s) = db_wrappers_mutex s" "db_modify_mutex (db_goto t pc s) = db_modify_mutex s"
  "db_live (db_goto t pc s) = db_live s" "db_mutex (db_goto t pc s) = db_mutex s" "db_tls (db_goto t pc s) = db_tls s"
  "db_pc (db_goto t pc s) = (db_pc s)(t := pc)" "db_created_key (db_goto t pc s) = db_created_key s"
  "db_data (delete_wrapper w s) = db_data s" "db_index (delete_wrapper w s) = db_index s"
  "db_wrappers (delete_wrapper w s) = remove_wrapper w (db_wrappers s)" "db_wrappers_mutex (delete_wrapper w s) = db_wrappers_mutex s"
  "db_modify_mutex (delete_wrapper w s) = db_modify_mutex s" "db_live (delete_wrapper w s) = (db_live s)(w := False)"
  "db_mutex (delete_wrapper w s) = db_mutex s" "db_tls (delete_wrapper w s) = db_tls s" "db_pc (delete_wrapper w s) = db_pc s"
  by (simp_all add: db_goto_def delete_wrapper_def)

lemma goto_lock_inv:
  assumes inv: "lock_inv s" and old: "db_pc s t = DIdle" and pc: "pc = Rd0 \<or> pc = Quit \<or> (\<exists>fn. mod_ok fn \<and> pc = Mod0 fn)"
  shows "lock_inv (db_goto t pc s)"
proof (rule lock_inv_local [OF inv, of t])
  fix w u
  assume "db_mutex (db_goto t pc s) w = Some u"
  then show "u = t \<and> has_pointer w (db_pc (db_goto t pc s) t) \<or> u \<noteq> t \<and> db_mutex s w = Some u"
    using lock_invD(5) [OF inv, of w u] old by auto
qed (use lock_invD [OF inv] lock_invD(4,6,7) [OF inv, of t] old pc in \<open>auto simp: owns_def\<close>)

lemma no_locks:
  assumes "lock_inv s" "\<not> in_modify (db_pc s t)"
  shows "db_modify_mutex s \<noteq> Some t" "db_wrappers_mutex s \<noteq> Some t"
  using lock_invD(6,7) [OF assms(1), of t] assms(2) by (cases "db_pc s t"; auto)+

lemma read_step_lock_inv:
  assumes inv: "lock_inv s" and im: "\<not> in_modify (db_pc s t)" and st: "read_step alloc push_ok set_ok t s = Some (Inr (ev, s'))"
  shows "lock_inv s'"
proof -
  note D = lock_invD [OF inv] and O = lock_inv_owner [OF inv] and L = no_locks [OF inv im] and R = remove_wrapper [OF lock_invD(1) [OF inv]]
  note P = D(4) [of t]
  have M: "db_mutex s w = Some t \<Longrightarrow> has_pointer w (db_pc s t)" for w by (rule D(5))
  show ?thesis
  proof (cases "db_pc s t")
    case Rd0
    show ?thesis
      by (rule lock_inv_local [OF inv, of t])
        (use Rd0 st D(1-3,8) P M L in \<open>auto simp: read_step_def owns_def split: if_splits option.splits\<close>)
  next
    case (RdAdd w)
    show ?thesis
      by (rule lock_inv_local [OF inv, of t])
        (use RdAdd st D(1-3,8) P M L in \<open>auto simp: read_step_def owns_def split: if_splits option.splits\<close>)
  next
    case (RdDel w)
    show ?thesis
      by (rule lock_inv_local [OF inv, of t])
        (use RdDel st D(1-3,8) P M L R in \<open>auto simp: read_step_def owns_def split: if_splits option.splits\<close>)
  next
    case (RdSet w)
    show ?thesis
      by (rule lock_inv_local [OF inv, of t])
        (use RdSet st D(1-3,8) P M L in \<open>auto simp: read_step_def owns_def split: if_splits option.splits\<close>)
  next
    case (RdBegin w)
    show ?thesis
      by (rule lock_inv_local [OF inv, of t])
        (use RdBegin st D(1-3,8) P M L in \<open>auto simp: read_step_def owns_def split: if_splits option.splits\<close>)
  next
    case (RdLoad w)
    then have M': "db_mutex s x = Some t \<longleftrightarrow> x = w" for x using P M [of x] by auto
    show ?thesis
      by (rule lock_inv_local [OF inv, of t])
        (use RdLoad st D(1-3,8) P M' L in \<open>auto simp: read_step_def owns_def split: if_splits option.splits\<close>)
  next
    case (Reading w i)
    then have M': "db_mutex s x = Some t \<longleftrightarrow> x = w" for x using P M [of x] by auto
    show ?thesis
      by (rule lock_inv_local [OF inv, of t])
        (use Reading st D(1-3,8) P M' L in \<open>auto simp: read_step_def owns_def split: if_splits option.splits\<close>)
  next
    case Quit
    show ?thesis
      by (rule lock_inv_local [OF inv, of t])
        (use Quit st D(1-3,8) P M L R in \<open>auto simp: read_step_def owns_def split: if_splits option.splits\<close>)
  qed (use st im in \<open>auto simp: read_step_def\<close>)
qed

lemma modify_step_lock_inv:
  assumes inv: "lock_inv s" and st: "modify_step t s = Some (Inr (ev, s'))"
  shows "lock_inv s'"
proof -
  note D = lock_invD [OF inv]
  note P = D(4) [of t] and W = D(6) [of t] D(7) [of t]
  have M: "db_mutex s w = Some t \<Longrightarrow> has_pointer w (db_pc s t)" for w by (rule D(5))
  have "in_modify (db_pc s t)" using st by (auto simp: modify_step_def split: db_pc.splits)
  then show ?thesis
  proof (cases "db_pc s t")
    case (Mod0 fn)
    show ?thesis
      by (rule lock_inv_local [OF inv, of t]) (use Mod0 st D(1-3,8) P M W in \<open>auto simp: modify_step_def owns_def split: if_splits\<close>)
  next
    case (Mod1 fn)
    show ?thesis
      by (rule lock_inv_local [OF inv, of t]) (use Mod1 st D(1-3,8) P M W in \<open>auto simp: modify_step_def owns_def split: if_splits\<close>)
  next
    case (Mod2 fn bg)
    show ?thesis
      by (rule lock_inv_local [OF inv, of t])
        (use Mod2 st D(1-3,8) P M W in \<open>auto simp: modify_step_def owns_def Let_def split: if_splits prod.splits\<close>)
  next
    case (Mod3 fn bg ret)
    show ?thesis
      by (rule lock_inv_local [OF inv, of t]) (use Mod3 st D(1-3,8) P M W in \<open>auto simp: modify_step_def owns_def split: if_splits\<close>)
  next
    case (Mod4 fn bg ret)
    show ?thesis
      by (rule lock_inv_local [OF inv, of t]) (use Mod4 st D(1-3,8) P M W in \<open>auto simp: modify_step_def owns_def split: if_splits\<close>)
  next
    case (Mod5 fn bg ret ws)
    show ?thesis
      by (rule lock_inv_local [OF inv, of t])
        (use Mod5 st D(1-3,8) P M W in \<open>auto simp: modify_step_def owns_def split: if_splits list.splits\<close>)
  next
    case (Mod6 fn bg ret)
    show ?thesis
      by (rule lock_inv_local [OF inv, of t])
        (use Mod6 st D(1-3,8) P M W in \<open>auto simp: modify_step_def owns_def Let_def split: if_splits prod.splits\<close>)
  qed simp_all
qed

lemma step_lock_inv: "lock_inv s \<Longrightarrow> db_step alloc push_ok set_ok t s = Some (Inr (ev, s')) \<Longrightarrow> lock_inv s'"
  using read_step_lock_inv modify_step_lock_inv by (auto simp: db_step_def split: if_splits)

section \<open>Readers and the two instances\<close>

text \<open>What the thread that holds \<open>_modify_mutex\<close> is doing.\<close>

definition phase :: "'a dbd \<Rightarrow> 'a db_pc" where
  "phase s = (case db_modify_mutex s of None \<Rightarrow> DIdle | Some t \<Rightarrow> db_pc s t)"

text \<open>Which readers may still be at the instance behind.\<close>

fun reader_ok :: "'a db_pc \<Rightarrow> nat \<Rightarrow> nat \<Rightarrow> nat \<Rightarrow> bool" where
  "reader_ok (Mod4 _ _ _) index w i = True"
| "reader_ok (Mod5 _ _ _ ws) index w i = (i = index \<or> w \<in> set ws)"
| "reader_ok _ index w i = (i = index)"

definition readers_ok :: "'a dbd \<Rightarrow> bool" where
  "readers_ok s \<longleftrightarrow> (\<forall>t w i. db_pc s t = Reading w i \<longrightarrow> reader_ok (phase s) (db_index s) w i)"

text \<open>How the two instances are related to the value \<open>v\<close> that was published last.\<close>

fun data_ok :: "'a \<Rightarrow> 'a db_pc \<Rightarrow> (nat \<Rightarrow> 'a) \<Rightarrow> nat \<Rightarrow> bool" where
  "data_ok v (Mod3 fn bg ret) d index = (d index = v \<and> fn v v = (ret, d bg))"
| "data_ok v (Mod4 fn bg ret) d index = (d index = v \<and> fn (d bg) (d bg) = (ret, v))"
| "data_ok v (Mod5 fn bg ret _) d index = (d index = v \<and> fn (d bg) (d bg) = (ret, v))"
| "data_ok v (Mod6 fn bg ret) d index = (d index = v \<and> fn (d bg) (d bg) = (ret, v))"
| "data_ok v _ d index = (d index = v \<and> d (flip index) = v)"

fun published :: "'a db_event list \<Rightarrow> 'a modifier list" where
  "published [] = []"
| "published (Published fn # evs) = fn # published evs"
| "published (_ # evs) = published evs"

text \<open>The specification: one value, to which each published modification is applied once.\<close>

fun spec_value :: "'a \<Rightarrow> 'a modifier list \<Rightarrow> 'a" where
  "spec_value v [] = v"
| "spec_value v (fn # fns) = spec_value (snd (fn v v)) fns"

lemma published_append [simp]: "published (evs @ evs') = published evs @ published evs'"
  by (induction evs rule: published.induct) simp_all

lemma spec_value_append [simp]: "spec_value v (fns @ fns') = spec_value (spec_value v fns) fns'"
  by (induction fns arbitrary: v) simp_all

definition db_inv :: "'a \<Rightarrow> 'a dbd \<Rightarrow> bool" where
  "db_inv v s \<longleftrightarrow> lock_inv s \<and> readers_ok s \<and> data_ok v (phase s) (db_data s) (db_index s)"

lemma read_step_frame:
  assumes "read_step alloc push_ok set_ok t s = Some (Inr (ev, s'))"
  shows "db_data s' = db_data s" "db_index s' = db_index s" "db_modify_mutex s' = db_modify_mutex s"
    "\<And>u. u \<noteq> t \<Longrightarrow> db_pc s' u = db_pc s u" "db_pc s' t = Reading w i \<Longrightarrow> i = db_index s" "\<And>fn. ev \<noteq> Some (Published fn)"
    "db_pc s' t = Reading w i \<longleftrightarrow> ev = Some (Took t) \<and> db_pc s t = RdLoad w \<and> i = db_index s" "ev \<in> {None, Some (Took t), Some (Released t), Some (ReadFailed t)}"
  using assms by (auto simp: read_step_def split: db_pc.splits if_splits option.splits)

lemma modify_step_frame:
  assumes "modify_step t s = Some (Inr (ev, s'))"
  shows "\<And>u. u \<noteq> t \<Longrightarrow> db_pc s' u = db_pc s u" "db_pc s' t \<noteq> Reading w i" "ev \<noteq> Some (Took u)" "ev \<noteq> Some (Released u)" "db_pc s t \<noteq> Reading w i"
  using assms by (auto simp: modify_step_def Let_def split: db_pc.splits if_splits list.splits prod.splits)

lemma reader_ok_front: "reader_ok ph index w index"
  by (cases ph) simp_all

lemma read_step_inv:
  assumes inv: "db_inv v s" and im: "\<not> in_modify (db_pc s t)" and st: "read_step alloc push_ok set_ok t s = Some (Inr (ev, s'))"
  shows "db_inv v s'"
proof -
  note F = read_step_frame [OF st]
  have l: "lock_inv s" using inv by (simp add: db_inv_def)
  then have "phase s' = phase s" using F(3,4) no_locks(1) [OF l im] by (auto simp: phase_def split: option.splits)
  moreover have "readers_ok s'"
    unfolding readers_ok_def
  proof (intro allI impI)
    fix u w i
    assume "db_pc s' u = Reading w i"
    then show "reader_ok (phase s') (db_index s') w i"
      using inv F(2,4,5) reader_ok_front calculation by (cases "u = t") (auto simp: db_inv_def readers_ok_def)
  qed
  ultimately show ?thesis using inv read_step_lock_inv [OF l im st] F(1,2) by (simp add: db_inv_def)
qed

fun next_value :: "'a \<Rightarrow> 'a db_event option \<Rightarrow> 'a" where
  "next_value v (Some (Published fn)) = snd (fn v v)"
| "next_value v _ = v"

text \<open>The readers, after the modifier has moved on.\<close>

lemma readers_ok_step:
  assumes l: "lock_inv s" and r: "readers_ok s" and fr: "\<And>u. u \<noteq> t \<Longrightarrow> db_pc s' u = db_pc s u" "\<And>w i. db_pc s' t \<noteq> Reading w i"
    and ok: "\<And>u w i. db_pc s u = Reading w i \<Longrightarrow> reader_ok (phase s) (db_index s) w i \<Longrightarrow> db_mutex s w \<noteq> None \<Longrightarrow> w \<in> set (db_wrappers s) \<Longrightarrow>
        reader_ok (phase s') (db_index s') w i"
  shows "readers_ok s'"
  unfolding readers_ok_def
proof (intro allI impI)
  fix u w i
  assume "db_pc s' u = Reading w i"
  then have u: "db_pc s u = Reading w i" using fr by (cases "u = t") auto
  then have "db_mutex s w \<noteq> None" "w \<in> set (db_wrappers s)" using lock_invD(3) [OF l, of u] lock_invD(4) [OF l, of u] by auto
  then show "reader_ok (phase s') (db_index s') w i" using ok [OF u] r u by (auto simp: readers_ok_def)
qed

lemma modify_step_readers:
  assumes inv: "db_inv v s" and st: "modify_step t s = Some (Inr (ev, s'))"
  shows "readers_ok s'"
proof -
  have l: "lock_inv s" and r: "readers_ok s" using inv by (simp_all add: db_inv_def)
  note P = lock_invD(4) [OF l, of t]
  note F = modify_step_frame [OF st]
  have "in_modify (db_pc s t)" using st by (auto simp: modify_step_def split: db_pc.splits)
  then have "reader_ok (phase s') (db_index s') w i"
    if "reader_ok (phase s) (db_index s) w i" "db_mutex s w \<noteq> None" "w \<in> set (db_wrappers s)" for w i
    using that st P
    by (cases "db_pc s t") (auto simp: modify_step_def phase_def Let_def split: if_splits prod.splits list.splits)
  then show ?thesis using F(1,2) by (intro readers_ok_step [OF l r, of t]) auto
qed

lemma modify_step_data:
  assumes inv: "db_inv v s" and st: "modify_step t s = Some (Inr (ev, s'))"
  shows "data_ok (next_value v ev) (phase s') (db_data s') (db_index s')"
proof -
  have l: "lock_inv s" and d: "data_ok v (phase s) (db_data s) (db_index s)" using inv by (simp_all add: db_inv_def)
  note P = lock_invD(4) [OF l, of t] and I = lock_invD(8) [OF l]
  have "in_modify (db_pc s t)" using st by (auto simp: modify_step_def split: db_pc.splits)
  then show ?thesis
  proof (cases "db_pc s t")
    case (Mod2 fn bg)
    have e: "db_data s bg = v" "db_data s (flip bg) = v" "phase s = Mod2 fn bg" "bg = flip (db_index s)" using Mod2 P d I by (auto simp: phase_def)
    obtain ret x where x: "fn v v = (ret, x)" by (cases "fn v v")
    then have "ret = 0 \<Longrightarrow> x = v" using P Mod2 by (auto simp: mod_ok_def dest!: spec [of _ v])
    then show ?thesis using st Mod2 e x I P by (auto simp: modify_step_def phase_def Let_def split: if_splits)
  next
    case (Mod6 fn bg ret)
    have e: "db_data s (db_index s) = v" "fn (db_data s bg) (db_data s bg) = (ret, v)" "bg = flip (db_index s)" "ret \<noteq> 0" "mod_ok fn"
      using Mod6 P d I by (auto simp: phase_def)
    then have "fn (db_data s bg) v = (ret, v)" by (auto simp: mod_ok_def dest!: spec [of _ "db_data s bg"])
    then show ?thesis using st Mod6 e I by (auto simp: modify_step_def phase_def split: if_splits)
  qed (use st P d I in \<open>auto simp: modify_step_def phase_def split: if_splits list.splits\<close>)
qed

lemma step_inv:
  assumes inv: "db_inv v s" and st: "db_step alloc push_ok set_ok t s = Some (Inr (ev, s'))"
  shows "db_inv (next_value v ev) s'"
proof (cases "in_modify (db_pc s t)")
  case True
  then have m: "modify_step t s = Some (Inr (ev, s'))" using st by (simp add: db_step_def)
  have "lock_inv s'" using step_lock_inv [OF _ st] inv by (simp add: db_inv_def)
  then show ?thesis using modify_step_readers [OF inv m] modify_step_data [OF inv m] by (simp add: db_inv_def)
next
  case False
  then have r: "read_step alloc push_ok set_ok t s = Some (Inr (ev, s'))" using st by (simp add: db_step_def)
  have "next_value v ev = v" using read_step_frame(8) [OF r] by auto
  then show ?thesis using read_step_inv [OF inv False r] by simp
qed

lemma step_no_fault:
  assumes inv: "db_inv v s" and st: "db_step alloc push_ok set_ok t s = Some r"
  shows "\<exists>x. r = Inr x"
proof -
  have l: "lock_inv s" and d: "data_ok v (phase s) (db_data s) (db_index s)" using inv by (simp_all add: db_inv_def)
  note P = lock_invD(4) [OF l, of t] and D = lock_invD(2,3) [OF l]
  show ?thesis
  proof (cases "db_pc s t")
    case (Mod6 fn bg ret)
    have e: "db_data s (flip bg) = v" "fn (db_data s bg) (db_data s bg) = (ret, v)" "ret \<noteq> 0" "mod_ok fn"
      using Mod6 P d lock_invD(8) [OF l] by (auto simp: phase_def)
    then have "fn (db_data s bg) v = (ret, v)" by (auto simp: mod_ok_def dest!: spec [of _ "db_data s bg"])
    then show ?thesis using st Mod6 e by (auto simp: db_step_def modify_step_def)
  next
    case (Mod5 fn bg ret ws)
    then show ?thesis using st P D(1) by (cases ws) (auto simp: db_step_def modify_step_def split: if_splits)
  qed (use st P D in \<open>auto simp: db_step_def read_step_def modify_step_def Let_def split: if_splits option.splits prod.splits\<close>)
qed

lemma db_run_inv: "db_run created v evs s \<Longrightarrow> db_inv (spec_value v (published evs)) s"
proof (induction rule: db_run.induct)
  case db_start
  then show ?case using lock_inv_start by (auto simp: db_inv_def readers_ok_def db_init_def phase_def)
next
  case (db_call evs s t pc)
  have l: "lock_inv s" using db_call.IH by (simp add: db_inv_def)
  have "db_modify_mutex s \<noteq> Some t" using lock_invD(6) [OF l, of t] db_call.hyps(2) by auto
  then have "phase (db_goto t pc s) = phase s" by (auto simp: phase_def split: option.splits)
  moreover have "readers_ok (db_goto t pc s)"
    using db_call.IH db_call.hyps(3) calculation by (auto simp: db_inv_def readers_ok_def)
  ultimately show ?case using db_call.IH goto_lock_inv [OF l db_call.hyps(2,3)] by (simp add: db_inv_def)
next
  case (db_next evs s alloc push_ok set_ok t ev s')
  have "spec_value v (published (evs @ (case ev of None \<Rightarrow> [] | Some e \<Rightarrow> [e]))) = next_value (spec_value v (published evs)) ev"
    by (cases "(v, ev)" rule: next_value.cases) auto
  then show ?case using step_inv [OF db_next.IH db_next.hyps(2)] by simp
qed

section \<open>Readers\<close>

text \<open>The instance that a thread is about to write, in either call of the modification.\<close>

fun writes :: "'a db_pc \<Rightarrow> nat \<Rightarrow> bool" where
  "writes (Mod2 _ bg) i = (i = bg)"
| "writes (Mod6 _ bg _) i = (i = bg)"
| "writes _ i = False"

lemma no_race:
  assumes inv: "db_inv v s" and w: "writes (db_pc s t) i" and r: "db_pc s u = Reading x i"
  shows False
proof -
  have l: "lock_inv s" and "reader_ok (phase s) (db_index s) x i" using inv r by (auto simp: db_inv_def readers_ok_def)
  then show False using w lock_invD(4) [OF l, of t] by (cases "db_pc s t") (auto simp: phase_def)
qed

lemma step_keeps_instance:
  assumes inv: "db_inv v s" and st: "db_step alloc push_ok set_ok t s = Some (Inr (ev, s'))" and r: "db_pc s u = Reading w i"
  shows "db_data s' i = db_data s i"
proof (cases "in_modify (db_pc s t)")
  case True
  then have m: "modify_step t s = Some (Inr (ev, s'))" using st by (simp add: db_step_def)
  have "\<not> writes (db_pc s t) i" using no_race [OF inv _ r] by blast
  then show ?thesis using m by (cases "db_pc s t") (auto simp: modify_step_def Let_def split: if_splits list.splits prod.splits)
next
  case False
  then show ?thesis using st read_step_frame(1) [of alloc push_ok set_ok t s ev s'] by (simp add: db_step_def)
qed

definition snapshot :: "'a \<Rightarrow> 'a db_event list \<Rightarrow> nat \<Rightarrow> 'a \<Rightarrow> bool" where
  "snapshot v evs t x \<longleftrightarrow> (\<exists>evs1 evs2. evs = evs1 @ Took t # evs2 \<and> Took t \<notin> set evs2 \<and> Released t \<notin> set evs2 \<and>
     x = spec_value v (published evs1))"

lemma snapshot_now: "x = spec_value v (published evs) \<Longrightarrow> snapshot v (evs @ [Took t]) t x"
  unfolding snapshot_def by (intro exI [of _ evs] exI [of _ "[]"]) simp

lemma snapshot_later: "snapshot v evs t x \<Longrightarrow> Took t \<notin> set evs' \<Longrightarrow> Released t \<notin> set evs' \<Longrightarrow> snapshot v (evs @ evs') t x"
  unfolding snapshot_def by (elim exE conjE) (rule exI, rule exI, rule conjI [of _ "_ \<and> _"], simp, auto)

lemma run_snapshot: "db_run created v evs s \<Longrightarrow> db_pc s t = Reading w i \<Longrightarrow> snapshot v evs t (db_data s i)"
proof (induction arbitrary: w i rule: db_run.induct)
  case db_start
  then show ?case by (simp add: db_init_def)
next
  case (db_call evs s u pc)
  then show ?case by (cases "u = t") auto
next
  case (db_next evs s alloc push_ok set_ok u ev s')
  note inv = db_run_inv [OF db_next.hyps(1)]
  let ?evs = "case ev of None \<Rightarrow> [] | Some e \<Rightarrow> [e]"
  show ?case
  proof (cases "u = t")
    case True
    then have rd: "read_step alloc push_ok set_ok t s = Some (Inr (ev, s'))"
      using db_next.hyps(2) db_next.prems modify_step_frame(2) [of t s ev s' w i] by (auto simp: db_step_def split: if_splits)
    note F = read_step_frame(1) [OF rd] read_step_frame(7) [OF rd, of w i]
    have "db_data s (db_index s) = spec_value v (published evs)"
      using inv by (cases "phase s") (auto simp: db_inv_def)
    then show ?thesis using F db_next.prems snapshot_now [of "db_data s i" v evs t] by auto
  next
    case False
    have ev: "ev \<noteq> Some (Took t)" "ev \<noteq> Some (Released t)" "db_pc s' t = db_pc s t"
      using db_next.hyps(2) False modify_step_frame(1,3,4) [of u s ev s'] read_step_frame(4,8) [of alloc push_ok set_ok u s ev s']
      by (auto simp: db_step_def split: if_splits)
    then have r: "db_pc s t = Reading w i" using db_next.prems by simp
    show ?thesis
      using snapshot_later [OF db_next.IH [OF r], of ?evs] step_keeps_instance [OF inv db_next.hyps(2) r] ev by (auto split: option.splits)
  qed
qed

section \<open>Progress\<close>

definition can_step :: "nat \<Rightarrow> 'a dbd \<Rightarrow> bool" where
  "can_step t s \<longleftrightarrow> (\<exists>alloc push_ok set_ok. db_step alloc push_ok set_ok t s \<noteq> None)"

lemma can_stepI: "db_step alloc push_ok set_ok t s = Some r \<Longrightarrow> can_step t s"
  by (auto simp: can_step_def)

lemma modifier_can_step:
  assumes l: "lock_inv s" and m: "modifying (db_pc s t)"
  shows "can_step t s \<or> (\<exists>fn bg ret w ws u. db_pc s t = Mod5 fn bg ret (w # ws) \<and> db_mutex s w = Some u \<and> has_pointer w (db_pc s u))"
proof -
  note P = lock_invD(4) [OF l, of t]
  show ?thesis
  proof (cases "db_pc s t")
    case (Mod4 fn bg ret)
    have "db_wrappers_mutex s = None"
    proof (cases "db_wrappers_mutex s")
      case (Some u)
      then have "u = t" using P Mod4 lock_invD(4,7) [OF l, of u] by (cases "db_pc s u") auto
      then show ?thesis using lock_invD(7) [OF l Some] Mod4 by simp
    qed simp
    then show ?thesis using Mod4 by (auto simp: can_step_def db_step_def modify_step_def)
  next
    case (Mod5 fn bg ret ws)
    then show ?thesis using lock_invD(5) [OF l] by (cases ws) (auto simp: can_step_def db_step_def modify_step_def split: if_splits)
  qed (use m in \<open>auto simp: can_step_def db_step_def modify_step_def Let_def split: prod.splits\<close>)
qed

lemma reader_can_step:
  assumes l: "lock_inv s" and r: "\<not> in_modify (db_pc s t)" "db_pc s t \<noteq> DIdle"
  shows "can_step t s \<longleftrightarrow>
    \<not> (db_wrappers_mutex s \<noteq> None \<and> ((\<exists>w. db_pc s t = RdAdd w \<or> db_pc s t = RdDel w) \<or> db_pc s t = Quit \<and> db_tls s t \<noteq> None))"
proof -
  note P = lock_invD(4) [OF l, of t]
  show ?thesis
  proof (cases "db_pc s t")
    case Rd0
    then show ?thesis by (auto simp: can_step_def db_step_def read_step_def split: option.splits intro!: exI [of _ None])
  next
    case (RdBegin w)
    have "db_mutex s w = None"
    proof (cases "db_mutex s w")
      case (Some u)
      then have "owns s u w" using lock_invD(4) [OF l, of u] lock_invD(5) [OF l Some] by (cases "db_pc s u") (auto simp: owns_def)
      moreover have "owns s t w" using P RdBegin by (simp add: owns_def)
      ultimately have "u = t" using lock_inv_owner(2) [OF l] by blast
      then show ?thesis using lock_invD(5) [OF l Some] RdBegin by simp
    qed simp
    then show ?thesis using RdBegin by (auto simp: can_step_def db_step_def read_step_def)
  qed (use r in \<open>auto simp: can_step_def db_step_def read_step_def split: option.splits\<close>)
qed

text \<open>Runs that follow a schedule: a call, or a step with the address at which a wrapper would be allocated.\<close>

fun db_exec :: "('a db_pc option \<times> nat \<times> nat) list \<Rightarrow> 'a db_event list \<times> 'a dbd \<Rightarrow> ('a db_event list \<times> 'a dbd) option" where
  "db_exec [] r = Some r"
| "db_exec ((Some pc, t, a) # sched) (evs, s) =
     (case db_pc s t of DIdle \<Rightarrow> db_exec sched (evs, db_goto t pc s) | _ \<Rightarrow> None)"
| "db_exec ((None, t, a) # sched) (evs, s) =
     (case db_step (Some a) True True t s of
        Some (Inr (ev, s')) \<Rightarrow> db_exec sched (evs @ (case ev of None \<Rightarrow> [] | Some e \<Rightarrow> [e]), s') | _ \<Rightarrow> None)"

lemma db_exec_run:
  assumes "db_exec sched (evs, s) = Some (evs', s')" "db_run created v evs s"
    and "\<And>pc t a. (Some pc, t, a) \<in> set sched \<Longrightarrow> pc = Rd0 \<or> pc = Quit \<or> (\<exists>fn. mod_ok fn \<and> pc = Mod0 fn)"
  shows "db_run created v evs' s'"
  using assms
proof (induction sched arbitrary: evs s)
  case (Cons x sched)
  obtain c t a where x: "x = (c, t, a)" by (cases x)
  show ?case
  proof (cases c)
    case None
    then obtain ev s1 where st: "db_step (Some a) True True t s = Some (Inr (ev, s1))"
      and r: "db_exec sched (evs @ (case ev of None \<Rightarrow> [] | Some e \<Rightarrow> [e]), s1) = Some (evs', s')"
      using Cons.prems(1) x by (auto split: option.splits sum.splits)
    show ?thesis by (rule Cons.IH [OF r db_run.db_next [OF Cons.prems(2) st]]) (use Cons.prems(3) in auto)
  next
    case (Some pc)
    then have i: "db_pc s t = DIdle" and r: "db_exec sched (evs, db_goto t pc s) = Some (evs', s')"
      using Cons.prems(1) x by (auto split: db_pc.splits)
    have "pc = Rd0 \<or> pc = Quit \<or> (\<exists>fn. mod_ok fn \<and> pc = Mod0 fn)" using Cons.prems(3) x Some by auto
    then show ?thesis by (intro Cons.IH [OF r] db_run.db_call [OF Cons.prems(2) i]) (use Cons.prems(3) in auto)
  qed
qed simp

text \<open>Thread 0 reads, thread 1 adds 5 and waits for it, thread 2 wants to read for the first time.\<close>

definition add5 :: "nat \<Rightarrow> u64 \<times> nat" where
  "add5 x = (1, x + 5)"

definition db_schedule :: "(nat db_pc option \<times> nat \<times> nat) list" where
  "db_schedule =
     [(Some Rd0, 0, 0), (None, 0, 10), (None, 0, 0), (None, 0, 0), (None, 0, 0), (None, 0, 0),
      (Some (Modify add5), 1, 0), (None, 1, 0), (None, 1, 0), (None, 1, 0), (None, 1, 0), (Some Rd0, 2, 0), (None, 2, 11), (None, 1, 0)]"

lemma db_schedule_exec:
  "\<exists>evs s. db_exec db_schedule ([], db_init True 7) = Some (evs, s) \<and> db_pc s 0 = Reading 10 0 \<and> db_pc s 2 = RdAdd 11 \<and>
     db_index s = 1 \<and> db_wrappers_mutex s = Some 1 \<and> db_data s 0 = 7 \<and> db_data s 1 = 12"
  by (simp add: db_schedule_def db_init_def db_step_def read_step_def modify_step_def Modify_def add5_def flip_def)

lemma db_schedule_run: "db_exec db_schedule ([], db_init True 7) = Some (evs, s) \<Longrightarrow> db_run True 7 evs s"
  by (erule db_exec_run [OF _ db_run.db_start]) (auto simp: db_schedule_def Modify_def mod_ok_def add5_def)

section \<open>Properties\<close>

text \<open>
C15: Whatever threads read, modify and quit in whatever interleaving, no step uses a deleted wrapper and the results of the
two calls of a modification agree; a reader sees, as long as it holds its pointer, the value that resulted from the
modifications published before it took the pointer; no thread writes an instance that another thread reads; and
when no modification is under way both instances hold the result of all published modifications, each applied once.\<close>

theorem readers_see_snapshots:
  assumes "db_run created v evs s"
  shows "(\<forall>alloc push_ok set_ok t r. db_step alloc push_ok set_ok t s = Some r \<longrightarrow> (\<exists>x. r = Inr x)) \<and>
     (\<forall>t w i. db_pc s t = Reading w i \<longrightarrow> snapshot v evs t (db_data s i) \<and> (\<forall>u. \<not> writes (db_pc s u) i)) \<and>
     (db_modify_mutex s = None \<longrightarrow> db_data s 0 = spec_value v (published evs) \<and> db_data s 1 = spec_value v (published evs))"
proof -
  note inv = db_run_inv [OF assms]
  have "db_data s 0 = spec_value v (published evs) \<and> db_data s 1 = spec_value v (published evs)" if "db_modify_mutex s = None"
  proof -
    have "db_index s = 0 \<or> db_index s = 1" using inv by (auto simp: db_inv_def lock_inv_def)
    then show ?thesis using inv that by (auto simp: db_inv_def phase_def)
  qed
  then show ?thesis using step_no_fault [OF inv] run_snapshot [OF assms] no_race [OF inv] by blast
qed

theorem readers_see_snapshots_witness:
  "\<exists>evs s. db_exec db_schedule ([], db_init True 7) = Some (evs, s) \<and> db_pc s 0 = Reading 10 0 \<and> db_data s (db_index s) = 12 \<and>
     snapshot 7 evs 0 (db_data s 0)"
proof -
  obtain evs s where e: "db_exec db_schedule ([], db_init True 7) = Some (evs, s)" "db_pc s 0 = Reading 10 0" "db_index s = 1" "db_data s 1 = 12"
    using db_schedule_exec by blast
  then have "snapshot 7 evs 0 (db_data s 0)" using readers_see_snapshots [OF db_schedule_run [OF e(1)]] by blast
  then show ?thesis using e by (intro exI [of _ evs] exI [of _ s]) simp
qed



end
