(* ===== verification/ResourcePool.thy ===== *)
theory ResourcePool
  imports Prelude
begin

unbundle bit_operations_syntax

text \<open>
  \<^verbatim>\<open>butil/resource_pool_inl.h\<close>: objects that are addressed by 64-bit ids and never freed.  Each thread has a local pool
  with a block of its own and a list of free ids; full lists move to a global list of chunks.  Blocks are entered
  into groups by atomic counters that may overshoot.  Threads are interleaved: an access to shared memory is a step,
  and so is what happens inside one lock.
\<close>

section \<open>Sizes\<close>

record rp_config =
  rc_sizeof :: nat
  rc_max_size :: nat       \<comment> \<open>\<open>ResourcePoolBlockMaxSize\<close>\<close>
  rc_max_item :: nat       \<comment> \<open>\<open>ResourcePoolBlockMaxItem\<close>\<close>
  rc_chunk_max :: nat      \<comment> \<open>\<open>ResourcePoolFreeChunkMaxItem\<close>\<close>

definition rp_default :: "nat \<Rightarrow> rp_config" where
  "rp_default n = \<lparr>rc_sizeof = n, rc_max_size = 64 * 1024, rc_max_item = 256, rc_chunk_max = 256\<rparr>"

definition BLOCK_NITEM :: "rp_config \<Rightarrow> nat" where
  "BLOCK_NITEM c =
     (let N1 = rc_max_size c div rc_sizeof c; N2 = (if N1 < 1 then 1 else N1) in if N2 > rc_max_item c then rc_max_item c else N2)"

definition free_chunk_nitem :: "rp_config \<Rightarrow> nat" where
  "free_chunk_nitem c = (let n = rc_chunk_max c in if n < BLOCK_NITEM c then n else BLOCK_NITEM c)"

definition RP_MAX_BLOCK_NGROUP :: nat where
  "RP_MAX_BLOCK_NGROUP = 65536"

definition RP_GROUP_NBLOCK_NBIT :: nat where
  "RP_GROUP_NBLOCK_NBIT = 16"

definition RP_GROUP_NBLOCK :: nat where
  "RP_GROUP_NBLOCK = 2 ^ RP_GROUP_NBLOCK_NBIT"

section \<open>State\<close>

text \<open>A block is an address; the heap says how many of its items are constructed.\<close>

record block_group =
  bg_nblock :: nat
  bg_blocks :: "nat \<Rightarrow> nat option"

record local_pool =
  lp_cur_block :: "nat option"
  lp_cur_block_index :: nat
  lp_cur_free :: "u64 list"

datatype rp_pc =
    PIdle
  | Get0                    \<comment> \<open>\<open>get_resource\<close> is called\<close>
  | GetPop                  \<comment> \<open>before \<open>pop_free_chunk\<close>\<close>
  | GetBlk                  \<comment> \<open>looks at its own block\<close>
  | Add0 nat                \<comment> \<open>has a new block, before loading \<open>_ngroup\<close>\<close>
  | Add1 nat nat            \<comment> \<open>before the \<^verbatim>\<open>fetch_add\<close> on the last group\<close>
  | Add2 nat nat nat        \<comment> \<open>has got an entry, before storing the block there\<close>
  | Add3 nat nat            \<comment> \<open>has overshot, before the \<^verbatim>\<open>fetch_sub\<close>\<close>
  | AddG nat nat            \<comment> \<open>before \<open>add_block_group\<close>\<close>
  | GetNew                  \<comment> \<open>constructs an item of the new block\<close>
  | Ret0 u64                \<comment> \<open>\<open>return_resource\<close> is called\<close>
  | RetPush u64             \<comment> \<open>before \<open>push_free_chunk\<close>\<close>
  | Clear                   \<comment> \<open>\<open>clear_resources\<close>, or the thread ends\<close>

record rpool =
  rp_ngroup :: nat
  rp_block_groups :: "nat \<Rightarrow> block_group option"
  rp_nitem :: "nat \<Rightarrow> nat option"
  rp_free_chunks :: "u64 list list"
  rp_local :: "nat \<Rightarrow> local_pool option"
  rp_nlocal :: int
  rp_pc :: "nat \<Rightarrow> rp_pc"

definition rp_start :: rpool where
  "rp_start = \<lparr>rp_ngroup = 0, rp_block_groups = (\<lambda>_. None), rp_nitem = (\<lambda>_. None), rp_free_chunks = [], rp_local = (\<lambda>_. None),
     rp_nlocal = 0, rp_pc = (\<lambda>_. PIdle)\<rparr>"

definition new_local :: local_pool where
  "new_local = \<lparr>lp_cur_block = None, lp_cur_block_index = 0, lp_cur_free = []\<rparr>"

definition new_group :: block_group where
  "new_group = \<lparr>bg_nblock = 0, bg_blocks = (\<lambda>_. None)\<rparr>"

text \<open>An object is an item of a block.\<close>

type_synonym item = "nat \<times> nat"

datatype rp_event = Got nat u64 item | GotNull nat | Gave u64 | GaveBack u64 | Done

section \<open>Addressing\<close>

definition rp_id :: "rp_config \<Rightarrow> nat \<Rightarrow> nat \<Rightarrow> u64" where
  "rp_id c block_index nitem = of_nat block_index * of_nat (BLOCK_NITEM c) + of_nat nitem"

definition find_block :: "u64 \<Rightarrow> rpool \<Rightarrow> nat option" where
  "find_block block_index s =
     (case rp_block_groups s (unat (drop_bit RP_GROUP_NBLOCK_NBIT block_index)) of
        None \<Rightarrow> None
      | Some bg \<Rightarrow> bg_blocks bg (unat (block_index AND (of_nat RP_GROUP_NBLOCK - 1))))"

definition unsafe_address_resource :: "rp_config \<Rightarrow> u64 \<Rightarrow> rpool \<Rightarrow> item res" where
  "unsafe_address_resource c i s =
     (let block_index = i div of_nat (BLOCK_NITEM c) in
      case find_block block_index s of
        None \<Rightarrow> Inl NullDeref
      | Some b \<Rightarrow> Inr (b, unat (i - block_index * of_nat (BLOCK_NITEM c))))"

definition address_resource :: "rp_config \<Rightarrow> u64 \<Rightarrow> rpool \<Rightarrow> item option" where
  "address_resource c i s =
     (let block_index = i div of_nat (BLOCK_NITEM c) in
      if unat (drop_bit RP_GROUP_NBLOCK_NBIT block_index) < RP_MAX_BLOCK_NGROUP then
        (case find_block block_index s of
           None \<Rightarrow> None
         | Some b \<Rightarrow>
             let off = unat (i - block_index * of_nat (BLOCK_NITEM c)) in
             (case rp_nitem s b of None \<Rightarrow> None | Some n \<Rightarrow> if off < n then Some (b, off) else None))
      else None)"

section \<open>Operations\<close>

definition rp_goto :: "nat \<Rightarrow> rp_pc \<Rightarrow> rpool \<Rightarrow> rpool" where
  "rp_goto t pc s = s\<lparr>rp_pc := (rp_pc s)(t := pc)\<rparr>"

definition set_local :: "nat \<Rightarrow> local_pool option \<Rightarrow> rpool \<Rightarrow> rpool" where
  "set_local t l s = s\<lparr>rp_local := (rp_local s)(t := l)\<rparr>"

definition set_group :: "nat \<Rightarrow> block_group \<Rightarrow> rpool \<Rightarrow> rpool" where
  "set_group j g s = s\<lparr>rp_block_groups := (rp_block_groups s)(j \<mapsto> g)\<rparr>"

definition set_nitem :: "nat \<Rightarrow> nat option \<Rightarrow> rpool \<Rightarrow> rpool" where
  "set_nitem b n s = s\<lparr>rp_nitem := (rp_nitem s)(b := n)\<rparr>"

text \<open>\<open>get_or_new_local_pool\<close>.\<close>

definition new_local_pool :: "nat \<Rightarrow> rpool \<Rightarrow> rpool" where
  "new_local_pool t s = (set_local t (Some new_local) s)\<lparr>rp_nlocal := rp_nlocal s + 1\<rparr>"

text \<open>An id from a free list.\<close>

definition take_free :: "rp_config \<Rightarrow> nat \<Rightarrow> local_pool \<Rightarrow> u64 list \<Rightarrow> rpool \<Rightarrow> (rp_event option \<times> rpool) res" where
  "take_free c t l ids s =
     (if ids = [] then Inl OutOfRange
      else res_bind (unsafe_address_resource c (last ids) s) (\<lambda>p.
        Inr (Some (Got t (last ids) p), rp_goto t PIdle (set_local t (Some (l\<lparr>lp_cur_free := butlast ids\<rparr>)) s))))"

text \<open>An item of the thread's own block.\<close>

definition construct_item :: "rp_config \<Rightarrow> bool \<Rightarrow> nat \<Rightarrow> local_pool \<Rightarrow> rpool \<Rightarrow> (rp_event option \<times> rpool) res" where
  "construct_item c valid t l s =
     (case lp_cur_block l of
        None \<Rightarrow> Inl NullDeref
      | Some b \<Rightarrow>
          (case rp_nitem s b of
             None \<Rightarrow> Inl DeadDeref
           | Some n \<Rightarrow>
               if \<not> valid then Inr (Some (GotNull t), rp_goto t PIdle s)
               else Inr (Some (Got t (rp_id c (lp_cur_block_index l) n) (b, n)), rp_goto t PIdle (set_nitem b (Some (n + 1)) s))))"

definition new_block :: "bool \<Rightarrow> nat \<Rightarrow> nat \<Rightarrow> local_pool \<Rightarrow> rpool \<Rightarrow> (rp_event option \<times> rpool) res option" where
  "new_block ok addr t l s =
     (if \<not> ok then Some (Inr (Some (GotNull t), rp_goto t PIdle (set_local t (Some (l\<lparr>lp_cur_block := None\<rparr>)) s)))
      else if rp_nitem s addr \<noteq> None then None
      else Some (Inr (None, rp_goto t (Add0 addr) (set_nitem addr (Some 0) s))))"

text \<open>
  The next step of thread \<open>t\<close> in \<open>get_resource\<close>.  The environment chooses whether memory can be allocated and where, and
  whether a new object is valid; an address that is in use is no choice.
\<close>

definition get_step ::
  "rp_config \<Rightarrow> bool \<Rightarrow> nat \<Rightarrow> bool \<Rightarrow> nat \<Rightarrow> local_pool \<Rightarrow> rpool \<Rightarrow> (rp_event option \<times> rpool) res option" where
  "get_step c ok addr valid t l s =
     (case rp_pc s t of
        Get0 \<Rightarrow>
          if lp_cur_free l \<noteq> [] then Some (take_free c t l (lp_cur_free l) s)
          else Some (Inr (None, rp_goto t GetPop s))
      | GetPop \<Rightarrow>
          if rp_free_chunks s = [] then Some (Inr (None, rp_goto t GetBlk s))
          else Some (take_free c t l (last (rp_free_chunks s)) (s\<lparr>rp_free_chunks := butlast (rp_free_chunks s)\<rparr>))
      | GetBlk \<Rightarrow>
          (case lp_cur_block l of
             None \<Rightarrow> new_block ok addr t l s
           | Some b \<Rightarrow>
               (case rp_nitem s b of
                  None \<Rightarrow> Some (Inl DeadDeref)
                | Some n \<Rightarrow> if n < BLOCK_NITEM c then Some (construct_item c valid t l s) else new_block ok addr t l s))
      | GetNew \<Rightarrow> Some (construct_item c valid t l s)
      | _ \<Rightarrow> None)"

text \<open>\<open>add_block\<close> and, under its lock, \<open>add_block_group\<close>.\<close>

definition add_step :: "bool \<Rightarrow> nat \<Rightarrow> local_pool \<Rightarrow> rpool \<Rightarrow> (rp_event option \<times> rpool) res option" where
  "add_step ok t l s =
     (case rp_pc s t of
        Add0 b \<Rightarrow>
          let ngroup = rp_ngroup s in
          if ngroup \<ge> 1 then Some (Inr (None, rp_goto t (Add1 b ngroup) s)) else Some (Inr (None, rp_goto t (AddG b ngroup) s))
      | Add1 b ngroup \<Rightarrow>
          (case rp_block_groups s (ngroup - 1) of
             None \<Rightarrow> Some (Inl NullDeref)
           | Some g \<Rightarrow>
               let block_index = bg_nblock g; s' = set_group (ngroup - 1) (g\<lparr>bg_nblock := bg_nblock g + 1\<rparr>) s in
               if block_index < RP_GROUP_NBLOCK then Some (Inr (None, rp_goto t (Add2 b ngroup block_index) s'))
               else Some (Inr (None, rp_goto t (Add3 b ngroup) s')))
      | Add2 b ngroup block_index \<Rightarrow>
          (case rp_block_groups s (ngroup - 1) of
             None \<Rightarrow> Some (Inl NullDeref)
           | Some g \<Rightarrow>
               Some (Inr (None, rp_goto t GetNew
                 (set_local t (Some (l\<lparr>lp_cur_block := Some b, lp_cur_block_index := (ngroup - 1) * RP_GROUP_NBLOCK + block_index\<rparr>))
                   (set_group (ngroup - 1) (g\<lparr>bg_blocks := (bg_blocks g)(block_index \<mapsto> b)\<rparr>) s)))))
      | Add3 b ngroup \<Rightarrow>
          (case rp_block_groups s (ngroup - 1) of
             None \<Rightarrow> Some (Inl NullDeref)
           | Some g \<Rightarrow> Some (Inr (None, rp_goto t (AddG b ngroup) (set_group (ngroup - 1) (g\<lparr>bg_nblock := bg_nblock g - 1\<rparr>) s))))
      | AddG b old_ngroup \<Rightarrow>
          let ngroup = rp_ngroup s in
          if ngroup \<noteq> old_ngroup then Some (Inr (None, rp_goto t (Add0 b) s))
          else if ngroup < RP_MAX_BLOCK_NGROUP \<and> ok then
            Some (Inr (None, rp_goto t (Add0 b) ((set_group ngroup new_group s)\<lparr>rp_ngroup := ngroup + 1\<rparr>)))
          else Some (Inr (Some (GotNull t), rp_goto t PIdle (set_local t (Some (l\<lparr>lp_cur_block := None\<rparr>)) (set_nitem b None s))))
      | _ \<Rightarrow> None)"

definition return_step :: "rp_config \<Rightarrow> bool \<Rightarrow> nat \<Rightarrow> local_pool \<Rightarrow> rpool \<Rightarrow> (rp_event option \<times> rpool) res option" where
  "return_step c ok t l s =
     (case rp_pc s t of
        Ret0 i \<Rightarrow>
          if length (lp_cur_free l) < free_chunk_nitem c then
            Some (Inr (Some Done, rp_goto t PIdle (set_local t (Some (l\<lparr>lp_cur_free := lp_cur_free l @ [i]\<rparr>)) s)))
          else Some (Inr (None, rp_goto t (RetPush i) s))
      | RetPush i \<Rightarrow>
          if ok then
            Some (Inr (Some Done, rp_goto t PIdle
              (set_local t (Some (l\<lparr>lp_cur_free := [i]\<rparr>)) (s\<lparr>rp_free_chunks := rp_free_chunks s @ [lp_cur_free l]\<rparr>))))
          else Some (Inr (Some (GaveBack i), rp_goto t PIdle s))
      | _ \<Rightarrow> None)"

text \<open>The destructor of a local pool; what it cannot push is lost.\<close>

definition clear_step :: "bool \<Rightarrow> nat \<Rightarrow> local_pool \<Rightarrow> rpool \<Rightarrow> (rp_event option \<times> rpool) res option" where
  "clear_step ok t l s =
     Some (Inr (None, rp_goto t PIdle (set_local t None
       (s\<lparr>rp_free_chunks := (if lp_cur_free l \<noteq> [] \<and> ok then rp_free_chunks s @ [lp_cur_free l] else rp_free_chunks s),
          rp_nlocal := rp_nlocal s - 1\<rparr>))))"

definition rp_step ::
  "rp_config \<Rightarrow> bool \<Rightarrow> nat \<Rightarrow> bool \<Rightarrow> nat \<Rightarrow> rpool \<Rightarrow> (rp_event option \<times> rpool) res option" where
  "rp_step c ok addr valid t s =
     (case rp_local s t of
        None \<Rightarrow>
          (case rp_pc s t of
             Get0 \<Rightarrow> if ok then Some (Inr (None, new_local_pool t s)) else Some (Inr (Some (GotNull t), rp_goto t PIdle s))
           | Ret0 i \<Rightarrow> if ok then Some (Inr (None, new_local_pool t s)) else Some (Inr (Some (GaveBack i), rp_goto t PIdle s))
           | Clear \<Rightarrow> Some (Inr (None, rp_goto t PIdle s))
           | PIdle \<Rightarrow> None
           | _ \<Rightarrow> Some (Inl NullDeref))
      | Some l \<Rightarrow>
          (case rp_pc s t of
             PIdle \<Rightarrow> None
           | Clear \<Rightarrow> clear_step ok t l s
           | Ret0 i \<Rightarrow> return_step c ok t l s
           | RetPush i \<Rightarrow> return_step c ok t l s
           | Get0 \<Rightarrow> get_step c ok addr valid t l s
           | GetPop \<Rightarrow> get_step c ok addr valid t l s
           | GetBlk \<Rightarrow> get_step c ok addr valid t l s
           | GetNew \<Rightarrow> get_step c ok addr valid t l s
           | _ \<Rightarrow> add_step ok t l s))"

section \<open>Runs\<close>

text \<open>The ids that users hold.\<close>

fun held_step :: "u64 list \<Rightarrow> rp_event \<Rightarrow> u64 list" where
  "held_step h (Got t i p) = i # h"
| "held_step h (Gave i) = remove1 i h"
| "held_step h (GaveBack i) = i # h"
| "held_step h _ = h"

definition held :: "rp_event list \<Rightarrow> u64 list" where
  "held evs = foldl held_step [] evs"

inductive rp_run :: "rp_config \<Rightarrow> rp_event list \<Rightarrow> rpool \<Rightarrow> bool" for c where
  rp_first: "rp_run c [] rp_start"
| rp_get: "rp_run c evs s \<Longrightarrow> rp_pc s t = PIdle \<Longrightarrow> rp_run c evs (rp_goto t Get0 s)"
| rp_return: "rp_run c evs s \<Longrightarrow> rp_pc s t = PIdle \<Longrightarrow> i \<in> set (held evs) \<Longrightarrow> rp_run c (evs @ [Gave i]) (rp_goto t (Ret0 i) s)"
| rp_clear: "rp_run c evs s \<Longrightarrow> rp_pc s t = PIdle \<Longrightarrow> rp_run c evs (rp_goto t Clear s)"
| rp_next: "rp_run c evs s \<Longrightarrow> rp_step c ok addr valid t s = Some (Inr (ev, s')) \<Longrightarrow>
    rp_run c (evs @ (case ev of None \<Rightarrow> [] | Some e \<Rightarrow> [e])) s'"

section \<open>Ids\<close>

definition rp_config_ok :: "rp_config \<Rightarrow> bool" where
  "rp_config_ok c \<longleftrightarrow> 1 \<le> rc_max_item c \<and> rc_max_item c \<le> 2 ^ 32 \<and> 1 \<le> rc_chunk_max c"

lemma config_bounds:
  assumes "rp_config_ok c"
  shows "1 \<le> BLOCK_NITEM c" "BLOCK_NITEM c \<le> 2 ^ 32" "1 \<le> free_chunk_nitem c"
  using assms by (auto simp: rp_config_ok_def BLOCK_NITEM_def free_chunk_nitem_def Let_def)

lemma group_sizes: "RP_GROUP_NBLOCK = 65536" "of_nat RP_GROUP_NBLOCK - 1 = (2 ^ 16 - 1 :: u64)"
  by (simp_all add: RP_GROUP_NBLOCK_def RP_GROUP_NBLOCK_NBIT_def)

lemma unat_rp_id:
  assumes "rp_config_ok c" "i < 2 ^ 32" "n < BLOCK_NITEM c"
  shows "unat (rp_id c i n) = i * BLOCK_NITEM c + n"
proof -
  have "i * BLOCK_NITEM c + n < Suc i * BLOCK_NITEM c" using assms(3) by simp
  also have "\<dots> \<le> 2 ^ 32 * 2 ^ 32" using assms(2) config_bounds(2) [OF assms(1)] by (intro mult_le_mono) simp_all
  finally have "i * BLOCK_NITEM c + n < 2 ^ 64" by simp
  moreover have "rp_id c i n = of_nat (i * BLOCK_NITEM c + n)" by (simp add: rp_id_def)
  ultimately show ?thesis by (simp only: unat_of_nat) simp
qed

text \<open>Taking an id apart.\<close>

lemma unat_BLOCK_NITEM: "rp_config_ok c \<Longrightarrow> unat (of_nat (BLOCK_NITEM c) :: u64) = BLOCK_NITEM c"
proof -
  assume "rp_config_ok c"
  then have "BLOCK_NITEM c < 2 ^ 64" using config_bounds(2) [of c] by simp
  then show ?thesis by (simp add: unat_of_nat)
qed

lemma id_parts:
  fixes i :: u64
  assumes c: "rp_config_ok c"
  shows "unat (i div of_nat (BLOCK_NITEM c)) = unat i div BLOCK_NITEM c"
    and "unat (i - i div of_nat (BLOCK_NITEM c) * of_nat (BLOCK_NITEM c)) = unat i mod BLOCK_NITEM c"
proof -
  show d: "unat (i div of_nat (BLOCK_NITEM c)) = unat i div BLOCK_NITEM c"
    using unat_BLOCK_NITEM [OF c] by (simp only: unat_div)
  have "i - i div of_nat (BLOCK_NITEM c) * of_nat (BLOCK_NITEM c) = i mod of_nat (BLOCK_NITEM c)"
    by (metis minus_div_mult_eq_mod)
  then show "unat (i - i div of_nat (BLOCK_NITEM c) * of_nat (BLOCK_NITEM c)) = unat i mod BLOCK_NITEM c"
    using unat_BLOCK_NITEM [OF c] by (simp only: unat_mod)
qed

lemma rp_id_parts:
  assumes "rp_config_ok c" "i < 2 ^ 32" "n < BLOCK_NITEM c"
  shows "unat (rp_id c i n) div BLOCK_NITEM c = i" "unat (rp_id c i n) mod BLOCK_NITEM c = n"
  using unat_rp_id [OF assms] assms(3) by simp_all

end
