(* ===== verification/ResourceGroups.thy ===== *)
theory ResourceGroups
  imports ResourcePool
begin

text \<open>
  The blocks of \<open>ResourcePool\<close>: every entry of a group is given to one thread, although the counters overshoot, a block is
  entered once, and no two threads have the same block.
\<close>

section \<open>Blocks and groups\<close>

definition block_at :: "rpool \<Rightarrow> nat \<Rightarrow> nat option" where
  "block_at s i =
     (case rp_block_groups s (i div RP_GROUP_NBLOCK) of None \<Rightarrow> None | Some g \<Rightarrow> bg_blocks g (i mod RP_GROUP_NBLOCK))"

lemma find_block_eq: "find_block w s = block_at s (unat w)"
proof -
  have "unat (drop_bit RP_GROUP_NBLOCK_NBIT w) = unat w div RP_GROUP_NBLOCK"
    unfolding unat_drop_bit RP_GROUP_NBLOCK_def by (rule refl)
  moreover have "unat (w AND (of_nat RP_GROUP_NBLOCK - 1)) = unat w mod RP_GROUP_NBLOCK"
    using unat_and_pow2 [of w 16] by (simp only: group_sizes(2)) (simp add: group_sizes(1))
  ultimately show ?thesis by (simp only: find_block_def block_at_def)
qed

fun block_of :: "rp_pc \<Rightarrow> nat option" where
  "block_of (Add0 b) = Some b"
| "block_of (Add1 b _) = Some b"
| "block_of (Add2 b _ _) = Some b"
| "block_of (Add3 b _) = Some b"
| "block_of (AddG b _) = Some b"
| "block_of _ = None"

fun slot_of :: "rp_pc \<Rightarrow> (nat \<times> nat) option" where
  "slot_of (Add2 b ng k) = Some (ng - 1, k)"
| "slot_of _ = None"

fun over_of :: "rp_pc \<Rightarrow> nat option" where
  "over_of (Add3 b ng) = Some (ng - 1)"
| "over_of _ = None"

definition fresh_block :: "rpool \<Rightarrow> nat \<Rightarrow> bool" where
  "fresh_block s b \<longleftrightarrow> rp_nitem s b = Some 0 \<and> (\<forall>i. block_at s i \<noteq> Some b)"

definition slot_ok :: "rpool \<Rightarrow> nat \<Rightarrow> nat \<Rightarrow> bool" where
  "slot_ok s j k \<longleftrightarrow> k < RP_GROUP_NBLOCK \<and> (\<exists>g. rp_block_groups s j = Some g \<and> k < bg_nblock g \<and> bg_blocks g k = None)"

fun rpc_ok :: "rpool \<Rightarrow> nat \<Rightarrow> rp_pc \<Rightarrow> bool" where
  "rpc_ok s t (Add0 b) = (rp_local s t \<noteq> None)"
| "rpc_ok s t (Add1 b ng) = (rp_local s t \<noteq> None \<and> 1 \<le> ng \<and> ng \<le> rp_ngroup s)"
| "rpc_ok s t (Add2 b ng k) = (rp_local s t \<noteq> None \<and> 1 \<le> ng \<and> ng \<le> rp_ngroup s)"
| "rpc_ok s t (Add3 b ng) = (rp_local s t \<noteq> None \<and> 1 \<le> ng \<and> ng \<le> rp_ngroup s)"
| "rpc_ok s t (AddG b ng) = (rp_local s t \<noteq> None)"
| "rpc_ok s t GetNew = (\<exists>l b. rp_local s t = Some l \<and> lp_cur_block l = Some b \<and> rp_nitem s b = Some 0)"
| "rpc_ok s t GetPop = (rp_local s t \<noteq> None)"
| "rpc_ok s t GetBlk = (rp_local s t \<noteq> None)"
| "rpc_ok s t (RetPush i) = (\<exists>l. rp_local s t = Some l \<and> lp_cur_free l \<noteq> [])"
| "rpc_ok s t _ = True"

definition cur_block :: "rpool \<Rightarrow> nat \<Rightarrow> nat option" where
  "cur_block s t = (case rp_local s t of None \<Rightarrow> None | Some l \<Rightarrow> lp_cur_block l)"

definition cur_index :: "rpool \<Rightarrow> nat \<Rightarrow> nat" where
  "cur_index s t = (case rp_local s t of None \<Rightarrow> 0 | Some l \<Rightarrow> lp_cur_block_index l)"

definition overshooting :: "rpool \<Rightarrow> nat \<Rightarrow> nat set" where
  "overshooting s j = {t. over_of (rp_pc s t) = Some j}"

text \<open>No two threads have the same.\<close>

definition one_each :: "(nat \<Rightarrow> 'a option) \<Rightarrow> bool" where
  "one_each f \<longleftrightarrow> (\<forall>t u x. f t = Some x \<longrightarrow> f u = Some x \<longrightarrow> t = u)"

lemma one_eachD: "one_each f \<Longrightarrow> f t = Some x \<Longrightarrow> f u = Some x \<Longrightarrow> t = u"
  unfolding one_each_def by blast

lemma one_each_upd:
  assumes "one_each f" "\<And>u. u \<noteq> t \<Longrightarrow> g u = f u" "\<And>u y. u \<noteq> t \<Longrightarrow> g t = Some y \<Longrightarrow> f u = Some y \<Longrightarrow> False"
  shows "one_each g"
  unfolding one_each_def
proof (intro allI impI)
  fix u v y
  assume "g u = Some y" "g v = Some y"
  then show "u = v" using assms(2) [of u] assms(2) [of v] assms(3) [of u y] assms(3) [of v y] one_eachD [OF assms(1), of u y v] by metis
qed

lemma one_each_less:
  assumes "one_each f" "\<And>u. u \<noteq> t \<Longrightarrow> g u = f u" "g t = None \<or> g t = f t"
  shows "one_each g"
proof (rule one_each_upd [OF assms(1,2)])
  fix u y
  assume "u \<noteq> t" "g t = Some y" "f u = Some y"
  then show False using assms(3) one_eachD [OF assms(1), of u y t] by (metis option.distinct(1))
qed

definition groups_ok :: "rpool \<Rightarrow> bool" where
  "groups_ok s \<longleftrightarrow> rp_ngroup s \<le> RP_MAX_BLOCK_NGROUP \<and> (\<forall>j. rp_block_groups s j \<noteq> None \<longleftrightarrow> j < rp_ngroup s) \<and>
     (\<forall>j g k b. rp_block_groups s j = Some g \<longrightarrow> bg_blocks g k = Some b \<longrightarrow> k < RP_GROUP_NBLOCK \<and> k < bg_nblock g)"

definition blocks_ok :: "rp_config \<Rightarrow> rpool \<Rightarrow> bool" where
  "blocks_ok c s \<longleftrightarrow> one_each (block_at s) \<and> (\<forall>i b. block_at s i = Some b \<longrightarrow> (\<exists>n. rp_nitem s b = Some n \<and> n \<le> BLOCK_NITEM c))"

definition adding_ok :: "rpool \<Rightarrow> bool" where
  "adding_ok s \<longleftrightarrow> one_each (\<lambda>t. block_of (rp_pc s t)) \<and> (\<forall>t b. block_of (rp_pc s t) = Some b \<longrightarrow> fresh_block s b)"

definition slots_ok :: "rpool \<Rightarrow> bool" where
  "slots_ok s \<longleftrightarrow> one_each (\<lambda>t. slot_of (rp_pc s t)) \<and> (\<forall>t j k. slot_of (rp_pc s t) = Some (j, k) \<longrightarrow> slot_ok s j k)"

definition over_ok :: "rpool \<Rightarrow> bool" where
  "over_ok s \<longleftrightarrow> finite {t. rp_pc s t \<noteq> PIdle} \<and>
     (\<forall>j g. rp_block_groups s j = Some g \<longrightarrow> overshooting s j = {} \<or> RP_GROUP_NBLOCK + card (overshooting s j) \<le> bg_nblock g)"

definition cur_ok :: "rpool \<Rightarrow> bool" where
  "cur_ok s \<longleftrightarrow> one_each (cur_block s) \<and> (\<forall>t b. cur_block s t = Some b \<longrightarrow> block_at s (cur_index s t) = Some b)"

definition group_inv :: "rp_config \<Rightarrow> rpool \<Rightarrow> bool" where
  "group_inv c s \<longleftrightarrow> groups_ok s \<and> blocks_ok c s \<and> adding_ok s \<and> slots_ok s \<and> over_ok s \<and> cur_ok s \<and> (\<forall>t. rpc_ok s t (rp_pc s t))"

lemma group_inv_start: "group_inv c rp_start"
  by (simp add: group_inv_def groups_ok_def blocks_ok_def adding_ok_def slots_ok_def over_ok_def cur_ok_def rp_start_def block_at_def
      cur_block_def overshooting_def one_each_def)

lemma rp_fields [simp]:
  "rp_ngroup (rp_goto t pc s) = rp_ngroup s" "rp_block_groups (rp_goto t pc s) = rp_block_groups s" "rp_nitem (rp_goto t pc s) = rp_nitem s"
  "rp_free_chunks (rp_goto t pc s) = rp_free_chunks s" "rp_local (rp_goto t pc s) = rp_local s" "rp_pc (rp_goto t pc s) = (rp_pc s)(t := pc)"
  "rp_ngroup (set_local t l s) = rp_ngroup s" "rp_block_groups (set_local t l s) = rp_block_groups s" "rp_nitem (set_local t l s) = rp_nitem s"
  "rp_free_chunks (set_local t l s) = rp_free_chunks s" "rp_local (set_local t l s) = (rp_local s)(t := l)" "rp_pc (set_local t l s) = rp_pc s"
  "rp_ngroup (set_group j g s) = rp_ngroup s" "rp_block_groups (set_group j g s) = (rp_block_groups s)(j \<mapsto> g)" "rp_nitem (set_group j g s) = rp_nitem s"
  "rp_free_chunks (set_group j g s) = rp_free_chunks s" "rp_local (set_group j g s) = rp_local s" "rp_pc (set_group j g s) = rp_pc s"
  "rp_ngroup (set_nitem b n s) = rp_ngroup s" "rp_block_groups (set_nitem b n s) = rp_block_groups s" "rp_nitem (set_nitem b n s) = (rp_nitem s)(b := n)"
  "rp_free_chunks (set_nitem b n s) = rp_free_chunks s" "rp_local (set_nitem b n s) = rp_local s" "rp_pc (set_nitem b n s) = rp_pc s"
  by (simp_all add: rp_goto_def set_local_def set_group_def set_nitem_def)

text \<open>A step that changes neither groups nor blocks, and takes no entry.\<close>

lemma block_at_cong: "rp_block_groups s' = rp_block_groups s \<Longrightarrow> block_at s' = block_at s"
  by (simp add: block_at_def fun_eq_iff)

lemma fresh_block_cong: "rp_block_groups s' = rp_block_groups s \<Longrightarrow> rp_nitem s' b = rp_nitem s b \<Longrightarrow> fresh_block s' b = fresh_block s b"
  by (simp add: fresh_block_def block_at_def)

lemma slot_ok_cong: "rp_block_groups s' = rp_block_groups s \<Longrightarrow> slot_ok s' j k = slot_ok s j k"
  by (simp add: slot_ok_def)

lemma finite_active:
  assumes "finite {t. rp_pc s t \<noteq> PIdle}" "\<And>u. u \<noteq> t \<Longrightarrow> rp_pc s' u = rp_pc s u"
  shows "finite {t. rp_pc s' t \<noteq> PIdle}"
proof (rule finite_subset)
  show "{t. rp_pc s' t \<noteq> PIdle} \<subseteq> insert t {t. rp_pc s t \<noteq> PIdle}"
  proof
    fix u
    assume "u \<in> {t. rp_pc s' t \<noteq> PIdle}"
    then show "u \<in> insert t {t. rp_pc s t \<noteq> PIdle}" using assms(2) [of u] by (cases "u = t") simp_all
  qed
qed (simp add: assms(1))

lemma overshooting_same:
  assumes "\<And>u. u \<noteq> t \<Longrightarrow> rp_pc s' u = rp_pc s u" "over_of (rp_pc s' t) = over_of (rp_pc s t)"
  shows "overshooting s' = overshooting s"
proof -
  have "over_of (rp_pc s' u) = over_of (rp_pc s u)" for u using assms by (cases "u = t") simp_all
  then show ?thesis by (simp add: overshooting_def fun_eq_iff)
qed

lemma finite_overshooting:
  assumes "over_ok s"
  shows "finite (overshooting s j)"
proof (rule finite_subset)
  show "overshooting s j \<subseteq> {t. rp_pc s t \<noteq> PIdle}"
  proof
    fix u
    assume "u \<in> overshooting s j"
    then show "u \<in> {t. rp_pc s t \<noteq> PIdle}" by (cases "rp_pc s u") (simp_all add: overshooting_def)
  qed
qed (use assms in \<open>simp add: over_ok_def\<close>)

lemma plain_group_inv:
  assumes inv: "group_inv c s" and fr: "\<And>u. u \<noteq> t \<Longrightarrow> rp_pc s' u = rp_pc s u" "\<And>u. u \<noteq> t \<Longrightarrow> rp_local s' u = rp_local s u"
    and g: "rp_block_groups s' = rp_block_groups s" "rp_ngroup s' = rp_ngroup s" "rp_nitem s' = rp_nitem s"
    and pc: "block_of (rp_pc s' t) = None \<or> block_of (rp_pc s' t) = block_of (rp_pc s t)" "slot_of (rp_pc s' t) = None" "over_of (rp_pc s' t) = None"
      "over_of (rp_pc s t) = None" "rpc_ok s' t (rp_pc s' t)"
    and cur: "cur_block s' t = None \<or> cur_block s' t = cur_block s t \<and> cur_index s' t = cur_index s t"
  shows "group_inv c s'"
proof -
  have I: "groups_ok s" "blocks_ok c s" "adding_ok s" "slots_ok s" "over_ok s" "cur_ok s" "\<And>t. rpc_ok s t (rp_pc s t)"
    using inv by (simp_all add: group_inv_def)
  have B: "block_at s' = block_at s" by (rule block_at_cong [OF g(1)])
  have "groups_ok s'" "blocks_ok c s'" using I(1,2) B g by (simp_all add: groups_ok_def blocks_ok_def)
  moreover have "adding_ok s'"
    unfolding adding_ok_def
  proof (intro conjI allI impI)
    show "one_each (\<lambda>u. block_of (rp_pc s' u))"
      by (rule one_each_less [of "\<lambda>u. block_of (rp_pc s u)" t]) (use I(3) fr pc in \<open>auto simp: adding_ok_def\<close>)
    fix u b
    assume "block_of (rp_pc s' u) = Some b"
    then have "block_of (rp_pc s u) = Some b" using fr(1) [of u] pc(1) by (cases "u = t") auto
    then show "fresh_block s' b" using I(3) fresh_block_cong [OF g(1)] g(3) by (auto simp: adding_ok_def)
  qed
  moreover have "slots_ok s'"
    unfolding slots_ok_def
  proof (intro conjI allI impI)
    show "one_each (\<lambda>u. slot_of (rp_pc s' u))"
      by (rule one_each_less [of "\<lambda>u. slot_of (rp_pc s u)" t]) (use I(4) fr pc in \<open>auto simp: slots_ok_def\<close>)
    fix u j k
    assume "slot_of (rp_pc s' u) = Some (j, k)"
    then have "slot_of (rp_pc s u) = Some (j, k)" using fr(1) [of u] pc(2) by (cases "u = t") auto
    then show "slot_ok s' j k" using I(4) slot_ok_cong [OF g(1)] by (auto simp: slots_ok_def)
  qed
  moreover have "over_ok s'"
    using I(5) finite_active [OF _ fr(1)] overshooting_same [of t s' s] fr(1) pc(3,4) g(1) by (simp add: over_ok_def)
  moreover have "cur_ok s'"
    unfolding cur_ok_def
  proof (intro conjI allI impI)
    have o: "cur_block s' u = cur_block s u" "cur_index s' u = cur_index s u" if "u \<noteq> t" for u
      using fr(2) [OF that] by (simp_all add: cur_block_def cur_index_def)
    show "one_each (cur_block s')"
      by (rule one_each_less [of "cur_block s" t]) (use I(6) o cur in \<open>auto simp: cur_ok_def\<close>)
    fix u b
    assume "cur_block s' u = Some b"
    then have "cur_block s u = Some b" "cur_index s' u = cur_index s u" using o [of u] cur by (cases "u = t"; auto)+
    then show "block_at s' (cur_index s' u) = Some b" using I(6) B by (simp add: cur_ok_def)
  qed
  moreover have "rpc_ok s' u (rp_pc s' u)" for u
  proof (cases "u = t")
    case False
    have "rpc_ok s' u (rp_pc s u)" using I(7) [of u] fr(2) [OF False] g by (cases "rp_pc s u") auto
    then show ?thesis using fr(1) [OF False] by simp
  qed (simp add: pc(5))
  ultimately show ?thesis by (simp add: group_inv_def)
qed

text \<open>Any other step, as seen by the other threads.\<close>

lemma group_inv_step:
  assumes inv: "group_inv c s" and fr: "\<And>u. u \<noteq> t \<Longrightarrow> rp_pc s' u = rp_pc s u" "\<And>u. u \<noteq> t \<Longrightarrow> rp_local s' u = rp_local s u"
    and ok: "groups_ok s'" "blocks_ok c s'" "over_ok s'" "rp_ngroup s \<le> rp_ngroup s'" "rpc_ok s' t (rp_pc s' t)"
    and mono: "\<And>i b. block_at s i = Some b \<Longrightarrow> block_at s' i = Some b"
    and others: "\<And>u b. u \<noteq> t \<Longrightarrow> block_of (rp_pc s u) = Some b \<Longrightarrow> fresh_block s b \<Longrightarrow> fresh_block s' b"
      "\<And>u j k. u \<noteq> t \<Longrightarrow> slot_of (rp_pc s u) = Some (j, k) \<Longrightarrow> slot_ok s j k \<Longrightarrow> slot_ok s' j k"
      "\<And>u b. u \<noteq> t \<Longrightarrow> cur_block s u = Some b \<Longrightarrow> rp_nitem s' b = rp_nitem s b"
    and me: "\<And>b. block_of (rp_pc s' t) = Some b \<Longrightarrow> fresh_block s' b \<and> (\<forall>u. u \<noteq> t \<longrightarrow> block_of (rp_pc s u) \<noteq> Some b)"
      "\<And>j k. slot_of (rp_pc s' t) = Some (j, k) \<Longrightarrow> slot_ok s' j k \<and> (\<forall>u. u \<noteq> t \<longrightarrow> slot_of (rp_pc s u) \<noteq> Some (j, k))"
      "\<And>b. cur_block s' t = Some b \<Longrightarrow> block_at s' (cur_index s' t) = Some b \<and> (\<forall>u. u \<noteq> t \<longrightarrow> cur_block s u \<noteq> Some b)"
  shows "group_inv c s'"
proof -
  have I: "adding_ok s" "slots_ok s" "cur_ok s" "\<And>t. rpc_ok s t (rp_pc s t)" using inv by (simp_all add: group_inv_def)
  have o: "cur_block s' u = cur_block s u" "cur_index s' u = cur_index s u" if "u \<noteq> t" for u
    using fr(2) [OF that] by (simp_all add: cur_block_def cur_index_def)
  have "adding_ok s'"
    unfolding adding_ok_def
  proof (intro conjI allI impI)
    show "one_each (\<lambda>u. block_of (rp_pc s' u))"
      by (rule one_each_upd [of "\<lambda>u. block_of (rp_pc s u)" t]) (use I(1) fr(1) me(1) in \<open>auto simp: adding_ok_def\<close>)
    show "fresh_block s' b" if "block_of (rp_pc s' u) = Some b" for u b
      using that me(1) [of b] others(1) [of u b] fr(1) [of u] I(1) by (cases "u = t") (auto simp: adding_ok_def)
  qed
  moreover have "slots_ok s'"
    unfolding slots_ok_def
  proof (intro conjI allI impI)
    show "one_each (\<lambda>u. slot_of (rp_pc s' u))"
      by (rule one_each_upd [of "\<lambda>u. slot_of (rp_pc s u)" t]) (use I(2) fr(1) me(2) in \<open>auto simp: slots_ok_def\<close>)
    show "slot_ok s' j k" if "slot_of (rp_pc s' u) = Some (j, k)" for u j k
      using that me(2) [of j k] others(2) [of u j k] fr(1) [of u] I(2) by (cases "u = t") (auto simp: slots_ok_def)
  qed
  moreover have "cur_ok s'"
    unfolding cur_ok_def
  proof (intro conjI allI impI)
    show "one_each (cur_block s')"
      by (rule one_each_upd [of "cur_block s" t]) (use I(3) o me(3) in \<open>auto simp: cur_ok_def\<close>)
    show "block_at s' (cur_index s' u) = Some b" if "cur_block s' u = Some b" for u b
      using that me(3) [of b] o [of u] I(3) mono by (cases "u = t") (auto simp: cur_ok_def)
  qed
  moreover have "rpc_ok s' u (rp_pc s' u)" for u
  proof (cases "u = t")
    case False
    have "cur_block s u = Some b \<Longrightarrow> rp_nitem s' b = rp_nitem s b" for b by (rule others(3) [OF False])
    then have "rpc_ok s' u (rp_pc s u)" using I(4) [of u] fr(2) [OF False] ok(4) by (cases "rp_pc s u") (auto simp: cur_block_def)
    then show ?thesis using fr(1) [OF False] by simp
  qed (simp add: ok(5))
  ultimately show ?thesis using ok by (simp add: group_inv_def)
qed

lemma cur_not_fresh: "group_inv c s \<Longrightarrow> cur_block s u = Some b \<Longrightarrow> \<not> fresh_block s b"
  by (auto simp: group_inv_def cur_ok_def fresh_block_def)

lemma cur_kept:
  assumes inv: "group_inv c s" and "rp_local s' t = rp_local s t" "\<And>i b. block_at s i = Some b \<Longrightarrow> block_at s' i = Some b" "cur_block s' t = Some b"
  shows "block_at s' (cur_index s' t) = Some b \<and> (\<forall>u. u \<noteq> t \<longrightarrow> cur_block s u \<noteq> Some b)"
proof -
  have "cur_block s t = Some b" "cur_index s' t = cur_index s t" using assms(2,4) by (simp_all add: cur_block_def cur_index_def)
  then show ?thesis using inv assms(3) one_eachD [of "cur_block s" t b] unfolding group_inv_def cur_ok_def by metis
qed

lemma new_block_group_inv:
  assumes inv: "group_inv c s" and pc: "rp_pc s t = GetBlk" and a: "rp_nitem s a = None"
  shows "group_inv c (rp_goto t (Add0 a) (set_nitem a (Some 0) s))"
proof -
  let ?s = "rp_goto t (Add0 a) (set_nitem a (Some 0) s)"
  have I: "groups_ok s" "blocks_ok c s" "over_ok s" "adding_ok s" "cur_ok s" "rpc_ok s t GetBlk"
    using inv pc by (auto simp: group_inv_def dest: spec [of _ t])
  have B: "block_at ?s = block_at s" by (rule block_at_cong) simp
  have na: "block_at s i \<noteq> Some a" for i using I(2) a by (fastforce simp: blocks_ok_def)
  show ?thesis
  proof (rule group_inv_step [OF inv, of t])
    show "groups_ok ?s" using I(1) by (simp add: groups_ok_def)
    show "blocks_ok c ?s" using I(2) na unfolding blocks_ok_def B by auto
    show "over_ok ?s"
      using I(3) finite_active [of s t ?s] overshooting_same [of t ?s s] pc by (simp add: over_ok_def)
    show "fresh_block ?s b" if "fresh_block s b" for b using that a unfolding fresh_block_def B by auto
    show "slot_ok ?s j k" if "slot_ok s j k" for j k using that by (simp add: slot_ok_def)
    show "rp_nitem ?s b = rp_nitem s b" if "cur_block s u = Some b" for u b using that I(5) na by (auto simp: cur_ok_def)
    show "fresh_block ?s b \<and> (\<forall>u. u \<noteq> t \<longrightarrow> block_of (rp_pc s u) \<noteq> Some b)" if "block_of (rp_pc ?s t) = Some b" for b
      using that na a I(4) unfolding fresh_block_def B by (auto simp: adding_ok_def fresh_block_def)
    show "block_at ?s (cur_index ?s t) = Some b \<and> (\<forall>u. u \<noteq> t \<longrightarrow> cur_block s u \<noteq> Some b)" if "cur_block ?s t = Some b" for b
      by (rule cur_kept [OF inv]) (use that B in auto)
  qed (use I(6) B in auto)
qed

lemma construct_group_inv:
  assumes inv: "group_inv c s" and pc: "over_of (rp_pc s t) = None" and b: "cur_block s t = Some b" "rp_nitem s b = Some n" "n < BLOCK_NITEM c"
  shows "group_inv c (rp_goto t PIdle (set_nitem b (Some (n + 1)) s))"
proof -
  let ?s = "rp_goto t PIdle (set_nitem b (Some (n + 1)) s)"
  have I: "groups_ok s" "blocks_ok c s" "over_ok s" "cur_ok s" using inv by (simp_all add: group_inv_def)
  have B: "block_at ?s = block_at s" by (rule block_at_cong) simp
  have nf: "\<not> fresh_block s b" by (rule cur_not_fresh [OF inv b(1)])
  show ?thesis
  proof (rule group_inv_step [OF inv, of t])
    show "groups_ok ?s" using I(1) by (simp add: groups_ok_def)
    show "blocks_ok c ?s" using I(2) b(3) unfolding blocks_ok_def B by auto
    show "over_ok ?s"
      using I(3) finite_active [of s t ?s] overshooting_same [of t ?s s] pc by (simp add: over_ok_def)
    show "fresh_block ?s x" if "fresh_block s x" for x
      using that nf unfolding fresh_block_def B by auto
    show "slot_ok ?s j k" if "slot_ok s j k" for j k using that by (simp add: slot_ok_def)
    show "rp_nitem ?s x = rp_nitem s x" if "u \<noteq> t" "cur_block s u = Some x" for u x
      using that one_eachD [of "cur_block s" t b u] b(1) I(4) by (auto simp: cur_ok_def)
    show "block_at ?s (cur_index ?s t) = Some x \<and> (\<forall>u. u \<noteq> t \<longrightarrow> cur_block s u \<noteq> Some x)" if "cur_block ?s t = Some x" for x
      by (rule cur_kept [OF inv]) (use that B in auto)
  qed (use B in auto)
qed

text \<open>Entries of a group are given out once: the counter passes \<open>RP_GROUP_NBLOCK\<close>, but does not come back below it.\<close>

lemma adding_okD:
  assumes "adding_ok s" "block_of (rp_pc s t) = Some b"
  shows "fresh_block s b" "\<forall>u. u \<noteq> t \<longrightarrow> block_of (rp_pc s u) \<noteq> Some b"
  using assms one_eachD [of "\<lambda>u. block_of (rp_pc s u)" t b] unfolding adding_ok_def by blast+

lemma block_at_counter: "rp_block_groups s j = Some g \<Longrightarrow> block_at (set_group j (g\<lparr>bg_nblock := n\<rparr>) s) = block_at s"
  by (auto simp: block_at_def fun_eq_iff)

lemma groups_okD: "groups_ok s \<Longrightarrow> rp_block_groups s j = Some g \<Longrightarrow> bg_blocks g k = Some b \<Longrightarrow> k < RP_GROUP_NBLOCK \<and> k < bg_nblock g"
  unfolding groups_ok_def by blast

lemma groups_ok_counter:
  assumes "groups_ok s" "rp_block_groups s j = Some g" "\<And>k b. bg_blocks g k = Some b \<Longrightarrow> k < n"
  shows "groups_ok (rp_goto t pc (set_group j (g\<lparr>bg_nblock := n\<rparr>) s))"
  using assms by (auto simp: groups_ok_def)

lemma counter_group_inv:
  assumes inv: "group_inv c s" and g: "rp_block_groups s j = Some g" and n: "\<And>k. k < bg_nblock g \<Longrightarrow> k < RP_GROUP_NBLOCK \<Longrightarrow> k < n"
    and pc: "block_of (rp_pc s t) = Some b" "block_of pc = Some b" "rpc_ok (rp_goto t pc (set_group j (g\<lparr>bg_nblock := n\<rparr>) s)) t pc"
      "slot_of pc = None \<or> slot_of pc = Some (j, bg_nblock g) \<and> bg_nblock g < n \<and> bg_nblock g < RP_GROUP_NBLOCK"
    and over: "over_ok (rp_goto t pc (set_group j (g\<lparr>bg_nblock := n\<rparr>) s))"
  shows "group_inv c (rp_goto t pc (set_group j (g\<lparr>bg_nblock := n\<rparr>) s))"
proof -
  let ?s = "rp_goto t pc (set_group j (g\<lparr>bg_nblock := n\<rparr>) s)"
  have I: "groups_ok s" "blocks_ok c s" "adding_ok s" "slots_ok s" using inv by (simp_all add: group_inv_def)
  have B: "block_at ?s = block_at s" using block_at_counter [OF g, of n] block_at_cong [of ?s "set_group j (g\<lparr>bg_nblock := n\<rparr>) s"] by simp
  have F: "fresh_block ?s x = fresh_block s x" for x unfolding fresh_block_def B by simp
  have S: "slot_ok ?s i k" if "slot_ok s i k" for i k using that g n by (auto simp: slot_ok_def)
  show ?thesis
  proof (rule group_inv_step [OF inv, of t])
    show "groups_ok ?s" by (rule groups_ok_counter [OF I(1) g]) (use I(1) g n in \<open>auto simp: groups_ok_def\<close>)
    show "blocks_ok c ?s" using I(2) unfolding blocks_ok_def B by simp
    show "fresh_block ?s x \<and> (\<forall>u. u \<noteq> t \<longrightarrow> block_of (rp_pc s u) \<noteq> Some x)" if "block_of (rp_pc ?s t) = Some x" for x
      using that adding_okD [OF I(3) pc(1)] pc(2) unfolding F by auto
    show "slot_ok ?s i k \<and> (\<forall>u. u \<noteq> t \<longrightarrow> slot_of (rp_pc s u) \<noteq> Some (i, k))" if "slot_of (rp_pc ?s t) = Some (i, k)" for i k
    proof -
      have ik: "i = j" "k = bg_nblock g" "k < n" "k < RP_GROUP_NBLOCK" using that pc(4) by auto
      have "bg_blocks g k = None" using groups_okD [OF I(1) g, of k] ik(2) by (cases "bg_blocks g k") auto
      moreover have "\<not> slot_ok s j (bg_nblock g)" using g by (simp add: slot_ok_def)
      then have "slot_of (rp_pc s u) \<noteq> Some (j, bg_nblock g)" for u using I(4) unfolding slots_ok_def by blast
      ultimately show ?thesis using ik g by (auto simp: slot_ok_def)
    qed
    show "block_at ?s (cur_index ?s t) = Some x \<and> (\<forall>u. u \<noteq> t \<longrightarrow> cur_block s u \<noteq> Some x)" if "cur_block ?s t = Some x" for x
      by (rule cur_kept [OF inv]) (use that B in auto)
  qed (use B F S over pc(3) in auto)
qed

lemma overshooting_goto:
  "overshooting (rp_goto t pc s) j = (if over_of pc = Some j then insert t (overshooting s j) else overshooting s j - {t})"
  by (auto simp: overshooting_def)

lemma overshooting_group: "overshooting (set_group i g s) j = overshooting s j"
  by (simp add: overshooting_def)

lemma over_okD:
  "over_ok s \<Longrightarrow> rp_block_groups s j = Some g \<Longrightarrow> overshooting s j \<noteq> {} \<Longrightarrow> RP_GROUP_NBLOCK + card (overshooting s j) \<le> bg_nblock g"
  unfolding over_ok_def by blast

text \<open>The \<^verbatim>\<open>fetch_add\<close>.\<close>

lemma add1_group_inv:
  assumes inv: "group_inv c s" and pc: "rp_pc s t = Add1 b ng" and g: "rp_block_groups s (ng - 1) = Some g"
  shows "bg_nblock g < RP_GROUP_NBLOCK \<Longrightarrow>
      group_inv c (rp_goto t (Add2 b ng (bg_nblock g)) (set_group (ng - 1) (g\<lparr>bg_nblock := bg_nblock g + 1\<rparr>) s))"
    and "\<not> bg_nblock g < RP_GROUP_NBLOCK \<Longrightarrow>
      group_inv c (rp_goto t (Add3 b ng) (set_group (ng - 1) (g\<lparr>bg_nblock := bg_nblock g + 1\<rparr>) s))"
proof -
  have I: "over_ok s" "rpc_ok s t (Add1 b ng)" using inv pc by (auto simp: group_inv_def dest: spec [of _ t])
  have nt: "t \<notin> overshooting s j" for j using pc by (simp add: overshooting_def)
  let ?g = "g\<lparr>bg_nblock := bg_nblock g + 1\<rparr>"
  have fin: "finite {u. rp_pc (rp_goto t pc' (set_group (ng - 1) ?g s)) u \<noteq> PIdle}" for pc'
    by (rule finite_active [of s t]) (use I(1) in \<open>auto simp: over_ok_def\<close>)
  show "group_inv c (rp_goto t (Add2 b ng (bg_nblock g)) (set_group (ng - 1) ?g s))" if k: "bg_nblock g < RP_GROUP_NBLOCK"
  proof (rule counter_group_inv [OF inv g])
    have "overshooting s (ng - 1) = {}" using over_okD [OF I(1) g] k by force
    then show "over_ok (rp_goto t (Add2 b ng (bg_nblock g)) (set_group (ng - 1) ?g s))"
      using fin I(1) nt by (auto simp: over_ok_def overshooting_goto overshooting_group)
  qed (use pc I(2) k in auto)
  show "group_inv c (rp_goto t (Add3 b ng) (set_group (ng - 1) ?g s))" if k: "\<not> bg_nblock g < RP_GROUP_NBLOCK"
  proof (rule counter_group_inv [OF inv g])
    have "RP_GROUP_NBLOCK + card (overshooting s (ng - 1)) \<le> bg_nblock g"
      using over_okD [OF I(1) g] k by (cases "overshooting s (ng - 1) = {}") simp_all
    then show "over_ok (rp_goto t (Add3 b ng) (set_group (ng - 1) ?g s))"
      using fin I(1) nt finite_overshooting [OF I(1)] by (auto simp: over_ok_def overshooting_goto overshooting_group)
  qed (use pc I(2) k in auto)
qed

text \<open>The \<^verbatim>\<open>fetch_sub\<close>.\<close>

lemma add3_group_inv:
  assumes inv: "group_inv c s" and pc: "rp_pc s t = Add3 b ng" and g: "rp_block_groups s (ng - 1) = Some g"
  shows "group_inv c (rp_goto t (AddG b ng) (set_group (ng - 1) (g\<lparr>bg_nblock := bg_nblock g - 1\<rparr>) s))"
proof -
  have I: "over_ok s" "rpc_ok s t (Add3 b ng)" using inv pc by (auto simp: group_inv_def dest: spec [of _ t])
  let ?g = "g\<lparr>bg_nblock := bg_nblock g - 1\<rparr>" and ?A = "overshooting s (ng - 1)"
  have t: "t \<in> ?A" "\<And>j. j \<noteq> ng - 1 \<Longrightarrow> t \<notin> overshooting s j" using pc by (auto simp: overshooting_def)
  have c: "RP_GROUP_NBLOCK + card ?A \<le> bg_nblock g" "1 \<le> card ?A" "card (?A - {t}) = card ?A - 1"
    using over_okD [OF I(1) g] t(1) finite_overshooting [OF I(1), of "ng - 1"] card_gt_0_iff [of ?A] by (auto simp: Suc_le_eq)
  have fin: "finite {u. rp_pc (rp_goto t (AddG b ng) (set_group (ng - 1) ?g s)) u \<noteq> PIdle}"
    by (rule finite_active [of s t]) (use I(1) in \<open>auto simp: over_ok_def\<close>)
  show ?thesis
  proof (rule counter_group_inv [OF inv g])
    show "over_ok (rp_goto t (AddG b ng) (set_group (ng - 1) ?g s))"
      using fin I(1) t c by (auto simp: over_ok_def overshooting_goto overshooting_group)
  qed (use pc I(2) c in auto)
qed

text \<open>Storing the block, and a new group.\<close>

lemma block_at_store:
  assumes "rp_block_groups s j = Some g" "k < RP_GROUP_NBLOCK"
  shows "block_at (set_group j (g\<lparr>bg_blocks := (bg_blocks g)(k \<mapsto> b)\<rparr>) s) i = (if i = j * RP_GROUP_NBLOCK + k then Some b else block_at s i)"
proof -
  have "i div RP_GROUP_NBLOCK = j \<and> i mod RP_GROUP_NBLOCK = k \<longleftrightarrow> i = j * RP_GROUP_NBLOCK + k"
    using assms(2) div_mult_mod_eq [of i RP_GROUP_NBLOCK] by auto
  then show ?thesis using assms(1) by (auto simp: block_at_def)
qed

lemma add2_group_inv:
  assumes inv: "group_inv c s" and pc: "rp_pc s t = Add2 b ng k" and g: "rp_block_groups s (ng - 1) = Some g" and l: "rp_local s t = Some l"
  shows "group_inv c (rp_goto t GetNew (set_local t (Some (l\<lparr>lp_cur_block := Some b, lp_cur_block_index := (ng - 1) * RP_GROUP_NBLOCK + k\<rparr>))
     (set_group (ng - 1) (g\<lparr>bg_blocks := (bg_blocks g)(k \<mapsto> b)\<rparr>) s)))" (is "group_inv c ?s")
proof -
  have I: "groups_ok s" "blocks_ok c s" "adding_ok s" "slots_ok s" "over_ok s" "cur_ok s" using inv by (simp_all add: group_inv_def)
  have sl: "slot_ok s (ng - 1) k" using I(4) pc unfolding slots_ok_def by (metis slot_of.simps(1))
  have fb: "fresh_block s b" using adding_okD [OF I(3), of t b] pc by simp
  have k: "k < RP_GROUP_NBLOCK" "k < bg_nblock g" "bg_blocks g k = None" using sl g by (auto simp: slot_ok_def)
  let ?i = "(ng - 1) * RP_GROUP_NBLOCK + k"
  have B: "block_at ?s i = (if i = ?i then Some b else block_at s i)" for i
    using block_at_store [OF g k(1), of b i] by (simp add: block_at_def)
  have free: "block_at s ?i = None" using g k by (simp add: block_at_def)
  have nb: "block_at s i \<noteq> Some b" "rp_nitem s b = Some 0" for i using fb by (simp_all add: fresh_block_def)
  show ?thesis
  proof (rule group_inv_step [OF inv, of t])
    show "groups_ok ?s" using I(1) g k by (auto simp: groups_ok_def)
    have "one_each (block_at ?s)"
      by (rule one_each_upd [of "block_at s" ?i]) (use I(2) B nb in \<open>auto simp: blocks_ok_def\<close>)
    then show "blocks_ok c ?s" using I(2) nb(2) unfolding blocks_ok_def B by (auto split: if_splits)
    have "overshooting ?s = overshooting s" by (rule overshooting_same [of t]) (use pc in auto)
    then show "over_ok ?s" using I(5) g finite_active [of s t ?s] by (auto simp: over_ok_def)
    show "block_at ?s i = Some x" if "block_at s i = Some x" for i x using that B free by auto
    show "fresh_block ?s x" if "u \<noteq> t" "block_of (rp_pc s u) = Some x" "fresh_block s x" for u x
    proof -
      have "x \<noteq> b" using that(1,2) I(3) pc one_eachD [of "\<lambda>u. block_of (rp_pc s u)" u b t] unfolding adding_ok_def by auto
      then show ?thesis using that(3) unfolding fresh_block_def B by auto
    qed
    show "slot_ok ?s i m" if "u \<noteq> t" "slot_of (rp_pc s u) = Some (i, m)" "slot_ok s i m" for u i m
    proof -
      have "(i, m) \<noteq> (ng - 1, k)" using that(1,2) I(4) pc one_eachD [of "\<lambda>u. slot_of (rp_pc s u)" u "(ng - 1, k)" t] unfolding slots_ok_def by auto
      then show ?thesis using that(3) g by (auto simp: slot_ok_def)
    qed
    show "block_at ?s (cur_index ?s t) = Some x \<and> (\<forall>u. u \<noteq> t \<longrightarrow> cur_block s u \<noteq> Some x)" if "cur_block ?s t = Some x" for x
      using that B nb(1) I(6) by (auto simp: cur_block_def cur_index_def cur_ok_def)
  qed (use nb(2) in auto)
qed

lemma new_group_inv:
  assumes inv: "group_inv c s" and pc: "rp_pc s t = AddG b ng" and n: "rp_ngroup s < RP_MAX_BLOCK_NGROUP"
  shows "group_inv c (rp_goto t (Add0 b) ((set_group (rp_ngroup s) new_group s)\<lparr>rp_ngroup := rp_ngroup s + 1\<rparr>))" (is "group_inv c ?s")
proof -
  have I: "groups_ok s" "blocks_ok c s" "adding_ok s" "slots_ok s" "over_ok s" "rpc_ok s t (AddG b ng)"
    using inv pc by (auto simp: group_inv_def dest: spec [of _ t])
  have none: "rp_block_groups s (rp_ngroup s) = None" using I(1) by (auto simp: groups_ok_def)
  have B: "block_at ?s = block_at s" using none by (auto simp: block_at_def fun_eq_iff new_group_def)
  have F: "fresh_block ?s x = fresh_block s x" for x unfolding fresh_block_def B by simp
  have S: "slot_ok ?s j k" if "slot_ok s j k" for j k using that none by (auto simp: slot_ok_def)
  have "overshooting s (rp_ngroup s) = {}"
  proof (rule ccontr)
    assume "overshooting s (rp_ngroup s) \<noteq> {}"
    then obtain u x m where "rp_pc s u = Add3 x m" "m - 1 = rp_ngroup s" by (auto simp: overshooting_def elim: over_of.elims)
    moreover have "rpc_ok s u (rp_pc s u)" using inv by (simp add: group_inv_def)
    ultimately show False by auto
  qed
  note over0 = this
  have over: "overshooting ?s = overshooting s" by (rule overshooting_same [of t]) (use pc in auto)
  show ?thesis
  proof (rule group_inv_step [OF inv, of t])
    show "groups_ok ?s" using I(1) n by (auto simp: groups_ok_def new_group_def)
    show "blocks_ok c ?s" using I(2) unfolding blocks_ok_def B by simp
    show "over_ok ?s" using I(5) over over0 finite_active [of s t ?s] by (auto simp: over_ok_def)
    show "fresh_block ?s x \<and> (\<forall>u. u \<noteq> t \<longrightarrow> block_of (rp_pc s u) \<noteq> Some x)" if "block_of (rp_pc ?s t) = Some x" for x
      using that adding_okD [OF I(3), of t b] pc unfolding F by auto
    show "block_at ?s (cur_index ?s t) = Some x \<and> (\<forall>u. u \<noteq> t \<longrightarrow> cur_block s u \<noteq> Some x)" if "cur_block ?s t = Some x" for x
      by (rule cur_kept [OF inv]) (use that B in auto)
  qed (use B F S I(6) in auto)
qed

lemma no_group_inv:
  assumes inv: "group_inv c s" and pc: "rp_pc s t = AddG b ng" and l: "rp_local s t = Some l"
  shows "group_inv c (rp_goto t PIdle (set_local t (Some (l\<lparr>lp_cur_block := None\<rparr>)) (set_nitem b None s)))" (is "group_inv c ?s")
proof -
  have I: "groups_ok s" "blocks_ok c s" "adding_ok s" "over_ok s" "cur_ok s" using inv by (simp_all add: group_inv_def)
  have fb: "fresh_block s b" "\<forall>u. u \<noteq> t \<longrightarrow> block_of (rp_pc s u) \<noteq> Some b" using adding_okD [OF I(3), of t b] pc by auto
  have B: "block_at ?s = block_at s" by (rule block_at_cong) simp
  have nb: "block_at s i \<noteq> Some b" for i using fb(1) by (simp add: fresh_block_def)
  show ?thesis
  proof (rule group_inv_step [OF inv, of t])
    show "groups_ok ?s" using I(1) by (simp add: groups_ok_def)
    show "blocks_ok c ?s" using I(2) nb unfolding blocks_ok_def B by auto
    have "overshooting ?s = overshooting s" by (rule overshooting_same [of t]) (use pc in auto)
    then show "over_ok ?s" using I(4) finite_active [of s t ?s] by (auto simp: over_ok_def)
    show "fresh_block ?s x" if "u \<noteq> t" "block_of (rp_pc s u) = Some x" "fresh_block s x" for u x
      using that fb(2) unfolding fresh_block_def B by auto
    show "rp_nitem ?s x = rp_nitem s x" if "u \<noteq> t" "cur_block s u = Some x" for u x
      using that cur_not_fresh [OF inv that(2)] fb(1) by auto
  qed (use B in \<open>auto simp: slot_ok_def cur_block_def\<close>)
qed

end
