(* ===== verification/ResourceIds.thy ===== *)
theory ResourceIds
  imports ResourceGroups
begin

text \<open>
  The ids of \<open>ResourcePool\<close>: an id is held by a user, in the free list of a thread, in a global chunk or being returned,
  and in one of these places only.
\<close>

section \<open>Where an id is\<close>

datatype place = Held | Free nat | Chunks | InReturn nat

fun ids_at :: "u64 list \<Rightarrow> rpool \<Rightarrow> place \<Rightarrow> u64 list" where
  "ids_at h s Held = h"
| "ids_at h s (Free t) = (case rp_local s t of None \<Rightarrow> [] | Some l \<Rightarrow> lp_cur_free l)"
| "ids_at h s Chunks = concat (rp_free_chunks s)"
| "ids_at h s (InReturn t) = (case rp_pc s t of Ret0 i \<Rightarrow> [i] | RetPush i \<Rightarrow> [i] | _ \<Rightarrow> [])"

definition separate :: "(place \<Rightarrow> u64 list) \<Rightarrow> bool" where
  "separate F \<longleftrightarrow> (\<forall>p. distinct (F p)) \<and> (\<forall>p q x. x \<in> set (F p) \<longrightarrow> x \<in> set (F q) \<longrightarrow> p = q)"

text \<open>Ids that move from one place to another stay separate.\<close>

lemma separate_move:
  assumes sep: "separate F" and pq: "p \<noteq> q" and fr: "\<And>r. r \<noteq> p \<Longrightarrow> r \<noteq> q \<Longrightarrow> F' r = F r"
    and d: "distinct (F' p @ F' q)" "set (F' p) \<union> set (F' q) \<subseteq> set (F p) \<union> set (F q)"
  shows "separate F'"
  unfolding separate_def
proof (intro conjI allI impI)
  show "distinct (F' r)" for r using d(1) fr [of r] sep by (cases "r = p \<or> r = q") (auto simp: separate_def)
  fix r r' x
  assume x: "x \<in> set (F' r)" "x \<in> set (F' r')"
  have old: "x \<in> set (F u) \<Longrightarrow> x \<in> set (F v) \<Longrightarrow> u = v" for u v using sep unfolding separate_def by blast
  have "x \<in> set (F p) \<or> x \<in> set (F q)" if "u \<in> {p, q}" "x \<in> set (F' u)" for u using that d(2) by auto
  then show "r = r'"
    using x d(1) fr [of r] fr [of r'] old [of r r'] old [of p r'] old [of q r'] old [of r p] old [of r q] pq
    by (cases "r \<in> {p, q}"; cases "r' \<in> {p, q}") auto
qed

definition rearranged :: "(place \<Rightarrow> u64 list) \<Rightarrow> (place \<Rightarrow> u64 list) \<Rightarrow> bool" where
  "rearranged F F' \<longleftrightarrow> (separate F \<longrightarrow> separate F') \<and> (\<forall>r. set (F' r) \<subseteq> (\<Union>q. set (F q)))"

lemma rearranged_trans: "rearranged F F1 \<Longrightarrow> rearranged F1 F2 \<Longrightarrow> rearranged F F2"
  unfolding rearranged_def by blast

lemma separateD: "separate F \<Longrightarrow> distinct (F p)" "separate F \<Longrightarrow> p \<noteq> q \<Longrightarrow> set (F p) \<inter> set (F q) = {}"
  unfolding separate_def by blast+

lemma separate_append: "separate F \<Longrightarrow> p \<noteq> q \<Longrightarrow> distinct (F p @ F q)"
  using separateD [of F] by simp

lemma rearranged_move:
  assumes pq: "p \<noteq> q" and fr: "\<And>r. r \<noteq> p \<Longrightarrow> r \<noteq> q \<Longrightarrow> F' r = F r"
    and d: "distinct (F p @ F q) \<Longrightarrow> distinct (F' p @ F' q)" "set (F' p) \<union> set (F' q) \<subseteq> set (F p) \<union> set (F q)"
  shows "rearranged F F'"
  unfolding rearranged_def
proof (intro conjI allI impI)
  show "separate F'" if "separate F" by (rule separate_move [OF that pq fr d(1) [OF separate_append [OF that pq]] d(2)])
  show "set (F' r) \<subseteq> (\<Union>q. set (F q))" for r
  proof (cases "r = p \<or> r = q")
    case True
    then have "set (F' r) \<subseteq> set (F p) \<union> set (F q)" using d(2) by auto
    then show ?thesis by auto
  next
    case False
    then show ?thesis using fr by auto
  qed
qed

lemma separate_new:
  assumes sep: "separate F" and fr: "\<And>r. r \<noteq> p \<Longrightarrow> F' r = F r" and p: "F' p = x # F p" "\<And>r. x \<notin> set (F r)"
  shows "separate F'"
  unfolding separate_def
proof (intro conjI allI impI)
  show "distinct (F' r)" for r using fr [of r] p sep by (cases "r = p") (auto simp: separate_def)
  fix r r' y
  assume y: "y \<in> set (F' r)" "y \<in> set (F' r')"
  have old: "y \<in> set (F u) \<Longrightarrow> y \<in> set (F v) \<Longrightarrow> u = v" for u v using sep unfolding separate_def by blast
  show "r = r'" using y fr [of r] fr [of r'] p old [of r r'] by (cases "r = p"; cases "r' = p") auto
qed

definition live_id :: "rp_config \<Rightarrow> rpool \<Rightarrow> u64 \<Rightarrow> bool" where
  "live_id c s i \<longleftrightarrow> (\<exists>b n. block_at s (unat i div BLOCK_NITEM c) = Some b \<and> rp_nitem s b = Some n \<and> unat i mod BLOCK_NITEM c < n)"

definition id_inv :: "rp_config \<Rightarrow> u64 list \<Rightarrow> rpool \<Rightarrow> bool" where
  "id_inv c h s \<longleftrightarrow> separate (ids_at h s) \<and> (\<forall>p. \<forall>i \<in> set (ids_at h s p). live_id c s i) \<and> [] \<notin> set (rp_free_chunks s)"

text \<open>Blocks and their items stay where they are.\<close>

definition grows :: "rpool \<Rightarrow> rpool \<Rightarrow> bool" where
  "grows s s' \<longleftrightarrow> (\<forall>i b. block_at s i = Some b \<longrightarrow>
     block_at s' i = Some b \<and> (\<forall>n. rp_nitem s b = Some n \<longrightarrow> (\<exists>n'. n \<le> n' \<and> rp_nitem s' b = Some n')))"

lemma growsI:
  "(\<And>i b. block_at s i = Some b \<Longrightarrow> block_at s' i = Some b) \<Longrightarrow>
   (\<And>i b. block_at s i = Some b \<Longrightarrow> rp_nitem s' b = rp_nitem s b) \<Longrightarrow> grows s s'"
  unfolding grows_def by auto

lemma live_grows: "grows s s' \<Longrightarrow> live_id c s i \<Longrightarrow> live_id c s' i"
  unfolding live_id_def grows_def by (meson less_le_trans)

lemma block_at_range: "groups_ok s \<Longrightarrow> block_at s i = Some b \<Longrightarrow> i < 2 ^ 32"
proof -
  assume g: "groups_ok s" and "block_at s i = Some b"
  then have "rp_block_groups s (i div RP_GROUP_NBLOCK) \<noteq> None" by (auto simp: block_at_def split: option.splits)
  then have "i div RP_GROUP_NBLOCK < 65536" using g by (auto simp: groups_ok_def RP_MAX_BLOCK_NGROUP_def dest!: spec [of _ "i div RP_GROUP_NBLOCK"])
  then show ?thesis by (simp add: group_sizes(1) div_less_iff_less_mult)
qed

lemma address_resource_eq:
  assumes c: "rp_config_ok c" and g: "groups_ok s"
  shows "address_resource c i s = Some (b, off) \<longleftrightarrow>
     block_at s (unat i div BLOCK_NITEM c) = Some b \<and> off = unat i mod BLOCK_NITEM c \<and> (\<exists>n. rp_nitem s b = Some n \<and> off < n)"
proof -
  have "unat (drop_bit RP_GROUP_NBLOCK_NBIT (i div of_nat (BLOCK_NITEM c))) = unat i div BLOCK_NITEM c div RP_GROUP_NBLOCK"
    by (simp only: unat_drop_bit id_parts(1) [OF c] RP_GROUP_NBLOCK_def)
  moreover have "unat i div BLOCK_NITEM c div RP_GROUP_NBLOCK < RP_MAX_BLOCK_NGROUP" if "block_at s (unat i div BLOCK_NITEM c) = Some b"
    using block_at_range [OF g that] by (simp add: group_sizes(1) RP_MAX_BLOCK_NGROUP_def div_less_iff_less_mult)
  ultimately show ?thesis
    unfolding address_resource_def find_block_eq Let_def id_parts [OF c] by (auto split: option.splits if_splits)
qed

lemma address_iff_live: "rp_config_ok c \<Longrightarrow> groups_ok s \<Longrightarrow> live_id c s i \<longleftrightarrow> (\<exists>p. address_resource c i s = Some p)"
  by (auto simp: address_resource_eq live_id_def)

lemma unsafe_address_ok:
  assumes c: "rp_config_ok c" and g: "groups_ok s" and l: "live_id c s i"
  shows "\<exists>p. unsafe_address_resource c i s = Inr p \<and> address_resource c i s = Some p"
proof -
  obtain b n where b: "block_at s (unat i div BLOCK_NITEM c) = Some b" "rp_nitem s b = Some n" "unat i mod BLOCK_NITEM c < n"
    using l by (auto simp: live_id_def)
  then have "unsafe_address_resource c i s = Inr (b, unat i mod BLOCK_NITEM c)"
    unfolding unsafe_address_resource_def find_block_eq Let_def id_parts [OF c] by simp
  moreover have "address_resource c i s = Some (b, unat i mod BLOCK_NITEM c)" using b by (auto simp: address_resource_eq [OF c g])
  ultimately show ?thesis by blast
qed

lemma address_grows:
  assumes "rp_config_ok c" "groups_ok s" "groups_ok s'" "grows s s'" "address_resource c i s = Some p"
  shows "address_resource c i s' = Some p"
proof (cases p)
  case (Pair b off)
  then show ?thesis using assms(4,5) unfolding Pair address_resource_eq [OF assms(1,2)] address_resource_eq [OF assms(1,3)] grows_def
    by (meson less_le_trans)
qed

section \<open>Steps\<close>

fun next_held :: "u64 list \<Rightarrow> rp_event option \<Rightarrow> u64 list" where
  "next_held h None = h"
| "next_held h (Some e) = held_step h e"

definition rp_inv :: "rp_config \<Rightarrow> u64 list \<Rightarrow> rpool \<Rightarrow> bool" where
  "rp_inv c h s \<longleftrightarrow> group_inv c s \<and> id_inv c h s"

definition rp_moves :: "rp_config \<Rightarrow> u64 list \<Rightarrow> rpool \<Rightarrow> rp_event option \<Rightarrow> rpool \<Rightarrow> bool" where
  "rp_moves c h s ev s' \<longleftrightarrow> rp_inv c (next_held h ev) s' \<and> grows s s' \<and>
     (\<forall>t i p. ev = Some (Got t i p) \<longrightarrow> address_resource c i s' = Some p) \<and>
     (\<forall>i. live_id c s' i \<longrightarrow> live_id c s i \<or> (\<exists>t p. ev = Some (Got t i p)))"

text \<open>Steps in which no id moves.\<close>

lemma quiet_moves:
  assumes inv: "rp_inv c h s" and g: "group_inv c s'" "grows s s'" "\<And>i. live_id c s' i \<Longrightarrow> live_id c s i"
    and ids: "ids_at h s' = ids_at h s" "rp_free_chunks s' = rp_free_chunks s" and ev: "ev = None \<or> ev = Some (GotNull t)"
  shows "rp_moves c h s ev s'"
  using inv g ids ev live_grows [OF g(2)] by (auto simp: rp_moves_def rp_inv_def id_inv_def)

lemma ids_at_same:
  assumes "\<And>u. map_option lp_cur_free (rp_local s' u) = map_option lp_cur_free (rp_local s u)" "rp_free_chunks s' = rp_free_chunks s"
    and "\<And>u. ids_at h s' (InReturn u) = ids_at h s (InReturn u)"
  shows "ids_at h s' = ids_at h s"
proof
  fix p
  show "ids_at h s' p = ids_at h s p"
  proof (cases p)
    case (Free u)
    then show ?thesis using assms(1) [of u] by (auto split: option.splits)
  qed (use assms in simp_all)
qed

text \<open>Steps in which ids move between places.\<close>

lemma move_moves:
  assumes inv: "rp_inv c h s" and g: "group_inv c s'" "rp_block_groups s' = rp_block_groups s" "rp_nitem s' = rp_nitem s"
    and ids: "rearranged (ids_at h s) (ids_at (next_held h ev) s')" "[] \<notin> set (rp_free_chunks s')"
    and ev: "\<And>t i p. ev = Some (Got t i p) \<Longrightarrow> address_resource c i s' = Some p"
  shows "rp_moves c h s ev s'"
proof -
  have B: "block_at s' = block_at s" by (rule block_at_cong [OF g(2)])
  have L: "live_id c s' i = live_id c s i" for i unfolding live_id_def B g(3) ..
  have "live_id c s i" if "i \<in> set (ids_at (next_held h ev) s' p)" for i p
    using that ids(1) inv unfolding rearranged_def rp_inv_def id_inv_def by blast
  moreover have "separate (ids_at (next_held h ev) s')" using ids(1) inv by (simp add: rearranged_def rp_inv_def id_inv_def)
  ultimately show ?thesis using g(1) ids(2) ev L unfolding rp_moves_def rp_inv_def id_inv_def grows_def B g(3) by blast
qed

text \<open>An id is taken from a free list.\<close>

lemma take_last:
  assumes ids: "F (Free t) = ids" "ids \<noteq> []"
    and F': "F' Held = last ids # F Held" "F' (Free t) = butlast ids" "\<And>p. p \<noteq> Held \<Longrightarrow> p \<noteq> Free t \<Longrightarrow> F' p = F p"
  shows "rearranged F F'"
proof (rule rearranged_move [of Held "Free t", OF _ F'(3)])
  have e: "ids = butlast ids @ [last ids]" using ids(2) by simp
  show "distinct (F' Held @ F' (Free t))" if "distinct (F Held @ F (Free t))"
  proof -
    have "distinct (F Held @ butlast ids @ [last ids])" using that ids e by simp
    then show ?thesis using F' by auto
  qed
  have "last ids \<in> set ids" "set (butlast ids) \<subseteq> set ids" using ids(2) by (auto dest: in_set_butlastD)
  then show "set (F' Held) \<union> set (F' (Free t)) \<subseteq> set (F Held) \<union> set (F (Free t))" using F' ids by auto
qed simp_all

lemma take_free_result:
  assumes c: "rp_config_ok c" and g: "groups_ok s" and e: "rp_block_groups s1 = rp_block_groups s" "rp_nitem s1 = rp_nitem s"
    and ids: "ids \<noteq> []" "live_id c s (last ids)"
  shows "\<exists>p. take_free c t l ids s1 = Inr (Some (Got t (last ids) p), rp_goto t PIdle (set_local t (Some (l\<lparr>lp_cur_free := butlast ids\<rparr>)) s1)) \<and>
     address_resource c (last ids) (rp_goto t PIdle (set_local t (Some (l\<lparr>lp_cur_free := butlast ids\<rparr>)) s1)) = Some p"
proof -
  have a: "unsafe_address_resource c i s1 = unsafe_address_resource c i s" "address_resource c i (rp_goto t PIdle (set_local t l' s1)) = address_resource c i s" for i l'
    using e by (simp_all add: unsafe_address_resource_def address_resource_def find_block_def Let_def cong: option.case_cong)
  obtain p where "unsafe_address_resource c (last ids) s = Inr p" "address_resource c (last ids) s = Some p"
    using unsafe_address_ok [OF c g ids(2)] by blast
  then show ?thesis using ids(1) a by (simp add: take_free_def)
qed

lemma get_free_moves:
  assumes c: "rp_config_ok c" and inv: "rp_inv c h s" and pc: "rp_pc s t = Get0" and l: "rp_local s t = Some l" "lp_cur_free l \<noteq> []"
  shows "\<exists>ev s'. take_free c t l (lp_cur_free l) s = Inr (ev, s') \<and> rp_moves c h s ev s'"
proof -
  let ?ids = "lp_cur_free l"
  let ?s = "rp_goto t PIdle (set_local t (Some (l\<lparr>lp_cur_free := butlast ?ids\<rparr>)) s)"
  have g: "group_inv c s" "groups_ok s" and ch: "[] \<notin> set (rp_free_chunks s)"
    using inv by (auto simp: rp_inv_def id_inv_def group_inv_def)
  have F: "ids_at h s (Free t) = ?ids" using l by simp
  have "live_id c s (last ?ids)"
    using inv l(2) F unfolding rp_inv_def id_inv_def by (metis last_in_set)
  then obtain p where r: "take_free c t l ?ids s = Inr (Some (Got t (last ?ids) p), ?s)" "address_resource c (last ?ids) ?s = Some p"
    using take_free_result [OF c g(2) refl refl l(2)] by blast
  have "rearranged (ids_at h s) (ids_at (last ?ids # h) ?s)"
  proof (rule take_last [of "ids_at h s" t ?ids, OF F l(2)])
    show "ids_at (last ?ids # h) ?s p = ids_at h s p" if "p \<noteq> Held" "p \<noteq> Free t" for p using that pc by (cases p) auto
  qed simp_all
  moreover have "group_inv c ?s"
    by (rule plain_group_inv [OF g(1), of t]) (use l pc in \<open>auto simp: cur_block_def cur_index_def\<close>)
  ultimately have "rp_moves c h s (Some (Got t (last ?ids) p)) ?s"
    by (intro move_moves [OF inv]) (use ch r(2) in auto)
  then show ?thesis using r(1) by blast
qed

lemma get_chunk_moves:
  assumes c: "rp_config_ok c" and inv: "rp_inv c h s" and pc: "rp_pc s t = GetPop" and l: "rp_local s t = Some l" and ne: "rp_free_chunks s \<noteq> []"
  shows "\<exists>ev s'. take_free c t l (last (rp_free_chunks s)) (s\<lparr>rp_free_chunks := butlast (rp_free_chunks s)\<rparr>) = Inr (ev, s') \<and> rp_moves c h s ev s'"
proof -
  let ?ids = "last (rp_free_chunks s)" and ?s1 = "s\<lparr>rp_free_chunks := butlast (rp_free_chunks s)\<rparr>"
  let ?s = "rp_goto t PIdle (set_local t (Some (l\<lparr>lp_cur_free := butlast ?ids\<rparr>)) ?s1)"
  let ?F = "(ids_at h s)(Chunks := concat (butlast (rp_free_chunks s)), Free t := ?ids)"
  have g: "group_inv c s" "groups_ok s" and ch: "[] \<notin> set (rp_free_chunks s)"
    using inv by (auto simp: rp_inv_def id_inv_def group_inv_def)
  have cc: "concat (rp_free_chunks s) = concat (butlast (rp_free_chunks s)) @ ?ids"
    using ne by (metis append_butlast_last_id concat.simps(2) concat_append append_Nil2 concat.simps(1))
  have cb: "[] \<notin> set (butlast (rp_free_chunks s))" using ch by (auto dest: in_set_butlastD)
  have i: "?ids \<noteq> []" using ch ne last_in_set by fastforce
  then have "last ?ids \<in> set (ids_at h s Chunks)" using cc by simp
  then have live: "live_id c s (last ?ids)" using inv unfolding rp_inv_def id_inv_def by blast
  have e: "rp_block_groups ?s1 = rp_block_groups s" "rp_nitem ?s1 = rp_nitem s" by simp_all
  obtain p where r: "take_free c t l ?ids ?s1 = Inr (Some (Got t (last ?ids) p), ?s)" "address_resource c (last ?ids) ?s = Some p"
    using take_free_result [OF c g(2) e i live] by blast
  have "rearranged (ids_at h s) ?F" by (rule rearranged_move [of Chunks "Free t"]) (use cc in auto)
  moreover have "rearranged ?F (ids_at (last ?ids # h) ?s)"
  proof (rule take_last [of ?F t ?ids, OF _ i])
    show "ids_at (last ?ids # h) ?s p = ?F p" if "p \<noteq> Held" "p \<noteq> Free t" for p using that pc by (cases p) auto
  qed simp_all
  moreover have "group_inv c ?s"
    by (rule plain_group_inv [OF g(1), of t]) (use l pc in \<open>auto simp: cur_block_def cur_index_def\<close>)
  ultimately have "rp_moves c h s (Some (Got t (last ?ids) p)) ?s"
    by (intro move_moves [OF inv]) (use cb r(2) in \<open>auto intro: rearranged_trans\<close>)
  then show ?thesis using r(1) by blast
qed

text \<open>A new item.\<close>

lemma construct_moves:
  assumes c: "rp_config_ok c" and inv: "rp_inv c h s" and pc: "over_of (rp_pc s t) = None" "ids_at h s (InReturn t) = []"
    and l: "rp_local s t = Some l" "lp_cur_block l = Some b" "rp_nitem s b = Some n" "n < BLOCK_NITEM c"
  shows "rp_moves c h s (Some (Got t (rp_id c (lp_cur_block_index l) n) (b, n))) (rp_goto t PIdle (set_nitem b (Some (n + 1)) s))"
    (is "rp_moves c h s (Some (Got t ?i _)) ?s")
proof -
  have g: "group_inv c s" "groups_ok s" "cur_ok s" "blocks_ok c s" using inv by (auto simp: rp_inv_def group_inv_def)
  have at: "block_at s (lp_cur_block_index l) = Some b" 
  proof -
    have "cur_block s t = Some b" "cur_index s t = lp_cur_block_index l" using l by (simp_all add: cur_block_def cur_index_def)
    then show ?thesis using g(3) unfolding cur_ok_def by metis
  qed
  note r = block_at_range [OF g(2) at]
  note parts = rp_id_parts [OF c r l(4)]
  have g': "group_inv c ?s" using construct_group_inv [OF g(1) pc(1), of b n] l by (simp add: cur_block_def)
  then have g2: "groups_ok ?s" by (simp add: group_inv_def)
  have B: "block_at ?s = block_at s" by (rule block_at_cong) simp
  have gr: "grows s ?s" unfolding grows_def B using l(3) by auto
  have nl: "\<not> live_id c s ?i" unfolding live_id_def parts using at l(3) by simp
  have live: "live_id c ?s i \<longleftrightarrow> live_id c s i \<or> i = ?i" for i
  proof -
    have eq: "i = ?i \<longleftrightarrow> unat i div BLOCK_NITEM c = lp_cur_block_index l \<and> unat i mod BLOCK_NITEM c = n"
      using parts div_mult_mod_eq [of "unat i" "BLOCK_NITEM c"] div_mult_mod_eq [of "unat ?i" "BLOCK_NITEM c"] by (metis unsigned_word_eqI)
    show ?thesis
    proof (cases "block_at s (unat i div BLOCK_NITEM c) = Some b")
      case True
      then have "unat i div BLOCK_NITEM c = lp_cur_block_index l" using one_eachD [OF _ True at] g(4) by (simp add: blocks_ok_def)
      then show ?thesis unfolding eq live_id_def B using True l(3) by (auto simp: less_Suc_eq)
    next
      case False
      then have "i \<noteq> ?i" using eq at by metis
      then show ?thesis unfolding live_id_def B using False by auto
    qed
  qed
  have "separate (ids_at (?i # h) ?s)"
  proof (rule separate_new [of "ids_at h s" Held])
    show "ids_at (?i # h) ?s p = ids_at h s p" if "p \<noteq> Held" for p using that pc(2) by (cases p) auto
    show "?i \<notin> set (ids_at h s p)" for p using inv nl unfolding rp_inv_def id_inv_def by blast
  qed (use inv in \<open>auto simp: rp_inv_def id_inv_def\<close>)
  moreover have "live_id c ?s i" if "i \<in> set (ids_at (?i # h) ?s p)" for i p
  proof -
    have "i = ?i \<or> i \<in> set (ids_at h s p)" using that pc(2) by (cases p) (auto split: if_splits)
    then show ?thesis using live inv unfolding rp_inv_def id_inv_def by blast
  qed
  moreover have "address_resource c ?i ?s = Some (b, n)" unfolding address_resource_eq [OF c g2] parts B using at by simp
  ultimately show ?thesis using g' gr live inv unfolding rp_moves_def by (auto simp: rp_inv_def id_inv_def)
qed

text \<open>Ids that are returned.\<close>

lemma return_moves:
  assumes c: "rp_config_ok c" and inv: "rp_inv c h s" and l: "rp_local s t = Some l" and st: "return_step c ok t l s = Some r"
  shows "\<exists>ev s'. r = Inr (ev, s') \<and> rp_moves c h s ev s'"
proof -
  have g: "group_inv c s" and ch: "[] \<notin> set (rp_free_chunks s)" using inv by (auto simp: rp_inv_def id_inv_def)
  have plain: "group_inv c (rp_goto t PIdle (set_local t (Some (l\<lparr>lp_cur_free := ids\<rparr>)) (s\<lparr>rp_free_chunks := cs\<rparr>)))" if "block_of (rp_pc s t) = None" "over_of (rp_pc s t) = None" for ids cs
    by (rule plain_group_inv [OF g, of t]) (use l that in \<open>auto simp: cur_block_def cur_index_def\<close>)
  show ?thesis
  proof (cases "rp_pc s t")
    case (Ret0 i)
    show ?thesis
    proof (cases "length (lp_cur_free l) < free_chunk_nitem c")
      case True
      let ?s = "rp_goto t PIdle (set_local t (Some (l\<lparr>lp_cur_free := lp_cur_free l @ [i]\<rparr>)) s)"
      have "rearranged (ids_at h s) (ids_at h ?s)"
      proof (rule rearranged_move [of "InReturn t" "Free t"])
        show "ids_at h ?s p = ids_at h s p" if "p \<noteq> InReturn t" "p \<noteq> Free t" for p using that by (cases p) auto
      qed (use Ret0 l in auto)
      then have "rp_moves c h s (Some Done) ?s" using plain [of "lp_cur_free l @ [i]" "rp_free_chunks s"] Ret0 ch by (intro move_moves [OF inv]) auto
      then show ?thesis using st Ret0 True by (auto simp: return_step_def)
    next
      case False
      then have "lp_cur_free l \<noteq> []" using config_bounds(3) [OF c] by auto
      then have "group_inv c (rp_goto t (RetPush i) s)" by (intro plain_group_inv [OF g, of t]) (use l Ret0 in \<open>auto simp: cur_block_def cur_index_def\<close>)
      moreover have "ids_at h (rp_goto t (RetPush i) s) = ids_at h s" by (rule ids_at_same) (use Ret0 in auto)
      ultimately have "rp_moves c h s None (rp_goto t (RetPush i) s)"
        using ch by (intro move_moves [OF inv]) (auto simp: rearranged_def)
      then show ?thesis using st Ret0 False by (auto simp: return_step_def)
    qed
  next
    case (RetPush i)
    show ?thesis
    proof (cases ok)
      case True
      let ?s = "rp_goto t PIdle (set_local t (Some (l\<lparr>lp_cur_free := [i]\<rparr>)) (s\<lparr>rp_free_chunks := rp_free_chunks s @ [lp_cur_free l]\<rparr>))"
      let ?F = "(ids_at h s)(Chunks := concat (rp_free_chunks s) @ lp_cur_free l, Free t := [])"
      have "rearranged (ids_at h s) ?F" by (rule rearranged_move [of Chunks "Free t"]) (use l in auto)
      moreover have "rearranged ?F (ids_at h ?s)"
      proof (rule rearranged_move [of "InReturn t" "Free t"])
        show "ids_at h ?s p = ?F p" if "p \<noteq> InReturn t" "p \<noteq> Free t" for p using that by (cases p) auto
      qed (use RetPush in auto)
      moreover have "lp_cur_free l \<noteq> []" using g l RetPush by (auto simp: group_inv_def dest: spec [of _ t])
      ultimately have "rp_moves c h s (Some Done) ?s" using plain RetPush ch by (intro move_moves [OF inv]) (auto intro: rearranged_trans)
      then show ?thesis using st RetPush True by (auto simp: return_step_def)
    next
      case False
      have "rearranged (ids_at h s) (ids_at (i # h) (rp_goto t PIdle s))"
      proof (rule rearranged_move [of "InReturn t" Held])
        show "ids_at (i # h) (rp_goto t PIdle s) p = ids_at h s p" if "p \<noteq> InReturn t" "p \<noteq> Held" for p using that by (cases p) auto
      qed (use RetPush in auto)
      moreover have "group_inv c (rp_goto t PIdle s)" by (rule plain_group_inv [OF g, of t]) (use l RetPush in \<open>auto simp: cur_block_def cur_index_def\<close>)
      ultimately have "rp_moves c h s (Some (GaveBack i)) (rp_goto t PIdle s)" using ch by (intro move_moves [OF inv]) auto
      then show ?thesis using st RetPush False by (auto simp: return_step_def)
    qed
  qed (use st in \<open>auto simp: return_step_def\<close>)
qed

lemma clear_moves:
  assumes inv: "rp_inv c h s" and l: "rp_local s t = Some l" and pc: "rp_pc s t = Clear" and st: "clear_step ok t l s = Some r"
  shows "\<exists>ev s'. r = Inr (ev, s') \<and> rp_moves c h s ev s'"
proof -
  have g: "group_inv c s" and ch: "[] \<notin> set (rp_free_chunks s)" using inv by (auto simp: rp_inv_def id_inv_def)
  let ?cs = "if lp_cur_free l \<noteq> [] \<and> ok then rp_free_chunks s @ [lp_cur_free l] else rp_free_chunks s"
  let ?s = "rp_goto t PIdle (set_local t None (s\<lparr>rp_free_chunks := ?cs, rp_nlocal := rp_nlocal s - 1\<rparr>))"
  have "rearranged (ids_at h s) (ids_at h ?s)"
  proof (rule rearranged_move [of Chunks "Free t"])
    show "ids_at h ?s p = ids_at h s p" if "p \<noteq> Chunks" "p \<noteq> Free t" for p using that pc by (cases p) auto
  qed (use l in auto)
  moreover have "group_inv c ?s" by (rule plain_group_inv [OF g, of t]) (use l pc in \<open>auto simp: cur_block_def cur_index_def\<close>)
  ultimately have "rp_moves c h s None ?s" using ch by (intro move_moves [OF inv]) auto
  then show ?thesis using st by (auto simp: clear_step_def)
qed

text \<open>Steps that only touch what the thread itself is doing.\<close>

lemma rp_goto_moves:
  assumes inv: "rp_inv c h s" and pc: "block_of pc = None \<or> block_of pc = block_of (rp_pc s t)" "slot_of pc = None" "over_of pc = None"
      "over_of (rp_pc s t) = None" "rpc_ok (rp_goto t pc s) t pc" "ids_at h (rp_goto t pc s) (InReturn t) = ids_at h s (InReturn t)"
    and ev: "ev = None \<or> ev = Some (GotNull t)"
  shows "rp_moves c h s ev (rp_goto t pc s)"
proof (rule quiet_moves [OF inv _ _ _ _ _ ev])
  have g: "group_inv c s" using inv by (simp add: rp_inv_def)
  show "group_inv c (rp_goto t pc s)" by (rule plain_group_inv [OF g, of t]) (use pc in \<open>auto simp: cur_block_def cur_index_def\<close>)
  have B: "block_at (rp_goto t pc s) = block_at s" by (rule block_at_cong) simp
  show "grows s (rp_goto t pc s)" by (rule growsI) (use B in auto)
  show "live_id c (rp_goto t pc s) i \<Longrightarrow> live_id c s i" for i unfolding live_id_def B by simp
  show "ids_at h (rp_goto t pc s) = ids_at h s"
  proof (rule ids_at_same)
    show "ids_at h (rp_goto t pc s) (InReturn u) = ids_at h s (InReturn u)" for u using pc(6) by (cases "u = t") simp_all
  qed simp_all
qed simp

lemma drop_block_moves:
  assumes inv: "rp_inv c h s" and l: "rp_local s t = Some l" and pc: "rp_pc s t = GetBlk"
  shows "rp_moves c h s (Some (GotNull t)) (rp_goto t PIdle (set_local t (Some (l\<lparr>lp_cur_block := None\<rparr>)) s))" (is "rp_moves c h s _ ?s")
proof (rule quiet_moves [OF inv, of _ _ t])
  have g: "group_inv c s" using inv by (simp add: rp_inv_def)
  show "group_inv c ?s" by (rule plain_group_inv [OF g, of t]) (use l pc in \<open>auto simp: cur_block_def\<close>)
  have B: "block_at ?s = block_at s" by (rule block_at_cong) simp
  show "grows s ?s" by (rule growsI) (use B in auto)
  show "live_id c ?s i \<Longrightarrow> live_id c s i" for i unfolding live_id_def B by simp
  show "ids_at h ?s = ids_at h s" by (rule ids_at_same) (use l pc in auto)
qed simp_all

lemma new_block_moves:
  assumes inv: "rp_inv c h s" and l: "rp_local s t = Some l" and pc: "rp_pc s t = GetBlk" and st: "new_block ok addr t l s = Some r"
  shows "\<exists>ev s'. r = Inr (ev, s') \<and> rp_moves c h s ev s'"
proof (cases ok)
  case True
  then have a: "rp_nitem s addr = None" using st by (auto simp: new_block_def split: if_splits)
  let ?s = "rp_goto t (Add0 addr) (set_nitem addr (Some 0) s)"
  have g: "group_inv c s" "blocks_ok c s" using inv by (simp_all add: rp_inv_def group_inv_def)
  have na: "block_at s i \<noteq> Some addr" for i using g(2) a by (fastforce simp: blocks_ok_def)
  have B: "block_at ?s = block_at s" by (rule block_at_cong) simp
  have "rp_moves c h s None ?s"
  proof (rule quiet_moves [OF inv new_block_group_inv [OF g(1) pc a], of _ t])
    show "grows s ?s" by (rule growsI) (use B na in auto)
    show "live_id c ?s i \<Longrightarrow> live_id c s i" for i unfolding live_id_def B using na by (auto split: if_splits)
    show "ids_at h ?s = ids_at h s" by (rule ids_at_same) (use l pc in auto)
  qed simp_all
  then show ?thesis using st a True by (auto simp: new_block_def)
next
  case False
  then show ?thesis using st drop_block_moves [OF inv l pc] by (auto simp: new_block_def)
qed

lemma counter_moves:
  assumes inv: "rp_inv c h s" and g: "rp_block_groups s j = Some g" and b: "block_of (rp_pc s t) = Some b" "block_of pc = Some b"
    and gi: "group_inv c (rp_goto t pc (set_group j (g\<lparr>bg_nblock := n\<rparr>) s))"
  shows "rp_moves c h s None (rp_goto t pc (set_group j (g\<lparr>bg_nblock := n\<rparr>) s))" (is "rp_moves c h s None ?s")
proof (rule quiet_moves [OF inv gi, of _ t])
  have B: "block_at ?s = block_at s" using block_at_counter [OF g, of n] block_at_cong [of ?s "set_group j (g\<lparr>bg_nblock := n\<rparr>) s"] by simp
  show "grows s ?s" by (rule growsI) (use B in auto)
  show "live_id c ?s i \<Longrightarrow> live_id c s i" for i unfolding live_id_def B by simp
  have "ids_at h s (InReturn t) = []" "ids_at h ?s (InReturn t) = []" using b by (cases "rp_pc s t"; cases pc; simp)+
  then have "ids_at h ?s (InReturn u) = ids_at h s (InReturn u)" for u by (cases "u = t") simp_all
  then show "ids_at h ?s = ids_at h s" by (intro ids_at_same) simp_all
qed simp_all

lemma store_moves:
  assumes inv: "rp_inv c h s" and pc: "rp_pc s t = Add2 b ng k" and g: "rp_block_groups s (ng - 1) = Some g" and l: "rp_local s t = Some l"
  shows "rp_moves c h s None (rp_goto t GetNew (set_local t (Some (l\<lparr>lp_cur_block := Some b, lp_cur_block_index := (ng - 1) * RP_GROUP_NBLOCK + k\<rparr>))
     (set_group (ng - 1) (g\<lparr>bg_blocks := (bg_blocks g)(k \<mapsto> b)\<rparr>) s)))" (is "rp_moves c h s None ?s")
proof -
  have gi: "group_inv c s" "adding_ok s" "slots_ok s" using inv by (simp_all add: rp_inv_def group_inv_def)
  have sl: "slot_ok s (ng - 1) k" using gi(3) pc unfolding slots_ok_def by (metis slot_of.simps(1))
  have fb: "fresh_block s b" using adding_okD [OF gi(2), of t b] pc by simp
  have k: "k < RP_GROUP_NBLOCK" "bg_blocks g k = None" using sl g by (auto simp: slot_ok_def)
  let ?i = "(ng - 1) * RP_GROUP_NBLOCK + k"
  have B: "block_at ?s i = (if i = ?i then Some b else block_at s i)" for i
    using block_at_store [OF g k(1), of b i] by (simp add: block_at_def)
  have free: "block_at s ?i = None" using g k by (simp add: block_at_def)
  show ?thesis
  proof (rule quiet_moves [OF inv add2_group_inv [OF gi(1) pc g l], of _ t])
    show "grows s ?s" by (rule growsI) (use B free in auto)
    show "live_id c ?s i \<Longrightarrow> live_id c s i" for i unfolding live_id_def B using fb by (auto simp: fresh_block_def split: if_splits)
    show "ids_at h ?s = ids_at h s" by (rule ids_at_same) (use l pc in auto)
  qed simp_all
qed

lemma new_group_moves:
  assumes inv: "rp_inv c h s" and pc: "rp_pc s t = AddG b ng" and n: "rp_ngroup s < RP_MAX_BLOCK_NGROUP"
  shows "rp_moves c h s None (rp_goto t (Add0 b) ((set_group (rp_ngroup s) new_group s)\<lparr>rp_ngroup := rp_ngroup s + 1\<rparr>))" (is "rp_moves c h s None ?s")
proof -
  have g: "group_inv c s" "groups_ok s" using inv by (simp_all add: rp_inv_def group_inv_def)
  have none: "rp_block_groups s (rp_ngroup s) = None" using g(2) by (auto simp: groups_ok_def)
  have B: "block_at ?s = block_at s" using none by (auto simp: block_at_def fun_eq_iff new_group_def)
  show ?thesis
  proof (rule quiet_moves [OF inv new_group_inv [OF g(1) pc n], of _ t])
    show "grows s ?s" by (rule growsI) (use B in auto)
    show "live_id c ?s i \<Longrightarrow> live_id c s i" for i unfolding live_id_def B by simp
    show "ids_at h ?s = ids_at h s" by (rule ids_at_same) (use pc in auto)
  qed simp_all
qed

lemma no_group_moves:
  assumes inv: "rp_inv c h s" and pc: "rp_pc s t = AddG b ng" and l: "rp_local s t = Some l"
  shows "rp_moves c h s (Some (GotNull t)) (rp_goto t PIdle (set_local t (Some (l\<lparr>lp_cur_block := None\<rparr>)) (set_nitem b None s)))" (is "rp_moves c h s _ ?s")
proof -
  have g: "group_inv c s" "adding_ok s" using inv by (simp_all add: rp_inv_def group_inv_def)
  have nb: "block_at s i \<noteq> Some b" for i using adding_okD(1) [OF g(2), of t b] pc by (simp add: fresh_block_def)
  have B: "block_at ?s = block_at s" by (rule block_at_cong) simp
  show ?thesis
  proof (rule quiet_moves [OF inv no_group_inv [OF g(1) pc l], of _ t])
    show "grows s ?s" by (rule growsI) (use B nb in auto)
    show "live_id c ?s i \<Longrightarrow> live_id c s i" for i unfolding live_id_def B using nb by (auto split: if_splits)
    show "ids_at h ?s = ids_at h s" by (rule ids_at_same) (use pc l in auto)
  qed simp_all
qed

lemma new_local_moves:
  assumes inv: "rp_inv c h s" and l: "rp_local s t = None" and pc: "rp_pc s t = Get0 \<or> (\<exists>i. rp_pc s t = Ret0 i)"
  shows "rp_moves c h s None (new_local_pool t s)"
proof (rule quiet_moves [OF inv, of _ _ t])
  let ?s = "new_local_pool t s"
  have f: "rp_pc ?s = rp_pc s" "rp_local ?s = (rp_local s)(t \<mapsto> new_local)" "rp_block_groups ?s = rp_block_groups s" "rp_nitem ?s = rp_nitem s"
    "rp_ngroup ?s = rp_ngroup s" "rp_free_chunks ?s = rp_free_chunks s" by (simp_all add: new_local_pool_def)
  have g: "group_inv c s" using inv by (simp add: rp_inv_def)
  show "group_inv c ?s"
    by (rule plain_group_inv [OF g, of t]) (use f pc in \<open>auto simp: cur_block_def new_local_def\<close>)
  have B: "block_at ?s = block_at s" by (rule block_at_cong) (rule f)
  show "grows s ?s" by (rule growsI) (use B f in auto)
  show "live_id c ?s i \<Longrightarrow> live_id c s i" for i unfolding live_id_def B f by simp
  show "ids_at h ?s = ids_at h s"
  proof
    fix p
    show "ids_at h ?s p = ids_at h s p" using f l by (cases p) (auto simp: new_local_def split: option.splits)
  qed
qed (simp_all add: new_local_pool_def)

lemma add_moves:
  assumes inv: "rp_inv c h s" and l: "rp_local s t = Some l" and st: "add_step ok t l s = Some r"
  shows "\<exists>ev s'. r = Inr (ev, s') \<and> rp_moves c h s ev s'"
proof -
  have g: "group_inv c s" "groups_ok s" using inv by (simp_all add: rp_inv_def group_inv_def)
  have rpc: "rpc_ok s t (rp_pc s t)" using g(1) by (simp add: group_inv_def)
  have gr: "\<exists>g. rp_block_groups s (ng - 1) = Some g" if "1 \<le> ng" "ng \<le> rp_ngroup s" for ng
    using g(2) that unfolding groups_ok_def by (metis Suc_diff_1 Suc_le_eq less_le_trans not_None_eq One_nat_def lessI)
  show ?thesis
  proof (cases "rp_pc s t")
    case (Add0 b)
    have "rp_moves c h s None (rp_goto t (if rp_ngroup s \<ge> 1 then Add1 b (rp_ngroup s) else AddG b (rp_ngroup s)) s)"
      by (rule rp_goto_moves [OF inv]) (use Add0 l in auto)
    then show ?thesis using st Add0 by (auto simp: add_step_def Let_def split: if_splits)
  next
    case (Add1 b ng)
    then obtain g0 where g0: "rp_block_groups s (ng - 1) = Some g0" using rpc gr by auto
    note m = add1_group_inv [OF g(1) Add1 g0]
    show ?thesis
      using st Add1 g0 counter_moves [OF inv g0, of t b, OF _ _ m(1)] counter_moves [OF inv g0, of t b, OF _ _ m(2)]
      by (auto simp: add_step_def Let_def split: if_splits)
  next
    case (Add2 b ng k)
    then obtain g0 where g0: "rp_block_groups s (ng - 1) = Some g0" using rpc gr by auto
    then show ?thesis using st Add2 store_moves [OF inv Add2 g0 l] by (auto simp: add_step_def)
  next
    case (Add3 b ng)
    then obtain g0 where g0: "rp_block_groups s (ng - 1) = Some g0" using rpc gr by auto
    then show ?thesis using st Add3 counter_moves [OF inv g0, of t b, OF _ _ add3_group_inv [OF g(1) Add3 g0]] by (auto simp: add_step_def)
  next
    case (AddG b ng)
    have "rp_moves c h s None (rp_goto t (Add0 b) s)" by (rule rp_goto_moves [OF inv]) (use AddG l in auto)
    then show ?thesis
      using st AddG new_group_moves [OF inv AddG] no_group_moves [OF inv AddG l] by (auto simp: add_step_def Let_def split: if_splits)
  qed (use st in \<open>auto simp: add_step_def\<close>)
qed

lemma construct_item_moves:
  assumes c: "rp_config_ok c" and inv: "rp_inv c h s" and pc: "rp_pc s t = GetBlk \<or> rp_pc s t = GetNew"
    and l: "rp_local s t = Some l" "lp_cur_block l = Some b" "rp_nitem s b = Some n" "n < BLOCK_NITEM c"
  shows "\<exists>ev s'. construct_item c valid t l s = Inr (ev, s') \<and> rp_moves c h s ev s'"
proof (cases valid)
  case True
  have "rp_moves c h s (Some (Got t (rp_id c (lp_cur_block_index l) n) (b, n))) (rp_goto t PIdle (set_nitem b (Some (n + 1)) s))"
    by (rule construct_moves [OF c inv _ _ l]) (use pc in auto)
  then show ?thesis using True l by (auto simp: construct_item_def)
next
  case False
  have "rp_moves c h s (Some (GotNull t)) (rp_goto t PIdle s)" by (rule rp_goto_moves [OF inv]) (use pc in auto)
  then show ?thesis using False l by (auto simp: construct_item_def)
qed

lemma get_moves:
  assumes c: "rp_config_ok c" and inv: "rp_inv c h s" and l: "rp_local s t = Some l" and st: "get_step c ok addr valid t l s = Some r"
  shows "\<exists>ev s'. r = Inr (ev, s') \<and> rp_moves c h s ev s'"
proof (cases "rp_pc s t")
  case Get0
  have "rp_moves c h s None (rp_goto t GetPop s)" by (rule rp_goto_moves [OF inv]) (use Get0 l in auto)
  then show ?thesis using st Get0 get_free_moves [OF c inv Get0 l] by (auto simp: get_step_def split: if_splits)
next
  case GetPop
  have "rp_moves c h s None (rp_goto t GetBlk s)" by (rule rp_goto_moves [OF inv]) (use GetPop l in auto)
  then show ?thesis using st GetPop get_chunk_moves [OF c inv GetPop l] by (auto simp: get_step_def split: if_splits)
next
  case GetBlk
  show ?thesis
  proof (cases "lp_cur_block l")
    case None
    then show ?thesis using st GetBlk new_block_moves [OF inv l GetBlk] by (auto simp: get_step_def)
  next
    case (Some b)
    have "cur_ok s" "blocks_ok c s" using inv by (simp_all add: rp_inv_def group_inv_def)
    moreover have "cur_block s t = Some b" using l Some by (simp add: cur_block_def)
    ultimately obtain n where n: "rp_nitem s b = Some n" unfolding cur_ok_def blocks_ok_def by blast
    show ?thesis
    proof (cases "n < BLOCK_NITEM c")
      case True
      then show ?thesis using st GetBlk Some n construct_item_moves [OF c inv _ l Some n True] by (auto simp: get_step_def)
    next
      case False
      then show ?thesis using st GetBlk Some n new_block_moves [OF inv l GetBlk] by (auto simp: get_step_def)
    qed
  qed
next
  case GetNew
  have "rpc_ok s t GetNew" using inv GetNew by (auto simp: rp_inv_def group_inv_def dest: spec [of _ t])
  then obtain b where b: "lp_cur_block l = Some b" "rp_nitem s b = Some 0" using l by auto
  have "0 < BLOCK_NITEM c" using config_bounds(1) [OF c] by simp
  then show ?thesis using st GetNew construct_item_moves [OF c inv _ l b] by (auto simp: get_step_def)
qed (use st in \<open>auto simp: get_step_def\<close>)

lemma step_moves:
  assumes c: "rp_config_ok c" and inv: "rp_inv c h s" and st: "rp_step c ok addr valid t s = Some r"
  shows "\<exists>ev s'. r = Inr (ev, s') \<and> rp_moves c h s ev s'"
proof (cases "rp_local s t")
  case (Some l)
  then show ?thesis
    using st get_moves [OF c inv Some] add_moves [OF inv Some] return_moves [OF c inv Some] clear_moves [OF inv Some]
    by (cases "rp_pc s t") (auto simp: rp_step_def)
next
  case None
  have rpc: "rpc_ok s t (rp_pc s t)" using inv by (simp add: rp_inv_def group_inv_def)
  have ch: "[] \<notin> set (rp_free_chunks s)" and g: "group_inv c s" using inv by (auto simp: rp_inv_def id_inv_def)
  show ?thesis
  proof (cases "rp_pc s t")
    case Get0
    have "rp_moves c h s (Some (GotNull t)) (rp_goto t PIdle s)" by (rule rp_goto_moves [OF inv]) (use Get0 in auto)
    then show ?thesis using st None Get0 new_local_moves [OF inv None] by (auto simp: rp_step_def split: if_splits)
  next
    case (Ret0 i)
    have "rearranged (ids_at h s) (ids_at (i # h) (rp_goto t PIdle s))"
    proof (rule rearranged_move [of "InReturn t" Held])
      show "ids_at (i # h) (rp_goto t PIdle s) p = ids_at h s p" if "p \<noteq> InReturn t" "p \<noteq> Held" for p using that by (cases p) auto
    qed (use Ret0 in auto)
    moreover have "group_inv c (rp_goto t PIdle s)" by (rule plain_group_inv [OF g, of t]) (use Ret0 in \<open>auto simp: cur_block_def cur_index_def\<close>)
    ultimately have "rp_moves c h s (Some (GaveBack i)) (rp_goto t PIdle s)" using ch by (intro move_moves [OF inv]) auto
    then show ?thesis using st None Ret0 new_local_moves [OF inv None] by (auto simp: rp_step_def split: if_splits)
  next
    case Clear
    have "rp_moves c h s None (rp_goto t PIdle s)" by (rule rp_goto_moves [OF inv]) (use Clear in auto)
    then show ?thesis using st None Clear by (auto simp: rp_step_def)
  qed (use st None rpc in \<open>auto simp: rp_step_def\<close>)
qed

section \<open>Runs\<close>

lemma held_append: "held (evs @ [e]) = held_step (held evs) e" "held (evs @ (case ev of None \<Rightarrow> [] | Some e \<Rightarrow> [e])) = next_held (held evs) ev"
  by (simp_all add: held_def split: option.splits)

lemma call_moves:
  assumes inv: "rp_inv c h s" and pc: "rp_pc s t = PIdle" "pc = Get0 \<or> pc = Clear"
  shows "rp_moves c h s None (rp_goto t pc s)"
  by (rule rp_goto_moves [OF inv]) (use pc in auto)

lemma return_call_inv:
  assumes inv: "rp_inv c h s" and pc: "rp_pc s t = PIdle" and i: "i \<in> set h"
  shows "rp_inv c (remove1 i h) (rp_goto t (Ret0 i) s)" "grows s (rp_goto t (Ret0 i) s)" "live_id c (rp_goto t (Ret0 i) s) j = live_id c s j"
proof -
  let ?s = "rp_goto t (Ret0 i) s"
  have g: "group_inv c s" "distinct h" and ch: "[] \<notin> set (rp_free_chunks s)"
    using inv separateD(1) [of "ids_at h s" Held] by (auto simp: rp_inv_def id_inv_def)
  have "rearranged (ids_at h s) (ids_at (remove1 i h) ?s)"
  proof (rule rearranged_move [of Held "InReturn t"])
    show "ids_at (remove1 i h) ?s p = ids_at h s p" if "p \<noteq> Held" "p \<noteq> InReturn t" for p using that by (cases p) auto
  qed (use pc i g(2) in auto)
  moreover have "group_inv c ?s" by (rule plain_group_inv [OF g(1), of t]) (use pc in \<open>auto simp: cur_block_def cur_index_def\<close>)
  ultimately have "rp_moves c h s (Some (Gave i)) ?s" using ch by (intro move_moves [OF inv]) auto
  then show "rp_inv c (remove1 i h) ?s" "grows s ?s" "live_id c ?s j = live_id c s j"
    using live_grows [of s ?s c j] by (auto simp: rp_moves_def)
qed

text \<open>What holds after every run: the ids that can be addressed are those that were given out.\<close>

lemma rp_start_inv: "rp_inv c [] rp_start" "\<not> live_id c rp_start i"
proof -
  have "ids_at [] rp_start p = []" for p by (cases p) (simp_all add: rp_start_def)
  then have "id_inv c [] rp_start" by (simp add: id_inv_def separate_def) (simp add: rp_start_def)
  then show "rp_inv c [] rp_start" using group_inv_start by (simp add: rp_inv_def)
  show "\<not> live_id c rp_start i" by (simp add: live_id_def block_at_def rp_start_def)
qed

definition addressed :: "rp_config \<Rightarrow> rp_event list \<Rightarrow> rpool \<Rightarrow> bool" where
  "addressed c evs s \<longleftrightarrow> (\<forall>t i p. Got t i p \<in> set evs \<longrightarrow> address_resource c i s = Some p) \<and>
     (\<forall>i. live_id c s i \<longrightarrow> (\<exists>t p. Got t i p \<in> set evs))"

lemma addressed_step:
  assumes c: "rp_config_ok c" and inv: "rp_inv c h s" and a: "addressed c evs s" and g: "groups_ok s'" "grows s s'"
    and new: "\<And>t i p. ev = Some (Got t i p) \<Longrightarrow> address_resource c i s' = Some p" "\<And>i. live_id c s' i \<Longrightarrow> live_id c s i \<or> (\<exists>t p. ev = Some (Got t i p))"
  shows "addressed c (evs @ (case ev of None \<Rightarrow> [] | Some e \<Rightarrow> [e])) s'"
  unfolding addressed_def
proof (intro conjI allI impI)
  have gs: "groups_ok s" using inv by (simp add: rp_inv_def group_inv_def)
  show "address_resource c i s' = Some p" if "Got t i p \<in> set (evs @ (case ev of None \<Rightarrow> [] | Some e \<Rightarrow> [e]))" for t i p
  proof (cases "Got t i p \<in> set evs")
    case True
    then show ?thesis using a address_grows [OF c gs g] unfolding addressed_def by blast
  next
    case False
    then have "ev = Some (Got t i p)" using that by (auto split: option.splits)
    then show ?thesis by (rule new(1))
  qed
  show "\<exists>t p. Got t i p \<in> set (evs @ (case ev of None \<Rightarrow> [] | Some e \<Rightarrow> [e]))" if "live_id c s' i" for i
    using new(2) [OF that] a unfolding addressed_def by fastforce
qed

lemma rp_run_inv:
  assumes c: "rp_config_ok c"
  shows "rp_run c evs s \<Longrightarrow> rp_inv c (held evs) s \<and> addressed c evs s"
proof (induction rule: rp_run.induct)
  case rp_first
  then show ?case using rp_start_inv [of c] by (simp add: held_def addressed_def)
next
  case (rp_get evs s t)
  then have m: "rp_moves c (held evs) s None (rp_goto t Get0 s)" by (intro call_moves) auto
  then show ?case using rp_get.IH addressed_step [OF c, of "held evs" s evs "rp_goto t Get0 s" None] by (auto simp: rp_moves_def rp_inv_def group_inv_def)
next
  case (rp_return evs s t i)
  note m = return_call_inv [OF conjunct1 [OF rp_return.IH] rp_return.hyps(2,3)]
  show ?case
    using m rp_return.IH addressed_step [OF c, of "held evs" s evs "rp_goto t (Ret0 i) s" "Some (Gave i)"]
    by (auto simp: held_append rp_inv_def group_inv_def)
next
  case (rp_clear evs s t)
  then have m: "rp_moves c (held evs) s None (rp_goto t Clear s)" by (intro call_moves) auto
  then show ?case using rp_clear.IH addressed_step [OF c, of "held evs" s evs "rp_goto t Clear s" None] by (auto simp: rp_moves_def rp_inv_def group_inv_def)
next
  case (rp_next evs s ok addr valid t ev s')
  have m: "rp_moves c (held evs) s ev s'" using step_moves [OF c conjunct1 [OF rp_next.IH] rp_next.hyps(2)] by auto
  then have "groups_ok s'" by (simp add: rp_moves_def rp_inv_def group_inv_def)
  then show ?case using m rp_next.IH addressed_step [OF c, of "held evs" s evs s' ev] unfolding rp_moves_def held_append by blast
qed

lemma address_inj:
  assumes c: "rp_config_ok c" and inv: "group_inv c s" and a: "address_resource c i s = Some p" "address_resource c j s = Some p"
  shows "i = j"
proof -
  have g: "groups_ok s" "one_each (block_at s)" using inv by (simp_all add: group_inv_def blocks_ok_def)
  obtain b off where p: "p = (b, off)" by (cases p)
  note e = a(1) [unfolded p address_resource_eq [OF c g(1)]] a(2) [unfolded p address_resource_eq [OF c g(1)]]
  have "unat i div BLOCK_NITEM c = unat j div BLOCK_NITEM c" using one_eachD [OF g(2)] e by blast
  moreover have "unat i mod BLOCK_NITEM c = unat j mod BLOCK_NITEM c" using e by simp
  ultimately show ?thesis by (metis div_mult_mod_eq unsigned_word_eqI)
qed

text \<open>Runs that follow a schedule: a call, or a step with the address of a new block.\<close>

datatype rp_call = CallGet | CallReturn u64 | CallClear | Step nat

fun rp_exec :: "rp_config \<Rightarrow> (rp_call \<times> nat) list \<Rightarrow> rp_event list \<Rightarrow> rpool \<Rightarrow> (rp_event list \<times> rpool) option" where
  "rp_exec c [] evs s = Some (evs, s)"
| "rp_exec c ((CallGet, t) # sched) evs s = (if rp_pc s t = PIdle then rp_exec c sched evs (rp_goto t Get0 s) else None)"
| "rp_exec c ((CallReturn i, t) # sched) evs s =
     (if rp_pc s t = PIdle \<and> i \<in> set (held evs) then rp_exec c sched (evs @ [Gave i]) (rp_goto t (Ret0 i) s) else None)"
| "rp_exec c ((CallClear, t) # sched) evs s = (if rp_pc s t = PIdle then rp_exec c sched evs (rp_goto t Clear s) else None)"
| "rp_exec c ((Step addr, t) # sched) evs s =
     (case rp_step c True addr True t s of
        Some (Inr (ev, s')) \<Rightarrow> rp_exec c sched (evs @ (case ev of None \<Rightarrow> [] | Some e \<Rightarrow> [e])) s'
      | _ \<Rightarrow> None)"

lemma rp_exec_run: "rp_exec c sched evs s = Some (evs', s') \<Longrightarrow> rp_run c evs s \<Longrightarrow> rp_run c evs' s'"
proof (induction sched arbitrary: evs s)
  case (Cons x sched)
  obtain a t where x: "x = (a, t)" by (cases x)
  show ?case
  proof (cases a)
    case (Step addr)
    then obtain ev s1 where "rp_step c True addr True t s = Some (Inr (ev, s1))"
      "rp_exec c sched (evs @ (case ev of None \<Rightarrow> [] | Some e \<Rightarrow> [e])) s1 = Some (evs', s')"
      using Cons.prems(1) x by (auto split: option.splits sum.splits)
    then show ?thesis using Cons.IH rp_run.rp_next [OF Cons.prems(2)] by blast
  qed (use Cons x rp_run.rp_get rp_run.rp_return rp_run.rp_clear in \<open>auto split: if_splits\<close>)
qed simp

section \<open>Properties\<close>

text \<open>
C25: Whatever threads get, return and clear in whatever interleaving, with whatever allocations failing, no step follows a
null pointer, no id is held twice at the same time, an id denotes an object exactly when it was given out before, always the
object that it was given out with, and different ids denote different objects.\<close>

theorem ids_given_out_once:
  assumes "rp_config_ok c" "rp_run c evs s"
  shows "(\<forall>ok addr valid t r. rp_step c ok addr valid t s = Some r \<longrightarrow> (\<exists>x. r = Inr x)) \<and> distinct (held evs) \<and>
     (\<forall>i p. address_resource c i s = Some p \<longleftrightarrow> (\<exists>t. Got t i p \<in> set evs)) \<and>
     (\<forall>i j p. address_resource c i s = Some p \<longrightarrow> address_resource c j s = Some p \<longrightarrow> i = j)"
proof (intro conjI allI impI)
  have inv: "rp_inv c (held evs) s" and a: "addressed c evs s" using rp_run_inv [OF assms] by auto
  then have g: "group_inv c s" "groups_ok s" by (simp_all add: rp_inv_def group_inv_def)
  show "\<exists>x. r = Inr x" if "rp_step c ok addr valid t s = Some r" for ok addr valid t r
    using step_moves [OF assms(1) inv that] by blast
  have "distinct (ids_at (held evs) s Held)" using inv separateD(1) unfolding rp_inv_def id_inv_def by blast
  then show "distinct (held evs)" by simp
  show "address_resource c i s = Some p \<longleftrightarrow> (\<exists>t. Got t i p \<in> set evs)" for i p
  proof
    assume p: "address_resource c i s = Some p"
    then obtain t p' where "Got t i p' \<in> set evs" using address_iff_live [OF assms(1) g(2)] a unfolding addressed_def by blast
    moreover from this have "p' = p" using a p unfolding addressed_def by fastforce
    ultimately show "\<exists>t. Got t i p \<in> set evs" by blast
  next
    assume "\<exists>t. Got t i p \<in> set evs"
    then show "address_resource c i s = Some p" using a unfolding addressed_def by blast
  qed
  show "i = j" if "address_resource c i s = Some p" "address_resource c j s = Some p" for i j p
    by (rule address_inj [OF assms(1) g(1) that])
qed

text \<open>Two threads get an object each, the first returns its own and quits, the second gets another.\<close>

definition rp_schedule :: "(rp_call \<times> nat) list" where
  "rp_schedule =
     [(CallGet, 0), (Step 100, 0), (Step 100, 0), (Step 100, 0), (Step 100, 0), (Step 100, 0), (Step 100, 0),
      (Step 100, 0), (Step 100, 0), (CallGet, 1), (Step 200, 1), (Step 200, 1), (Step 200, 1), (Step 200, 1),
      (Step 200, 1), (Step 200, 1), (Step 100, 0), (Step 100, 0), (Step 200, 1), (Step 200, 1), (CallReturn 0, 0),
      (Step 0, 0), (CallClear, 0), (Step 0, 0), (CallGet, 1), (Step 0, 1), (Step 0, 1)]"

lemma sizes_300: "BLOCK_NITEM (rp_default 300) = 218" "free_chunk_nitem (rp_default 300) = 218"
  by (simp_all add: BLOCK_NITEM_def free_chunk_nitem_def rp_default_def)

lemma rp_schedule_exec:
  "(case rp_exec (rp_default 300) rp_schedule [] rp_start of None \<Rightarrow> False | Some (evs, s) \<Rightarrow>
     evs = [Got 0 0 (100, 0), Got 1 218 (200, 0), Gave 0, Done, Got 1 0 (100, 0)])"
  by (simp add: rp_schedule_def rp_start_def rp_step_def get_step_def add_step_def return_step_def clear_step_def new_local_pool_def new_local_def
      new_block_def construct_item_def take_free_def unsafe_address_resource_def find_block_def rp_id_def new_group_def held_def sizes_300 group_sizes
      RP_MAX_BLOCK_NGROUP_def RP_GROUP_NBLOCK_NBIT_def Let_def)

theorem ids_given_out_once_witness:
  "\<exists>evs s. rp_exec (rp_default 300) rp_schedule [] rp_start = Some (evs, s) \<and> held evs = [0, 218] \<and>
     address_resource (rp_default 300) 0 s = Some (100, 0) \<and> address_resource (rp_default 300) 1 s = None"
proof -
  obtain evs s where e: "rp_exec (rp_default 300) rp_schedule [] rp_start = Some (evs, s)"
    and evs: "evs = [Got 0 0 (100, 0), Got 1 218 (200, 0), Gave 0, Done, Got 1 0 (100, 0)]"
    using rp_schedule_exec by (auto split: option.splits)
  have c: "rp_config_ok (rp_default 300)" by (simp add: rp_config_ok_def rp_default_def)
  note t = ids_given_out_once [OF c rp_exec_run [OF e rp_run.rp_first]]
  then have a: "address_resource (rp_default 300) i s = Some p \<longleftrightarrow> (\<exists>t. Got t i p \<in> set evs)" for i p by (elim conjE) (erule allE)+
  have "address_resource (rp_default 300) 1 s \<noteq> Some p" for p unfolding a evs by simp
  then have "address_resource (rp_default 300) 1 s = None" by blast
  moreover have "address_resource (rp_default 300) 0 s = Some (100, 0)" unfolding a evs by auto
  moreover have "held evs = [0, 218]" by (simp add: evs held_def)
  ultimately show ?thesis using e by blast
qed

text \<open>
\<open>get_resource\<close> gives back a null pointer only when memory could not be allocated, the new object did not validate, or
all \<open>2 ^ 16\<close> groups exist; in that case it leaves every id that users hold and every object as they are.\<close>

theorem get_fails_only_without_memory:
  assumes "rp_config_ok c" "rp_run c evs s" "rp_step c ok addr valid t s = Some (Inr (Some (GotNull u), s'))"
  shows "(\<not> ok \<or> \<not> valid \<or> rp_ngroup s = RP_MAX_BLOCK_NGROUP) \<and> u = t \<and> rp_pc s' t = PIdle \<and>
     (\<forall>i. address_resource c i s' = address_resource c i s)"
proof -
  have inv: "rp_inv c (held evs) s" using rp_run_inv [OF assms(1,2)] by blast
  then have n: "rp_ngroup s \<le> RP_MAX_BLOCK_NGROUP" "groups_ok s" by (simp_all add: rp_inv_def group_inv_def groups_ok_def)
  have m: "rp_moves c (held evs) s (Some (GotNull u)) s'" using step_moves [OF assms(1) inv assms(3)] by auto
  then have g: "groups_ok s'" "grows s s'" "\<And>i. live_id c s' i \<Longrightarrow> live_id c s i" by (auto simp: rp_moves_def rp_inv_def group_inv_def)
  have "address_resource c i s' = address_resource c i s" for i
  proof (cases "address_resource c i s")
    case None
    then have "\<not> live_id c s' i" using address_iff_live [OF assms(1) n(2), of i] g(3) [of i] by auto
    then show ?thesis using None address_iff_live [OF assms(1) g(1), of i] by (cases "address_resource c i s'") auto
  next
    case (Some p)
    then show ?thesis using address_grows [OF assms(1) n(2) g(1,2)] by simp
  qed
  moreover have "(\<not> ok \<or> \<not> valid \<or> rp_ngroup s = RP_MAX_BLOCK_NGROUP) \<and> u = t \<and> rp_pc s' t = PIdle"
    using assms(3) n(1)
    by (auto simp: rp_step_def get_step_def add_step_def return_step_def clear_step_def construct_item_def take_free_def new_block_def Let_def
        split: option.splits rp_pc.splits if_splits elim!: res_bind_InrE)
  ultimately show ?thesis by blast
qed

theorem get_fails_only_without_memory_witness:
  "\<exists>s'. rp_step (rp_default 300) False 0 True 0 (rp_goto 0 Get0 rp_start) = Some (Inr (Some (GotNull 0), s')) \<and> rp_pc s' 0 = PIdle \<and>
     (\<forall>i. address_resource (rp_default 300) i s' = address_resource (rp_default 300) i (rp_goto 0 Get0 rp_start))"
proof -
  let ?s = "rp_goto 0 Get0 rp_start" and ?c = "rp_default 300"
  have c: "rp_config_ok ?c" by (simp add: rp_config_ok_def rp_default_def)
  have r: "rp_run ?c [] ?s" by (rule rp_run.rp_get [OF rp_run.rp_first]) (simp add: rp_start_def)
  have st: "rp_step ?c False 0 True 0 ?s = Some (Inr (Some (GotNull 0), rp_goto 0 PIdle ?s))" by (simp add: rp_step_def rp_start_def)
  show ?thesis using get_fails_only_without_memory [OF c r st] st by blast
qed

end
