(* ===== verification/SocketRef.thy ===== *)
theory SocketRef
  imports VRef
begin

text \<open>
  \<^verbatim>\<open>brpc/socket_inl.h\<close>: the versioned reference count of a socket.  A slot of the resource pool is used for one socket after
  the other; the word \<open>_versioned_ref\<close> holds a version, which a socket raises twice, and the number of references.  The
  theory follows one slot under every interleaving of the atomic accesses in \<open>Address\<close>, \<open>AddressFailedAsWell\<close>,
  \<open>ReAddress\<close> and \<open>Dereference\<close>.

  \<open>Create\<close>, \<open>SetFailed\<close> and \<open>ReleaseAdditionalReference\<close> are only declared in the repository.  What the comments of
  \<^verbatim>\<open>brpc/socket.h\<close> say of them are the rules \<open>created\<close>, \<open>set_failed\<close> and \<open>additional\<close> of the runs below: \<open>Create\<close>
  takes a slot from the pool, adds a reference, and encodes the version that it finds in the id; the first
  \<open>SetFailed\<close> of a socket adds 1 to the version; the additional reference is dereferenced once.  Sockets are not revived by
  health checking.
\<close>

section \<open>State\<close>

datatype sock_pc =
    SIdle
  | Ad0 bool u64        \<comment> \<open>\<open>AddressFailedAsWell\<close> (true) or \<open>Address\<close> is called with an id\<close>
  | Ad1 bool u32        \<comment> \<open>has added a reference and found another version\<close>
  | AdCas u64           \<comment> \<open>has removed the last reference and found this word\<close>
  | De0                 \<comment> \<open>\<open>Dereference\<close> is called\<close>
  | DeCas u64 u32       \<comment> \<open>has removed the last reference and found this word; the version of the id\<close>
  | Recycle             \<comment> \<open>before \<open>OnRecycle\<close> and \<open>return_resource\<close>\<close>

record sock =
  sk_versioned_ref :: u64
  sk_this_id :: u64
  sk_in_pool :: bool               \<comment> \<open>the slot is free\<close>
  sk_additional :: bool            \<comment> \<open>the reference of \<open>Create\<close> is still there\<close>
  sk_held :: "nat \<Rightarrow> nat"     \<comment> \<open>how many pointers to the socket a thread has\<close>
  sk_pc :: "nat \<Rightarrow> sock_pc"

datatype sock_event = Created u64 | Addressed nat u64 int | NotAddressed nat | SetFailed | Recycled | Dereferenced nat int

definition MakeSocketId :: "u32 \<Rightarrow> u32 \<Rightarrow> u64" where
  "MakeSocketId version slot = pack32 version slot"

definition VersionOfSocketId :: "u64 \<Rightarrow> u32" where
  "VersionOfSocketId sid = hi32 sid"

definition VersionOfVRef :: "u64 \<Rightarrow> u32" where
  "VersionOfVRef vref = hi32 vref"

definition NRefOfVRef :: "u64 \<Rightarrow> int" where
  "NRefOfVRef vref = sint (lo32 vref)"

definition MakeVRef :: "u32 \<Rightarrow> u32 \<Rightarrow> u64" where
  "MakeVRef version nref = pack32 version nref"

definition sock_start :: sock where
  "sock_start = \<lparr>sk_versioned_ref = 0, sk_this_id = 0, sk_in_pool = True, sk_additional = False, sk_held = (\<lambda>_. 0), sk_pc = (\<lambda>_. SIdle)\<rparr>"

section \<open>Operations\<close>

definition sk_goto :: "nat \<Rightarrow> sock_pc \<Rightarrow> sock \<Rightarrow> sock" where
  "sk_goto t pc s = s\<lparr>sk_pc := (sk_pc s)(t := pc)\<rparr>"

definition set_held :: "nat \<Rightarrow> nat \<Rightarrow> sock \<Rightarrow> sock" where
  "set_held t n s = s\<lparr>sk_held := (sk_held s)(t := n)\<rparr>"

text \<open>\<open>Failed\<close>.\<close>

definition sk_failed :: "sock \<Rightarrow> bool" where
  "sk_failed s \<longleftrightarrow> VersionOfVRef (sk_versioned_ref s) \<noteq> VersionOfSocketId (sk_this_id s)"

definition address_step :: "nat \<Rightarrow> sock \<Rightarrow> (sock_event option \<times> sock) res option" where
  "address_step t s =
     (case sk_pc s t of
        Ad0 as_well i \<Rightarrow>
          (let vref1 = sk_versioned_ref s; ver1 = VersionOfVRef vref1; s' = s\<lparr>sk_versioned_ref := vref1 + 1\<rparr> in
           if ver1 = VersionOfSocketId i then
             Some (Inr (Some (Addressed t i 0), sk_goto t SIdle (set_held t (sk_held s t + 1) s')))
           else if as_well \<and> ver1 = VersionOfSocketId i + 1 then
             Some (Inr (Some (Addressed t i 1), sk_goto t SIdle (set_held t (sk_held s t + 1) s')))
           else Some (Inr (None, sk_goto t (Ad1 as_well ver1) s')))
      | Ad1 as_well ver1 \<Rightarrow>
          (let vref2 = sk_versioned_ref s; nref = NRefOfVRef vref2; s' = s\<lparr>sk_versioned_ref := vref2 - 1\<rparr> in
           if nref > 1 then Some (Inr (Some (NotAddressed t), sk_goto t SIdle s'))
           else if nref = 1 then
             (let ver2 = VersionOfVRef vref2 in
              if ver2 AND 1 \<noteq> 0 then
                (if ver1 = ver2 \<or> ver1 + 1 = ver2 then Some (Inr (None, sk_goto t (AdCas vref2) s')) else Some (Inl AssertFailed))
              else if \<not> as_well \<and> ver1 \<noteq> ver2 then Some (Inl AssertFailed)
              else Some (Inr (Some (NotAddressed t), sk_goto t SIdle s')))
           else Some (Inl AssertFailed))
      | AdCas vref2 \<Rightarrow>
          if sk_versioned_ref s = vref2 - 1 then
            Some (Inr (Some Recycled, sk_goto t Recycle (s\<lparr>sk_versioned_ref := MakeVRef (VersionOfVRef vref2 + 1) 0\<rparr>)))
          else Some (Inr (Some (NotAddressed t), sk_goto t SIdle s))
      | _ \<Rightarrow> None)"

definition dereference_step :: "nat \<Rightarrow> sock \<Rightarrow> (sock_event option \<times> sock) res option" where
  "dereference_step t s =
     (case sk_pc s t of
        De0 \<Rightarrow>
          (let vref = sk_versioned_ref s; nref = NRefOfVRef vref;
               s' = set_held t (sk_held s t - 1) (s\<lparr>sk_versioned_ref := vref - 1\<rparr>) in
           if nref > 1 then Some (Inr (Some (Dereferenced t 0), sk_goto t SIdle s'))
           else if nref = 1 then
             (let ver = VersionOfVRef vref; id_ver = VersionOfSocketId (sk_this_id s) in
              if ver = id_ver \<or> ver = id_ver + 1 then Some (Inr (None, sk_goto t (DeCas vref id_ver) s')) else Some (Inl AssertFailed))
           else Some (Inl AssertFailed))
      | DeCas vref id_ver \<Rightarrow>
          if sk_versioned_ref s = vref - 1 then
            Some (Inr (Some Recycled, sk_goto t Recycle (s\<lparr>sk_versioned_ref := MakeVRef (id_ver + 2) 0\<rparr>)))
          else Some (Inr (Some (Dereferenced t 0), sk_goto t SIdle s))
      | _ \<Rightarrow> None)"

text \<open>\<open>return_resource\<close> of a slot that is already in the pool has no defined behaviour.\<close>

definition recycle_step :: "nat \<Rightarrow> sock \<Rightarrow> (sock_event option \<times> sock) res option" where
  "recycle_step t s = (if sk_in_pool s then Some (Inl DeadDeref) else Some (Inr (None, sk_goto t SIdle (s\<lparr>sk_in_pool := True\<rparr>))))"

definition sock_step :: "nat \<Rightarrow> sock \<Rightarrow> (sock_event option \<times> sock) res option" where
  "sock_step t s =
     (case sk_pc s t of
        SIdle \<Rightarrow> None
      | De0 \<Rightarrow> dereference_step t s
      | DeCas _ _ \<Rightarrow> dereference_step t s
      | Recycle \<Rightarrow> recycle_step t s
      | _ \<Rightarrow> address_step t s)"

definition ReAddress :: "nat \<Rightarrow> sock \<Rightarrow> sock" where
  "ReAddress t s = set_held t (sk_held s t + 1) (s\<lparr>sk_versioned_ref := sk_versioned_ref s + 1\<rparr>)"

section \<open>Runs\<close>

fun created_ids :: "sock_event list \<Rightarrow> u64 list" where
  "created_ids [] = []"
| "created_ids (Created i # evs) = i # created_ids evs"
| "created_ids (_ # evs) = created_ids evs"

text \<open>References are counted in 31 bits.\<close>

definition room :: "sock \<Rightarrow> bool" where
  "room s \<longleftrightarrow> lo32 (sk_versioned_ref s) < 0x7FFFFFFF"

text \<open>
  \<open>n\<close> threads.  Users address ids that \<open>Create\<close> gave them, and dereference pointers that they have.  A pointer keeps the
  thread that has it from calling anything on a recycled socket; \<open>SetFailed\<close> and \<open>ReleaseAdditionalReference\<close> are called on
  a pointer, and the thread that releases the additional reference dereferences it like a pointer of its own.
\<close>

inductive sock_run :: "nat \<Rightarrow> u32 \<Rightarrow> sock_event list \<Rightarrow> sock \<Rightarrow> bool" for n slot where
  first: "sock_run n slot [] sock_start"
| created: "sock_run n slot evs s \<Longrightarrow> t < n \<Longrightarrow> sk_in_pool s \<Longrightarrow> room s \<Longrightarrow> i = MakeSocketId (VersionOfVRef (sk_versioned_ref s)) slot \<Longrightarrow>
    sock_run n slot (evs @ [Created i])
      (s\<lparr>sk_in_pool := False, sk_additional := True, sk_this_id := i, sk_versioned_ref := sk_versioned_ref s + 1\<rparr>)"
| set_failed: "sock_run n slot evs s \<Longrightarrow> t < n \<Longrightarrow> 0 < sk_held s t \<Longrightarrow> \<not> sk_failed s \<Longrightarrow>
    sock_run n slot (evs @ [SetFailed])
      (s\<lparr>sk_versioned_ref := MakeVRef (VersionOfVRef (sk_versioned_ref s) + 1) (lo32 (sk_versioned_ref s))\<rparr>)"
| additional: "sock_run n slot evs s \<Longrightarrow> t < n \<Longrightarrow> 0 < sk_held s t \<Longrightarrow> sk_additional s \<Longrightarrow>
    sock_run n slot evs (set_held t (sk_held s t + 1) (s\<lparr>sk_additional := False\<rparr>))"
| address: "sock_run n slot evs s \<Longrightarrow> t < n \<Longrightarrow> sk_pc s t = SIdle \<Longrightarrow> i \<in> set (created_ids evs) \<Longrightarrow>
    sock_run n slot evs (sk_goto t (Ad0 as_well i) s)"
| readdress: "sock_run n slot evs s \<Longrightarrow> t < n \<Longrightarrow> 0 < sk_held s t \<Longrightarrow> room s \<Longrightarrow> sk_pc s t = SIdle \<Longrightarrow> sock_run n slot evs (ReAddress t s)"
| dereference: "sock_run n slot evs s \<Longrightarrow> t < n \<Longrightarrow> sk_pc s t = SIdle \<Longrightarrow> 0 < sk_held s t \<Longrightarrow> sock_run n slot evs (sk_goto t De0 s)"
| step: "sock_run n slot evs s \<Longrightarrow> t < n \<Longrightarrow> room s \<Longrightarrow> sock_step t s = Some (Inr (ev, s')) \<Longrightarrow>
    sock_run n slot (evs @ (case ev of None \<Rightarrow> [] | Some e \<Rightarrow> [e])) s'"

section \<open>The invariant\<close>

definition version :: "sock \<Rightarrow> nat" where
  "version s = unat (hi32 (sk_versioned_ref s))"

definition count :: "sock \<Rightarrow> nat" where
  "count s = unat (lo32 (sk_versioned_ref s))"

fun temporary :: "sock_pc \<Rightarrow> nat" where
  "temporary (Ad1 _ _) = 1"
| "temporary _ = 0"

definition refs_of :: "sock \<Rightarrow> nat \<Rightarrow> nat" where
  "refs_of s t = sk_held s t + temporary (sk_pc s t)"

definition refs :: "nat \<Rightarrow> sock \<Rightarrow> nat" where
  "refs n s = (\<Sum>t < n. refs_of s t) + of_bool (sk_additional s)"

definition in_use :: "sock \<Rightarrow> bool" where
  "in_use s \<longleftrightarrow> \<not> sk_in_pool s \<and> (\<forall>t. sk_pc s t \<noteq> Recycle)"

text \<open>\<open>k\<close> sockets were created on the slot, and \<open>g\<close> were recycled.\<close>

definition phase_ok :: "nat \<Rightarrow> nat \<Rightarrow> sock \<Rightarrow> bool" where
  "phase_ok k g s \<longleftrightarrow>
     (if in_use s then k = g + 1 \<and> version s \<in> {2 * g, 2 * g + 1} \<and> unat (hi32 (sk_this_id s)) = 2 * g
      else k = g \<and> version s = 2 * k \<and> \<not> sk_additional s \<and> (\<forall>t. sk_held s t = 0))"

fun spc_ok :: "nat \<Rightarrow> nat \<Rightarrow> sock_pc \<Rightarrow> nat \<Rightarrow> bool \<Rightarrow> bool" where
  "spc_ok k v (Ad0 _ i) held use = (\<exists>j < k. unat (hi32 i) = 2 * j)"
| "spc_ok k v (Ad1 _ v1) held use = (v = unat v1 \<or> v = unat v1 + 1 \<and> even (unat v1))"
| "spc_ok k v (AdCas w) held use = (\<exists>x. w = pack32 x 1 \<and> odd (unat x) \<and> unat x \<le> v)"
| "spc_ok k v De0 held use = (0 < held)"
| "spc_ok k v (DeCas w e) held use =
     (\<exists>x. w = pack32 x 1 \<and> even (unat e) \<and> unat e < 2 * k \<and> (unat x = unat e \<or> unat x = unat e + 1) \<and> unat x \<le> v \<and> (v = unat e \<longrightarrow> use))"
| "spc_ok k v _ held use = True"

text \<open>Who will recycle a failed socket without references.\<close>

definition pending :: "sock \<Rightarrow> nat \<Rightarrow> bool" where
  "pending s t \<longleftrightarrow> (let w = pack32 (hi32 (sk_versioned_ref s)) 1 in sk_pc s t = AdCas w \<or> (\<exists>e. sk_pc s t = DeCas w e))"

definition sock_inv :: "nat \<Rightarrow> nat \<Rightarrow> nat \<Rightarrow> sock \<Rightarrow> bool" where
  "sock_inv n k g s \<longleftrightarrow> count s = refs n s \<and> count s < 2 ^ 31 \<and> (\<forall>t. n \<le> t \<longrightarrow> sk_held s t = 0 \<and> sk_pc s t = SIdle) \<and>
     phase_ok k g s \<and> (\<forall>t. sk_pc s t = Recycle \<longrightarrow> \<not> sk_in_pool s) \<and> (\<forall>t u. sk_pc s t = Recycle \<longrightarrow> sk_pc s u = Recycle \<longrightarrow> t = u) \<and>
     (\<forall>t. spc_ok k (version s) (sk_pc s t) (sk_held s t) (in_use s)) \<and>
     (in_use s \<and> odd (version s) \<and> count s = 0 \<longrightarrow> (\<exists>t. pending s t))"

lemma sock_invD:
  assumes "sock_inv n k g s"
  shows "count s = refs n s" "count s < 2 ^ 31" "n \<le> t \<Longrightarrow> sk_held s t = 0 \<and> sk_pc s t = SIdle" "phase_ok k g s"
    "sk_pc s t = Recycle \<Longrightarrow> \<not> sk_in_pool s" "sk_pc s t = Recycle \<Longrightarrow> sk_pc s u = Recycle \<Longrightarrow> t = u"
    "spc_ok k (version s) (sk_pc s t) (sk_held s t) (in_use s)" "in_use s \<Longrightarrow> odd (version s) \<Longrightarrow> count s = 0 \<Longrightarrow> \<exists>t. pending s t"
  using assms unfolding sock_inv_def by blast+

lemma sk_fields [simp]:
  "sk_versioned_ref (sk_goto t pc s) = sk_versioned_ref s" "sk_this_id (sk_goto t pc s) = sk_this_id s" "sk_in_pool (sk_goto t pc s) = sk_in_pool s"
  "sk_additional (sk_goto t pc s) = sk_additional s" "sk_held (sk_goto t pc s) = sk_held s" "sk_pc (sk_goto t pc s) = (sk_pc s)(t := pc)"
  "sk_versioned_ref (set_held t m s) = sk_versioned_ref s" "sk_this_id (set_held t m s) = sk_this_id s" "sk_in_pool (set_held t m s) = sk_in_pool s"
  "sk_additional (set_held t m s) = sk_additional s" "sk_held (set_held t m s) = (sk_held s)(t := m)" "sk_pc (set_held t m s) = sk_pc s"
  by (simp_all add: sk_goto_def set_held_def)

text \<open>Counting.\<close>

lemma refs_upd:
  assumes "t < n" "\<And>u. u \<noteq> t \<Longrightarrow> refs_of s' u = refs_of s u"
  shows "refs n s' + refs_of s t + of_bool (sk_additional s) = refs n s + refs_of s' t + of_bool (sk_additional s')"
proof -
  have "(\<Sum>u < n. f u) = f t + (\<Sum>u \<in> {..<n} - {t}. f u)" for f :: "nat \<Rightarrow> nat" using assms(1) by (simp add: sum.remove)
  note r = this [of "refs_of s"] this [of "refs_of s'"]
  have "(\<Sum>u \<in> {..<n} - {t}. refs_of s' u) = (\<Sum>u \<in> {..<n} - {t}. refs_of s u)" by (rule sum.cong) (use assms(2) in auto)
  then show ?thesis unfolding refs_def r by simp
qed

lemma refs_0: "refs n s = 0 \<Longrightarrow> t < n \<Longrightarrow> sk_held s t = 0 \<and> temporary (sk_pc s t) = 0 \<and> \<not> sk_additional s"
  by (simp add: refs_def refs_of_def)

lemma refs_ge: "t < n \<Longrightarrow> refs_of s t \<le> refs n s"
  unfolding refs_def by (rule trans_le_add1) (rule member_le_sum, auto)

lemma nref: "count s < 2 ^ 31 \<Longrightarrow> NRefOfVRef (sk_versioned_ref s) = int (count s)"
proof -
  assume "count s < 2 ^ 31"
  then have "int (count s) < 2 ^ 31" "- (2 ^ 31) \<le> int (count s)" by simp_all
  moreover have "sint (lo32 (sk_versioned_ref s)) = signed_take_bit 31 (int (count s))"
    by (simp add: count_def sint_uint flip: uint_nat)
  ultimately show ?thesis unfolding NRefOfVRef_def by (simp add: signed_take_bit_int_eq_self)
qed

lemma fetch_add:
  assumes "count s < 2 ^ 31"
  shows "hi32 (sk_versioned_ref s + 1) = hi32 (sk_versioned_ref s)" "unat (lo32 (sk_versioned_ref s + 1)) = count s + 1"
proof -
  have l: "lo32 (sk_versioned_ref s) \<noteq> - 1" using assms unfolding count_def by (auto simp: unsigned_minus_1_eq_mask mask_eq_exp_minus_1)
  have "sk_versioned_ref s + 1 = pack32 (hi32 (sk_versioned_ref s)) (lo32 (sk_versioned_ref s) + 1)"
    using pack32_inc [OF l, of "hi32 (sk_versioned_ref s)"] by simp
  then show "hi32 (sk_versioned_ref s + 1) = hi32 (sk_versioned_ref s)" "unat (lo32 (sk_versioned_ref s + 1)) = count s + 1"
    using unat_inc32 [OF l] by (simp_all add: count_def)
qed

lemma fetch_sub:
  assumes "0 < count s"
  shows "hi32 (sk_versioned_ref s - 1) = hi32 (sk_versioned_ref s)" "unat (lo32 (sk_versioned_ref s - 1)) = count s - 1"
proof -
  have l: "lo32 (sk_versioned_ref s) \<noteq> 0" using assms by (auto simp: count_def)
  have "sk_versioned_ref s - 1 = pack32 (hi32 (sk_versioned_ref s)) (lo32 (sk_versioned_ref s) - 1)"
    using pack32_dec [OF l, of "hi32 (sk_versioned_ref s)"] by simp
  then show "hi32 (sk_versioned_ref s - 1) = hi32 (sk_versioned_ref s)" "unat (lo32 (sk_versioned_ref s - 1)) = count s - 1"
    using l by (simp_all add: count_def unat_minus_one)
qed

lemma pack_1: "pack32 x 1 - 1 = pack32 x 0"
  using pack32_dec [of 1 x] by simp

text \<open>What a thread relies on, while others change version and use.\<close>

lemma spc_same: "spc_ok k v p h use \<Longrightarrow> k \<le> k' \<Longrightarrow> (use \<Longrightarrow> use') \<Longrightarrow> spc_ok k' v p h use'"
  by (cases p) (auto intro: less_le_trans)

lemma spc_failed: "spc_ok k v p h use \<Longrightarrow> even v \<Longrightarrow> spc_ok k (v + 1) p h use'"
  by (cases p) auto

lemma spc_recycled: "spc_ok k v p h use \<Longrightarrow> temporary p = 0 \<Longrightarrow> v \<le> 2 * k \<Longrightarrow> spc_ok k (2 * k) p h use'"
  by (cases p) auto

lemma inv_step:
  assumes inv: "sock_inv n k g s" and fr: "\<And>u. u \<noteq> t \<Longrightarrow> sk_pc s' u = sk_pc s u" "\<And>u. u \<noteq> t \<Longrightarrow> sk_held s' u = sk_held s u" and t: "t < n"
    and c: "count s' = refs n s'" "count s' < 2 ^ 31" and ph: "phase_ok k' g' s'"
    and rc: "sk_pc s' t = Recycle \<Longrightarrow> \<not> sk_in_pool s' \<and> (\<forall>u. sk_pc s u \<noteq> Recycle)" "\<And>u. u \<noteq> t \<Longrightarrow> sk_pc s u = Recycle \<Longrightarrow> \<not> sk_in_pool s'"
    and pc: "\<And>u. u \<noteq> t \<Longrightarrow> spc_ok k (version s) (sk_pc s u) (sk_held s u) (in_use s) \<Longrightarrow> spc_ok k' (version s') (sk_pc s u) (sk_held s u) (in_use s')"
      "spc_ok k' (version s') (sk_pc s' t) (sk_held s' t) (in_use s')"
    and j: "in_use s' \<Longrightarrow> odd (version s') \<Longrightarrow> count s' = 0 \<Longrightarrow> \<exists>u. pending s' u"
  shows "sock_inv n k' g' s'"
  unfolding sock_inv_def
proof (intro conjI allI impI)
  note D = sock_invD [OF inv]
  show "sk_held s' u = 0" "sk_pc s' u = SIdle" if "n \<le> u" for u using D(3) [OF that] fr [of u] t that by auto
  show "\<not> sk_in_pool s'" if "sk_pc s' u = Recycle" for u using that rc fr(1) [of u] by (cases "u = t") auto
  show "u = v" if "sk_pc s' u = Recycle" "sk_pc s' v = Recycle" for u v
  proof (cases "u = t"; cases "v = t")
    assume "u \<noteq> t" "v \<noteq> t"
    then show ?thesis using that fr(1) [of u] fr(1) [of v] D(6) [of u v] by simp
  qed (use that fr(1) [of u] fr(1) [of v] rc(1) in auto)
  show "spc_ok k' (version s') (sk_pc s' u) (sk_held s' u) (in_use s')" for u
    using pc fr [of u] D(7) [of u] by (cases "u = t") auto
qed (use c ph j in auto)

lemma not_using: "phase_ok k g s \<Longrightarrow> 0 < sk_held s t \<Longrightarrow> in_use s"
  by (auto simp: phase_ok_def split: if_splits)

lemma version_le: "phase_ok k g s \<Longrightarrow> version s \<le> 2 * k"
  by (auto simp: phase_ok_def split: if_splits)

text \<open>Steps that change neither the version nor who uses the slot.\<close>

lemma inv_quiet:
  assumes inv: "sock_inv n k g s" and fr: "\<And>u. u \<noteq> t \<Longrightarrow> sk_pc s' u = sk_pc s u" "\<And>u. u \<noteq> t \<Longrightarrow> sk_held s' u = sk_held s u" and t: "t < n"
    and c: "count s' = refs n s'" "count s' < 2 ^ 31" and v: "hi32 (sk_versioned_ref s') = hi32 (sk_versioned_ref s)"
    and same: "sk_in_pool s' = sk_in_pool s" "sk_this_id s' = sk_this_id s" "sk_pc s t \<noteq> Recycle" "sk_pc s' t \<noteq> Recycle"
    and use: "in_use s \<or> sk_held s' t = 0 \<and> sk_additional s' = sk_additional s" and pc: "spc_ok k (version s) (sk_pc s' t) (sk_held s' t) (in_use s)"
    and j: "in_use s \<Longrightarrow> odd (version s) \<Longrightarrow> count s' = 0 \<Longrightarrow> \<exists>u. pending s' u"
  shows "sock_inv n k g s'"
proof -
  have iu: "in_use s' = in_use s" unfolding in_use_def using same fr(1) by (metis (no_types, lifting))
  have vv: "version s' = version s" using v by (simp add: version_def)
  have h: "sk_held s' u = 0" if "\<not> in_use s" for u
    using that use fr(2) [of u] sock_invD(4) [OF inv] by (cases "u = t") (auto simp: phase_ok_def)
  show ?thesis
  proof (rule inv_step [OF inv fr t c])
    show "phase_ok k g s'" using sock_invD(4) [OF inv] use h unfolding phase_ok_def iu vv same(2) by auto
  qed (use same sock_invD(5) [OF inv] pc j iu vv in auto)
qed

section \<open>Steps\<close>

text \<open>A reference more.\<close>

lemma add_ref_inv:
  assumes inv: "sock_inv n k g s" and t: "t < n" and rm: "room s" and pc: "sk_pc s t \<noteq> Recycle" "pc \<noteq> Recycle"
    and r: "m + temporary pc = sk_held s t + temporary (sk_pc s t) + 1" "in_use s \<or> m = 0" "spc_ok k (version s) pc m (in_use s)"
  shows "sock_inv n k g (sk_goto t pc (set_held t m (s\<lparr>sk_versioned_ref := sk_versioned_ref s + 1\<rparr>)))" (is "sock_inv n k g ?s")
proof -
  have c: "count s < 2 ^ 31 - 1" using rm by (simp add: room_def count_def word_less_nat_alt)
  then have f: "hi32 (sk_versioned_ref s + 1) = hi32 (sk_versioned_ref s)" "unat (lo32 (sk_versioned_ref s + 1)) = count s + 1" using fetch_add [of s] by simp_all
  have c': "count ?s = count s + 1" using f by (simp add: count_def)
  have "refs n ?s = refs n s + 1" using refs_upd [OF t, of ?s s] r(1) by (simp add: refs_of_def)
  then show ?thesis
    by (intro inv_quiet [OF inv, of t]) (use t f c c' sock_invD(1) [OF inv] pc r in auto)
qed

lemma pack32_eqI: "unat (lo32 w) = m \<Longrightarrow> w = pack32 (hi32 w) (of_nat m)"
proof -
  assume "unat (lo32 w) = m"
  moreover have "of_nat (unat (lo32 w)) = lo32 w" by simp
  ultimately have "lo32 w = of_nat m" by simp
  then show ?thesis by (metis pack_hi_lo)
qed

lemma count_word: "count s = 1 \<Longrightarrow> sk_versioned_ref s = pack32 (hi32 (sk_versioned_ref s)) 1" "count s = 0 \<Longrightarrow> sk_versioned_ref s = pack32 (hi32 (sk_versioned_ref s)) 0"
  using pack32_eqI [of "sk_versioned_ref s" 1] pack32_eqI [of "sk_versioned_ref s" 0] by (simp_all add: count_def)

text \<open>A reference less; \<open>pc\<close> takes care of the socket if it was the last one of a failed socket.\<close>

lemma drop_ref_inv:
  assumes inv: "sock_inv n k g s" and t: "t < n" and pc: "sk_pc s t \<noteq> Recycle" "pc \<noteq> Recycle"
    and r: "m + temporary pc + 1 = sk_held s t + temporary (sk_pc s t)" "in_use s \<or> m = 0" "spc_ok k (version s) pc m (in_use s)"
    and last: "count s = 1 \<Longrightarrow> odd (version s) \<Longrightarrow> pc = AdCas (sk_versioned_ref s) \<or> (\<exists>e. pc = DeCas (sk_versioned_ref s) e)"
  shows "sock_inv n k g (sk_goto t pc (set_held t m (s\<lparr>sk_versioned_ref := sk_versioned_ref s - 1\<rparr>)))" (is "sock_inv n k g ?s")
proof -
  have "refs_of s t \<le> count s" using refs_ge [OF t] sock_invD(1) [OF inv] by simp
  then have c: "0 < count s" using r(1) by (simp add: refs_of_def)
  note f = fetch_sub [OF c]
  have c': "count ?s = count s - 1" using f by (simp add: count_def)
  have "refs n ?s + 1 = refs n s" using refs_upd [OF t, of ?s s] r(1) by (simp add: refs_of_def)
  then have rf: "count ?s = refs n ?s" using c' sock_invD(1) [OF inv] by simp
  show ?thesis
  proof (rule inv_quiet [OF inv _ _ t rf])
    show "count ?s < 2 ^ 31" using c' sock_invD(2) [OF inv] by simp
    assume "odd (version s)" "count ?s = 0"
    then have "count s = 1" using c c' by simp
    with last \<open>odd (version s)\<close> have "pc = AdCas (sk_versioned_ref s) \<or> (\<exists>e. pc = DeCas (sk_versioned_ref s) e)" by blast
    then have "pending ?s t" using f(1) count_word(1) [OF \<open>count s = 1\<close>] by (auto simp: pending_def Let_def)
    then show "\<exists>u. pending ?s u" by blast
  qed (use f pc r in auto)
qed

text \<open>The exchange that recycles the socket.\<close>

lemma recycle_inv:
  assumes inv: "sock_inv n k g s" and k: "k < 2 ^ 31" and t: "t < n" and z: "count s = 0" and use: "in_use s" and v: "unat v = 2 * k"
    and pc: "temporary (sk_pc s t) = 0"
  shows "sock_inv n k (g + 1) (sk_goto t Recycle (s\<lparr>sk_versioned_ref := MakeVRef v 0\<rparr>))" (is "sock_inv n k _ ?s")
proof -
  have r0: "refs n s = 0" using sock_invD(1) [OF inv] z by simp
  have h: "sk_held s u = 0" "temporary (sk_pc s u) = 0" for u
    using refs_0 [OF r0, of u] sock_invD(3) [OF inv, of u] by (cases "u < n"; auto)+
  have ad: "\<not> sk_additional s" using refs_0 [OF r0 t] by simp
  have kg: "k = g + 1" using sock_invD(4) [OF inv] use by (simp add: phase_ok_def)
  have nu: "\<not> in_use ?s" by (auto simp: in_use_def)
  have vs: "version ?s = 2 * k" "count ?s = 0" using v by (simp_all add: version_def count_def MakeVRef_def)
  show ?thesis
  proof (rule inv_step [OF inv, of t])
    show "count ?s = refs n ?s" using refs_upd [OF t, of ?s s] r0 pc vs by (simp add: refs_of_def)
    show "phase_ok k (g + 1) ?s" unfolding phase_ok_def using nu vs h ad kg by simp
    show "spc_ok k (version ?s) (sk_pc s u) (sk_held s u) (in_use ?s)" if "spc_ok k (version s) (sk_pc s u) (sk_held s u) (in_use s)" for u
      unfolding vs by (rule spc_recycled [OF that h(2) version_le [OF sock_invD(4) [OF inv]]])
  qed (use t vs nu use in \<open>auto simp: in_use_def\<close>)
qed

text \<open>Versions do not wrap around while fewer than \<open>2 ^ 31\<close> sockets are created on the slot.\<close>

lemma unat_u32_add: "unat (x :: u32) + m < 2 ^ 32 \<Longrightarrow> unat (x + of_nat m) = unat x + m"
proof -
  assume a: "unat x + m < 2 ^ 32"
  then have "unat (of_nat m :: u32) = m" by (simp add: unat_of_nat take_bit_nat_eq_self)
  then show ?thesis using a by (simp add: unat_word_ariths)
qed

lemma unat_u32_12: "unat (x :: u32) + 1 < 2 ^ 32 \<Longrightarrow> unat (x + 1) = unat x + 1" "unat (x :: u32) + 2 < 2 ^ 32 \<Longrightarrow> unat (x + 2) = unat x + 2"
  using unat_u32_add [of x 1] unat_u32_add [of x 2] by simp_all

lemma odd_and_1: "x AND 1 \<noteq> 0 \<longleftrightarrow> odd (unat (x :: u32))"
proof -
  have "unat (x AND 1) = unat x mod 2" by (simp add: and_one_eq unat_mod)
  then have "x AND 1 = 0 \<longleftrightarrow> unat x mod 2 = 0" by (metis unat_0 unat_eq_zero)
  then show ?thesis by presburger
qed

lemma odd_use:
  assumes "phase_ok k g s" "odd (version s)"
  shows "in_use s \<and> version s = 2 * g + 1 \<and> k = g + 1"
proof (cases "in_use s")
  case True
  then have "version s = 2 * g \<or> version s = 2 * g + 1" "k = g + 1" using assms(1) by (auto simp: phase_ok_def)
  then show ?thesis using True assms(2) by auto
next
  case False
  then have "version s = 2 * k" using assms(1) by (simp add: phase_ok_def)
  then show ?thesis using assms(2) by simp
qed

lemma set_held_same: "set_held t (sk_held s t) (s\<lparr>sk_versioned_ref := w\<rparr>) = s\<lparr>sk_versioned_ref := w\<rparr>"
  by (simp add: set_held_def)

lemma held_or_use: "sock_inv n k g s \<Longrightarrow> in_use s \<or> sk_held s t = 0"
  using sock_invD(4) [of n k g s] by (auto simp: phase_ok_def split: if_splits)

text \<open>An exchange that fails is not the one on which recycling depends.\<close>

lemma lost_cas_inv:
  assumes inv: "sock_inv n k g s" and t: "t < n" and pc: "sk_pc s t = AdCas w \<or> (\<exists>e. sk_pc s t = DeCas w e)" and ne: "sk_versioned_ref s \<noteq> w - 1"
  shows "sock_inv n k g (sk_goto t SIdle s)"
proof (rule inv_quiet [OF inv _ _ t])
  note D = sock_invD [OF inv]
  show "count (sk_goto t SIdle s) = refs n (sk_goto t SIdle s)"
    using refs_upd [OF t, of "sk_goto t SIdle s" s] pc D(1) by (auto simp: refs_of_def count_def)
  show "in_use s \<or> sk_held (sk_goto t SIdle s) t = 0 \<and> sk_additional (sk_goto t SIdle s) = sk_additional s" using held_or_use [OF inv] by auto
  assume a: "in_use s" "odd (version s)" "count (sk_goto t SIdle s) = 0"
  then obtain u where u: "pending s u" using D(8) by (auto simp: count_def)
  have "u \<noteq> t"
  proof
    assume "u = t"
    then have "w = pack32 (hi32 (sk_versioned_ref s)) 1" using u pc by (auto simp: pending_def Let_def)
    then show False using ne a(3) count_word(2) [of s] by (simp add: pack_1 count_def)
  qed
  then show "\<exists>u. pending (sk_goto t SIdle s) u" using u by (intro exI [of _ u]) (simp add: pending_def)
qed (use pc sock_invD(2) [OF inv] in \<open>auto simp: count_def\<close>)

lemma address_step_ok:
  assumes inv: "sock_inv n k g s" and k: "k < 2 ^ 31" and t: "t < n" and rm: "room s" and st: "address_step t s = Some r"
  shows "\<exists>ev s'. r = Inr (ev, s') \<and> sock_inv n k (g + of_bool (ev = Some Recycled)) s'"
proof (cases "sk_pc s t")
  case (Ad0 w i)
  note D = sock_invD [OF inv]
  let ?v = "hi32 (sk_versioned_ref s)"
  obtain j where j: "j < k" "unat (hi32 i) = 2 * j" using D(7) [of t] Ad0 by auto
  have use: "in_use s" if "?v = hi32 i \<or> ?v = hi32 i + 1"
  proof (rule ccontr)
    assume "\<not> in_use s"
    then have "unat ?v = 2 * k" using D(4) by (simp add: phase_ok_def version_def)
    moreover have "unat (hi32 i + 1) = 2 * j + 1" using unat_u32_12(1) [of "hi32 i"] j k by simp
    ultimately have "2 * k = 2 * j \<or> 2 * k = 2 * j + 1" using that j(2) by metis
    then show False using j(1) by presburger
  qed
  have "sock_inv n k g (sk_goto t SIdle (set_held t (sk_held s t + 1) (s\<lparr>sk_versioned_ref := sk_versioned_ref s + 1\<rparr>)))" if "in_use s"
    by (rule add_ref_inv [OF inv t rm]) (use Ad0 that in auto)
  moreover have "sock_inv n k g (sk_goto t (Ad1 w ?v) (s\<lparr>sk_versioned_ref := sk_versioned_ref s + 1\<rparr>))"
    using add_ref_inv [OF inv t rm _ _ _ held_or_use [OF inv], of "Ad1 w ?v"] Ad0 by (simp add: set_held_same version_def)
  ultimately show ?thesis
    using st Ad0 use by (auto simp: address_step_def Let_def VersionOfVRef_def VersionOfSocketId_def split: if_splits)
next
  case (Ad1 w v1)
  note D = sock_invD [OF inv]
  let ?v = "hi32 (sk_versioned_ref s)"
  have "refs_of s t \<le> count s" using refs_ge [OF t] D(1) by simp
  then have c: "0 < count s" using Ad1 by (simp add: refs_of_def)
  have v: "version s = unat v1 \<or> version s = unat v1 + 1 \<and> even (unat v1)" using D(7) [of t] Ad1 by simp
  have idle: "sock_inv n k g (sk_goto t SIdle (s\<lparr>sk_versioned_ref := sk_versioned_ref s - 1\<rparr>))" if "count s \<noteq> 1 \<or> even (version s)"
    using drop_ref_inv [OF inv t _ _ _ held_or_use [OF inv], of SIdle] Ad1 that by (auto simp: set_held_same)
  have cas: "sock_inv n k g (sk_goto t (AdCas (sk_versioned_ref s)) (s\<lparr>sk_versioned_ref := sk_versioned_ref s - 1\<rparr>))" if "count s = 1" "odd (version s)"
  proof -
    have "spc_ok k (version s) (AdCas (sk_versioned_ref s)) (sk_held s t) (in_use s)"
      using count_word(1) [OF that(1)] that(2) by (auto simp: version_def)
    then show ?thesis using drop_ref_inv [OF inv t _ _ _ held_or_use [OF inv], of "AdCas (sk_versioned_ref s)"] Ad1 by (simp add: set_held_same)
  qed
  have n: "NRefOfVRef (sk_versioned_ref s) = int (count s)" by (rule nref [OF D(2)])
  have odd: "v1 = ?v \<or> v1 + 1 = ?v" if "odd (version s)"
  proof -
    have "unat ?v < 2 ^ 32" by (rule unat_u32_bound)
    then have "unat (v1 + 1) = unat v1 + 1" if "version s = unat v1 + 1" using that unat_u32_12(1) [of v1] by (simp add: version_def)
    then show ?thesis using v by (auto simp: version_def word_unat_eq_iff)
  qed
  have even: "v1 = ?v" if "even (version s)" using v that by (auto simp: version_def word_unat_eq_iff)
  show ?thesis
  proof (cases "count s = 1")
    case True
    then show ?thesis
      using st Ad1 n odd even idle cas odd_and_1 [of ?v]
      by (cases "odd (version s)") (auto simp: address_step_def Let_def VersionOfVRef_def version_def)
  next
    case False
    then show ?thesis using st Ad1 n c idle by (auto simp: address_step_def Let_def)
  qed
next
  case (AdCas w)
  note D = sock_invD [OF inv]
  obtain x where x: "w = pack32 x 1" "odd (unat x)" "unat x \<le> version s" using D(7) [of t] AdCas by auto
  show ?thesis
  proof (cases "sk_versioned_ref s = w - 1")
    case True
    then have e: "hi32 (sk_versioned_ref s) = x" "count s = 0" using x(1) by (simp_all add: pack_1 count_def)
    then have "version s = unat x" by (simp add: version_def)
    then have use: "in_use s" "unat x = 2 * g + 1" "k = g + 1" using odd_use [OF D(4)] x(2) by auto
    then have "unat (x + 1) = 2 * k" using unat_u32_12(1) [of x] k by simp
    then have "sock_inv n k (g + 1) (sk_goto t Recycle (s\<lparr>sk_versioned_ref := MakeVRef (x + 1) 0\<rparr>))"
      by (intro recycle_inv [OF inv k t e(2) use(1)]) (use AdCas in auto)
    then show ?thesis using st AdCas True x(1) by (auto simp: address_step_def VersionOfVRef_def)
  next
    case False
    have "sock_inv n k g (sk_goto t SIdle s)" by (rule lost_cas_inv [OF inv t _ False]) (simp add: AdCas)
    then show ?thesis using st AdCas False by (auto simp: address_step_def)
  qed
qed (use st in \<open>auto simp: address_step_def\<close>)

lemma dereference_step_ok:
  assumes inv: "sock_inv n k g s" and k: "k < 2 ^ 31" and t: "t < n" and st: "dereference_step t s = Some r"
  shows "\<exists>ev s'. r = Inr (ev, s') \<and> sock_inv n k (g + of_bool (ev = Some Recycled)) s'"
proof (cases "sk_pc s t")
  case De0
  note D = sock_invD [OF inv]
  let ?v = "hi32 (sk_versioned_ref s)" and ?e = "hi32 (sk_this_id s)"
  have h: "0 < sk_held s t" using D(7) [of t] De0 by simp
  then have use: "in_use s" by (rule not_using [OF D(4)])
  then have e: "unat ?e = 2 * g" "k = g + 1" "unat ?v = 2 * g \<or> unat ?v = 2 * g + 1" using D(4) by (auto simp: phase_ok_def version_def)
  have e1: "unat (?e + 1) = unat ?e + 1" using unat_u32_12(1) [of ?e] e(1,2) k by simp
  have v: "?v = ?e \<or> ?v = ?e + 1" using e e1 by (simp add: word_unat_eq_iff)
  have "refs_of s t \<le> count s" using refs_ge [OF t] D(1) by simp
  then have c: "0 < count s" using h by (simp add: refs_of_def)
  have n: "NRefOfVRef (sk_versioned_ref s) = int (count s)" by (rule nref [OF D(2)])
  show ?thesis
  proof (cases "count s = 1")
    case True
    have "spc_ok k (version s) (DeCas (sk_versioned_ref s) ?e) (sk_held s t - 1) (in_use s)"
      using count_word(1) [OF True] e use by (auto simp: version_def)
    then have "sock_inv n k g (sk_goto t (DeCas (sk_versioned_ref s) ?e) (set_held t (sk_held s t - 1) (s\<lparr>sk_versioned_ref := sk_versioned_ref s - 1\<rparr>)))"
      by (intro drop_ref_inv [OF inv t]) (use De0 h use in auto)
    then show ?thesis using st De0 n True v by (auto simp: dereference_step_def Let_def VersionOfVRef_def VersionOfSocketId_def)
  next
    case False
    have "sock_inv n k g (sk_goto t SIdle (set_held t (sk_held s t - 1) (s\<lparr>sk_versioned_ref := sk_versioned_ref s - 1\<rparr>)))"
      by (rule drop_ref_inv [OF inv t]) (use De0 h use False in auto)
    then show ?thesis using st De0 n False c by (auto simp: dereference_step_def Let_def)
  qed
next
  case (DeCas w e)
  note D = sock_invD [OF inv]
  obtain x where x: "w = pack32 x 1" "even (unat e)" "unat e < 2 * k" "unat x = unat e \<or> unat x = unat e + 1" "version s = unat e \<longrightarrow> in_use s"
    using D(7) [of t] DeCas by auto
  show ?thesis
  proof (cases "sk_versioned_ref s = w - 1")
    case True
    then have z: "version s = unat x" "count s = 0" using x(1) by (simp_all add: pack_1 count_def version_def)
    have use: "in_use s" "unat e = 2 * g" "k = g + 1"
    proof -
      show u: "in_use s" using x(2,4,5) z(1) odd_use [OF D(4)] by auto
      then have "version s = 2 * g \<or> version s = 2 * g + 1" "k = g + 1" using D(4) by (auto simp: phase_ok_def)
      then show "unat e = 2 * g" "k = g + 1" using x(2,4) z(1) by presburger+
    qed
    then have "unat (e + 2) = 2 * k" using unat_u32_12(2) [of e] k by simp
    then have "sock_inv n k (g + 1) (sk_goto t Recycle (s\<lparr>sk_versioned_ref := MakeVRef (e + 2) 0\<rparr>))"
      by (intro recycle_inv [OF inv k t z(2) use(1)]) (use DeCas in auto)
    then show ?thesis using st DeCas True by (auto simp: dereference_step_def)
  next
    case False
    have "sock_inv n k g (sk_goto t SIdle s)" by (rule lost_cas_inv [OF inv t _ False]) (simp add: DeCas)
    then show ?thesis using st DeCas False by (auto simp: dereference_step_def)
  qed
qed (use st in \<open>auto simp: dereference_step_def\<close>)

lemma recycle_step_ok:
  assumes inv: "sock_inv n k g s" and t: "t < n" and pc: "sk_pc s t = Recycle" and st: "recycle_step t s = Some r"
  shows "\<exists>ev s'. r = Inr (ev, s') \<and> sock_inv n k (g + of_bool (ev = Some Recycled)) s'"
proof -
  note D = sock_invD [OF inv]
  have np: "\<not> sk_in_pool s" by (rule D(5) [OF pc])
  have nu: "\<not> in_use s" using pc by (auto simp: in_use_def)
  let ?s = "sk_goto t SIdle (s\<lparr>sk_in_pool := True\<rparr>)"
  have nu': "\<not> in_use ?s" by (simp add: in_use_def)
  have f: "version ?s = version s" "count ?s = count s" by (simp_all add: version_def count_def)
  have "sock_inv n k g ?s"
  proof (rule inv_step [OF inv _ _ t])
    show "count ?s = refs n ?s" using refs_upd [OF t, of ?s s] pc D(1) f by (simp add: refs_of_def)
    show "phase_ok k g ?s" using D(4) nu nu' f by (simp add: phase_ok_def)
    show "\<not> sk_in_pool ?s" if "u \<noteq> t" "sk_pc s u = Recycle" for u using D(6) [OF that(2) pc] that(1) by simp
  qed (use D(2) nu nu' f in auto)
  then show ?thesis using st np by (auto simp: recycle_step_def)
qed

lemma sock_step_ok:
  assumes inv: "sock_inv n k g s" and k: "k < 2 ^ 31" and t: "t < n" and rm: "room s" and st: "sock_step t s = Some r"
  shows "\<exists>ev s'. r = Inr (ev, s') \<and> sock_inv n k (g + of_bool (ev = Some Recycled)) s'"
  using st address_step_ok [OF inv k t rm] dereference_step_ok [OF inv k t] recycle_step_ok [OF inv t]
  by (cases "sk_pc s t") (auto simp: sock_step_def)

section \<open>Runs\<close>

definition recycles :: "sock_event list \<Rightarrow> nat" where
  "recycles evs = length (filter (\<lambda>e. e = Recycled) evs)"

lemma created_ids_append [simp]: "created_ids (evs @ evs') = created_ids evs @ created_ids evs'"
  by (induction evs rule: created_ids.induct) simp_all

lemma created_inv:
  assumes inv: "sock_inv n k g s" and k: "k + 1 < 2 ^ 31" and t: "t < n" and p: "sk_in_pool s" and rm: "room s"
  shows "sock_inv n (k + 1) g
      (s\<lparr>sk_in_pool := False, sk_additional := True, sk_this_id := MakeSocketId (VersionOfVRef (sk_versioned_ref s)) slot, sk_versioned_ref := sk_versioned_ref s + 1\<rparr>)"
    (is "sock_inv n _ g ?s") and "version s = 2 * k" "k = g"
proof -
  note D = sock_invD [OF inv]
  have nr: "sk_pc s u \<noteq> Recycle" for u using D(5) p by blast
  have nu: "\<not> in_use s" and nu': "in_use ?s" using p nr by (auto simp: in_use_def)
  then show v: "version s = 2 * k" "k = g" using D(4) by (simp_all add: phase_ok_def)
  have c: "count s < 2 ^ 31 - 1" using rm by (simp add: room_def count_def word_less_nat_alt)
  then have f: "version ?s = version s" "count ?s = count s + 1" using fetch_add [of s] by (simp_all add: version_def count_def)
  have ad: "\<not> sk_additional s" using D(4) nu by (simp add: phase_ok_def)
  show "sock_inv n (k + 1) g ?s"
  proof (rule inv_step [OF inv _ _ t])
    show "count ?s = refs n ?s" using refs_upd [OF t, of ?s s] D(1) f ad by (simp add: refs_of_def)
    show "phase_ok (k + 1) g ?s" using nu' v f by (simp add: phase_ok_def MakeSocketId_def VersionOfVRef_def version_def)
    show "spc_ok (k + 1) (version ?s) (sk_pc s u) (sk_held s u) (in_use ?s)" if "spc_ok k (version s) (sk_pc s u) (sk_held s u) (in_use s)" for u
      unfolding f by (rule spc_same [OF that]) (use nu' in auto)
    show "spc_ok (k + 1) (version ?s) (sk_pc ?s t) (sk_held ?s t) (in_use ?s)" unfolding f using spc_same [OF D(7) [of t], of "k + 1" True] nu' by simp
  qed (use c f nr nu' in auto)
qed

lemma set_failed_inv:
  assumes inv: "sock_inv n k g s" and k: "k < 2 ^ 31" and t: "t < n" and h: "0 < sk_held s t" and nf: "\<not> sk_failed s"
  shows "sock_inv n k g (s\<lparr>sk_versioned_ref := MakeVRef (VersionOfVRef (sk_versioned_ref s) + 1) (lo32 (sk_versioned_ref s))\<rparr>)" (is "sock_inv n k g ?s")
proof -
  note D = sock_invD [OF inv]
  have use: "in_use s" by (rule not_using [OF D(4) h])
  then have use': "in_use ?s" by (simp add: in_use_def)
  have p: "k = g + 1" "unat (hi32 (sk_this_id s)) = 2 * g" using D(4) use by (auto simp: phase_ok_def)
  then have v: "version s = 2 * g" using nf by (simp add: sk_failed_def VersionOfVRef_def VersionOfSocketId_def version_def)
  then have v': "version ?s = version s + 1" using p k unat_u32_12(1) [of "hi32 (sk_versioned_ref s)"]
    by (simp add: version_def MakeVRef_def VersionOfVRef_def)
  have c: "count ?s = count s" by (simp add: count_def MakeVRef_def)
  have "refs_of s t \<le> count s" using refs_ge [OF t] D(1) by simp
  then have c0: "0 < count s" using h by (simp add: refs_of_def)
  have e: "even (version s)" using v by simp
  show ?thesis
  proof (rule inv_step [OF inv _ _ t])
    show "count ?s = refs n ?s" using refs_upd [OF t, of ?s s] D(1) c by (simp add: refs_of_def)
    show "phase_ok k g ?s" using use' p v v' by (simp add: phase_ok_def)
    show "spc_ok k (version ?s) (sk_pc s u) (sk_held s u) (in_use ?s)" if "spc_ok k (version s) (sk_pc s u) (sk_held s u) (in_use s)" for u
      unfolding v' by (rule spc_failed [OF that e])
    show "spc_ok k (version ?s) (sk_pc ?s t) (sk_held ?s t) (in_use ?s)" unfolding v' using spc_failed [OF D(7) [of t] e] by simp
    show "sk_pc ?s t = Recycle \<Longrightarrow> \<not> sk_in_pool ?s \<and> (\<forall>u. sk_pc s u \<noteq> Recycle)" using use by (simp add: in_use_def)
  qed (use D(2,5) c c0 in auto)
qed

lemma additional_inv:
  assumes inv: "sock_inv n k g s" and t: "t < n" and h: "0 < sk_held s t" and a: "sk_additional s"
  shows "sock_inv n k g (set_held t (sk_held s t + 1) (s\<lparr>sk_additional := False\<rparr>))" (is "sock_inv n k g ?s")
proof -
  note D = sock_invD [OF inv]
  have use: "in_use s" by (rule not_using [OF D(4) h])
  have c: "count ?s = count s" by (simp add: count_def)
  have "refs n ?s = refs n s" using refs_upd [OF t, of ?s s] a by (simp add: refs_of_def)
  moreover have "spc_ok k (version s) (sk_pc s t) (sk_held s t + 1) (in_use s)" using D(7) [of t] by (cases "sk_pc s t") auto
  moreover have "sk_pc s t \<noteq> Recycle" using use by (simp add: in_use_def)
  ultimately show ?thesis
    by (intro inv_quiet [OF inv, of t]) (use t D(1,2,8) c use in \<open>auto simp: pending_def\<close>)
qed

lemma call_inv:
  assumes inv: "sock_inv n k g s" and t: "t < n" and pc: "sk_pc s t = SIdle" "temporary pc = 0" "pc \<noteq> Recycle" "spc_ok k (version s) pc (sk_held s t) (in_use s)"
  shows "sock_inv n k g (sk_goto t pc s)"
proof (rule inv_quiet [OF inv _ _ t])
  note D = sock_invD [OF inv]
  show "count (sk_goto t pc s) = refs n (sk_goto t pc s)"
    using refs_upd [OF t, of "sk_goto t pc s" s] pc D(1) by (simp add: refs_of_def count_def)
  show "in_use s \<or> sk_held (sk_goto t pc s) t = 0 \<and> sk_additional (sk_goto t pc s) = sk_additional s" using held_or_use [OF inv] by auto
  assume a: "in_use s" "odd (version s)" "count (sk_goto t pc s) = 0"
  then obtain u where u: "pending s u" using D(8) by (auto simp: count_def)
  then have "u \<noteq> t" using pc(1) by (auto simp: pending_def Let_def)
  then show "\<exists>u. pending (sk_goto t pc s) u" using u by (intro exI [of _ u]) (simp add: pending_def)
qed (use pc sock_invD(2) [OF inv] in \<open>auto simp: count_def\<close>)

lemma sock_step_frame:
  assumes st: "sock_step t s = Some (Inr (ev, s'))"
  shows "created_ids (case ev of None \<Rightarrow> [] | Some e \<Rightarrow> [e]) = []" "sk_this_id s' = sk_this_id s" "in_use s' \<Longrightarrow> in_use s"
proof -
  have f: "created_ids (case ev of None \<Rightarrow> [] | Some e \<Rightarrow> [e]) = [] \<and> sk_this_id s' = sk_this_id s \<and> (\<forall>u. u \<noteq> t \<longrightarrow> sk_pc s' u = sk_pc s u) \<and>
      (if sk_pc s t = Recycle then sk_in_pool s' else sk_in_pool s' = sk_in_pool s)"
    using st by (cases "sk_pc s t") (auto simp: sock_step_def address_step_def dereference_step_def recycle_step_def Let_def split: if_splits)
  then show "created_ids (case ev of None \<Rightarrow> [] | Some e \<Rightarrow> [e]) = []" "sk_this_id s' = sk_this_id s" by blast+
  show "in_use s" if "in_use s'"
  proof -
    have "sk_pc s t \<noteq> Recycle" using f that by (auto simp: in_use_def)
    then show ?thesis using f that unfolding in_use_def by metis
  qed
qed

lemma sock_start_inv: "sock_inv n 0 0 sock_start"
  by (simp add: sock_inv_def sock_start_def count_def refs_def refs_of_def phase_ok_def in_use_def version_def lo32_def hi32_def)

lemma in_use_goto: "sk_pc s t \<noteq> Recycle \<Longrightarrow> pc \<noteq> Recycle \<Longrightarrow> in_use (sk_goto t pc s) = in_use s"
  unfolding in_use_def sk_fields fun_upd_apply by metis

lemma unat_of_nat_u32: "m < 2 ^ 32 \<Longrightarrow> unat (of_nat m :: u32) = m"
  by (simp add: unat_of_nat take_bit_nat_eq_self)

lemma sock_run_inv:
  "sock_run n slot evs s \<Longrightarrow> length (created_ids evs) < 2 ^ 31 \<Longrightarrow>
     sock_inv n (length (created_ids evs)) (recycles evs) s \<and>
     created_ids evs = map (\<lambda>j. MakeSocketId (of_nat (2 * j)) slot) [0..<length (created_ids evs)] \<and>
     (in_use s \<longrightarrow> created_ids evs \<noteq> [] \<and> sk_this_id s = last (created_ids evs))"
proof (induction rule: sock_run.induct)
  case first
  then show ?case using sock_start_inv by (simp add: recycles_def in_use_def sock_start_def)
next
  case (created evs s t i)
  let ?k = "length (created_ids evs)"
  have IH: "sock_inv n ?k (recycles evs) s" "created_ids evs = map (\<lambda>j. MakeSocketId (of_nat (2 * j)) slot) [0..<?k]" using created by auto
  have k: "?k + 1 < 2 ^ 31" using created.prems by simp
  note c = created_inv(1) [OF IH(1) k created.hyps(2,3,4), of slot] created_inv(2) [OF IH(1) k created.hyps(2,3,4)]
  have "unat (hi32 (sk_versioned_ref s)) = 2 * ?k" using c(2) by (simp add: version_def)
  then have "hi32 (sk_versioned_ref s) = of_nat (2 * ?k)" by (metis word_nat_cases word_of_nat_eq_iff of_nat_unat ucast_id unsigned_of_nat word_unat_eq_iff)
  then have "created_ids (evs @ [Created i]) = map (\<lambda>j. MakeSocketId (of_nat (2 * j)) slot) [0..<?k + 1]"
    using IH(2) created.hyps(5) by (simp add: VersionOfVRef_def)
  then show ?case using c(1) created.hyps(5) by (simp add: recycles_def)
next
  case (set_failed evs s t)
  then show ?case using set_failed_inv [of n "length (created_ids evs)" "recycles evs" s t] by (simp add: recycles_def in_use_def)
next
  case (additional evs s t)
  then show ?case using additional_inv [of n "length (created_ids evs)" "recycles evs" s t] by (simp add: in_use_def)
next
  case (address evs s t i w)
  let ?k = "length (created_ids evs)"
  have IH: "sock_inv n ?k (recycles evs) s" "created_ids evs = map (\<lambda>j. MakeSocketId (of_nat (2 * j)) slot) [0..<?k]" using address by auto
  obtain j where j: "j < ?k" "i = MakeSocketId (of_nat (2 * j)) slot" using address.hyps(4) IH(2) by (metis (no_types, lifting) atLeastLessThan_iff image_iff list.set_map set_upt)
  have "unat (of_nat (2 * j) :: u32) = 2 * j" by (rule unat_of_nat_u32) (use j(1) address.prems in simp)
  then have "spc_ok ?k (version s) (Ad0 w i) (sk_held s t) (in_use s)" using j by (auto simp: MakeSocketId_def)
  then have "sock_inv n ?k (recycles evs) (sk_goto t (Ad0 w i) s)" by (intro call_inv [OF IH(1) address.hyps(2,3)]) auto
  then show ?case using address.IH [OF address.prems] in_use_goto [of s t "Ad0 w i"] address.hyps(3) by simp
next
  case (readdress evs s t)
  have inv: "sock_inv n (length (created_ids evs)) (recycles evs) s" using readdress by blast
  have "in_use s" using not_using [OF sock_invD(4) [OF inv] readdress.hyps(3)] .
  then have "sock_inv n (length (created_ids evs)) (recycles evs) (sk_goto t SIdle (ReAddress t s))"
    unfolding ReAddress_def by (intro add_ref_inv [OF inv readdress.hyps(2,4)]) (use readdress.hyps(5) in auto)
  moreover have "sk_goto t SIdle (ReAddress t s) = ReAddress t s" using readdress.hyps(5) by (cases s) (auto simp: sk_goto_def ReAddress_def set_held_def fun_upd_idem)
  ultimately show ?case using readdress.IH [OF readdress.prems] by (simp add: in_use_def ReAddress_def)
next
  case (dereference evs s t)
  have inv: "sock_inv n (length (created_ids evs)) (recycles evs) s" using dereference by blast
  have "sock_inv n (length (created_ids evs)) (recycles evs) (sk_goto t De0 s)" by (rule call_inv [OF inv dereference.hyps(2,3)]) (use dereference.hyps(4) in auto)
  then show ?case using dereference.IH [OF dereference.prems] in_use_goto [of s t De0] dereference.hyps(3) by simp
next
  case (step evs s t ev s')
  note f = sock_step_frame [OF step.hyps(4)]
  have prem: "length (created_ids evs) < 2 ^ 31" using step.prems f(1) by simp
  note IH = step.IH [OF prem]
  have "sock_inv n (length (created_ids evs)) (recycles evs + of_bool (ev = Some Recycled)) s'"
    using sock_step_ok [OF conjunct1 [OF IH] prem step.hyps(2-4)] by auto
  moreover have "recycles (evs @ (case ev of None \<Rightarrow> [] | Some e \<Rightarrow> [e])) = recycles evs + of_bool (ev = Some Recycled)"
    by (auto simp: recycles_def split: option.splits)
  ultimately show ?case using IH f by simp
qed


lemma lost_reference:
  assumes inv: "sock_inv n k g s" and w: "w = pack32 x 1" "sk_versioned_ref s = w - 1" and t: "t < n"
  shows "sk_held s u = 0" "\<not> sk_additional s"
proof -
  have "refs n s = 0" using w sock_invD(1) [OF inv] by (simp add: pack_1 count_def)
  note r = refs_0 [OF this]
  show "sk_held s u = 0" using r [of u] sock_invD(3) [OF inv, of u] by (cases "u < n") auto
  show "\<not> sk_additional s" using r [OF t] by simp
qed

lemma recycled_step:
  assumes inv: "sock_inv n k g s" and t: "t < n" and st: "sock_step t s = Some (Inr (Some Recycled, s'))"
  shows "sk_held s u = 0" "\<not> sk_additional s"
proof -
  have "(\<exists>w. sk_pc s t = AdCas w \<and> sk_versioned_ref s = w - 1) \<or> (\<exists>w e. sk_pc s t = DeCas w e \<and> sk_versioned_ref s = w - 1)"
    using st by (cases "sk_pc s t") (auto simp: sock_step_def address_step_def dereference_step_def recycle_step_def Let_def split: if_splits)
  then obtain x where "sk_versioned_ref s = pack32 x 1 - 1" using sock_invD(7) [OF inv, of t] by auto
  from lost_reference [OF inv refl this t] show "sk_held s u = 0" "\<not> sk_additional s" by blast+
qed

lemma sock_addressed_step:
  assumes inv: "sock_inv n k g s" and k: "k < 2 ^ 31" and st: "sock_step t s = Some (Inr (Some (Addressed u i b), s'))"
  shows "VersionOfSocketId i = VersionOfSocketId (sk_this_id s)" "in_use s" "b = of_bool (sk_failed s)" "sk_held s' t = sk_held s t + 1"
proof -
  note D = sock_invD [OF inv]
  let ?v = "hi32 (sk_versioned_ref s)"
  have "\<exists>w. sk_pc s t = Ad0 w i \<and> (?v = hi32 i \<and> b = 0 \<or> ?v \<noteq> hi32 i \<and> ?v = hi32 i + 1 \<and> b = 1) \<and> sk_held s' t = sk_held s t + 1"
    using st by (cases "sk_pc s t")
      (auto simp: sock_step_def address_step_def dereference_step_def recycle_step_def Let_def VersionOfVRef_def VersionOfSocketId_def split: if_splits)
  then obtain w where a: "sk_pc s t = Ad0 w i" "?v = hi32 i \<and> b = 0 \<or> ?v \<noteq> hi32 i \<and> ?v = hi32 i + 1 \<and> b = 1" "sk_held s' t = sk_held s t + 1" by blast
  obtain j where j: "j < k" "unat (hi32 i) = 2 * j" using D(7) [of t] a(1) by auto
  have j1: "unat (hi32 i + 1) = 2 * j + 1" using unat_u32_12(1) [of "hi32 i"] j k by simp
  have v: "version s = 2 * j \<or> version s = 2 * j + 1" using a(2) j(2) j1 by (auto simp: version_def)
  show u: "in_use s"
  proof (rule ccontr)
    assume "\<not> in_use s"
    then have "version s = 2 * k" using D(4) by (simp add: phase_ok_def)
    then show False using v j(1) by presburger
  qed
  have g: "version s = 2 * g \<or> version s = 2 * g + 1" "unat (hi32 (sk_this_id s)) = 2 * g" using D(4) u by (auto simp: phase_ok_def)
  then have "j = g" using v by presburger
  then have same: "hi32 i = hi32 (sk_this_id s)" using j(2) g(2) by (simp add: word_unat_eq_iff)
  then show "VersionOfSocketId i = VersionOfSocketId (sk_this_id s)" by (simp add: VersionOfSocketId_def)
  show "b = of_bool (sk_failed s)" using a(2) unfolding sk_failed_def VersionOfVRef_def VersionOfSocketId_def same [symmetric] by auto
  show "sk_held s' t = sk_held s t + 1" by (rule a(3))
qed

lemma distinct_ids:
  assumes "k < 2 ^ 31"
  shows "distinct (map (\<lambda>j. MakeSocketId (of_nat (2 * j)) slot) [0..<k])"
proof -
  have "inj_on (\<lambda>j. MakeSocketId (of_nat (2 * j)) slot) {0..<k}"
  proof (rule inj_onI)
    fix i j assume a: "i \<in> {0..<k}" "j \<in> {0..<k}" "MakeSocketId (of_nat (2 * i)) slot = MakeSocketId (of_nat (2 * j)) slot"
    from a(3) have "hi32 (MakeSocketId (of_nat (2 * i)) slot) = hi32 (MakeSocketId (of_nat (2 * j)) slot)" by (rule arg_cong)
    then have "(of_nat (2 * i) :: u32) = of_nat (2 * j)" by (simp only: MakeSocketId_def hi32_pack)
    then have "unat (of_nat (2 * i) :: u32) = unat (of_nat (2 * j) :: u32)" by (rule arg_cong)
    moreover have "unat (of_nat (2 * i) :: u32) = 2 * i" "unat (of_nat (2 * j) :: u32) = 2 * j"
      by (rule unat_of_nat_u32; use a(1,2) assms in simp)+
    ultimately show "i = j" by simp
  qed
  then show ?thesis by (simp add: distinct_map)
qed

section \<open>Schedules\<close>

datatype sock_call = DoCreate | DoSetFailed | DoAdditional | DoAddress bool u64 | DoReAddress | DoDereference | DoStep

fun sock_exec :: "u32 \<Rightarrow> (sock_call \<times> nat) list \<Rightarrow> sock_event list \<Rightarrow> sock \<Rightarrow> (sock_event list \<times> sock) option" where
  "sock_exec slot [] evs s = Some (evs, s)"
| "sock_exec slot ((DoCreate, t) # sched) evs s =
     (let i = MakeSocketId (VersionOfVRef (sk_versioned_ref s)) slot in
      if sk_in_pool s \<and> room s then
        sock_exec slot sched (evs @ [Created i])
          (s\<lparr>sk_in_pool := False, sk_additional := True, sk_this_id := i, sk_versioned_ref := sk_versioned_ref s + 1\<rparr>)
      else None)"
| "sock_exec slot ((DoSetFailed, t) # sched) evs s =
     (if 0 < sk_held s t \<and> \<not> sk_failed s then
        sock_exec slot sched (evs @ [SetFailed])
          (s\<lparr>sk_versioned_ref := MakeVRef (VersionOfVRef (sk_versioned_ref s) + 1) (lo32 (sk_versioned_ref s))\<rparr>)
      else None)"
| "sock_exec slot ((DoAdditional, t) # sched) evs s =
     (if 0 < sk_held s t \<and> sk_additional s then sock_exec slot sched evs (set_held t (sk_held s t + 1) (s\<lparr>sk_additional := False\<rparr>)) else None)"
| "sock_exec slot ((DoAddress as_well i, t) # sched) evs s =
     (if sk_pc s t = SIdle \<and> i \<in> set (created_ids evs) then sock_exec slot sched evs (sk_goto t (Ad0 as_well i) s) else None)"
| "sock_exec slot ((DoReAddress, t) # sched) evs s =
     (if 0 < sk_held s t \<and> room s \<and> sk_pc s t = SIdle then sock_exec slot sched evs (ReAddress t s) else None)"
| "sock_exec slot ((DoDereference, t) # sched) evs s =
     (if sk_pc s t = SIdle \<and> 0 < sk_held s t then sock_exec slot sched evs (sk_goto t De0 s) else None)"
| "sock_exec slot ((DoStep, t) # sched) evs s =
     (if room s then
        (case sock_step t s of
           Some (Inr (ev, s')) \<Rightarrow> sock_exec slot sched (evs @ (case ev of None \<Rightarrow> [] | Some e \<Rightarrow> [e])) s'
         | _ \<Rightarrow> None)
      else None)"

lemma sock_exec_run:
  "sock_exec slot sched evs s = Some (evs', s') \<Longrightarrow> \<forall>(c, t) \<in> set sched. t < n \<Longrightarrow> sock_run n slot evs s \<Longrightarrow> sock_run n slot evs' s'"
proof (induction slot sched evs s rule: sock_exec.induct)
  case (4 slot t sched evs s)
  then show ?case using sock_run.additional [of n slot evs s t] by (simp split: if_splits)
next
  case (8 slot t sched evs s)
  then obtain ev s1 where "room s" "sock_step t s = Some (Inr (ev, s1))"
      "sock_exec slot sched (evs @ (case ev of None \<Rightarrow> [] | Some e \<Rightarrow> [e])) s1 = Some (evs', s')"
    by (auto split: if_splits option.splits sum.splits)
  then show ?case using 8(1) [of "Inr (ev, s1)" "(ev, s1)" ev s1] 8(3,4) sock_run.step [of n slot evs s t ev s1] by simp
qed (auto simp: Let_def split: if_splits intro: sock_run.intros)

definition after :: "(sock_call \<times> nat) list \<Rightarrow> sock_event list \<times> sock" where
  "after sched = the (sock_exec 0 sched [] sock_start)"

lemma after_run:
  assumes "\<not> Option.is_none (sock_exec 0 sched [] sock_start)" "\<forall>(c, t) \<in> set sched. t < n"
  shows "sock_run n 0 (fst (after sched)) (snd (after sched))"
  using sock_exec_run [OF _ assms(2) sock_run.first, of 0] assms(1) by (auto simp: after_def Option.is_none_def)

text \<open>
  Thread 0 creates a socket, addresses it, fails it, releases the additional reference and its pointer; another thread uses
  the id meanwhile, takes the last reference away and recycles the socket.
\<close>

definition shared_calls :: "(sock_call \<times> nat) list" where
  "shared_calls =
     [(DoCreate, 0), (DoAddress False 0, 0), (DoStep, 0), (DoAddress False 0, 1), (DoSetFailed, 0), (DoAdditional, 0), (DoDereference, 0),
      (DoStep, 0), (DoStep, 1), (DoDereference, 0), (DoStep, 0)]"

definition shared_rest :: "(sock_call \<times> nat) list" where
  "shared_rest = [(DoStep, 1), (DoStep, 1), (DoStep, 1)]"

text \<open>
  A socket is used and recycled; its id is used again by thread 1 while thread 0 releases the next socket of the slot without
  failing it.
\<close>

definition released_calls :: "(sock_call \<times> nat) list" where
  "released_calls =
     [(DoCreate, 0), (DoAddress False 0, 0), (DoStep, 0), (DoSetFailed, 0), (DoAdditional, 0), (DoDereference, 0), (DoStep, 0),
      (DoDereference, 0), (DoStep, 0), (DoStep, 0), (DoStep, 0),
      (DoCreate, 0), (DoAddress False 0, 1), (DoStep, 1), (DoAddress False 0x200000000, 0), (DoStep, 0), (DoAdditional, 0), (DoDereference, 0),
      (DoStep, 0), (DoDereference, 0), (DoStep, 0), (DoStep, 1)]"


section \<open>Properties\<close>

lemma all_less_2: "(\<forall>t < 2. P t) \<longleftrightarrow> P 0 \<and> P (1 :: nat)"
  by (auto simp: less_2_cases_iff)

text \<open>How many steps of its own a call still takes at most.\<close>

fun left_steps :: "sock_pc \<Rightarrow> nat" where
  "left_steps SIdle = 0"
| "left_steps Recycle = 1"
| "left_steps (AdCas _) = 2"
| "left_steps (DeCas _ _) = 2"
| "left_steps (Ad1 _ _) = 3"
| "left_steps De0 = 3"
| "left_steps (Ad0 _ _) = 4"

lemma sock_step_left:
  "sk_pc s t \<noteq> SIdle \<Longrightarrow> \<exists>r. sock_step t s = Some r"
  "sock_step t s = Some (Inr (ev, s')) \<Longrightarrow> left_steps (sk_pc s' t) < left_steps (sk_pc s t) \<and> (\<forall>u. u \<noteq> t \<longrightarrow> sk_pc s' u = sk_pc s u \<and> sk_held s' u = sk_held s u)"
  by (cases "sk_pc s t"; auto simp: sock_step_def address_step_def dereference_step_def recycle_step_def Let_def split: if_splits)+

text \<open>
C17: However the calls of \<open>n\<close> threads interleave, while fewer than \<open>2 ^ 31\<close> sockets are created on a slot: the sockets of the
slot have different ids, and at any time each but the last one was recycled exactly once, and the last one at most once; a
socket is recycled only when no thread has a pointer to it and its additional reference is released; so a pointer that a
thread has is to the last socket, whose slot is not in the pool.  \<open>Address\<close> and \<open>AddressFailedAsWell\<close> give a pointer only for
the id of the socket that is there, and say whether it has failed.
\<close>

theorem socket_recycled_once:
  assumes run: "sock_run n slot evs s" and k: "length (created_ids evs) < 2 ^ 31"
  shows "distinct (created_ids evs) \<and> recycles evs \<le> length (created_ids evs) \<and> length (created_ids evs) \<le> recycles evs + 1 \<and>
    (sk_in_pool s \<longrightarrow> length (created_ids evs) = recycles evs) \<and>
    (\<forall>t. 0 < sk_held s t \<longrightarrow> \<not> sk_in_pool s \<and> length (created_ids evs) = recycles evs + 1 \<and> sk_this_id s = last (created_ids evs)) \<and>
    (\<forall>t < n. \<forall>s'. sock_step t s = Some (Inr (Some Recycled, s')) \<longrightarrow> (\<forall>u. sk_held s u = 0) \<and> \<not> sk_additional s) \<and>
    (\<forall>t u i b s'. sock_step t s = Some (Inr (Some (Addressed u i b), s')) \<longrightarrow>
       VersionOfSocketId i = VersionOfSocketId (sk_this_id s) \<and> sk_this_id s = last (created_ids evs) \<and> \<not> sk_in_pool s \<and> b = of_bool (sk_failed s))"
proof -
  note R = sock_run_inv [OF run k]
  note inv = conjunct1 [OF R] and D = sock_invD [OF conjunct1 [OF R]]
  have use: "length (created_ids evs) = recycles evs + 1" "sk_this_id s = last (created_ids evs)" "\<not> sk_in_pool s" if "in_use s"
    using that D(4) R by (auto simp: phase_ok_def in_use_def)
  have idle: "length (created_ids evs) = recycles evs" if "\<not> in_use s" using that D(4) by (simp add: phase_ok_def)
  show ?thesis
  proof (intro conjI allI impI)
    show "distinct (created_ids evs)" using R distinct_ids [OF k, of slot] by simp
    show "recycles evs \<le> length (created_ids evs)" "length (created_ids evs) \<le> recycles evs + 1" using use(1) idle by (cases "in_use s"; simp)+
    show "length (created_ids evs) = recycles evs" if "sk_in_pool s" using that idle by (simp add: in_use_def)
    show "\<not> sk_in_pool s" "length (created_ids evs) = recycles evs + 1" "sk_this_id s = last (created_ids evs)" if "0 < sk_held s t" for t
      using use not_using [OF D(4) that] by blast+
    show "sk_held s u = 0" "\<not> sk_additional s" if "t < n" "sock_step t s = Some (Inr (Some Recycled, s'))" for t u s'
      using recycled_step [OF inv that] by blast+
    fix t u i b s' assume st: "sock_step t s = Some (Inr (Some (Addressed u i b), s'))"
    note a = sock_addressed_step [OF inv k st]
    show "VersionOfSocketId i = VersionOfSocketId (sk_this_id s)" "b = of_bool (sk_failed s)" by (fact a)+
    show "sk_this_id s = last (created_ids evs)" "\<not> sk_in_pool s" using use a(2) by blast+
  qed
qed

theorem socket_recycled_once_witness:
  "(let (evs, s) = after (take 8 shared_calls) in \<not> sk_in_pool s \<and> length (created_ids evs) = recycles evs + 1 \<and> sk_this_id s = last (created_ids evs)) \<and>
   (let (evs, s) = after (shared_calls @ shared_rest) in length (created_ids evs) = recycles evs)"
proof -
  have r: "sock_run 2 0 (fst (after (take 8 shared_calls))) (snd (after (take 8 shared_calls)))"
      "sock_run 2 0 (fst (after (shared_calls @ shared_rest))) (snd (after (shared_calls @ shared_rest)))"
    by (rule after_run; code_simp)+
  have k: "length (created_ids (fst (after (take 8 shared_calls)))) = 1" "length (created_ids (fst (after (shared_calls @ shared_rest)))) = 1"
    by code_simp+
  have h: "0 < sk_held (snd (after (take 8 shared_calls))) 0" by code_simp
  have p: "sk_in_pool (snd (after (shared_calls @ shared_rest)))" by code_simp
  show ?thesis using socket_recycled_once [OF r(1)] socket_recycled_once [OF r(2)] k h p by (auto simp: split_beta)
qed

text \<open>
C18: Once no call is running, no thread has a pointer and the additional reference is released, a socket that has failed is back
in the pool: none of the threads that saw the count drop to zero can have left the recycling to another one that does not do it.
\<close>

theorem failed_socket_recycled:
  assumes run: "sock_run n slot evs s" and k: "length (created_ids evs) < 2 ^ 31"
    and quiet: "\<forall>t < n. sk_pc s t = SIdle \<and> sk_held s t = 0" "\<not> sk_additional s" and fl: "sk_failed s"
  shows "sk_in_pool s \<and> recycles evs = length (created_ids evs)"
proof -
  note D = sock_invD [OF conjunct1 [OF sock_run_inv [OF run k]]]
  have q: "sk_pc s t = SIdle" "sk_held s t = 0" for t using quiet(1) D(3) [of t] by (cases "t < n"; simp)+
  have "\<not> in_use s"
  proof
    assume u: "in_use s"
    then have p: "version s = 2 * recycles evs \<or> version s = 2 * recycles evs + 1" "unat (hi32 (sk_this_id s)) = 2 * recycles evs"
      using D(4) by (auto simp: phase_ok_def)
    have "version s \<noteq> 2 * recycles evs" using fl p(2) by (auto simp: sk_failed_def VersionOfVRef_def VersionOfSocketId_def version_def word_unat_eq_iff)
    then have "odd (version s)" using p(1) by simp
    moreover have "count s = 0" using D(1) q quiet(2) by (simp add: refs_def refs_of_def)
    ultimately obtain t where "pending s t" using D(8) u by blast
    then show False using q(1) [of t] by (auto simp: pending_def Let_def)
  qed
  then show ?thesis using D(4) q(1) by (auto simp: in_use_def phase_ok_def)
qed

theorem failed_socket_recycled_witness:
  "let (evs, s) = after (shared_calls @ shared_rest) in sk_in_pool s \<and> recycles evs = length (created_ids evs)"
proof -
  have r: "sock_run 2 0 (fst (after (shared_calls @ shared_rest))) (snd (after (shared_calls @ shared_rest)))" by (rule after_run; code_simp)
  have k: "length (created_ids (fst (after (shared_calls @ shared_rest)))) = 1" by code_simp
  have q: "list_all (\<lambda>t. sk_pc (snd (after (shared_calls @ shared_rest))) t = SIdle \<and> sk_held (snd (after (shared_calls @ shared_rest))) t = 0) [0, 1]"
    by code_simp
  have a: "\<not> sk_additional (snd (after (shared_calls @ shared_rest)))" "sk_failed (snd (after (shared_calls @ shared_rest)))" by code_simp+
  show ?thesis using failed_socket_recycled [OF r _ _ a] k q by (simp add: split_beta all_less_2)
qed

text \<open>
C19: \<open>Address\<close>, \<open>AddressFailedAsWell\<close> and \<open>Dereference\<close> are wait-free: in every interleaving a thread in one of them can take its
next step, none of the checks of the code fails, the step brings it nearer to its return whatever the other threads do, and leaves
the calls and the pointers of the other threads alone.  With at most four steps of its own every call returns.
\<close>

theorem socket_calls_wait_free:
  assumes run: "sock_run n slot evs s" and k: "length (created_ids evs) < 2 ^ 31" and t: "t < n" and rm: "room s" and pc: "sk_pc s t \<noteq> SIdle"
  shows "left_steps (sk_pc s t) \<le> 4 \<and>
    (\<exists>ev s'. sock_step t s = Some (Inr (ev, s')) \<and> left_steps (sk_pc s' t) < left_steps (sk_pc s t) \<and>
       (left_steps (sk_pc s' t) = 0 \<longrightarrow> sk_pc s' t = SIdle) \<and> (\<forall>u. u \<noteq> t \<longrightarrow> sk_pc s' u = sk_pc s u \<and> sk_held s' u = sk_held s u))"
proof -
  obtain r where r: "sock_step t s = Some r" using sock_step_left(1) [OF pc] by blast
  obtain ev s' where e: "r = Inr (ev, s')" using sock_step_ok [OF conjunct1 [OF sock_run_inv [OF run k]] k t rm r] by blast
  have "left_steps (sk_pc s t) \<le> 4" by (cases "sk_pc s t") simp_all
  moreover have "left_steps p = 0 \<Longrightarrow> p = SIdle" for p by (cases p) simp_all
  ultimately show ?thesis using sock_step_left(2) [of t s ev s'] r e by blast
qed

theorem socket_calls_wait_free_witness:
  "\<exists>ev s'. sock_step 1 (snd (after shared_calls)) = Some (Inr (ev, s')) \<and> left_steps (sk_pc s' 1) < 3"
proof -
  have r: "sock_run 2 0 (fst (after shared_calls)) (snd (after shared_calls))" by (rule after_run; code_simp)
  have k: "length (created_ids (fst (after shared_calls))) = 1" by code_simp
  have p: "left_steps (sk_pc (snd (after shared_calls)) 1) = 3" "room (snd (after shared_calls))" by code_simp+
  have "sk_pc (snd (after shared_calls)) 1 \<noteq> SIdle" using p(1) by auto
  then show ?thesis using socket_calls_wait_free [OF r _ _ p(2), of 1] k p(1) by auto
qed

text \<open>
A socket that is released without \<open>SetFailed\<close> can stay out of the pool for ever: while a thread uses an old id of the slot, it
has a reference for the time between the two accesses of \<open>Address\<close>; when the last pointer is given back in between,
\<open>Dereference\<close> sees a count of two, and \<open>Address\<close>, which then takes the last reference away, recycles only odd versions.  No call is
running, nobody has a reference, and the second socket of the slot is not recycled.
\<close>

theorem released_socket_stays:
  "\<exists>evs s. sock_run 2 0 evs s \<and> map (sk_pc s) [0, 1] = [SIdle, SIdle] \<and> map (sk_held s) [0, 1] = [0, 0] \<and> \<not> sk_additional s \<and> lo32 (sk_versioned_ref s) = 0 \<and>
     \<not> sk_in_pool s \<and> length (created_ids evs) = 2 \<and> recycles evs = 1"
proof (intro exI conjI)
  let ?s = "snd (after released_calls)"
  show "sock_run 2 0 (fst (after released_calls)) ?s" by (rule after_run; code_simp)
  show "map (sk_pc ?s) [0, 1] = [SIdle, SIdle]" "map (sk_held ?s) [0, 1] = [0, 0]" by code_simp+
  show "\<not> sk_additional ?s" "lo32 (sk_versioned_ref ?s) = 0" "\<not> sk_in_pool ?s" "length (created_ids (fst (after released_calls))) = 2"
    "recycles (fst (after released_calls)) = 1" by code_simp+
qed

end
