(* ===== verification/Percentile.thy ===== *)
theory Percentile
  imports Prelude "HOL-Library.Multiset"
begin

text \<open>
  \<^verbatim>\<open>bvar/detail/percentile.h\<close>: latencies are sampled in intervals of bounded size, each a count of what was added and an
  array of what was kept.  Intervals of threads are merged into a global one, and those of several seconds are combined, by
  drawing samples at random; a percentile is read off the interval in which it lies.  Random numbers come from
  \<^verbatim>\<open>butil::fast_rand_less_than\<close>, which is only declared in the repository: it is an argument, a function from its hidden
  state and a range to a number and the next state.
\<close>

section \<open>Arrays\<close>

text \<open>An element that was never written is \<open>None\<close>.\<close>

type_synonym u16 = "16 word"
type_synonym samples = "u32 option list"
type_synonym 'g rand = "'g \<Rightarrow> u64 \<Rightarrow> u64 \<times> 'g"

definition arr_get :: "samples \<Rightarrow> nat \<Rightarrow> u32 res" where
  "arr_get a i = res_bind (vec_at a i) (\<lambda>x. case x of None \<Rightarrow> Inl Indeterminate | Some v \<Rightarrow> Inr v)"

definition arr_set :: "samples \<Rightarrow> nat \<Rightarrow> u32 \<Rightarrow> samples res" where
  "arr_set a i v = (if i < length a then Inr (a[i := Some v]) else Inl OutOfRange)"

text \<open>\<^verbatim>\<open>memcpy\<close> of the first \<open>n\<close> elements of an array to a place in another one.\<close>

definition arr_copy :: "samples \<Rightarrow> nat \<Rightarrow> samples \<Rightarrow> nat \<Rightarrow> samples res" where
  "arr_copy a i b n = (if i + n \<le> length a \<and> n \<le> length b then Inr (take i a @ take n b @ drop (i + n) a) else Inl OutOfRange)"

text \<open>\<^verbatim>\<open>std::sort\<close> of the first \<open>n\<close> elements.\<close>

definition arr_sort :: "samples \<Rightarrow> nat \<Rightarrow> samples res" where
  "arr_sort a n =
     (if length a < n then Inl OutOfRange
      else if None \<in> set (take n a) then Inl Indeterminate
      else Inr (map Some (sort (map the (take n a))) @ drop n a))"

section \<open>Intervals\<close>

record interval =
  pi_num_added :: u32
  pi_sorted :: bool
  pi_num_samples :: u16
  pi_samples :: samples

definition SAMPLE_SIZE :: "interval \<Rightarrow> u64" where
  "SAMPLE_SIZE p = of_nat (length (pi_samples p))"

definition PercentileInterval :: "nat \<Rightarrow> interval" where
  "PercentileInterval size0 = \<lparr>pi_num_added = 0, pi_sorted = False, pi_num_samples = 0, pi_samples = replicate size0 None\<rparr>"

definition round_of_expectation :: "'g rand \<Rightarrow> u64 \<Rightarrow> u64 \<Rightarrow> 'g \<Rightarrow> u64 \<times> 'g" where
  "round_of_expectation rnd a b g =
     (if b = 0 then (0, g) else let (r, g') = rnd g b in (a div b + of_bool (r < a mod b), g'))"

definition get_sample_at :: "interval \<Rightarrow> u64 \<Rightarrow> (u32 \<times> interval) res" where
  "get_sample_at p index =
     (let saved_num = ucast (pi_num_samples p) :: u64 in
      if index \<ge> saved_num \<and> saved_num = 0 then Inr (0, p)
      else
        let index' = (if index \<ge> saved_num then saved_num - 1 else index) in
        res_bind (if pi_sorted p then Inr p
                  else res_bind (arr_sort (pi_samples p) (unat saved_num)) (\<lambda>a. Inr (p\<lparr>pi_samples := a, pi_sorted := True\<rparr>)))
          (\<lambda>p'. if saved_num \<noteq> ucast (pi_num_samples p') then Inl AssertFailed
                else res_bind (arr_get (pi_samples p') (unat index')) (\<lambda>v. Inr (v, p'))))"

text \<open>The loop that drops samples until \<open>remain\<close> are left, and the one that picks \<open>k\<close> of the first \<open>m\<close> samples of \<open>tmp\<close>.\<close>

fun drop_samples :: "'g rand \<Rightarrow> nat \<Rightarrow> nat \<Rightarrow> samples \<Rightarrow> 'g \<Rightarrow> (samples \<times> 'g) res" where
  "drop_samples rnd 0 remain a g = Inr (a, g)"
| "drop_samples rnd (Suc i) remain a g =
     (if Suc i > remain then
        let (r, g') = rnd g (of_nat (Suc i)) in
        res_bind (arr_get a i) (\<lambda>x. res_bind (arr_set a (unat r) x) (\<lambda>a'. drop_samples rnd i remain a' g'))
      else Inr (a, g))"

fun pick_samples :: "'g rand \<Rightarrow> nat \<Rightarrow> nat \<Rightarrow> nat \<Rightarrow> samples \<Rightarrow> samples \<Rightarrow> 'g \<Rightarrow> (nat \<times> samples \<times> 'g) res" where
  "pick_samples rnd 0 m num_remain tmp a g = Inr (num_remain, a, g)"
| "pick_samples rnd (Suc k) m num_remain tmp a g =
     (let (index, g') = rnd g (of_nat m) in
      res_bind (arr_get tmp (unat index)) (\<lambda>x.
      res_bind (arr_set a num_remain x) (\<lambda>a'.
      res_bind (arr_get tmp (m - 1)) (\<lambda>y.
      res_bind (arr_set tmp (unat index) y) (\<lambda>tmp'.
        pick_samples rnd k (m - 1) (num_remain + 1) tmp' a' g')))))"

definition merge :: "'g rand \<Rightarrow> interval \<Rightarrow> interval \<Rightarrow> 'g \<Rightarrow> (interval \<times> 'g) res" where
  "merge rnd p rhs g =
     (if pi_num_added rhs = 0 then Inr (p, g)
      else if ucast (pi_num_samples rhs) \<noteq> pi_num_added rhs then Inl AssertFailed
      else if ucast (pi_num_added p + pi_num_added rhs) \<le> SAMPLE_SIZE p then
        if ucast (pi_num_samples p) \<noteq> pi_num_added p then Inl AssertFailed
        else res_bind (arr_copy (pi_samples p) (unat (pi_num_samples p)) (pi_samples rhs) (unat (pi_num_samples rhs))) (\<lambda>a.
          Inr (p\<lparr>pi_samples := a, pi_num_samples := pi_num_samples p + pi_num_samples rhs, pi_num_added := pi_num_added p + pi_num_added rhs\<rparr>, g))
      else
        let (num_remain, g1) = round_of_expectation rnd (ucast (pi_num_added p) * SAMPLE_SIZE p) (ucast (pi_num_added p + pi_num_added rhs)) g in
        if \<not> num_remain \<le> ucast (pi_num_samples p) then Inl AssertFailed
        else res_bind (drop_samples rnd (unat (pi_num_samples p)) (unat num_remain) (pi_samples p) g1) (\<lambda>(a, g2).
          let num_remain_from_rhs = SAMPLE_SIZE p - num_remain in
          if \<not> num_remain_from_rhs \<le> ucast (pi_num_samples rhs) then Inl AssertFailed
          else res_bind (pick_samples rnd (unat num_remain_from_rhs) (unat (pi_num_samples rhs)) (unat num_remain)
                 (take (unat (pi_num_samples rhs)) (pi_samples rhs)) a g2) (\<lambda>(n, a', g3).
            if ucast (of_nat n :: u16) \<noteq> SAMPLE_SIZE p then Inl AssertFailed
            else Inr (p\<lparr>pi_samples := a', pi_num_samples := of_nat n, pi_num_added := pi_num_added p + pi_num_added rhs\<rparr>, g3))))"

text \<open>A sample is put behind the others, or in the place of one of them.\<close>

definition keep_sample :: "'g rand \<Rightarrow> interval \<Rightarrow> u32 \<Rightarrow> 'g \<Rightarrow> (interval \<times> 'g) res" where
  "keep_sample rnd p x g =
     (if ucast (pi_num_samples p) < SAMPLE_SIZE p then
        res_bind (arr_set (pi_samples p) (unat (pi_num_samples p)) x) (\<lambda>a. Inr (p\<lparr>pi_samples := a, pi_num_samples := pi_num_samples p + 1\<rparr>, g))
      else
        let (r, g') = rnd g (ucast (pi_num_samples p)) in
        res_bind (arr_set (pi_samples p) (unat r) x) (\<lambda>a. Inr (p\<lparr>pi_samples := a\<rparr>, g')))"

fun expectation_loop :: "'g rand \<Rightarrow> nat \<Rightarrow> nat \<Rightarrow> interval \<Rightarrow> interval \<Rightarrow> 'g \<Rightarrow> (interval \<times> interval \<times> 'g) res" where
  "expectation_loop rnd 0 m p rhs g = Inr (p, rhs, g)"
| "expectation_loop rnd (Suc k) m p rhs g =
     (let (index, g1) = rnd g (of_nat m) in
      res_bind (arr_get (pi_samples rhs) (unat index)) (\<lambda>x.
      res_bind (keep_sample rnd p x g1) (\<lambda>(p', g2).
      res_bind (arr_get (pi_samples rhs) (m - 1)) (\<lambda>y.
      res_bind (arr_set (pi_samples rhs) (unat index) y) (\<lambda>b.
      res_bind (arr_set b (m - 1) x) (\<lambda>b'.
        expectation_loop rnd k (m - 1) p' (rhs\<lparr>pi_samples := b'\<rparr>) g2))))))"

definition merge_with_expectation :: "'g rand \<Rightarrow> interval \<Rightarrow> interval \<Rightarrow> u64 \<Rightarrow> 'g \<Rightarrow> (interval \<times> interval \<times> 'g) res" where
  "merge_with_expectation rnd p rhs n g =
     (if \<not> n \<le> ucast (pi_num_samples rhs) then Inl AssertFailed
      else
        let p1 = p\<lparr>pi_num_added := pi_num_added p + pi_num_added rhs\<rparr> in
        if ucast (pi_num_samples p) + n \<le> SAMPLE_SIZE p \<and> n = ucast (pi_num_samples rhs) then
          res_bind (arr_copy (pi_samples p) (unat (pi_num_samples p)) (pi_samples rhs) (unat n)) (\<lambda>a.
            Inr (p1\<lparr>pi_samples := a, pi_num_samples := pi_num_samples p + ucast n\<rparr>, rhs, g))
        else expectation_loop rnd (unat n) (unat (pi_num_samples rhs)) p1 rhs g)"

definition add32 :: "interval \<Rightarrow> u32 \<Rightarrow> (bool \<times> interval) res" where
  "add32 p x =
     (if ucast (pi_num_samples p) \<ge> SAMPLE_SIZE p then Inr (False, p)
      else res_bind (arr_set (pi_samples p) (unat (pi_num_samples p)) x) (\<lambda>a.
        Inr (True, p\<lparr>pi_num_added := pi_num_added p + 1, pi_samples := a, pi_num_samples := pi_num_samples p + 1\<rparr>)))"

definition add64 :: "interval \<Rightarrow> int \<Rightarrow> (bool \<times> interval) res" where
  "add64 p x = (if x \<ge> 0 then add32 p (word_of_int x) else Inr (False, p))"

definition clear :: "interval \<Rightarrow> interval" where
  "clear p = p\<lparr>pi_num_added := 0, pi_sorted := False, pi_num_samples := 0\<rparr>"

definition full :: "interval \<Rightarrow> bool" where
  "full p \<longleftrightarrow> ucast (pi_num_samples p) = SAMPLE_SIZE p"

definition empty :: "interval \<Rightarrow> bool" where
  "empty p \<longleftrightarrow> pi_num_samples p = 0"

definition added_count :: "interval \<Rightarrow> u32" where
  "added_count p = pi_num_added p"

definition sample_count :: "interval \<Rightarrow> u32" where
  "sample_count p = ucast (pi_num_samples p)"

definition same_interval :: "interval \<Rightarrow> interval \<Rightarrow> bool" where
  "same_interval p rhs \<longleftrightarrow> pi_num_added p = pi_num_added rhs \<and> pi_num_samples p = pi_num_samples rhs \<and>
     take (unat (pi_num_samples p)) (pi_samples p) = take (unat (pi_num_samples p)) (pi_samples rhs)"

section \<open>Groups of intervals\<close>

record samples_group =
  ps_size :: nat                           \<comment> \<open>the template argument\<close>
  ps_num_added :: u64
  ps_intervals :: "interval option list"

definition NUM_INTERVALS :: nat where
  "NUM_INTERVALS = 32"

definition PercentileSamples :: "nat \<Rightarrow> samples_group" where
  "PercentileSamples size0 = \<lparr>ps_size = size0, ps_num_added = 0, ps_intervals = replicate NUM_INTERVALS None\<rparr>"

definition copied :: "interval option \<Rightarrow> interval option" where
  "copied rhs = (case rhs of Some q \<Rightarrow> if empty q then None else Some q | None \<Rightarrow> None)"

definition copy_samples :: "samples_group \<Rightarrow> samples_group" where
  "copy_samples rhs = \<lparr>ps_size = ps_size rhs, ps_num_added = ps_num_added rhs, ps_intervals = map copied (ps_intervals rhs)\<rparr>"

definition assign_interval :: "interval option \<Rightarrow> interval option \<Rightarrow> interval option" where
  "assign_interval p rhs = (case copied rhs of Some q \<Rightarrow> Some q | None \<Rightarrow> map_option clear p)"

definition assign_samples :: "samples_group \<Rightarrow> samples_group \<Rightarrow> samples_group" where
  "assign_samples s rhs = s\<lparr>ps_num_added := ps_num_added rhs, ps_intervals := map2 assign_interval (ps_intervals s) (ps_intervals rhs)\<rparr>"

definition get_interval_at :: "samples_group \<Rightarrow> nat \<Rightarrow> interval" where
  "get_interval_at s i = (case ps_intervals s ! i of None \<Rightarrow> PercentileInterval (ps_size s) | Some p \<Rightarrow> p)"

definition set_interval :: "samples_group \<Rightarrow> nat \<Rightarrow> interval \<Rightarrow> samples_group" where
  "set_interval s i p = s\<lparr>ps_intervals := (ps_intervals s)[i := Some p]\<rparr>"

text \<open>The loop of \<open>get_number\<close> over the intervals.\<close>

fun number_in :: "interval option list \<Rightarrow> u64 \<Rightarrow> (u32 \<times> interval option list) res" where
  "number_in [] n = Inl AssertFailed"
| "number_in (None # ps) n = res_bind (number_in ps n) (\<lambda>(v, ps'). Inr (v, None # ps'))"
| "number_in (Some p # ps) n =
     (if n \<le> ucast (added_count p) then
        if added_count p = 0 then Inl Uncaught    \<comment> \<open>division by zero\<close>
        else let sample_n = n * ucast (sample_count p) div ucast (added_count p); sample_index = (if sample_n \<noteq> 0 then sample_n - 1 else 0) in
        res_bind (get_sample_at p sample_index) (\<lambda>(v, p'). Inr (v, Some p' # ps))
      else res_bind (number_in ps (n - ucast (added_count p))) (\<lambda>(v, ps'). Inr (v, Some p # ps')))"

text \<open>The argument \<open>n\<close> is \<^verbatim>\<open>(size_t)ceil(ratio * _num_added)\<close>, computed in floating point.\<close>

definition get_number :: "samples_group \<Rightarrow> u64 \<Rightarrow> (u32 \<times> samples_group) res" where
  "get_number s n =
     (if \<not> n > ps_num_added s \<and> n = 0 then Inr (0, s)
      else res_bind (number_in (ps_intervals s) (if n > ps_num_added s then ps_num_added s else n)) (\<lambda>(v, ps). Inr (v, s\<lparr>ps_intervals := ps\<rparr>)))"

fun merge_loop :: "'g rand \<Rightarrow> nat list \<Rightarrow> samples_group \<Rightarrow> samples_group \<Rightarrow> 'g \<Rightarrow> (samples_group \<times> 'g) res" where
  "merge_loop rnd [] s rhs g = Inr (s, g)"
| "merge_loop rnd (i # is) s rhs g =
     (case ps_intervals rhs ! i of
        Some q \<Rightarrow>
          if empty q then merge_loop rnd is s rhs g
          else res_bind (merge rnd (get_interval_at s i) q g) (\<lambda>(p, g'). merge_loop rnd is (set_interval s i p) rhs g')
      | None \<Rightarrow> merge_loop rnd is s rhs g)"

definition merge_group :: "'g rand \<Rightarrow> samples_group \<Rightarrow> samples_group \<Rightarrow> 'g \<Rightarrow> (samples_group \<times> 'g) res" where
  "merge_group rnd s rhs g = merge_loop rnd [0..<NUM_INTERVALS] (s\<lparr>ps_num_added := ps_num_added s + ps_num_added rhs\<rparr>) rhs g"

text \<open>\<open>combine_of\<close>: the loop over the parts for one interval, and the loop over the intervals.\<close>

definition part_added :: "nat \<Rightarrow> samples_group \<Rightarrow> u64" where
  "part_added i part = (case ps_intervals part ! i of None \<Rightarrow> 0 | Some q \<Rightarrow> ucast (added_count q))"

fun combine_parts ::
  "'g rand \<Rightarrow> nat \<Rightarrow> u64 \<Rightarrow> samples_group list \<Rightarrow> samples_group \<Rightarrow> 'g \<Rightarrow> (samples_group \<times> samples_group list \<times> 'g) res" where
  "combine_parts rnd i sum_added [] s g = Inr (s, [], g)"
| "combine_parts rnd i sum_added (part # parts) s g =
     (let skip = res_bind (combine_parts rnd i sum_added parts s g) (\<lambda>(s', parts', g'). Inr (s', part # parts', g')) in
      case ps_intervals part ! i of
        None \<Rightarrow> skip
      | Some q \<Rightarrow>
          if empty q then skip
          else
            let (n, g1) =
              (if sum_added \<le> of_nat (ps_size s) then (ucast (sample_count q), g)
               else let (e, g0) = round_of_expectation rnd (ucast (added_count q) * of_nat (ps_size s)) sum_added g in (min e (ucast (sample_count q)), g0)) in
            res_bind (merge_with_expectation rnd (get_interval_at s i) q n g1) (\<lambda>(p, q', g2).
            res_bind (combine_parts rnd i sum_added parts (set_interval s i p) g2) (\<lambda>(s', parts', g').
              Inr (s', set_interval part i q' # parts', g'))))"

fun combine_loop ::
  "'g rand \<Rightarrow> nat list \<Rightarrow> samples_group list \<Rightarrow> samples_group \<Rightarrow> 'g \<Rightarrow> (samples_group \<times> samples_group list \<times> 'g) res" where
  "combine_loop rnd [] parts s g = Inr (s, parts, g)"
| "combine_loop rnd (i # is) parts s g =
     (let sum_added = sum_list (map (part_added i) parts) in
      if sum_added = 0 then combine_loop rnd is parts s g
      else res_bind (combine_parts rnd i sum_added parts s g) (\<lambda>(s', parts', g'). combine_loop rnd is parts' s' g'))"

definition combine_of :: "'g rand \<Rightarrow> samples_group list \<Rightarrow> samples_group \<Rightarrow> 'g \<Rightarrow> (samples_group \<times> samples_group list \<times> 'g) res" where
  "combine_of rnd parts s g =
     (let s0 = (if ps_num_added s \<noteq> 0 then s\<lparr>ps_intervals := map (map_option clear) (ps_intervals s), ps_num_added := 0\<rparr> else s) in
      combine_loop rnd [0..<NUM_INTERVALS] parts (s0\<lparr>ps_num_added := ps_num_added s0 + sum_list (map ps_num_added parts)\<rparr>) g)"

section \<open>Arrays and the lists they hold\<close>

definition holds :: "samples \<Rightarrow> u32 list \<Rightarrow> bool" where
  "holds a xs \<longleftrightarrow> take (length xs) a = map Some xs"

lemma holds_length: "holds a xs \<Longrightarrow> length xs \<le> length a"
  unfolding holds_def by (metis length_map length_take min.cobounded1 min_def)

lemma holds_nth: "holds a xs \<Longrightarrow> i < length xs \<Longrightarrow> a ! i = Some (xs ! i)"
  unfolding holds_def by (metis nth_map nth_take)

lemma holdsI: "length xs \<le> length a \<Longrightarrow> (\<And>i. i < length xs \<Longrightarrow> a ! i = Some (xs ! i)) \<Longrightarrow> holds a xs"
  unfolding holds_def by (rule nth_equalityI) auto

lemma holds_iff: "holds a xs \<longleftrightarrow> length xs \<le> length a \<and> (\<forall>i < length xs. a ! i = Some (xs ! i))"
  using holds_length holds_nth holdsI by blast

lemma holds_Nil [simp]: "holds a []"
  by (simp add: holds_def)

lemma holds_prefix: "holds a (xs @ ys) \<Longrightarrow> holds a xs"
  by (auto simp: holds_iff nth_append)

lemma holds_get: "holds a xs \<Longrightarrow> i < length xs \<Longrightarrow> arr_get a i = Inr (xs ! i)"
  using holds_length [of a xs] holds_nth [of a xs i] by (simp add: arr_get_def vec_at_def)

lemma holds_set: "holds a xs \<Longrightarrow> i < length xs \<Longrightarrow> arr_set a i v = Inr (a[i := Some v]) \<and> holds (a[i := Some v]) (xs[i := v])"
  by (auto simp: arr_set_def holds_iff nth_list_update)

lemma holds_snoc: "holds a xs \<Longrightarrow> length xs < length a \<Longrightarrow> arr_set a (length xs) v = Inr (a[length xs := Some v]) \<and> holds (a[length xs := Some v]) (xs @ [v])"
  by (auto simp: arr_set_def holds_iff nth_append nth_list_update less_Suc_eq)

lemma holds_copy:
  assumes "holds a xs" "holds b ys" "length xs + length ys \<le> length a"
  shows "\<exists>a'. arr_copy a (length xs) b (length ys) = Inr a' \<and> holds a' (xs @ ys) \<and> length a' = length a"
  using assms holds_length [OF assms(2)] by (auto simp: arr_copy_def holds_def)

lemma holds_sort:
  assumes "holds a xs"
  shows "\<exists>a'. arr_sort a (length xs) = Inr a' \<and> holds a' (sort xs) \<and> length a' = length a"
proof -
  have "None \<notin> set (take (length xs) a)" "map the (take (length xs) a) = xs" using assms by (auto simp: holds_def comp_def)
  then show ?thesis using holds_length [OF assms] by (auto simp: arr_sort_def holds_def)
qed

text \<open>Overwriting an element by the last one, and forgetting the last one, removes the element.\<close>

definition swap_out :: "'a list \<Rightarrow> nat \<Rightarrow> 'a list" where
  "swap_out xs r = butlast (xs[r := last xs])"

lemma length_swap_out [simp]: "length (swap_out xs r) = length xs - 1"
  by (simp add: swap_out_def)

lemma mset_swap_out:
  assumes "r < length xs"
  shows "mset xs = add_mset (xs ! r) (mset (swap_out xs r))"
proof (cases "r = length xs - 1")
  case True
  then have "xs ! r = last xs" using assms last_conv_nth [of xs] by fastforce
  moreover from this have "xs[r := last xs] = xs" using list_update_id [of xs r] by simp
  moreover have "xs \<noteq> []" using assms by auto
  ultimately have "xs = swap_out xs r @ [xs ! r]" by (simp add: swap_out_def)
  then show ?thesis by (metis add_mset_add_single mset.simps mset_append)
next
  case False
  then have r: "r < length (butlast xs)" using assms by simp
  have "xs \<noteq> []" using assms by auto
  then have x: "xs = butlast xs @ [last xs]" by simp
  have "xs[r := last xs] = (butlast xs)[r := last xs] @ [last xs]" using r x by (metis list_update_append1)
  then have "swap_out xs r = (butlast xs)[r := last xs]" by (simp add: swap_out_def)
  moreover have "butlast xs ! r = xs ! r" using r by (simp add: nth_butlast)
  moreover from this have "xs ! r \<in># mset (butlast xs)" using r nth_mem [OF r] by simp
  ultimately have "add_mset (xs ! r) (mset (swap_out xs r)) = add_mset (last xs) (mset (butlast xs))"
    using r by (simp add: mset_update)
  also have "\<dots> = mset xs" by (subst (3) x) simp
  finally show ?thesis by simp
qed

lemma holds_swap_out:
  assumes "holds a xs" "r < length xs"
  shows "holds (a[r := Some (last xs)]) (swap_out xs r)"
proof -
  have x: "xs[r := last xs] \<noteq> []" using assms(2) by auto
  have "holds (a[r := Some (last xs)]) (xs[r := last xs])" using holds_set [OF assms] by blast
  then show ?thesis unfolding swap_out_def using holds_prefix append_butlast_last_id [OF x] by metis
qed

lemma last_nth: "length xs = Suc i \<Longrightarrow> xs ! i = last xs"
  by (metis diff_Suc_1 last_conv_nth length_0_conv nat.distinct(1))

text \<open>What an interval holds.\<close>

definition pi_has :: "interval \<Rightarrow> u32 list \<Rightarrow> bool" where
  "pi_has p xs \<longleftrightarrow> length (pi_samples p) < 2 ^ 16 \<and> holds (pi_samples p) xs \<and> length xs = unat (pi_num_samples p)"

lemma pi_hasD: "pi_has p xs \<Longrightarrow> length xs = unat (pi_num_samples p)" "pi_has p xs \<Longrightarrow> length xs \<le> length (pi_samples p)"
    "pi_has p xs \<Longrightarrow> length (pi_samples p) < 2 ^ 16" "pi_has p xs \<Longrightarrow> holds (pi_samples p) xs"
  using holds_length [of "pi_samples p" xs] by (simp_all add: pi_has_def)

lemma unat_size: "length (pi_samples p) < 2 ^ 16 \<Longrightarrow> unat (SAMPLE_SIZE p) = length (pi_samples p)"
  by (simp add: SAMPLE_SIZE_def unat_of_nat take_bit_nat_eq_self)

lemma unat_u16 [simp]: "unat (ucast (w :: u16) :: u64) = unat w" "unat (ucast (w :: u16) :: u32) = unat w"
  using unsigned_less [of w, where ?'a = nat] by (simp_all add: unsigned_ucast_eq take_bit_nat_eq_self)

lemma unat_u32_u64 [simp]: "unat (ucast (w :: u32) :: u64) = unat w"
  using unsigned_less [of w, where ?'a = nat] by (simp add: unsigned_ucast_eq take_bit_nat_eq_self)

lemma unat_of_nat_u16: "n < 2 ^ 16 \<Longrightarrow> unat (of_nat n :: u16) = n"
  by (simp add: unat_of_nat take_bit_nat_eq_self)

lemma unat_add_bound: "unat (x :: 'a :: len word) + unat y < 2 ^ LENGTH('a) \<Longrightarrow> unat (x + y) = unat x + unat y"
  by (simp add: unat_word_ariths)

text \<open>How many of \<open>size0\<close> places go to \<open>a\<close> out of \<open>a + r\<close> samples.\<close>

lemma share_bounds:
  fixes a r sz :: nat
  assumes big: "sz < a + r" and w: "w = a * sz div (a + r) \<or> w = a * sz div (a + r) + 1 \<and> a * sz mod (a + r) \<noteq> 0"
  shows "w \<le> a" "w \<le> sz" "sz - w \<le> r" "w * (a + r) < a * sz + (a + r)" "a * sz < w * (a + r) + (a + r)"
proof -
  define N q m where "N = a + r" "q = a * sz div N" "m = a * sz mod N"
  have N: "0 < N" using big unfolding N_q_m_def(1) by linarith
  have e: "a * sz = q * N + m" "m < N" unfolding N_q_m_def(2,3) using mod_less_divisor [OF N] by simp_all
  have w': "w = q \<or> w = q + 1 \<and> m \<noteq> 0" using w by (simp add: N_q_m_def)
  have "sz \<le> N" "a \<le> N" using big by (simp_all add: N_q_m_def(1))
  then have le: "a * sz \<le> a * N" "a * sz \<le> sz * N" by (simp_all add: mult.commute)
  have "w * N \<le> a * sz + (N - 1)" using w' e by (auto simp: add_mult_distrib)
  have up: "w \<le> y" if "a * sz \<le> y * N" for y
  proof (cases "m = 0")
    case True
    then have "w * N \<le> y * N" using w' e that by simp
    then show ?thesis using e(2) by simp
  next
    case False
    then have "q * N < y * N" using e that by linarith
    then have "q < y" by simp
    then show ?thesis using w' by auto
  qed
  show "w \<le> a" "w \<le> sz" using up le by blast+
  show "w * (a + r) < a * sz + (a + r)" 
    using \<open>w * N \<le> a * sz + (N - 1)\<close> e(2) unfolding N_q_m_def(1) [symmetric] by linarith
  have "q * N \<le> w * N" using w' by auto
  then show "a * sz < w * (a + r) + (a + r)" using e unfolding N_q_m_def(1) [symmetric] by linarith
  have "sz - q \<le> r"
  proof (rule ccontr)
    assume "\<not> sz - q \<le> r"
    then have "r + 1 + q \<le> sz" by simp
    then have "(r + 1 + q) * N \<le> sz * N" by (rule mult_le_mono1)
    moreover have "sz * N = a * sz + sz * r" by (simp add: N_q_m_def(1) algebra_simps)
    ultimately have "r * N + N \<le> m + sz * r" using e(1) by (simp add: algebra_simps)
    then have "r * N + N \<le> m + r * sz" by (simp add: mult.commute)
    then have "r * N < r * sz" using e(2) by linarith
    then show False using \<open>sz \<le> N\<close> by simp
  qed
  then show "sz - w \<le> r" using w' by auto
qed

section \<open>Drawing samples\<close>

locale rand_below =
  fixes rnd :: "'g \<Rightarrow> u64 \<Rightarrow> u64 \<times> 'g"
  assumes below: "n \<noteq> 0 \<Longrightarrow> fst (rnd g n) < n"
begin

lemma draw:
  assumes "0 < m" "m < 2 ^ 16"
  obtains r g' where "rnd g (of_nat m) = (of_nat r, g')" "r < m" "unat (of_nat r :: u64) = r"
proof -
  obtain w g' where w: "rnd g (of_nat m) = (w, g')" by fastforce
  have m: "unat (of_nat m :: u64) = m" using assms(2) by (simp add: unat_of_nat take_bit_nat_eq_self)
  then have "(of_nat m :: u64) \<noteq> 0" using assms(1) by auto
  then have "w < of_nat m" using below [of "of_nat m" g] w by simp
  then have "unat w < m" using m by (simp add: word_less_nat_alt)
  moreover have "of_nat (unat w) = w" by simp
  ultimately show thesis using w that [of "unat w" g'] by simp
qed

lemma drop_samples_ok:
  "holds a xs \<Longrightarrow> length xs = i \<Longrightarrow> remain \<le> i \<Longrightarrow> i < 2 ^ 16 \<Longrightarrow>
     \<exists>a' g' ys. drop_samples rnd i remain a g = Inr (a', g') \<and> holds a' ys \<and> length ys = remain \<and> mset ys \<subseteq># mset xs \<and> length a' = length a"
proof (induction i arbitrary: a xs g)
  case 0
  then show ?case by auto
next
  case (Suc i)
  show ?case
  proof (cases "remain = Suc i")
    case True
    then show ?thesis using Suc.prems by auto
  next
    case False
    obtain r g' where r: "rnd g (of_nat (Suc i)) = (of_nat r, g')" "r < Suc i" "unat (of_nat r :: u64) = r" using draw [of "Suc i" g] Suc.prems(4) by blast
    have x: "arr_get a i = Inr (last xs)" using holds_get [OF Suc.prems(1), of i] Suc.prems(2) last_nth [of xs i] by simp
    have rl: "r < length xs" using r(2) Suc.prems(2) by simp
    note st = holds_set [OF Suc.prems(1) rl, of "last xs"]
    obtain a' g'' ys where ys: "drop_samples rnd i remain (a[r := Some (last xs)]) g' = Inr (a', g'')" "holds a' ys" "length ys = remain"
        "mset ys \<subseteq># mset (swap_out xs r)" "length a' = length a"
      using Suc.IH [OF holds_swap_out [OF Suc.prems(1) rl], of g'] Suc.prems False by auto
    have "mset (swap_out xs r) \<subseteq># mset xs" using mset_swap_out [OF rl] by simp
    then have "mset ys \<subseteq># mset xs" using ys(4) subset_mset.order_trans by blast
    then show ?thesis using ys r x st False Suc.prems(3) by (auto simp: Let_def simp del: of_nat_Suc)
  qed
qed

lemma pick_samples_ok:
  "holds tmp ts \<Longrightarrow> length ts = m \<Longrightarrow> k \<le> m \<Longrightarrow> m < 2 ^ 16 \<Longrightarrow> holds a xs \<Longrightarrow> length xs + k \<le> length a \<Longrightarrow>
     \<exists>a' g' ys. pick_samples rnd k m (length xs) tmp a g = Inr (length xs + k, a', g') \<and> holds a' (xs @ ys) \<and> length ys = k \<and> mset ys \<subseteq># mset ts \<and> length a' = length a"
proof (induction k arbitrary: tmp ts m a xs g)
  case 0
  then show ?case by auto
next
  case (Suc k)
  obtain r g' where r: "rnd g (of_nat m) = (of_nat r, g')" "r < m" "unat (of_nat r :: u64) = r" using draw [of m g] Suc.prems(3,4) by auto
  have rl: "r < length ts" using r(2) Suc.prems(2) by simp
  have gets: "arr_get tmp r = Inr (ts ! r)" "arr_get tmp (m - 1) = Inr (last ts)"
    using holds_get [OF Suc.prems(1)] rl Suc.prems(2,3) last_nth [of ts "m - 1"] by auto
  have la: "length xs < length a" using Suc.prems(6) by simp
  note sa = holds_snoc [OF Suc.prems(5) la, of "ts ! r"] and st = holds_set [OF Suc.prems(1) rl, of "last ts"]
  have "\<exists>a' g'' ys. pick_samples rnd k (m - 1) (length (xs @ [ts ! r])) (tmp[r := Some (last ts)]) (a[length xs := Some (ts ! r)]) g' =
      Inr (length (xs @ [ts ! r]) + k, a', g'') \<and> holds a' ((xs @ [ts ! r]) @ ys) \<and> length ys = k \<and> mset ys \<subseteq># mset (swap_out ts r) \<and>
      length a' = length (a[length xs := Some (ts ! r)])"
    by (rule Suc.IH [OF holds_swap_out [OF Suc.prems(1) rl]]) (use Suc.prems sa in auto)
  then obtain a' g'' ys where ys: "pick_samples rnd k (m - 1) (length xs + 1) (tmp[r := Some (last ts)]) (a[length xs := Some (ts ! r)]) g' = Inr (length xs + Suc k, a', g'')"
      "holds a' (xs @ ts ! r # ys)" "length ys = k" "mset ys \<subseteq># mset (swap_out ts r)" "length a' = length a"
    by auto
  have "mset (ts ! r # ys) \<subseteq># mset ts" using ys(4) mset_swap_out [OF rl] by simp
  then show ?case using ys r gets sa st by (intro exI [of _ a'] exI [of _ g''] exI [of _ "ts ! r # ys"]) simp
qed

lemma round_ok:
  assumes "round_of_expectation rnd a b g = (w, g')" "b \<noteq> 0"
  shows "unat w = unat a div unat b \<or> unat w = unat a div unat b + 1 \<and> unat a mod unat b \<noteq> 0"
proof -
  obtain r g1 where r: "rnd g b = (r, g1)" by fastforce
  then have w: "w = a div b + of_bool (r < a mod b)" using assms by (simp add: round_of_expectation_def)
  show ?thesis
  proof (cases "r < a mod b")
    case True
    then have m: "a mod b \<noteq> 0" by (metis word_not_simps(1))
    then have m': "unat a mod unat b \<noteq> 0" by (metis unat_eq_zero unat_mod)
    then have "unat b \<noteq> 1" by auto
    then have "2 \<le> unat b" using assms(2) by (metis One_nat_def Suc_1 le_neq_implies_less less_Suc_eq_le not_less_eq_eq unat_eq_zero zero_less_iff_neq_zero less_2_cases_iff not_less)
    then have "unat a div unat b \<le> unat a div 2" by (rule div_le_mono2 [rotated]) simp
    moreover have "unat a < 2 ^ 64" using unsigned_less [of a, where ?'a = nat] by simp
    ultimately have "unat (a div b) + unat (1 :: u64) < 2 ^ LENGTH(64)" by (simp add: unat_div)
    then have "unat (a div b + 1) = unat (a div b) + unat (1 :: u64)" by (rule unat_add_bound)
    then show ?thesis using w True m' by (simp add: unat_div)
  next
    case False
    then show ?thesis using w by (simp add: unat_div)
  qed
qed

lemma merge_copy:
  assumes p: "pi_has p xs" and q: "pi_has q ys" "unat (pi_num_added q) = length ys" "ys \<noteq> []" and b: "unat (pi_num_added p) + unat (pi_num_added q) \<le> length (pi_samples p)"
    and f: "length xs = unat (pi_num_added p)"
  shows "\<exists>p'. merge rnd p q g = Inr (p', g) \<and> pi_has p' (xs @ ys) \<and> length (pi_samples p') = length (pi_samples p) \<and>
    pi_num_added p' = pi_num_added p + pi_num_added q \<and> pi_sorted p' = pi_sorted p"
proof -
  have l: "length xs + length ys \<le> length (pi_samples p)" using b f q(2) by simp
  obtain a where a: "arr_copy (pi_samples p) (length xs) (pi_samples q) (length ys) = Inr a" "holds a (xs @ ys)" "length a = length (pi_samples p)"
    using holds_copy [OF pi_hasD(4) [OF p] pi_hasD(4) [OF q(1)] l] by blast
  have n: "ucast (pi_num_samples q) = pi_num_added q" "ucast (pi_num_samples p) = pi_num_added p"
    using pi_hasD(1) [OF p] pi_hasD(1) [OF q(1)] f q(2) by (simp_all add: word_unat_eq_iff)
  have s: "unat (pi_num_samples p + pi_num_samples q) = length xs + length ys"
    using pi_hasD(1) [OF p] pi_hasD(1) [OF q(1)] pi_hasD(3) [OF p] l unat_add_bound [of "pi_num_samples p" "pi_num_samples q"] by simp
  have "unat (pi_num_added p + pi_num_added q) = unat (pi_num_added p) + unat (pi_num_added q)"
    using unat_add_bound [of "pi_num_added p" "pi_num_added q"] b pi_hasD(3) [OF p] by simp
  then have c: "ucast (pi_num_added p + pi_num_added q) \<le> SAMPLE_SIZE p" using b unat_size [OF pi_hasD(3) [OF p]] by (simp add: word_le_nat_alt)
  have z: "pi_num_added q \<noteq> 0" using q(2,3) by auto
  show ?thesis using a n c z s pi_hasD(1) [OF p] pi_hasD(1) [OF q(1)] pi_hasD(3) [OF p] by (auto simp: merge_def pi_has_def)
qed

lemma merge_draw:
  assumes p: "pi_has p xs" and q: "pi_has q ys" "unat (pi_num_added q) = length ys" "length ys \<le> length (pi_samples p)" "ys \<noteq> []"
    and b: "length (pi_samples p) < unat (pi_num_added p) + unat (pi_num_added q)" "unat (pi_num_added p) + unat (pi_num_added q) < 2 ^ 32"
    and f: "length xs = min (unat (pi_num_added p)) (length (pi_samples p))"
  shows "\<exists>p' g' xs' ys'. merge rnd p q g = Inr (p', g') \<and> pi_has p' (xs' @ ys') \<and> length (pi_samples p') = length (pi_samples p) \<and>
    pi_num_added p' = pi_num_added p + pi_num_added q \<and> mset xs' \<subseteq># mset xs \<and> mset ys' \<subseteq># mset ys \<and> length (xs' @ ys') = length (pi_samples p) \<and>
    length xs' * (unat (pi_num_added p) + unat (pi_num_added q)) < unat (pi_num_added p) * length (pi_samples p) + (unat (pi_num_added p) + unat (pi_num_added q)) \<and>
    unat (pi_num_added p) * length (pi_samples p) < length xs' * (unat (pi_num_added p) + unat (pi_num_added q)) + (unat (pi_num_added p) + unat (pi_num_added q))"
proof -
  let ?a = "unat (pi_num_added p)" and ?r = "unat (pi_num_added q)" and ?S = "length (pi_samples p)" and ?n = "pi_num_added p + pi_num_added q"
  note S = unat_size [OF pi_hasD(3) [OF p]] and S' = pi_hasD(3) [OF p]
  have n: "unat ?n = ?a + ?r" using unat_add_bound [of "pi_num_added p" "pi_num_added q"] b(2) by simp
  then have n0: "(ucast ?n :: u64) \<noteq> 0" using b(1) by (metis not_less_zero unat_0 unat_u32_u64)
  have big: "\<not> ucast ?n \<le> SAMPLE_SIZE p" using n S b(1) by (simp add: word_le_nat_alt)
  have z: "pi_num_added q \<noteq> 0" using q(2,4) by auto
  have nq: "ucast (pi_num_samples q) = pi_num_added q" using pi_hasD(1) [OF q(1)] q(2) by (simp add: word_unat_eq_iff)
  obtain w g1 where w: "round_of_expectation rnd (ucast (pi_num_added p) * SAMPLE_SIZE p) (ucast ?n) g = (w, g1)" by fastforce
  have "?a * ?S < 2 ^ 32 * 2 ^ 16" by (rule mult_strict_mono) (use b(2) S' in auto)
  then have "unat (ucast (pi_num_added p) * SAMPLE_SIZE p) = ?a * ?S" using S by (simp add: unat_word_ariths)
  then have "unat w = ?a * ?S div (?a + ?r) \<or> unat w = ?a * ?S div (?a + ?r) + 1 \<and> ?a * ?S mod (?a + ?r) \<noteq> 0" using round_ok [OF w n0] n by simp
  note sh = share_bounds [OF b(1) this]
  have wl: "unat w \<le> length xs" using sh(1,2) f by simp
  then have c1: "w \<le> ucast (pi_num_samples p)" using pi_hasD(1) [OF p] by (simp add: word_le_nat_alt)
  obtain a g2 xs' where d: "drop_samples rnd (length xs) (unat w) (pi_samples p) g1 = Inr (a, g2)" "holds a xs'" "length xs' = unat w" "mset xs' \<subseteq># mset xs" "length a = ?S"
    using drop_samples_ok [OF pi_hasD(4) [OF p] refl wl, of g1] pi_hasD(2,3) [OF p] by fastforce
  have k: "unat (SAMPLE_SIZE p - w) = ?S - unat w" using S sh(2) by (simp add: unat_sub word_le_nat_alt)
  then have c2: "SAMPLE_SIZE p - w \<le> ucast (pi_num_samples q)" using sh(3) q(2) pi_hasD(1) [OF q(1)] by (simp add: word_le_nat_alt)
  have "holds (take (length ys) (pi_samples q)) ys" using pi_hasD(4) [OF q(1)] by (simp add: holds_def)
  moreover have "?S - unat w \<le> length ys" "length ys < 2 ^ 16" using sh(3) q(2,3) S' by simp_all
  ultimately obtain a' g3 ys' where e: "pick_samples rnd (?S - unat w) (length ys) (length xs') (take (length ys) (pi_samples q)) a g2 = Inr (length xs' + (?S - unat w), a', g3)"
      "holds a' (xs' @ ys')" "length ys' = ?S - unat w" "mset ys' \<subseteq># mset ys" "length a' = ?S"
    using pick_samples_ok [of "take (length ys) (pi_samples q)" ys "length ys" "?S - unat w" a xs' g2] d sh(2) by auto
  have t: "length xs' + (?S - unat w) = ?S" using d(3) sh(2) by simp
  have u: "unat (of_nat ?S :: u16) = ?S" by (rule unat_of_nat_u16 [OF S'])
  then have c3: "ucast (of_nat ?S :: u16) = SAMPLE_SIZE p" using S by (simp add: word_unat_eq_iff)
  have "merge rnd p q g = Inr (p\<lparr>pi_samples := a', pi_num_samples := of_nat ?S, pi_num_added := ?n\<rparr>, g3)"
    using z nq big w c1 c2 c3 d(1,3) e(1) k t pi_hasD(1) [OF p] pi_hasD(1) [OF q(1)] by (simp add: merge_def)
  moreover have "pi_has (p\<lparr>pi_samples := a', pi_num_samples := of_nat ?S, pi_num_added := ?n\<rparr>) (xs' @ ys')" using e d(3) t u S' by (simp add: pi_has_def)
  ultimately show ?thesis using d(3,4) e(3-5) sh(2,4,5) by (intro exI conjI) (assumption | simp)+
qed

lemma keep_sample_ok:
  assumes p: "pi_has p xs" and S: "0 < length (pi_samples p)"
  shows "\<exists>p' g' ys. keep_sample rnd p x g = Inr (p', g') \<and> pi_has p' ys \<and> length ys = min (length xs + 1) (length (pi_samples p)) \<and>
    mset ys \<subseteq># add_mset x (mset xs) \<and> length (pi_samples p') = length (pi_samples p) \<and> pi_num_added p' = pi_num_added p \<and> pi_sorted p' = pi_sorted p"
proof (cases "length xs < length (pi_samples p)")
  case True
  then have c: "ucast (pi_num_samples p) < SAMPLE_SIZE p" using pi_hasD(1) [OF p] unat_size [OF pi_hasD(3) [OF p]] by (simp add: word_less_nat_alt)
  note st = holds_snoc [OF pi_hasD(4) [OF p] True, of x]
  have "unat (pi_num_samples p + 1) = length xs + 1"
    using unat_add_bound [of "pi_num_samples p" 1] pi_hasD(1,3) [OF p] True by simp
  then show ?thesis using c st True pi_hasD(1,3) [OF p]
    by (intro exI [of _ "p\<lparr>pi_samples := (pi_samples p)[length xs := Some x], pi_num_samples := pi_num_samples p + 1\<rparr>"] exI [of _ g] exI [of _ "xs @ [x]"])
      (simp add: keep_sample_def pi_has_def)
next
  case False
  then have l: "length xs = length (pi_samples p)" using pi_hasD(2) [OF p] by simp
  then have c: "\<not> ucast (pi_num_samples p) < SAMPLE_SIZE p" using pi_hasD(1) [OF p] unat_size [OF pi_hasD(3) [OF p]] by (simp add: word_less_nat_alt)
  obtain r g' where r: "rnd g (of_nat (length xs)) = (of_nat r, g')" "r < length xs" "unat (of_nat r :: u64) = r"
    using draw [of "length xs" g] l S pi_hasD(3) [OF p] by auto
  have n: "ucast (pi_num_samples p) = (of_nat (length xs) :: u64)" using pi_hasD(1) [OF p] by simp
  note st = holds_set [OF pi_hasD(4) [OF p] r(2), of x]
  have "mset (xs[r := x]) \<subseteq># add_mset x (mset xs)" using r(2) by (simp add: mset_update)
  moreover have "keep_sample rnd p x g = Inr (p\<lparr>pi_samples := (pi_samples p)[r := Some x]\<rparr>, g')" 
    unfolding keep_sample_def if_not_P [OF c] unfolding n using r st by simp
  ultimately show ?thesis using st l pi_hasD(1,3) [OF p]
    by (intro exI [of _ "p\<lparr>pi_samples := (pi_samples p)[r := Some x]\<rparr>"] exI [of _ g'] exI [of _ "xs[r := x]"]) (simp add: pi_has_def)
qed

lemma expectation_loop_ok:
  "pi_has p xs \<Longrightarrow> 0 < length (pi_samples p) \<Longrightarrow> holds (pi_samples q) (ts @ us) \<Longrightarrow> length ts = m \<Longrightarrow> k \<le> m \<Longrightarrow> m < 2 ^ 16 \<Longrightarrow>
     \<exists>p' b g' ys vs. expectation_loop rnd k m p q g = Inr (p', q\<lparr>pi_samples := b\<rparr>, g') \<and> pi_has p' ys \<and> length ys = min (length xs + k) (length (pi_samples p)) \<and>
       mset ys \<subseteq># mset xs + mset ts \<and> length (pi_samples p') = length (pi_samples p) \<and> pi_num_added p' = pi_num_added p \<and> pi_sorted p' = pi_sorted p \<and>
       holds b vs \<and> mset vs = mset (ts @ us) \<and> length b = length (pi_samples q)"
proof (induction k arbitrary: p xs q ts us m g)
  case 0
  have "q\<lparr>pi_samples := pi_samples q\<rparr> = q" by simp
  then show ?case using 0 pi_hasD(2) [OF 0(1)]
    by (intro exI [of _ p] exI [of _ "pi_samples q"] exI [of _ g] exI [of _ xs] exI [of _ "ts @ us"]) auto
next
  case (Suc k)
  obtain r g1 where r: "rnd g (of_nat m) = (of_nat r, g1)" "r < m" "unat (of_nat r :: u64) = r" using draw [of m g] Suc.prems(5,6) by auto
  have rl: "r < length ts" "ts \<noteq> []" using r(2) Suc.prems(4) by auto
  have gets: "arr_get (pi_samples q) r = Inr (ts ! r)" "arr_get (pi_samples q) (m - 1) = Inr (last ts)"
    using holds_get [OF Suc.prems(3), of r] holds_get [OF Suc.prems(3), of "m - 1"] rl Suc.prems(4) last_nth [of ts "m - 1"] by (auto simp: nth_append)
  obtain p1 g2 ys1 where p1: "keep_sample rnd p (ts ! r) g1 = Inr (p1, g2)" "pi_has p1 ys1" "length ys1 = min (length xs + 1) (length (pi_samples p))"
      "mset ys1 \<subseteq># add_mset (ts ! r) (mset xs)" "length (pi_samples p1) = length (pi_samples p)" "pi_num_added p1 = pi_num_added p" "pi_sorted p1 = pi_sorted p"
    using keep_sample_ok [OF Suc.prems(1,2)] by blast
  let ?b1 = "(pi_samples q)[r := Some (last ts)]" let ?b = "?b1[m - 1 := Some (ts ! r)]"
  have s1: "arr_set (pi_samples q) r (last ts) = Inr ?b1 \<and> holds ?b1 ((ts @ us)[r := last ts])"
    by (rule holds_set [OF Suc.prems(3)]) (use rl in simp)
  then have s2: "arr_set ?b1 (m - 1) (ts ! r) = Inr ?b \<and> holds ?b ((ts @ us)[r := last ts, m - 1 := ts ! r])"
    by (intro holds_set) (use rl Suc.prems(4) in auto)
  have "ts[r := last ts, m - 1 := ts ! r] = swap_out ts r @ [ts ! r]"
    using rl Suc.prems(4) by (auto simp: swap_out_def list_eq_iff_nth_eq nth_append nth_butlast nth_list_update)
  then have l: "(ts @ us)[r := last ts, m - 1 := ts ! r] = swap_out ts r @ ts ! r # us"
    using rl Suc.prems(4) by (simp add: list_update_append1)
  have "length (pi_samples p1) > 0" "k \<le> m - 1" "m - 1 < 2 ^ 16" "length (swap_out ts r) = m - 1" using p1(5) Suc.prems by auto
  moreover have "holds (pi_samples (q\<lparr>pi_samples := ?b\<rparr>)) (swap_out ts r @ ts ! r # us)" using s2 l by simp
  ultimately obtain p' b g' ys vs where e: "expectation_loop rnd k (m - 1) p1 (q\<lparr>pi_samples := ?b\<rparr>) g2 = Inr (p', q\<lparr>pi_samples := b\<rparr>, g')" "pi_has p' ys"
      "length ys = min (length ys1 + k) (length (pi_samples p1))" "mset ys \<subseteq># mset ys1 + mset (swap_out ts r)" "length (pi_samples p') = length (pi_samples p1)"
      "pi_num_added p' = pi_num_added p1" "holds b vs" "mset vs = mset (swap_out ts r @ ts ! r # us)" "length b = length (pi_samples q)" "pi_sorted p' = pi_sorted p1"
    using Suc.IH [OF p1(2), of "q\<lparr>pi_samples := ?b\<rparr>" "swap_out ts r" "ts ! r # us" "m - 1" g2] by auto
  have m: "mset ts = add_mset (ts ! r) (mset (swap_out ts r))" by (rule mset_swap_out [OF rl(1)])
  have "mset ys1 + mset (swap_out ts r) \<subseteq># mset xs + mset ts" using p1(4) m subset_mset.add_right_mono [OF p1(4), of "mset (swap_out ts r)"] by simp
  then have "mset ys \<subseteq># mset xs + mset ts" using e(4) subset_mset.order_trans by blast
  moreover have "mset vs = mset (ts @ us)" using e(8) m by simp
  moreover have "length ys = min (length xs + Suc k) (length (pi_samples p))" using e(3) p1(3,5) by simp
  moreover have "expectation_loop rnd (Suc k) m p q g = Inr (p', q\<lparr>pi_samples := b\<rparr>, g')" using r gets p1(1) s1 s2 e(1) by simp
  ultimately show ?case using e p1(5-7) by (intro exI [of _ p'] exI [of _ b] exI [of _ g'] exI [of _ ys] exI [of _ vs]) simp
qed

lemma merge_with_expectation_ok:
  assumes p: "pi_has p xs" "0 < length (pi_samples p)" and q: "pi_has q ys" and n: "unat n \<le> length ys"
  shows "\<exists>p' b g' zs vs. merge_with_expectation rnd p q n g = Inr (p', q\<lparr>pi_samples := b\<rparr>, g') \<and> pi_has p' zs \<and> length (pi_samples p') = length (pi_samples p) \<and>
    length zs = min (length xs + unat n) (length (pi_samples p)) \<and>
    mset zs \<subseteq># mset xs + mset ys \<and> pi_num_added p' = pi_num_added p + pi_num_added q \<and> pi_has (q\<lparr>pi_samples := b\<rparr>) vs \<and> mset vs = mset ys \<and>
    length b = length (pi_samples q) \<and>
    (length xs + length ys \<le> length (pi_samples p) \<and> unat n = length ys \<longrightarrow> zs = xs @ ys) \<and> pi_sorted p' = pi_sorted p"
proof -
  have c: "n \<le> ucast (pi_num_samples q)" using n pi_hasD(1) [OF q] by (simp add: word_le_nat_alt)
  let ?p = "p\<lparr>pi_num_added := pi_num_added p + pi_num_added q\<rparr>"
  have lq: "length ys < 2 ^ 16" using pi_hasD(2,3) [OF q] by simp
  have su: "unat (ucast (pi_num_samples p) + n) = length xs + unat n"
    using unat_add_bound [of "ucast (pi_num_samples p)" n] pi_hasD [OF p(1)] n lq by simp
  show ?thesis
  proof (cases "length xs + length ys \<le> length (pi_samples p) \<and> unat n = length ys")
    case True
    then have cc: "ucast (pi_num_samples p) + n \<le> SAMPLE_SIZE p \<and> n = ucast (pi_num_samples q)"
      using su unat_size [OF pi_hasD(3) [OF p(1)]] pi_hasD(1) [OF q] by (simp add: word_le_nat_alt word_unat_eq_iff)
    obtain a where a: "arr_copy (pi_samples p) (length xs) (pi_samples q) (length ys) = Inr a" "holds a (xs @ ys)" "length a = length (pi_samples p)"
      using holds_copy [OF pi_hasD(4) [OF p(1)] pi_hasD(4) [OF q]] True by blast
    have un: "unat (ucast n :: u16) = length ys" using True lq by (simp add: unsigned_ucast_eq take_bit_nat_eq_self)
    have "unat (pi_num_samples p + ucast n) = length xs + length ys"
      using unat_add_bound [of "pi_num_samples p" "ucast n"] un pi_hasD [OF p(1)] True by simp
    then have "pi_has (?p\<lparr>pi_samples := a, pi_num_samples := pi_num_samples p + ucast n\<rparr>) (xs @ ys)" using a pi_hasD(3) [OF p(1)] by (simp add: pi_has_def)
    moreover have "merge_with_expectation rnd p q n g = Inr (?p\<lparr>pi_samples := a, pi_num_samples := pi_num_samples p + ucast n\<rparr>, q, g)"
      unfolding merge_with_expectation_def Let_def if_P [OF cc] using c a(1) True pi_hasD(1) [OF p(1)] by simp
    ultimately show ?thesis using a True q
      by (intro exI [of _ "?p\<lparr>pi_samples := a, pi_num_samples := pi_num_samples p + ucast n\<rparr>"] exI [of _ "pi_samples q"] exI [of _ g] exI [of _ "xs @ ys"] exI [of _ ys]) simp
  next
    case False
    then have cc: "\<not> (ucast (pi_num_samples p) + n \<le> SAMPLE_SIZE p \<and> n = ucast (pi_num_samples q))"
      using su unat_size [OF pi_hasD(3) [OF p(1)]] pi_hasD(1) [OF q] by (auto simp: word_le_nat_alt)
    have "pi_has ?p xs" "0 < length (pi_samples ?p)" "holds (pi_samples q) (ys @ [])" using p pi_hasD(4) [OF q] by (simp_all add: pi_has_def)
    from expectation_loop_ok [OF this refl n lq, of g] obtain p' b g' zs vs where e:
        "expectation_loop rnd (unat n) (length ys) ?p q g = Inr (p', q\<lparr>pi_samples := b\<rparr>, g')" "pi_has p' zs" "length zs = min (length xs + unat n) (length (pi_samples p))"
        "mset zs \<subseteq># mset xs + mset ys" "length (pi_samples p') = length (pi_samples p)" "pi_num_added p' = pi_num_added p + pi_num_added q"
        "holds b vs" "mset vs = mset ys" "length b = length (pi_samples q)" "pi_sorted p' = pi_sorted p"
      by auto
    have "pi_has (q\<lparr>pi_samples := b\<rparr>) vs" using e(7-9) pi_hasD(1,3) [OF q] mset_eq_length [OF e(8)] by (simp add: pi_has_def)
    moreover have "merge_with_expectation rnd p q n g = Inr (p', q\<lparr>pi_samples := b\<rparr>, g')"
      unfolding merge_with_expectation_def Let_def if_not_P [OF cc] using c e(1) pi_hasD(1) [OF q] by simp
    ultimately show ?thesis using e(2-6,8-10) False by blast
  qed
qed

end

section \<open>Reading percentiles\<close>

lemma get_sample_at_ok:
  assumes p: "pi_has p xs" and so: "pi_sorted p \<longrightarrow> sorted xs"
  shows "\<exists>p' ys. get_sample_at p i = Inr (if xs = [] then 0 else sort xs ! min (unat i) (length xs - 1), p') \<and> pi_has p' ys \<and> mset ys = mset xs \<and>
    pi_num_added p' = pi_num_added p \<and> (pi_sorted p' \<longrightarrow> sorted ys)"
proof (cases "xs = []")
  case True
  then have "pi_num_samples p = 0" using pi_hasD(1) [OF p] by (simp add: word_unat_eq_iff)
  then show ?thesis using p so True by (auto simp: get_sample_at_def Let_def)
next
  case False
  let ?n = "ucast (pi_num_samples p) :: u64" let ?i = "if i \<ge> ?n then ?n - 1 else i"
  have n: "unat ?n = length xs" using pi_hasD(1) [OF p] by simp
  then have n0: "?n \<noteq> 0" using False by (metis length_0_conv unat_0)
  then have c: "\<not> (i \<ge> ?n \<and> ?n = 0)" by simp
  have i: "unat ?i = min (unat i) (length xs - 1)" using n n0 by (auto simp: word_le_nat_alt unat_minus_one)
  obtain a where a: "(if pi_sorted p then Inr p else res_bind (arr_sort (pi_samples p) (length xs)) (\<lambda>a. Inr (p\<lparr>pi_samples := a, pi_sorted := True\<rparr>))) =
      Inr (p\<lparr>pi_samples := a, pi_sorted := True\<rparr>)" "holds a (sort xs)" "length a = length (pi_samples p)"
  proof (cases "pi_sorted p")
    case True
    then have "p\<lparr>pi_samples := pi_samples p, pi_sorted := True\<rparr> = p" by simp
    moreover have "sort xs = xs" using so True by (simp add: sort_key_id_if_sorted)
    ultimately show thesis using that [of "pi_samples p"] True pi_hasD(4) [OF p] by simp
  next
    case False
    then show thesis using holds_sort [OF pi_hasD(4) [OF p]] that by auto
  qed
  let ?p = "p\<lparr>pi_samples := a, pi_sorted := True\<rparr>"
  have "min (unat i) (length xs - 1) < length (sort xs)" using False by (simp add: min_less_iff_disj)
  then have g: "arr_get a (unat ?i) = Inr (sort xs ! min (unat i) (length xs - 1))" unfolding i by (rule holds_get [OF a(2)])
  have "get_sample_at p i = Inr (sort xs ! min (unat i) (length xs - 1), ?p)"
    unfolding get_sample_at_def Let_def if_not_P [OF c] n a(1) using g by simp
  moreover have "pi_has ?p (sort xs)" using a pi_hasD(1,3) [OF p] by (simp add: pi_has_def)
  ultimately show ?thesis using False by (intro exI [of _ ?p] exI [of _ "sort xs"]) simp
qed

text \<open>What an interval, or a null pointer, holds and counts.\<close>

definition samples_of :: "interval option \<Rightarrow> u32 list" where
  "samples_of ip = (case ip of None \<Rightarrow> [] | Some p \<Rightarrow> map the (take (unat (pi_num_samples p)) (pi_samples p)))"

definition added_of :: "interval option \<Rightarrow> nat" where
  "added_of ip = (case ip of None \<Rightarrow> 0 | Some p \<Rightarrow> unat (pi_num_added p))"

definition interval_ok :: "nat \<Rightarrow> interval option \<Rightarrow> bool" where
  "interval_ok sz ip \<longleftrightarrow> (case ip of None \<Rightarrow> True | Some p \<Rightarrow> length (pi_samples p) = sz \<and> sz < 2 ^ 16 \<and> unat (pi_num_samples p) \<le> sz \<and>
     None \<notin> set (take (unat (pi_num_samples p)) (pi_samples p)))"

definition sorted_ok :: "interval option \<Rightarrow> bool" where
  "sorted_ok ip \<longleftrightarrow> (case ip of None \<Rightarrow> True | Some p \<Rightarrow> pi_sorted p \<longrightarrow> sorted (samples_of ip))"

lemma map_Some_the: "xs = map (Some \<circ> the) xs \<longleftrightarrow> None \<notin> set xs"
  by (induction xs) auto

lemma interval_ok_iff: "interval_ok sz (Some p) \<longleftrightarrow> pi_has p (samples_of (Some p)) \<and> length (pi_samples p) = sz"
proof -
  let ?n = "unat (pi_num_samples p)"
  have "holds (pi_samples p) (map the (take ?n (pi_samples p))) \<longleftrightarrow> None \<notin> set (take ?n (pi_samples p))" if "?n \<le> length (pi_samples p)"
  proof -
    have "length (map the (take ?n (pi_samples p))) = ?n" using that by simp
    then have "holds (pi_samples p) (map the (take ?n (pi_samples p))) \<longleftrightarrow> take ?n (pi_samples p) = map (Some \<circ> the) (take ?n (pi_samples p))"
      by (simp add: holds_def)
    also have "\<dots> \<longleftrightarrow> None \<notin> set (take ?n (pi_samples p))" by (rule map_Some_the)
    finally show ?thesis .
  qed
  moreover have "length (samples_of (Some p)) = ?n \<longleftrightarrow> ?n \<le> length (pi_samples p)" by (auto simp: samples_of_def min_def)
  ultimately show ?thesis unfolding interval_ok_def pi_has_def by (auto simp: samples_of_def)
qed

lemma pi_has_samples:
  assumes "pi_has p xs"
  shows "samples_of (Some p) = xs"
proof -
  have "take (unat (pi_num_samples p)) (pi_samples p) = map Some xs" using pi_hasD(1,4) [OF assms] by (simp add: holds_def)
  then show ?thesis by (simp add: samples_of_def comp_def)
qed

lemma pi_has_ok: "pi_has p xs \<Longrightarrow> length (pi_samples p) = sz \<Longrightarrow> interval_ok sz (Some p)"
  using pi_has_samples [of p xs] by (simp add: interval_ok_iff)

lemma samples_None [simp]: "samples_of None = []" "added_of None = 0" "added_of (Some p) = unat (pi_num_added p)"
  by (simp_all add: samples_of_def added_of_def)

text \<open>The sample that stands for the \<open>n\<close>-th smallest of what was added.\<close>

fun rank_sample :: "interval option list \<Rightarrow> nat \<Rightarrow> u32" where
  "rank_sample [] n = 0"
| "rank_sample (ip # ips) n =
     (if n \<le> added_of ip \<and> 0 < n then (if samples_of ip = [] then 0 else sort (samples_of ip) ! (n * length (samples_of ip) div added_of ip - 1))
      else rank_sample ips (n - added_of ip))"

lemma number_in_ok:
  "list_all (\<lambda>ip. interval_ok sz ip \<and> sorted_ok ip \<and> length (samples_of ip) \<le> added_of ip) ips \<Longrightarrow> 0 < unat n \<Longrightarrow> unat n \<le> sum_list (map added_of ips) \<Longrightarrow>
     \<exists>ips'. number_in ips n = Inr (rank_sample ips (unat n), ips')"
proof (induction ips n rule: number_in.induct)
  case (2 ips n)
  then obtain ips' where "number_in ips n = Inr (rank_sample ips (unat n), ips')" by auto
  then show ?case using 2(3) by simp
next
  case (3 p ips n)
  let ?a = "added_of (Some p)" and ?xs = "samples_of (Some p)"
  have p: "pi_has p ?xs" "pi_sorted p \<longrightarrow> sorted ?xs" "length ?xs \<le> ?a" using 3(2) by (simp_all add: interval_ok_iff sorted_ok_def)
  have ca: "unat (ucast (added_count p) :: u64) = ?a" by (simp add: added_count_def)
  show ?case
  proof (cases "unat n \<le> ?a")
    case True
    then have le: "n \<le> ucast (added_count p)" using ca by (simp add: word_le_nat_alt)
    have a0: "added_count p \<noteq> 0" using True 3(3) by (auto simp: added_count_def)
    let ?k = "n * ucast (sample_count p) div ucast (added_count p)"
    have sc: "unat (ucast (sample_count p) :: u64) = length ?xs" using pi_hasD(1) [OF p(1)] by (simp add: sample_count_def)
    have "?a < 2 ^ 32" using unsigned_less [of "pi_num_added p", where ?'a = nat] by simp
    moreover have "length ?xs < 2 ^ 16" using pi_hasD(2,3) [OF p(1)] by simp
    ultimately have "unat n * length ?xs < 2 ^ 32 * 2 ^ 16" by (intro mult_strict_mono) (use True in auto)
    then have k: "unat ?k = unat n * length ?xs div ?a" using sc ca by (simp add: unat_div unat_word_ariths)
    let ?i = "if ?k \<noteq> 0 then ?k - 1 else 0"
    have i: "unat ?i = unat n * length ?xs div ?a - 1" unfolding k [symmetric] by (simp add: unat_minus_one)
    have "unat n * length ?xs div ?a \<le> length ?xs"
      using div_le_mono [OF mult_le_mono1 [OF True, of "length ?xs"], of ?a] a0 by (simp add: added_count_def unat_eq_zero)
    then have m: "min (unat ?i) (length ?xs - 1) = unat n * length ?xs div ?a - 1" unfolding i by simp
    obtain p' where "get_sample_at p ?i = Inr (if ?xs = [] then 0 else sort ?xs ! (unat n * length ?xs div ?a - 1), p')"
      using get_sample_at_ok [OF p(1,2), of ?i] unfolding m by blast
    then show ?thesis using le a0 True 3(3) by (simp add: Let_def)
  next
    case False
    then have le: "\<not> n \<le> ucast (added_count p)" using ca by (simp add: word_le_nat_alt)
    then have n: "unat (n - ucast (added_count p)) = unat n - ?a" using ca by (simp add: unat_sub)
    have "0 < unat (n - ucast (added_count p))" "unat (n - ucast (added_count p)) \<le> sum_list (map added_of ips)" unfolding n using 3(4) False by simp_all
    then obtain ips' where "number_in ips (n - ucast (added_count p)) = Inr (rank_sample ips (unat (n - ucast (added_count p))), ips')"
      using 3(1) [OF le] 3(2) by auto
    then show ?thesis using le n False 3(3) by simp
  qed
qed simp

lemma rank_exact:
  "\<forall>ip \<in> set ips. length (samples_of ip) = added_of ip \<Longrightarrow> 0 < n \<Longrightarrow> n \<le> sum_list (map added_of ips) \<Longrightarrow>
     rank_sample ips n = concat (map (\<lambda>ip. sort (samples_of ip)) ips) ! (n - 1)"
proof (induction ips arbitrary: n)
  case (Cons ip ips)
  show ?case
  proof (cases "n \<le> added_of ip")
    case True
    then show ?thesis using Cons.prems by (auto simp: nth_append)
  next
    case False
    then have "rank_sample ips (n - added_of ip) = concat (map (\<lambda>ip. sort (samples_of ip)) ips) ! (n - added_of ip - 1)"
      using Cons by auto
    then show ?thesis using False Cons.prems(1) by (auto simp: nth_append)
  qed
qed simp

lemma sorted_concat_sort:
  "sorted_wrt (\<lambda>xs ys. \<forall>x \<in> set xs. \<forall>y \<in> set ys. x \<le> y) xss \<Longrightarrow> concat (map sort xss) = sort (concat (xss :: 'a :: linorder list list))"
proof (rule properties_for_sort [symmetric])
  show "mset (concat (map sort xss)) = mset (concat xss)" by (induction xss) simp_all
  show "sorted_wrt (\<lambda>xs ys. \<forall>x \<in> set xs. \<forall>y \<in> set ys. x \<le> y) xss \<Longrightarrow> sorted (concat (map sort xss))"
    by (induction xss) (auto simp: sorted_append)
qed

end
