(* ===== verification/PercentileWindow.thy ===== *)
theory PercentileWindow
  imports Percentile
begin

text \<open>
  What \<^verbatim>\<open>bvar/detail/percentile.h\<close> promises as a whole: merging the samples of a thread, combining the samples of several
  seconds into a window, and reading percentiles off the window.
\<close>

section \<open>One interval of all parts\<close>

definition part_list :: "nat \<Rightarrow> samples_group list \<Rightarrow> u32 list" where
  "part_list i parts = concat (map (\<lambda>part. samples_of (ps_intervals part ! i)) parts)"

definition part_total :: "nat \<Rightarrow> samples_group list \<Rightarrow> nat" where
  "part_total i parts = sum_list (map (\<lambda>part. added_of (ps_intervals part ! i)) parts)"

text \<open>An interval of a part keeps at most what was added to it, and something of it.\<close>

definition part_ok :: "nat \<Rightarrow> samples_group \<Rightarrow> bool" where
  "part_ok i part \<longleftrightarrow> i < length (ps_intervals part) \<and> interval_ok (ps_size part) (ps_intervals part ! i) \<and>
     length (samples_of (ps_intervals part ! i)) \<le> added_of (ps_intervals part ! i) \<and>
     (samples_of (ps_intervals part ! i) = [] \<longrightarrow> added_of (ps_intervals part ! i) = 0)"

definition same_but :: "nat \<Rightarrow> samples_group \<Rightarrow> samples_group \<Rightarrow> bool" where
  "same_but i s s' \<longleftrightarrow> ps_size s' = ps_size s \<and> ps_num_added s' = ps_num_added s \<and> length (ps_intervals s') = length (ps_intervals s) \<and>
     (\<forall>j. j \<noteq> i \<longrightarrow> ps_intervals s' ! j = ps_intervals s ! j)"

definition reordered :: "samples_group \<Rightarrow> samples_group \<Rightarrow> bool" where
  "reordered s s' \<longleftrightarrow> (\<forall>j. mset (samples_of (ps_intervals s' ! j)) = mset (samples_of (ps_intervals s ! j)) \<and>
     added_of (ps_intervals s' ! j) = added_of (ps_intervals s ! j))"

lemma same_but_refl [simp]: "same_but i s s" "reordered s s"
  by (simp_all add: same_but_def reordered_def)

lemma same_but_trans: "same_but i s s' \<Longrightarrow> same_but i s' s'' \<Longrightarrow> same_but i s s''"
  by (simp add: same_but_def)

lemma same_but_set: "same_but i s (set_interval s i p)"
  by (simp add: same_but_def set_interval_def)

lemma get_set_interval [simp]: "i < length (ps_intervals s) \<Longrightarrow> get_interval_at (set_interval s i p) i = p"
  by (simp add: get_interval_at_def set_interval_def)

lemma part_Cons [simp]: "part_list i (part # parts) = samples_of (ps_intervals part ! i) @ part_list i parts"
    "part_total i (part # parts) = added_of (ps_intervals part ! i) + part_total i parts" "part_list i [] = []" "part_total i [] = 0"
  by (simp_all add: part_list_def part_total_def)

lemma part_list_le: "list_all (part_ok i) parts \<Longrightarrow> length (part_list i parts) \<le> part_total i parts"
  by (induction parts) (auto simp: part_ok_def)

lemma unat_sum_added:
  "part_total i parts < 2 ^ 64 \<Longrightarrow> unat (sum_list (map (part_added i) parts)) = part_total i parts"
proof (induction parts)
  case (Cons part parts)
  have "unat (part_added i part) = added_of (ps_intervals part ! i)" by (simp add: part_added_def added_count_def split: option.splits)
  then show ?case using Cons unat_add_bound [of "part_added i part" "sum_list (map (part_added i) parts)"] by simp
qed simp

text \<open>The interval of the window that was combined from the parts.\<close>

definition combined :: "nat \<Rightarrow> samples_group list \<Rightarrow> nat \<Rightarrow> interval \<Rightarrow> bool" where
  "combined sz parts i p \<longleftrightarrow> pi_has p (samples_of (Some p)) \<and> length (pi_samples p) = sz \<and> unat (pi_num_added p) = part_total i parts \<and>
     mset (samples_of (Some p)) \<subseteq># mset (part_list i parts) \<and> (part_total i parts \<le> sz \<longrightarrow> samples_of (Some p) = part_list i parts) \<and> \<not> pi_sorted p"

definition clean :: "nat \<Rightarrow> interval \<Rightarrow> bool" where
  "clean sz p \<longleftrightarrow> length (pi_samples p) = sz \<and> pi_num_added p = 0 \<and> pi_num_samples p = 0 \<and> \<not> pi_sorted p"

lemma clean_has: "clean sz p \<Longrightarrow> sz < 2 ^ 16 \<Longrightarrow> pi_has p []"
  by (simp add: clean_def pi_has_def)

lemma clean_combined: "clean sz p \<Longrightarrow> sz < 2 ^ 16 \<Longrightarrow> part_total i parts = 0 \<Longrightarrow> list_all (part_ok i) parts \<Longrightarrow> combined sz parts i p"
  using part_list_le [of i parts] clean_has [of sz p] pi_has_samples [of p "[]"] by (simp add: combined_def clean_def)

lemma parts_same:
  assumes "list_all2 (\<lambda>a b. same_but i a b \<and> reordered a b) parts parts'" "j \<noteq> i"
  shows "part_list j parts' = part_list j parts" "part_total j parts' = part_total j parts" "list_all (part_ok j) parts \<Longrightarrow> list_all (part_ok j) parts'"
  using assms by (induction rule: list_all2_induct) (auto simp: same_but_def part_ok_def)

context rand_below
begin

lemma combine_part:
  assumes i: "i < length (ps_intervals s)" and p: "pi_has (get_interval_at s i) xs" "length (pi_samples (get_interval_at s i)) = ps_size s" "0 < ps_size s"
    and q: "part_ok i part" "ps_intervals part ! i = Some q" "samples_of (Some q) \<noteq> []" and n: "unat n \<le> length (samples_of (Some q))"
    and b: "unat (pi_num_added (get_interval_at s i)) + unat (pi_num_added q) < 2 ^ 32"
  shows "\<exists>p' q' g' zs. merge_with_expectation rnd (get_interval_at s i) q n g = Inr (p', q', g') \<and> pi_has p' zs \<and> length (pi_samples p') = ps_size s \<and>
    unat (pi_num_added p') = unat (pi_num_added (get_interval_at s i)) + unat (pi_num_added q) \<and> mset zs \<subseteq># mset xs + mset (samples_of (Some q)) \<and>
    (length xs + length (samples_of (Some q)) \<le> ps_size s \<and> unat n = length (samples_of (Some q)) \<longrightarrow> zs = xs @ samples_of (Some q)) \<and>
    length zs = min (length xs + unat n) (ps_size s) \<and> pi_sorted p' = pi_sorted (get_interval_at s i) \<and>
    reordered part (set_interval part i q')"
proof -
  have q1: "pi_has q (samples_of (Some q))" "i < length (ps_intervals part)" using q by (simp_all add: part_ok_def interval_ok_iff)
  have "0 < length (pi_samples (get_interval_at s i))" using p by simp
  from merge_with_expectation_ok [OF p(1) this q1(1) n, of g] obtain p' b' g' zs vs where e:
      "merge_with_expectation rnd (get_interval_at s i) q n g = Inr (p', q\<lparr>pi_samples := b'\<rparr>, g')" "pi_has p' zs" "length (pi_samples p') = ps_size s"
      "length zs = min (length xs + unat n) (ps_size s)" "mset zs \<subseteq># mset xs + mset (samples_of (Some q))"
      "pi_num_added p' = pi_num_added (get_interval_at s i) + pi_num_added q" "pi_has (q\<lparr>pi_samples := b'\<rparr>) vs" "mset vs = mset (samples_of (Some q))"
      "length xs + length (samples_of (Some q)) \<le> ps_size s \<and> unat n = length (samples_of (Some q)) \<longrightarrow> zs = xs @ samples_of (Some q)"
      "pi_sorted p' = pi_sorted (get_interval_at s i)"
    unfolding p(2) by blast
  have "unat (pi_num_added p') = unat (pi_num_added (get_interval_at s i)) + unat (pi_num_added q)"
    unfolding e(6) by (rule unat_add_bound) (use b in simp)
  moreover have "reordered part (set_interval part i (q\<lparr>pi_samples := b'\<rparr>))"
    using q(2) q1(2) pi_has_samples [OF e(7)] e(8) by (auto simp: reordered_def set_interval_def nth_list_update)
  ultimately show ?thesis using e by blast
qed

lemma combine_parts_ok:
  "i < length (ps_intervals s) \<Longrightarrow> pi_has (get_interval_at s i) xs \<Longrightarrow> length (pi_samples (get_interval_at s i)) = ps_size s \<Longrightarrow> 0 < ps_size s \<Longrightarrow>
   ps_size s < 2 ^ 16 \<Longrightarrow>
   list_all (part_ok i) parts \<Longrightarrow> unat (pi_num_added (get_interval_at s i)) + part_total i parts < 2 ^ 32 \<Longrightarrow>
   \<exists>s' parts' g' zs. combine_parts rnd i T parts s g = Inr (s', parts', g') \<and> pi_has (get_interval_at s' i) zs \<and>
     length (pi_samples (get_interval_at s' i)) = ps_size s \<and>
     unat (pi_num_added (get_interval_at s' i)) = unat (pi_num_added (get_interval_at s i)) + part_total i parts \<and>
     mset zs \<subseteq># mset xs + mset (part_list i parts) \<and>
     (unat T \<le> ps_size s \<and> length xs + length (part_list i parts) \<le> ps_size s \<longrightarrow> zs = xs @ part_list i parts) \<and>
     pi_sorted (get_interval_at s' i) = pi_sorted (get_interval_at s i) \<and> same_but i s s' \<and> list_all2 (\<lambda>a b. same_but i a b \<and> reordered a b) parts parts'"
proof (induction parts arbitrary: s xs g)
  case Nil
  then show ?case by auto
next
  case (Cons part parts)
  let ?ip = "ps_intervals part ! i"
  have ok: "part_ok i part" "list_all (part_ok i) parts" using Cons.prems(6) by simp_all
  show ?case
  proof (cases "samples_of ?ip = []")
    case True
    then have a0: "added_of ?ip = 0" using ok(1) by (simp add: part_ok_def)
    have em: "empty q" if "?ip = Some q" for q
      using that True ok(1) pi_hasD(1) [of q "samples_of (Some q)"] by (simp add: empty_def part_ok_def interval_ok_iff word_unat_eq_iff)
    have "unat (pi_num_added (get_interval_at s i)) + part_total i parts < 2 ^ 32" using Cons.prems(7) a0 by simp
    from Cons.IH [OF Cons.prems(1-5) ok(2) this, of g] obtain s' parts' g' zs where e: "combine_parts rnd i T parts s g = Inr (s', parts', g')"
      "pi_has (get_interval_at s' i) zs \<and> length (pi_samples (get_interval_at s' i)) = ps_size s \<and>
     unat (pi_num_added (get_interval_at s' i)) = unat (pi_num_added (get_interval_at s i)) + part_total i parts \<and>
     mset zs \<subseteq># mset xs + mset (part_list i parts) \<and>
     (unat T \<le> ps_size s \<and> length xs + length (part_list i parts) \<le> ps_size s \<longrightarrow> zs = xs @ part_list i parts) \<and>
     pi_sorted (get_interval_at s' i) = pi_sorted (get_interval_at s i) \<and> same_but i s s'" "list_all2 (\<lambda>a b. same_but i a b \<and> reordered a b) parts parts'"
      by (elim exE conjE) blast
    have c: "combine_parts rnd i T (part # parts) s g = Inr (s', part # parts', g')" using e(1) em by (auto simp: Let_def split: option.splits)
    show ?thesis by (rule exI [of _ s'], rule exI [of _ "part # parts'"], rule exI [of _ g'], rule exI [of _ zs]) (use c e True a0 in simp)
  next
    case False
    then obtain q where q: "?ip = Some q" by (cases ?ip) auto
    have hq: "pi_has q (samples_of (Some q))" "length (samples_of (Some q)) < 2 ^ 16" using ok(1) q pi_hasD(2,3) [of q "samples_of (Some q)"] by (auto simp: part_ok_def interval_ok_iff)
    have sc: "unat (ucast (sample_count q) :: u64) = length (samples_of (Some q))" using pi_hasD(1) [OF hq(1)] by (simp add: sample_count_def)
    have ne: "\<not> empty q" using False q pi_hasD(1) [OF hq(1)] by (auto simp: empty_def)
    obtain n g1 where n: "(if T \<le> of_nat (ps_size s) then (ucast (sample_count q), g)
         else let (e, g0) = round_of_expectation rnd (ucast (added_count q) * of_nat (ps_size s)) T g in (min e (ucast (sample_count q)), g0)) = (n, g1)"
      by (metis surj_pair)
    have nl: "unat n \<le> length (samples_of (Some q))" "T \<le> of_nat (ps_size s) \<Longrightarrow> unat n = length (samples_of (Some q))"
      using n sc by (auto simp: min_def word_le_nat_alt split: if_splits prod.splits)
    have T: "unat T \<le> ps_size s \<Longrightarrow> T \<le> of_nat (ps_size s)" using Cons.prems(5) by (simp add: word_le_nat_alt unat_of_nat take_bit_nat_eq_self)
    have b: "unat (pi_num_added (get_interval_at s i)) + unat (pi_num_added q) < 2 ^ 32" using Cons.prems(7) q by simp
    from combine_part [OF Cons.prems(1-4) ok(1) q _ nl(1) b, of g1] False q obtain p' q' g2 zs where e:
        "merge_with_expectation rnd (get_interval_at s i) q n g1 = Inr (p', q', g2)" "pi_has p' zs" "length (pi_samples p') = ps_size s"
        "unat (pi_num_added p') = unat (pi_num_added (get_interval_at s i)) + unat (pi_num_added q)" "mset zs \<subseteq># mset xs + mset (samples_of (Some q))"
        "length xs + length (samples_of (Some q)) \<le> ps_size s \<and> unat n = length (samples_of (Some q)) \<longrightarrow> zs = xs @ samples_of (Some q)"
        "pi_sorted p' = pi_sorted (get_interval_at s i)" "reordered part (set_interval part i q')"
      by auto
    let ?s = "set_interval s i p'"
    have s: "i < length (ps_intervals ?s)" "get_interval_at ?s i = p'" "ps_size ?s = ps_size s" using Cons.prems(1) by (simp_all add: set_interval_def get_interval_at_def)
    have "unat (pi_num_added (get_interval_at ?s i)) + part_total i parts < 2 ^ 32" using Cons.prems(7) e(4) q s(2) by simp
    from Cons.IH [of ?s zs, OF s(1) _ _ _ _ ok(2) this, of g2] s e(2,3) Cons.prems(4,5) obtain s' parts' g' zs' where f:
        "combine_parts rnd i T parts ?s g2 = Inr (s', parts', g')" "pi_has (get_interval_at s' i) zs'" "length (pi_samples (get_interval_at s' i)) = ps_size s"
        "unat (pi_num_added (get_interval_at s' i)) = unat (pi_num_added p') + part_total i parts" "mset zs' \<subseteq># mset zs + mset (part_list i parts)"
        "unat T \<le> ps_size s \<and> length zs + length (part_list i parts) \<le> ps_size s \<longrightarrow> zs' = zs @ part_list i parts"
        "pi_sorted (get_interval_at s' i) = pi_sorted p'" "same_but i ?s s'" "list_all2 (\<lambda>a b. same_but i a b \<and> reordered a b) parts parts'"
      by auto
    have c: "combine_parts rnd i T (part # parts) s g = Inr (s', set_interval part i q' # parts', g')"
      using q ne n e(1) f(1) by (simp add: Let_def split_beta split: if_splits)
    have m: "mset zs' \<subseteq># mset xs + mset (part_list i (part # parts))"
      using subset_mset.order_trans [OF f(5) subset_mset.add_right_mono [OF e(5)]] q by (simp add: ac_simps)
    have k: "zs' = xs @ part_list i (part # parts)" if "unat T \<le> ps_size s \<and> length xs + length (part_list i (part # parts)) \<le> ps_size s"
      using that e(6) f(6) nl(2) T q by auto
    have sb: "same_but i s s'" by (rule same_but_trans [OF same_but_set f(8)])
    show ?thesis
      by (rule exI [of _ s'], rule exI [of _ "set_interval part i q' # parts'"], rule exI [of _ g'], rule exI [of _ zs'])
        (use c f(2-4,7,9) e(4,7,8) m k sb q same_but_set [of i part q'] in auto)
  qed
qed

lemma combine_loop_ok:
  "distinct is \<Longrightarrow> \<forall>i \<in> set is. i < length (ps_intervals s) \<and> clean (ps_size s) (get_interval_at s i) \<and> list_all (part_ok i) parts \<and> part_total i parts < 2 ^ 32 \<Longrightarrow>
   0 < ps_size s \<Longrightarrow> ps_size s < 2 ^ 16 \<Longrightarrow>
   \<exists>s' parts' g'. combine_loop rnd is parts s g = Inr (s', parts', g') \<and> (\<forall>i \<in> set is. combined (ps_size s) parts i (get_interval_at s' i)) \<and>
     (\<forall>j. j \<notin> set is \<longrightarrow> ps_intervals s' ! j = ps_intervals s ! j) \<and> ps_size s' = ps_size s \<and> ps_num_added s' = ps_num_added s \<and>
     length (ps_intervals s') = length (ps_intervals s) \<and> list_all2 reordered parts parts'"
proof (induction "is" arbitrary: parts s g)
  case Nil
  then show ?case by (auto simp: list.rel_refl)
next
  case (Cons i js)
  have i: "i < length (ps_intervals s)" "clean (ps_size s) (get_interval_at s i)" "list_all (part_ok i) parts" "part_total i parts < 2 ^ 32" "i \<notin> set js" "distinct js"
    using Cons.prems(1,2) by auto
  define T where "T = sum_list (map (part_added i) parts)"
  have T: "unat T = part_total i parts" unfolding T_def by (rule unat_sum_added) (use i(4) in simp)
  have "\<exists>s1 parts1 g1. (if T = 0 then Inr (s, parts, g) else combine_parts rnd i T parts s g) = Inr (s1, parts1, g1) \<and>
      combined (ps_size s) parts i (get_interval_at s1 i) \<and> same_but i s s1 \<and> list_all2 (\<lambda>a b. same_but i a b \<and> reordered a b) parts parts1"
  proof (cases "T = 0")
    case True
    then have "part_total i parts = 0" using T by simp
    then show ?thesis using True clean_combined [OF i(2) Cons.prems(4) _ i(3)] by (simp add: list.rel_refl)
  next
    case False
    have c: "length (pi_samples (get_interval_at s i)) = ps_size s" "pi_num_added (get_interval_at s i) = 0" "\<not> pi_sorted (get_interval_at s i)" using i(2) by (simp_all add: clean_def)
    have "unat (pi_num_added (get_interval_at s i)) + part_total i parts < 2 ^ 32" using c(2) i(4) by simp
    from combine_parts_ok [OF i(1) clean_has [OF i(2) Cons.prems(4)] c(1) Cons.prems(3,4) i(3) this, of T g] obtain s1 parts1 g1 zs where e:
        "combine_parts rnd i T parts s g = Inr (s1, parts1, g1)" "pi_has (get_interval_at s1 i) zs" "length (pi_samples (get_interval_at s1 i)) = ps_size s"
        "unat (pi_num_added (get_interval_at s1 i)) = part_total i parts" "mset zs \<subseteq># mset (part_list i parts)"
        "unat T \<le> ps_size s \<and> length (part_list i parts) \<le> ps_size s \<longrightarrow> zs = part_list i parts"
        "\<not> pi_sorted (get_interval_at s1 i)" "same_but i s s1" "list_all2 (\<lambda>a b. same_but i a b \<and> reordered a b) parts parts1"
      using c by auto
    have "combined (ps_size s) parts i (get_interval_at s1 i)"
      using e(2-7) T part_list_le [OF i(3)] pi_has_samples [OF e(2)] by (auto simp: combined_def)
    then show ?thesis using e(1,8,9) False by auto
  qed
  then obtain s1 parts1 g1 where e: "(if T = 0 then Inr (s, parts, g) else combine_parts rnd i T parts s g) = Inr (s1, parts1, g1)"
      "combined (ps_size s) parts i (get_interval_at s1 i)" "same_but i s s1" "list_all2 (\<lambda>a b. same_but i a b \<and> reordered a b) parts parts1"
    by blast
  note ps = parts_same [OF e(4)]
  have s1: "ps_size s1 = ps_size s" "ps_num_added s1 = ps_num_added s" "length (ps_intervals s1) = length (ps_intervals s)" "\<And>j. j \<noteq> i \<Longrightarrow> ps_intervals s1 ! j = ps_intervals s ! j"
    using e(3) by (simp_all add: same_but_def)
  have g: "get_interval_at s1 j = get_interval_at s j" if "j \<noteq> i" for j using s1(1) s1(4) [OF that] by (simp add: get_interval_at_def split: option.splits)
  have "j < length (ps_intervals s1) \<and> clean (ps_size s1) (get_interval_at s1 j) \<and> list_all (part_ok j) parts1 \<and> part_total j parts1 < 2 ^ 32" if "j \<in> set js" for j
  proof -
    have "j \<noteq> i" using that i(5) by auto
    then show ?thesis using that Cons.prems(2) s1(1,3) g [of j] ps [of j] by simp
  qed
  then obtain s' parts' g' where f: "combine_loop rnd js parts1 s1 g1 = Inr (s', parts', g')" "\<forall>j \<in> set js. combined (ps_size s1) parts1 j (get_interval_at s' j)"
      "\<forall>j. j \<notin> set js \<longrightarrow> ps_intervals s' ! j = ps_intervals s1 ! j" "ps_size s' = ps_size s1" "ps_num_added s' = ps_num_added s1"
      "length (ps_intervals s') = length (ps_intervals s1)" "list_all2 reordered parts1 parts'"
    using Cons.IH [OF i(6), of s1 parts1 g1] Cons.prems(3,4) s1(1) by metis
  have c: "combine_loop rnd (i # js) parts s g = Inr (s', parts', g')" using e(1) f(1) by (cases "T = 0") (simp_all add: T_def Let_def)
  have "combined (ps_size s) parts j (get_interval_at s' j)" if "j \<in> set (i # js)" for j
  proof (cases "j = i")
    case True
    have "get_interval_at s' i = get_interval_at s1 i" using f(3,4) i(5) by (simp add: get_interval_at_def split: option.splits)
    then show ?thesis using True e(2) by simp
  next
    case False
    then have "combined (ps_size s) parts1 j (get_interval_at s' j)" using that f(2) s1(1) by simp
    then show ?thesis using ps(1,2) [OF False] by (simp add: combined_def)
  qed
  moreover have "list_all2 reordered parts parts'"
  proof (rule list_all2_trans [OF _ _ f(7)])
    show "list_all2 reordered parts parts1" by (rule list_all2_mono [OF e(4)]) blast
  qed (simp add: reordered_def)
  ultimately show ?case using c f(3-6) s1 by auto
qed

end

text \<open>A group that can be combined into, and the parts.\<close>

definition window_ok :: "samples_group \<Rightarrow> bool" where
  "window_ok s \<longleftrightarrow> length (ps_intervals s) = NUM_INTERVALS \<and> 0 < ps_size s \<and> ps_size s < 2 ^ 16 \<and>
     list_all (\<lambda>ip. case ip of None \<Rightarrow> True | Some p \<Rightarrow> length (pi_samples p) = ps_size s \<and> (ps_num_added s = 0 \<longrightarrow> clean (ps_size s) p)) (ps_intervals s)"

definition parts_ok :: "samples_group list \<Rightarrow> bool" where
  "parts_ok parts \<longleftrightarrow> list_all (\<lambda>part. list_all (\<lambda>i. part_ok i part) [0..<NUM_INTERVALS] \<and>
       unat (ps_num_added part) = sum_list (map (\<lambda>i. added_of (ps_intervals part ! i)) [0..<NUM_INTERVALS])) parts \<and>
     sum_list (map (\<lambda>part. unat (ps_num_added part)) parts) < 2 ^ 32"

text \<open>Everything that the parts keep, in the order of the intervals.\<close>

definition kept :: "samples_group list \<Rightarrow> u32 list list" where
  "kept parts = map (\<lambda>i. part_list i parts) [0..<NUM_INTERVALS]"

lemma sum_list_swap: "sum_list (map (\<lambda>x. sum_list (map (f x) ys)) xs) = sum_list (map (\<lambda>y. sum_list (map (\<lambda>x. f x y) xs)) ys)" for f :: "'a \<Rightarrow> 'b \<Rightarrow> nat"
  by (induction xs) (simp_all add: sum_list_addf)

lemma parts_total:
  assumes "parts_ok parts"
  shows "sum_list (map (\<lambda>i. part_total i parts) [0..<NUM_INTERVALS]) = sum_list (map (\<lambda>part. unat (ps_num_added part)) parts)"
proof -
  have "map (\<lambda>part. unat (ps_num_added part)) parts = map (\<lambda>part. sum_list (map (\<lambda>i. added_of (ps_intervals part ! i)) [0..<NUM_INTERVALS])) parts"
    (is "?l = ?r") using assms by (auto simp: parts_ok_def list_all_iff)
  then have "sum_list ?l = sum_list ?r" by (rule arg_cong)
  moreover have "sum_list (map (\<lambda>i. part_total i parts) [0..<NUM_INTERVALS]) =
      sum_list (map (\<lambda>part. sum_list (map (\<lambda>i. added_of (ps_intervals part ! i)) [0..<NUM_INTERVALS])) parts)"
    unfolding part_total_def by (rule sum_list_swap)
  ultimately show ?thesis by (simp only:)
qed

lemma unat_sum_list: "sum_list (map unat ws) < 2 ^ 64 \<Longrightarrow> unat (sum_list (ws :: u64 list)) = sum_list (map unat ws)"
  using unat_add_bound [where ?'a = 64] by (induction ws) auto

lemma window_clean:
  assumes "window_ok s" "i < NUM_INTERVALS"
  shows "clean (ps_size s) (get_interval_at (if ps_num_added s \<noteq> 0 then s\<lparr>ps_intervals := map (map_option clear) (ps_intervals s), ps_num_added := 0\<rparr> else s) i)"
proof -
  have i: "i < length (ps_intervals s)" using assms by (simp add: window_ok_def)
  have "case ps_intervals s ! i of None \<Rightarrow> True | Some p \<Rightarrow> length (pi_samples p) = ps_size s \<and> (ps_num_added s = 0 \<longrightarrow> clean (ps_size s) p)"
    using assms i by (simp add: window_ok_def list_all_length)
  then show ?thesis using i by (auto simp: get_interval_at_def clean_def clear_def PercentileInterval_def split: option.splits)
qed

lemma combine_of_ok:
  assumes "rand_below rnd" "window_ok s" "parts_ok parts"
  shows "\<exists>s' parts' g'. combine_of rnd parts s g = Inr (s', parts', g') \<and> list_all2 reordered parts parts' \<and>
    unat (ps_num_added s') = sum_list (map (\<lambda>part. unat (ps_num_added part)) parts) \<and> ps_size s' = ps_size s \<and> length (ps_intervals s') = NUM_INTERVALS \<and>
    (\<forall>i < NUM_INTERVALS. combined (ps_size s) parts i (get_interval_at s' i))"
proof -
  define s0 where "s0 = (if ps_num_added s \<noteq> 0 then s\<lparr>ps_intervals := map (map_option clear) (ps_intervals s), ps_num_added := 0\<rparr> else s)"
  let ?n = "ps_num_added s0 + sum_list (map ps_num_added parts)"
  let ?s = "s0\<lparr>ps_num_added := ?n\<rparr>"
  have s0: "ps_size s0 = ps_size s" "length (ps_intervals s0) = NUM_INTERVALS" "ps_num_added s0 = 0" using assms(2) by (simp_all add: s0_def window_ok_def)
  have cl: "clean (ps_size s) (get_interval_at ?s i)" if "i < NUM_INTERVALS" for i
    using window_clean [OF assms(2) that] unfolding s0_def [symmetric] by (simp add: get_interval_at_def split: option.splits)
  have ok: "list_all (part_ok i) parts" if "i < NUM_INTERVALS" for i using assms(3) that by (simp add: parts_ok_def list_all_iff)
  have tot: "part_total i parts < 2 ^ 32" if "i < NUM_INTERVALS" for i
  proof -
    have "part_total i parts \<le> sum_list (map (\<lambda>i. part_total i parts) [0..<NUM_INTERVALS])" by (rule member_le_sum_list) (use that in auto)
    also have "\<dots> < 2 ^ 32" unfolding parts_total [OF assms(3)] using assms(3) by (simp add: parts_ok_def)
    finally show ?thesis .
  qed
  have pre: "\<forall>i \<in> set [0..<NUM_INTERVALS]. i < length (ps_intervals ?s) \<and> clean (ps_size ?s) (get_interval_at ?s i) \<and> list_all (part_ok i) parts \<and> part_total i parts < 2 ^ 32"
    using s0 cl ok tot by simp
  have sz: "0 < ps_size ?s" "ps_size ?s < 2 ^ 16" using assms(2) s0(1) by (simp_all add: window_ok_def)
  obtain s' parts' g' where r: "combine_loop rnd [0..<NUM_INTERVALS] parts ?s g = Inr (s', parts', g')"
      "\<forall>i \<in> set [0..<NUM_INTERVALS]. combined (ps_size ?s) parts i (get_interval_at s' i)" "ps_size s' = ps_size ?s" "ps_num_added s' = ps_num_added ?s"
      "length (ps_intervals s') = length (ps_intervals ?s)" "list_all2 reordered parts parts'"
    using rand_below.combine_loop_ok [OF assms(1) distinct_upt pre sz, of g] by blast
  have "sum_list (map unat (map ps_num_added parts)) < 2 ^ 64" using assms(3) by (simp add: parts_ok_def comp_def)
  then have n: "unat (ps_num_added s') = sum_list (map (\<lambda>part. unat (ps_num_added part)) parts)"
    using r(4) s0(3) unat_sum_list [of "map ps_num_added parts"] by (simp add: comp_def)
  have "combine_of rnd parts s g = Inr (s', parts', g')" using r(1) by (simp add: combine_of_def s0_def Let_def)
  then show ?thesis using r(2,3,5,6) n s0 by auto
qed

lemma combined_parts_of: "combined sz parts i p \<Longrightarrow> part_total i parts \<le> sz \<Longrightarrow> samples_of (Some p) = part_list i parts"
  by (simp add: combined_def)

lemma combined_interval:
  assumes "combined sz parts i (get_interval_at s' i)" "ps_size s' = sz" "length (part_list i parts) = part_total i parts" "part_total i parts \<le> sz"
  shows "interval_ok sz (ps_intervals s' ! i) \<and> sorted_ok (ps_intervals s' ! i) \<and> samples_of (ps_intervals s' ! i) = part_list i parts \<and>
    added_of (ps_intervals s' ! i) = part_total i parts"
proof (cases "ps_intervals s' ! i")
  case None
  then have "get_interval_at s' i = PercentileInterval sz" using assms(2) by (simp add: get_interval_at_def)
  then have "part_total i parts = 0" using assms(1) by (simp add: combined_def PercentileInterval_def)
  then show ?thesis using None assms(3) by (simp add: interval_ok_def sorted_ok_def)
next
  case (Some p)
  then have c: "combined sz parts i p" using assms(1) by (simp add: get_interval_at_def)
  have "samples_of (Some p) = part_list i parts" by (rule combined_parts_of [OF c assms(4)])
  moreover have "interval_ok sz (Some p)" "unat (pi_num_added p) = part_total i parts" "\<not> pi_sorted p"
    using c pi_has_ok [of p "samples_of (Some p)"] unfolding combined_def by blast+
  ultimately show ?thesis using Some by (simp add: sorted_ok_def)
qed

lemma merge_ok:
  assumes "rand_below rnd" "interval_ok sz (Some p)" "interval_ok sz2 (Some q)" "sz2 \<le> sz"
    and "unat (pi_num_added p) + unat (pi_num_added q) < 2 ^ 32"
    and "length (samples_of (Some p)) = min (unat (pi_num_added p)) sz" "length (samples_of (Some q)) = unat (pi_num_added q)"
  shows "\<exists>p' g' xs ys. merge rnd p q g = Inr (p', g') \<and> interval_ok sz (Some p') \<and> unat (pi_num_added p') = unat (pi_num_added p) + unat (pi_num_added q) \<and>
    length (samples_of (Some p')) = min (unat (pi_num_added p')) sz \<and> samples_of (Some p') = xs @ ys \<and>
    mset xs \<subseteq># mset (samples_of (Some p)) \<and> mset ys \<subseteq># mset (samples_of (Some q)) \<and>
    (if unat (pi_num_added p') \<le> sz then xs = samples_of (Some p) \<and> ys = samples_of (Some q)
     else \<bar>int (length xs) * int (unat (pi_num_added p')) - int (unat (pi_num_added p)) * int sz\<bar> < int (unat (pi_num_added p')))"
proof -
  let ?xs = "samples_of (Some p)" and ?ys = "samples_of (Some q)" and ?a = "unat (pi_num_added p)" and ?r = "unat (pi_num_added q)"
  have p: "pi_has p ?xs" "length (pi_samples p) = sz" and q: "pi_has q ?ys" "length (pi_samples q) = sz2" using assms(2,3) by (simp_all add: interval_ok_iff)
  have lq: "length ?ys \<le> sz" using pi_hasD(2) [OF q(1)] q(2) assms(4) by simp
  have add: "unat (pi_num_added p + pi_num_added q) = ?a + ?r" by (rule unat_add_bound) (use assms(5) in simp)
  consider (none) "?ys = []" | (fit) "?ys \<noteq> []" "?a + ?r \<le> sz" | (draw) "?ys \<noteq> []" "sz < ?a + ?r" by linarith
  then show ?thesis
  proof cases
    case none
    then have "pi_num_added q = 0" using assms(7) by (simp add: unat_eq_zero)
    then have m: "merge rnd p q g = Inr (p, g)" "?r = 0" by (simp_all add: merge_def)
    have b: "\<bar>int (length ?xs) * int ?a - int ?a * int sz\<bar> < int ?a" if "\<not> ?a \<le> sz"
    proof -
      have "length ?xs = sz" "0 < ?a" using assms(6) that by simp_all
      then show ?thesis by (simp only: mult.commute [of "int sz"] diff_self abs_zero of_nat_0_less_iff)
    qed
    show ?thesis
      by (rule exI [of _ p], rule exI [of _ g], rule exI [of _ ?xs], rule exI [of _ "[]"]) (use none m assms(2,6) b in \<open>simp del: of_nat_unat\<close>)
  next
    case fit
    have f: "length ?xs = ?a" using assms(6) fit(2) by simp
    obtain p' where m: "merge rnd p q g = Inr (p', g)" "pi_has p' (?xs @ ?ys)" "length (pi_samples p') = sz" "pi_num_added p' = pi_num_added p + pi_num_added q"
      using rand_below.merge_copy [OF assms(1) p(1) q(1) _ fit(1) _ f, of g] assms(7) fit(2) p(2) by auto
    have s: "samples_of (Some p') = ?xs @ ?ys" by (rule pi_has_samples [OF m(2)])
    show ?thesis
      by (rule exI [of _ p'], rule exI [of _ g], rule exI [of _ ?xs], rule exI [of _ ?ys])
        (use m s add fit(2) f assms(7) pi_has_ok [OF m(2,3)] in simp)
  next
    case draw
    obtain p' g' xs ys where m: "merge rnd p q g = Inr (p', g')" "pi_has p' (xs @ ys)" "length (pi_samples p') = sz" "pi_num_added p' = pi_num_added p + pi_num_added q"
        "mset xs \<subseteq># mset ?xs" "mset ys \<subseteq># mset ?ys" "length (xs @ ys) = sz" "length xs * (?a + ?r) < ?a * sz + (?a + ?r)" "?a * sz < length xs * (?a + ?r) + (?a + ?r)"
      using rand_below.merge_draw [OF assms(1) p(1) q(1) assms(7) [symmetric] _ draw(1) _ assms(5), of g] lq p(2) draw(2) assms(6) by auto
    have "int (length xs * (?a + ?r)) < int (?a * sz + (?a + ?r))" "int (?a * sz) < int (length xs * (?a + ?r) + (?a + ?r))" using m(8,9) by (simp_all only: of_nat_less_iff)
    then have b: "\<bar>int (length xs) * int (?a + ?r) - int ?a * int sz\<bar> < int (?a + ?r)" by (simp only: of_nat_mult of_nat_add)
    have s: "samples_of (Some p') = xs @ ys" by (rule pi_has_samples [OF m(2)])
    have u: "unat (pi_num_added p') = ?a + ?r" using m(4) add by simp
    have "length (samples_of (Some p')) = min (unat (pi_num_added p')) sz" using s u m(7) draw(2) by simp
    then show ?thesis using m(1,5,6) s u b draw(2) pi_has_ok [OF m(2,3)] by (intro exI [of _ p'] exI [of _ g'] exI [of _ xs] exI [of _ ys]) simp
  qed
qed

text \<open>The samples of all threads, and those of one thread: an interval of a thread drops nothing.\<close>

definition global_ok :: "samples_group \<Rightarrow> bool" where
  "global_ok s \<longleftrightarrow> length (ps_intervals s) = NUM_INTERVALS \<and> 0 < ps_size s \<and> ps_size s < 2 ^ 16 \<and>
     list_all (\<lambda>ip. interval_ok (ps_size s) ip \<and> length (samples_of ip) = min (added_of ip) (ps_size s)) (ps_intervals s) \<and>
     unat (ps_num_added s) = sum_list (map added_of (ps_intervals s))"

definition thread_ok :: "samples_group \<Rightarrow> bool" where
  "thread_ok s \<longleftrightarrow> length (ps_intervals s) = NUM_INTERVALS \<and>
     list_all (\<lambda>ip. interval_ok (ps_size s) ip \<and> length (samples_of ip) = added_of ip) (ps_intervals s) \<and>
     unat (ps_num_added s) = sum_list (map added_of (ps_intervals s))"

definition merged_at :: "samples_group \<Rightarrow> samples_group \<Rightarrow> nat \<Rightarrow> interval option \<Rightarrow> bool" where
  "merged_at s rhs i ip \<longleftrightarrow> interval_ok (ps_size s) ip \<and> length (samples_of ip) = min (added_of ip) (ps_size s) \<and>
     added_of ip = added_of (ps_intervals s ! i) + added_of (ps_intervals rhs ! i) \<and>
     mset (samples_of ip) \<subseteq># mset (samples_of (ps_intervals s ! i)) + mset (samples_of (ps_intervals rhs ! i))"

lemma get_interval_ok:
  assumes "interval_ok (ps_size s) (ps_intervals s ! i)" "ps_size s < 2 ^ 16"
  shows "interval_ok (ps_size s) (Some (get_interval_at s i))" "samples_of (Some (get_interval_at s i)) = samples_of (ps_intervals s ! i)"
    "unat (pi_num_added (get_interval_at s i)) = added_of (ps_intervals s ! i)"
  using assms by (cases "ps_intervals s ! i"; simp add: get_interval_at_def PercentileInterval_def interval_ok_def samples_of_def)+

lemma merge_loop_ok:
  assumes rb: "rand_below rnd" and sz: "ps_size rhs \<le> ps_size s0" "ps_size s0 < 2 ^ 16"
  shows "distinct is \<Longrightarrow> ps_size s = ps_size s0 \<Longrightarrow>
   \<forall>i \<in> set is. i < length (ps_intervals s) \<and> interval_ok (ps_size s0) (ps_intervals s ! i) \<and>
     length (samples_of (ps_intervals s ! i)) = min (added_of (ps_intervals s ! i)) (ps_size s0) \<and>
     interval_ok (ps_size rhs) (ps_intervals rhs ! i) \<and> length (samples_of (ps_intervals rhs ! i)) = added_of (ps_intervals rhs ! i) \<and>
     added_of (ps_intervals s ! i) + added_of (ps_intervals rhs ! i) < 2 ^ 32 \<Longrightarrow>
   \<exists>s' g'. merge_loop rnd is s rhs g = Inr (s', g') \<and> (\<forall>i \<in> set is. merged_at s rhs i (ps_intervals s' ! i)) \<and>
     (\<forall>j. j \<notin> set is \<longrightarrow> ps_intervals s' ! j = ps_intervals s ! j) \<and> ps_size s' = ps_size s0 \<and> ps_num_added s' = ps_num_added s \<and>
     length (ps_intervals s') = length (ps_intervals s)"
proof (induction "is" arbitrary: s g)
  case Nil
  then show ?case by auto
next
  case (Cons i js)
  have i: "i < length (ps_intervals s)" "interval_ok (ps_size s) (ps_intervals s ! i)" "length (samples_of (ps_intervals s ! i)) = min (added_of (ps_intervals s ! i)) (ps_size s)"
      "interval_ok (ps_size rhs) (ps_intervals rhs ! i)" "length (samples_of (ps_intervals rhs ! i)) = added_of (ps_intervals rhs ! i)"
      "added_of (ps_intervals s ! i) + added_of (ps_intervals rhs ! i) < 2 ^ 32" "i \<notin> set js" "distinct js"
    using Cons.prems by auto
  have "\<exists>s1 g1. merge_loop rnd (i # js) s rhs g = merge_loop rnd js s1 rhs g1 \<and> merged_at s rhs i (ps_intervals s1 ! i) \<and> same_but i s s1"
  proof (cases "samples_of (ps_intervals rhs ! i) = []")
    case True
    have "empty q" if "ps_intervals rhs ! i = Some q" for q
      using that True i(4) pi_hasD(1) [of q "[]"] by (simp add: empty_def interval_ok_iff word_unat_eq_iff)
    then have "merge_loop rnd (i # js) s rhs g = merge_loop rnd js s rhs g" by (auto split: option.splits)
    moreover have "merged_at s rhs i (ps_intervals s ! i)" using i(2,3,5) True by (simp add: merged_at_def)
    ultimately show ?thesis using same_but_refl(1) by blast
  next
    case False
    then obtain q where q: "ps_intervals rhs ! i = Some q" by (cases "ps_intervals rhs ! i") auto
    have hq: "pi_has q (samples_of (Some q))" using i(4) q by (simp add: interval_ok_iff)
    have ne: "\<not> empty q" using False q pi_hasD(1) [OF hq] by (auto simp: empty_def)
    note gi = get_interval_ok [OF i(2)]
    have sz': "ps_size s < 2 ^ 16" "ps_size rhs \<le> ps_size s" using sz Cons.prems(2) by simp_all
    have iq: "interval_ok (ps_size rhs) (Some q)" "length (samples_of (Some q)) = unat (pi_num_added q)" using i(4,5) q by simp_all
    have "unat (pi_num_added (get_interval_at s i)) + unat (pi_num_added q) < 2 ^ 32"
      "length (samples_of (Some (get_interval_at s i))) = min (unat (pi_num_added (get_interval_at s i))) (ps_size s)"
      using i(3,6) q gi(2,3) [OF sz'(1)] by simp_all
    from merge_ok [OF rb gi(1) [OF sz'(1)] iq(1) sz'(2) this iq(2), of g] obtain p' g' xs ys where m:
        "merge rnd (get_interval_at s i) q g = Inr (p', g')" "interval_ok (ps_size s) (Some p')"
        "unat (pi_num_added p') = unat (pi_num_added (get_interval_at s i)) + unat (pi_num_added q)"
        "length (samples_of (Some p')) = min (unat (pi_num_added p')) (ps_size s)" "samples_of (Some p') = xs @ ys"
        "mset xs \<subseteq># mset (samples_of (Some (get_interval_at s i)))" "mset ys \<subseteq># mset (samples_of (Some q))"
      by blast
    have "merge_loop rnd (i # js) s rhs g = merge_loop rnd js (set_interval s i p') rhs g'" using q ne m(1) by simp
    moreover have "merged_at s rhs i (ps_intervals (set_interval s i p') ! i)"
      using m(2-4) i(1) q gi(2,3) [OF sz'(1)] subset_mset.add_mono [OF m(6,7)] m(5) by (simp add: merged_at_def set_interval_def)
    ultimately show ?thesis using same_but_set by blast
  qed
  then obtain s1 g1 where e: "merge_loop rnd (i # js) s rhs g = merge_loop rnd js s1 rhs g1" "merged_at s rhs i (ps_intervals s1 ! i)" "same_but i s s1" by blast
  have s1: "ps_size s1 = ps_size s" "ps_num_added s1 = ps_num_added s" "length (ps_intervals s1) = length (ps_intervals s)" "\<And>j. j \<noteq> i \<Longrightarrow> ps_intervals s1 ! j = ps_intervals s ! j"
    using e(3) by (simp_all add: same_but_def)
  have ij: "j \<noteq> i" if "j \<in> set js" for j using that i(7) by auto
  have "ps_size s1 = ps_size s0" using s1(1) Cons.prems(2) by simp
  moreover have "\<forall>j \<in> set js. j < length (ps_intervals s1) \<and> interval_ok (ps_size s0) (ps_intervals s1 ! j) \<and>
     length (samples_of (ps_intervals s1 ! j)) = min (added_of (ps_intervals s1 ! j)) (ps_size s0) \<and>
     interval_ok (ps_size rhs) (ps_intervals rhs ! j) \<and> length (samples_of (ps_intervals rhs ! j)) = added_of (ps_intervals rhs ! j) \<and>
     added_of (ps_intervals s1 ! j) + added_of (ps_intervals rhs ! j) < 2 ^ 32"
    using Cons.prems(3) s1(3) s1(4) [OF ij] by auto
  ultimately obtain s' g' where f: "merge_loop rnd js s1 rhs g1 = Inr (s', g')" "\<forall>j \<in> set js. merged_at s1 rhs j (ps_intervals s' ! j)"
      "\<forall>j. j \<notin> set js \<longrightarrow> ps_intervals s' ! j = ps_intervals s1 ! j" "ps_size s' = ps_size s0" "ps_num_added s' = ps_num_added s1" "length (ps_intervals s') = length (ps_intervals s1)"
    using Cons.IH [OF i(8), of s1 g1] by blast
  have "merged_at s rhs j (ps_intervals s' ! j)" if "j \<in> set (i # js)" for j
  proof (cases "j = i")
    case True
    then show ?thesis using e(2) f(3) i(7) by simp
  next
    case False
    then have "merged_at s1 rhs j (ps_intervals s' ! j)" using that f(2) by simp
    then show ?thesis unfolding merged_at_def s1(1) s1(4) [OF False] .
  qed
  then show ?case using e(1) f s1 by auto
qed

lemma global_is_part:
  "global_ok s \<Longrightarrow> i < NUM_INTERVALS \<Longrightarrow> part_ok i s"
  by (auto simp: global_ok_def part_ok_def list_all_length)

lemma thread_keeps_all: "thread_ok s \<Longrightarrow> i < NUM_INTERVALS \<Longrightarrow> length (samples_of (ps_intervals s ! i)) = added_of (ps_intervals s ! i)"
  by (simp add: thread_ok_def list_all_length)

lemma sum_intervals: "length ips = NUM_INTERVALS \<Longrightarrow> sum_list (map added_of ips) = sum_list (map (\<lambda>i. added_of (ips ! i)) [0..<NUM_INTERVALS])"
  using map_nth [of ips] by (metis (no_types, lifting) map_map comp_apply map_eq_conv)

lemma merge_group_ok:
  assumes rb: "rand_below rnd" and s: "global_ok s" and r: "thread_ok rhs" and sz: "ps_size rhs \<le> ps_size s" and b: "unat (ps_num_added s) + unat (ps_num_added rhs) < 2 ^ 32"
  shows "\<exists>s' g'. merge_group rnd s rhs g = Inr (s', g') \<and> global_ok s' \<and> ps_size s' = ps_size s \<and> (\<forall>i < NUM_INTERVALS. merged_at s rhs i (ps_intervals s' ! i))"
proof -
  let ?n = "ps_num_added s + ps_num_added rhs" let ?s = "s\<lparr>ps_num_added := ?n\<rparr>"
  have l: "length (ps_intervals s) = NUM_INTERVALS" "length (ps_intervals rhs) = NUM_INTERVALS" "0 < ps_size s" "ps_size s < 2 ^ 16" using s r by (simp_all add: global_ok_def thread_ok_def)
  note tot = sum_intervals [OF l(1)] sum_intervals [OF l(2)]
  have n: "unat ?n = unat (ps_num_added s) + unat (ps_num_added rhs)" by (rule unat_add_bound) (use b in simp)
  have bi: "added_of (ps_intervals s ! i) + added_of (ps_intervals rhs ! i) < 2 ^ 32" if "i < NUM_INTERVALS" for i
  proof -
    have "added_of (ps_intervals s ! i) \<le> sum_list (map added_of (ps_intervals s))" "added_of (ps_intervals rhs ! i) \<le> sum_list (map added_of (ps_intervals rhs))"
      using that l by (auto intro!: member_le_sum_list)
    then show ?thesis using b s r by (simp add: global_ok_def thread_ok_def)
  qed
  have "\<forall>i \<in> set [0..<NUM_INTERVALS]. i < length (ps_intervals ?s) \<and> interval_ok (ps_size s) (ps_intervals ?s ! i) \<and>
     length (samples_of (ps_intervals ?s ! i)) = min (added_of (ps_intervals ?s ! i)) (ps_size s) \<and>
     interval_ok (ps_size rhs) (ps_intervals rhs ! i) \<and> length (samples_of (ps_intervals rhs ! i)) = added_of (ps_intervals rhs ! i) \<and>
     added_of (ps_intervals ?s ! i) + added_of (ps_intervals rhs ! i) < 2 ^ 32"
    using s r l bi by (simp add: global_ok_def thread_ok_def list_all_length)
  from merge_loop_ok [OF rb sz l(4) distinct_upt _ this, of g] obtain s' g' where e: "merge_loop rnd [0..<NUM_INTERVALS] ?s rhs g = Inr (s', g')"
      "\<And>i. i < NUM_INTERVALS \<Longrightarrow> merged_at ?s rhs i (ps_intervals s' ! i)" "ps_size s' = ps_size s" "ps_num_added s' = ?n" "length (ps_intervals s') = NUM_INTERVALS"
    using l by auto
  have mg: "merged_at s rhs i (ps_intervals s' ! i)" if "i < NUM_INTERVALS" for i using e(2) [OF that] by (simp add: merged_at_def)
  have "sum_list (map added_of (ps_intervals s')) = sum_list (map (\<lambda>i. added_of (ps_intervals s ! i) + added_of (ps_intervals rhs ! i)) [0..<NUM_INTERVALS])"
    unfolding sum_intervals [OF e(5)] using mg by (intro arg_cong [of _ _ sum_list] map_cong) (auto simp: merged_at_def)
  also have "\<dots> = unat ?n" using n s r tot by (simp add: sum_list_addf global_ok_def thread_ok_def)
  finally have "global_ok s'" using mg e(3-5) l(3,4) by (simp add: global_ok_def list_all_length merged_at_def)
  then show ?thesis using e(1,3) mg by (auto simp: merge_group_def)
qed

text \<open>Merging the samples of threads one after the other.\<close>

fun merge_threads :: "'g rand \<Rightarrow> samples_group list \<Rightarrow> samples_group \<Rightarrow> 'g \<Rightarrow> (samples_group \<times> 'g) res" where
  "merge_threads rnd [] s g = Inr (s, g)"
| "merge_threads rnd (rhs # threads) s g = res_bind (merge_group rnd s rhs g) (\<lambda>(s', g'). merge_threads rnd threads s' g')"

lemma merge_threads_ok:
  assumes rb: "rand_below rnd"
  shows "global_ok s \<Longrightarrow> list_all (\<lambda>t. thread_ok t \<and> ps_size t \<le> ps_size s) threads \<Longrightarrow>
    unat (ps_num_added s) + sum_list (map (\<lambda>t. unat (ps_num_added t)) threads) < 2 ^ 32 \<Longrightarrow>
    \<exists>s' g'. merge_threads rnd threads s g = Inr (s', g') \<and> global_ok s' \<and> ps_size s' = ps_size s \<and>
      (\<forall>i < NUM_INTERVALS. added_of (ps_intervals s' ! i) = added_of (ps_intervals s ! i) + part_total i threads \<and>
        mset (samples_of (ps_intervals s' ! i)) \<subseteq># mset (samples_of (ps_intervals s ! i)) + mset (part_list i threads))"
proof (induction threads arbitrary: s g)
  case Nil
  then show ?case by simp
next
  case (Cons t threads)
  obtain s1 g1 where e: "merge_group rnd s t g = Inr (s1, g1)" "global_ok s1" "ps_size s1 = ps_size s" "\<And>i. i < NUM_INTERVALS \<Longrightarrow> merged_at s t i (ps_intervals s1 ! i)"
    using merge_group_ok [OF rb Cons.prems(1), of t g] Cons.prems(2,3) by auto
  have l: "length (ps_intervals s) = NUM_INTERVALS" "length (ps_intervals t) = NUM_INTERVALS" "length (ps_intervals s1) = NUM_INTERVALS"
    using Cons.prems(1,2) e(2) by (simp_all add: global_ok_def thread_ok_def)
  have "map (\<lambda>i. added_of (ps_intervals s1 ! i)) [0..<NUM_INTERVALS] = map (\<lambda>i. added_of (ps_intervals s ! i) + added_of (ps_intervals t ! i)) [0..<NUM_INTERVALS]"
    using e(4) by (simp add: merged_at_def)
  then have "sum_list (map (\<lambda>i. added_of (ps_intervals s1 ! i)) [0..<NUM_INTERVALS]) =
      sum_list (map (\<lambda>i. added_of (ps_intervals s ! i)) [0..<NUM_INTERVALS]) + sum_list (map (\<lambda>i. added_of (ps_intervals t ! i)) [0..<NUM_INTERVALS])"
    by (simp only: sum_list_addf)
  then have "unat (ps_num_added s1) = unat (ps_num_added s) + unat (ps_num_added t)"
    using e(2) Cons.prems(1,2) sum_intervals [OF l(1)] sum_intervals [OF l(2)] sum_intervals [OF l(3)] by (simp add: global_ok_def thread_ok_def)
  then have "\<exists>s' g'. merge_threads rnd threads s1 g1 = Inr (s', g') \<and> global_ok s' \<and> ps_size s' = ps_size s1 \<and>
      (\<forall>i < NUM_INTERVALS. added_of (ps_intervals s' ! i) = added_of (ps_intervals s1 ! i) + part_total i threads \<and>
        mset (samples_of (ps_intervals s' ! i)) \<subseteq># mset (samples_of (ps_intervals s1 ! i)) + mset (part_list i threads))"
    by (intro Cons.IH [OF e(2)]) (use Cons.prems(2,3) e(3) in auto)
  then obtain s' g' where f: "merge_threads rnd threads s1 g1 = Inr (s', g')" "global_ok s'" "ps_size s' = ps_size s1"
      "\<And>i. i < NUM_INTERVALS \<Longrightarrow> added_of (ps_intervals s' ! i) = added_of (ps_intervals s1 ! i) + part_total i threads"
      "\<And>i. i < NUM_INTERVALS \<Longrightarrow> mset (samples_of (ps_intervals s' ! i)) \<subseteq># mset (samples_of (ps_intervals s1 ! i)) + mset (part_list i threads)"
    by blast
  have "added_of (ps_intervals s' ! i) = added_of (ps_intervals s ! i) + part_total i (t # threads) \<and>
      mset (samples_of (ps_intervals s' ! i)) \<subseteq># mset (samples_of (ps_intervals s ! i)) + mset (part_list i (t # threads))" if "i < NUM_INTERVALS" for i
  proof
    have m: "mset (samples_of (ps_intervals s1 ! i)) \<subseteq># mset (samples_of (ps_intervals s ! i)) + mset (samples_of (ps_intervals t ! i))"
      using e(4) [OF that] by (simp add: merged_at_def)
    show "mset (samples_of (ps_intervals s' ! i)) \<subseteq># mset (samples_of (ps_intervals s ! i)) + mset (part_list i (t # threads))"
      using subset_mset.order_trans [OF f(5) [OF that] subset_mset.add_right_mono [OF m]] by (simp add: ac_simps)
    show "added_of (ps_intervals s' ! i) = added_of (ps_intervals s ! i) + part_total i (t # threads)" using f(4) [OF that] e(4) [OF that] by (simp add: merged_at_def)
  qed
  then show ?case using e(1,3) f(1-3) by auto
qed

section \<open>Examples\<close>

text \<open>A linear congruential generator.\<close>

definition lcg_rand :: "u64 \<Rightarrow> u64 \<Rightarrow> u64 \<times> u64" where
  "lcg_rand g n = (g mod n, g * 6364136223846793005 + 1442695040888963407)"

interpretation lcg: rand_below lcg_rand
  by unfold_locales (simp add: lcg_rand_def word_mod_less_divisor word_neq_0_conv)

definition interval_with :: "nat \<Rightarrow> u32 list \<Rightarrow> interval" where
  "interval_with sz xs = (PercentileInterval sz)\<lparr>pi_num_added := of_nat (length xs), pi_num_samples := of_nat (length xs),
     pi_samples := map Some xs @ replicate (sz - length xs) None\<rparr>"

definition group_with :: "nat \<Rightarrow> u32 list \<Rightarrow> u32 list \<Rightarrow> samples_group" where
  "group_with sz xs ys = (PercentileSamples sz)\<lparr>ps_num_added := of_nat (length xs + length ys),
     ps_intervals := (replicate NUM_INTERVALS None)[0 := Some (interval_with sz xs), 1 := Some (interval_with sz ys)]\<rparr>"

lemma interval_with_facts:
  assumes "length xs \<le> sz" "sz < 2 ^ 16"
  shows "interval_ok sz (Some (interval_with sz xs))" "samples_of (Some (interval_with sz xs)) = xs" "unat (pi_num_added (interval_with sz xs)) = length xs"
proof -
  have "unat (of_nat (length xs) :: u16) = length xs" by (rule unat_of_nat_u16) (use assms in simp)
  moreover have "unat (of_nat (length xs) :: u32) = length xs" using assms by (simp add: unat_of_nat take_bit_nat_eq_self)
  ultimately show "interval_ok sz (Some (interval_with sz xs))" "samples_of (Some (interval_with sz xs)) = xs" "unat (pi_num_added (interval_with sz xs)) = length xs"
    using assms by (auto simp: interval_ok_def samples_of_def interval_with_def comp_def)
qed

lemma group_with_interval:
  assumes "i < NUM_INTERVALS"
  shows "ps_intervals (group_with sz xs ys) ! i = (if i = 0 then Some (interval_with sz xs) else if i = 1 then Some (interval_with sz ys) else None)"
  using assms by (simp add: group_with_def nth_list_update)

lemma group_with_ok:
  assumes "length xs \<le> sz" "length ys \<le> sz" "sz < 2 ^ 16"
  shows "i < NUM_INTERVALS \<Longrightarrow> part_ok i (group_with sz xs ys)"
    "sum_list (map (\<lambda>i. added_of (ps_intervals (group_with sz xs ys) ! i)) [0..<NUM_INTERVALS]) = length xs + length ys"
    "unat (ps_num_added (group_with sz xs ys)) = length xs + length ys"
proof -
  have sz: "ps_size (group_with sz xs ys) = sz" "length (ps_intervals (group_with sz xs ys)) = NUM_INTERVALS"
    by (simp_all add: group_with_def PercentileSamples_def)
  show "part_ok i (group_with sz xs ys)" if "i < NUM_INTERVALS"
    using interval_with_facts [OF assms(1,3)] interval_with_facts [OF assms(2,3)] that sz
    by (auto simp: part_ok_def group_with_interval interval_ok_def)
  have "[0..<NUM_INTERVALS] = 0 # 1 # [2..<NUM_INTERVALS]" by (simp add: NUM_INTERVALS_def upt_rec)
  moreover have "added_of (ps_intervals (group_with sz xs ys) ! i) = 0" if "i \<in> set [2..<NUM_INTERVALS]" for i using that by (simp add: group_with_interval)
  then have "map (\<lambda>i. added_of (ps_intervals (group_with sz xs ys) ! i)) [2..<NUM_INTERVALS] = map (\<lambda>i. 0) [2..<NUM_INTERVALS]" by simp
  ultimately show "sum_list (map (\<lambda>i. added_of (ps_intervals (group_with sz xs ys) ! i)) [0..<NUM_INTERVALS]) = length xs + length ys"
    using interval_with_facts(3) [OF assms(1,3)] interval_with_facts(3) [OF assms(2,3)] by (simp add: group_with_interval NUM_INTERVALS_def)
  show "unat (ps_num_added (group_with sz xs ys)) = length xs + length ys"
    using assms by (simp add: group_with_def unat_of_nat take_bit_nat_eq_self del: of_nat_add)
qed

lemma group_with_thread:
  assumes "length xs \<le> sz" "length ys \<le> sz" "sz < 2 ^ 16"
  shows "thread_ok (group_with sz xs ys) \<and> ps_size (group_with sz xs ys) = sz"
proof -
  have l: "length (ps_intervals (group_with sz xs ys)) = NUM_INTERVALS" "ps_size (group_with sz xs ys) = sz" by (simp_all add: group_with_def PercentileSamples_def)
  then show ?thesis
    using group_with_ok(2,3) [OF assms] sum_intervals [OF l(1)] interval_with_facts [OF assms(1,3)] interval_with_facts [OF assms(2,3)]
    by (auto simp: thread_ok_def list_all_length group_with_interval interval_ok_def)
qed

lemma group_lists:
  assumes "length xs \<le> sz" "length ys \<le> sz" "length xs' \<le> sz" "length ys' \<le> sz" "sz < 2 ^ 16" "i < NUM_INTERVALS"
  shows "part_list i [group_with sz xs ys, group_with sz xs' ys'] = (if i = 0 then xs @ xs' else if i = 1 then ys @ ys' else [])"
    "part_total i [group_with sz xs ys, group_with sz xs' ys'] = (if i = 0 then length (xs @ xs') else if i = 1 then length (ys @ ys') else 0)"
  using assms interval_with_facts(2,3) by (simp_all add: group_with_interval)

lemma groups_ok:
  assumes "length xs \<le> sz" "length ys \<le> sz" "length xs' \<le> sz" "length ys' \<le> sz" "sz < 2 ^ 16"
  shows "parts_ok [group_with sz xs ys, group_with sz xs' ys']"
  using group_with_ok [OF assms(1,2,5)] group_with_ok [OF assms(3,4,5)] assms by (simp add: parts_ok_def list_all_iff)

lemma sorted_wrt_empty_lists: "sorted_wrt (\<lambda>xs ys. \<forall>x \<in> set xs. \<forall>y \<in> set ys. R x y) (replicate n [])"
  by (induction n) simp_all

lemma fresh_window: "0 < sz \<Longrightarrow> sz < 2 ^ 16 \<Longrightarrow> window_ok (PercentileSamples sz)"
  by (simp add: window_ok_def PercentileSamples_def list_all_iff)

section \<open>Properties\<close>

text \<open>
C20: Merging an interval into one of at least its size, for every sequence of random numbers: no check fails, nothing that was
never written is read, the counts add up, and the result holds as many samples as fit.  While all fit, all are kept, in
order; otherwise the places are shared between the two intervals in proportion to the numbers of samples that were added to
them, up to rounding, and every sample that is kept is one of those of its interval, none of them twice.
\<close>

theorem merge_shares_places:
  assumes "rand_below rnd" "interval_ok sz (Some p)" "interval_ok sz2 (Some q)" "sz2 \<le> sz"
    and "unat (pi_num_added p) + unat (pi_num_added q) < 2 ^ 32"
    and "length (samples_of (Some p)) = min (unat (pi_num_added p)) sz" "length (samples_of (Some q)) = unat (pi_num_added q)"
  shows "\<exists>p' g' xs ys. merge rnd p q g = Inr (p', g') \<and> interval_ok sz (Some p') \<and> unat (pi_num_added p') = unat (pi_num_added p) + unat (pi_num_added q) \<and>
    length (samples_of (Some p')) = min (unat (pi_num_added p')) sz \<and> samples_of (Some p') = xs @ ys \<and>
    mset xs \<subseteq># mset (samples_of (Some p)) \<and> mset ys \<subseteq># mset (samples_of (Some q)) \<and>
    (if unat (pi_num_added p') \<le> sz then xs = samples_of (Some p) \<and> ys = samples_of (Some q)
     else \<bar>int (length xs) * int (unat (pi_num_added p')) - int (unat (pi_num_added p)) * int sz\<bar> < int (unat (pi_num_added p')))"
  using assms by (rule merge_ok)

theorem merge_shares_places_witness:
  "\<exists>p' g'. merge lcg_rand (interval_with 4 [8, 6, 7]) (interval_with 2 [5, 9]) 1 = Inr (p', g') \<and> length (samples_of (Some p')) = 4"
proof -
  note f = interval_with_facts [of "[8, 6, 7]" 4] interval_with_facts [of "[5, 9]" 2]
  show ?thesis
    using merge_shares_places [OF lcg.rand_below_axioms, of 4 "interval_with 4 [8, 6, 7]" 2 "interval_with 2 [5, 9]" 1] f by (auto simp del: split_paired_Ex)
qed

text \<open>
C21: The samples of any number of threads, merged one after the other into empty samples, for every sequence of random numbers:
each interval counts what was added to it in all threads, holds as many of the samples of the threads as fit, none of them
more often than the threads do, and all of them when they fit; and the result may be a part of a window.
\<close>

theorem threads_merged:
  assumes "rand_below rnd" "0 < sz" "sz < 2 ^ 16" "list_all (\<lambda>t. thread_ok t \<and> ps_size t \<le> sz) threads"
    and "sum_list (map (\<lambda>t. unat (ps_num_added t)) threads) < 2 ^ 32"
  shows "\<exists>s' g'. merge_threads rnd threads (PercentileSamples sz) g = Inr (s', g') \<and> parts_ok [s'] \<and>
    (\<forall>i < NUM_INTERVALS. added_of (ps_intervals s' ! i) = part_total i threads \<and>
      length (samples_of (ps_intervals s' ! i)) = min (part_total i threads) sz \<and>
      mset (samples_of (ps_intervals s' ! i)) \<subseteq># mset (part_list i threads) \<and>
      (part_total i threads \<le> sz \<longrightarrow> mset (samples_of (ps_intervals s' ! i)) = mset (part_list i threads)))"
proof -
  have g0: "global_ok (PercentileSamples sz)" using assms(2,3) by (simp add: global_ok_def PercentileSamples_def list_all_iff interval_ok_def sum_list_replicate)
  have z: "ps_size (PercentileSamples sz) = sz" "ps_num_added (PercentileSamples sz) = 0" by (simp_all add: PercentileSamples_def)
  have iz: "ps_intervals (PercentileSamples sz) ! i = None" if "i < NUM_INTERVALS" for i using that by (simp add: PercentileSamples_def)
  obtain s' g' where e: "merge_threads rnd threads (PercentileSamples sz) g = Inr (s', g')" "global_ok s'" "ps_size s' = sz"
      "\<And>i. i < NUM_INTERVALS \<Longrightarrow> added_of (ps_intervals s' ! i) = part_total i threads"
      "\<And>i. i < NUM_INTERVALS \<Longrightarrow> mset (samples_of (ps_intervals s' ! i)) \<subseteq># mset (part_list i threads)"
    using merge_threads_ok [OF assms(1) g0, of threads g] assms(4,5) z iz by auto
  have len: "length (samples_of (ps_intervals s' ! i)) = min (part_total i threads) sz" if "i < NUM_INTERVALS" for i
    using e(2,3) e(4) [OF that] that by (simp add: global_ok_def list_all_length)
  have pl: "length (part_list i threads) = part_total i threads" if "i < NUM_INTERVALS" for i
    using assms(4) that by (induction threads) (auto simp: thread_keeps_all)
  have eq: "mset (samples_of (ps_intervals s' ! i)) = mset (part_list i threads)" if "i < NUM_INTERVALS" "part_total i threads \<le> sz" for i
  proof (rule ccontr)
    assume "mset (samples_of (ps_intervals s' ! i)) \<noteq> mset (part_list i threads)"
    then have "mset (samples_of (ps_intervals s' ! i)) \<subset># mset (part_list i threads)" using e(5) [OF that(1)] by (simp add: subset_mset.le_less)
    from mset_subset_size [OF this] show False using len [OF that(1)] pl [OF that(1)] that(2) by simp
  qed
  have num: "unat (ps_num_added s') = sum_list (map (\<lambda>i. added_of (ps_intervals s' ! i)) [0..<NUM_INTERVALS])"
    using e(2) sum_intervals [of "ps_intervals s'"] by (simp add: global_ok_def)
  have "sum_list (map (\<lambda>i. added_of (ps_intervals s' ! i)) [0..<NUM_INTERVALS]) = sum_list (map (\<lambda>i. part_total i threads) [0..<NUM_INTERVALS])"
    using e(4) by (intro arg_cong [of _ _ sum_list] map_cong) auto
  also have "\<dots> = sum_list (map (\<lambda>t. unat (ps_num_added t)) threads)" unfolding part_total_def
    by (subst sum_list_swap) (intro arg_cong [of _ _ sum_list] map_cong, use assms(4) sum_intervals in \<open>auto simp: list_all_iff thread_ok_def\<close>)
  finally have "parts_ok [s']" using num assms(5) global_is_part [OF e(2)] by (simp add: parts_ok_def list_all_iff)
  then show ?thesis using e(1,4,5) len eq by blast
qed

theorem threads_merged_witness:
  "\<exists>s' g'. merge_threads lcg_rand [group_with 2 [3, 1] [9], group_with 2 [2] [7, 8]] (PercentileSamples 4) 5 = Inr (s', g') \<and>
     mset (samples_of (ps_intervals s' ! 0)) = {#3, 1, 2#}"
proof -
  let ?ts = "[group_with 2 [3, 1] [9], group_with 2 [2] [7, 8]]"
  have n: "unat (ps_num_added (group_with 2 [3, 1] [9])) = 3" "unat (ps_num_added (group_with 2 [2] [7, 8])) = 3" by (simp_all add: group_with_ok(3))
  have t: "list_all (\<lambda>t. thread_ok t \<and> ps_size t \<le> 4) ?ts" by (simp add: group_with_thread)
  have l: "part_list 0 ?ts = [3, 1, 2]" "part_total 0 ?ts = 3" by (subst group_lists; simp add: NUM_INTERVALS_def)+
  have z: "0 < NUM_INTERVALS" by (simp add: NUM_INTERVALS_def)
  have b: "sum_list (map (\<lambda>t. unat (ps_num_added t)) ?ts) < 2 ^ 32" using n by simp
  obtain s' g' where r: "merge_threads lcg_rand ?ts (PercentileSamples 4) 5 = Inr (s', g')"
      "part_total 0 ?ts \<le> 4 \<longrightarrow> mset (samples_of (ps_intervals s' ! 0)) = mset (part_list 0 ?ts)"
    using threads_merged [OF lcg.rand_below_axioms _ _ t b, of 5] z by auto
  then show ?thesis unfolding l by auto
qed

text \<open>
C22: \<open>combine_of\<close>, for every sequence of random numbers: it returns; the window counts what was added to all parts; each of its
intervals holds only samples of the same interval of the parts, none of them more often than the parts do, and exactly
those of the parts, in their order, when they fit; and the parts are only reordered.
\<close>

theorem combine_of_keeps_samples:
  assumes "rand_below rnd" "window_ok s" "parts_ok parts"
  shows "\<exists>s' parts' g'. combine_of rnd parts s g = Inr (s', parts', g') \<and> list_all2 reordered parts parts' \<and>
    unat (ps_num_added s') = sum_list (map (\<lambda>part. unat (ps_num_added part)) parts) \<and>
    (\<forall>i < NUM_INTERVALS. let p = get_interval_at s' i in
       interval_ok (ps_size s) (Some p) \<and> unat (pi_num_added p) = part_total i parts \<and> mset (samples_of (Some p)) \<subseteq># mset (part_list i parts) \<and>
       (part_total i parts \<le> ps_size s \<longrightarrow> samples_of (Some p) = part_list i parts))"
proof -
  obtain s' parts' g' where r: "combine_of rnd parts s g = Inr (s', parts', g')" "list_all2 reordered parts parts'"
    "unat (ps_num_added s') = sum_list (map (\<lambda>part. unat (ps_num_added part)) parts)" "\<forall>i < NUM_INTERVALS. combined (ps_size s) parts i (get_interval_at s' i)"
    using combine_of_ok [OF assms, of g] by blast
  have "interval_ok (ps_size s) (Some p) \<and> unat (pi_num_added p) = part_total i parts \<and> mset (samples_of (Some p)) \<subseteq># mset (part_list i parts) \<and>
       (part_total i parts \<le> ps_size s \<longrightarrow> samples_of (Some p) = part_list i parts)" if "combined (ps_size s) parts i p" for i p
    using that pi_has_ok [of p "samples_of (Some p)"] by (simp add: combined_def)
  then show ?thesis using r unfolding Let_def by blast
qed

theorem combine_of_keeps_samples_witness:
  "\<exists>s' parts' g'. combine_of lcg_rand [group_with 2 [3, 1] [9], group_with 2 [2] [7, 8]] (PercentileSamples 2) 5 = Inr (s', parts', g') \<and>
     unat (ps_num_added s') = 6 \<and> mset (samples_of (Some (get_interval_at s' 0))) \<subseteq># {#1, 2, 3#}"
proof -
  let ?parts = "[group_with 2 [3, 1] [9], group_with 2 [2] [7, 8]]"
  have p: "parts_ok ?parts" "window_ok (PercentileSamples 2)" by (rule groups_ok fresh_window; simp)+
  have n: "unat (ps_num_added (group_with 2 [3, 1] [9])) = 3" "unat (ps_num_added (group_with 2 [2] [7, 8])) = 3" by (simp_all add: group_with_ok(3))
  have l: "part_list 0 ?parts = [3, 1, 2]" by (subst group_lists) (simp_all add: NUM_INTERVALS_def)
  have z: "0 < NUM_INTERVALS" by (simp add: NUM_INTERVALS_def)
  obtain s' parts' g' where r: "combine_of lcg_rand ?parts (PercentileSamples 2) 5 = Inr (s', parts', g')"
      "unat (ps_num_added s') = sum_list (map (\<lambda>part. unat (ps_num_added part)) ?parts)"
      "mset (samples_of (Some (get_interval_at s' 0))) \<subseteq># mset (part_list 0 ?parts)"
    using combine_of_keeps_samples [OF lcg.rand_below_axioms p(2,1), of 5] z unfolding Let_def by blast
  have "unat (ps_num_added s') = 6" using r(2) n by simp
  moreover have "mset (samples_of (Some (get_interval_at s' 0))) \<subseteq># {#1, 2, 3#}" using r(3) unfolding l by (simp add: add_mset_commute)
  ultimately show ?thesis using r(1) by blast
qed

text \<open>
C23: A percentile of a window is exact while the window drops nothing: if in each interval the parts have kept all that was
added, all of it fits into the window, and the intervals divide the range of the samples, then reading the \<open>n\<close>-th number of the
window gives the \<open>n\<close>-th smallest of all samples of the parts (the largest one for a larger \<open>n\<close>).
\<close>

theorem window_percentile_exact:
  assumes "rand_below rnd" "window_ok s" "parts_ok parts"
    and "\<forall>i < NUM_INTERVALS. length (part_list i parts) = part_total i parts \<and> part_total i parts \<le> ps_size s"
    and "sorted_wrt (\<lambda>xs ys. \<forall>x \<in> set xs. \<forall>y \<in> set ys. x \<le> y) (kept parts)"
    and "n \<noteq> 0" "concat (kept parts) \<noteq> []"
  shows "\<exists>s' parts' g' s''. combine_of rnd parts s g = Inr (s', parts', g') \<and>
    get_number s' n = Inr (sort (concat (kept parts)) ! (min (unat n) (length (concat (kept parts))) - 1), s'')"
proof -
  obtain s' parts' g' where r: "combine_of rnd parts s g = Inr (s', parts', g')" "unat (ps_num_added s') = sum_list (map (\<lambda>part. unat (ps_num_added part)) parts)"
      "length (ps_intervals s') = NUM_INTERVALS" "ps_size s' = ps_size s" "\<And>i. i < NUM_INTERVALS \<Longrightarrow> combined (ps_size s) parts i (get_interval_at s' i)"
    using combine_of_ok [OF assms(1-3), of g] by blast
  have iv: "interval_ok (ps_size s) (ps_intervals s' ! i) \<and> sorted_ok (ps_intervals s' ! i) \<and> samples_of (ps_intervals s' ! i) = part_list i parts \<and>
      added_of (ps_intervals s' ! i) = part_total i parts" if "i < NUM_INTERVALS" for i
    using combined_interval [OF r(5) [OF that]] assms(4) that r(4) by simp
  have ok: "list_all (\<lambda>ip. interval_ok (ps_size s) ip \<and> sorted_ok ip \<and> length (samples_of ip) \<le> added_of ip) (ps_intervals s')"
      "\<forall>ip \<in> set (ps_intervals s'). length (samples_of ip) = added_of ip"
    using iv assms(4) r(3) unfolding list_all_length by (simp_all add: all_set_conv_all_nth)
  have k: "map samples_of (ps_intervals s') = kept parts" "map added_of (ps_intervals s') = map length (kept parts)"
    using iv assms(4) r(3) by (auto simp: kept_def intro!: nth_equalityI)
  have tot: "sum_list (map added_of (ps_intervals s')) = length (concat (kept parts))" unfolding k(2) by (simp add: length_concat)
  have na: "unat (ps_num_added s') = length (concat (kept parts))"
  proof -
    have "map added_of (ps_intervals s') = map (\<lambda>i. part_total i parts) [0..<NUM_INTERVALS]" using iv r(3) by (auto intro!: nth_equalityI)
    then show ?thesis using r(2) parts_total [OF assms(3)] tot by simp
  qed
  define m where "m = (if n > ps_num_added s' then ps_num_added s' else n)"
  have m: "unat m = min (unat n) (length (concat (kept parts)))" unfolding m_def using na by (simp add: word_less_nat_alt min_def)
  have "0 < unat n" using assms(6) by (simp add: unat_gt_0)
  then have m0: "0 < unat m" "unat m \<le> sum_list (map added_of (ps_intervals s'))" using m tot assms(7) by (auto simp: min_def)
  obtain ips where "number_in (ps_intervals s') m = Inr (rank_sample (ps_intervals s') (unat m), ips)" using number_in_ok [OF ok(1) m0] by blast
  moreover have "rank_sample (ps_intervals s') (unat m) = sort (concat (kept parts)) ! (unat m - 1)"
    using rank_exact [OF ok(2) m0] sorted_concat_sort [OF assms(5)] k(1) by (metis (no_types, lifting) map_map comp_apply map_eq_conv)
  ultimately have "get_number s' n = Inr (sort (concat (kept parts)) ! (min (unat n) (length (concat (kept parts))) - 1), s'\<lparr>ps_intervals := ips\<rparr>)"
    unfolding get_number_def m_def [symmetric] m using assms(6) by simp
  then show ?thesis using r(1) by blast
qed

theorem window_percentile_exact_witness:
  "\<exists>s' parts' g' s''. combine_of lcg_rand [group_with 2 [3, 1] [9], group_with 2 [2] [7, 8]] (PercentileSamples 4) 5 = Inr (s', parts', g') \<and>
     get_number s' 3 = Inr (3, s'')"
proof -
  let ?parts = "[group_with 2 [3, 1] [9], group_with 2 [2] [7, 8]]"
  have p: "parts_ok ?parts" "window_ok (PercentileSamples 4)" by (rule groups_ok fresh_window; simp)+
  have l: "part_list i ?parts = (if i = 0 then [3, 1, 2] else if i = 1 then [9, 7, 8] else [])" "part_total i ?parts = (if i = 0 then 3 else if i = 1 then 3 else 0)"
    if "i < NUM_INTERVALS" for i by (subst group_lists; use that in simp)+
  have "kept ?parts = map (\<lambda>i. if i = 0 then [3, 1, 2] else if i = 1 then [9, 7, 8] else []) [0..<NUM_INTERVALS]" unfolding kept_def using l(1) by simp
  also have "\<dots> = [3, 1, 2] # [9, 7, 8] # replicate 30 []" by (simp add: NUM_INTERVALS_def upt_rec numeral_eq_Suc)
  finally have k: "kept ?parts = [3, 1, 2] # [9, 7, 8] # replicate 30 []" .
  have c: "concat (kept ?parts) = [3, 1, 2, 9, 7, 8]" unfolding k by simp
  have o: "sorted_wrt (\<lambda>xs ys. \<forall>x \<in> set xs. \<forall>y \<in> set ys. x \<le> y) (kept ?parts)" 
    unfolding k using sorted_wrt_empty_lists [of _ 30] by simp
  have "\<forall>i < NUM_INTERVALS. length (part_list i ?parts) = part_total i ?parts \<and> part_total i ?parts \<le> ps_size (PercentileSamples 4)" using l by (simp add: PercentileSamples_def)
  note x = window_percentile_exact [OF lcg.rand_below_axioms p(2,1) this o, of 3 5, unfolded c]
  have "sort [3, 1, 2, 9, 7, 8 :: u32] ! (min (unat (3 :: u64)) (length [3, 1, 2, 9, 7, 8 :: u32]) - 1) = 3" by code_simp
  with x show ?thesis by simp
qed

section \<open>Where the flag and the counter are wrong\<close>

text \<open>
  The flag that the samples are sorted is not taken back when samples are added: after a look at an interval, adding a smaller
  sample leaves it behind the larger ones.
\<close>

lemma sorted_flag_stale:
  "res_bind (add32 (PercentileInterval 4) 5) (\<lambda>(_, p). res_bind (get_sample_at p 0) (\<lambda>(_, p). res_bind (add32 p 3) (\<lambda>(_, p). res_bind (get_sample_at p 0) (\<lambda>(v, p).
     Inr (v, sort (samples_of (Some p)) ! 0))))) = Inr (5, 3)"
  by code_simp

text \<open>
  An interval of \<^verbatim>\<open>65536\<close> samples, which the static assertion allows, is never full: its counter of 16 bits wraps around.
\<close>

lemma full_interval_looks_empty:
  assumes "length (pi_samples p) = 65536" "pi_num_samples p = 65535"
  shows "\<exists>p'. add32 p x = Inr (True, p') \<and> empty p' \<and> \<not> full p'"
  using assms by (simp add: add32_def SAMPLE_SIZE_def arr_set_def empty_def full_def)

end
