(* ===== verification/Series.thy ===== *)
theory Series
  imports CFormat
begin

text \<open>
  \<^verbatim>\<open>bvar/detail/series.h\<close>: the trend of a variable over the last 60 seconds, 60 minutes, 24 hours and 30 days, in one array
  with four circular parts.  When a part has been filled once round, its values are folded with the operation of the
  variable, divided by their number if that operation looks like an addition, and appended to the next part.  The operation
  and the division, which the code does in floating point, are arguments.
\<close>

section \<open>State\<close>

record 'a series =
  sr_array :: "'a list"
  sr_nsecond :: nat
  sr_nminute :: nat
  sr_nhour :: nat
  sr_nday :: nat

definition SeriesBase :: "'a :: zero series" where
  "SeriesBase = \<lparr>sr_array = replicate (60 + 60 + 24 + 30) 0, sr_nsecond = 0, sr_nminute = 0, sr_nhour = 0, sr_nday = 0\<rparr>"

definition ProbablyAddtition :: "('a :: numeral \<Rightarrow> 'a \<Rightarrow> 'a) \<Rightarrow> bool" where
  "ProbablyAddtition op \<longleftrightarrow> op 32 64 = 96"

definition inplace_divide :: "('a :: numeral \<Rightarrow> 'a \<Rightarrow> 'a) \<Rightarrow> ('a \<Rightarrow> nat \<Rightarrow> 'a) \<Rightarrow> 'a \<Rightarrow> nat \<Rightarrow> 'a" where
  "inplace_divide op dv obj number = (if ProbablyAddtition op then dv obj number else obj)"

definition sr_second :: "'a series \<Rightarrow> nat \<Rightarrow> 'a" where
  "sr_second s i = sr_array s ! i"

definition sr_minute :: "'a series \<Rightarrow> nat \<Rightarrow> 'a" where
  "sr_minute s i = sr_array s ! (60 + i)"

definition sr_hour :: "'a series \<Rightarrow> nat \<Rightarrow> 'a" where
  "sr_hour s i = sr_array s ! (120 + i)"

definition sr_day :: "'a series \<Rightarrow> nat \<Rightarrow> 'a" where
  "sr_day s i = sr_array s ! (144 + i)"

section \<open>Appending\<close>

definition append_day :: "'a \<Rightarrow> 'a series \<Rightarrow> 'a series" where
  "append_day v s =
     (let s1 = s\<lparr>sr_array := (sr_array s)[144 + sr_nday s := v], sr_nday := sr_nday s + 1\<rparr> in
      if sr_nday s1 \<ge> 30 then s1\<lparr>sr_nday := 0\<rparr> else s1)"

definition append_hour :: "('a :: numeral \<Rightarrow> 'a \<Rightarrow> 'a) \<Rightarrow> ('a \<Rightarrow> nat \<Rightarrow> 'a) \<Rightarrow> 'a \<Rightarrow> 'a series \<Rightarrow> 'a series" where
  "append_hour op dv v s =
     (let s1 = s\<lparr>sr_array := (sr_array s)[120 + sr_nhour s := v], sr_nhour := sr_nhour s + 1\<rparr> in
      if sr_nhour s1 \<ge> 24 then
        let s2 = s1\<lparr>sr_nhour := 0\<rparr>; tmp = foldl (\<lambda>tmp i. op tmp (sr_hour s2 i)) (sr_hour s2 0) [1..<24] in
        append_day (inplace_divide op dv tmp 24) s2
      else s1)"

definition append_minute :: "('a :: numeral \<Rightarrow> 'a \<Rightarrow> 'a) \<Rightarrow> ('a \<Rightarrow> nat \<Rightarrow> 'a) \<Rightarrow> 'a \<Rightarrow> 'a series \<Rightarrow> 'a series" where
  "append_minute op dv v s =
     (let s1 = s\<lparr>sr_array := (sr_array s)[60 + sr_nminute s := v], sr_nminute := sr_nminute s + 1\<rparr> in
      if sr_nminute s1 \<ge> 60 then
        let s2 = s1\<lparr>sr_nminute := 0\<rparr>; tmp = foldl (\<lambda>tmp i. op tmp (sr_minute s2 i)) (sr_minute s2 0) [1..<60] in
        append_hour op dv (inplace_divide op dv tmp 60) s2
      else s1)"

definition append_second :: "('a :: numeral \<Rightarrow> 'a \<Rightarrow> 'a) \<Rightarrow> ('a \<Rightarrow> nat \<Rightarrow> 'a) \<Rightarrow> 'a \<Rightarrow> 'a series \<Rightarrow> 'a series" where
  "append_second op dv v s =
     (let s1 = s\<lparr>sr_array := (sr_array s)[sr_nsecond s := v], sr_nsecond := sr_nsecond s + 1\<rparr> in
      if sr_nsecond s1 \<ge> 60 then
        let s2 = s1\<lparr>sr_nsecond := 0\<rparr>; tmp = foldl (\<lambda>tmp i. op tmp (sr_second s2 i)) (sr_second s2 0) [1..<60] in
        append_minute op dv (inplace_divide op dv tmp 60) s2
      else s1)"

section \<open>Describing\<close>

text \<open>One of the four loops: \<open>c\<close> numbers the points over all of them.\<close>

fun describe_loop :: "('a \<Rightarrow> string) \<Rightarrow> (nat \<Rightarrow> 'a) \<Rightarrow> nat list \<Rightarrow> nat \<times> string \<Rightarrow> nat \<times> string" where
  "describe_loop pr get [] (c, os) = (c, os)"
| "describe_loop pr get (i # is) (c, os) =
     describe_loop pr get is (c + 1, (if c \<noteq> 0 then os @ '','' else os) @ ''['' @ dec c @ '','' @ pr (get i) @ '']'')"

definition describe :: "('a \<Rightarrow> string) \<Rightarrow> 'a series \<Rightarrow> string" where
  "describe pr s =
     (let os0 = (0, ''{'' @ [CHR 0x22] @ ''label'' @ [CHR 0x22] @ '':'' @ [CHR 0x22] @ ''trend'' @ [CHR 0x22] @ '','' @ [CHR 0x22] @ ''data'' @ [CHR 0x22] @ '':['');
          os1 = describe_loop pr (\<lambda>i. sr_day s ((i + sr_nday s) mod 30)) [0..<30] os0;
          os2 = describe_loop pr (\<lambda>i. sr_hour s ((i + sr_nhour s) mod 24)) [0..<24] os1;
          os3 = describe_loop pr (\<lambda>i. sr_minute s ((i + sr_nminute s) mod 60)) [0..<60] os2;
          (c, os) = describe_loop pr (\<lambda>i. sr_second s ((i + sr_nsecond s) mod 60)) [0..<60] os3
      in os @ '']}'')"

section \<open>What a series stands for\<close>

text \<open>The last \<open>n\<close> values, with zeros before the first one.\<close>

definition recent :: "nat \<Rightarrow> 'a :: zero list \<Rightarrow> 'a list" where
  "recent n xs = drop (length xs) (replicate n 0 @ xs)"

text \<open>The values of the next longer unit: \<open>n\<close> values at a time, folded and divided.\<close>

definition fold_all :: "('a \<Rightarrow> 'a \<Rightarrow> 'a) \<Rightarrow> 'a list \<Rightarrow> 'a" where
  "fold_all op xs = foldl op (hd xs) (tl xs)"

definition rolled :: "('a :: numeral \<Rightarrow> 'a \<Rightarrow> 'a) \<Rightarrow> ('a \<Rightarrow> nat \<Rightarrow> 'a) \<Rightarrow> nat \<Rightarrow> 'a list \<Rightarrow> 'a list" where
  "rolled op dv n xs = map (\<lambda>k. inplace_divide op dv (fold_all op (take n (drop (k * n) xs))) n) [0..<length xs div n]"

definition ring :: "nat \<Rightarrow> nat \<Rightarrow> 'a :: zero list \<Rightarrow> 'a list \<Rightarrow> nat \<Rightarrow> bool" where
  "ring off n xs arr idx \<longleftrightarrow> idx = length xs mod n \<and> (\<forall>i < n. arr ! (off + (i + idx) mod n) = recent n xs ! i)"

lemma length_recent [simp]: "length (recent n xs) = n"
  by (simp add: recent_def)

lemma recent_snoc:
  assumes "0 < n"
  shows "recent n (xs @ [v]) = tl (recent n xs) @ [v]"
proof -
  define ys where "ys = replicate n 0 @ xs"
  have "Suc (length xs) \<le> length ys" using assms by (simp add: ys_def)
  then have "drop (Suc (length xs)) (ys @ [v]) = tl (drop (length xs) ys) @ [v]" by (simp add: drop_Suc tl_drop)
  then show ?thesis unfolding recent_def ys_def by (simp only: append_assoc length_append_singleton)
qed

lemma ring_put:
  assumes r: "ring off n xs arr idx" and n: "0 < n" "off + n \<le> length arr"
  shows "ring off n (xs @ [v]) (arr[off + idx := v]) (if idx + 1 \<ge> n then 0 else idx + 1)"
proof -
  have idx: "idx = length xs mod n" "idx < n" using r n(1) by (auto simp: ring_def)
  have new: "(if idx + 1 \<ge> n then 0 else idx + 1) = length (xs @ [v]) mod n" using idx by (auto simp: mod_Suc)
  have "arr[off + idx := v] ! (off + (i + length (xs @ [v])) mod n) = recent n (xs @ [v]) ! i" if "i < n" for i
  proof (cases "i = n - 1")
    case True
    then have "(i + length (xs @ [v])) mod n = idx" using idx n(1) by (simp add: mod_Suc)
    then show ?thesis using True recent_snoc [OF n(1), of xs v] n idx(2) by (simp add: nth_append)
  next
    case False
    then have i: "i + 1 < n" using that by simp
    have e: "(i + length (xs @ [v])) mod n = (i + 1 + idx) mod n" unfolding idx(1) by (simp add: mod_add_right_eq [of "Suc i" "length xs" n, simplified])
    have "(i + 1 + idx) mod n \<noteq> idx"
    proof (cases "i + 1 + idx < n")
      case True
      then show ?thesis by simp
    next
      case False
      then have "(i + 1 + idx) mod n = i + 1 + idx - n" using i idx(2) by (simp add: le_mod_geq)
      then show ?thesis using i False by linarith
    qed
    then have "arr[off + idx := v] ! (off + (i + 1 + idx) mod n) = arr ! (off + (i + 1 + idx) mod n)" by simp
    also have "\<dots> = recent n xs ! (i + 1)" using r i unfolding ring_def by blast
    also have "\<dots> = recent n (xs @ [v]) ! i"
    proof -
      have "i < length (tl (recent n xs))" using i by simp
      then show ?thesis unfolding recent_snoc [OF n(1), of xs v] by (simp add: nth_append nth_tl)
    qed
    finally show ?thesis unfolding e .
  qed
  then show ?thesis unfolding ring_def new by (simp add: mod_add_right_eq)
qed

lemma ring_other: "ring off n xs arr idx \<Longrightarrow> 0 < n \<Longrightarrow> j < off \<or> off + n \<le> j \<Longrightarrow> ring off n xs (arr[j := v]) idx"
proof -
  assume a: "ring off n xs arr idx" "0 < n" "j < off \<or> off + n \<le> j"
  have "off + (i + idx) mod n \<noteq> j" for i using a(2,3) mod_less_divisor [OF a(2), of "i + idx"] by linarith
  then have "arr[j := v] ! (off + (i + idx) mod n) = arr ! (off + (i + idx) mod n)" for i by (metis nth_list_update_neq)
  then show ?thesis using a(1) unfolding ring_def by metis
qed

lemma ring_frame: "ring off n xs arr idx \<Longrightarrow> 0 < n \<Longrightarrow> (\<And>i. i < off + n \<Longrightarrow> arr' ! i = arr ! i) \<Longrightarrow> ring off n xs arr' idx"
  unfolding ring_def by (metis add_strict_left_mono mod_less_divisor)

text \<open>When a part has been filled once round, its values are those since the last time, in order.\<close>

lemma recent_full: "n \<le> length xs \<Longrightarrow> recent n xs = drop (length xs - n) xs"
  by (simp add: recent_def)

lemma ring_fold:
  assumes r: "ring off n xs arr 0" and n: "0 < n" "n \<le> length xs"
  shows "foldl (\<lambda>tmp i. op tmp (arr ! (off + i))) (arr ! off) [1..<n] = fold_all op (drop (length xs - n) xs)"
proof -
  have "arr ! (off + i) = recent n xs ! i" if "i < n" for i using r that by (simp add: ring_def)
  then have m: "map (\<lambda>i. arr ! (off + i)) [0..<n] = drop (length xs - n) xs" using recent_full [OF n(2)] by (intro nth_equalityI) (auto simp: n)
  have u: "[0..<n] = 0 # [1..<n]" using n(1) by (simp add: upt_rec)
  have "foldl (\<lambda>tmp i. op tmp (arr ! (off + i))) x is = foldl op x (map (\<lambda>i. arr ! (off + i)) is)" for x "is" by (simp add: foldl_map)
  then show ?thesis unfolding fold_all_def m [symmetric] u by simp
qed

lemma rolled_snoc:
  assumes "0 < n"
  shows "rolled op dv n (xs @ [v]) =
    (if (length xs + 1) mod n = 0 then rolled op dv n xs @ [inplace_divide op dv (fold_all op (drop (length (xs @ [v]) - n) (xs @ [v]))) n] else rolled op dv n xs)"
proof -
  have old: "map (\<lambda>k. inplace_divide op dv (fold_all op (take n (drop (k * n) (xs @ [v])))) n) [0..<length xs div n] = rolled op dv n xs"
    unfolding rolled_def
  proof (rule map_cong [OF refl])
    fix k assume "k \<in> set [0..<length xs div n]"
    then have "k + 1 \<le> length xs div n" by simp
    then have "(k + 1) * n \<le> length xs div n * n" by (rule mult_le_mono1)
    then have "k * n + n \<le> length xs div n * n" by (simp add: add.commute)
    then have "k * n + n \<le> length xs" using div_times_less_eq_dividend [of "length xs" n] by linarith
    then show "inplace_divide op dv (fold_all op (take n (drop (k * n) (xs @ [v])))) n = inplace_divide op dv (fold_all op (take n (drop (k * n) xs))) n" by simp
  qed
  show ?thesis
  proof (cases "(length xs + 1) mod n = 0")
    case True
    then have d: "Suc (length xs) div n = Suc (length xs div n)" using assms by (simp add: div_Suc)
    have "Suc (length xs) = Suc (length xs) div n * n" using True div_mult_mod_eq [of "Suc (length xs)" n] by simp
    then have "length (xs @ [v]) - n = length xs div n * n" unfolding d by simp
    moreover have "take n (drop (length xs div n * n) (xs @ [v])) = drop (length xs div n * n) (xs @ [v])"
      using \<open>Suc (length xs) = Suc (length xs) div n * n\<close> unfolding d by simp
    ultimately show ?thesis using True d old by (simp add: rolled_def)
  next
    case False
    then have "Suc (length xs) div n = length xs div n" by (simp add: div_Suc)
    then show ?thesis using False old by (simp add: rolled_def)
  qed
qed

text \<open>The parts for days, from hours on, from minutes on, and all.\<close>

definition day_rep :: "'a :: {numeral, zero} list \<Rightarrow> 'a series \<Rightarrow> bool" where
  "day_rep ds s \<longleftrightarrow> length (sr_array s) = 174 \<and> ring 144 30 ds (sr_array s) (sr_nday s)"

definition hour_rep :: "('a :: {numeral, zero} \<Rightarrow> 'a \<Rightarrow> 'a) \<Rightarrow> ('a \<Rightarrow> nat \<Rightarrow> 'a) \<Rightarrow> 'a list \<Rightarrow> 'a series \<Rightarrow> bool" where
  "hour_rep op dv hs s \<longleftrightarrow> ring 120 24 hs (sr_array s) (sr_nhour s) \<and> day_rep (rolled op dv 24 hs) s"

definition minute_rep :: "('a :: {numeral, zero} \<Rightarrow> 'a \<Rightarrow> 'a) \<Rightarrow> ('a \<Rightarrow> nat \<Rightarrow> 'a) \<Rightarrow> 'a list \<Rightarrow> 'a series \<Rightarrow> bool" where
  "minute_rep op dv ms s \<longleftrightarrow> ring 60 60 ms (sr_array s) (sr_nminute s) \<and> hour_rep op dv (rolled op dv 60 ms) s"

definition series_rep :: "('a :: {numeral, zero} \<Rightarrow> 'a \<Rightarrow> 'a) \<Rightarrow> ('a \<Rightarrow> nat \<Rightarrow> 'a) \<Rightarrow> 'a list \<Rightarrow> 'a series \<Rightarrow> bool" where
  "series_rep op dv vs s \<longleftrightarrow> ring 0 60 vs (sr_array s) (sr_nsecond s) \<and> minute_rep op dv (rolled op dv 60 vs) s"

text \<open>What an append to a part leaves alone: the counters and the array before it.\<close>

definition kept_before :: "nat \<Rightarrow> 'a series \<Rightarrow> 'a series \<Rightarrow> bool" where
  "kept_before off s s' \<longleftrightarrow> (\<forall>i < off. sr_array s' ! i = sr_array s ! i)"

lemmas rep_defs = day_rep_def hour_rep_def minute_rep_def series_rep_def

text \<open>One circular part of a series.\<close>

lemma ring_step:
  assumes r: "ring off n xs arr idx" and n: "0 < n" "off + n \<le> length arr"
  shows "idx + 1 \<ge> n \<longleftrightarrow> (length xs + 1) mod n = 0"
    "idx + 1 \<ge> n \<Longrightarrow> ring off n (xs @ [v]) (arr[off + idx := v]) 0 \<and>
       foldl (\<lambda>tmp i. op tmp (arr[off + idx := v] ! (off + i))) (arr[off + idx := v] ! off) [1..<n] = fold_all op (drop (length (xs @ [v]) - n) (xs @ [v]))"
    "\<not> idx + 1 \<ge> n \<Longrightarrow> ring off n (xs @ [v]) (arr[off + idx := v]) (idx + 1)"
proof -
  have idx: "idx = length xs mod n" using r by (simp add: ring_def)
  show i: "idx + 1 \<ge> n \<longleftrightarrow> (length xs + 1) mod n = 0" unfolding idx using mod_less_divisor [OF n(1), of "length xs"] by (auto simp: mod_Suc)
  show "ring off n (xs @ [v]) (arr[off + idx := v]) 0 \<and>
       foldl (\<lambda>tmp i. op tmp (arr[off + idx := v] ! (off + i))) (arr[off + idx := v] ! off) [1..<n] = fold_all op (drop (length (xs @ [v]) - n) (xs @ [v]))" if "idx + 1 \<ge> n"
  proof
    show p: "ring off n (xs @ [v]) (arr[off + idx := v]) 0" using ring_put [OF r n, of v] that by simp
    have "n \<le> length (xs @ [v])" using i that n(1) by (metis dvd_imp_le length_append_singleton Suc_eq_plus1 dvd_eq_mod_eq_0 zero_less_Suc)
    then show "foldl (\<lambda>tmp i. op tmp (arr[off + idx := v] ! (off + i))) (arr[off + idx := v] ! off) [1..<n] = fold_all op (drop (length (xs @ [v]) - n) (xs @ [v]))"
      by (rule ring_fold [OF p n(1)])
  qed
  show "ring off n (xs @ [v]) (arr[off + idx := v]) (idx + 1)" if "\<not> idx + 1 \<ge> n" using ring_put [OF r n, of v] that by simp
qed

lemma idx_bound: "ring off n xs arr idx \<Longrightarrow> 0 < n \<Longrightarrow> idx < n"
  by (simp add: ring_def)

lemma append_day_ok:
  assumes "day_rep ds s"
  shows "day_rep (ds @ [v]) (append_day v s)" "kept_before 144 s (append_day v s)"
    "sr_nsecond (append_day v s) = sr_nsecond s" "sr_nminute (append_day v s) = sr_nminute s" "sr_nhour (append_day v s) = sr_nhour s"
proof -
  have r: "ring 144 30 ds (sr_array s) (sr_nday s)" "length (sr_array s) = 174" using assms by (simp_all add: day_rep_def)
  show "day_rep (ds @ [v]) (append_day v s)" using ring_put [OF r(1), of v] r(2) by (auto simp: day_rep_def append_day_def Let_def split: if_splits)
qed (simp_all add: append_day_def Let_def kept_before_def)

lemma ring_before: "ring off n xs (sr_array s) idx \<Longrightarrow> 0 < n \<Longrightarrow> off + n \<le> b \<Longrightarrow> kept_before b s s' \<Longrightarrow> ring off n xs (sr_array s') idx"
  unfolding kept_before_def by (rule ring_frame) auto

lemma append_hour_ok:
  assumes "hour_rep op dv hs s"
  shows "hour_rep op dv (hs @ [v]) (append_hour op dv v s) \<and> kept_before 120 s (append_hour op dv v s) \<and>
    sr_nsecond (append_hour op dv v s) = sr_nsecond s \<and> sr_nminute (append_hour op dv v s) = sr_nminute s"
proof -
  have r: "ring 120 24 hs (sr_array s) (sr_nhour s)" "length (sr_array s) = 174" and d: "day_rep (rolled op dv 24 hs) s"
    using assms by (simp_all add: rep_defs)
  note st = ring_step [OF r(1)] and b = idx_bound [OF r(1)]
  let ?a = "(sr_array s)[120 + sr_nhour s := v]"
  have d': "day_rep (rolled op dv 24 hs) (s\<lparr>sr_array := ?a, sr_nhour := h\<rparr>)" for h
    using d ring_other [of 144 30 _ "sr_array s" "sr_nday s" "120 + sr_nhour s" v] b by (simp add: day_rep_def)
  show ?thesis
  proof (cases "sr_nhour s + 1 \<ge> 24")
    case True
    let ?s = "s\<lparr>sr_array := ?a, sr_nhour := 0\<rparr>"
    define x where "x = inplace_divide op dv (fold_all op (drop (length (hs @ [v]) - 24) (hs @ [v]))) 24"
    have e: "append_hour op dv v s = append_day x ?s" using True st(2) [of v op] r(2) by (simp add: append_hour_def Let_def sr_hour_def x_def)
    have "rolled op dv 24 (hs @ [v]) = rolled op dv 24 hs @ [x]" using True st(1) r(2) rolled_snoc [of 24 op dv hs v] by (simp add: x_def)
    then have "day_rep (rolled op dv 24 (hs @ [v])) (append_day x ?s)" using append_day_ok(1) [OF d' [of 0], of x] by simp
    moreover have "ring 120 24 (hs @ [v]) (sr_array (append_day x ?s)) (sr_nhour (append_day x ?s))"
      using st(2) [of v op] True r(2) append_day_ok(2,5) [OF d' [of 0], of x] ring_before [of 120 24 "hs @ [v]" ?s 0 144] by simp
    moreover have "kept_before 120 s (append_day x ?s)" using append_day_ok(2) [OF d' [of 0], of x] by (simp add: kept_before_def)
    ultimately show ?thesis unfolding e hour_rep_def using append_day_ok(3,4) [OF d' [of 0], of x] by simp
  next
    case False
    have "append_hour op dv v s = s\<lparr>sr_array := ?a, sr_nhour := sr_nhour s + 1\<rparr>" using False by (simp add: append_hour_def Let_def)
    then show ?thesis using False st(1,3) r(2) rolled_snoc [of 24 op dv hs v] d' by (simp add: hour_rep_def kept_before_def)
  qed
qed

lemma append_minute_ok:
  assumes "minute_rep op dv ms s"
  shows "minute_rep op dv (ms @ [v]) (append_minute op dv v s) \<and> kept_before 60 s (append_minute op dv v s) \<and>
    sr_nsecond (append_minute op dv v s) = sr_nsecond s"
proof -
  have r: "ring 60 60 ms (sr_array s) (sr_nminute s)" "length (sr_array s) = 174" and d: "hour_rep op dv (rolled op dv 60 ms) s"
    using assms by (simp_all add: rep_defs)
  note st = ring_step [OF r(1)] and b = idx_bound [OF r(1)]
  let ?a = "(sr_array s)[60 + sr_nminute s := v]"
  have d': "hour_rep op dv (rolled op dv 60 ms) (s\<lparr>sr_array := ?a, sr_nminute := h\<rparr>)" for h
    using d ring_other [of 144 30 _ "sr_array s" "sr_nday s" "60 + sr_nminute s" v] ring_other [of 120 24 _ "sr_array s" "sr_nhour s" "60 + sr_nminute s" v] b
    by (simp add: rep_defs)
  show ?thesis
  proof (cases "sr_nminute s + 1 \<ge> 60")
    case True
    let ?s = "s\<lparr>sr_array := ?a, sr_nminute := 0\<rparr>"
    define x where "x = inplace_divide op dv (fold_all op (drop (length (ms @ [v]) - 60) (ms @ [v]))) 60"
    note h = append_hour_ok [OF d' [of 0], of x]
    have e: "append_minute op dv v s = append_hour op dv x ?s" using True st(2) [of v op] r(2) by (simp add: append_minute_def Let_def sr_minute_def x_def)
    have "rolled op dv 60 (ms @ [v]) = rolled op dv 60 ms @ [x]" using True st(1) r(2) rolled_snoc [of 60 op dv ms v] by (simp add: x_def)
    then have "hour_rep op dv (rolled op dv 60 (ms @ [v])) (append_hour op dv x ?s)" using h by simp
    moreover have "ring 60 60 (ms @ [v]) (sr_array (append_hour op dv x ?s)) (sr_nminute (append_hour op dv x ?s))"
      using st(2) [of v op] True r(2) h ring_before [of 60 60 "ms @ [v]" ?s 0 120] by simp
    moreover have "kept_before 60 s (append_hour op dv x ?s)" using h by (simp add: kept_before_def)
    ultimately show ?thesis unfolding e minute_rep_def using h by simp
  next
    case False
    have "append_minute op dv v s = s\<lparr>sr_array := ?a, sr_nminute := sr_nminute s + 1\<rparr>" using False by (simp add: append_minute_def Let_def)
    then show ?thesis using False st(1,3) r(2) rolled_snoc [of 60 op dv ms v] d' by (simp add: minute_rep_def kept_before_def)
  qed
qed

lemma append_second_ok:
  assumes "series_rep op dv vs s"
  shows "series_rep op dv (vs @ [v]) (append_second op dv v s)"
proof -
  have r: "ring 0 60 vs (sr_array s) (sr_nsecond s)" "length (sr_array s) = 174" and d: "minute_rep op dv (rolled op dv 60 vs) s"
    using assms by (simp_all add: rep_defs)
  note st = ring_step [OF r(1)] and b = idx_bound [OF r(1)]
  let ?a = "(sr_array s)[sr_nsecond s := v]"
  have d': "minute_rep op dv (rolled op dv 60 vs) (s\<lparr>sr_array := ?a, sr_nsecond := h\<rparr>)" for h
    using d ring_other [of 144 30 _ "sr_array s" "sr_nday s" "sr_nsecond s" v] ring_other [of 120 24 _ "sr_array s" "sr_nhour s" "sr_nsecond s" v]
      ring_other [of 60 60 _ "sr_array s" "sr_nminute s" "sr_nsecond s" v] b by (simp add: rep_defs)
  show ?thesis
  proof (cases "sr_nsecond s + 1 \<ge> 60")
    case True
    let ?s = "s\<lparr>sr_array := ?a, sr_nsecond := 0\<rparr>"
    define x where "x = inplace_divide op dv (fold_all op (drop (length (vs @ [v]) - 60) (vs @ [v]))) 60"
    note h = append_minute_ok [OF d' [of 0], of x]
    have e: "append_second op dv v s = append_minute op dv x ?s" using True st(2) [of v op] r(2) by (simp add: append_second_def Let_def sr_second_def x_def)
    have "rolled op dv 60 (vs @ [v]) = rolled op dv 60 vs @ [x]" using True st(1) r(2) rolled_snoc [of 60 op dv vs v] by (simp add: x_def)
    then have "minute_rep op dv (rolled op dv 60 (vs @ [v])) (append_minute op dv x ?s)" using h by simp
    moreover have "ring 0 60 (vs @ [v]) (sr_array (append_minute op dv x ?s)) (sr_nsecond (append_minute op dv x ?s))"
      using st(2) [of v op] True r(2) h ring_before [of 0 60 "vs @ [v]" ?s 0 60] by simp
    ultimately show ?thesis unfolding e series_rep_def by simp
  next
    case False
    have "append_second op dv v s = s\<lparr>sr_array := ?a, sr_nsecond := sr_nsecond s + 1\<rparr>" using False by (simp add: append_second_def Let_def)
    then show ?thesis using False st(1,3) r(2) rolled_snoc [of 60 op dv vs v] d' by (simp add: series_rep_def)
  qed
qed

lemma ring_start: "0 < n \<Longrightarrow> off + n \<le> m \<Longrightarrow> ring off n [] (replicate m 0) 0"
  by (simp add: ring_def recent_def less_le_trans)

lemma series_rep_start: "series_rep op dv [] SeriesBase"
  by (simp add: rep_defs SeriesBase_def rolled_def ring_start)

lemma append_all_ok: "series_rep op dv vs (foldl (\<lambda>s v. append_second op dv v s) SeriesBase vs)"
  by (induction vs rule: rev_induct) (simp_all add: series_rep_start append_second_ok)

section \<open>The printed trend\<close>

text \<open>Numbered points, separated by commas.\<close>

definition points :: "('a \<Rightarrow> string) \<Rightarrow> 'a list \<Rightarrow> string" where
  "points pr xs = join '','' (map (\<lambda>(c, x). ''['' @ dec c @ '','' @ pr x @ '']'') (enumerate 0 xs))"

definition trend :: "('a \<Rightarrow> string) \<Rightarrow> 'a list \<Rightarrow> string" where
  "trend pr xs = ''{'' @ [CHR 0x22] @ ''label'' @ [CHR 0x22] @ '':'' @ [CHR 0x22] @ ''trend'' @ [CHR 0x22] @ '','' @ [CHR 0x22] @ ''data'' @ [CHR 0x22] @ '':['' @
     points pr xs @ '']}''"

lemma points_snoc: "points pr (xs @ [x]) = (if xs = [] then [] else points pr xs @ '','') @ ''['' @ dec (length xs) @ '','' @ pr x @ '']''"
proof -
  have "enumerate 0 xs = [] \<longleftrightarrow> xs = []" by (cases xs) auto
  then show ?thesis by (simp add: points_def enumerate_append_eq)
qed

lemma describe_loop_ok:
  "describe_loop pr get is (length xs, os @ points pr xs) = (length xs + length is, os @ points pr (xs @ map get is))"
proof (induction "is" arbitrary: xs)
  case (Cons i "is")
  then show ?case using Cons [of "xs @ [get i]"] points_snoc [of pr xs "get i"] by (auto simp: points_def)
qed simp

lemma read_ring: "ring off n xs arr idx \<Longrightarrow> map (\<lambda>i. arr ! (off + (i + idx) mod n)) [0..<n] = recent n xs"
  by (rule nth_equalityI) (auto simp: ring_def)

lemma describe_ok:
  assumes "series_rep op dv vs s"
  defines "ms \<equiv> rolled op dv 60 vs" defines "hs \<equiv> rolled op dv 60 ms" defines "ds \<equiv> rolled op dv 24 hs"
  shows "describe pr s = trend pr (recent 30 ds @ recent 24 hs @ recent 60 ms @ recent 60 vs)"
proof -
  have r: "ring 144 30 ds (sr_array s) (sr_nday s)" "ring 120 24 hs (sr_array s) (sr_nhour s)" "ring 60 60 ms (sr_array s) (sr_nminute s)" "ring 0 60 vs (sr_array s) (sr_nsecond s)"
    using assms(1) by (simp_all add: rep_defs ms_def hs_def ds_def)
  define os where "os = ''{'' @ [CHR 0x22] @ ''label'' @ [CHR 0x22] @ '':'' @ [CHR 0x22] @ ''trend'' @ [CHR 0x22] @ '','' @ [CHR 0x22] @ ''data'' @ [CHR 0x22] @ '':[''"
  have 1: "describe_loop pr (\<lambda>i. sr_day s ((i + sr_nday s) mod 30)) [0..<30] (0, os) = (30, os @ points pr (recent 30 ds))"
    using describe_loop_ok [of pr "\<lambda>i. sr_day s ((i + sr_nday s) mod 30)" "[0..<30]" "[]" os] read_ring [OF r(1)] by (simp add: points_def sr_day_def)
  have 2: "describe_loop pr (\<lambda>i. sr_hour s ((i + sr_nhour s) mod 24)) [0..<24] (30, os @ points pr (recent 30 ds)) = (54, os @ points pr (recent 30 ds @ recent 24 hs))"
    using describe_loop_ok [of pr "\<lambda>i. sr_hour s ((i + sr_nhour s) mod 24)" "[0..<24]" "recent 30 ds" os] read_ring [OF r(2)] by (simp add: sr_hour_def)
  have 3: "describe_loop pr (\<lambda>i. sr_minute s ((i + sr_nminute s) mod 60)) [0..<60] (54, os @ points pr (recent 30 ds @ recent 24 hs)) =
      (114, os @ points pr (recent 30 ds @ recent 24 hs @ recent 60 ms))"
    using describe_loop_ok [of pr "\<lambda>i. sr_minute s ((i + sr_nminute s) mod 60)" "[0..<60]" "recent 30 ds @ recent 24 hs" os] read_ring [OF r(3)] by (simp add: sr_minute_def)
  have 4: "describe_loop pr (\<lambda>i. sr_second s ((i + sr_nsecond s) mod 60)) [0..<60] (114, os @ points pr (recent 30 ds @ recent 24 hs @ recent 60 ms)) =
      (174, os @ points pr (recent 30 ds @ recent 24 hs @ recent 60 ms @ recent 60 vs))"
    using describe_loop_ok [of pr "\<lambda>i. sr_second s ((i + sr_nsecond s) mod 60)" "[0..<60]" "recent 30 ds @ recent 24 hs @ recent 60 ms" os] read_ring [OF r(4)]
    by (simp add: sr_second_def)
  show ?thesis unfolding describe_def os_def [symmetric] Let_def 1 2 3 4 by (simp add: trend_def os_def)
qed

text \<open>
C24: After any values were appended to an empty series, one per second, the description lists, oldest first and with zeros where there is
no value yet, the last 30 days, 24 hours, 60 minutes and 60 seconds, where a minute stands for 60 values folded with the
operation of the variable and divided by 60 when that operation looks like an addition, an hour for 60 such minutes and a day for 24
such hours.
\<close>

theorem series_shows_trend:
  "let ms = rolled op dv 60 vs; hs = rolled op dv 60 ms; ds = rolled op dv 24 hs in
   describe pr (foldl (\<lambda>s v. append_second op dv v s) SeriesBase vs) = trend pr (recent 30 ds @ recent 24 hs @ recent 60 ms @ recent 60 vs)"
  unfolding Let_def by (rule describe_ok [OF append_all_ok])

end
