(* ===== verification/Spec2Isabelle.thy ===== *)
theory Spec2Isabelle
  imports Server BoundedQueue MruCache FlatMapOps HttpService KafkaQueue Migration ConnectionPool WorkSteal Recorder
    DoublyBuffered ResourceIds SocketRef PercentileWindow Series
begin

text \<open>
  A verification library for the torrent server of \<^verbatim>\<open>brpc-server\<close>.

  \<^bold>\<open>The program.\<close>  The server follows a block chain.  A periodic task asks a full node for the blocks from the
  next number on, records the number in LevelDB and puts each block into an execution queue.  The consumer of
  that queue applies the operations of the block to a second LevelDB, which holds torrents and payments, and
  collects rows for MySQL.  Another periodic task turns the rows into one statement per table and puts the
  statements into a second execution queue, whose consumer takes a connection from a lock-free pool and executes
  them.  HTTP handlers answer queries from the LevelDB, from MySQL through the same pool, and from a user node.
  A separate tool migrates an older database.  The repository holds the sources of all that, the vendored
  lock-free queue, and the headers of the brpc library; the brpc library's own source files are not in it.

  \<^bold>\<open>The theories and the code they model\<close> (paths under \<^verbatim>\<open>src/\<close>).

  \<^item> \<open>Prelude\<close>: the faults that end a C++ run (\<open>fault\<close>), the result type \<open>res\<close> with \<open>res_bind\<close>, the machine
    types, \<^verbatim>\<open>std::map\<close> as a sorted association list.  \<open>CFormat\<close>: number formats of the C library.  \<open>LevelDb\<close>:
    the contract of LevelDB as a locale.  \<open>Chain\<close>: the blocks and operations of the chain.
  \<^item> \<open>BlockLevelDb\<close>: \<^verbatim>\<open>lib/block_leveldb.cpp\<close>.  \<open>Fullnode\<close>: \<^verbatim>\<open>lib/fullnode.cpp\<close> and \<^verbatim>\<open>lib/block_task.cpp\<close>.
    \<open>ExecutionQueue\<close>, \<open>VRef\<close>, \<open>TimeUtil\<close>: the parts of the brpc headers behind them.
  \<^item> \<open>TorrentDb\<close>: \<^verbatim>\<open>service/torrent_server/ts_database.cpp\<close>.  \<open>Torrent\<close>: \<^verbatim>\<open>ts_config.cpp\<close> and \<^verbatim>\<open>torrent.cpp\<close>.
    \<open>HandleBlock\<close>: \<^verbatim>\<open>handle_block.cpp\<close>.  \<open>HttpService\<close> and \<open>SplitString\<close>: \<^verbatim>\<open>http_service.cpp\<close>.
    \<open>Server\<close>: \<^verbatim>\<open>torrent_server.cpp\<close>, which composes the others.
  \<^item> \<open>MysqlQueue\<close>: \<^verbatim>\<open>lib/mysql_exe_queue.cpp\<close> and \<^verbatim>\<open>lib/mysql_task.cpp\<close>, over any pool that satisfies the locale
    \<open>concurrent_bag\<close> of \<open>CqSpec\<close>.  \<open>CqBlock\<close>, \<open>CqIndex\<close>, \<open>CqProducer\<close>, \<open>CqHash\<close>, \<open>CqQueue\<close>, \<open>CqTrace\<close>:
    \<^verbatim>\<open>lib/concurrentqueue.h\<close>, from its blocks up to whole histories of calls.  \<open>ConnectionPool\<close> puts the pool on
    that queue.  \<open>KafkaQueue\<close>: \<^verbatim>\<open>lib/kafka_exe_queue.cpp\<close>.
  \<^item> \<open>Migration\<close>: \<^verbatim>\<open>service/tools/main.cpp\<close>.
  \<^item> \<open>WorkSteal\<close>: \<^verbatim>\<open>brpc/include/bthread/work_stealing_queue.h\<close>, and \<open>Recorder\<close>: \<^verbatim>\<open>bvar/recorder.h\<close> on
    \<^verbatim>\<open>bvar/detail/combiner.h\<close>, and \<open>DoublyBuffered\<close>: \<^verbatim>\<open>butil/containers/doubly_buffered_data.h\<close>.
    \<open>ResourcePool\<close>, \<open>ResourceGroups\<close>, \<open>ResourceIds\<close>: \<^verbatim>\<open>butil/resource_pool_inl.h\<close>, its operations, its groups of blocks and
    its ids.  \<open>SocketRef\<close>: the reference counts of \<^verbatim>\<open>brpc/socket_inl.h\<close> for the sockets that follow each other on one slot of
    that pool.  All of these step by step.
  \<^item> \<open>Percentile\<close>, \<open>PercentileWindow\<close>: the samples of \<^verbatim>\<open>bvar/detail/percentile.h\<close>, one interval at a time and as a whole.  \<open>Series\<close>:
    the trend of a variable in \<^verbatim>\<open>bvar/detail/series.h\<close>.
  \<^item> \<open>FlatMap\<close>, \<open>FlatMapOps\<close> on \<open>BitArray\<close> and \<open>NodePool\<close>, \<open>BoundedQueue\<close>, \<open>MruCache\<close>: containers of
    \<^verbatim>\<open>brpc/include/butil\<close>.

  The state of a class is a record with its members, an operation a function from the state to the result and the
  new state, in the order of the source.  A null or dangling pointer, a failed \<^verbatim>\<open>assert\<close>, an uncaught exception,
  signed overflow, reading a value nobody wrote and a loop that never ends are values of \<open>fault\<close>, so that a
  statement that an operation returns excludes them.  Unsigned integers are words of their width.

  \<^bold>\<open>Interfaces.\<close>  Libraries that are not in the repository are records of functions: LevelDB, MySQL, librdkafka,
  jansson, jsonxx, protobuf, the decimal library, the chain's \<open>share_type\<close>, HTTP calls, clocks, random numbers, memory allocation.
  What the code relies on is a locale over such a record, stating documented behaviour, and every locale has an
  interpretation: a small in-memory database or server for what is outside, and the model's own definitions for
  what is inside, such as the lock-free queue for \<open>concurrent_bag\<close> and the databases for \<open>record_store\<close>.  Where a statement is about
  the calls a component makes, the library is wrapped so that it records them (\<open>traced\<close> in \<open>MysqlQueue\<close>, \<open>traced_kafka\<close> in
  \<open>KafkaQueue\<close>) and may answer anything: nothing is assumed of what a failed call did.

  \<^bold>\<open>What is shown.\<close>  \<open>HandleBlock\<close>: while writes succeed and no id is used both for a torrent and for a payment, a block does to
  the stored torrents and payments what an abstract ledger says, and every record that is written and whose asset is known becomes
  exactly one row; settlements credit whole pieces; payments keep their torrents.
  \<open>Fullnode\<close>: whichever writes fail, blocks are handed to the queue with consecutive numbers; a rejected one is lost.
  \<open>MysqlQueue\<close>: every row is flushed once, statements are sent in order, each until the server settles it and not after that, the
  retry loop ends exactly when the server settles the statement, connections return to the pool and created ones are closed.
  \<open>ConnectionPool\<close>: the same on the lock-free queue, for the consumer and for the handlers of \<open>HttpService\<close>, one of which loses a
  connection when its query fails.  \<open>KafkaQueue\<close>: one call per message, in order.  \<open>Migration\<close>: every entry of the old database is
  converted and moved.  \<open>CqTrace\<close>: over any history of calls, with any pattern of
  refused allocations, the queue behaves like one first-in first-out list per thread, without ever failing an
  assertion, although its indices wrap around at \<open>2 ^ 64\<close>; while memory lasts every enqueue is accepted.
  \<open>WorkSteal\<close>: under every interleaving of an owner and its thieves the queue is a bounded deque, and the
  owner never waits.  \<open>Recorder\<close>: under every interleaving no sample is lost or counted twice.
  \<open>DoublyBuffered\<close>: readers see published values that nobody changes under them; a reader waits only for a modification that has the
  lock of the wrappers, or for the one step in which a modification has the reader's own lock, and a modification that has its lock
  waits only for readers.  \<open>ResourceIds\<close>: no id is given out twice, and every id keeps denoting the same object.  \<open>SocketRef\<close>: a
  socket is recycled once and not while anybody refers to it, old ids find nothing, calls are wait-free; a schedule is
  given in which a socket that is released without being failed is never recycled.  \<open>PercentileWindow\<close>: merging and combining samples count everything, keep
  what fits and share places in proportion, for every sequence of random numbers; a window that drops nothing gives exact percentiles.
  \<open>Series\<close>: what is printed is the recent history, rolled up into minutes, hours and days.
  \<open>HttpService\<close>: which answers agree with the stores and which do not.  \<open>Server\<close>: exit codes and the state after
  shutting down.  \<open>FlatMapOps\<close>, \<open>BoundedQueue\<close>, \<open>MruCache\<close>: refinements of a finite map, a bounded list and
  a recency list, and the inputs on which an operation of them is wrong: a sparse map of fewer than 64 buckets, whose iterator does
  not find the end, a copied empty map, and the bottom of a ring buffer that wraps around.

  \<^bold>\<open>Bounds.\<close>  Structural recursion bounds most loops.  The resizing of a flat map has fuel 64, enough because every
  level doubles the number of buckets.  A loop over the iterator of a map has the number of entries as fuel, as
  a longer one repeats.  The reversal of new tasks has the number of nodes as fuel.  A probe of a
  thread table has the length of the table as fuel and the copying of a block index the length of the index:
  each visits every slot once, and going round a second time would repeat for ever.  The doubling of a table's
  capacity has fuel 64, the width of the type.  The loops that may really not end, the MySQL retry and the
  ring buffer's modulus, are partial functions into \<open>option\<close>.  The queue's theorems ask for thread ids between 1
  and \<open>2 ^ 48\<close>: an id is the address of a thread-local variable in a user address space of 47 bits.  The theorems
  on sockets ask for fewer than \<open>2 ^ 31\<close> sockets on one slot, after which versions repeat, and for fewer than \<open>2 ^ 31\<close>
  references to a socket at a time, since the count is a signed 32-bit number.  Calling \<^verbatim>\<open>OnRecycle\<close> and returning the
  socket to the pool is one step of a recycling thread, and the bound of four steps counts it as one.
  Those on percentiles ask for fewer than \<open>2 ^ 32\<close> samples, the range of the counters, and for intervals of fewer than \<open>2 ^ 16\<close> places.

  \<^bold>\<open>Not modelled.\<close>  The interleaving of steps inside two concurrent operations, except in \<open>WorkSteal\<close>, \<open>Recorder\<close>,
  \<open>DoublyBuffered\<close>, \<open>ResourceIds\<close> and \<open>SocketRef\<close>: an operation
  protected by a mutex is one step, and so is a member function of \<^verbatim>\<open>lib/concurrentqueue.h\<close>, whose
  compare-and-exchange loops then succeed at once.  Memory models weaker than sequential consistency.  Explicit producers, tokens, bulk operations, moving and destroying of \<^verbatim>\<open>lib/concurrentqueue.h\<close>: the
  server uses none of them.  Log output.  The manual test programs and the examples.  The other headers under
  \<^verbatim>\<open>brpc/include\<close>, which declare a library whose implementation is not in the repository, and the third-party code
  vendored below it.
\<close>

end
